(* ===== verification/Smoc_Prelude.thy ===== *)
theory Smoc_Prelude
  imports Main "HOL-Library.Word" "HOL-Library.Monad_Syntax"
begin

text \<open>
  Shared vocabulary of the development: failures as values, the assertion monad, forward
  distances on a ring of \<open>m\<close> cells, and lemma collections.

  A C++ \<^verbatim>\<open>assert\<close> is modelled as \<^term>\<open>assert_that\<close>: a computation that has the value
  \<^term>\<open>None\<close> exactly when the assertion would fire.  Operations that throw instead of asserting
  return a \<open>result\<close>, whose left values are the failures.
\<close>

section \<open>Failures and assertions\<close>

datatype failure =
    AssertFailed
  | ModelingError string
  | RuntimeError string
  | NullDeref
  | Diverges

type_synonym 'a result = "failure + 'a"

text \<open>\<open>Diverges\<close> is the value of a call that never returns, such as an endless recursion.\<close>

definition rbind :: "'a result \<Rightarrow> ('a \<Rightarrow> 'b result) \<Rightarrow> 'b result" where
  "rbind r f = (case r of Inl e \<Rightarrow> Inl e | Inr x \<Rightarrow> f x)"

lemma rbind_simps [simp]: "rbind (Inl e) f = Inl e" "rbind (Inr x) f = f x"
  by (simp_all add: rbind_def)

lemma rbind_eq_Inr_iff: "rbind r f = Inr y \<longleftrightarrow> (\<exists>x. r = Inr x \<and> f x = Inr y)"
  by (cases r) auto

lemma rbind_cong [fundef_cong]: "r = r' \<Longrightarrow> (\<And>x. r' = Inr x \<Longrightarrow> f x = g x) \<Longrightarrow> rbind r f = rbind r' g"
  by (cases r') auto

definition rassert :: "bool \<Rightarrow> unit result" where
  "rassert b = (if b then Inr () else Inl AssertFailed)"

lemma rassert_bind [simp]: "rbind (rassert b) f = (if b then f () else Inl AssertFailed)"
  by (simp add: rassert_def)

definition assert_that :: "bool \<Rightarrow> unit option" where
  "assert_that b = (if b then Some () else None)"

lemma assert_that_simps [simp]:
  "assert_that True = Some ()"
  "assert_that False = None"
  by (simp_all add: assert_that_def)

lemma assert_that_bind [simp]:
  "Option.bind (assert_that b) f = (if b then f () else None)"
  by (simp add: assert_that_def)

lemma bind_eq_Some_iff:
  "Option.bind x f = Some y \<longleftrightarrow> (\<exists>z. x = Some z \<and> f z = Some y)"
  by (cases x) auto

section \<open>Distances and steps on a ring\<close>

named_theorems ring_defs \<open>definitions that turn ring positions into linear arithmetic\<close>

text \<open>Number of forward steps from cell \<open>a\<close> to cell \<open>b\<close> of a ring with \<open>m\<close> cells.\<close>

definition ring_dist :: "nat \<Rightarrow> nat \<Rightarrow> nat \<Rightarrow> nat" where
  [ring_defs]: "ring_dist m a b = (if a \<le> b then b - a else b + m - a)"

text \<open>The cell \<open>n\<close> steps after cell \<open>a\<close>, for \<open>n \<le> m\<close>.\<close>

definition ring_step :: "nat \<Rightarrow> nat \<Rightarrow> nat \<Rightarrow> nat" where
  [ring_defs]: "ring_step m a n = (if a + n < m then a + n else a + n - m)"

lemma mod_less_double: "a < 2 * m \<Longrightarrow> a mod m = (if a < m then a else a - m)" for a m :: nat
  by (simp add: mod_if)

lemma ring_step_mod: "a < m \<Longrightarrow> n \<le> m \<Longrightarrow> (a + n) mod m = ring_step m a n"
  by (subst mod_less_double) (auto simp: ring_step_def)

lemma ring_dist_mod: "a < m \<Longrightarrow> b < m \<Longrightarrow> (b + m - a) mod m = ring_dist m a b"
  by (subst mod_less_double) (auto simp: ring_dist_def)

lemma ring_step_less [simp, intro]: "a < m \<Longrightarrow> n \<le> m \<Longrightarrow> ring_step m a n < m"
  by (auto simp: ring_step_def)

lemma ring_dist_less [intro]: "a < m \<Longrightarrow> b < m \<Longrightarrow> ring_dist m a b < m"
  by (auto simp: ring_dist_def)

lemma ring_dist_self [simp]: "ring_dist m a a = 0"
  by (simp add: ring_dist_def)

lemma ring_dist_zero: "a < m \<Longrightarrow> b < m \<Longrightarrow> ring_dist m a b = 0 \<longleftrightarrow> a = b"
  by (auto simp: ring_dist_def)

lemma ring_step_0 [simp]: "a < m \<Longrightarrow> ring_step m a 0 = a"
  by (simp add: ring_step_def)

lemma ring_step_dist [simp]: "a < m \<Longrightarrow> b < m \<Longrightarrow> ring_step m a (ring_dist m a b) = b"
  by (auto simp: ring_defs)

lemma ring_dist_step [simp]: "a < m \<Longrightarrow> n < m \<Longrightarrow> ring_dist m a (ring_step m a n) = n"
  by (auto simp: ring_defs)

lemma ring_step_step: "a < m \<Longrightarrow> i + j \<le> m \<Longrightarrow> ring_step m (ring_step m a i) j = ring_step m a (i + j)"
  by (auto simp: ring_defs)

lemma ring_step_inj: "a < m \<Longrightarrow> i < m \<Longrightarrow> j < m \<Longrightarrow> ring_step m a i = ring_step m a j \<longleftrightarrow> i = j"
  by (auto simp: ring_defs)

text \<open>Between two cells, an intermediate cell splits the distance.\<close>

lemma ring_dist_split:
  "a < m \<Longrightarrow> b < m \<Longrightarrow> c < m \<Longrightarrow> ring_dist m a b \<le> ring_dist m a c \<Longrightarrow>
   ring_dist m a b + ring_dist m b c = ring_dist m a c"
  by (auto simp: ring_dist_def split: if_splits)

lemma ring_dist_advance:
  "a < m \<Longrightarrow> b < m \<Longrightarrow> n \<le> ring_dist m a b \<Longrightarrow>
   ring_dist m (ring_step m a n) b = ring_dist m a b - n"
  by (auto simp: ring_defs split: if_splits)

lemma ring_dist_extend:
  "a < m \<Longrightarrow> b < m \<Longrightarrow> ring_dist m a b + n < m \<Longrightarrow>
   ring_dist m a (ring_step m b n) = ring_dist m a b + n"
  by (auto simp: ring_defs split: if_splits)

end
