(* ===== verification/CoSupport_Lib.thy ===== *)
theory CoSupport_Lib
  imports Smoc_Prelude
begin

text \<open>
  The CoSupport library is not part of the repository.  What the code calls of it is a parameter
  of the model: a record of operations that every definition using them takes as an argument.  The
  predicates \<open>mg_laws\<close> and \<open>event_laws\<close> state the documented behaviour the code
  relies on, in the words of the comments beside the calls.
\<close>

section \<open>Modulo arithmetic\<close>

text \<open>
  \<open>mg_add L m a n\<close> stands for \<^verbatim>\<open>(MG(a, M(m)) + n).getValue()\<close>, \<open>mg_sub L m a n\<close> for the
  difference, and \<open>mg_between L m x a b\<close> for \<^verbatim>\<open>MG(x, M(m)).between(a, b)\<close> of
  \<^verbatim>\<open>CoSupport::Math::ModuloGroup\<close>; \<open>flog2c\<close> is \<^verbatim>\<open>CoSupport::Math::flog2c\<close>.
\<close>

record math_lib =
  mg_add :: "nat \<Rightarrow> nat \<Rightarrow> nat \<Rightarrow> nat"
  mg_sub :: "nat \<Rightarrow> nat \<Rightarrow> nat \<Rightarrow> nat"
  mg_between :: "nat \<Rightarrow> nat \<Rightarrow> nat \<Rightarrow> nat \<Rightarrow> bool"

text \<open>
  ``windex + n in modulo fsize arith'', ``vindex - rindex in modulo fsize arith'' and
  ``rindex \<open>\<le>\<close> vindex \<open>\<le>\<close> windex in modulo fsize arith'', for operands the code uses: a group
  element, and a number of at most one turn of the ring.
\<close>

definition mg_laws :: "math_lib \<Rightarrow> bool" where
  "mg_laws L \<longleftrightarrow>
     (\<forall>m a n. a < m \<longrightarrow> n \<le> m \<longrightarrow> mg_add L m a n = (a + n) mod m) \<and>
     (\<forall>m a n. a < m \<longrightarrow> n \<le> m \<longrightarrow> mg_sub L m a n = (a + m - n) mod m) \<and>
     (\<forall>m x a b. x < m \<longrightarrow> a < m \<longrightarrow> b < m \<longrightarrow>
        mg_between L m x a b = ((x + m - a) mod m \<le> (b + m - a) mod m))"

definition math_ref :: math_lib where
  "math_ref = \<lparr>mg_add = (\<lambda>m a n. (a + n) mod m), mg_sub = (\<lambda>m a n. (a + m - n) mod m),
     mg_between = (\<lambda>m x a b. (x + m - a) mod m \<le> (b + m - a) mod m)\<rparr>"

lemma math_ref_laws [simp]: "mg_laws math_ref"
  by (simp add: mg_laws_def math_ref_def)

lemma mg_add_law: "mg_laws L \<Longrightarrow> a < m \<Longrightarrow> n \<le> m \<Longrightarrow> mg_add L m a n = (a + n) mod m"
  unfolding mg_laws_def by (elim conjE) meson

lemma mg_sub_law: "mg_laws L \<Longrightarrow> a < m \<Longrightarrow> n \<le> m \<Longrightarrow> mg_sub L m a n = (a + m - n) mod m"
  unfolding mg_laws_def by (elim conjE) meson

lemma mg_between_law:
  "mg_laws L \<Longrightarrow> x < m \<Longrightarrow> a < m \<Longrightarrow> b < m \<Longrightarrow>
   mg_between L m x a b = ((x + m - a) mod m \<le> (b + m - a) mod m)"
  unfolding mg_laws_def by (elim conjE) meson

lemma mg_add_step [simp]: "mg_laws L \<Longrightarrow> a < m \<Longrightarrow> n \<le> m \<Longrightarrow> mg_add L m a n = ring_step m a n"
  by (simp only: mg_add_law ring_step_mod)

lemma mg_sub_dist [simp]:
  "mg_laws L \<Longrightarrow> a < m \<Longrightarrow> b < m \<Longrightarrow> mg_sub L m b a = ring_dist m a b"
  by (simp only: mg_sub_law less_imp_le ring_dist_mod)

lemma mg_sub_one [simp]:
  "mg_laws L \<Longrightarrow> a < m \<Longrightarrow> mg_sub L m a (Suc 0) = (if a = 0 then m - 1 else a - 1)"
  by (subst mg_sub_law) (auto simp: mod_less_double)

lemma mg_between_dist [simp]:
  "mg_laws L \<Longrightarrow> x < m \<Longrightarrow> a < m \<Longrightarrow> b < m \<Longrightarrow>
   mg_between L m x a b \<longleftrightarrow> ring_dist m a x \<le> ring_dist m a b"
  by (simp only: mg_between_law ring_dist_mod)

section \<open>Events\<close>

text \<open>
  A \<^verbatim>\<open>smoc_event\<close> is a \<^verbatim>\<open>CoSupport::SystemC::Event\<close>; its state is the type \<open>'e\<close>.  The code
  constructs one with an initial truth value, reads its truth value, notifies it, resets it and
  renotifies its listeners.
\<close>

record 'e event_lib =
  ev_new :: "bool \<Rightarrow> 'e"
  ev_active :: "'e \<Rightarrow> bool"
  ev_notify :: "'e \<Rightarrow> 'e"
  ev_reset :: "'e \<Rightarrow> 'e"
  ev_renotify :: "'e \<Rightarrow> 'e"

definition event_laws :: "'e event_lib \<Rightarrow> bool" where
  "event_laws E \<longleftrightarrow>
     (\<forall>b. ev_active E (ev_new E b) = b) \<and>
     (\<forall>e. ev_active E (ev_notify E e)) \<and>
     (\<forall>e. \<not> ev_active E (ev_reset E e)) \<and>
     (\<forall>e. ev_active E (ev_renotify E e) = ev_active E e)"

lemma event_laws_simps [simp]:
  assumes "event_laws E"
  shows "ev_active E (ev_new E b) = b"
    and "ev_active E (ev_notify E e)"
    and "\<not> ev_active E (ev_reset E e)"
    and "ev_active E (ev_renotify E e) = ev_active E e"
  using assms by (auto simp: event_laws_def)

text \<open>A concrete event for examples: its truth value and how often its listeners were told.\<close>

definition event_ref :: "(bool \<times> nat) event_lib" where
  "event_ref = \<lparr>ev_new = (\<lambda>b. (b, 0)), ev_active = fst, ev_notify = (\<lambda>(_, k). (True, Suc k)),
     ev_reset = (\<lambda>(_, k). (False, Suc k)), ev_renotify = (\<lambda>(b, k). (b, Suc k))\<rparr>"

lemma event_ref_laws [simp]: "event_laws event_ref"
  by (auto simp: event_laws_def event_ref_def)

end
