(* ===== verification/Queue_Pointers.thy ===== *)
theory Queue_Pointers
  imports CoSupport_Lib
begin

text \<open>
  The ring-buffer pointer classes \<^verbatim>\<open>QueueRWPtr\<close>, \<^verbatim>\<open>QueueRVWPtr\<close> and \<^verbatim>\<open>QueueFRVWPtr\<close>
  (\<^verbatim>\<open>src/systemoc/headers/smoc/detail/\<close>).  The inheritance chain is a chain of record
  extensions, so an inherited method is one definition over \<open>'z rwq_scheme\<close>.  The model is the
  build with \<^verbatim>\<open>SYSTEMOC_ENABLE_DEBUG\<close>, in which the derived classes override \<^verbatim>\<open>rpp\<close> and
  \<^verbatim>\<open>wpp\<close> with stricter assertions; a fired assertion is \<^term>\<open>None\<close>.  Indices are natural
  numbers: the invariants bound them by \<^verbatim>\<open>fsize\<close>, so no \<^verbatim>\<open>size_t\<close> addition wraps.
\<close>

section \<open>Read and write pointer\<close>

record rwq =
  fsize :: nat
  rindex :: nat
  windex :: nat

definition mk_rwq :: "nat \<Rightarrow> rwq" where
  "mk_rwq n = \<lparr>fsize = n + 1, rindex = 0, windex = 0\<rparr>"

definition rw_usedCount :: "math_lib \<Rightarrow> 'z rwq_scheme \<Rightarrow> nat" where
  "rw_usedCount L q = mg_sub L (fsize q) (windex q) (rindex q)"

definition rw_visibleCount :: "math_lib \<Rightarrow> 'z rwq_scheme \<Rightarrow> nat" where
  "rw_visibleCount L q = rw_usedCount L q"

definition depthCount :: "'z rwq_scheme \<Rightarrow> nat" where
  "depthCount q = fsize q - 1"

definition rw_freeCount :: "math_lib \<Rightarrow> 'z rwq_scheme \<Rightarrow> nat" where
  "rw_freeCount L q = mg_sub L (fsize q) (mg_sub L (fsize q) (rindex q) (windex q)) 1"

definition rw_wpp :: "math_lib \<Rightarrow> nat \<Rightarrow> 'z rwq_scheme \<Rightarrow> 'z rwq_scheme option" where
  "rw_wpp L n q = do {
     assert_that (n \<le> rw_freeCount L q);
     Some (q\<lparr>windex := mg_add L (fsize q) (windex q) n\<rparr>)
   }"

definition rw_vpp :: "nat \<Rightarrow> 'z rwq_scheme \<Rightarrow> 'z rwq_scheme option" where
  "rw_vpp n q = Some q"

definition rw_rpp :: "math_lib \<Rightarrow> nat \<Rightarrow> 'z rwq_scheme \<Rightarrow> 'z rwq_scheme option" where
  "rw_rpp L n q = do {
     assert_that (n \<le> rw_visibleCount L q);
     Some (q\<lparr>rindex := mg_add L (fsize q) (rindex q) n\<rparr>)
   }"

definition rw_fpp :: "nat \<Rightarrow> 'z rwq_scheme \<Rightarrow> 'z rwq_scheme option" where
  "rw_fpp n q = Some q"

definition rw_resetQueue :: "'z rwq_scheme \<Rightarrow> 'z rwq_scheme" where
  "rw_resetQueue q = q\<lparr>rindex := 0, windex := 0\<rparr>"

definition rw_resize :: "nat \<Rightarrow> 'z rwq_scheme \<Rightarrow> 'z rwq_scheme option" where
  "rw_resize n q = do {
     assert_that (rindex q = 0);
     assert_that (windex q \<le> n);
     Some (q\<lparr>fsize := n + 1\<rparr>)
   }"

definition rw_dropRVisible :: "math_lib \<Rightarrow> nat \<Rightarrow> 'z rwq_scheme \<Rightarrow> 'z rwq_scheme option" where
  "rw_dropRVisible L n q = rw_rpp L n q"

section \<open>The visible pointer\<close>

record rvwq = rwq +
  vindex :: nat

definition mk_rvwq :: "nat \<Rightarrow> rvwq" where
  "mk_rvwq n = rwq.extend (mk_rwq n) \<lparr>vindex = 0\<rparr>"

definition rvw_visibleCount :: "math_lib \<Rightarrow> 'z rvwq_scheme \<Rightarrow> nat" where
  "rvw_visibleCount L q = mg_sub L (fsize q) (vindex q) (rindex q)"

definition rvw_rpp :: "math_lib \<Rightarrow> nat \<Rightarrow> 'z rvwq_scheme \<Rightarrow> 'z rvwq_scheme option" where
  "rvw_rpp L n q = do {
     assert_that (n \<le> rvw_visibleCount L q);
     rw_rpp L n q
   }"

definition rvw_vpp :: "math_lib \<Rightarrow> nat \<Rightarrow> 'z rvwq_scheme \<Rightarrow> 'z rvwq_scheme option" where
  "rvw_vpp L n q = do {
     assert_that (mg_between L (fsize q) (vindex q) (rindex q) (windex q));
     assert_that (n \<le> mg_sub L (fsize q) (windex q) (vindex q));
     Some (q\<lparr>vindex := mg_add L (fsize q) (vindex q) n\<rparr>)
   }"

definition rvw_resetQueue :: "'z rvwq_scheme \<Rightarrow> 'z rvwq_scheme" where
  "rvw_resetQueue q = rw_resetQueue (q\<lparr>vindex := 0\<rparr>)"

definition rvw_resize :: "nat \<Rightarrow> 'z rvwq_scheme \<Rightarrow> 'z rvwq_scheme option" where
  "rvw_resize n q = do {
     assert_that (vindex q = 0);
     rw_resize n q
   }"

definition rvw_dropRInvisible :: "math_lib \<Rightarrow> nat \<Rightarrow> 'z rvwq_scheme \<Rightarrow> 'z rvwq_scheme option" where
  "rvw_dropRInvisible L n q = do {
     q1 \<leftarrow> rvw_vpp L n q;
     rw_dropRVisible L n q1
   }"

section \<open>The free pointer\<close>

record frvwq = rvwq +
  findex :: nat

definition mk_frvwq :: "nat \<Rightarrow> frvwq" where
  "mk_frvwq n = rvwq.extend (mk_rvwq n) \<lparr>findex = 0\<rparr>"

definition frv_freeCount :: "math_lib \<Rightarrow> 'z frvwq_scheme \<Rightarrow> nat" where
  "frv_freeCount L q = mg_sub L (fsize q) (mg_sub L (fsize q) (findex q) (windex q)) 1"

definition frv_wpp :: "math_lib \<Rightarrow> nat \<Rightarrow> 'z frvwq_scheme \<Rightarrow> 'z frvwq_scheme option" where
  "frv_wpp L n q = do {
     assert_that (n \<le> frv_freeCount L q);
     rw_wpp L n q
   }"

definition frv_fpp :: "math_lib \<Rightarrow> nat \<Rightarrow> 'z frvwq_scheme \<Rightarrow> 'z frvwq_scheme option" where
  "frv_fpp L n q = do {
     assert_that (mg_between L (fsize q) (findex q) (mg_add L (fsize q) (windex q) 1) (rindex q));
     assert_that (n \<le> mg_sub L (fsize q) (rindex q) (findex q));
     Some (q\<lparr>findex := mg_add L (fsize q) (findex q) n\<rparr>)
   }"

definition frv_resetQueue :: "'z frvwq_scheme \<Rightarrow> 'z frvwq_scheme" where
  "frv_resetQueue q = rvw_resetQueue (q\<lparr>findex := 0\<rparr>)"

definition frv_resize :: "nat \<Rightarrow> 'z frvwq_scheme \<Rightarrow> 'z frvwq_scheme option" where
  "frv_resize n q = do {
     assert_that (findex q = 0);
     rvw_resize n q
   }"

definition frv_dropRVisible :: "math_lib \<Rightarrow> nat \<Rightarrow> 'z frvwq_scheme \<Rightarrow> 'z frvwq_scheme option" where
  "frv_dropRVisible L n q = do {
     q1 \<leftarrow> rw_dropRVisible L n q;
     frv_fpp L n q1
   }"

definition frv_dropRInvisible :: "math_lib \<Rightarrow> nat \<Rightarrow> 'z frvwq_scheme \<Rightarrow> 'z frvwq_scheme option" where
  "frv_dropRInvisible L n q = do {
     q1 \<leftarrow> rvw_dropRInvisible L n q;
     frv_fpp L n q1
   }"

section \<open>Invariants\<close>

text \<open>
  The pointers are cells of the ring, and walking forward from the free pointer meets the read, the
  visible and the write pointer in this order.
\<close>

definition rw_inv :: "'z rwq_scheme \<Rightarrow> bool" where
  "rw_inv q \<longleftrightarrow> rindex q < fsize q \<and> windex q < fsize q"

definition rvw_inv :: "'z rvwq_scheme \<Rightarrow> bool" where
  "rvw_inv q \<longleftrightarrow> rw_inv q \<and> vindex q < fsize q \<and>
     ring_dist (fsize q) (rindex q) (vindex q) \<le> ring_dist (fsize q) (rindex q) (windex q)"

definition frv_inv :: "'z frvwq_scheme \<Rightarrow> bool" where
  "frv_inv q \<longleftrightarrow> rvw_inv q \<and> findex q < fsize q \<and>
     ring_dist (fsize q) (findex q) (rindex q) \<le> ring_dist (fsize q) (findex q) (windex q)"

text \<open>
  The four areas of the ring in the comment of \<^verbatim>\<open>QueueFRVWPtr\<close>: C (being consumed), V (visible),
  P (in the pipeline) and F (free).  This is the specification state the pointers implement.
\<close>

record areas =
  area_C :: nat
  area_V :: nat
  area_P :: nat
  area_F :: nat

definition frv_areas :: "'z frvwq_scheme \<Rightarrow> areas" where
  "frv_areas q =
     \<lparr>area_C = ring_dist (fsize q) (findex q) (rindex q),
      area_V = ring_dist (fsize q) (rindex q) (vindex q),
      area_P = ring_dist (fsize q) (vindex q) (windex q),
      area_F = fsize q - 1 - ring_dist (fsize q) (findex q) (windex q)\<rparr>"

section \<open>What the counts mean\<close>

lemma rvw_inv_rw: "rvw_inv q \<Longrightarrow> rw_inv q"
  by (simp add: rvw_inv_def)

lemma frv_inv_rvw: "frv_inv q \<Longrightarrow> rvw_inv q"
  by (simp add: frv_inv_def)

lemma frv_inv_bounds:
  assumes "frv_inv q"
  shows "rindex q < fsize q" "windex q < fsize q" "vindex q < fsize q" "findex q < fsize q"
  using assms unfolding frv_inv_def rvw_inv_def rw_inv_def by blast+

text \<open>The distances between the four pointers add up.\<close>

lemma frv_inv_split:
  assumes "frv_inv q"
  defines "d \<equiv> ring_dist (fsize q)"
  shows "d (rindex q) (vindex q) + d (vindex q) (windex q) = d (rindex q) (windex q)"
    and "d (findex q) (rindex q) + d (rindex q) (windex q) = d (findex q) (windex q)"
    and "d (findex q) (windex q) < fsize q"
proof -
  note b = frv_inv_bounds [OF assms(1)]
  show "d (rindex q) (vindex q) + d (vindex q) (windex q) = d (rindex q) (windex q)"
    unfolding d_def using assms(1) b by (intro ring_dist_split) (simp_all add: frv_inv_def rvw_inv_def)
  show "d (findex q) (rindex q) + d (rindex q) (windex q) = d (findex q) (windex q)"
    unfolding d_def using assms(1) b by (intro ring_dist_split) (simp_all add: frv_inv_def)
  show "d (findex q) (windex q) < fsize q"
    unfolding d_def using b by (intro ring_dist_less)
qed

lemma frv_invI:
  assumes "findex q < fsize q" "rindex q < fsize q" "vindex q < fsize q" "windex q < fsize q"
    and "ring_dist (fsize q) (rindex q) (vindex q) \<le> ring_dist (fsize q) (rindex q) (windex q)"
    and "ring_dist (fsize q) (findex q) (rindex q) \<le> ring_dist (fsize q) (findex q) (windex q)"
  shows "frv_inv q"
  using assms by (simp add: frv_inv_def rvw_inv_def rw_inv_def)

lemma ring_free:
  "a < m \<Longrightarrow> b < m \<Longrightarrow>
   (if ring_dist m b a = 0 then m - 1 else ring_dist m b a - 1) = m - Suc (ring_dist m a b)"
  by (auto simp: ring_dist_def)

lemma mg_free:
  "mg_laws L \<Longrightarrow> a < m \<Longrightarrow> b < m \<Longrightarrow>
   mg_sub L m (ring_dist m b a) 1 = m - Suc (ring_dist m a b)"
  unfolding One_nat_def by (simp only: mg_sub_one ring_dist_less ring_free)

lemma rw_counts:
  assumes "mg_laws L" "rw_inv q"
  shows "rw_usedCount L q = ring_dist (fsize q) (rindex q) (windex q)"
    and "rw_freeCount L q = fsize q - Suc (ring_dist (fsize q) (rindex q) (windex q))"
  using assms unfolding rw_inv_def rw_usedCount_def rw_freeCount_def
  by (simp_all only: mg_sub_dist mg_free)

lemma frv_counts:
  assumes "mg_laws L" "frv_inv q"
  shows "rw_usedCount L q = ring_dist (fsize q) (rindex q) (windex q)"
    and "rw_freeCount L q = fsize q - Suc (ring_dist (fsize q) (rindex q) (windex q))"
    and "rvw_visibleCount L q = ring_dist (fsize q) (rindex q) (vindex q)"
    and "frv_freeCount L q = fsize q - Suc (ring_dist (fsize q) (findex q) (windex q))"
  using assms(1) frv_inv_bounds [OF assms(2)]
  by (simp_all only: rw_usedCount_def rw_freeCount_def rvw_visibleCount_def frv_freeCount_def
        mg_sub_dist mg_free)

text \<open>The four counts the pointers encode, in the terms of the four areas.\<close>

lemma frv_area_counts:
  assumes "mg_laws L" "frv_inv q"
  shows "area_V (frv_areas q) = rvw_visibleCount L q"
    and "area_F (frv_areas q) = frv_freeCount L q"
    and "area_V (frv_areas q) + area_P (frv_areas q) = rw_usedCount L q"
  using frv_inv_split(1) [OF assms(2)] by (simp_all add: frv_counts [OF assms] frv_areas_def)

lemma frv_areas_total:
  assumes "frv_inv q"
  shows "area_C (frv_areas q) + area_V (frv_areas q) + area_P (frv_areas q) + area_F (frv_areas q)
         = depthCount q"
proof -
  note s = frv_inv_split [OF assms]
  show ?thesis
    unfolding frv_areas_def depthCount_def areas.simps using s by linarith
qed

section \<open>The operations move tokens between the areas\<close>

lemma frv_wpp_areas:
  fixes q :: "'z frvwq_scheme"
  assumes "mg_laws L" "frv_inv q" "n \<le> area_F (frv_areas q)"
  defines "q' \<equiv> q\<lparr>windex := ring_step (fsize q) (windex q) n\<rparr>"
  shows "frv_wpp L n q = Some q'" and "frv_inv q'"
    and "frv_areas q' =
         (frv_areas q)\<lparr>area_P := area_P (frv_areas q) + n, area_F := area_F (frv_areas q) - n\<rparr>"
proof -
  let ?d = "ring_dist (fsize q)"
  note b = frv_inv_bounds [OF assms(2)] and s = frv_inv_split [OF assms(2)]
  have n: "n \<le> fsize q - Suc (?d (findex q) (windex q))"
    using assms(3) by (simp add: frv_areas_def)
  have n': "?d (findex q) (windex q) + n < fsize q" "?d (rindex q) (windex q) + n < fsize q"
      "?d (vindex q) (windex q) + n < fsize q" "n \<le> fsize q"
    using n s by linarith+
  show "frv_wpp L n q = Some q'"
    using assms(1) b n n' by (simp add: frv_wpp_def rw_wpp_def q'_def frv_counts [OF assms(1,2)])
  show "frv_inv q'"
    unfolding q'_def using b n' s by (intro frv_invI) (simp_all add: ring_dist_extend)
  show "frv_areas q' =
         (frv_areas q)\<lparr>area_P := area_P (frv_areas q) + n, area_F := area_F (frv_areas q) - n\<rparr>"
    using b n' by (simp add: q'_def frv_areas_def ring_dist_extend)
qed

lemma rvw_vpp_areas:
  fixes q :: "'z frvwq_scheme"
  assumes "mg_laws L" "frv_inv q" "n \<le> area_P (frv_areas q)"
  defines "q' \<equiv> q\<lparr>vindex := ring_step (fsize q) (vindex q) n\<rparr>"
  shows "rvw_vpp L n q = Some q'" and "frv_inv q'"
    and "frv_areas q' =
         (frv_areas q)\<lparr>area_V := area_V (frv_areas q) + n, area_P := area_P (frv_areas q) - n\<rparr>"
proof -
  let ?d = "ring_dist (fsize q)"
  note b = frv_inv_bounds [OF assms(2)] and s = frv_inv_split [OF assms(2)]
  have n: "n \<le> ?d (vindex q) (windex q)"
    using assms(3) by (simp add: frv_areas_def)
  have n': "?d (rindex q) (vindex q) + n < fsize q"
      "?d (rindex q) (vindex q) + n \<le> ?d (rindex q) (windex q)" "n \<le> fsize q"
      "?d (rindex q) (vindex q) \<le> ?d (rindex q) (windex q)"
      "?d (findex q) (rindex q) \<le> ?d (findex q) (windex q)"
    using n s by linarith+
  show "rvw_vpp L n q = Some q'"
    using assms(1) b n n' by (simp add: rvw_vpp_def q'_def)
  show "frv_inv q'"
    unfolding q'_def using b n' by (intro frv_invI) (simp_all add: ring_dist_extend)
  show "frv_areas q' =
         (frv_areas q)\<lparr>area_V := area_V (frv_areas q) + n, area_P := area_P (frv_areas q) - n\<rparr>"
    using b n n' by (simp add: q'_def frv_areas_def ring_dist_extend ring_dist_advance)
qed

lemma rvw_rpp_areas:
  fixes q :: "'z frvwq_scheme"
  assumes "mg_laws L" "frv_inv q" "n \<le> area_V (frv_areas q)"
  defines "q' \<equiv> q\<lparr>rindex := ring_step (fsize q) (rindex q) n\<rparr>"
  shows "rvw_rpp L n q = Some q'" and "frv_inv q'"
    and "frv_areas q' =
         (frv_areas q)\<lparr>area_C := area_C (frv_areas q) + n, area_V := area_V (frv_areas q) - n\<rparr>"
proof -
  let ?d = "ring_dist (fsize q)"
  note b = frv_inv_bounds [OF assms(2)] and s = frv_inv_split [OF assms(2)]
  have n: "n \<le> ?d (rindex q) (vindex q)"
    using assms(3) by (simp add: frv_areas_def)
  have n': "?d (findex q) (rindex q) + n < fsize q" "n \<le> ?d (rindex q) (windex q)"
      "?d (findex q) (rindex q) + n \<le> ?d (findex q) (windex q)" "n \<le> fsize q"
      "?d (rindex q) (vindex q) - n \<le> ?d (rindex q) (windex q) - n"
    using n s by linarith+
  show "rvw_rpp L n q = Some q'"
    using assms(1) b n n'
    by (simp add: rvw_rpp_def rw_rpp_def rw_visibleCount_def q'_def frv_counts [OF assms(1,2)])
  show "frv_inv q'"
    unfolding q'_def using b n n'
    by (intro frv_invI) (simp_all add: ring_dist_extend ring_dist_advance)
  show "frv_areas q' =
         (frv_areas q)\<lparr>area_C := area_C (frv_areas q) + n, area_V := area_V (frv_areas q) - n\<rparr>"
    using b n n' by (simp add: q'_def frv_areas_def ring_dist_extend ring_dist_advance)
qed

lemma frv_fpp_areas:
  fixes q :: "'z frvwq_scheme"
  assumes "mg_laws L" "frv_inv q" "n \<le> area_C (frv_areas q)"
  defines "q' \<equiv> q\<lparr>findex := ring_step (fsize q) (findex q) n\<rparr>"
  shows "frv_fpp L n q = Some q'" and "frv_inv q'"
    and "frv_areas q' =
         (frv_areas q)\<lparr>area_C := area_C (frv_areas q) - n, area_F := area_F (frv_areas q) + n\<rparr>"
proof -
  let ?d = "ring_dist (fsize q)" and ?w = "ring_step (fsize q) (windex q) 1"
  note b = frv_inv_bounds [OF assms(2)] and s = frv_inv_split [OF assms(2)]
  have n: "n \<le> ?d (findex q) (rindex q)"
    using assms(3) by (simp add: frv_areas_def)
  have n': "n \<le> ?d (findex q) (windex q)" "n \<le> fsize q"
      "?d (findex q) (rindex q) - n \<le> ?d (findex q) (windex q) - n"
      "fsize q - Suc (?d (findex q) (windex q) - n) = fsize q - Suc (?d (findex q) (windex q)) + n"
      "?d (findex q) (rindex q) \<le> ?d (findex q) (windex q)"
    using n s by linarith+
  have "?d ?w (findex q) \<le> ?d ?w (rindex q)"
    using b n'(5) by (auto simp: ring_defs split: if_splits)
  then show "frv_fpp L n q = Some q'"
    using assms(1) b n n' by (simp add: frv_fpp_def q'_def)
  show "frv_inv q'"
    unfolding q'_def using b n' n assms(2)
    by (intro frv_invI) (simp_all add: ring_dist_advance frv_inv_def rvw_inv_def)
  show "frv_areas q' =
         (frv_areas q)\<lparr>area_C := area_C (frv_areas q) - n, area_F := area_F (frv_areas q) + n\<rparr>"
    using b n n' by (simp add: q'_def frv_areas_def ring_dist_advance)
qed

lemma frv_dropRInvisible_areas:
  fixes q :: "'z frvwq_scheme"
  assumes "mg_laws L" "frv_inv q" "n \<le> area_P (frv_areas q)"
  shows "\<exists>q'. frv_dropRInvisible L n q = Some q' \<and> frv_inv q' \<and> frv_areas q' =
         (frv_areas q)\<lparr>area_P := area_P (frv_areas q) - n, area_F := area_F (frv_areas q) + n\<rparr> \<and>
    q' = q\<lparr>vindex := ring_step (fsize q) (vindex q) n, rindex := ring_step (fsize q) (rindex q) n,
      findex := ring_step (fsize q) (findex q) n\<rparr>"
proof -
  note v = rvw_vpp_areas [OF assms]
  let ?q1 = "q\<lparr>vindex := ring_step (fsize q) (vindex q) n\<rparr>"
  have "n \<le> area_V (frv_areas ?q1)" using v(3) by simp
  note r = rvw_rpp_areas [OF assms(1) v(2) this]
  let ?q2 = "?q1\<lparr>rindex := ring_step (fsize ?q1) (rindex ?q1) n\<rparr>"
  have "n \<le> area_C (frv_areas ?q2)" using r(3) by simp
  note f = frv_fpp_areas [OF assms(1) r(2) this]
  have "rw_dropRVisible L n ?q1 = Some ?q2"
    using r(1) by (auto simp: rw_dropRVisible_def rvw_rpp_def split: if_splits)
  then show ?thesis
    using v r f by (simp add: frv_dropRInvisible_def rvw_dropRInvisible_def)
qed

lemma frv_dropRVisible_areas:
  fixes q :: "'z frvwq_scheme"
  assumes "mg_laws L" "frv_inv q" "n \<le> area_V (frv_areas q)"
  shows "\<exists>q'. frv_dropRVisible L n q = Some q' \<and> frv_inv q' \<and> frv_areas q' =
         (frv_areas q)\<lparr>area_V := area_V (frv_areas q) - n, area_F := area_F (frv_areas q) + n\<rparr> \<and>
    q' = q\<lparr>rindex := ring_step (fsize q) (rindex q) n, findex := ring_step (fsize q) (findex q) n\<rparr>"
proof -
  note r = rvw_rpp_areas [OF assms]
  let ?q1 = "q\<lparr>rindex := ring_step (fsize q) (rindex q) n\<rparr>"
  have "n \<le> area_C (frv_areas ?q1)" using r(3) by simp
  note f = frv_fpp_areas [OF assms(1) r(2) this]
  have "rw_dropRVisible L n q = Some ?q1"
    using r(1) by (auto simp: rw_dropRVisible_def rvw_rpp_def split: if_splits)
  then show ?thesis
    using r f by (simp add: frv_dropRVisible_def)
qed

text \<open>Each operation refuses to move more tokens than its source area holds.\<close>

lemma frv_refuse:
  assumes "mg_laws L" "frv_inv q"
  shows "\<not> n \<le> area_F (frv_areas q) \<Longrightarrow> frv_wpp L n q = None"
    and "\<not> n \<le> area_P (frv_areas q) \<Longrightarrow> rvw_vpp L n q = None"
    and "\<not> n \<le> area_V (frv_areas q) \<Longrightarrow> rvw_rpp L n q = None"
    and "\<not> n \<le> area_C (frv_areas q) \<Longrightarrow> frv_fpp L n q = None"
  using assms(1) frv_inv_bounds [OF assms(2)]
  by (simp_all add: frv_wpp_def rvw_vpp_def rvw_rpp_def frv_fpp_def frv_area_counts [OF assms])
     (simp_all add: frv_areas_def)

section \<open>Refinement of the area specification\<close>

datatype ptr_op = WPP nat | VPP nat | RPP nat | FPP nat | DropInvisible nat | ResetQ

fun frv_op :: "math_lib \<Rightarrow> ptr_op \<Rightarrow> 'z frvwq_scheme \<Rightarrow> 'z frvwq_scheme option" where
  "frv_op L (WPP n) q = frv_wpp L n q"
| "frv_op L (VPP n) q = rvw_vpp L n q"
| "frv_op L (RPP n) q = rvw_rpp L n q"
| "frv_op L (FPP n) q = frv_fpp L n q"
| "frv_op L (DropInvisible n) q = frv_dropRInvisible L n q"
| "frv_op L ResetQ q = Some (frv_resetQueue q)"

text \<open>The specification: moving \<open>n\<close> tokens from one area to the next one, or refusing.\<close>

fun area_op :: "ptr_op \<Rightarrow> areas \<Rightarrow> areas option" where
  "area_op (WPP n) a = (if n \<le> area_F a then
     Some (a\<lparr>area_P := area_P a + n, area_F := area_F a - n\<rparr>) else None)"
| "area_op (VPP n) a = (if n \<le> area_P a then
     Some (a\<lparr>area_V := area_V a + n, area_P := area_P a - n\<rparr>) else None)"
| "area_op (RPP n) a = (if n \<le> area_V a then
     Some (a\<lparr>area_C := area_C a + n, area_V := area_V a - n\<rparr>) else None)"
| "area_op (FPP n) a = (if n \<le> area_C a then
     Some (a\<lparr>area_C := area_C a - n, area_F := area_F a + n\<rparr>) else None)"
| "area_op (DropInvisible n) a = (if n \<le> area_P a then
     Some (a\<lparr>area_P := area_P a - n, area_F := area_F a + n\<rparr>) else None)"
| "area_op ResetQ a = Some \<lparr>area_C = 0, area_V = 0, area_P = 0,
     area_F = area_C a + area_V a + area_P a + area_F a\<rparr>"

lemma frv_reset_inv: "frv_inv q \<Longrightarrow> frv_inv (frv_resetQueue q)"
  using frv_inv_bounds(1) [of q]
  by (auto simp: frv_resetQueue_def rvw_resetQueue_def rw_resetQueue_def intro!: frv_invI)

lemma frv_reset_areas:
  "frv_inv q \<Longrightarrow> frv_areas (frv_resetQueue q) =
   \<lparr>area_C = 0, area_V = 0, area_P = 0, area_F = depthCount q\<rparr>"
  by (simp add: frv_areas_def frv_resetQueue_def rvw_resetQueue_def rw_resetQueue_def depthCount_def)

lemma frv_op_refines:
  assumes "mg_laws L" "frv_inv q"
  shows "map_option frv_areas (frv_op L op q) = area_op op (frv_areas q)"
    and "pred_option frv_inv (frv_op L op q)"
proof -
  have "map_option frv_areas (frv_op L op q) = area_op op (frv_areas q) \<and>
        pred_option frv_inv (frv_op L op q)"
  proof (cases op)
    case (WPP n) then show ?thesis
      using frv_wpp_areas [OF assms] frv_refuse(1) [OF assms] by (cases "n \<le> area_F (frv_areas q)") auto
  next
    case (VPP n) then show ?thesis
      using rvw_vpp_areas [OF assms] frv_refuse(2) [OF assms] by (cases "n \<le> area_P (frv_areas q)") auto
  next
    case (RPP n) then show ?thesis
      using rvw_rpp_areas [OF assms] frv_refuse(3) [OF assms] by (cases "n \<le> area_V (frv_areas q)") auto
  next
    case (FPP n) then show ?thesis
      using frv_fpp_areas [OF assms] frv_refuse(4) [OF assms] by (cases "n \<le> area_C (frv_areas q)") auto
  next
    case (DropInvisible n)
    have "\<not> n \<le> area_P (frv_areas q) \<Longrightarrow> frv_dropRInvisible L n q = None"
      by (simp add: frv_dropRInvisible_def rvw_dropRInvisible_def frv_refuse(2) [OF assms])
    with DropInvisible show ?thesis
      using frv_dropRInvisible_areas [OF assms, of n] by (cases "n \<le> area_P (frv_areas q)") auto
  next
    case ResetQ then show ?thesis
      using assms(2) by (simp add: frv_reset_inv frv_reset_areas frv_areas_total)
  qed
  then show "map_option frv_areas (frv_op L op q) = area_op op (frv_areas q)"
    and "pred_option frv_inv (frv_op L op q)" by simp_all
qed

fun run_ops :: "('op \<Rightarrow> 's \<Rightarrow> 's option) \<Rightarrow> 'op list \<Rightarrow> 's \<Rightarrow> 's option" where
  "run_ops step [] s = Some s"
| "run_ops step (x # xs) s = do { s' \<leftarrow> step x s; run_ops step xs s' }"

lemma frv_mk_inv: "frv_inv (mk_frvwq n)"
  and frv_mk_areas: "frv_areas (mk_frvwq n) = \<lparr>area_C = 0, area_V = 0, area_P = 0, area_F = n\<rparr>"
  by (auto simp: mk_frvwq_def mk_rvwq_def mk_rwq_def rvwq.defs rwq.defs frv_areas_def intro!: frv_invI)


lemma frv_run_refines:
  assumes "mg_laws L" "frv_inv q"
  shows "map_option frv_areas (run_ops (frv_op L) ops q) = run_ops area_op ops (frv_areas q) \<and>
         pred_option frv_inv (run_ops (frv_op L) ops q)"
  using assms(2)
proof (induction ops arbitrary: q)
  case (Cons op ops)
  note r = frv_op_refines [OF assms(1) Cons.prems, of op]
  show ?case
  proof (cases "frv_op L op q")
    case None
    with r(1) show ?thesis by simp
  next
    case (Some q')
    with r Cons.IH [of q'] show ?thesis by (simp flip: r(1))
  qed
qed simp

text \<open>
  C1.  Running any sequence of \<^verbatim>\<open>wpp\<close>, \<^verbatim>\<open>vpp\<close>, \<^verbatim>\<open>rpp\<close>, \<^verbatim>\<open>fpp\<close>, \<^verbatim>\<open>dropRInvisible\<close>
  and \<^verbatim>\<open>resetQueue\<close> calls on a fresh four-pointer queue of depth \<open>n\<close> is simulated by moving tokens
  between the areas C, V, P and F: an assertion of the code fires exactly when an area would be
  overdrawn, and otherwise the pointers encode the areas the specification computes.
\<close>

theorem frv_queue_refines_areas:
  assumes "mg_laws L"
  shows "map_option frv_areas (run_ops (frv_op L) ops (mk_frvwq n)) =
         run_ops area_op ops \<lparr>area_C = 0, area_V = 0, area_P = 0, area_F = n\<rparr>"
  using frv_run_refines [OF assms frv_mk_inv] by (simp add: frv_mk_areas)

theorem frv_queue_refines_areas_witness:
  "map_option frv_areas (run_ops (frv_op math_ref) [WPP 3, VPP 2, RPP 1, DropInvisible 1] (mk_frvwq 4))
   = Some \<lparr>area_C = 1, area_V = 1, area_P = 0, area_F = 2\<rparr>"
  unfolding frv_queue_refines_areas [OF math_ref_laws] by simp

lemma area_op_total:
  "area_op op a = Some a' \<Longrightarrow>
   area_C a' + area_V a' + area_P a' + area_F a' = area_C a + area_V a + area_P a + area_F a"
  by (cases op) (auto split: if_splits)

text \<open>
  C2.  No token place is lost or invented: after every run of pointer operations that fires no
  assertion, the sizes of the four areas of the ring still add up to the depth of the queue, and
  \<^verbatim>\<open>visibleCount\<close>, \<^verbatim>\<open>usedCount\<close> and \<^verbatim>\<open>freeCount\<close> together never exceed it.
\<close>

theorem frv_queue_conserves_places:
  assumes "mg_laws L" and "run_ops (frv_op L) ops (mk_frvwq n) = Some q"
  shows "area_C (frv_areas q) + area_V (frv_areas q) + area_P (frv_areas q) + area_F (frv_areas q) = n \<and>
    rvw_visibleCount L q \<le> rw_usedCount L q \<and> rw_usedCount L q + frv_freeCount L q \<le> n"
proof -
  have inv: "frv_inv q"
    using frv_run_refines [OF assms(1) frv_mk_inv, of ops n] assms(2) by simp
  have "run_ops area_op ops a = Some b \<Longrightarrow>
      area_C b + area_V b + area_P b + area_F b = area_C a + area_V a + area_P a + area_F a" for a b
    by (induction ops arbitrary: a) (auto simp: bind_eq_Some_iff dest: area_op_total)
  then have "area_C (frv_areas q) + area_V (frv_areas q) + area_P (frv_areas q) + area_F (frv_areas q) = n"
    using frv_run_refines [OF assms(1) frv_mk_inv, of ops n] assms(2) by (auto simp: frv_mk_areas)
  then show ?thesis by (simp flip: frv_area_counts [OF assms(1) inv])
qed

theorem frv_queue_conserves_places_witness:
  "\<exists>q. run_ops (frv_op math_ref) [WPP 3, VPP 2, RPP 1] (mk_frvwq 4) = Some q \<and>
     rw_usedCount math_ref q + frv_freeCount math_ref q \<le> 4"
proof -
  obtain q where "run_ops (frv_op math_ref) [WPP 3, VPP 2, RPP 1] (mk_frvwq 4) = Some q"
    using frv_run_refines [OF math_ref_laws frv_mk_inv, of "[WPP 3, VPP 2, RPP 1]" 4]
    by (auto simp: frv_mk_areas)
  with frv_queue_conserves_places [OF math_ref_laws this] show ?thesis by blast
qed

section \<open>The contract of a token queue\<close>

text \<open>
  What the channels rely on, for either pointer class: producing advances the write pointer and
  then, when the latency is over, the visible pointer; consuming advances the read pointer and
  then the free pointer.  The two-pointer class has dummies for the second step.
\<close>

locale token_queue =
  fixes inv :: "'q \<Rightarrow> bool"
    and visible free depth :: "'q \<Rightarrow> nat"
    and wpp vpp rpp fpp :: "nat \<Rightarrow> 'q \<Rightarrow> 'q option"
  assumes room: "inv q \<Longrightarrow> visible q + free q \<le> depth q"
    and produce: "inv q \<Longrightarrow> n \<le> free q \<Longrightarrow>
      \<exists>q1 q2. wpp n q = Some q1 \<and> vpp n q1 = Some q2 \<and> inv q1 \<and> inv q2 \<and>
        visible q2 = visible q + n \<and> free q1 = free q - n \<and> free q2 = free q - n \<and> depth q2 = depth q"
    and consume: "inv q \<Longrightarrow> n \<le> visible q \<Longrightarrow>
      \<exists>q1 q2. rpp n q = Some q1 \<and> fpp n q1 = Some q2 \<and> inv q1 \<and> inv q2 \<and>
        visible q1 = visible q - n \<and> visible q2 = visible q - n \<and> free q2 = free q + n \<and> depth q2 = depth q"
    and no_overflow: "inv q \<Longrightarrow> free q < n \<Longrightarrow> wpp n q = None"
    and no_underflow: "inv q \<Longrightarrow> visible q < n \<Longrightarrow> rpp n q = None"

datatype comm = Produce nat | Consume nat

fun comm_step :: "(nat \<Rightarrow> 'q \<Rightarrow> 'q option) \<Rightarrow> (nat \<Rightarrow> 'q \<Rightarrow> 'q option) \<Rightarrow>
    (nat \<Rightarrow> 'q \<Rightarrow> 'q option) \<Rightarrow> (nat \<Rightarrow> 'q \<Rightarrow> 'q option) \<Rightarrow> comm \<Rightarrow> 'q \<Rightarrow> 'q option" where
  "comm_step wpp vpp rpp fpp (Produce n) q = do { q1 \<leftarrow> wpp n q; vpp n q1 }"
| "comm_step wpp vpp rpp fpp (Consume n) q = do { q1 \<leftarrow> rpp n q; fpp n q1 }"

text \<open>A schedule is admissible for a number of tokens and of free places, and leaves others.\<close>

fun comm_counts :: "comm list \<Rightarrow> nat \<times> nat \<Rightarrow> (nat \<times> nat) option" where
  "comm_counts [] vf = Some vf"
| "comm_counts (Produce n # cs) vf =
     (if n \<le> snd vf then comm_counts cs (fst vf + n, snd vf - n) else None)"
| "comm_counts (Consume n # cs) vf =
     (if n \<le> fst vf then comm_counts cs (fst vf - n, snd vf + n) else None)"

lemma comm_counts_total: "comm_counts cs (v, f) = Some (v', f') \<Longrightarrow> v' + f' = v + f"
  by (induction cs "(v, f)" arbitrary: v f rule: comm_counts.induct) (force split: if_splits)+

context token_queue
begin

lemma comm_run:
  assumes "inv q"
  shows "map_option (\<lambda>q'. (visible q', free q')) (run_ops (comm_step wpp vpp rpp fpp) cs q) =
         comm_counts cs (visible q, free q)"
    and "pred_option (\<lambda>q'. inv q' \<and> depth q' = depth q) (run_ops (comm_step wpp vpp rpp fpp) cs q)"
proof -
  have "map_option (\<lambda>q'. (visible q', free q')) (run_ops (comm_step wpp vpp rpp fpp) cs q) =
         comm_counts cs (visible q, free q) \<and>
        pred_option (\<lambda>q'. inv q' \<and> depth q' = depth q) (run_ops (comm_step wpp vpp rpp fpp) cs q)"
    using assms
  proof (induction cs arbitrary: q)
    case (Cons c cs)
    show ?case
    proof (cases c)
      case (Produce n)
      show ?thesis
      proof (cases "n \<le> free q")
        case True
        then obtain q1 q2 where "wpp n q = Some q1" "vpp n q1 = Some q2" "inv q2"
            "visible q2 = visible q + n" "free q2 = free q - n" "depth q2 = depth q"
          using produce [OF Cons.prems] by blast
        then show ?thesis using Produce True Cons.IH [of q2] by simp
      next
        case False
        then show ?thesis using Produce no_overflow [OF Cons.prems] by simp
      qed
    next
      case (Consume n)
      show ?thesis
      proof (cases "n \<le> visible q")
        case True
        then obtain q1 q2 where "rpp n q = Some q1" "fpp n q1 = Some q2" "inv q2"
            "visible q2 = visible q - n" "free q2 = free q + n" "depth q2 = depth q"
          using consume [OF Cons.prems] by blast
        then show ?thesis using Consume True Cons.IH [of q2] by simp
      next
        case False
        then show ?thesis using Consume no_underflow [OF Cons.prems] by simp
      qed
    qed
  qed simp
  then show "map_option (\<lambda>q'. (visible q', free q')) (run_ops (comm_step wpp vpp rpp fpp) cs q) =
         comm_counts cs (visible q, free q)"
    and "pred_option (\<lambda>q'. inv q' \<and> depth q' = depth q) (run_ops (comm_step wpp vpp rpp fpp) cs q)"
    by simp_all
qed

end

interpretation frv: token_queue "\<lambda>q. mg_laws L \<and> frv_inv q" "rvw_visibleCount L" "frv_freeCount L"
  depthCount "frv_wpp L" "rvw_vpp L" "rvw_rpp L" "frv_fpp L" for L
proof
  fix q :: "'b frvwq_scheme" and n
  assume "mg_laws L \<and> frv_inv q"
  then have L: "mg_laws L" and q: "frv_inv q" by auto
  note c = frv_area_counts [OF L q]
  show "rvw_visibleCount L q + frv_freeCount L q \<le> depthCount q"
    using frv_areas_total [OF q] by (simp flip: c)
  show "frv_freeCount L q < n \<Longrightarrow> frv_wpp L n q = None"
    using frv_refuse(1) [OF L q] by (simp add: c)
  show "rvw_visibleCount L q < n \<Longrightarrow> rvw_rpp L n q = None"
    using frv_refuse(3) [OF L q] by (simp add: c)
  show "\<exists>q1 q2. frv_wpp L n q = Some q1 \<and> rvw_vpp L n q1 = Some q2 \<and> (mg_laws L \<and> frv_inv q1) \<and>
      (mg_laws L \<and> frv_inv q2) \<and> rvw_visibleCount L q2 = rvw_visibleCount L q + n \<and>
      frv_freeCount L q1 = frv_freeCount L q - n \<and>
      frv_freeCount L q2 = frv_freeCount L q - n \<and> depthCount q2 = depthCount q"
    if n: "n \<le> frv_freeCount L q"
  proof -
    note w = frv_wpp_areas [OF L q, of n, unfolded c, OF n]
    note v = rvw_vpp_areas [OF L w(2), of n]
    show ?thesis
      using w v L q by (simp add: depthCount_def flip: frv_area_counts(1,2) [OF L])
  qed
  show "\<exists>q1 q2. rvw_rpp L n q = Some q1 \<and> frv_fpp L n q1 = Some q2 \<and> (mg_laws L \<and> frv_inv q1) \<and>
      (mg_laws L \<and> frv_inv q2) \<and> rvw_visibleCount L q1 = rvw_visibleCount L q - n \<and>
      rvw_visibleCount L q2 = rvw_visibleCount L q - n \<and>
      frv_freeCount L q2 = frv_freeCount L q + n \<and> depthCount q2 = depthCount q"
    if n: "n \<le> rvw_visibleCount L q"
  proof -
    note r = rvw_rpp_areas [OF L q, of n, unfolded c, OF n]
    note f = frv_fpp_areas [OF L r(2), of n]
    show ?thesis
      using r f L q by (simp add: depthCount_def flip: frv_area_counts(1,2) [OF L])
  qed
qed


text \<open>The two-pointer class satisfies the same contract; its V area is all that is used.\<close>

lemma rw_wpp_step:
  assumes "mg_laws L" "rw_inv q" "n \<le> rw_freeCount L q"
  shows "\<exists>q'. rw_wpp L n q = Some q' \<and> rw_inv q' \<and> rw_usedCount L q' = rw_usedCount L q + n \<and>
    rw_freeCount L q' = rw_freeCount L q - n \<and> depthCount q' = depthCount q"
proof -
  let ?q' = "q\<lparr>windex := ring_step (fsize q) (windex q) n\<rparr>"
  have b: "rindex q < fsize q" "windex q < fsize q" using assms(2) by (auto simp: rw_inv_def)
  then have "ring_dist (fsize q) (rindex q) (windex q) + n < fsize q"
    using assms(3) ring_dist_less [OF b] by (simp add: rw_counts [OF assms(1,2)])
  moreover from this have "rw_wpp L n q = Some ?q'"
    using assms b by (simp add: rw_wpp_def)
  moreover from calculation have "rw_inv ?q'" using b by (simp add: rw_inv_def)
  ultimately show ?thesis
    using b by (simp add: rw_counts [OF assms(1)] assms(2) ring_dist_extend depthCount_def)
qed

lemma rw_rpp_step:
  assumes "mg_laws L" "rw_inv q" "n \<le> rw_usedCount L q"
  shows "\<exists>q'. rw_rpp L n q = Some q' \<and> rw_inv q' \<and> rw_usedCount L q' = rw_usedCount L q - n \<and>
    rw_freeCount L q' = rw_freeCount L q + n \<and> depthCount q' = depthCount q"
proof -
  let ?q' = "q\<lparr>rindex := ring_step (fsize q) (rindex q) n\<rparr>"
  have b: "rindex q < fsize q" "windex q < fsize q" using assms(2) by (auto simp: rw_inv_def)
  have n: "n \<le> ring_dist (fsize q) (rindex q) (windex q)" "ring_dist (fsize q) (rindex q) (windex q) < fsize q"
    using assms(3) ring_dist_less [OF b] by (simp_all add: rw_counts [OF assms(1,2)])
  then have "n \<le> fsize q" by linarith
  then have "rw_rpp L n q = Some ?q'"
    using assms n b by (simp add: rw_rpp_def rw_visibleCount_def)
  moreover have "rw_inv ?q'" using b n \<open>n \<le> fsize q\<close> by (simp add: rw_inv_def)
  ultimately show ?thesis
    using b n by (auto simp: rw_counts [OF assms(1)] assms(2) ring_dist_advance depthCount_def)
qed

interpretation rw: token_queue "\<lambda>q. mg_laws L \<and> rw_inv q" "rw_visibleCount L" "rw_freeCount L"
  depthCount "rw_wpp L" rw_vpp "rw_rpp L" rw_fpp for L
proof
  fix q :: "'b rwq_scheme" and n
  assume "mg_laws L \<and> rw_inv q"
  then have L: "mg_laws L" and q: "rw_inv q" by auto
  have "ring_dist (fsize q) (rindex q) (windex q) < fsize q"
    using q by (intro ring_dist_less) (auto simp: rw_inv_def)
  then show "rw_visibleCount L q + rw_freeCount L q \<le> depthCount q"
    by (simp add: rw_visibleCount_def rw_counts [OF L q] depthCount_def)
  show "rw_freeCount L q < n \<Longrightarrow> rw_wpp L n q = None"
    by (simp add: rw_wpp_def)
  show "rw_visibleCount L q < n \<Longrightarrow> rw_rpp L n q = None"
    by (simp add: rw_rpp_def)
  show "\<exists>q1 q2. rw_wpp L n q = Some q1 \<and> rw_vpp n q1 = Some q2 \<and> (mg_laws L \<and> rw_inv q1) \<and>
      (mg_laws L \<and> rw_inv q2) \<and> rw_visibleCount L q2 = rw_visibleCount L q + n \<and>
      rw_freeCount L q1 = rw_freeCount L q - n \<and>
      rw_freeCount L q2 = rw_freeCount L q - n \<and> depthCount q2 = depthCount q"
    if "n \<le> rw_freeCount L q"
    using rw_wpp_step [OF L q that] L by (auto simp: rw_vpp_def rw_visibleCount_def)
  show "\<exists>q1 q2. rw_rpp L n q = Some q1 \<and> rw_fpp n q1 = Some q2 \<and> (mg_laws L \<and> rw_inv q1) \<and>
      (mg_laws L \<and> rw_inv q2) \<and> rw_visibleCount L q1 = rw_visibleCount L q - n \<and>
      rw_visibleCount L q2 = rw_visibleCount L q - n \<and>
      rw_freeCount L q2 = rw_freeCount L q + n \<and> depthCount q2 = depthCount q"
    if "n \<le> rw_visibleCount L q"
    using rw_rpp_step [OF L q that [unfolded rw_visibleCount_def]] L
    by (auto simp: rw_fpp_def rw_visibleCount_def)
qed

text \<open>
  C3.  The build with \<^verbatim>\<open>SYSTEMOC_ENABLE_ROUTING\<close> (four pointers) and the build without it (two
  pointers) are observationally equal for channels that communicate in one step
  (\<^verbatim>\<open>commExec\<close>): for every schedule on a fresh queue, both accept it or both fire an assertion,
  and they agree on the available tokens and the free places, which are those of a counter.
\<close>

theorem routing_build_equivalent:
  assumes "mg_laws L"
  shows "map_option (\<lambda>q. (rvw_visibleCount L q, frv_freeCount L q))
           (run_ops (comm_step (frv_wpp L) (rvw_vpp L) (rvw_rpp L) (frv_fpp L)) cs (mk_frvwq n))
         = comm_counts cs (0, n) \<and>
         map_option (\<lambda>q. (rw_visibleCount L q, rw_freeCount L q))
           (run_ops (comm_step (rw_wpp L) rw_vpp (rw_rpp L) rw_fpp) cs (mk_rwq n))
         = comm_counts cs (0, n)"
proof -
  have rw: "rw_inv (mk_rwq n)" by (simp add: rw_inv_def mk_rwq_def)
  have "(rw_visibleCount L (mk_rwq n), rw_freeCount L (mk_rwq n)) = (0, n)"
    by (simp add: rw_visibleCount_def rw_counts [OF assms rw]) (simp add: mk_rwq_def)
  moreover have "(rvw_visibleCount L (mk_frvwq n), frv_freeCount L (mk_frvwq n)) = (0, n)"
    by (simp add: frv_mk_areas flip: frv_area_counts(1,2) [OF assms frv_mk_inv])
  ultimately show ?thesis
    using frv.comm_run(1) [of L "mk_frvwq n" cs] rw.comm_run(1) [of L "mk_rwq n" cs] assms rw frv_mk_inv
    by simp
qed

theorem routing_build_equivalent_witness:
  "map_option (\<lambda>q. (rw_visibleCount math_ref q, rw_freeCount math_ref q))
     (run_ops (comm_step (rw_wpp math_ref) rw_vpp (rw_rpp math_ref) rw_fpp)
        [Produce 2, Consume 1, Produce 2] (mk_rwq 3)) = Some (3, 0)"
proof -
  have "comm_counts [Produce 2, Consume 1, Produce 2] (0, 3) = Some (3, 0)" by simp
  then show ?thesis
    using routing_build_equivalent [OF math_ref_laws, of "[Produce 2, Consume 1, Produce 2]" 3]
    by (simp only:)
qed

end
