(* ===== verification/Queue_Storage.thy ===== *)
theory Queue_Storage
  imports Queue_Pointers
begin

text \<open>
  Token storage of the queue channels: \<^verbatim>\<open>Storage\<close>, \<^verbatim>\<open>QueueWithStorageHelper\<close>, \<^verbatim>\<open>RingAccess\<close>
  and \<^verbatim>\<open>FifoStorage\<close> (\<^verbatim>\<open>src/systemoc/headers/smoc/detail/\<close>), over the four-pointer queue.  A
  storage cell is \<^term>\<open>Some t\<close> when it is valid and \<^term>\<open>None\<close> when it is invalid.
\<close>

section \<open>Storage cells\<close>

text \<open>
  \<^verbatim>\<open>get()\<close> of a non-const cell default-constructs the token when \<^verbatim>\<open>T\<close> has a default constructor
  (\<open>D = Some d\<close>) and asserts validity otherwise (\<open>D = None\<close>).  It returns the token and the cell.
\<close>

definition cell_get :: "'a option \<Rightarrow> 'a option \<Rightarrow> ('a \<times> 'a option) option" where
  "cell_get D c = (case c of
       Some t \<Rightarrow> Some (t, c)
     | None \<Rightarrow> (case D of Some d \<Rightarrow> Some (d, Some d) | None \<Rightarrow> None))"

definition cell_get_const :: "'a option \<Rightarrow> 'a option" where
  "cell_get_const c = c"

definition cell_put :: "'a \<Rightarrow> 'a option \<Rightarrow> 'a option" where
  "cell_put t c = Some t"

definition cell_isValid :: "'a option \<Rightarrow> bool" where
  "cell_isValid c = (c \<noteq> None)"

definition cell_invalidate :: "'a option \<Rightarrow> 'a option" where
  "cell_invalidate c = None"

section \<open>Queue with storage\<close>

record 'a qws = frvwq +
  storage :: "'a option list"

definition mk_qws :: "nat \<Rightarrow> 'a qws" where
  "mk_qws n = frvwq.extend (mk_frvwq n) \<lparr>storage = replicate (n + 1) None\<rparr>"

fun invalidate_range :: "nat \<Rightarrow> nat \<Rightarrow> 'a option list \<Rightarrow> 'a option list" where
  "invalidate_range i 0 st = st"
| "invalidate_range i (Suc k) st = invalidate_range (Suc i) k (st[i := cell_invalidate (st ! i)])"

text \<open>
  \<^verbatim>\<open>rpp\<close>: invalidate the consumed tokens, up to the end of the ring and then from its start, and
  advance the read pointer.
\<close>

definition qws_rpp :: "math_lib \<Rightarrow> nat \<Rightarrow> ('a, 'z) qws_scheme \<Rightarrow> ('a, 'z) qws_scheme option" where
  "qws_rpp L n q = (let
       r = rindex q; ov = min n (fsize q - r); p = n - ov; ov = ov + r;
       st = invalidate_range r (ov - r) (storage q)
     in do {
       assert_that (p = 0 \<or> ov = fsize q);
       rvw_rpp L n (q\<lparr>storage := invalidate_range 0 p st\<rparr>)
     })"

definition qws_resetQueue :: "('a, 'z) qws_scheme \<Rightarrow> ('a, 'z) qws_scheme option" where
  "qws_resetQueue q = (let
       r = rindex q; w = windex q;
       ov = (if r \<le> w then w else fsize q);
       p = (if r \<le> w then 0 else w);
       st = invalidate_range r (ov - r) (storage q)
     in do {
       assert_that (p = 0 \<or> ov = fsize q);
       Some (frv_resetQueue (q\<lparr>storage := invalidate_range 0 p st\<rparr>))
     })"

text \<open>
  \<^verbatim>\<open>moveTokensRight\<close>: the generator yields positions with \<^verbatim>\<open>popMax()\<close>, and \<^verbatim>\<open>-1\<close> when it is
  exhausted; here it is the list of the positions it has left.  \<open>at\<close> maps a position to its cell.
\<close>

fun popMax :: "nat list \<Rightarrow> int \<times> nat list" where
  "popMax [] = (- 1, [])"
| "popMax (p # ps) = (int p, ps)"

definition move_cell :: "'a option \<Rightarrow> nat \<Rightarrow> nat \<Rightarrow> 'a option list \<Rightarrow> 'a option list option" where
  "move_cell D src dst st = do {
     (t, c) \<leftarrow> cell_get D (st ! src);
     let st = st[src := c];
     let st = st[dst := cell_put t (st ! dst)];
     Some (st[src := cell_invalidate (st ! src)])
   }"

text \<open>The inner \<^verbatim>\<open>for\<close> loop: \<open>k\<close> steps of \<^verbatim>\<open>--srcPos, --dstPos\<close>.\<close>

fun move_down :: "'a option \<Rightarrow> (int \<Rightarrow> nat) \<Rightarrow> nat \<Rightarrow> int \<Rightarrow> int \<Rightarrow> 'a option list \<Rightarrow>
    (int \<times> int \<times> 'a option list) option" where
  "move_down D at 0 src dst st = Some (src, dst, st)"
| "move_down D at (Suc k) src dst st = do {
     st \<leftarrow> move_cell D (at src) (at dst) st;
     move_down D at k (src - 1) (dst - 1) st
   }"

lemma move_down_src: "move_down D at k src dst st = Some (src', dst', st') \<Longrightarrow> src' = src - int k"
proof (induction k arbitrary: src dst st)
  case (Suc k)
  then obtain z where "move_down D at k (src - 1) (dst - 1) z = Some (src', dst', st')"
    by (auto simp: bind_eq_Some_iff)
  from Suc.IH [OF this] show ?case by simp
qed simp

text \<open>The outer \<^verbatim>\<open>while\<close> loop; \<^verbatim>\<open>srcPos\<close> falls in every round.\<close>

function move_outer :: "'a option \<Rightarrow> (int \<Rightarrow> nat) \<Rightarrow> nat list \<Rightarrow> int \<Rightarrow> int \<Rightarrow> 'a option list \<Rightarrow>
    (int \<times> 'a option list) option" where
  "move_outer D at g src dst st =
     (if src < 0 then Some (dst, st)
      else (let st = st[at src := cell_invalidate (st ! at src)]; (npos, g) = popMax g
        in case move_down D at (nat (src - 1 - npos)) (src - 1) dst st of
             None \<Rightarrow> None
           | Some (src, dst, st) \<Rightarrow> move_outer D at g src dst st))"
  by pat_completeness auto
termination
  by (relation "measure (\<lambda>(D, at, g, src, dst, st). nat (src + 1))") (auto dest: move_down_src)

declare move_outer.simps [simp del]

definition moveTokensRight :: "'a option \<Rightarrow> nat list \<Rightarrow> ('a, 'z) qws_scheme \<Rightarrow>
    (nat \<times> ('a, 'z) qws_scheme) option" where
  "moveTokensRight D g q = (let (src, g) = popMax g
     in case move_outer D (\<lambda>i. (nat i + rindex q) mod fsize q) g src src (storage q) of
          None \<Rightarrow> None
        | Some (dst, st) \<Rightarrow> Some (nat (dst + 1), q\<lparr>storage := st\<rparr>))"

definition qws_dropRVisible :: "math_lib \<Rightarrow> 'a option \<Rightarrow> nat list \<Rightarrow> ('a, 'z) qws_scheme \<Rightarrow>
    ('a, 'z) qws_scheme option" where
  "qws_dropRVisible L D g q = do {
     (n, q) \<leftarrow> moveTokensRight D g q;
     frv_dropRVisible L n q
   }"

text \<open>\<^verbatim>\<open>DropRInvisibleWrapGenerator\<close> adds the number of visible tokens to every position.\<close>

definition wrap_generator :: "nat \<Rightarrow> nat list \<Rightarrow> nat list" where
  "wrap_generator offset g = map (\<lambda>p. p + offset) g"

definition qws_dropRInvisible :: "math_lib \<Rightarrow> 'a option \<Rightarrow> nat list \<Rightarrow> ('a, 'z) qws_scheme \<Rightarrow>
    ('a, 'z) qws_scheme option" where
  "qws_dropRInvisible L D g q = do {
     (n, q) \<leftarrow> moveTokensRight D (wrap_generator (rvw_visibleCount L q) g) q;
     frv_dropRInvisible L n q
   }"

section \<open>Port access\<close>

text \<open>\<^verbatim>\<open>RingAccess::operator[]\<close> with the limit the firing rule has set.\<close>

definition ring_index :: "nat \<Rightarrow> nat \<Rightarrow> nat \<Rightarrow> nat \<Rightarrow> nat option" where
  "ring_index limit sz offs n = do {
     assert_that (n < limit);
     Some (if offs + n < sz then offs + n else offs + n - sz)
   }"

definition read_token :: "'a option \<Rightarrow> nat \<Rightarrow> nat \<Rightarrow> ('a, 'z) qws_scheme \<Rightarrow> ('a \<times> ('a, 'z) qws_scheme) option" where
  "read_token D limit n q = do {
     i \<leftarrow> ring_index limit (fsize q) (rindex q) n;
     (t, c) \<leftarrow> cell_get D (storage q ! i);
     Some (t, q\<lparr>storage := (storage q)[i := c]\<rparr>)
   }"

definition write_token :: "nat \<Rightarrow> nat \<Rightarrow> 'a \<Rightarrow> ('a, 'z) qws_scheme \<Rightarrow> ('a, 'z) qws_scheme option" where
  "write_token limit n t q = do {
     i \<leftarrow> ring_index limit (fsize q) (windex q) n;
     Some (q\<lparr>storage := (storage q)[i := cell_put t (storage q ! i)]\<rparr>)
   }"

section \<open>FIFO storage\<close>

record 'a fifo_storage = "'a qws" +
  initialTokens :: "'a list"

fun put_tokens :: "nat \<Rightarrow> 'a list \<Rightarrow> 'a option list \<Rightarrow> 'a option list" where
  "put_tokens j [] st = st"
| "put_tokens j (t # ts) st = put_tokens (Suc j) ts (st[j := cell_put t (st ! j)])"

text \<open>\<^verbatim>\<open>FifoStorage::doReset\<close> up to the call of the \<^verbatim>\<open>doReset\<close> of its base class.\<close>

definition fifo_storage_reset :: "math_lib \<Rightarrow> ('a, 'z) fifo_storage_scheme \<Rightarrow>
    ('a, 'z) fifo_storage_scheme option" where
  "fifo_storage_reset L q = do {
     q \<leftarrow> qws_resetQueue q;
     assert_that (length (initialTokens q) \<le> depthCount q);
     let q = q\<lparr>storage := put_tokens 0 (initialTokens q) (storage q)\<rparr>;
     q \<leftarrow> frv_wpp L (length (initialTokens q)) q;
     rvw_vpp L (length (initialTokens q)) q
   }"


section \<open>The cells seen from the read pointer\<close>

lemma invalidate_range_eq:
  "i + k \<le> length st \<Longrightarrow> invalidate_range i k st = take i st @ replicate k None @ drop (i + k) st"
proof (induction k arbitrary: i st)
  case (Suc k)
  then have "invalidate_range i (Suc k) st =
      take (Suc i) (st[i := None]) @ replicate k None @ drop (Suc i + k) (st[i := None])"
    by (simp add: cell_invalidate_def)
  also have "take (Suc i) (st[i := None]) = take i st @ [None]"
    using Suc.prems by (simp add: take_Suc_conv_app_nth)
  finally show ?case using Suc.prems by simp
qed simp

lemma put_tokens_eq:
  "j + length ts \<le> length st \<Longrightarrow> put_tokens j ts st = take j st @ map Some ts @ drop (j + length ts) st"
proof (induction ts arbitrary: j st)
  case (Cons t ts)
  have "take (Suc j) (st[j := Some t]) = take j st @ [Some t]"
    using Cons.prems by (simp add: take_Suc_conv_app_nth)
  then show ?case using Cons by (simp add: cell_put_def)
qed simp

definition qws_inv :: "('a, 'z) qws_scheme \<Rightarrow> bool" where
  "qws_inv q \<longleftrightarrow> frv_inv q \<and> length (storage q) = fsize q"

lemma qws_inv_frv: "qws_inv q \<Longrightarrow> frv_inv q"
  by (simp add: qws_inv_def)

text \<open>All cells of the ring, starting at the read pointer, and those in use.\<close>

definition ring_cells :: "('a, 'z) qws_scheme \<Rightarrow> 'a option list" where
  "ring_cells q = rotate (rindex q) (storage q)"

definition used_cells :: "('a, 'z) qws_scheme \<Rightarrow> 'a option list" where
  "used_cells q = take (ring_dist (fsize q) (rindex q) (windex q)) (ring_cells q)"

lemma length_ring_cells [simp]: "length (ring_cells q) = length (storage q)"
  by (simp add: ring_cells_def)

lemma length_used_cells:
  "qws_inv q \<Longrightarrow> length (used_cells q) = ring_dist (fsize q) (rindex q) (windex q)"
  using frv_inv_bounds [of q] ring_dist_less [of "rindex q" "fsize q" "windex q"]
  by (simp add: used_cells_def qws_inv_def)

lemma rotate_nth_step:
  "r < length st \<Longrightarrow> j < length st \<Longrightarrow> rotate r st ! j = st ! ring_step (length st) r j"
  by (simp add: nth_rotate ring_step_mod)

lemma rotate_update:
  assumes "length st = m" "r < m" "j < m"
  shows "rotate r (st[ring_step m r j := x]) = (rotate r st)[j := x]"
proof (rule nth_equalityI)
  fix i assume "i < length (rotate r (st[ring_step m r j := x]))"
  then show "rotate r (st[ring_step m r j := x]) ! i = (rotate r st)[j := x] ! i"
    using assms rotate_nth_step [of r "st[ring_step m r j := x]" i]
    by (auto simp: rotate_nth_step ring_step_inj nth_list_update)
qed simp

lemma rotate_split: "r < length st \<Longrightarrow> rotate r st = drop r st @ take r st"
  by (simp add: rotate_drop_take)

text \<open>Consuming \<open>n\<close> visible tokens drops and invalidates the first \<open>n\<close> cells.\<close>

lemma qws_rpp_storage:
  assumes "r < length st" "n < length st"
  shows "rotate (ring_step (length st) r n)
      (invalidate_range 0 (n - min n (length st - r)) (invalidate_range r (min n (length st - r)) st))
    = drop n (rotate r st) @ replicate n None"
proof (cases "n \<le> length st - r")
  case True
  then have "min n (length st - r) = n" by simp
  moreover have "invalidate_range r n st = take r st @ replicate n None @ drop (r + n) st"
    using True assms by (intro invalidate_range_eq) simp
  ultimately show ?thesis
    using True assms by (cases "r + n < length st")
      (auto simp: rotate_split ring_step_def add.commute)
next
  case False
  let ?m = "length st" and ?p = "n - (length st - r)"
  have 1: "invalidate_range r (?m - r) st = take r st @ replicate (?m - r) None"
    using assms by (subst invalidate_range_eq) simp_all
  have p: "?p \<le> r" using assms by linarith
  have "invalidate_range 0 ?p (take r st @ replicate (?m - r) None)
      = replicate ?p None @ drop ?p (take r st) @ replicate (?m - r) None"
    using p assms by (subst invalidate_range_eq) simp_all
  moreover have "ring_step ?m r n = ?p" using False assms by (auto simp: ring_step_def)
  moreover have "?p < ?m" using assms by linarith
  moreover have "replicate n (None :: 'a option) = replicate (?m - r) None @ replicate ?p None"
    using False by (simp flip: replicate_add)
  ultimately show ?thesis
    using False assms p 1 by (simp add: rotate_split min_def)
qed

lemma qws_rpp_step:
  fixes q :: "('a, 'z) qws_scheme"
  assumes "mg_laws L" "qws_inv q" "n \<le> area_V (frv_areas q)"
  shows "\<exists>q'. qws_rpp L n q = Some q' \<and> qws_inv q' \<and>
    frv_areas q' = (frv_areas q)\<lparr>area_C := area_C (frv_areas q) + n, area_V := area_V (frv_areas q) - n\<rparr> \<and>
    ring_cells q' = drop n (ring_cells q) @ replicate n None \<and>
    used_cells q' = drop n (used_cells q) \<and>
    q' = q\<lparr>rindex := rindex q', storage := storage q'\<rparr>"
proof -
  have inv: "frv_inv q" and len: "length (storage q) = fsize q" using assms(2) by (auto simp: qws_inv_def)
  note b = frv_inv_bounds [OF inv] and s = frv_inv_split [OF inv]
  let ?st = "invalidate_range 0 (n - min n (fsize q - rindex q))
      (invalidate_range (rindex q) (min n (fsize q - rindex q)) (storage q))"
  let ?q = "q\<lparr>storage := ?st\<rparr>"
  have q: "frv_inv ?q" "frv_areas ?q = frv_areas q"
    using inv by (simp_all add: frv_inv_def rvw_inv_def rw_inv_def frv_areas_def)
  note r = rvw_rpp_areas [OF assms(1) q(1), unfolded q(2), OF assms(3)]
  let ?q' = "?q\<lparr>rindex := ring_step (fsize q) (rindex q) n\<rparr>"
  have n: "n \<le> ring_dist (fsize q) (rindex q) (vindex q)" "n < fsize q"
      "n \<le> ring_dist (fsize q) (rindex q) (windex q)"
      "ring_dist (fsize q) (rindex q) (windex q) - fsize q = 0"
    using assms(3) s unfolding frv_areas_def areas.simps by linarith+
  have st: "length ?st = fsize q"
    using qws_rpp_storage [of "rindex q" "storage q" n] b(1) n(2) len
    by (metis add_diff_inverse_nat length_append length_drop length_replicate length_rotate not_less_iff_gr_or_eq less_imp_le_nat le_add_diff_inverse2)
  have "n - min n (fsize q - rindex q) = 0 \<or> min n (fsize q - rindex q) + rindex q = fsize q"
    using b(1) by linarith
  then have "qws_rpp L n q = Some ?q'"
    using r(1) by (simp add: qws_rpp_def Let_def)
  moreover have cells: "ring_cells ?q' = drop n (ring_cells q) @ replicate n None"
    using qws_rpp_storage [of "rindex q" "storage q" n] b(1) n(2) by (simp add: ring_cells_def len)
  moreover have "used_cells ?q' = drop n (used_cells q)"
    using b n by (simp add: used_cells_def cells ring_dist_advance drop_take)
      (simp add: len)
  ultimately show ?thesis using r st by (intro exI [of _ ?q']) (simp add: qws_inv_def)
qed


text \<open>The other pointers do not touch the cells seen from the read pointer.\<close>

lemma qws_inv_upd:
  "frv_inv q' \<Longrightarrow> qws_inv q \<Longrightarrow> fsize q' = fsize q \<Longrightarrow> storage q' = storage q \<Longrightarrow> qws_inv q'"
  by (simp add: qws_inv_def)

lemma qws_wpp_step:
  fixes q :: "('a, 'z) qws_scheme"
  assumes "mg_laws L" "qws_inv q" "n \<le> area_F (frv_areas q)"
  shows "\<exists>q'. frv_wpp L n q = Some q' \<and> qws_inv q' \<and>
    frv_areas q' = (frv_areas q)\<lparr>area_P := area_P (frv_areas q) + n, area_F := area_F (frv_areas q) - n\<rparr> \<and>
    ring_cells q' = ring_cells q \<and> used_cells q' = take (length (used_cells q) + n) (ring_cells q) \<and>
    q' = q\<lparr>windex := windex q'\<rparr>"
proof -
  have inv: "frv_inv q" using assms(2) by (simp add: qws_inv_def)
  note b = frv_inv_bounds [OF inv] and s = frv_inv_split [OF inv]
  let ?q' = "q\<lparr>windex := ring_step (fsize q) (windex q) n\<rparr>"
  note w = frv_wpp_areas [OF assms(1) inv assms(3)]
  have n: "ring_dist (fsize q) (rindex q) (windex q) + n < fsize q"
    using assms(3) s unfolding frv_areas_def areas.simps by linarith
  have c: "ring_cells ?q' = ring_cells q" by (simp add: ring_cells_def)
  have "used_cells ?q' = take (length (used_cells q) + n) (ring_cells q)"
    unfolding length_used_cells [OF assms(2)] unfolding used_cells_def c
    using b n by (simp add: ring_dist_extend)
  then show ?thesis using w c assms(2) by (intro exI [of _ ?q']) (simp add: qws_inv_upd)
qed

lemma qws_vpp_step:
  fixes q :: "('a, 'z) qws_scheme"
  assumes "mg_laws L" "qws_inv q" "n \<le> area_P (frv_areas q)"
  shows "\<exists>q'. rvw_vpp L n q = Some q' \<and> qws_inv q' \<and>
    frv_areas q' = (frv_areas q)\<lparr>area_V := area_V (frv_areas q) + n, area_P := area_P (frv_areas q) - n\<rparr> \<and>
    ring_cells q' = ring_cells q \<and> used_cells q' = used_cells q \<and> q' = q\<lparr>vindex := vindex q'\<rparr>"
  using rvw_vpp_areas [OF assms(1) qws_inv_frv [OF assms(2)] assms(3)] assms(2)
  by (simp add: qws_inv_def ring_cells_def used_cells_def)

lemma qws_fpp_step:
  fixes q :: "('a, 'z) qws_scheme"
  assumes "mg_laws L" "qws_inv q" "n \<le> area_C (frv_areas q)"
  shows "\<exists>q'. frv_fpp L n q = Some q' \<and> qws_inv q' \<and>
    frv_areas q' = (frv_areas q)\<lparr>area_C := area_C (frv_areas q) - n, area_F := area_F (frv_areas q) + n\<rparr> \<and>
    ring_cells q' = ring_cells q \<and> used_cells q' = used_cells q \<and> q' = q\<lparr>findex := findex q'\<rparr>"
  using frv_fpp_areas [OF assms(1) qws_inv_frv [OF assms(2)] assms(3)] assms(2)
  by (simp add: qws_inv_def ring_cells_def used_cells_def)

section \<open>Reading and writing through the ports\<close>

lemma ring_index_step: "n < limit \<Longrightarrow> ring_index limit m a n = Some (ring_step m a n)"
  by (simp add: ring_index_def ring_step_def)

text \<open>A read at offset \<open>n\<close> sees the \<open>n\<close>-th used cell, and leaves a valid one as it is.\<close>

lemma read_token_cell:
  fixes q :: "('a, 'z) qws_scheme"
  assumes "qws_inv q" "n < limit" "n < length (used_cells q)" "used_cells q ! n = Some t"
  shows "read_token D limit n q = Some (t, q)"
proof -
  have inv: "frv_inv q" and len: "length (storage q) = fsize q" using assms(1) by (auto simp: qws_inv_def)
  note b = frv_inv_bounds [OF inv] and s = frv_inv_split [OF inv]
  let ?i = "ring_step (fsize q) (rindex q) n"
  have "n < ring_dist (fsize q) (rindex q) (windex q)" "n < fsize q"
    using assms(3) s by (auto simp: length_used_cells [OF assms(1)])
  then have "storage q ! ?i = Some t"
    using b len assms(4) rotate_nth_step [of "rindex q" "storage q" n] by (simp add: used_cells_def ring_cells_def)
  moreover from this have "(storage q)[?i := Some t] = storage q" by (metis list_update_id)
  ultimately show ?thesis using assms(2) by (simp add: read_token_def ring_index_step cell_get_def)
qed

text \<open>A write at offset \<open>n\<close> of the free area changes one cell behind the used ones.\<close>

lemma write_token_cell:
  fixes q :: "('a, 'z) qws_scheme"
  assumes "qws_inv q" "n < limit" "n < area_F (frv_areas q)"
  shows "\<exists>q'. write_token limit n t q = Some q' \<and> qws_inv q' \<and> frv_areas q' = frv_areas q \<and>
    ring_cells q' = (ring_cells q)[length (used_cells q) + n := Some t] \<and> used_cells q' = used_cells q \<and>
    q' = q\<lparr>storage := storage q'\<rparr>"
proof -
  have inv: "frv_inv q" and len: "length (storage q) = fsize q" using assms(1) by (auto simp: qws_inv_def)
  note b = frv_inv_bounds [OF inv] and s = frv_inv_split [OF inv]
  let ?u = "ring_dist (fsize q) (rindex q) (windex q)"
  have n: "?u + n < fsize q"
    using assms(3) s unfolding frv_areas_def areas.simps by linarith
  have pos: "ring_step (fsize q) (windex q) n = ring_step (fsize q) (rindex q) (?u + n)"
    using ring_step_step [of "rindex q" "fsize q" ?u n] b n by simp
  let ?q' = "q\<lparr>storage := (storage q)[ring_step (fsize q) (windex q) n := Some t]\<rparr>"
  have "write_token limit n t q = Some ?q'"
    using assms(2) by (simp add: write_token_def ring_index_step cell_put_def)
  moreover have c: "ring_cells ?q' = (ring_cells q)[length (used_cells q) + n := Some t]"
    using rotate_update [of "storage q" "fsize q" "rindex q" "?u + n" "Some t"] b n len
    by (simp add: ring_cells_def pos length_used_cells [OF assms(1)])
  moreover have "used_cells ?q' = used_cells q"
    using c [unfolded length_used_cells [OF assms(1)]] by (simp add: used_cells_def)
  ultimately show ?thesis
    using inv len by (intro exI [of _ ?q'])
      (simp add: qws_inv_def frv_inv_def rvw_inv_def rw_inv_def frv_areas_def)
qed

section \<open>Reset\<close>

lemma length_invalidate_range [simp]: "length (invalidate_range i k st) = length st"
  by (induction i k st rule: invalidate_range.induct) simp_all

lemma length_put_tokens [simp]: "length (put_tokens j ts st) = length st"
  by (induction j ts st rule: put_tokens.induct) simp_all

lemma qws_resetQueue_step:
  fixes q :: "('a, 'z) qws_scheme"
  assumes "qws_inv q"
  shows "\<exists>st. qws_resetQueue q = Some (q\<lparr>storage := st, findex := 0, vindex := 0, rindex := 0, windex := 0\<rparr>) \<and>
    length st = fsize q"
proof -
  have "rindex q < fsize q" "windex q < fsize q" "length (storage q) = fsize q"
    using assms frv_inv_bounds [of q] by (auto simp: qws_inv_def)
  then show ?thesis
    by (auto simp: qws_resetQueue_def Let_def frv_resetQueue_def rvw_resetQueue_def rw_resetQueue_def
        intro!: exI)
qed

lemma fifo_storage_reset_step:
  fixes q :: "('a, 'z) fifo_storage_scheme"
  assumes "mg_laws L" "qws_inv q" "length (initialTokens q) \<le> depthCount q"
  shows "\<exists>q'. fifo_storage_reset L q = Some q' \<and> qws_inv q' \<and>
    used_cells q' = map Some (initialTokens q) \<and>
    frv_areas q' = \<lparr>area_C = 0, area_V = length (initialTokens q), area_P = 0,
      area_F = depthCount q - length (initialTokens q)\<rparr> \<and>
    (\<exists>st w v. q' = q\<lparr>findex := 0, rindex := 0, storage := st, windex := w, vindex := v\<rparr>)"
proof -
  let ?k = "length (initialTokens q)"
  obtain st where r: "qws_resetQueue q = Some (q\<lparr>storage := st, findex := 0, vindex := 0, rindex := 0, windex := 0\<rparr>)"
      and len: "length st = fsize q"
    using qws_resetQueue_step [OF assms(2)] by blast
  let ?q1 = "q\<lparr>findex := 0, vindex := 0, rindex := 0, windex := 0, storage := put_tokens 0 (initialTokens q) st\<rparr>"
  have f: "0 < fsize q" using assms(2) frv_inv_bounds [of q] by (auto simp: qws_inv_def)
  then have k: "?k < fsize q" using assms(3) unfolding depthCount_def by linarith
  have inv: "qws_inv ?q1"
    using f len by (simp add: qws_inv_def frv_inv_def rvw_inv_def rw_inv_def)
  have areas: "frv_areas ?q1 = \<lparr>area_C = 0, area_V = 0, area_P = 0, area_F = depthCount q\<rparr>"
    by (simp add: frv_areas_def depthCount_def)
  have cells: "ring_cells ?q1 = map Some (initialTokens q) @ drop ?k st"
    using put_tokens_eq [of 0 "initialTokens q" st] k len by (simp add: ring_cells_def)
  have used: "used_cells ?q1 = []" by (simp add: used_cells_def)
  obtain q2 where w: "frv_wpp L ?k ?q1 = Some q2" "qws_inv q2"
      "frv_areas q2 = \<lparr>area_C = 0, area_V = 0, area_P = ?k, area_F = depthCount q - ?k\<rparr>"
      "used_cells q2 = map Some (initialTokens q)" "q2 = ?q1\<lparr>windex := windex q2\<rparr>"
    using qws_wpp_step [OF assms(1) inv, of ?k] areas assms(3) cells used by auto
  obtain q3 where v: "rvw_vpp L ?k q2 = Some q3" "qws_inv q3"
      "frv_areas q3 = \<lparr>area_C = 0, area_V = ?k, area_P = 0, area_F = depthCount q - ?k\<rparr>"
      "used_cells q3 = map Some (initialTokens q)" "q3 = q2\<lparr>vindex := vindex q3\<rparr>"
    using qws_vpp_step [OF assms(1) w(2), of ?k] w(3,4) by auto
  have i: "initialTokens q2 = initialTokens q"
    using arg_cong [OF w(5), of initialTokens] by simp
  have "fifo_storage_reset L q = Some q3"
    using r w(1) v(1) assms(3) i by (simp add: fifo_storage_reset_def depthCount_def)
  moreover have "\<exists>st w v. q3 = q\<lparr>findex := 0, rindex := 0, storage := st, windex := w, vindex := v\<rparr>"
    by (subst v(5), subst w(5)) (auto intro!: exI)
  ultimately show ?thesis using v by blast
qed

text \<open>How the used cells fill the ring.\<close>

lemma used_cells_areas:
  assumes "qws_inv q"
  shows "length (used_cells q) = area_V (frv_areas q) + area_P (frv_areas q)"
  using frv_inv_split(1) [OF qws_inv_frv [OF assms]]
  by (simp add: length_used_cells [OF assms] frv_areas_def)

lemma used_cells_room:
  assumes "qws_inv q"
  shows "area_C (frv_areas q) + length (used_cells q) + area_F (frv_areas q) = depthCount q"
    and "depthCount q < length (ring_cells q)"
proof -
  show "area_C (frv_areas q) + length (used_cells q) + area_F (frv_areas q) = depthCount q"
    using frv_areas_total [OF qws_inv_frv [OF assms]] by (simp add: used_cells_areas [OF assms])
  show "depthCount q < length (ring_cells q)"
    using frv_inv_bounds(1) [OF qws_inv_frv [OF assms]] assms
    unfolding depthCount_def qws_inv_def length_ring_cells by linarith
qed

end
