(* ===== verification/Queue_Drop.thy ===== *)
theory Queue_Drop
  imports Queue_Storage
begin

text \<open>
  What \<^verbatim>\<open>moveTokensRight\<close>, \<^verbatim>\<open>dropRVisible\<close> and \<^verbatim>\<open>dropRInvisible\<close> of the storage queue do to the
  tokens: the chosen positions disappear, the others keep their order.
\<close>

section \<open>Removing tokens in the middle\<close>

text \<open>
  Seen from the read pointer, \<^verbatim>\<open>moveTokensRight\<close> works on a list: the moves of the ring commute
  with the rotation.
\<close>

lemma move_cell_rotate:
  assumes "length st = m" "r < m" "i < m" "j < m"
  shows "map_option (rotate r) (move_cell D (ring_step m r i) (ring_step m r j) st) =
         move_cell D i j (rotate r st)"
  using assms
  by (auto simp: rotate_nth_step move_cell_def cell_get_def cell_put_def cell_invalidate_def rotate_update
      split: option.splits)

lemma length_move_cell: "move_cell D i j st = Some st' \<Longrightarrow> length st' = length st"
  by (auto simp: move_cell_def Let_def bind_eq_Some_iff)

lemma move_down_rotate:
  assumes "length st = m" "r < m" "src < int m" "dst < int m" "int k \<le> src + 1" "src \<le> dst"
  shows "map_option (\<lambda>(s, d, st). (s, d, rotate r st))
      (move_down D (\<lambda>i. (nat i + r) mod m) k src dst st) = move_down D nat k src dst (rotate r st)"
  using assms
proof (induction k arbitrary: src dst st)
  case (Suc k)
  have pos: "(nat src + r) mod m = ring_step m r (nat src)" "(nat dst + r) mod m = ring_step m r (nat dst)"
    using Suc.prems by (simp_all add: add.commute ring_step_mod)
  have rot: "map_option (rotate r) (move_cell D (ring_step m r (nat src)) (ring_step m r (nat dst)) st) =
      move_cell D (nat src) (nat dst) (rotate r st)"
    using Suc.prems by (intro move_cell_rotate) auto
  have len: "length z = m" if "move_cell D (ring_step m r (nat src)) (ring_step m r (nat dst)) st = Some z" for z
    using length_move_cell [OF that] Suc.prems by simp
  show ?case
  proof (cases "move_cell D (ring_step m r (nat src)) (ring_step m r (nat dst)) st")
    case (Some z)
    then have "length z = m" and "move_cell D (nat src) (nat dst) (rotate r st) = Some (rotate r z)"
      using len rot by auto
    then show ?thesis
      using Suc.IH [of z "src - 1" "dst - 1"] Suc.prems Some pos by simp
  qed (use pos rot in simp)
qed simp

text \<open>The inner loop shifts the block \<open>B\<close> right over the gap of \<open>w\<close> invalid cells behind it.\<close>

lemma move_down_block:
  assumes "\<forall>c \<in> set B. c \<noteq> None" "0 < w"
  shows "move_down D nat (length B) (int (length A + length B) - 1) (int (length A + length B + w) - 1)
      (A @ B @ replicate w None @ C) =
    Some (int (length A) - 1, int (length A + w) - 1, A @ replicate w None @ B @ C)"
  using assms(1)
proof (induction B arbitrary: C rule: rev_induct)
  case (snoc b B)
  obtain t where b: "b = Some t" using snoc.prems by auto
  obtain w' where w: "w = Suc w'" using assms(2) by (cases w) auto
  let ?s = "length A + length B"
  have pos: "nat (int (length A) + int (length B)) = ?s"
      "nat (int (length A) + int (length B) + int w) = ?s + w" by linarith+
  have split: "A @ (B @ [b]) @ replicate w None @ C = (A @ B) @ Some t # replicate w' None @ None # C"
    unfolding w replicate_Suc replicate_append_same [symmetric] b by simp
  have "move_cell D ?s (?s + w) ((A @ B) @ Some t # replicate w' None @ None # C) =
      Some ((A @ B) @ None # replicate w' None @ Some t # C)"
    by (simp add: move_cell_def cell_get_def cell_put_def cell_invalidate_def nth_append list_update_append w)
  also have "(A @ B) @ None # replicate w' None @ Some t # C = A @ B @ replicate w None @ b # C"
    by (simp add: w b)
  finally have mc: "move_cell D ?s (?s + w) (A @ (B @ [b]) @ replicate w None @ C) =
      Some (A @ B @ replicate w None @ b # C)"
    by (simp only: split)
  show ?case using snoc.IH [of "b # C"] snoc.prems mc by (simp add: pos)
qed simp

text \<open>
  The outer loop removes the positions \<open>g\<close> and the position before them, \<open>length P\<close>, given that
  \<open>w\<close> cells behind it are already free.
\<close>

definition pos_desc :: "nat list \<Rightarrow> bool" where
  "pos_desc g = sorted_wrt (>) g"

lemma pos_desc_Cons [simp]: "pos_desc (p # g) \<longleftrightarrow> (\<forall>i \<in> set g. i < p) \<and> pos_desc g"
  by (simp add: pos_desc_def)

lemma pos_desc_Nil [simp]: "pos_desc []"
  by (simp add: pos_desc_def)

lemma nths_same:
  assumes "\<forall>i < length xs. (i \<in> I) = (i \<in> J)"
  shows "nths xs I = nths xs J"
proof -
  have "filter (\<lambda>p. snd p \<in> I) (zip xs [0..<length xs]) = filter (\<lambda>p. snd p \<in> J) (zip xs [0..<length xs])"
  proof (rule filter_cong [OF refl])
    fix p assume "p \<in> set (zip xs [0..<length xs])"
    then have "snd p < length xs" by (auto simp: set_zip)
    then show "(snd p \<in> I) = (snd p \<in> J)" using assms by blast
  qed
  then show ?thesis by (simp only: nths_def)
qed

lemma nths_remove:
  assumes "p < length P" "\<forall>i \<in> S. i < p"
  shows "nths P (- insert p S) = nths (take p P) (- S) @ drop (Suc p) P"
proof -
  let ?I = "- insert p S"
  have "nths P ?I = nths (take p P @ [P ! p] @ drop (Suc p) P) ?I"
    using assms(1) by (simp add: id_take_nth_drop [symmetric])
  also have "\<dots> = nths (take p P) ?I @ nths (drop (Suc p) P) {j. j + Suc p \<in> ?I}"
    using assms(1) by (simp add: nths_append nths_Cons min_def)
  also have "nths (take p P) ?I = nths (take p P) (- S)"
    by (rule nths_same) auto
  also have "nths (drop (Suc p) P) {j. j + Suc p \<in> ?I} = drop (Suc p) P"
    using assms(2) by (intro nths_all) fastforce
  finally show ?thesis .
qed

lemma move_outer_neg: "src < 0 \<Longrightarrow> move_outer D at g src dst st = Some (dst, st)"
  by (subst move_outer.simps) simp

lemma move_outer_pos:
  "move_outer D at g (int n) dst st =
     (case move_down D at (nat (int n - 1 - fst (popMax g))) (int n - 1) dst (st[at (int n) := None]) of
        None \<Rightarrow> None
      | Some (src, dst, st) \<Rightarrow> move_outer D at (snd (popMax g)) src dst st)"
  by (subst move_outer.simps) (simp add: cell_invalidate_def Let_def split_def)

lemma move_outer_list:
  assumes "pos_desc g" "\<forall>i \<in> set g. i < length P" "\<forall>i < length P. i \<notin> set g \<longrightarrow> P ! i \<noteq> None"
  shows "move_outer D nat g (int (length P)) (int (length P + w)) (P @ x # replicate w None @ C) =
    Some (int (w + length g), replicate (w + Suc (length g)) None @ nths P (- set g) @ C)"
  using assms
proof (induction g arbitrary: P w x C)
  case Nil
  let ?r = "replicate (Suc w) (None :: 'a option)"
  have B: "\<forall>c \<in> set P. c \<noteq> None" using Nil.prems(3) by (auto simp: in_set_conv_nth)
  have "move_down D nat (length P) (int (length P) - 1) (int (length P + Suc w) - 1) ([] @ P @ ?r @ C) =
      Some (- 1, int (Suc w) - 1, [] @ ?r @ P @ C)"
    using move_down_block [OF B, of "Suc w" D "[]" C] by simp
  then show ?case
    by (simp add: move_outer_pos move_outer_neg nths_all)
next
  case (Cons p g)
  let ?A = "take p P" and ?B = "drop (Suc p) P" and ?r = "replicate (Suc w) (None :: 'a option)"
  have p: "p < length P" using Cons.prems by simp
  have P: "P = ?A @ P ! p # ?B" using p by (simp add: id_take_nth_drop)
  then have PX: "?A @ P ! p # ?B @ X = P @ X" for X
    by (metis append.assoc append_Cons)
  have B: "\<forall>c \<in> set ?B. c \<noteq> None"
  proof
    fix c assume "c \<in> set ?B"
    then obtain i where "i < length ?B" "c = P ! (Suc p + i)" by (auto simp: in_set_conv_nth)
    moreover have "Suc p + i \<notin> set (p # g)" using Cons.prems(1) by fastforce
    ultimately show "c \<noteq> None" using Cons.prems(3) by simp
  qed
  have "move_down D nat (length ?B) (int (length (?A @ [P ! p]) + length ?B) - 1)
      (int (length (?A @ [P ! p]) + length ?B + Suc w) - 1) ((?A @ [P ! p]) @ ?B @ ?r @ C) =
    Some (int (length (?A @ [P ! p])) - 1, int (length (?A @ [P ! p]) + Suc w) - 1, (?A @ [P ! p]) @ ?r @ ?B @ C)"
    by (rule move_down_block [OF B]) simp
  then have md: "move_down D nat (length P - Suc p) (int (length P) - 1) (int (length P + w)) (P @ ?r @ C) =
    Some (int p, int (p + Suc w), ?A @ P ! p # ?r @ ?B @ C)"
    using p by (simp add: PX)
  have IH: "move_outer D nat g (int (length ?A)) (int (length ?A + Suc w)) (?A @ P ! p # ?r @ ?B @ C) =
    Some (int (Suc w + length g), replicate (Suc w + Suc (length g)) None @ nths ?A (- set g) @ ?B @ C)"
    using Cons.prems by (intro Cons.IH) auto
  have "nths P (- set (p # g)) = nths ?A (- set g) @ ?B"
    using nths_remove [OF p, of "set g"] Cons.prems(1) by simp
  moreover have "nat (int (length P) - 1 - int p) = length P - Suc p" by linarith
  then have "move_outer D nat (p # g) (int (length P)) (int (length P + w)) (P @ x # replicate w None @ C) =
      move_outer D nat g (int p) (int (p + Suc w)) (?A @ P ! p # ?r @ ?B @ C)"
    using md by (subst move_outer_pos) simp
  ultimately show ?case using IH p by simp
qed

lemma move_down_shape:
  "move_down D at k src dst st = Some (src', dst', st') \<Longrightarrow>
   src' = src - int k \<and> dst' = dst - int k \<and> length st' = length st"
proof (induction k arbitrary: src dst st)
  case (Suc k)
  then obtain z where z: "move_cell D (at src) (at dst) st = Some z"
      "move_down D at k (src - 1) (dst - 1) z = Some (src', dst', st')"
    by (auto simp: bind_eq_Some_iff)
  from Suc.IH [OF z(2)] length_move_cell [OF z(1)] show ?case by simp
qed simp

lemma popMax_ge: "- 1 \<le> fst (popMax g)"
  by (cases g) simp_all

lemma move_outer_rotate:
  assumes "at = (\<lambda>i. (nat i + r) mod m)" "length st = m" "r < m" "src \<le> dst" "dst < int m"
  shows "map_option (\<lambda>(d, st). (d, rotate r st)) (move_outer D at g src dst st) =
    move_outer D nat g src dst (rotate r st)"
  using assms
proof (induction D "at" g src dst st rule: move_outer.induct)
  case (1 D "at" g src dst st)
  show ?case
  proof (cases "src < 0")
    case True
    then show ?thesis by (simp add: move_outer_neg)
  next
    case False
    then obtain n where n: "src = int n" by (metis nonneg_int_cases linorder_not_less)
    let ?k = "nat (int n - 1 - fst (popMax g))" and ?st = "st[at (int n) := None]"
    have at: "at (int n) = ring_step m r n"
      using "1.prems" n ring_step_mod [of r m n] by (simp add: add.commute [of n r])
    have st: "rotate r ?st = (rotate r st)[nat (int n) := None]"
      using "1.prems" n unfolding at by (simp add: rotate_update)
    have k: "int ?k \<le> int n - 1 + 1" using popMax_ge [of g] by linarith
    have md: "map_option (\<lambda>(s, d, st). (s, d, rotate r st)) (move_down D at ?k (int n - 1) dst ?st) =
        move_down D nat ?k (int n - 1) dst (rotate r ?st)"
      unfolding "1.prems"(1) by (rule move_down_rotate) (use "1.prems" n k in auto)
    show ?thesis
    proof (cases "move_down D at ?k (int n - 1) dst ?st")
      case None
      then show ?thesis using md st n by (simp add: move_outer_pos)
    next
      case (Some z)
      obtain s d st' where z: "z = (s, d, st')" by (cases z)
      note sh = move_down_shape [OF Some [unfolded z]]
      have "map_option (\<lambda>(d, st). (d, rotate r st)) (move_outer D at (snd (popMax g)) s d st') =
          move_outer D nat (snd (popMax g)) s d (rotate r st')"
        by (rule "1.IH" [OF False refl refl prod.collapse _ refl refl "1.prems"(1)])
          (use Some z sh "1.prems" n in \<open>auto simp: cell_invalidate_def\<close>)
      moreover have "move_down D nat ?k (int n - 1) dst ((rotate r st)[n := None]) = Some (s, d, rotate r st')"
        using md Some z st by simp
      ultimately show ?thesis using Some z n by (simp add: move_outer_pos)
    qed
  qed
qed

lemma move_outer_length: "move_outer D at g src dst st = Some (d, st') \<Longrightarrow> length st' = length st"
proof (induction D "at" g src dst st arbitrary: d st' rule: move_outer.induct)
  case (1 D "at" g src dst st)
  show ?case
  proof (cases "src < 0")
    case False
    then obtain n where n: "src = int n" by (metis nonneg_int_cases linorder_not_less)
    let ?k = "nat (int n - 1 - fst (popMax g))" and ?st = "st[at (int n) := None]"
    obtain s t z where z: "move_down D at ?k (int n - 1) dst ?st = Some (s, t, z)"
        "move_outer D at (snd (popMax g)) s t z = Some (d, st')"
      using "1.prems" n by (auto simp: move_outer_pos split: option.splits)
    have "length st' = length z"
      by (rule "1.IH" [OF False refl refl prod.collapse _ refl refl z(2)])
        (use z n in \<open>auto simp: cell_invalidate_def\<close>)
    then show ?thesis using move_down_shape [OF z(1)] by simp
  qed (use "1.prems" in \<open>simp add: move_outer_neg\<close>)
qed

section \<open>Dropping tokens\<close>

text \<open>The tokens that stay.\<close>

definition keep_tokens :: "nat list \<Rightarrow> 'b list \<Rightarrow> 'b list" where
  "keep_tokens g xs = nths xs (- set g)"

lemma moveTokensRight_cells:
  assumes "qws_inv q" "pos_desc g" "\<forall>i \<in> set g. i < length (used_cells q)"
    and "\<forall>c \<in> set (used_cells q). c \<noteq> None"
  shows "\<exists>q'. moveTokensRight D g q = Some (length g, q') \<and> q' = q\<lparr>storage := storage q'\<rparr> \<and>
    length (storage q') = fsize q \<and>
    ring_cells q' = replicate (length g) None @ keep_tokens g (ring_cells q)"
proof (cases g)
  case Nil
  then show ?thesis
    using assms(1) by (simp add: moveTokensRight_def move_outer_neg keep_tokens_def nths_all qws_inv_def)
next
  case (Cons p g')
  let ?m = "fsize q" and ?r = "rindex q" and ?cs = "ring_cells q"
  have m: "length (storage q) = ?m" "?r < ?m" "length ?cs = ?m"
    using assms(1) frv_inv_bounds [of q] by (auto simp: qws_inv_def)
  have u: "length (used_cells q) \<le> ?m" using m by (simp add: used_cells_def)
  have p: "p < length (used_cells q)" "p < ?m" using assms(3) u Cons by auto
  have split: "?cs = take p ?cs @ ?cs ! p # replicate 0 None @ drop (Suc p) ?cs"
    using p m by (simp add: id_take_nth_drop)
  have valid: "?cs ! i \<noteq> None" if "i < p" for i
  proof -
    have "used_cells q ! i \<in> set (used_cells q)" using that p by (intro nth_mem) simp
    then have "used_cells q ! i \<noteq> None" using assms(4) by blast
    then show ?thesis using that p by (simp add: used_cells_def)
  qed
  have "move_outer D nat g' (int (length (take p ?cs))) (int (length (take p ?cs) + 0))
      (take p ?cs @ ?cs ! p # replicate 0 None @ drop (Suc p) ?cs) =
    Some (int (0 + length g'), replicate (0 + Suc (length g')) None @ nths (take p ?cs) (- set g') @ drop (Suc p) ?cs)"
    using assms(2) Cons valid p m by (intro move_outer_list) auto
  then have mo: "move_outer D nat g' (int p) (int p) ?cs =
    Some (int (length g'), replicate (length g) None @ keep_tokens g ?cs)"
    using nths_remove [of p ?cs "set g'"] assms(2) p m Cons
    by (simp only: split [symmetric] keep_tokens_def) simp
  have "map_option (\<lambda>(d, st). (d, rotate ?r st))
      (move_outer D (\<lambda>i. (nat i + ?r) mod ?m) g' (int p) (int p) (storage q)) =
    move_outer D nat g' (int p) (int p) ?cs"
    unfolding ring_cells_def by (rule move_outer_rotate [OF refl]) (use m p in auto)
  then obtain st where st: "move_outer D (\<lambda>i. (nat i + ?r) mod ?m) g' (int p) (int p) (storage q) =
      Some (int (length g'), st)" "rotate ?r st = replicate (length g) None @ keep_tokens g ?cs"
    unfolding mo by auto
  have "length st = ?m" using move_outer_length [OF st(1)] m by simp
  then show ?thesis
    using st Cons by (simp add: moveTokensRight_def ring_cells_def)
qed

text \<open>Moving the read pointer over the freed cells.\<close>

lemma ring_cells_advance:
  assumes "length (storage q) = fsize q" "rindex q < fsize q" "n \<le> fsize q"
  shows "rotate (ring_step (fsize q) (rindex q) n) (storage q) = rotate n (ring_cells q)"
proof -
  have "rotate n (ring_cells q) = rotate ((rindex q + n) mod fsize q) (storage q)"
    using assms(1) rotate_conv_mod [of "rindex q + n" "storage q"]
    by (simp add: ring_cells_def rotate_rotate add.commute)
  then show ?thesis using assms by (simp only: ring_step_mod)
qed

lemma rotate_freed:
  "length ys = n \<Longrightarrow> rotate n (ys @ xs) = xs @ ys"
  by (metis rotate_append)

lemma keep_tokens_split:
  assumes "\<forall>i \<in> set g. i < u" "distinct g" "u \<le> length xs"
  shows "keep_tokens g xs = keep_tokens g (take u xs) @ drop u xs"
    and "length (keep_tokens g (take u xs)) = u - length g"
proof -
  have "nths (drop u xs) {j. j + u \<in> - set g} = drop u xs"
    using assms(1) by (intro nths_all) fastforce
  moreover have "nths xs (- set g) = nths (take u xs) (- set g) @ nths (drop u xs) {j. j + u \<in> - set g}"
    using nths_append [of "take u xs" "drop u xs" "- set g"] assms(3) by (simp add: min_def)
  ultimately show "keep_tokens g xs = keep_tokens g (take u xs) @ drop u xs"
    by (simp only: keep_tokens_def)
  have "{i. i < u \<and> i \<in> - set g} = {..<u} - set g" by auto
  moreover have "card ({..<u} - set g) = u - length g"
    using assms by (subst card_Diff_subset) (auto simp: distinct_card)
  ultimately show "length (keep_tokens g (take u xs)) = u - length g"
    using assms(3) by (simp only: keep_tokens_def length_nths length_take min_def) simp
qed

lemma pos_desc_distinct: "pos_desc g \<Longrightarrow> distinct g"
  by (induction g) auto

lemma pos_desc_wrap: "pos_desc g \<Longrightarrow> pos_desc (wrap_generator k g)"
  by (induction g) (auto simp: wrap_generator_def)

lemma pos_desc_length: "pos_desc g \<Longrightarrow> \<forall>i \<in> set g. i < n \<Longrightarrow> length g \<le> n"
  by (metis card_length card_mono distinct_card finite_lessThan lessThan_iff pos_desc_distinct subsetI card_lessThan)

lemma drop_cells:
  assumes "qws_inv q" "pos_desc g" "\<forall>i \<in> set g. i < length (used_cells q)"
    and "ring_cells q1 = replicate (length g) None @ keep_tokens g (ring_cells q)"
    and "length (storage q1) = fsize q" "fsize q1 = fsize q" "rindex q1 = rindex q"
    and "storage q2 = storage q1" "rindex q2 = ring_step (fsize q) (rindex q) (length g)"
    and "ring_dist (fsize q2) (rindex q2) (windex q2) = length (used_cells q) - length g"
  shows "used_cells q2 = keep_tokens g (used_cells q)"
proof -
  have r: "rindex q < fsize q" using assms(1) frv_inv_bounds [of q] by (auto simp: qws_inv_def)
  have u: "length (used_cells q) \<le> length (ring_cells q)"
      "used_cells q = take (length (used_cells q)) (ring_cells q)"
    using length_used_cells [OF assms(1)] by (simp_all add: used_cells_def)
  have n: "length g \<le> length (used_cells q)"
    using pos_desc_length [OF assms(2,3)] .
  then have "length g \<le> fsize q" using u(1) assms(1) by (simp add: qws_inv_def)
  then have "ring_cells q2 = rotate (length g) (ring_cells q1)"
    using ring_cells_advance [of q1 "length g"] assms r by (simp add: ring_cells_def)
  then have "ring_cells q2 = keep_tokens g (ring_cells q) @ replicate (length g) None"
    by (simp add: assms(4) rotate_freed)
  then have "used_cells q2 = take (length (used_cells q) - length g) (keep_tokens g (ring_cells q) @ replicate (length g) None)"
    by (simp add: used_cells_def [of q2] assms(10))
  moreover note k = keep_tokens_split [OF assms(3) pos_desc_distinct [OF assms(2)] u(1), folded u(2)]
  ultimately show ?thesis by simp
qed

text \<open>
  \<^verbatim>\<open>dropRVisible\<close> removes visible tokens, \<^verbatim>\<open>dropRInvisible\<close> tokens that are still in the pipeline;
  the positions count from the oldest token of the area.
\<close>

lemma qws_dropRVisible_step:
  fixes q :: "('a, 'z) qws_scheme"
  assumes "mg_laws L" "qws_inv q" "pos_desc g" "\<forall>i \<in> set g. i < area_V (frv_areas q)"
    and "\<forall>c \<in> set (used_cells q). c \<noteq> None"
  shows "\<exists>q'. qws_dropRVisible L D g q = Some q' \<and> qws_inv q' \<and>
    frv_areas q' = (frv_areas q)\<lparr>area_V := area_V (frv_areas q) - length g,
      area_F := area_F (frv_areas q) + length g\<rparr> \<and>
    used_cells q' = keep_tokens g (used_cells q) \<and>
    q' = q\<lparr>rindex := rindex q', findex := findex q', storage := storage q'\<rparr>"
proof -
  have inv: "frv_inv q" using assms(2) by (rule qws_inv_frv)
  note s = frv_inv_split [OF inv]
  have used: "\<forall>i \<in> set g. i < length (used_cells q)"
    using assms(4) s(1) by (auto simp: length_used_cells [OF assms(2)] frv_areas_def)
  obtain q1 where m: "moveTokensRight D g q = Some (length g, q1)" "q1 = q\<lparr>storage := storage q1\<rparr>"
      "length (storage q1) = fsize q" "ring_cells q1 = replicate (length g) None @ keep_tokens g (ring_cells q)"
    using moveTokensRight_cells [OF assms(2,3) used assms(5)] by blast
  define st where "st = storage q1"
  have q1: "q1 = q\<lparr>storage := st\<rparr>" using m(2) st_def by simp
  have inv1: "frv_inv q1" and areas1: "frv_areas q1 = frv_areas q"
    using inv by (simp_all add: q1 frv_inv_def rvw_inv_def rw_inv_def frv_areas_def)
  have n: "length g \<le> area_V (frv_areas q1)"
    using pos_desc_length [OF assms(3,4)] areas1 by simp
  obtain q2 where d: "frv_dropRVisible L (length g) q1 = Some q2" "frv_inv q2"
      "frv_areas q2 = (frv_areas q1)\<lparr>area_V := area_V (frv_areas q1) - length g,
        area_F := area_F (frv_areas q1) + length g\<rparr>"
      and q2: "q2 = q1\<lparr>rindex := ring_step (fsize q1) (rindex q1) (length g),
        findex := ring_step (fsize q1) (findex q1) (length g)\<rparr>"
    using frv_dropRVisible_areas [OF assms(1) inv1 n] by blast
  have "ring_dist (fsize q2) (rindex q2) (windex q2) = area_V (frv_areas q2) + area_P (frv_areas q2)"
    using frv_inv_split(1) [OF d(2)] by (simp add: frv_areas_def)
  also have "\<dots> = length (used_cells q) - length g"
    using d(3) n s(1) areas1 by (simp add: length_used_cells [OF assms(2)]) (simp add: frv_areas_def)
  finally have "used_cells q2 = keep_tokens g (used_cells q)"
    by (intro drop_cells [OF assms(2,3) used m(4,3)]) (simp_all add: q2 q1)
  moreover have "qws_inv q2" using d(2) m(3) by (simp add: qws_inv_def q2 q1)
  moreover have "qws_dropRVisible L D g q = Some q2"
    using m(1) d(1) by (simp add: qws_dropRVisible_def)
  moreover have "q2 = q\<lparr>rindex := rindex q2, findex := findex q2, storage := storage q2\<rparr>"
    unfolding q2 q1 by simp
  moreover note d(3) [unfolded areas1]
  ultimately show ?thesis by blast
qed

lemma qws_dropRInvisible_step:
  fixes q :: "('a, 'z) qws_scheme"
  assumes "mg_laws L" "qws_inv q" "pos_desc g" "\<forall>i \<in> set g. i < area_P (frv_areas q)"
    and "\<forall>c \<in> set (used_cells q). c \<noteq> None"
  shows "\<exists>q'. qws_dropRInvisible L D g q = Some q' \<and> qws_inv q' \<and>
    frv_areas q' = (frv_areas q)\<lparr>area_P := area_P (frv_areas q) - length g,
      area_F := area_F (frv_areas q) + length g\<rparr> \<and>
    used_cells q' = keep_tokens (wrap_generator (area_V (frv_areas q)) g) (used_cells q) \<and>
    q' = q\<lparr>rindex := rindex q', vindex := vindex q', findex := findex q', storage := storage q'\<rparr>"
proof -
  let ?g = "wrap_generator (area_V (frv_areas q)) g"
  have inv: "frv_inv q" using assms(2) by (rule qws_inv_frv)
  note s = frv_inv_split [OF inv]
  have len: "length ?g = length g" by (simp add: wrap_generator_def)
  have used: "\<forall>i \<in> set ?g. i < length (used_cells q)"
    using assms(4) s(1) by (auto simp: length_used_cells [OF assms(2)] frv_areas_def wrap_generator_def)
  have desc: "pos_desc ?g" using assms(3) by (rule pos_desc_wrap)
  obtain q1 where m: "moveTokensRight D ?g q = Some (length g, q1)" "q1 = q\<lparr>storage := storage q1\<rparr>"
      "length (storage q1) = fsize q" "ring_cells q1 = replicate (length ?g) None @ keep_tokens ?g (ring_cells q)"
    using moveTokensRight_cells [OF assms(2) desc used assms(5)] by (auto simp: len)
  define st where "st = storage q1"
  have q1: "q1 = q\<lparr>storage := st\<rparr>" using m(2) st_def by simp
  have inv1: "frv_inv q1" and areas1: "frv_areas q1 = frv_areas q"
    using inv by (simp_all add: q1 frv_inv_def rvw_inv_def rw_inv_def frv_areas_def)
  have n: "length g \<le> area_P (frv_areas q1)"
    using pos_desc_length [OF assms(3,4)] areas1 by simp
  obtain q2 where d: "frv_dropRInvisible L (length g) q1 = Some q2" "frv_inv q2"
      "frv_areas q2 = (frv_areas q1)\<lparr>area_P := area_P (frv_areas q1) - length g,
        area_F := area_F (frv_areas q1) + length g\<rparr>"
      and q2: "q2 = q1\<lparr>vindex := ring_step (fsize q1) (vindex q1) (length g),
        rindex := ring_step (fsize q1) (rindex q1) (length g),
        findex := ring_step (fsize q1) (findex q1) (length g)\<rparr>"
    using frv_dropRInvisible_areas [OF assms(1) inv1 n] by blast
  have "ring_dist (fsize q2) (rindex q2) (windex q2) = area_V (frv_areas q2) + area_P (frv_areas q2)"
    using frv_inv_split(1) [OF d(2)] by (simp add: frv_areas_def)
  also have "\<dots> = length (used_cells q) - length ?g"
    using d(3) n s(1) areas1 by (simp add: length_used_cells [OF assms(2)] len) (simp add: frv_areas_def)
  finally have "used_cells q2 = keep_tokens ?g (used_cells q)"
    by (intro drop_cells [OF assms(2) desc used m(4,3)]) (simp_all add: q2 q1 len)
  moreover have "qws_inv q2" using d(2) m(3) by (simp add: qws_inv_def q2 q1)
  moreover have "qws_dropRInvisible L D g q = Some q2"
    using m(1) d(1) frv_area_counts(1) [OF assms(1) inv] by (simp add: qws_dropRInvisible_def)
  moreover have "q2 = q\<lparr>rindex := rindex q2, vindex := vindex q2, findex := findex q2, storage := storage q2\<rparr>"
    unfolding q2 q1 by simp
  moreover note d(3) [unfolded areas1]
  ultimately show ?thesis by blast
qed

text \<open>Whatever the cells hold, a run that fires no assertion frees one cell per position.\<close>

lemma move_outer_count:
  "move_outer D at g src dst st = Some (d, st') \<Longrightarrow> pos_desc g \<Longrightarrow> \<forall>i \<in> set g. int i < src \<Longrightarrow>
   0 \<le> src \<Longrightarrow> d = dst - src + int (length g)"
proof (induction g arbitrary: src dst st)
  case Nil
  then obtain n where n: "src = int n" by (metis nonneg_int_cases)
  obtain s t z where z: "move_down D at n (int n - 1) dst (st[at (int n) := None]) = Some (s, t, z)"
      "move_outer D at [] s t z = Some (d, st')"
    using Nil.prems(1) by (auto simp: n move_outer_pos split: option.splits)
  show ?case using move_down_shape [OF z(1)] z(2) n by (simp add: move_outer_neg)
next
  case (Cons p g)
  obtain n where n: "src = int n" using Cons.prems(4) by (metis nonneg_int_cases)
  let ?k = "nat (int n - 1 - int p)"
  have k: "int ?k = int n - 1 - int p" using Cons.prems(3) n by simp
  obtain s t z where z: "move_down D at ?k (int n - 1) dst (st[at (int n) := None]) = Some (s, t, z)"
      "move_outer D at g s t z = Some (d, st')"
    using Cons.prems(1) by (auto simp: n move_outer_pos split: option.splits)
  have sh: "s = int p" "t = dst - int ?k" using move_down_shape [OF z(1)] k by auto
  have "d = t - s + int (length g)"
    using Cons.prems(2) sh(1) by (intro Cons.IH [OF z(2)]) auto
  then show ?case using sh k n by simp
qed

lemma moveTokensRight_count:
  assumes "moveTokensRight D g q = Some (k, q')" "pos_desc g"
  shows "k = length g \<and> (\<exists>st. q' = q\<lparr>storage := st\<rparr>)"
proof (cases g)
  case Nil
  then show ?thesis
    using assms(1) by (auto simp: moveTokensRight_def move_outer_neg intro: exI [of _ "storage q"])
next
  case (Cons p g')
  then obtain d st where "move_outer D (\<lambda>i. (nat i + rindex q) mod fsize q) g' (int p) (int p) (storage q) = Some (d, st)"
      "k = nat (d + 1)" "q' = q\<lparr>storage := st\<rparr>"
    using assms(1) by (auto simp: moveTokensRight_def split: option.splits)
  with move_outer_count [OF this(1)] assms(2) Cons show ?thesis by auto
qed

end
