(* ===== verification/Event_Map.thy ===== *)
theory Event_Map
  imports CoSupport_Lib
begin

text \<open>
  \<^verbatim>\<open>EventMapManager\<close> (\<^verbatim>\<open>src/systemoc/headers/smoc/detail/EventMapManager.hpp\<close>): per channel, the
  events ``at least \<open>n\<close> tokens (or places) are there'', ordered by \<open>n\<close>.  The \<^verbatim>\<open>std::map\<close> is the list
  of its entries in key order, so that the iterations of the code are walks over the list.
\<close>

type_synonym 'e emm = "(nat \<times> 'e) list"

section \<open>Operations\<close>

text \<open>
  \<^verbatim>\<open>increasedCount\<close> walks down from \<^verbatim>\<open>upper_bound(count)\<close> and stops at the first event that is
  already active.
\<close>

fun notify_down :: "'e event_lib \<Rightarrow> 'e emm \<Rightarrow> 'e emm" where
  "notify_down E [] = []"
| "notify_down E ((k, e) # es) =
     (if ev_active E e then (k, e) # es else (k, ev_notify E e) # notify_down E es)"

definition increasedCount :: "'e event_lib \<Rightarrow> nat \<Rightarrow> 'e emm \<Rightarrow> 'e emm" where
  "increasedCount E count m =
     (let below = takeWhile (\<lambda>(k, _). k \<le> count) m; above = dropWhile (\<lambda>(k, _). k \<le> count) m
      in rev (notify_down E (rev below)) @ above)"

text \<open>\<^verbatim>\<open>decreasedCount\<close> walks up from \<^verbatim>\<open>upper_bound(count)\<close> while the events are active.\<close>

fun reset_up :: "'e event_lib \<Rightarrow> 'e emm \<Rightarrow> 'e emm" where
  "reset_up E [] = []"
| "reset_up E ((k, e) # es) =
     (if ev_active E e then (k, ev_reset E e) # reset_up E es else (k, e) # es)"

definition decreasedCount :: "'e event_lib \<Rightarrow> nat \<Rightarrow> 'e emm \<Rightarrow> 'e emm" where
  "decreasedCount E count m =
     takeWhile (\<lambda>(k, _). k \<le> count) m @ reset_up E (dropWhile (\<lambda>(k, _). k \<le> count) m)"

definition decreasedCountRenotify :: "'e event_lib \<Rightarrow> nat \<Rightarrow> 'e emm \<Rightarrow> 'e emm" where
  "decreasedCountRenotify E count m =
     map (\<lambda>(k, e). if k \<le> count then (k, ev_renotify E e) else (k, ev_reset E e)) m"

text \<open>\<^verbatim>\<open>eventMap[n]\<close>, with a new event stored where the pointer was null.\<close>

fun emm_get :: "(nat \<Rightarrow> 'e) \<Rightarrow> nat \<Rightarrow> 'e emm \<Rightarrow> 'e \<times> 'e emm" where
  "emm_get new n [] = (new n, [(n, new n)])"
| "emm_get new n ((k, e) # es) =
     (if n < k then (new n, (n, new n) # (k, e) # es)
      else if n = k then (e, (k, e) # es)
      else (let (r, es') = emm_get new n es in (r, (k, e) # es')))"

definition getEvent_at :: "'e event_lib \<Rightarrow> nat \<Rightarrow> nat \<Rightarrow> 'e emm \<Rightarrow> ('e \<times> 'e emm) option" where
  "getEvent_at E count n m = do {
     assert_that (n \<noteq> 2 ^ 64 - 1);
     Some (emm_get (\<lambda>n. ev_new E (n \<le> count)) n m)
   }"

definition getEvent :: "'e event_lib \<Rightarrow> nat \<Rightarrow> 'e emm \<Rightarrow> ('e \<times> 'e emm) option" where
  "getEvent E n m = do {
     assert_that (n \<noteq> 2 ^ 64 - 1);
     Some (emm_get (\<lambda>n. ev_new E False) n m)
   }"

definition emm_reset :: "'e event_lib \<Rightarrow> 'e emm \<Rightarrow> 'e emm" where
  "emm_reset E m = map (\<lambda>(k, e). (k, ev_reset E e)) m"

text \<open>The updates keep the registered thresholds.\<close>

lemma notify_down_fst [simp]: "map fst (notify_down E m) = map fst m"
  by (induction E m rule: notify_down.induct) simp_all

lemma reset_up_fst [simp]: "map fst (reset_up E m) = map fst m"
  by (induction E m rule: reset_up.induct) simp_all

lemma map_fst_split: "map fst (takeWhile P m) @ map fst (dropWhile P m) = map fst m"
  by (metis map_append takeWhile_dropWhile_id)

lemma update_fst [simp]:
  "map fst (increasedCount E count m) = map fst m"
  "map fst (decreasedCount E count m) = map fst m"
  "map fst (emm_reset E m) = map fst m"
proof -
  have "map fst (increasedCount E count m) =
      rev (map fst (notify_down E (rev (takeWhile (\<lambda>(k, _). k \<le> count) m)))) @
      map fst (dropWhile (\<lambda>(k, _). k \<le> count) m)"
    by (simp only: increasedCount_def Let_def map_append rev_map)
  also have "\<dots> = map fst m"
    unfolding notify_down_fst by (simp add: rev_map map_fst_split)
  finally show "map fst (increasedCount E count m) = map fst m" .
  show "map fst (decreasedCount E count m) = map fst m"
    by (simp only: decreasedCount_def map_append reset_up_fst map_fst_split)
  show "map fst (emm_reset E m) = map fst m"
    by (simp add: emm_reset_def split_def)
qed

section \<open>Invariant\<close>

text \<open>
  The manager agrees with a count when exactly the events for at most \<open>count\<close> are active.
\<close>

definition emm_keys :: "'e emm \<Rightarrow> bool" where
  "emm_keys m \<longleftrightarrow> sorted_wrt (<) (map fst m)"

definition emm_ok :: "'e event_lib \<Rightarrow> nat \<Rightarrow> 'e emm \<Rightarrow> bool" where
  "emm_ok E count m \<longleftrightarrow> emm_keys m \<and> (\<forall>(k, e) \<in> set m. ev_active E e \<longleftrightarrow> k \<le> count)"

lemma emm_keys_simps [simp]:
  "emm_keys []"
  "emm_keys ((k, e) # es) \<longleftrightarrow> (\<forall>(k', e') \<in> set es. k < k') \<and> emm_keys es"
  by (auto simp: emm_keys_def)

lemma emm_ok_simps [simp]:
  "emm_ok E count []"
  "emm_ok E count ((k, e) # es) \<longleftrightarrow>
     (\<forall>(k', e') \<in> set es. k < k') \<and> (ev_active E e \<longleftrightarrow> k \<le> count) \<and> emm_ok E count es"
  by (auto simp: emm_ok_def)

lemma emm_ok_keys: "emm_ok E count m \<Longrightarrow> emm_keys m"
  by (simp add: emm_ok_def)

lemma keys_takeWhile_filter:
  "emm_keys m \<Longrightarrow> takeWhile (\<lambda>(k, _). k \<le> count) m = filter (\<lambda>(k, _). k \<le> count) m"
  by (induction m) (fastforce intro!: filter_False [symmetric])+

lemma keys_dropWhile_filter:
  "emm_keys m \<Longrightarrow> dropWhile (\<lambda>(k, _). k \<le> count) m = filter (\<lambda>(k, _). \<not> k \<le> count) m"
  by (induction m) (fastforce intro!: filter_True [symmetric])+

text \<open>Walking down a map whose active keys are the small ones notifies every inactive event.\<close>

definition notify_all :: "'e event_lib \<Rightarrow> 'e emm \<Rightarrow> 'e emm" where
  "notify_all E m = map (\<lambda>(k, e). if ev_active E e then (k, e) else (k, ev_notify E e)) m"

definition reset_all_active :: "'e event_lib \<Rightarrow> 'e emm \<Rightarrow> 'e emm" where
  "reset_all_active E m = map (\<lambda>(k, e). if ev_active E e then (k, ev_reset E e) else (k, e)) m"

lemma notify_down_all:
  "sorted_wrt (\<lambda>x y. fst y < fst x) m \<Longrightarrow> \<forall>(k, e) \<in> set m. ev_active E e \<longleftrightarrow> k \<le> c \<Longrightarrow>
   notify_down E m = notify_all E m"
proof (induction m)
  case (Cons x m)
  obtain k e where x: "x = (k, e)" by fastforce
  show ?case
  proof (cases "ev_active E e")
    case True
    with Cons.prems x have "\<forall>(k', e') \<in> set m. ev_active E e'" by fastforce
    then have "notify_all E m = m"
      by (auto simp: notify_all_def intro!: map_idI)
    with True x show ?thesis by (simp add: notify_all_def)
  next
    case False
    with Cons x show ?thesis by (simp add: notify_all_def)
  qed
qed (simp add: notify_all_def)

lemma reset_up_all:
  "emm_keys m \<Longrightarrow> \<forall>(k, e) \<in> set m. ev_active E e \<longleftrightarrow> k \<le> c \<Longrightarrow> reset_up E m = reset_all_active E m"
proof (induction m)
  case (Cons x m)
  obtain k e where x: "x = (k, e)" by fastforce
  show ?case
  proof (cases "ev_active E e")
    case False
    with Cons.prems x have "\<forall>(k', e') \<in> set m. \<not> ev_active E e'" by fastforce
    then have "reset_all_active E m = m"
      by (auto simp: reset_all_active_def intro!: map_idI)
    with False x show ?thesis by (simp add: reset_all_active_def)
  next
    case True
    with Cons x show ?thesis by (simp add: reset_all_active_def)
  qed
qed (simp add: reset_all_active_def)

lemma rev_sorted_keys: "emm_keys m \<Longrightarrow> sorted_wrt (\<lambda>x y. fst y < fst x) (rev m)"
  by (induction m) (auto simp: sorted_wrt_append)

text \<open>The pointwise meaning of the walks: what they leave under each key.\<close>

lemma increasedCount_map:
  assumes "emm_ok E c m"
  shows "increasedCount E count m = map (\<lambda>(k, e).
    if k \<le> count \<and> \<not> ev_active E e then (k, ev_notify E e) else (k, e)) m"
proof -
  let ?lo = "filter (\<lambda>(k, _). k \<le> count) m" and ?hi = "filter (\<lambda>(k, _). \<not> k \<le> count) m"
  have k: "emm_keys m" using assms by (rule emm_ok_keys)
  have m: "m = ?lo @ ?hi"
    using takeWhile_dropWhile_id [of "\<lambda>(k, _). k \<le> count" m]
    by (simp only: keys_takeWhile_filter [OF k] keys_dropWhile_filter [OF k])
  have "emm_keys ?lo" using k by (auto simp: emm_keys_def sorted_wrt_filter sorted_wrt_map)
  then have "notify_down E (rev ?lo) = notify_all E (rev ?lo)"
    using assms by (intro notify_down_all [of _ _ c] rev_sorted_keys) (auto simp: emm_ok_def)
  then have "increasedCount E count m = notify_all E ?lo @ ?hi"
    by (simp add: increasedCount_def keys_takeWhile_filter [OF k] keys_dropWhile_filter [OF k]
        notify_all_def rev_map)
  also have "\<dots> = map (\<lambda>(k, e). if k \<le> count \<and> \<not> ev_active E e then (k, ev_notify E e) else (k, e)) (?lo @ ?hi)"
    by (auto simp: notify_all_def intro!: map_idI [symmetric])
  finally show ?thesis by (simp flip: m)
qed

lemma decreasedCount_map:
  assumes "emm_ok E c m"
  shows "decreasedCount E count m = map (\<lambda>(k, e).
    if count < k \<and> ev_active E e then (k, ev_reset E e) else (k, e)) m"
proof -
  let ?lo = "filter (\<lambda>(k, _). k \<le> count) m" and ?hi = "filter (\<lambda>(k, _). \<not> k \<le> count) m"
  have k: "emm_keys m" using assms by (rule emm_ok_keys)
  have m: "m = ?lo @ ?hi"
    using takeWhile_dropWhile_id [of "\<lambda>(k, _). k \<le> count" m]
    by (simp only: keys_takeWhile_filter [OF k] keys_dropWhile_filter [OF k])
  have "emm_keys ?hi" using k by (auto simp: emm_keys_def sorted_wrt_filter sorted_wrt_map)
  then have "reset_up E ?hi = reset_all_active E ?hi"
    using assms by (intro reset_up_all [of _ _ c]) (auto simp: emm_ok_def)
  then have "decreasedCount E count m = ?lo @ reset_all_active E ?hi"
    by (simp add: decreasedCount_def keys_takeWhile_filter [OF k] keys_dropWhile_filter [OF k])
  also have "\<dots> = map (\<lambda>(k, e). if count < k \<and> ev_active E e then (k, ev_reset E e) else (k, e)) (?lo @ ?hi)"
    by (auto simp: reset_all_active_def intro!: map_idI [symmetric])
  finally show ?thesis by (simp flip: m)
qed


lemma emm_keys_map:
  assumes "\<And>k e. fst (f (k, e)) = k"
  shows "emm_keys (map f m) = emm_keys m"
proof -
  have "map fst (map f m) = map fst m"
    using assms by (induction m) auto
  then show ?thesis by (simp only: emm_keys_def)
qed

lemma emm_ok_map:
  assumes "\<And>k e. fst (f (k, e)) = k"
  shows "emm_ok E count (map f m) \<longleftrightarrow>
    emm_keys m \<and> (\<forall>(k, e) \<in> set m. ev_active E (snd (f (k, e))) \<longleftrightarrow> k \<le> count)"
proof -
  have "fst (f x) = fst x" for x using assms by (cases x) simp
  then show ?thesis
    by (simp add: emm_ok_def emm_keys_map [OF assms] split_def)
qed

section \<open>Every operation keeps the manager in agreement with the count\<close>

lemma increasedCount_ok:
  "event_laws E \<Longrightarrow> emm_ok E c m \<Longrightarrow> c \<le> count \<Longrightarrow> emm_ok E count (increasedCount E count m)"
  by (subst increasedCount_map, assumption, subst emm_ok_map) (auto simp: emm_ok_def split: if_splits)

lemma decreasedCount_ok:
  "event_laws E \<Longrightarrow> emm_ok E c m \<Longrightarrow> count \<le> c \<Longrightarrow> emm_ok E count (decreasedCount E count m)"
  by (subst decreasedCount_map, assumption, subst emm_ok_map) (auto simp: emm_ok_def split: if_splits)

lemma decreasedCountRenotify_ok:
  "event_laws E \<Longrightarrow> emm_ok E c m \<Longrightarrow> count \<le> c \<Longrightarrow> emm_ok E count (decreasedCountRenotify E count m)"
  unfolding decreasedCountRenotify_def
  by (subst emm_ok_map) (auto simp: emm_ok_def split: if_splits)

text \<open>After a reset no event is active; the next \<^verbatim>\<open>increasedCount\<close> brings any count.\<close>

lemma increasedCount_after_reset:
  assumes "event_laws E" "emm_keys m"
  shows "emm_ok E count (increasedCount E count (emm_reset E m))"
proof -
  have keys: "emm_keys (emm_reset E m)" and off: "\<forall>(k, e) \<in> set (emm_reset E m). \<not> ev_active E e"
    using assms by (auto simp: emm_reset_def emm_keys_map)
  let ?r = "emm_reset E m"
  let ?lo = "filter (\<lambda>(k, _). k \<le> count) ?r" and ?hi = "filter (\<lambda>(k, _). \<not> k \<le> count) ?r"
  have walk: "notify_down E es = notify_all E es" if "\<forall>(k, e) \<in> set es. \<not> ev_active E e" for es
    using that by (induction es) (auto simp: notify_all_def)
  have "increasedCount E count ?r = notify_all E ?lo @ ?hi"
    using off by (simp add: increasedCount_def keys_takeWhile_filter [OF keys]
        keys_dropWhile_filter [OF keys] walk) (simp add: notify_all_def rev_map)
  also have "\<dots> = map (\<lambda>(k, e). if k \<le> count then (k, ev_notify E e) else (k, e)) (?lo @ ?hi)"
    using off by (auto simp: notify_all_def intro!: map_idI [symmetric])
  also have "?lo @ ?hi = ?r"
    using takeWhile_dropWhile_id [of "\<lambda>(k, _). k \<le> count" ?r]
    by (simp only: keys_takeWhile_filter [OF keys] keys_dropWhile_filter [OF keys])
  finally show ?thesis
    using keys off assms(1) by (simp add: emm_ok_map) (auto split: if_splits)
qed

lemma emm_get_set:
  "emm_keys m \<Longrightarrow> emm_get new n m = (r, m') \<Longrightarrow>
   emm_keys m' \<and> (n, r) \<in> set m' \<and> set m' = insert (n, r) (set m) \<and>
   (if n \<in> fst ` set m then (n, r) \<in> set m else r = new n)"
proof (induction new n m arbitrary: r m' rule: emm_get.induct)
  case (2 new n k e es)
  show ?case
  proof (cases "n < k \<or> n = k")
    case True
    with 2 show ?thesis by (auto split: if_splits) fastforce+
  next
    case False
    obtain r1 es1 where rec: "emm_get new n es = (r1, es1)" by fastforce
    with 2 False show ?thesis by (fastforce split: if_splits)
  qed
qed auto

lemma getEvent_at_ok:
  assumes "event_laws E" "emm_ok E count m" "getEvent_at E count n m = Some (e, m')"
  shows "emm_ok E count m' \<and> (n, e) \<in> set m' \<and> (ev_active E e \<longleftrightarrow> n \<le> count)"
proof -
  have g: "emm_get (\<lambda>n. ev_new E (n \<le> count)) n m = (e, m')"
    using assms(3) by (auto simp: getEvent_at_def split: if_splits)
  note s = emm_get_set [OF emm_ok_keys [OF assms(2)] g]
  have "ev_active E e \<longleftrightarrow> n \<le> count"
    using s assms(1,2) by (auto simp: emm_ok_def split: if_splits)
  with s assms(2) show ?thesis by (auto simp: emm_ok_def)
qed

text \<open>
  An event created by the one-argument \<^verbatim>\<open>getEvent\<close> is inactive, whatever the count is: the manager
  stays in agreement for requests above the count, and before the first reset.
\<close>

lemma getEvent_ok:
  assumes "event_laws E" "emm_ok E count m" "getEvent E n m = Some (e, m')"
    and "n \<in> fst ` set m \<or> count < n"
  shows "emm_ok E count m'"
proof -
  have g: "emm_get (\<lambda>n. ev_new E False) n m = (e, m')"
    using assms(3) by (auto simp: getEvent_def split: if_splits)
  note s = emm_get_set [OF emm_ok_keys [OF assms(2)] g]
  then show ?thesis using assms(1,2,4) by (auto simp: emm_ok_def split: if_splits)
qed

lemma getEvent_keys:
  "emm_keys m \<Longrightarrow> getEvent E n m = Some (e, m') \<Longrightarrow> emm_keys m'"
  using emm_get_set [of m "\<lambda>n. ev_new E False" n e m'] by (auto simp: getEvent_def split: if_splits)

text \<open>
  C4.  The early exits of \<^verbatim>\<open>increasedCount\<close> and \<^verbatim>\<open>decreasedCount\<close> lose no notification.  If the
  manager agrees with the count \<open>c\<close>, one call with a larger (smaller) count notifies (resets)
  exactly the events whose threshold lies between the two counts, touches no other event, and leaves
  the manager in agreement with the new count.
\<close>

theorem event_map_updates_exact:
  assumes "event_laws E" "emm_ok E c m"
  shows "(c \<le> c' \<longrightarrow> emm_ok E c' (increasedCount E c' m) \<and>
           increasedCount E c' m =
             map (\<lambda>(k, e). if c < k \<and> k \<le> c' then (k, ev_notify E e) else (k, e)) m) \<and>
         (c' \<le> c \<longrightarrow> emm_ok E c' (decreasedCount E c' m) \<and>
           decreasedCount E c' m =
             map (\<lambda>(k, e). if c' < k \<and> k \<le> c then (k, ev_reset E e) else (k, e)) m)"
proof (intro conjI impI)
  show "c \<le> c' \<Longrightarrow> emm_ok E c' (increasedCount E c' m)"
    by (rule increasedCount_ok [OF assms])
  show "c' \<le> c \<Longrightarrow> emm_ok E c' (decreasedCount E c' m)"
    by (rule decreasedCount_ok [OF assms])
  show "increasedCount E c' m =
      map (\<lambda>(k, e). if c < k \<and> k \<le> c' then (k, ev_notify E e) else (k, e)) m"
    unfolding increasedCount_map [OF assms(2)]
    using assms(2) by (intro map_cong) (auto simp: emm_ok_def)
  show "decreasedCount E c' m =
      map (\<lambda>(k, e). if c' < k \<and> k \<le> c then (k, ev_reset E e) else (k, e)) m"
    unfolding decreasedCount_map [OF assms(2)]
    using assms(2) by (intro map_cong) (auto simp: emm_ok_def)
qed

theorem event_map_updates_exact_witness:
  "increasedCount event_ref 3 [(1, (True, 0)), (2, (False, 0)), (5, (False, 0))]
   = [(1, (True, 0)), (2, (True, 1)), (5, (False, 0))]"
proof -
  have ok: "emm_ok event_ref 1 [(1, (True, 0)), (2, (False, 0)), (5, (False, 0))]"
    by (simp add: event_ref_def)
  have "(1::nat) \<le> 3" by simp
  with event_map_updates_exact [OF event_ref_laws ok, of 3]
  have "increasedCount event_ref 3 [(1, (True, 0)), (2, (False, 0)), (5, (False, 0))] =
     map (\<lambda>(k, e). if 1 < k \<and> k \<le> 3 then (k, ev_notify event_ref e) else (k, e))
       [(1, (True, 0)), (2, (False, 0)), (5, (False, 0))]" by blast
  then show ?thesis by (simp add: event_ref_def)
qed

end
