(* ===== verification/Fifo_Channel.thy ===== *)
theory Fifo_Channel
  imports Queue_Drop Event_Map
begin

text \<open>
  The point-to-point FIFO: \<^verbatim>\<open>FifoChanBase\<close>, \<^verbatim>\<open>FifoChan\<close>, \<^verbatim>\<open>FifoEntry\<close> and \<^verbatim>\<open>FifoOutlet\<close>
  (\<^verbatim>\<open>src/systemoc/headers/smoc/detail/\<close>, \<^verbatim>\<open>cpp/detail/FifoChanBase.cpp\<close>), in the build with
  \<^verbatim>\<open>SYSTEMOC_ENABLE_ROUTING\<close> and \<^verbatim>\<open>SYSTEMOC_ENABLE_DEBUG\<close>.  A channel is its storage queue, the
  two event maps and the id of the next token, a 64-bit \<^verbatim>\<open>size_t\<close>.
\<close>

section \<open>Channel state and operations\<close>

record ('a, 'e) fifo_chan = "'a fifo_storage" +
  emmData :: "'e emm"
  emmSpace :: "'e emm"
  tokenId :: "64 word"

definition mk_fifo_chan :: "nat \<Rightarrow> 'a list \<Rightarrow> ('a, 'e) fifo_chan" where
  "mk_fifo_chan n marking = qws.extend (mk_qws n)
     \<lparr>initialTokens = marking, emmData = [], emmSpace = [], tokenId = 0\<rparr>"

type_synonym ('a, 'e, 'z) chan = "('a, 'e, 'z) fifo_chan_scheme"

definition latencyExpired :: "math_lib \<Rightarrow> 'e event_lib \<Rightarrow> nat \<Rightarrow> ('a, 'e, 'z) chan \<Rightarrow>
    ('a, 'e, 'z) chan option" where
  "latencyExpired L E n c = do {
     c \<leftarrow> rvw_vpp L n c;
     Some (c\<lparr>emmData := increasedCount E (rvw_visibleCount L c) (emmData c)\<rparr>)
   }"

text \<open>\<^verbatim>\<open>InvalidateTokenGenerator\<close>: \<^verbatim>\<open>popMax\<close> yields \<open>n - 1, \<dots>, 0\<close>.\<close>

fun invalidate_generator :: "nat \<Rightarrow> nat list" where
  "invalidate_generator 0 = []"
| "invalidate_generator (Suc n) = n # invalidate_generator n"

definition invalidateToken :: "math_lib \<Rightarrow> 'a option \<Rightarrow> nat \<Rightarrow> ('a, 'e, 'z) chan \<Rightarrow>
    ('a, 'e, 'z) chan option" where
  "invalidateToken L D x c = qws_dropRInvisible L D (invalidate_generator x) c"

definition latencyExpired_dropped :: "math_lib \<Rightarrow> 'e event_lib \<Rightarrow> 'a option \<Rightarrow> nat \<Rightarrow>
    ('a, 'e, 'z) chan \<Rightarrow> ('a, 'e, 'z) chan option" where
  "latencyExpired_dropped L E D n c = do {
     c \<leftarrow> invalidateToken L D n c;
     Some (c\<lparr>emmSpace := increasedCount E (frv_freeCount L c) (emmSpace c)\<rparr>)
   }"

definition readConsumeEventExpired :: "math_lib \<Rightarrow> 'e event_lib \<Rightarrow> nat \<Rightarrow> ('a, 'e, 'z) chan \<Rightarrow>
    ('a, 'e, 'z) chan option" where
  "readConsumeEventExpired L E n c = do {
     c \<leftarrow> frv_fpp L n c;
     Some (c\<lparr>emmSpace := increasedCount E (frv_freeCount L c) (emmSpace c)\<rparr>)
   }"

text \<open>\<^verbatim>\<open>FifoChanBase::doReset\<close>, and the \<^verbatim>\<open>FifoStorage::doReset\<close> that calls it at its end.\<close>

definition fifo_base_doReset :: "math_lib \<Rightarrow> 'e event_lib \<Rightarrow> ('a, 'e, 'z) chan \<Rightarrow> ('a, 'e, 'z) chan" where
  "fifo_base_doReset L E c = (let
       c = c\<lparr>emmSpace := emm_reset E (emmSpace c)\<rparr>;
       c = c\<lparr>emmData := emm_reset E (emmData c)\<rparr>;
       c = c\<lparr>emmSpace := increasedCount E (frv_freeCount L c) (emmSpace c)\<rparr>
     in c\<lparr>emmData := increasedCount E (rvw_visibleCount L c) (emmData c)\<rparr>)"

definition fifo_doReset :: "math_lib \<Rightarrow> 'e event_lib \<Rightarrow> ('a, 'e, 'z) chan \<Rightarrow> ('a, 'e, 'z) chan option" where
  "fifo_doReset L E c = do {
     c \<leftarrow> fifo_storage_reset L c;
     Some (fifo_base_doReset L E c)
   }"

text \<open>The writer's interface, \<^verbatim>\<open>FifoEntry\<close>.\<close>

definition entry_commStart :: "math_lib \<Rightarrow> 'e event_lib \<Rightarrow> nat \<Rightarrow> ('a, 'e, 'z) chan \<Rightarrow>
    ('a, 'e, 'z) chan option" where
  "entry_commStart L E produce c = (let c = c\<lparr>tokenId := tokenId c + of_nat produce\<rparr> in do {
     c \<leftarrow> frv_wpp L produce c;
     Some (c\<lparr>emmSpace := decreasedCount E (frv_freeCount L c) (emmSpace c)\<rparr>)
   })"

definition entry_commFinish :: "math_lib \<Rightarrow> 'e event_lib \<Rightarrow> 'a option \<Rightarrow> nat \<Rightarrow> bool \<Rightarrow>
    ('a, 'e, 'z) chan \<Rightarrow> ('a, 'e, 'z) chan option" where
  "entry_commFinish L E D produce dropped c =
     (if \<not> dropped then latencyExpired L E produce c else latencyExpired_dropped L E D produce c)"

definition entry_commExec :: "math_lib \<Rightarrow> 'e event_lib \<Rightarrow> 'a option \<Rightarrow> nat \<Rightarrow>
    ('a, 'e, 'z) chan \<Rightarrow> ('a, 'e, 'z) chan option" where
  "entry_commExec L E D produce c = do {
     c \<leftarrow> entry_commStart L E produce c;
     entry_commFinish L E D produce False c
   }"

definition spaceAvailableEvent :: "'e event_lib \<Rightarrow> nat \<Rightarrow> ('a, 'e, 'z) chan \<Rightarrow>
    ('e \<times> ('a, 'e, 'z) chan) option" where
  "spaceAvailableEvent E n c = do {
     (e, m) \<leftarrow> getEvent E n (emmSpace c);
     Some (e, c\<lparr>emmSpace := m\<rparr>)
   }"

definition numFree :: "math_lib \<Rightarrow> ('a, 'e, 'z) chan \<Rightarrow> nat" where
  "numFree L c = frv_freeCount L c"

definition outTokenId :: "('a, 'e, 'z) chan \<Rightarrow> 64 word" where
  "outTokenId c = tokenId c"

text \<open>The reader's interface, \<^verbatim>\<open>FifoOutlet\<close>.\<close>

definition outlet_commStart :: "math_lib \<Rightarrow> 'e event_lib \<Rightarrow> nat \<Rightarrow> ('a, 'e, 'z) chan \<Rightarrow>
    ('a, 'e, 'z) chan option" where
  "outlet_commStart L E consume c = do {
     c \<leftarrow> qws_rpp L consume c;
     Some (c\<lparr>emmData := decreasedCount E (rvw_visibleCount L c) (emmData c)\<rparr>)
   }"

definition outlet_commFinish :: "math_lib \<Rightarrow> 'e event_lib \<Rightarrow> nat \<Rightarrow> bool \<Rightarrow> ('a, 'e, 'z) chan \<Rightarrow>
    ('a, 'e, 'z) chan option" where
  "outlet_commFinish L E consume dropped c = do {
     assert_that (\<not> dropped);
     readConsumeEventExpired L E consume c
   }"

definition outlet_commExec :: "math_lib \<Rightarrow> 'e event_lib \<Rightarrow> nat \<Rightarrow> ('a, 'e, 'z) chan \<Rightarrow>
    ('a, 'e, 'z) chan option" where
  "outlet_commExec L E consume c = do {
     c \<leftarrow> outlet_commStart L E consume c;
     outlet_commFinish L E consume False c
   }"

definition dataAvailableEvent :: "'e event_lib \<Rightarrow> nat \<Rightarrow> ('a, 'e, 'z) chan \<Rightarrow>
    ('e \<times> ('a, 'e, 'z) chan) option" where
  "dataAvailableEvent E n c = do {
     (e, m) \<leftarrow> getEvent E n (emmData c);
     Some (e, c\<lparr>emmData := m\<rparr>)
   }"

definition numAvailable :: "math_lib \<Rightarrow> ('a, 'e, 'z) chan \<Rightarrow> nat" where
  "numAvailable L c = rvw_visibleCount L c"

definition inTokenId :: "math_lib \<Rightarrow> ('a, 'e, 'z) chan \<Rightarrow> 64 word" where
  "inTokenId L c = tokenId c - of_nat (rw_usedCount L c)"

text \<open>\<^verbatim>\<open>before_end_of_elaboration\<close> insists on one writer and one reader.\<close>

definition fifo_before_end_of_elaboration :: "'p list \<Rightarrow> 'q list \<Rightarrow> unit option" where
  "fifo_before_end_of_elaboration entries outlets = do {
     assert_that (length entries = 1);
     assert_that (length outlets = 1)
   }"

section \<open>Use of a channel\<close>

text \<open>
  During elaboration the ports register the events of the sizes their firing rules need; the reset
  at the start of the simulation then brings the events in line with the queue.
\<close>

fun register_events :: "'e event_lib \<Rightarrow> (bool \<times> nat) list \<Rightarrow> ('a, 'e, 'z) chan \<Rightarrow>
    ('a, 'e, 'z) chan option" where
  "register_events E [] c = Some c"
| "register_events E ((data, n) # rs) c = do {
     (e, c) \<leftarrow> (if data then dataAvailableEvent E n c else spaceAvailableEvent E n c);
     register_events E rs c
   }"

fun write_tokens :: "nat \<Rightarrow> nat \<Rightarrow> 'a list \<Rightarrow> ('a, 'z) qws_scheme \<Rightarrow> ('a, 'z) qws_scheme option" where
  "write_tokens limit n [] q = Some q"
| "write_tokens limit n (t # ts) q = do {
     q \<leftarrow> write_token limit n t q;
     write_tokens limit (Suc n) ts q
   }"

datatype 'a fifo_op =
    PutStart "'a list"
  | PutFinish nat bool
  | GetStart nat
  | GetFinish nat bool
  | ResetChan

fun fifo_step :: "math_lib \<Rightarrow> 'e event_lib \<Rightarrow> 'a option \<Rightarrow> 'a fifo_op \<Rightarrow> ('a, 'e, 'z) chan \<Rightarrow>
    ('a, 'e, 'z) chan option" where
  "fifo_step L E D (PutStart ts) c = do {
     c \<leftarrow> write_tokens (length ts) 0 ts c;
     entry_commStart L E (length ts) c
   }"
| "fifo_step L E D (PutFinish n dropped) c = entry_commFinish L E D n dropped c"
| "fifo_step L E D (GetStart n) c = outlet_commStart L E n c"
| "fifo_step L E D (GetFinish n dropped) c = outlet_commFinish L E n dropped c"
| "fifo_step L E D ResetChan c = fifo_doReset L E c"

section \<open>The specification: a bounded queue with a pipeline\<close>

text \<open>
  \<open>sp_C\<close> counts the tokens being consumed, \<open>sp_V\<close> are the tokens a reader sees, \<open>sp_P\<close> those
  whose latency has not expired.
\<close>

record 'a fifo_spec =
  sp_C :: nat
  sp_V :: "'a list"
  sp_P :: "'a list"

definition spec_used :: "'a fifo_spec \<Rightarrow> nat" where
  "spec_used s = sp_C s + length (sp_V s) + length (sp_P s)"

fun spec_op :: "nat \<Rightarrow> 'a list \<Rightarrow> 'a fifo_op \<Rightarrow> 'a fifo_spec \<Rightarrow> 'a fifo_spec option" where
  "spec_op depth init (PutStart ts) s =
     (if spec_used s + length ts \<le> depth then Some (s\<lparr>sp_P := sp_P s @ ts\<rparr>) else None)"
| "spec_op depth init (PutFinish n dropped) s =
     (if length (sp_P s) < n then None
      else if dropped then Some (s\<lparr>sp_P := drop n (sp_P s)\<rparr>)
      else Some (s\<lparr>sp_V := sp_V s @ take n (sp_P s), sp_P := drop n (sp_P s)\<rparr>))"
| "spec_op depth init (GetStart n) s =
     (if n \<le> length (sp_V s) then Some (s\<lparr>sp_C := sp_C s + n, sp_V := drop n (sp_V s)\<rparr>) else None)"
| "spec_op depth init (GetFinish n dropped) s =
     (if n \<le> sp_C s \<and> \<not> dropped then Some (s\<lparr>sp_C := sp_C s - n\<rparr>) else None)"
| "spec_op depth init ResetChan s =
     (if length init \<le> depth then Some \<lparr>sp_C = 0, sp_V = init, sp_P = []\<rparr> else None)"

definition fifo_abs :: "('a, 'z) qws_scheme \<Rightarrow> 'a fifo_spec" where
  "fifo_abs c = \<lparr>sp_C = area_C (frv_areas c),
     sp_V = map the (take (area_V (frv_areas c)) (used_cells c)),
     sp_P = map the (drop (area_V (frv_areas c)) (used_cells c))\<rparr>"

definition fifo_inv :: "'e event_lib \<Rightarrow> ('a, 'e, 'z) chan \<Rightarrow> bool" where
  "fifo_inv E c \<longleftrightarrow> qws_inv c \<and> (\<forall>x \<in> set (used_cells c). x \<noteq> None) \<and>
     emm_ok E (area_V (frv_areas c)) (emmData c) \<and> emm_ok E (area_F (frv_areas c)) (emmSpace c)"

definition same_chan :: "('a, 'e, 'z) chan \<Rightarrow> ('a, 'e, 'z) chan \<Rightarrow> bool" where
  "same_chan c c' \<longleftrightarrow> depthCount c' = depthCount c \<and> initialTokens c' = initialTokens c \<and>
     map fst (emmData c') = map fst (emmData c) \<and> map fst (emmSpace c') = map fst (emmSpace c)"

section \<open>Storage facts\<close>

lemma write_tokens_cells:
  fixes q :: "('a, 'z) qws_scheme"
  assumes "qws_inv q" "n + length ts \<le> limit" "n + length ts \<le> area_F (frv_areas q)"
  shows "\<exists>q'. write_tokens limit n ts q = Some q' \<and> qws_inv q' \<and> frv_areas q' = frv_areas q \<and>
    used_cells q' = used_cells q \<and>
    take (n + length ts) (drop (length (used_cells q)) (ring_cells q')) =
      take n (drop (length (used_cells q)) (ring_cells q)) @ map Some ts \<and>
    (\<exists>st. q' = q\<lparr>storage := st\<rparr>)"
  using assms
proof (induction ts arbitrary: n q)
  case Nil
  then show ?case by (simp add: exI [of _ "storage q"])
next
  case (Cons t ts)
  let ?u = "length (used_cells q)"
  have "n < limit" "n < area_F (frv_areas q)" using Cons.prems by simp_all
  then obtain q1 where q1: "write_token limit n t q = Some q1" "qws_inv q1" "frv_areas q1 = frv_areas q"
      "ring_cells q1 = (ring_cells q)[?u + n := Some t]" "used_cells q1 = used_cells q"
      "q1 = q\<lparr>storage := storage q1\<rparr>"
    using write_token_cell [OF Cons.prems(1)] by meson
  obtain q2 where q2: "write_tokens limit (Suc n) ts q1 = Some q2" "qws_inv q2" "frv_areas q2 = frv_areas q1"
      "used_cells q2 = used_cells q1"
      "take (Suc n + length ts) (drop (length (used_cells q1)) (ring_cells q2)) =
        take (Suc n) (drop (length (used_cells q1)) (ring_cells q1)) @ map Some ts"
      "\<exists>st. q2 = q1\<lparr>storage := st\<rparr>"
    using Cons.IH [OF q1(2), of "Suc n"] Cons.prems(2,3) q1(3) by auto
  have "?u + n < length (ring_cells q)"
    using Cons.prems(3) used_cells_room [OF Cons.prems(1)] by linarith
  then have "take (Suc n) (drop ?u ((ring_cells q)[?u + n := Some t])) =
      take n (drop ?u (ring_cells q)) @ [Some t]"
    by (simp add: drop_update_swap take_Suc_conv_app_nth)
  moreover have "\<exists>st. q2 = q\<lparr>storage := st\<rparr>"
    using q2(6) by (subst (asm) q1(6)) auto
  ultimately show ?case using q1 q2 by auto
qed

lemma write_tokens_frame:
  "write_tokens limit n ts q = Some q' \<Longrightarrow> \<exists>st. q' = q\<lparr>storage := st\<rparr>"
proof (induction ts arbitrary: n q)
  case Nil
  then show ?case by (simp add: exI [of _ "storage q"])
next
  case (Cons t ts)
  then obtain q1 where "write_token limit n t q = Some q1" "write_tokens limit (Suc n) ts q1 = Some q'"
    by (auto simp: bind_eq_Some_iff)
  then show ?case using Cons.IH by (fastforce simp: write_token_def bind_eq_Some_iff)
qed

text \<open>The queue does not depend on the parts the channel adds to it.\<close>

lemma chan_parts [simp]:
  "frv_areas (c\<lparr>emmData := x\<rparr>) = frv_areas c" "frv_areas (c\<lparr>emmSpace := x\<rparr>) = frv_areas c"
  "frv_areas (c\<lparr>tokenId := i\<rparr>) = frv_areas c"
  "frv_inv (c\<lparr>emmData := x\<rparr>) = frv_inv c" "frv_inv (c\<lparr>emmSpace := x\<rparr>) = frv_inv c"
  "frv_inv (c\<lparr>tokenId := i\<rparr>) = frv_inv c"
  "qws_inv (c\<lparr>emmData := x\<rparr>) = qws_inv c" "qws_inv (c\<lparr>emmSpace := x\<rparr>) = qws_inv c"
  "qws_inv (c\<lparr>tokenId := i\<rparr>) = qws_inv c"
  "ring_cells (c\<lparr>emmData := x\<rparr>) = ring_cells c" "ring_cells (c\<lparr>emmSpace := x\<rparr>) = ring_cells c"
  "ring_cells (c\<lparr>tokenId := i\<rparr>) = ring_cells c"
  "used_cells (c\<lparr>emmData := x\<rparr>) = used_cells c" "used_cells (c\<lparr>emmSpace := x\<rparr>) = used_cells c"
  "used_cells (c\<lparr>tokenId := i\<rparr>) = used_cells c"
  "depthCount (c\<lparr>emmData := x\<rparr>) = depthCount c" "depthCount (c\<lparr>emmSpace := x\<rparr>) = depthCount c"
  "depthCount (c\<lparr>tokenId := i\<rparr>) = depthCount c"
  "rvw_visibleCount L (c\<lparr>emmData := x\<rparr>) = rvw_visibleCount L c"
  "rvw_visibleCount L (c\<lparr>emmSpace := x\<rparr>) = rvw_visibleCount L c"
  "frv_freeCount L (c\<lparr>emmData := x\<rparr>) = frv_freeCount L c"
  "frv_freeCount L (c\<lparr>emmSpace := x\<rparr>) = frv_freeCount L c"
  by (simp_all add: frv_areas_def qws_inv_def frv_inv_def rvw_inv_def rw_inv_def used_cells_def
      ring_cells_def depthCount_def rvw_visibleCount_def frv_freeCount_def)

lemma storage_parts:
  "frv_areas (q\<lparr>storage := st\<rparr>) = frv_areas q" "frv_inv (q\<lparr>storage := st\<rparr>) = frv_inv q"
  by (simp_all add: frv_areas_def frv_inv_def rvw_inv_def rw_inv_def)

lemma fifo_abs_upd [simp]:
  "fifo_abs (c\<lparr>emmData := x\<rparr>) = fifo_abs c" "fifo_abs (c\<lparr>emmSpace := x\<rparr>) = fifo_abs c"
  "fifo_abs (c\<lparr>tokenId := i\<rparr>) = fifo_abs c"
  by (simp_all add: fifo_abs_def)

lemma fifo_abs_used:
  assumes "qws_inv c"
  shows "length (sp_V (fifo_abs c)) = area_V (frv_areas c)"
    and "length (sp_P (fifo_abs c)) = area_P (frv_areas c)"
    and "spec_used (fifo_abs c) + area_F (frv_areas c) = depthCount c"
  using used_cells_areas [OF assms] used_cells_room(1) [OF assms]
  by (simp_all add: fifo_abs_def spec_used_def)

text \<open>Writing \<open>ts\<close> behind the used cells and advancing the write pointer appends them.\<close>

lemma write_wpp_cells:
  fixes q :: "('a, 'z) qws_scheme"
  assumes "mg_laws L" "qws_inv q" "qws_inv q1" "frv_areas q1 = frv_areas q" "used_cells q1 = used_cells q"
    and "take n (drop (length (used_cells q)) (ring_cells q1)) = map Some ts" "n = length ts"
    and "n \<le> area_F (frv_areas q)"
  shows "\<exists>q'. frv_wpp L n q1 = Some q' \<and> qws_inv q' \<and>
    frv_areas q' = (frv_areas q)\<lparr>area_P := area_P (frv_areas q) + n, area_F := area_F (frv_areas q) - n\<rparr> \<and>
    used_cells q' = used_cells q @ map Some ts \<and> q' = q1\<lparr>windex := windex q'\<rparr>"
proof -
  obtain q' where w: "frv_wpp L n q1 = Some q'" "qws_inv q'"
    "frv_areas q' = (frv_areas q)\<lparr>area_P := area_P (frv_areas q) + n, area_F := area_F (frv_areas q) - n\<rparr>"
    "used_cells q' = take (length (used_cells q) + n) (ring_cells q1)" "q' = q1\<lparr>windex := windex q'\<rparr>"
    using qws_wpp_step [OF assms(1,3), of n] assms(4,5,8) by auto
  have "take (length (used_cells q)) (ring_cells q1) = used_cells q"
    using assms(3,5) length_used_cells [OF assms(3)] by (simp add: used_cells_def)
  then have "used_cells q' = used_cells q @ map Some ts"
    using w(4) assms(6) by (simp add: take_add)
  with w show ?thesis by blast
qed

section \<open>Each operation implements the specification\<close>

text \<open>What a step has to establish, for the result the specification gives.\<close>

definition implements :: "'e event_lib \<Rightarrow> ('a, 'e, 'z) chan \<Rightarrow> ('a, 'e, 'z) chan option \<Rightarrow>
    'a fifo_spec option \<Rightarrow> bool" where
  "implements E c r s \<longleftrightarrow> map_option fifo_abs r = s \<and>
     pred_option (\<lambda>c'. fifo_inv E c' \<and> same_chan c c') r"

lemma implements_Some:
  "implements E c (Some c') s \<longleftrightarrow> s = Some (fifo_abs c') \<and> fifo_inv E c' \<and> same_chan c c'"
  by (auto simp: implements_def)

lemma implements_None: "implements E c None s \<longleftrightarrow> s = None"
  by (auto simp: implements_def)

lemma put_start_implements:
  fixes c :: "('a, 'e, 'z) chan"
  assumes "mg_laws L" "event_laws E" "fifo_inv E c"
  shows "implements E c (fifo_step L E D (PutStart ts) c)
    (spec_op (depthCount c) (initialTokens c) (PutStart ts) (fifo_abs c))"
proof (cases "length ts \<le> area_F (frv_areas c)")
  case True
  have q: "qws_inv c" using assms(3) by (simp add: fifo_inv_def)
  obtain c1 st where c1: "write_tokens (length ts) 0 ts c = Some c1" "qws_inv c1" "frv_areas c1 = frv_areas c"
    "used_cells c1 = used_cells c" "take (length ts) (drop (length (used_cells c)) (ring_cells c1)) = map Some ts"
    and c1': "c1 = c\<lparr>storage := st\<rparr>"
    using write_tokens_cells [OF q, of 0 ts "length ts"] True by auto
  let ?c2 = "c1\<lparr>tokenId := tokenId c1 + of_nat (length ts)\<rparr>"
  obtain c3 where w: "frv_wpp L (length ts) ?c2 = Some c3" "qws_inv c3"
    "frv_areas c3 = (frv_areas c)\<lparr>area_P := area_P (frv_areas c) + length ts, area_F := area_F (frv_areas c) - length ts\<rparr>"
    "used_cells c3 = used_cells c @ map Some ts" and c3: "c3 = ?c2\<lparr>windex := windex c3\<rparr>"
    using write_wpp_cells [OF assms(1) q, of ?c2 "length ts" ts] c1 True by auto
  have same: "emmData c3 = emmData c" "emmSpace c3 = emmSpace c" "depthCount c3 = depthCount c"
      "initialTokens c3 = initialTokens c"
    by (subst c3, simp add: c1' depthCount_def)+
  have f: "frv_freeCount L c3 = area_F (frv_areas c) - length ts"
    using frv_area_counts(2) [OF assms(1) qws_inv_frv [OF w(2)]] w(3) by simp
  have "emm_ok E (area_F (frv_areas c) - length ts)
      (decreasedCount E (area_F (frv_areas c) - length ts) (emmSpace c))"
    using assms(2,3) by (intro decreasedCount_ok) (auto simp: fifo_inv_def)
  then have "fifo_inv E (c3\<lparr>emmSpace := decreasedCount E (frv_freeCount L c3) (emmSpace c3)\<rparr>)"
    using w assms(3) same f by (auto simp: fifo_inv_def)
  moreover have "fifo_abs c3 = (fifo_abs c)\<lparr>sp_P := sp_P (fifo_abs c) @ ts\<rparr>"
    using w used_cells_areas [OF q] by (simp add: fifo_abs_def o_def)
  moreover have "spec_used (fifo_abs c) + length ts \<le> depthCount c"
    using fifo_abs_used(3) [OF q] True by linarith
  ultimately show ?thesis
    using c1(1) w(1) same by (simp add: entry_commStart_def implements_Some same_chan_def)
next
  case False
  have q: "qws_inv c" using assms(3) by (simp add: fifo_inv_def)
  have "fifo_step L E D (PutStart ts) c = None"
  proof (cases "write_tokens (length ts) 0 ts c")
    case (Some c1)
    then obtain st where "c1 = c\<lparr>storage := st\<rparr>" using write_tokens_frame by blast
    then have "frv_wpp L (length ts) (c1\<lparr>tokenId := tokenId c1 + of_nat (length ts)\<rparr>) = None"
      using False q by (intro frv_refuse(1) [OF assms(1)]) (simp_all add: storage_parts qws_inv_def)
    then show ?thesis using Some by (simp add: entry_commStart_def)
  qed simp
  moreover have "\<not> spec_used (fifo_abs c) + length ts \<le> depthCount c"
    using fifo_abs_used(3) [OF q] False by linarith
  ultimately show ?thesis by (simp add: implements_None)
qed

lemma get_start_implements:
  fixes c :: "('a, 'e, 'z) chan"
  assumes "mg_laws L" "event_laws E" "fifo_inv E c"
  shows "implements E c (fifo_step L E D (GetStart n) c)
    (spec_op (depthCount c) (initialTokens c) (GetStart n) (fifo_abs c))"
proof (cases "n \<le> area_V (frv_areas c)")
  case True
  have q: "qws_inv c" using assms(3) by (simp add: fifo_inv_def)
  obtain c1 where r: "qws_rpp L n c = Some c1" "qws_inv c1"
    "frv_areas c1 = (frv_areas c)\<lparr>area_C := area_C (frv_areas c) + n, area_V := area_V (frv_areas c) - n\<rparr>"
    "used_cells c1 = drop n (used_cells c)" and c1: "c1 = c\<lparr>rindex := rindex c1, storage := storage c1\<rparr>"
    using qws_rpp_step [OF assms(1) q True] by blast
  have same: "emmData c1 = emmData c" "emmSpace c1 = emmSpace c" "depthCount c1 = depthCount c"
      "initialTokens c1 = initialTokens c"
    by (subst c1, simp add: depthCount_def)+
  have v: "rvw_visibleCount L c1 = area_V (frv_areas c) - n"
    using frv_area_counts(1) [OF assms(1) qws_inv_frv [OF r(2)]] r(3) by simp
  have "emm_ok E (area_V (frv_areas c) - n) (decreasedCount E (area_V (frv_areas c) - n) (emmData c))"
    using assms(2,3) by (intro decreasedCount_ok) (auto simp: fifo_inv_def)
  moreover have "\<forall>x \<in> set (used_cells c1). x \<noteq> None"
    using assms(3) r(4) by (auto simp: fifo_inv_def dest: in_set_dropD)
  ultimately have "fifo_inv E (c1\<lparr>emmData := decreasedCount E (rvw_visibleCount L c1) (emmData c1)\<rparr>)"
    using r assms(3) same v by (simp add: fifo_inv_def)
  moreover have "fifo_abs c1 = (fifo_abs c)\<lparr>sp_C := sp_C (fifo_abs c) + n, sp_V := drop n (sp_V (fifo_abs c))\<rparr>"
    using r True by (simp add: fifo_abs_def drop_take drop_map)
  ultimately show ?thesis
    using r(1) same True fifo_abs_used(1) [OF q] by (simp add: outlet_commStart_def implements_Some same_chan_def)
next
  case False
  have q: "qws_inv c" using assms(3) by (simp add: fifo_inv_def)
  have "frv_inv (c\<lparr>storage := st\<rparr>)" "frv_areas (c\<lparr>storage := st\<rparr>) = frv_areas c" for st
    using q by (simp_all add: storage_parts qws_inv_def)
  then have "qws_rpp L n c = None"
    using False by (simp add: qws_rpp_def Let_def frv_refuse(3) [OF assms(1)])
  then show ?thesis
    using False fifo_abs_used(1) [OF q] by (simp add: implements_None outlet_commStart_def)
qed

lemma get_finish_implements:
  fixes c :: "('a, 'e, 'z) chan"
  assumes "mg_laws L" "event_laws E" "fifo_inv E c"
  shows "implements E c (fifo_step L E D (GetFinish n dropped) c)
    (spec_op (depthCount c) (initialTokens c) (GetFinish n dropped) (fifo_abs c))"
proof (cases "n \<le> area_C (frv_areas c) \<and> \<not> dropped")
  case True
  have q: "qws_inv c" using assms(3) by (simp add: fifo_inv_def)
  obtain c1 where r: "frv_fpp L n c = Some c1" "qws_inv c1"
    "frv_areas c1 = (frv_areas c)\<lparr>area_C := area_C (frv_areas c) - n, area_F := area_F (frv_areas c) + n\<rparr>"
    "used_cells c1 = used_cells c" and c1: "c1 = c\<lparr>findex := findex c1\<rparr>"
    using qws_fpp_step [OF assms(1) q, of n] True by blast
  have same: "emmData c1 = emmData c" "emmSpace c1 = emmSpace c" "depthCount c1 = depthCount c"
      "initialTokens c1 = initialTokens c"
    by (subst c1, simp add: depthCount_def)+
  have v: "frv_freeCount L c1 = area_F (frv_areas c) + n"
    using frv_area_counts(2) [OF assms(1) qws_inv_frv [OF r(2)]] r(3) by simp
  have "emm_ok E (area_F (frv_areas c) + n) (increasedCount E (area_F (frv_areas c) + n) (emmSpace c))"
    using assms(2,3) by (intro increasedCount_ok) (auto simp: fifo_inv_def)
  then have "fifo_inv E (c1\<lparr>emmSpace := increasedCount E (frv_freeCount L c1) (emmSpace c1)\<rparr>)"
    using r assms(3) same v by (simp add: fifo_inv_def)
  moreover have "fifo_abs c1 = (fifo_abs c)\<lparr>sp_C := sp_C (fifo_abs c) - n\<rparr>"
    using r True by (simp add: fifo_abs_def)
  moreover have "sp_C (fifo_abs c) = area_C (frv_areas c)" by (simp add: fifo_abs_def)
  ultimately show ?thesis
    using r(1) same True
    by (simp add: outlet_commFinish_def readConsumeEventExpired_def implements_Some same_chan_def)
next
  case False
  have q: "frv_inv c" using assms(3) by (simp add: fifo_inv_def qws_inv_def)
  have "sp_C (fifo_abs c) = area_C (frv_areas c)" by (simp add: fifo_abs_def)
  then show ?thesis
    using False frv_refuse(4) [OF assms(1) q, of n]
    by (auto simp: implements_None outlet_commFinish_def readConsumeEventExpired_def)
qed

lemma invalidate_generator_desc: "pos_desc (invalidate_generator n)"
  and invalidate_generator_set: "set (invalidate_generator n) = {..<n}"
  and invalidate_generator_length: "length (invalidate_generator n) = n"
proof -
  show set: "set (invalidate_generator n) = {..<n}" for n
    by (induction n) (simp_all add: lessThan_Suc)
  show "pos_desc (invalidate_generator n)" by (induction n) (simp_all add: set)
  show "length (invalidate_generator n) = n" by (induction n) simp_all
qed

lemma nths_from: "nths ys {j. n \<le> j} = drop n ys"
proof (induction ys arbitrary: n)
  case (Cons y ys)
  show ?case
  proof (cases n)
    case (Suc m)
    then show ?thesis using Cons.IH [of m] by (simp add: nths_Cons)
  qed (simp add: nths_all)
qed simp

lemma keep_oldest:
  "keep_tokens (wrap_generator v (invalidate_generator n)) xs = take v xs @ drop (v + n) xs"
proof -
  have "set (wrap_generator v (invalidate_generator n)) = {v..<v + n}"
    using image_add_atLeastLessThan' [of v 0 n]
    by (simp add: wrap_generator_def invalidate_generator_set lessThan_atLeast0 add.commute)
  then have "keep_tokens (wrap_generator v (invalidate_generator n)) xs =
      nths (take v xs @ drop v xs) (- {v..<v + n})"
    by (simp add: keep_tokens_def)
  also have "\<dots> = take v xs @ drop (v + n) xs"
  proof (cases "v \<le> length xs")
    case True
    have "nths (take v xs) (- {v..<v + n}) = take v xs" by (rule nths_all) auto
    moreover have "{j. j + v \<in> - {v..<v + n}} = {j. n \<le> j}" by auto
    ultimately show ?thesis
      using True nths_from [of "drop v xs" n]
      unfolding nths_append by (simp only: length_take min_absorb2 drop_drop add.commute)
  qed (simp add: nths_all)
  finally show ?thesis .
qed

lemma put_finish_implements:
  fixes c :: "('a, 'e, 'z) chan"
  assumes "mg_laws L" "event_laws E" "fifo_inv E c"
  shows "implements E c (fifo_step L E D (PutFinish n False) c)
    (spec_op (depthCount c) (initialTokens c) (PutFinish n False) (fifo_abs c))"
proof (cases "n \<le> area_P (frv_areas c)")
  case True
  have q: "qws_inv c" using assms(3) by (simp add: fifo_inv_def)
  obtain c1 where r: "rvw_vpp L n c = Some c1" "qws_inv c1"
    "frv_areas c1 = (frv_areas c)\<lparr>area_V := area_V (frv_areas c) + n, area_P := area_P (frv_areas c) - n\<rparr>"
    "used_cells c1 = used_cells c" and c1: "c1 = c\<lparr>vindex := vindex c1\<rparr>"
    using qws_vpp_step [OF assms(1) q True] by blast
  have same: "emmData c1 = emmData c" "emmSpace c1 = emmSpace c" "depthCount c1 = depthCount c"
      "initialTokens c1 = initialTokens c"
    by (subst c1, simp add: depthCount_def)+
  have v: "rvw_visibleCount L c1 = area_V (frv_areas c) + n"
    using frv_area_counts(1) [OF assms(1) qws_inv_frv [OF r(2)]] r(3) by simp
  have "emm_ok E (area_V (frv_areas c) + n) (increasedCount E (area_V (frv_areas c) + n) (emmData c))"
    using assms(2,3) by (intro increasedCount_ok) (auto simp: fifo_inv_def)
  then have "fifo_inv E (c1\<lparr>emmData := increasedCount E (rvw_visibleCount L c1) (emmData c1)\<rparr>)"
    using r assms(3) same v by (simp add: fifo_inv_def)
  moreover have "fifo_abs c1 = (fifo_abs c)\<lparr>sp_V := sp_V (fifo_abs c) @ take n (sp_P (fifo_abs c)),
      sp_P := drop n (sp_P (fifo_abs c))\<rparr>"
    using r by (simp add: fifo_abs_def take_add take_map drop_map add.commute [of n])
  ultimately show ?thesis
    using r(1) same True fifo_abs_used(2) [OF q]
    by (simp add: entry_commFinish_def latencyExpired_def implements_Some same_chan_def)
next
  case False
  have q: "qws_inv c" using assms(3) by (simp add: fifo_inv_def)
  then show ?thesis
    using False frv_refuse(2) [OF assms(1) qws_inv_frv [OF q], of n] fifo_abs_used(2) [OF q]
    by (simp add: implements_None entry_commFinish_def latencyExpired_def)
qed

lemma put_dropped_implements:
  fixes c :: "('a, 'e, 'z) chan"
  assumes "mg_laws L" "event_laws E" "fifo_inv E c"
  shows "implements E c (fifo_step L E D (PutFinish n True) c)
    (spec_op (depthCount c) (initialTokens c) (PutFinish n True) (fifo_abs c))"
proof (cases "n \<le> area_P (frv_areas c)")
  case True
  let ?V = "area_V (frv_areas c)"
  have q: "qws_inv c" and valid: "\<forall>x \<in> set (used_cells c). x \<noteq> None"
    using assms(3) by (simp_all add: fifo_inv_def)
  obtain c1 where r: "invalidateToken L D n c = Some c1" "qws_inv c1"
    "frv_areas c1 = (frv_areas c)\<lparr>area_P := area_P (frv_areas c) - n, area_F := area_F (frv_areas c) + n\<rparr>"
    "used_cells c1 = take ?V (used_cells c) @ drop (?V + n) (used_cells c)"
    and c1: "c1 = c\<lparr>rindex := rindex c1, vindex := vindex c1, findex := findex c1, storage := storage c1\<rparr>"
    using qws_dropRInvisible_step [OF assms(1) q invalidate_generator_desc [of n] _ valid, of D] True
    by (auto simp: invalidateToken_def invalidate_generator_set invalidate_generator_length keep_oldest)
  have same: "emmData c1 = emmData c" "emmSpace c1 = emmSpace c" "depthCount c1 = depthCount c"
      "initialTokens c1 = initialTokens c"
    by (subst c1, simp add: depthCount_def)+
  have v: "frv_freeCount L c1 = area_F (frv_areas c) + n"
    using frv_area_counts(2) [OF assms(1) qws_inv_frv [OF r(2)]] r(3) by simp
  have "emm_ok E (area_F (frv_areas c) + n) (increasedCount E (area_F (frv_areas c) + n) (emmSpace c))"
    using assms(2,3) by (intro increasedCount_ok) (auto simp: fifo_inv_def)
  moreover have "\<forall>x \<in> set (used_cells c1). x \<noteq> None"
    using valid r(4) by (auto dest: in_set_takeD in_set_dropD)
  ultimately have "fifo_inv E (c1\<lparr>emmSpace := increasedCount E (frv_freeCount L c1) (emmSpace c1)\<rparr>)"
    using r assms(3) same v by (simp add: fifo_inv_def)
  moreover have "fifo_abs c1 = (fifo_abs c)\<lparr>sp_P := drop n (sp_P (fifo_abs c))\<rparr>"
    using r used_cells_areas [OF q] by (simp add: fifo_abs_def drop_map add.commute)
  ultimately show ?thesis
    using r(1) same True fifo_abs_used(2) [OF q]
    by (simp add: entry_commFinish_def latencyExpired_dropped_def implements_Some same_chan_def)
next
  case False
  let ?g = "wrap_generator (rvw_visibleCount L c) (invalidate_generator n)"
  have q: "qws_inv c" using assms(3) by (simp add: fifo_inv_def)
  have "invalidateToken L D n c = None"
  proof (cases "moveTokensRight D ?g c")
    case (Some r)
    then obtain st where "r = (n, c\<lparr>storage := st\<rparr>)"
      using moveTokensRight_count [of D ?g c "fst r" "snd r"] pos_desc_wrap [OF invalidate_generator_desc]
      by (cases r) (auto simp: wrap_generator_def invalidate_generator_length)
    moreover have "rvw_vpp L n (c\<lparr>storage := st\<rparr>) = None"
      using False q by (intro frv_refuse(2) [OF assms(1)]) (simp_all add: storage_parts qws_inv_def)
    ultimately show ?thesis
      using Some by (simp add: invalidateToken_def qws_dropRInvisible_def frv_dropRInvisible_def rvw_dropRInvisible_def)
  qed (simp add: invalidateToken_def qws_dropRInvisible_def)
  then show ?thesis
    using False fifo_abs_used(2) [OF q]
    by (simp add: implements_None entry_commFinish_def latencyExpired_dropped_def)
qed

text \<open>A reset brings the channel and its events into step, whatever the events were before.\<close>

lemma reset_implements:
  fixes c :: "('a, 'e, 'z) chan"
  assumes "mg_laws L" "event_laws E" "qws_inv c" "emm_keys (emmData c)" "emm_keys (emmSpace c)"
  shows "implements E c (fifo_step L E D ResetChan c)
    (spec_op (depthCount c) (initialTokens c) ResetChan (fifo_abs c))"
proof (cases "length (initialTokens c) \<le> depthCount c")
  case True
  let ?k = "length (initialTokens c)"
  obtain c1 where r: "fifo_storage_reset L c = Some c1" "qws_inv c1"
    "used_cells c1 = map Some (initialTokens c)"
    "frv_areas c1 = \<lparr>area_C = 0, area_V = ?k, area_P = 0, area_F = depthCount c - ?k\<rparr>"
    and c1: "\<exists>st w v. c1 = c\<lparr>findex := 0, rindex := 0, storage := st, windex := w, vindex := v\<rparr>"
    using fifo_storage_reset_step [OF assms(1,3) True] by blast
  have same: "emmData c1 = emmData c" "emmSpace c1 = emmSpace c" "depthCount c1 = depthCount c"
      "initialTokens c1 = initialTokens c"
    using c1 by (auto simp: depthCount_def)
  have counts: "rvw_visibleCount L c1 = ?k" "frv_freeCount L c1 = depthCount c - ?k"
    using frv_area_counts [OF assms(1) qws_inv_frv [OF r(2)]] r(4) by simp_all
  let ?c2 = "c1\<lparr>emmSpace := increasedCount E (depthCount c - ?k) (emm_reset E (emmSpace c)),
      emmData := increasedCount E ?k (emm_reset E (emmData c))\<rparr>"
  have "fifo_base_doReset L E c1 = ?c2"
    using counts same by (simp add: fifo_base_doReset_def Let_def)
  moreover have "fifo_inv E ?c2"
    using r increasedCount_after_reset [OF assms(2,4)] increasedCount_after_reset [OF assms(2,5)]
    by (auto simp: fifo_inv_def)
  moreover have "fifo_abs c1 = \<lparr>sp_C = 0, sp_V = initialTokens c, sp_P = []\<rparr>"
    using r by (simp add: fifo_abs_def o_def)
  ultimately show ?thesis
    using r(1) same True by (simp add: fifo_doReset_def implements_Some same_chan_def)
next
  case False
  have "\<exists>st. qws_resetQueue c = Some (c\<lparr>storage := st, findex := 0, vindex := 0, rindex := 0, windex := 0\<rparr>)"
    using qws_resetQueue_step [OF assms(3)] by blast
  then show ?thesis
    using False by (auto simp: fifo_doReset_def fifo_storage_reset_def implements_None depthCount_def)
qed

lemma fifo_step_implements:
  assumes "mg_laws L" "event_laws E" "fifo_inv E c"
  shows "implements E c (fifo_step L E D op c) (spec_op (depthCount c) (initialTokens c) op (fifo_abs c))"
proof (cases op)
  case (PutFinish n d)
  then show ?thesis using put_finish_implements [OF assms] put_dropped_implements [OF assms] by (cases d) auto
next
  case ResetChan
  then show ?thesis
    using reset_implements [OF assms(1,2)] assms(3) emm_ok_keys unfolding fifo_inv_def by metis
qed (use put_start_implements [OF assms] get_start_implements [OF assms] get_finish_implements [OF assms] in auto)

lemma implements_trans: "implements E c1 r s \<Longrightarrow> same_chan c c1 \<Longrightarrow> implements E c r s"
  by (cases r) (auto simp: implements_def same_chan_def)

lemma fifo_run_implements:
  assumes "mg_laws L" "event_laws E" "fifo_inv E c"
  shows "implements E c (run_ops (fifo_step L E D) ops c)
    (run_ops (spec_op (depthCount c) (initialTokens c)) ops (fifo_abs c))"
  using assms(3)
proof (induction ops arbitrary: c)
  case Nil
  then show ?case by (simp add: implements_Some same_chan_def)
next
  case (Cons op ops)
  note s = fifo_step_implements [OF assms(1,2) Cons.prems, of D op]
  show ?case
  proof (cases "fifo_step L E D op c")
    case None
    then show ?thesis using s by (simp add: implements_None)
  next
    case (Some c1)
    then have c1: "spec_op (depthCount c) (initialTokens c) op (fifo_abs c) = Some (fifo_abs c1)"
        "fifo_inv E c1" "same_chan c c1" using s by (simp_all add: implements_Some)
    have "implements E c1 (run_ops (fifo_step L E D) ops c1)
        (run_ops (spec_op (depthCount c) (initialTokens c)) ops (fifo_abs c1))"
      using Cons.IH [OF c1(2)] c1(3) by (simp add: same_chan_def)
    then show ?thesis using Some c1 by (simp add: implements_trans)
  qed
qed

section \<open>Elaboration and runs\<close>

lemma getEvent_fst:
  assumes "emm_keys m" "getEvent E n m = Some (e, m')"
  shows "emm_keys m'" "set (map fst m') = insert n (set (map fst m))"
  using assms emm_get_set [of m "\<lambda>n. ev_new E False" n e m']
  by (auto simp: getEvent_def split: if_splits)

lemma register_events_keys:
  "register_events E rs c = Some c' \<Longrightarrow> emm_keys (emmData c) \<Longrightarrow> emm_keys (emmSpace c) \<Longrightarrow>
   emm_keys (emmData c') \<and> emm_keys (emmSpace c') \<and>
   set (map fst (emmData c')) = {n. (True, n) \<in> set rs} \<union> set (map fst (emmData c)) \<and>
   set (map fst (emmSpace c')) = {n. (False, n) \<in> set rs} \<union> set (map fst (emmSpace c)) \<and>
   (\<exists>d s. c' = c\<lparr>emmData := d, emmSpace := s\<rparr>)"
proof (induction E rs c rule: register_events.induct)
  case (1 E c)
  have "\<exists>d s. c = c\<lparr>emmData := d, emmSpace := s\<rparr>"
    by (rule exI [of _ "emmData c"], rule exI [of _ "emmSpace c"]) simp
  then show ?case using 1 by simp
next
  case (2 E data n rs c)
  obtain e c1 where c1: "(if data then dataAvailableEvent E n c else spaceAvailableEvent E n c) = Some (e, c1)"
      "register_events E rs c1 = Some c'"
    using "2.prems"(1) by (auto simp: bind_eq_Some_iff)
  show ?case
  proof (cases data)
    case True
    then obtain m where m: "getEvent E n (emmData c) = Some (e, m)" "c1 = c\<lparr>emmData := m\<rparr>"
      using c1(1) by (auto simp: dataAvailableEvent_def bind_eq_Some_iff)
    note g = getEvent_fst [OF "2.prems"(2) m(1)]
    show ?thesis
      using "2.IH" [OF c1(1) refl c1(2)] "2.prems" g True by (auto simp: m(2))
  next
    case False
    then obtain m where m: "getEvent E n (emmSpace c) = Some (e, m)" "c1 = c\<lparr>emmSpace := m\<rparr>"
      using c1(1) by (auto simp: spaceAvailableEvent_def bind_eq_Some_iff)
    note g = getEvent_fst [OF "2.prems"(3) m(1)]
    show ?thesis
      using "2.IH" [OF c1(1) refl c1(2)] "2.prems" g False by (auto simp: m(2))
  qed
qed

lemma mk_fifo_chan_inv:
  "qws_inv (mk_fifo_chan n ts)" "frv_areas (mk_fifo_chan n ts) = \<lparr>area_C = 0, area_V = 0, area_P = 0, area_F = n\<rparr>"
  "used_cells (mk_fifo_chan n ts) = []" "depthCount (mk_fifo_chan n ts) = n"
  by (auto simp: mk_fifo_chan_def mk_qws_def mk_frvwq_def mk_rvwq_def mk_rwq_def qws.defs frvwq.defs rvwq.defs
      rwq.defs frv_areas_def used_cells_def qws_inv_def depthCount_def intro!: frv_invI)

lemma registered_chan:
  fixes c :: "('a, 'e) fifo_chan"
  assumes "register_events E rs (mk_fifo_chan n ts) = Some c"
  shows "qws_inv c" "emm_keys (emmData c)" "emm_keys (emmSpace c)" "depthCount c = n" "initialTokens c = ts"
    "fifo_abs c = \<lparr>sp_C = 0, sp_V = [], sp_P = []\<rparr>" "tokenId c = 0"
    "{k. (True, k) \<in> set rs} = set (map fst (emmData c))" "{k. (False, k) \<in> set rs} = set (map fst (emmSpace c))"
proof -
  let ?c = "mk_fifo_chan n ts :: ('a, 'e) fifo_chan"
  have parts: "initialTokens ?c = ts" "tokenId ?c = 0" "emmData ?c = []" "emmSpace ?c = []"
    by (simp_all add: mk_fifo_chan_def qws.defs)
  note r = register_events_keys [OF assms]
  obtain d e where c: "c = (mk_fifo_chan n ts)\<lparr>emmData := d, emmSpace := e\<rparr>"
    using r parts by auto
  show "qws_inv c" "depthCount c = n" "initialTokens c = ts" "tokenId c = 0"
    by (simp_all add: c mk_fifo_chan_inv parts)
  show "fifo_abs c = \<lparr>sp_C = 0, sp_V = [], sp_P = []\<rparr>"
    by (simp add: c) (simp add: fifo_abs_def mk_fifo_chan_inv)
  show "emm_keys (emmData c)" "emm_keys (emmSpace c)" using r parts by simp_all
  show "{k. (True, k) \<in> set rs} = set (map fst (emmData c))"
    "{k. (False, k) \<in> set rs} = set (map fst (emmSpace c))" using r parts by simp_all
qed

lemma fifo_start_implements:
  assumes "mg_laws L" "event_laws E" "register_events E rs (mk_fifo_chan n ts) = Some c"
  shows "implements E c (run_ops (fifo_step L E D) (ResetChan # ops) c)
    (run_ops (spec_op n ts) (ResetChan # ops) \<lparr>sp_C = 0, sp_V = [], sp_P = []\<rparr>)"
proof -
  note c = registered_chan [OF assms(3)]
  have r: "implements E c (fifo_step L E D ResetChan c) (spec_op n ts ResetChan \<lparr>sp_C = 0, sp_V = [], sp_P = []\<rparr>)"
    using reset_implements [OF assms(1,2) c(1-3), of D] unfolding c(4-6) .
  show ?thesis
  proof (cases "fifo_step L E D ResetChan c")
    case None
    then have "spec_op n ts ResetChan \<lparr>sp_C = 0, sp_V = [], sp_P = []\<rparr> = None"
      using r by (simp only: implements_None)
    then show ?thesis using None by (simp only: run_ops.simps Option.bind.simps implements_None)
  next
    case (Some c1)
    then have s: "spec_op n ts ResetChan \<lparr>sp_C = 0, sp_V = [], sp_P = []\<rparr> = Some (fifo_abs c1)"
        "fifo_inv E c1" "same_chan c c1" using r by (simp_all only: implements_Some)
    have "implements E c1 (run_ops (fifo_step L E D) ops c1) (run_ops (spec_op n ts) ops (fifo_abs c1))"
      using fifo_run_implements [OF assms(1,2) s(2), of D ops] s(3) c(4,5) by (simp add: same_chan_def)
    then show ?thesis
      using Some s implements_trans [OF _ s(3)] by (simp only: run_ops.simps Option.bind.simps)
  qed
qed

text \<open>
  C5.  The FIFO channel refines a bounded queue with a pipeline.  After elaboration and the initial
  reset, every sequence of writing and committing tokens, expiring or dropping them, starting and
  finishing reads, and resets, gives the tokens, the order and the free places of the specification;
  and the code fires an assertion in exactly the states in which the specification refuses the
  operation.
\<close>

theorem fifo_refines_bounded_queue:
  assumes "mg_laws L" "event_laws E" "register_events E rs (mk_fifo_chan n ts) = Some c"
  shows "map_option fifo_abs (run_ops (fifo_step L E D) (ResetChan # ops) c) =
         run_ops (spec_op n ts) (ResetChan # ops) \<lparr>sp_C = 0, sp_V = [], sp_P = []\<rparr>"
  using fifo_start_implements [OF assms] by (simp only: implements_def)

theorem fifo_refines_bounded_queue_witness:
  "map_option fifo_abs (run_ops (fifo_step math_ref event_ref (Some (0::nat)))
     [ResetChan, PutStart [5, 6], PutFinish 1 False, GetStart 2, PutFinish 1 True, GetFinish 1 False]
     (mk_fifo_chan 4 [1, 2 :: nat]))
   = Some \<lparr>sp_C = 1, sp_V = [5], sp_P = []\<rparr>"
proof -
  have r: "register_events event_ref [] (mk_fifo_chan 4 [1, 2 :: nat]) = Some (mk_fifo_chan 4 [1, 2])"
    by simp
  show ?thesis
    unfolding fifo_refines_bounded_queue [OF math_ref_laws event_ref_laws r] by (simp add: spec_used_def)
qed

text \<open>
  C6.  The events wake exactly the actors that can run: after the initial reset and any run of the
  channel, an event registered for \<open>k\<close> tokens (places) is active if and only if at least \<open>k\<close> tokens
  are available (places are free), and every event registered during elaboration is still there.
\<close>

theorem fifo_events_exact:
  assumes "mg_laws L" "event_laws E" "register_events E rs (mk_fifo_chan n ts) = Some c"
    and "run_ops (fifo_step L E D) (ResetChan # ops) c = Some c'"
  shows "(\<forall>(k, e) \<in> set (emmData c'). ev_active E e \<longleftrightarrow> k \<le> numAvailable L c') \<and>
    (\<forall>(k, e) \<in> set (emmSpace c'). ev_active E e \<longleftrightarrow> k \<le> numFree L c') \<and>
    set (map fst (emmData c')) = {k. (True, k) \<in> set rs} \<and>
    set (map fst (emmSpace c')) = {k. (False, k) \<in> set rs}"
proof -
  have i: "fifo_inv E c'" "same_chan c c'"
    using fifo_start_implements [OF assms(1-3), of D ops] unfolding assms(4) by (simp_all only: implements_Some)
  then have "frv_inv c'" by (simp add: fifo_inv_def qws_inv_def)
  note a = frv_area_counts(1,2) [OF assms(1) this]
  show ?thesis
    using i registered_chan(8,9) [OF assms(3)]
    by (simp add: fifo_inv_def same_chan_def emm_ok_def numAvailable_def numFree_def a)
qed

theorem fifo_events_exact_witness:
  "\<exists>c'. run_ops (fifo_step math_ref event_ref None) [ResetChan, PutStart [7 :: nat], PutFinish 1 False]
      (mk_fifo_chan 2 [] \<lparr>emmData := [(1, (False, 0))]\<rparr>) = Some c' \<and>
    (\<forall>(k, e) \<in> set (emmData c'). ev_active event_ref e \<longleftrightarrow> k \<le> numAvailable math_ref c')"
proof -
  let ?c = "mk_fifo_chan 2 [] \<lparr>emmData := [(1, (False, 0))]\<rparr> :: (nat, bool \<times> nat) fifo_chan"
  have r: "register_events event_ref [(True, 1)] (mk_fifo_chan 2 []) = Some ?c"
    by (simp add: dataAvailableEvent_def getEvent_def event_ref_def mk_fifo_chan_def qws.defs)
  have "run_ops (spec_op 2 []) [ResetChan, PutStart [7 :: nat], PutFinish 1 False]
      \<lparr>sp_C = 0, sp_V = [], sp_P = []\<rparr> = Some \<lparr>sp_C = 0, sp_V = [7], sp_P = []\<rparr>"
    by (simp add: spec_used_def)
  then obtain c' where c': "run_ops (fifo_step math_ref event_ref None) [ResetChan, PutStart [7], PutFinish 1 False] ?c = Some c'"
    using fifo_start_implements [OF math_ref_laws event_ref_laws r, of None "[PutStart [7], PutFinish 1 False]"]
    unfolding implements_def by (simp only: map_option_eq_Some) blast
  then show ?thesis using fifo_events_exact [OF math_ref_laws event_ref_laws r c'] by blast
qed

section \<open>Order of the tokens and their ids\<close>

text \<open>The run of a channel with the tokens the reader sees when it starts a read.\<close>

fun fifo_log :: "math_lib \<Rightarrow> 'e event_lib \<Rightarrow> 'a option \<Rightarrow> 'a fifo_op list \<Rightarrow> ('a, 'e, 'z) chan \<Rightarrow>
    ('a option list \<times> ('a, 'e, 'z) chan) option" where
  "fifo_log L E D [] c = Some ([], c)"
| "fifo_log L E D (op # ops) c = (let
       seen = (case op of GetStart n \<Rightarrow> map (\<lambda>i. map_option fst (read_token D n i c)) [0..<n] | _ \<Rightarrow> [])
     in do {
       c \<leftarrow> fifo_step L E D op c;
       (outs, c) \<leftarrow> fifo_log L E D ops c;
       Some (seen @ outs, c)
     })"

fun loses_tokens :: "'a fifo_op \<Rightarrow> bool" where
  "loses_tokens (PutFinish n dropped) = dropped"
| "loses_tokens ResetChan = True"
| "loses_tokens _ = False"

fun written :: "'a fifo_op \<Rightarrow> 'a list" where
  "written (PutStart ts) = ts"
| "written _ = []"

definition queued :: "'a fifo_spec \<Rightarrow> 'a list" where
  "queued s = sp_V s @ sp_P s"

text \<open>A read sees the visible tokens.\<close>

lemma read_visible:
  assumes "fifo_inv E c" "n \<le> area_V (frv_areas c)"
  shows "map (\<lambda>i. map_option fst (read_token D n i c)) [0..<n] = map Some (take n (sp_V (fifo_abs c)))"
proof (rule nth_equalityI)
  have q: "qws_inv c" and valid: "\<forall>x \<in> set (used_cells c). x \<noteq> None"
    using assms(1) by (simp_all add: fifo_inv_def)
  note len = used_cells_areas [OF q]
  show "length (map (\<lambda>i. map_option fst (read_token D n i c)) [0..<n]) = length (map Some (take n (sp_V (fifo_abs c))))"
    using assms(2) fifo_abs_used(1) [OF q] by simp
  fix i assume "i < length (map (\<lambda>i. map_option fst (read_token D n i c)) [0..<n])"
  then have i: "i < n" by simp
  then have "used_cells c ! i \<in> set (used_cells c)" using assms(2) len by (intro nth_mem) simp
  then obtain t where t: "used_cells c ! i = Some t" using valid by blast
  have "i < length (used_cells c)" using i assms(2) len by simp
  from read_token_cell [OF q i this t] show "map (\<lambda>i. map_option fst (read_token D n i c)) [0..<n] ! i = map Some (take n (sp_V (fifo_abs c))) ! i"
    using i assms(2) len t by (simp add: fifo_abs_def)
qed

lemma spec_op_queued:
  assumes "spec_op n ts op s = Some s'" "\<not> loses_tokens op"
  shows "(case op of GetStart k \<Rightarrow> take k (sp_V s) | _ \<Rightarrow> []) @ queued s' = queued s @ written op"
  using assms by (cases op) (auto simp: queued_def split: if_splits)

lemma fifo_log_order:
  assumes "mg_laws L" "event_laws E"
  shows "fifo_inv E c \<Longrightarrow> fifo_log L E D ops c = Some (outs, c') \<Longrightarrow> \<forall>op \<in> set ops. \<not> loses_tokens op \<Longrightarrow>
    outs @ map Some (queued (fifo_abs c')) = map Some (queued (fifo_abs c) @ concat (map written ops))"
proof (induction ops arbitrary: c outs)
  case (Cons op ops)
  obtain c1 outs1 where c1: "fifo_step L E D op c = Some c1" "fifo_log L E D ops c1 = Some (outs1, c')"
      "outs = (case op of GetStart n \<Rightarrow> map (\<lambda>i. map_option fst (read_token D n i c)) [0..<n] | _ \<Rightarrow> []) @ outs1"
    using Cons.prems(2) by (auto simp: bind_eq_Some_iff)
  note i = fifo_step_implements [OF assms Cons.prems(1), of D op, unfolded c1(1) implements_Some]
  have seen: "(case op of GetStart n \<Rightarrow> map (\<lambda>i. map_option fst (read_token D n i c)) [0..<n] | _ \<Rightarrow> []) =
      map Some (case op of GetStart k \<Rightarrow> take k (sp_V (fifo_abs c)) | _ \<Rightarrow> [])"
  proof (cases op)
    case (GetStart n)
    have "n \<le> area_V (frv_areas c)"
      using i GetStart fifo_abs_used(1) [of c] Cons.prems(1) by (auto simp: fifo_inv_def split: if_splits)
    then show ?thesis using read_visible [OF Cons.prems(1)] GetStart by simp
  qed simp_all
  let ?X = "case op of GetStart k \<Rightarrow> take k (sp_V (fifo_abs c)) | _ \<Rightarrow> []"
  have "outs1 @ map Some (queued (fifo_abs c')) = map Some (queued (fifo_abs c1) @ concat (map written ops))"
    using Cons.IH [OF _ c1(2)] i Cons.prems(3) by simp
  then have "outs @ map Some (queued (fifo_abs c')) =
      map Some ((?X @ queued (fifo_abs c1)) @ concat (map written ops))"
    by (simp only: c1(3) seen append.assoc map_append)
  also have "?X @ queued (fifo_abs c1) = queued (fifo_abs c) @ written op"
    using spec_op_queued [of "depthCount c" "initialTokens c" op "fifo_abs c" "fifo_abs c1"] i Cons.prems(3) by simp
  finally show ?case by simp
qed simp

lemma fifo_log_inv:
  "mg_laws L \<Longrightarrow> event_laws E \<Longrightarrow> fifo_inv E c \<Longrightarrow> fifo_log L E D ops c = Some (outs, c') \<Longrightarrow> fifo_inv E c'"
proof (induction ops arbitrary: c outs)
  case (Cons op ops)
  then obtain c1 outs1 where "fifo_step L E D op c = Some c1" "fifo_log L E D ops c1 = Some (outs1, c')"
    by (auto simp: bind_eq_Some_iff)
  with Cons fifo_step_implements [of L E c D op] show ?case by (auto simp: implements_Some)
qed simp

lemma first_reset:
  assumes "mg_laws L" "event_laws E" "register_events E rs (mk_fifo_chan n ts) = Some c"
    and "fifo_step L E D ResetChan c = Some c1"
  shows "fifo_inv E c1" "fifo_abs c1 = \<lparr>sp_C = 0, sp_V = ts, sp_P = []\<rparr>"
proof -
  have "implements E c (Some c1) (spec_op n ts ResetChan \<lparr>sp_C = 0, sp_V = [], sp_P = []\<rparr>)"
    using reset_implements [OF assms(1,2) registered_chan(1-3) [OF assms(3)], of D]
    unfolding registered_chan(4-6) [OF assms(3)] assms(4) .
  then show "fifo_inv E c1" "fifo_abs c1 = \<lparr>sp_C = 0, sp_V = ts, sp_P = []\<rparr>"
    by (auto simp: implements_Some split: if_splits)
qed

text \<open>
  C7.  Tokens arrive in the order in which they were written, none twice and none missing.  For a
  run after the reset in which nothing is dropped and no reset happens, the tokens the reader saw
  followed by those still in the channel are the initial tokens followed by the written ones.
\<close>

theorem fifo_delivers_in_order:
  assumes "mg_laws L" "event_laws E" "register_events E rs (mk_fifo_chan n ts) = Some c"
    and "fifo_step L E D ResetChan c = Some c1"
    and "fifo_log L E D ops c1 = Some (outs, c')" and "\<forall>op \<in> set ops. \<not> loses_tokens op"
  shows "outs @ map Some (queued (fifo_abs c')) = map Some (ts @ concat (map written ops))"
  using fifo_log_order [OF assms(1,2) first_reset(1) [OF assms(1-4)] assms(5,6)]
  by (simp add: first_reset(2) [OF assms(1-4)] queued_def)

lemma fifo_log_run:
  "run_ops (fifo_step L E D) ops c = Some c' \<Longrightarrow> \<exists>outs. fifo_log L E D ops c = Some (outs, c')"
proof (induction ops arbitrary: c)
  case (Cons op ops)
  then obtain c1 where "fifo_step L E D op c = Some c1" "run_ops (fifo_step L E D) ops c1 = Some c'"
    by (auto simp: bind_eq_Some_iff)
  with Cons.IH [OF this(2)] show ?case by auto
qed simp

lemma first_reset_run:
  assumes "mg_laws L" "event_laws E" "register_events E rs (mk_fifo_chan n ts) = Some c" "length ts \<le> n"
    and "run_ops (spec_op n ts) ops \<lparr>sp_C = 0, sp_V = ts, sp_P = []\<rparr> = Some s"
  shows "\<exists>c1 c' outs. fifo_step L E D ResetChan c = Some c1 \<and> fifo_log L E D ops c1 = Some (outs, c') \<and>
    fifo_abs c' = s \<and> fifo_inv E c'"
proof -
  have "run_ops (spec_op n ts) (ResetChan # ops) \<lparr>sp_C = 0, sp_V = [], sp_P = []\<rparr> = Some s"
    using assms(4,5) by simp
  then have i: "implements E c (run_ops (fifo_step L E D) (ResetChan # ops) c) (Some s)"
    using fifo_start_implements [OF assms(1-3), of D ops] by simp
  then obtain c' where r: "run_ops (fifo_step L E D) (ResetChan # ops) c = Some c'"
    by (cases "run_ops (fifo_step L E D) (ResetChan # ops) c") (simp_all add: implements_None)
  then obtain c1 where "fifo_step L E D ResetChan c = Some c1" "run_ops (fifo_step L E D) ops c1 = Some c'"
    by (simp only: run_ops.simps bind_eq_Some_iff) blast
  then show ?thesis using i fifo_log_run r by (fastforce simp only: implements_Some)
qed

lemma example_run:
  "\<exists>c1 c' outs. fifo_step math_ref event_ref None ResetChan (mk_fifo_chan 2 [3 :: nat]) = Some c1 \<and>
     fifo_log math_ref event_ref None [PutStart [7], PutFinish 1 False, GetStart 2] c1 = Some (outs, c') \<and>
     queued (fifo_abs c') = []"
proof -
  have r: "register_events event_ref [] (mk_fifo_chan 2 [3]) = Some (mk_fifo_chan 2 [3 :: nat])"
    by simp
  have s: "run_ops (spec_op 2 [3]) [PutStart [7 :: nat], PutFinish 1 False, GetStart 2]
      \<lparr>sp_C = 0, sp_V = [3], sp_P = []\<rparr> = Some \<lparr>sp_C = 2, sp_V = [], sp_P = []\<rparr>"
    by (simp add: spec_used_def)
  have "length [3 :: nat] \<le> 2" by simp
  from first_reset_run [OF math_ref_laws event_ref_laws r this s, of None]
  obtain c1 c' outs where "fifo_step math_ref event_ref None ResetChan (mk_fifo_chan 2 [3 :: nat]) = Some c1"
      "fifo_log math_ref event_ref None [PutStart [7], PutFinish 1 False, GetStart 2] c1 = Some (outs, c')"
      "fifo_abs c' = \<lparr>sp_C = 2, sp_V = [], sp_P = []\<rparr>" by blast
  moreover from this(3) have "queued (fifo_abs c') = []" by (simp add: queued_def)
  ultimately show ?thesis by blast
qed

theorem fifo_delivers_in_order_witness:
  "\<exists>c1 c'. fifo_step math_ref event_ref None ResetChan (mk_fifo_chan 2 [3 :: nat]) = Some c1 \<and>
     fifo_log math_ref event_ref None [PutStart [7], PutFinish 1 False, GetStart 2] c1 = Some ([Some 3, Some 7], c')"
proof -
  have r: "register_events event_ref [] (mk_fifo_chan 2 [3]) = Some (mk_fifo_chan 2 [3 :: nat])"
    by simp
  obtain c1 c' outs where s: "fifo_step math_ref event_ref None ResetChan (mk_fifo_chan 2 [3 :: nat]) = Some c1"
      "fifo_log math_ref event_ref None [PutStart [7], PutFinish 1 False, GetStart 2] c1 = Some (outs, c')"
      "queued (fifo_abs c') = []" using example_run by blast
  have "outs = [Some 3, Some 7]"
    using fifo_delivers_in_order [OF math_ref_laws event_ref_laws r s(1,2)] s(3) by simp
  then show ?thesis using s by blast
qed

text \<open>Only a write changes the id of the next token.\<close>

lemma pointer_ops_tokenId:
  fixes c :: "('a, 'e, 'z) chan"
  shows "frv_wpp L n c = Some c' \<Longrightarrow> tokenId c' = tokenId c"
    and "rvw_vpp L n c = Some c' \<Longrightarrow> tokenId c' = tokenId c"
    and "rvw_rpp L n c = Some c' \<Longrightarrow> tokenId c' = tokenId c"
    and "frv_fpp L n c = Some c' \<Longrightarrow> tokenId c' = tokenId c"
  by (auto simp: frv_wpp_def rw_wpp_def rvw_vpp_def rvw_rpp_def rw_rpp_def frv_fpp_def split: if_splits)

lemma fifo_step_tokenId:
  fixes c :: "('a, 'e, 'z) chan"
  assumes "fifo_step L E D op c = Some c'"
  shows "tokenId c' = tokenId c + of_nat (length (written op))"
proof (cases op)
  case (PutStart ts)
  then obtain c1 where c1: "write_tokens (length ts) 0 ts c = Some c1" "entry_commStart L E (length ts) c1 = Some c'"
    using assms by (auto simp: bind_eq_Some_iff)
  have "tokenId c1 = tokenId c" using write_tokens_frame [OF c1(1)] by auto
  then show ?thesis
    using PutStart c1(2) by (auto simp: entry_commStart_def bind_eq_Some_iff dest: pointer_ops_tokenId)
next
  case (PutFinish n d)
  show ?thesis
  proof (cases d)
    case True
    let ?g = "wrap_generator (rvw_visibleCount L c) (invalidate_generator n)"
    obtain k c1 c2 where "moveTokensRight D ?g c = Some (k, c1)" "frv_dropRInvisible L k c1 = Some c2"
        and c': "tokenId c' = tokenId c2"
      using assms PutFinish True
      by (auto simp: entry_commFinish_def latencyExpired_dropped_def invalidateToken_def
          qws_dropRInvisible_def bind_eq_Some_iff)
    then have "tokenId c1 = tokenId c" "tokenId c2 = tokenId c1"
      using moveTokensRight_count [of D ?g c k c1] pos_desc_wrap [OF invalidate_generator_desc]
      by (auto simp: frv_dropRInvisible_def rvw_dropRInvisible_def rw_dropRVisible_def rw_rpp_def
          bind_eq_Some_iff split: if_splits dest!: pointer_ops_tokenId)
    then show ?thesis using PutFinish c' by simp
  next
    case False
    then show ?thesis
      using assms PutFinish
      by (auto simp: entry_commFinish_def latencyExpired_def bind_eq_Some_iff dest: pointer_ops_tokenId)
  qed
next
  case (GetStart n)
  then show ?thesis
    using assms by (auto simp: outlet_commStart_def qws_rpp_def Let_def bind_eq_Some_iff split: if_splits
        dest!: pointer_ops_tokenId)
next
  case (GetFinish n d)
  then show ?thesis
    using assms by (auto simp: outlet_commFinish_def readConsumeEventExpired_def bind_eq_Some_iff split: if_splits
        dest: pointer_ops_tokenId)
next
  case ResetChan
  then show ?thesis
    using assms by (auto simp: fifo_doReset_def fifo_storage_reset_def fifo_base_doReset_def qws_resetQueue_def
        frv_resetQueue_def rvw_resetQueue_def rw_resetQueue_def Let_def bind_eq_Some_iff split: if_splits
        dest!: pointer_ops_tokenId)
qed

lemma fifo_log_tokenId:
  "fifo_log L E D ops c = Some (outs, c') \<Longrightarrow>
   tokenId c' = tokenId c + of_nat (length (concat (map written ops)))"
proof (induction ops arbitrary: c outs)
  case (Cons op ops)
  then obtain c1 outs1 where "fifo_step L E D op c = Some c1" "fifo_log L E D ops c1 = Some (outs1, c')"
    by (auto simp: bind_eq_Some_iff)
  with Cons.IH [OF this(2)] fifo_step_tokenId [OF this(1)] show ?case by simp
qed simp

text \<open>
  The ids a channel reports match the tokens.  In a run after the reset without drops and resets
  the writer's next id is the number of tokens written, and the reader's next id is the number of
  tokens it has consumed, less the number of initial tokens: both modulo \<open>2 ^ 64\<close>, so a channel with
  initial tokens reports ids near \<open>2 ^ 64\<close> for them.
\<close>

theorem fifo_token_ids:
  assumes "mg_laws L" "event_laws E" "register_events E rs (mk_fifo_chan n ts) = Some c"
    and "fifo_step L E D ResetChan c = Some c1"
    and "fifo_log L E D ops c1 = Some (outs, c')" and "\<forall>op \<in> set ops. \<not> loses_tokens op"
  shows "outTokenId c' = of_nat (length (concat (map written ops))) \<and>
    inTokenId L c' = of_nat (length outs) - of_nat (length ts)"
proof -
  have t: "tokenId c' = of_nat (length (concat (map written ops)))"
    using fifo_log_tokenId [OF assms(5)] fifo_step_tokenId [OF assms(4)] registered_chan(7) [OF assms(3)] by simp
  have "outs @ map Some (queued (fifo_abs c')) = map Some (ts @ concat (map written ops))"
    using fifo_log_order [OF assms(1,2) first_reset(1) [OF assms(1-4)] assms(5,6)]
    by (simp add: first_reset(2) [OF assms(1-4)] queued_def)
  from arg_cong [OF this, of length]
  have len: "length outs + length (queued (fifo_abs c')) = length ts + length (concat (map written ops))"
    by simp
  have "fifo_inv E c'"
    using fifo_log_inv [OF assms(1,2) first_reset(1) [OF assms(1-4)] assms(5)] by blast
  then have qi: "qws_inv c'" by (simp add: fifo_inv_def)
  have "rw_usedCount L c' = length (queued (fifo_abs c'))"
    using frv_area_counts(3) [OF assms(1) qws_inv_frv [OF qi]] fifo_abs_used(1,2) [OF qi] by (simp add: queued_def)
  moreover have "(of_nat (length outs) + of_nat (length (queued (fifo_abs c'))) :: 64 word) =
      of_nat (length ts) + of_nat (length (concat (map written ops)))"
    using arg_cong [OF len, of "of_nat :: nat \<Rightarrow> 64 word"] by simp
  ultimately show ?thesis by (simp add: outTokenId_def inTokenId_def t algebra_simps)
qed

theorem fifo_token_ids_witness:
  "\<exists>c1 c' outs. fifo_step math_ref event_ref None ResetChan (mk_fifo_chan 2 [3 :: nat]) = Some c1 \<and>
     fifo_log math_ref event_ref None [PutStart [7], PutFinish 1 False, GetStart 2] c1 = Some (outs, c') \<and>
     outTokenId c' = 1 \<and> inTokenId math_ref c' = of_nat (length outs) - 1"
proof -
  have r: "register_events event_ref [] (mk_fifo_chan 2 [3]) = Some (mk_fifo_chan 2 [3 :: nat])"
    by simp
  obtain c1 c' outs where s: "fifo_step math_ref event_ref None ResetChan (mk_fifo_chan 2 [3 :: nat]) = Some c1"
      "fifo_log math_ref event_ref None [PutStart [7], PutFinish 1 False, GetStart 2] c1 = Some (outs, c')"
    using example_run by blast
  have "outTokenId c' = 1 \<and> inTokenId math_ref c' = of_nat (length outs) - 1"
    using fifo_token_ids [OF math_ref_laws event_ref_laws r s] by simp
  then show ?thesis using s by blast
qed

end
