(* ===== verification/Multireader_Fifo.thy ===== *)
theory Multireader_Fifo
  imports Fifo_Channel
begin

text \<open>
  The FIFO with several readers and writers: \<^verbatim>\<open>smoc_multireader_fifo_chan_base\<close>, its entry and its
  outlet (\<^verbatim>\<open>headers/systemoc/smoc_multireader_fifo.hpp\<close>, \<^verbatim>\<open>cpp/smoc_multireader_fifo.cpp\<close>).  All
  readers share one read pointer and one event map.  The members of the channel are those of the
  plain FIFO, so the record is shared; the operations are not.
\<close>

section \<open>The channel\<close>

definition mr_moreData :: "math_lib \<Rightarrow> 'e event_lib \<Rightarrow> ('a, 'e, 'z) chan \<Rightarrow> ('a, 'e, 'z) chan" where
  "mr_moreData L E c = c\<lparr>emmData := increasedCount E (rvw_visibleCount L c) (emmData c)\<rparr>"

definition mr_lessData :: "math_lib \<Rightarrow> 'e event_lib \<Rightarrow> ('a, 'e, 'z) chan \<Rightarrow> ('a, 'e, 'z) chan" where
  "mr_lessData L E c = c\<lparr>emmData := decreasedCount E (rvw_visibleCount L c) (emmData c)\<rparr>"

definition mr_moreSpace :: "math_lib \<Rightarrow> 'e event_lib \<Rightarrow> ('a, 'e, 'z) chan \<Rightarrow> ('a, 'e, 'z) chan" where
  "mr_moreSpace L E c = c\<lparr>emmSpace := increasedCount E (frv_freeCount L c) (emmSpace c)\<rparr>"

definition mr_lessSpace :: "math_lib \<Rightarrow> 'e event_lib \<Rightarrow> ('a, 'e, 'z) chan \<Rightarrow> ('a, 'e, 'z) chan" where
  "mr_lessSpace L E c = c\<lparr>emmSpace := decreasedCount E (frv_freeCount L c) (emmSpace c)\<rparr>"

text \<open>
  \<^verbatim>\<open>consume\<close> is a member of the base class: its \<^verbatim>\<open>rpp\<close> is that of the pointers, not the one of
  \<^verbatim>\<open>QueueWithStorage\<close> that invalidates the consumed tokens.
\<close>

definition mr_consume :: "math_lib \<Rightarrow> 'e event_lib \<Rightarrow> nat \<Rightarrow> ('a, 'e, 'z) chan \<Rightarrow> ('a, 'e, 'z) chan option" where
  "mr_consume L E n c = do {
     c \<leftarrow> rvw_rpp L n c;
     Some (c\<lparr>emmData := decreasedCountRenotify E (rvw_visibleCount L c) (emmData c)\<rparr>)
   }"

definition mr_produce :: "math_lib \<Rightarrow> 'e event_lib \<Rightarrow> nat \<Rightarrow> ('a, 'e, 'z) chan \<Rightarrow> ('a, 'e, 'z) chan option" where
  "mr_produce L E n c = (let c = c\<lparr>tokenId := tokenId c + of_nat n\<rparr> in do {
     c \<leftarrow> frv_wpp L n c;
     Some (mr_lessSpace L E c)
   })"

definition mr_latencyExpired :: "math_lib \<Rightarrow> 'e event_lib \<Rightarrow> nat \<Rightarrow> ('a, 'e, 'z) chan \<Rightarrow> ('a, 'e, 'z) chan option" where
  "mr_latencyExpired L E n c = do {
     c \<leftarrow> rvw_vpp L n c;
     Some (mr_moreData L E c)
   }"

definition mr_readConsumeEventExpired :: "math_lib \<Rightarrow> 'e event_lib \<Rightarrow> nat \<Rightarrow> ('a, 'e, 'z) chan \<Rightarrow> ('a, 'e, 'z) chan option" where
  "mr_readConsumeEventExpired L E n c = do {
     c \<leftarrow> frv_fpp L n c;
     Some (mr_moreSpace L E c)
   }"

definition mr_base_doReset :: "math_lib \<Rightarrow> 'e event_lib \<Rightarrow> ('a, 'e, 'z) chan \<Rightarrow> ('a, 'e, 'z) chan" where
  "mr_base_doReset L E c = (let
       c = c\<lparr>emmSpace := emm_reset E (emmSpace c)\<rparr>;
       c = c\<lparr>emmData := emm_reset E (emmData c)\<rparr>
     in mr_moreData L E (mr_moreSpace L E c))"

definition mr_doReset :: "math_lib \<Rightarrow> 'e event_lib \<Rightarrow> ('a, 'e, 'z) chan \<Rightarrow> ('a, 'e, 'z) chan option" where
  "mr_doReset L E c = do {
     c \<leftarrow> fifo_storage_reset L c;
     Some (mr_base_doReset L E c)
   }"

definition mr_inTokenId :: "math_lib \<Rightarrow> ('a, 'e, 'z) chan \<Rightarrow> 64 word" where
  "mr_inTokenId L c = tokenId c - of_nat (rw_usedCount L c)"

definition mr_outTokenId :: "('a, 'e, 'z) chan \<Rightarrow> 64 word" where
  "mr_outTokenId c = tokenId c"

section \<open>Entry and outlet\<close>

definition mr_outlet_commStart :: "math_lib \<Rightarrow> 'e event_lib \<Rightarrow> nat \<Rightarrow> ('a, 'e, 'z) chan \<Rightarrow> ('a, 'e, 'z) chan option" where
  "mr_outlet_commStart L E n c = mr_consume L E n c"

definition mr_outlet_commFinish :: "math_lib \<Rightarrow> 'e event_lib \<Rightarrow> nat \<Rightarrow> bool \<Rightarrow> ('a, 'e, 'z) chan \<Rightarrow>
    ('a, 'e, 'z) chan option" where
  "mr_outlet_commFinish L E n dropped c = do {
     assert_that (\<not> dropped);
     mr_readConsumeEventExpired L E n c
   }"

definition mr_outlet_commExec :: "math_lib \<Rightarrow> 'e event_lib \<Rightarrow> nat \<Rightarrow> ('a, 'e, 'z) chan \<Rightarrow> ('a, 'e, 'z) chan option" where
  "mr_outlet_commExec L E n c = do {
     c \<leftarrow> mr_outlet_commStart L E n c;
     mr_outlet_commFinish L E n False c
   }"

definition mr_dataAvailableEvent :: "'e event_lib \<Rightarrow> nat \<Rightarrow> ('a, 'e, 'z) chan \<Rightarrow> ('e \<times> ('a, 'e, 'z) chan) option" where
  "mr_dataAvailableEvent E n c = do {
     assert_that (n \<noteq> 0);
     (e, m) \<leftarrow> getEvent E n (emmData c);
     Some (e, c\<lparr>emmData := m\<rparr>)
   }"

definition mr_numAvailable :: "math_lib \<Rightarrow> ('a, 'e, 'z) chan \<Rightarrow> nat" where
  "mr_numAvailable L c = rvw_visibleCount L c"

definition mr_entry_commStart :: "math_lib \<Rightarrow> 'e event_lib \<Rightarrow> nat \<Rightarrow> ('a, 'e, 'z) chan \<Rightarrow> ('a, 'e, 'z) chan option" where
  "mr_entry_commStart L E n c = mr_produce L E n c"

definition mr_entry_commFinish :: "math_lib \<Rightarrow> 'e event_lib \<Rightarrow> nat \<Rightarrow> bool \<Rightarrow> ('a, 'e, 'z) chan \<Rightarrow>
    ('a, 'e, 'z) chan option" where
  "mr_entry_commFinish L E n dropped c = do {
     assert_that (\<not> dropped);
     mr_latencyExpired L E n c
   }"

definition mr_entry_commExec :: "math_lib \<Rightarrow> 'e event_lib \<Rightarrow> nat \<Rightarrow> ('a, 'e, 'z) chan \<Rightarrow> ('a, 'e, 'z) chan option" where
  "mr_entry_commExec L E n c = do {
     c \<leftarrow> mr_entry_commStart L E n c;
     mr_entry_commFinish L E n False c
   }"

definition mr_spaceAvailableEvent :: "'e event_lib \<Rightarrow> nat \<Rightarrow> ('a, 'e, 'z) chan \<Rightarrow> ('e \<times> ('a, 'e, 'z) chan) option" where
  "mr_spaceAvailableEvent E n c = do {
     assert_that (n \<noteq> 0);
     (e, m) \<leftarrow> getEvent E n (emmSpace c);
     Some (e, c\<lparr>emmSpace := m\<rparr>)
   }"

definition mr_numFree :: "math_lib \<Rightarrow> ('a, 'e, 'z) chan \<Rightarrow> nat" where
  "mr_numFree L c = frv_freeCount L c"

section \<open>Use\<close>

text \<open>An operation is tagged with the reader or writer that performs it.\<close>

fun mr_step :: "math_lib \<Rightarrow> 'e event_lib \<Rightarrow> nat \<times> 'a fifo_op \<Rightarrow> ('a, 'e, 'z) chan \<Rightarrow> ('a, 'e, 'z) chan option" where
  "mr_step L E (i, PutStart ts) c = do {
     c \<leftarrow> write_tokens (length ts) 0 ts c;
     mr_entry_commStart L E (length ts) c
   }"
| "mr_step L E (i, PutFinish n dropped) c = mr_entry_commFinish L E n dropped c"
| "mr_step L E (i, GetStart n) c = mr_outlet_commStart L E n c"
| "mr_step L E (i, GetFinish n dropped) c = mr_outlet_commFinish L E n dropped c"
| "mr_step L E (i, ResetChan) c = mr_doReset L E c"

fun mr_register :: "'e event_lib \<Rightarrow> (bool \<times> nat) list \<Rightarrow> ('a, 'e, 'z) chan \<Rightarrow> ('a, 'e, 'z) chan option" where
  "mr_register E [] c = Some c"
| "mr_register E ((data, n) # rs) c = do {
     (e, c) \<leftarrow> (if data then mr_dataAvailableEvent E n c else mr_spaceAvailableEvent E n c);
     mr_register E rs c
   }"

text \<open>The specification: one bounded queue for all, in which nothing is dropped.\<close>

fun mr_spec_op :: "nat \<Rightarrow> 'a list \<Rightarrow> nat \<times> 'a fifo_op \<Rightarrow> 'a fifo_spec \<Rightarrow> 'a fifo_spec option" where
  "mr_spec_op depth init (i, PutFinish n True) s = None"
| "mr_spec_op depth init (i, op) s = spec_op depth init op s"

section \<open>Refinement\<close>

lemma mr_register_register: "mr_register E rs c = Some c' \<Longrightarrow> register_events E rs c = Some c'"
  by (induction E rs c rule: mr_register.induct)
    (auto simp: bind_eq_Some_iff mr_dataAvailableEvent_def mr_spaceAvailableEvent_def
      dataAvailableEvent_def spaceAvailableEvent_def split: if_splits prod.splits)

lemma rvw_rpp_step:
  fixes q :: "('a, 'z) qws_scheme"
  assumes "mg_laws L" "qws_inv q" "n \<le> area_V (frv_areas q)"
  shows "\<exists>q'. rvw_rpp L n q = Some q' \<and> qws_inv q' \<and>
    frv_areas q' = (frv_areas q)\<lparr>area_C := area_C (frv_areas q) + n, area_V := area_V (frv_areas q) - n\<rparr> \<and>
    used_cells q' = drop n (used_cells q) \<and> q' = q\<lparr>rindex := rindex q'\<rparr>"
proof -
  note inv = qws_inv_frv [OF assms(2)]
  note b = frv_inv_bounds [OF inv] and s = frv_inv_split [OF inv]
  note r = rvw_rpp_areas [OF assms(1) inv assms(3)]
  let ?q' = "q\<lparr>rindex := ring_step (fsize q) (rindex q) n\<rparr>"
  have len: "length (storage q) = fsize q" using assms(2) by (simp add: qws_inv_def)
  have n: "n \<le> ring_dist (fsize q) (rindex q) (windex q)" "ring_dist (fsize q) (rindex q) (windex q) < fsize q"
      "n < fsize q"
    using assms(3) s ring_dist_less [OF b(1,2)] unfolding frv_areas_def areas.simps by linarith+
  have cells: "ring_cells ?q' = rotate n (ring_cells q)"
    using ring_cells_advance [of q n] len b(1) n(3) by (simp add: ring_cells_def)
  then have cells: "ring_cells ?q' = drop n (ring_cells q) @ take n (ring_cells q)"
    using rotate_split [of n "ring_cells q"] n(3) len by (simp add: ring_cells_def)
  have "used_cells ?q' = drop n (used_cells q)"
    using b n by (simp add: used_cells_def cells ring_dist_advance drop_take) (simp add: ring_cells_def len)
  then show ?thesis using r assms(2) by (intro exI [of _ ?q']) (simp add: qws_inv_def)
qed

lemma mr_consume_implements:
  fixes c :: "('a, 'e, 'z) chan"
  assumes "mg_laws L" "event_laws E" "fifo_inv E c"
  shows "implements E c (mr_consume L E n c)
    (spec_op (depthCount c) (initialTokens c) (GetStart n) (fifo_abs c))"
proof (cases "n \<le> area_V (frv_areas c)")
  case True
  have q: "qws_inv c" using assms(3) by (simp add: fifo_inv_def)
  obtain c1 where r: "rvw_rpp L n c = Some c1" "qws_inv c1"
    "frv_areas c1 = (frv_areas c)\<lparr>area_C := area_C (frv_areas c) + n, area_V := area_V (frv_areas c) - n\<rparr>"
    "used_cells c1 = drop n (used_cells c)" and c1: "c1 = c\<lparr>rindex := rindex c1\<rparr>"
    using rvw_rpp_step [OF assms(1) q True] by blast
  have same: "emmData c1 = emmData c" "emmSpace c1 = emmSpace c" "depthCount c1 = depthCount c"
      "initialTokens c1 = initialTokens c"
    by (subst c1, simp add: depthCount_def)+
  have v: "rvw_visibleCount L c1 = area_V (frv_areas c) - n"
    using frv_area_counts(1) [OF assms(1) qws_inv_frv [OF r(2)]] r(3) by simp
  let ?m = "decreasedCountRenotify E (area_V (frv_areas c) - n) (emmData c)"
  have "emm_ok E (area_V (frv_areas c) - n) ?m"
    using assms(2,3) by (intro decreasedCountRenotify_ok) (auto simp: fifo_inv_def)
  moreover have keys: "map fst ?m = map fst (emmData c)"
    by (auto simp: decreasedCountRenotify_def)
  moreover have "\<forall>x \<in> set (used_cells c1). x \<noteq> None"
    using assms(3) r(4) by (auto simp: fifo_inv_def dest: in_set_dropD)
  ultimately have "fifo_inv E (c1\<lparr>emmData := decreasedCountRenotify E (rvw_visibleCount L c1) (emmData c1)\<rparr>)"
    using r assms(3) same v by (simp add: fifo_inv_def)
  moreover have "fifo_abs c1 = (fifo_abs c)\<lparr>sp_C := sp_C (fifo_abs c) + n, sp_V := drop n (sp_V (fifo_abs c))\<rparr>"
    using r True by (simp add: fifo_abs_def drop_take drop_map)
  ultimately show ?thesis
    using r(1) same True keys v fifo_abs_used(1) [OF q] by (simp add: mr_consume_def implements_Some same_chan_def)
next
  case False
  have q: "qws_inv c" using assms(3) by (simp add: fifo_inv_def)
  then have "rvw_rpp L n c = None" using False frv_refuse(3) [OF assms(1) qws_inv_frv] by blast
  then show ?thesis
    using False fifo_abs_used(1) [OF q] by (simp add: implements_None mr_consume_def)
qed

text \<open>The other operations do what those of the plain FIFO do.\<close>

lemmas mr_defs = mr_entry_commStart_def mr_produce_def mr_lessSpace_def mr_entry_commFinish_def
  mr_latencyExpired_def mr_moreData_def mr_outlet_commStart_def mr_outlet_commFinish_def
  mr_readConsumeEventExpired_def mr_moreSpace_def mr_doReset_def mr_base_doReset_def

lemma mr_entry_commStart_eq: "mr_entry_commStart L E n = entry_commStart L E n"
  by (intro ext) (simp add: mr_entry_commStart_def mr_produce_def mr_lessSpace_def entry_commStart_def)

lemma mr_same_as_fifo:
  "mr_step L E (i, PutStart ts) c = fifo_step L E D (PutStart ts) c"
  "mr_step L E (i, PutFinish n False) c = fifo_step L E D (PutFinish n False) c"
  "mr_step L E (i, GetFinish n d) c = fifo_step L E D (GetFinish n d) c"
  "mr_step L E (i, ResetChan) c = fifo_step L E D ResetChan c"
  by (simp_all add: mr_entry_commStart_eq)
    (simp_all add: mr_defs entry_commFinish_def latencyExpired_def outlet_commFinish_def
      readConsumeEventExpired_def fifo_doReset_def fifo_base_doReset_def Let_def
      rvw_visibleCount_def frv_freeCount_def)

lemma mr_step_implements:
  assumes "mg_laws L" "event_laws E" "fifo_inv E c"
  shows "implements E c (mr_step L E op c) (mr_spec_op (depthCount c) (initialTokens c) op (fifo_abs c))"
proof -
  obtain i x where op: "op = (i, x)" by (cases op)
  show ?thesis
  proof (cases x)
    case (PutFinish n d)
    show ?thesis
    proof (cases d)
      case True
      then show ?thesis using op PutFinish by (simp add: implements_None mr_entry_commFinish_def)
    next
      case False
      then show ?thesis
        using fifo_step_implements [OF assms, of None "PutFinish n False"]
        by (simp only: op PutFinish mr_same_as_fifo(2) [where D = None] mr_spec_op.simps)
    qed
  next
    case (GetStart n)
    then show ?thesis using mr_consume_implements [OF assms] op by (simp add: mr_outlet_commStart_def)
  next
    case (PutStart ts)
    show ?thesis using fifo_step_implements [OF assms, of None "PutStart ts"]
      by (simp only: op PutStart mr_same_as_fifo(1) [where D = None] mr_spec_op.simps)
  next
    case (GetFinish n d)
    show ?thesis using fifo_step_implements [OF assms, of None "GetFinish n d"]
      by (simp only: op GetFinish mr_same_as_fifo(3) [where D = None] mr_spec_op.simps)
  next
    case ResetChan
    show ?thesis using fifo_step_implements [OF assms, of None ResetChan]
      by (simp only: op ResetChan mr_same_as_fifo(4) [where D = None] mr_spec_op.simps)
  qed
qed

lemma mr_run_implements:
  assumes "mg_laws L" "event_laws E" "fifo_inv E c"
  shows "implements E c (run_ops (mr_step L E) ops c)
    (run_ops (mr_spec_op (depthCount c) (initialTokens c)) ops (fifo_abs c))"
  using assms(3)
proof (induction ops arbitrary: c)
  case Nil
  then show ?case by (simp add: implements_Some same_chan_def)
next
  case (Cons op ops)
  note s = mr_step_implements [OF assms(1,2) Cons.prems, of op]
  show ?case
  proof (cases "mr_step L E op c")
    case None
    then show ?thesis using s by (simp add: implements_None)
  next
    case (Some c1)
    then have c1: "mr_spec_op (depthCount c) (initialTokens c) op (fifo_abs c) = Some (fifo_abs c1)"
        "fifo_inv E c1" "same_chan c c1"
      using s by (simp_all add: implements_Some)
    from Cons.IH [OF c1(2)] have "implements E c (run_ops (mr_step L E) ops c1)
        (run_ops (mr_spec_op (depthCount c) (initialTokens c)) ops (fifo_abs c1))"
      using implements_trans [OF _ c1(3)] c1(3) by (simp add: same_chan_def)
    then show ?thesis using Some c1(1) by simp
  qed
qed

lemma mr_start_implements:
  assumes "mg_laws L" "event_laws E" "mr_register E rs (mk_fifo_chan n ts) = Some c"
  shows "implements E c (run_ops (mr_step L E) ((i, ResetChan) # ops) c)
    (run_ops (mr_spec_op n ts) ((i, ResetChan) # ops) \<lparr>sp_C = 0, sp_V = [], sp_P = []\<rparr>)"
proof -
  note c = registered_chan [OF mr_register_register [OF assms(3)]]
  have r: "implements E c (mr_step L E (i, ResetChan) c) (mr_spec_op n ts (i, ResetChan) \<lparr>sp_C = 0, sp_V = [], sp_P = []\<rparr>)"
    using reset_implements [OF assms(1,2) c(1-3), of None] unfolding c(4-6)
    by (simp only: mr_same_as_fifo(4) [where D = None] mr_spec_op.simps)
  show ?thesis
  proof (cases "mr_step L E (i, ResetChan) c")
    case None
    then have "mr_spec_op n ts (i, ResetChan) \<lparr>sp_C = 0, sp_V = [], sp_P = []\<rparr> = None"
      using r by (simp only: implements_None)
    then show ?thesis using None by (simp only: run_ops.simps Option.bind.simps implements_None)
  next
    case (Some c1)
    then have s: "mr_spec_op n ts (i, ResetChan) \<lparr>sp_C = 0, sp_V = [], sp_P = []\<rparr> = Some (fifo_abs c1)"
        "fifo_inv E c1" "same_chan c c1" using r by (simp_all only: implements_Some)
    have "implements E c1 (run_ops (mr_step L E) ops c1) (run_ops (mr_spec_op n ts) ops (fifo_abs c1))"
      using mr_run_implements [OF assms(1,2) s(2), of ops] s(3) c(4,5) by (simp add: same_chan_def)
    then show ?thesis
      using Some s implements_trans [OF _ s(3)] by (simp only: run_ops.simps Option.bind.simps)
  qed
qed

section \<open>Properties\<close>

text \<open>
  C19.  However the readers and writers of a multi-reader FIFO interleave, it behaves as one bounded
  queue with a pipeline: every token goes to exactly one reader, in the order of writing, and an
  assertion fires exactly where that queue refuses (which includes every drop).  After any run the
  events are active exactly for the available tokens and free places, so a read by one reader puts
  out the events of the others that can no longer be served.
\<close>

theorem multireader_refines_shared_queue:
  fixes c :: "('a, 'e) fifo_chan"
  assumes "mg_laws L" "event_laws E" "mr_register E rs (mk_fifo_chan n ts) = Some c"
  shows "map_option fifo_abs (run_ops (mr_step L E) ((i, ResetChan) # ops) c) =
      run_ops (mr_spec_op n ts) ((i, ResetChan) # ops) \<lparr>sp_C = 0, sp_V = [], sp_P = []\<rparr> \<and>
    pred_option (\<lambda>c'. emm_ok E (mr_numAvailable L c') (emmData c') \<and> emm_ok E (mr_numFree L c') (emmSpace c'))
      (run_ops (mr_step L E) ((i, ResetChan) # ops) c)"
proof -
  note i = mr_start_implements [OF assms, of i ops]
  have "emm_ok E (mr_numAvailable L c') (emmData c') \<and> emm_ok E (mr_numFree L c') (emmSpace c')"
    if "fifo_inv E c'" for c' :: "('a, 'e) fifo_chan"
    using that frv_area_counts(1,2) [OF assms(1), of c']
    by (simp add: fifo_inv_def qws_inv_def mr_numAvailable_def mr_numFree_def)
  with i show ?thesis
    by (cases "run_ops (mr_step L E) ((i, ResetChan) # ops) c")
      (simp_all only: implements_None implements_Some option.map option.pred_inject)
qed

theorem multireader_refines_shared_queue_witness:
  "map_option fifo_abs (run_ops (mr_step math_ref event_ref)
     [(0, ResetChan), (0, PutStart [5, 6]), (0, PutFinish 2 False), (1, GetStart 2), (2, GetStart 1)]
     (mk_fifo_chan 4 [1, 2 :: nat]))
   = Some \<lparr>sp_C = 3, sp_V = [6], sp_P = []\<rparr>"
proof -
  have r: "mr_register event_ref [] (mk_fifo_chan 4 [1, 2 :: nat]) = Some (mk_fifo_chan 4 [1, 2])"
    by simp
  show ?thesis
    using multireader_refines_shared_queue [OF math_ref_laws event_ref_laws r]
    by (simp add: spec_used_def)
qed

end
