(* ===== verification/Multiplex_Fifo.thy ===== *)
theory Multiplex_Fifo
  imports Fifo_Channel
begin

text \<open>
  The multiplex FIFO (\<^verbatim>\<open>headers/systemoc/smoc_multiplex_fifo.hpp\<close>, \<^verbatim>\<open>cpp/smoc_multiplex_fifo.cpp\<close>): one
  shared queue whose tokens carry a colour, and a virtual FIFO per colour.  A virtual FIFO sees its
  tokens among the first \<open>fifoOutOfOrder + 1\<close> visible ones and consumes them out of order.
\<close>

section \<open>State\<close>

text \<open>The class \<open>A\<close> of the user, which reads and writes the colour of a token.\<close>

record 'a colour_lib =
  col_get :: "'a \<Rightarrow> nat"
  col_put :: "nat \<Rightarrow> 'a \<Rightarrow> 'a"

definition colour_law :: "'a colour_lib \<Rightarrow> bool" where
  "colour_law A \<longleftrightarrow> (\<forall>i t. col_get A (col_put A i t) = i)"

record 'e vfifo_outlet =
  vo_countAvailable :: nat
  vo_emmAvailable :: "'e emm"

definition mk_vfifo_outlet :: "'e vfifo_outlet" where
  "mk_vfifo_outlet = \<lparr>vo_countAvailable = 0, vo_emmAvailable = []\<rparr>"

record ('a, 'e) mux = "'a fifo_storage" +
  vOutlets :: "(nat \<times> 'e vfifo_outlet) list"
  vEntries :: "nat list"
  fifoOutOfOrder :: nat
  emmFree :: "'e emm"
  emmAvailable :: "'e emm"

definition mk_mux :: "nat \<Rightarrow> nat \<Rightarrow> 'a list \<Rightarrow> ('a, 'e) mux option" where
  "mk_mux n m marking = do {
     let c = qws.extend (mk_qws n) \<lparr>initialTokens = marking, vOutlets = [], vEntries = [], fifoOutOfOrder = m,
       emmFree = [], emmAvailable = []\<rparr>;
     assert_that (fifoOutOfOrder c + 1 \<le> depthCount c);
     Some c
   }"

definition registerVOutlet :: "nat \<Rightarrow> ('a, 'e) mux \<Rightarrow> ('a, 'e) mux option" where
  "registerVOutlet i c = do {
     assert_that (i \<notin> fst ` set (vOutlets c));
     Some (c\<lparr>vOutlets := vOutlets c @ [(i, mk_vfifo_outlet)]\<rparr>)
   }"

definition deregisterVOutlet :: "nat \<Rightarrow> ('a, 'e) mux \<Rightarrow> ('a, 'e) mux" where
  "deregisterVOutlet i c = c\<lparr>vOutlets := filter (\<lambda>(j, v). j \<noteq> i) (vOutlets c)\<rparr>"

definition registerVEntry :: "nat \<Rightarrow> ('a, 'e) mux \<Rightarrow> ('a, 'e) mux option" where
  "registerVEntry i c = do {
     assert_that (i \<notin> set (vEntries c));
     Some (c\<lparr>vEntries := vEntries c @ [i]\<rparr>)
   }"

definition deregisterVEntry :: "nat \<Rightarrow> ('a, 'e) mux \<Rightarrow> ('a, 'e) mux" where
  "deregisterVEntry i c = c\<lparr>vEntries := filter (\<lambda>j. j \<noteq> i) (vEntries c)\<rparr>"

section \<open>Operations of the channel\<close>

text \<open>\<^verbatim>\<open>storage[x].get()\<close> on a non-const cell.\<close>

definition storage_get :: "'a option \<Rightarrow> nat \<Rightarrow> ('a, 'z) qws_scheme \<Rightarrow> ('a \<times> ('a, 'z) qws_scheme) option" where
  "storage_get D x q = do {
     (t, c) \<leftarrow> cell_get D (storage q ! x);
     Some (t, q\<lparr>storage := (storage q)[x := c]\<rparr>)
   }"

definition vout_upd :: "nat \<Rightarrow> ('e vfifo_outlet \<Rightarrow> 'e vfifo_outlet) \<Rightarrow> (nat \<times> 'e vfifo_outlet) list \<Rightarrow>
    (nat \<times> 'e vfifo_outlet) list" where
  "vout_upd i f vs = map (\<lambda>(j, v). if j = i then (j, f v) else (j, v)) vs"

definition vo_moreData :: "'e event_lib \<Rightarrow> nat \<Rightarrow> 'e vfifo_outlet \<Rightarrow> 'e vfifo_outlet" where
  "vo_moreData E n v = (let v = v\<lparr>vo_countAvailable := vo_countAvailable v + n\<rparr>
     in v\<lparr>vo_emmAvailable := increasedCount E (vo_countAvailable v) (vo_emmAvailable v)\<rparr>)"

definition vo_reset :: "'e event_lib \<Rightarrow> 'e vfifo_outlet \<Rightarrow> 'e vfifo_outlet" where
  "vo_reset E v = v\<lparr>vo_countAvailable := 0, vo_emmAvailable := emm_reset E (vo_emmAvailable v)\<rparr>"

text \<open>The lookup of an outlet asserts that it is there.\<close>

definition tell_outlet :: "'e event_lib \<Rightarrow> nat \<Rightarrow> ('a, 'e) mux \<Rightarrow> ('a, 'e) mux option" where
  "tell_outlet E i c = do {
     assert_that (i \<in> fst ` set (vOutlets c));
     Some (c\<lparr>vOutlets := vout_upd i (vo_moreData E 1) (vOutlets c)\<rparr>)
   }"

text \<open>The loop over the tokens that enter the out-of-order area, from cell \<open>x\<close> to cell \<open>o\<close>.\<close>

partial_function (option) enter_loop ::
    "'a colour_lib \<Rightarrow> 'e event_lib \<Rightarrow> 'a option \<Rightarrow> nat \<Rightarrow> nat \<Rightarrow> ('a, 'e) mux \<Rightarrow> ('a, 'e) mux option" where
  [code]: "enter_loop A E D x oi c =
     (if x = oi then Some c
      else do {
        (t, c) \<leftarrow> storage_get D x c;
        c \<leftarrow> tell_outlet E (col_get A t) c;
        enter_loop A E D ((x + 1) mod fsize c) oi c
      })"

definition mux_latencyExpired :: "math_lib \<Rightarrow> 'a colour_lib \<Rightarrow> 'e event_lib \<Rightarrow> 'a option \<Rightarrow> nat \<Rightarrow> ('a, 'e) mux \<Rightarrow>
    ('a, 'e) mux option" where
  "mux_latencyExpired L A E D n c = do {
     c \<leftarrow> rvw_vpp L n c;
     let vcount = rvw_visibleCount L c;
     assert_that (n \<le> vcount);
     if vOutlets c \<noteq> [] then (let
         fs = fsize c; r = rindex c;
         x = (r + min (fifoOutOfOrder c + 1) (vcount - n)) mod fs;
         oi = (r + min (fifoOutOfOrder c + 1) vcount) mod fs
       in enter_loop A E D x oi c)
     else Some (c\<lparr>emmAvailable := increasedCount E vcount (emmAvailable c)\<rparr>)
   }"

text \<open>
  The three loops of \<^verbatim>\<open>consume\<close>: to behind the last but one token of the colour, on to the last one, and
  back, moving the tokens of other colours to the right.
\<close>

definition visible_pos :: "math_lib \<Rightarrow> nat \<Rightarrow> ('a, 'e) mux \<Rightarrow> bool" where
  "visible_pos L d c = mg_between L (fsize c) d (rindex c) (mg_sub L (fsize c) (vindex c) 1)"

partial_function (option) find_nth ::
    "math_lib \<Rightarrow> 'a colour_lib \<Rightarrow> 'a option \<Rightarrow> nat \<Rightarrow> nat \<Rightarrow> nat \<Rightarrow> ('a, 'e) mux \<Rightarrow> (nat \<times> ('a, 'e) mux) option" where
  [code]: "find_nth L A D from mc d c =
     (if mc > 1 then do {
        assert_that (visible_pos L d c);
        (t, c) \<leftarrow> storage_get D d c;
        find_nth L A D from (if col_get A t = from then mc - 1 else mc) (mg_add L (fsize c) d 1) c
      } else Some (d, c))"

partial_function (option) find_next ::
    "math_lib \<Rightarrow> 'a colour_lib \<Rightarrow> 'a option \<Rightarrow> nat \<Rightarrow> nat \<Rightarrow> ('a, 'e) mux \<Rightarrow> (nat \<times> ('a, 'e) mux) option" where
  [code]: "find_next L A D from d c = do {
     (t, c) \<leftarrow> storage_get D d c;
     if col_get A t \<noteq> from then do {
       assert_that (visible_pos L d c);
       find_next L A D from (mg_add L (fsize c) d 1) c
     } else Some (d, c)
   }"

partial_function (option) move_others ::
    "math_lib \<Rightarrow> 'a colour_lib \<Rightarrow> 'a option \<Rightarrow> nat \<Rightarrow> nat \<Rightarrow> nat \<Rightarrow> ('a, 'e) mux \<Rightarrow> ('a, 'e) mux option" where
  [code]: "move_others L A D from s d c =
     (if s = rindex c then Some c
      else (let s = mg_sub L (fsize c) s 1 in do {
        assert_that (mg_between L (fsize c) s (rindex c) (mg_sub L (fsize c) d 1));
        (t, c) \<leftarrow> storage_get D s c;
        if col_get A t \<noteq> from then do {
          (t, c) \<leftarrow> storage_get D s c;
          let c = c\<lparr>storage := (storage c)[d := cell_put t (storage c ! d)]\<rparr>;
          move_others L A D from s (mg_sub L (fsize c) d 1) c
        } else move_others L A D from s d c
      }))"

text \<open>\<^verbatim>\<open>fifoOutOfOrder + 1 - n\<close> on 64-bit numbers.\<close>

definition ooo_minus :: "nat \<Rightarrow> nat \<Rightarrow> nat" where
  "ooo_minus k n = unat (of_nat (k + 1) - of_nat n :: 64 word)"

definition mux_consume :: "math_lib \<Rightarrow> 'a colour_lib \<Rightarrow> 'e event_lib \<Rightarrow> 'a option \<Rightarrow> nat \<Rightarrow> nat \<Rightarrow> ('a, 'e) mux \<Rightarrow>
    ('a, 'e) mux option" where
  "mux_consume L A E D from n c = do {
     c \<leftarrow> (if n > 0 then do {
         (d, c) \<leftarrow> find_nth L A D from n (rindex c) c;
         (d, c) \<leftarrow> find_next L A D from d c;
         move_others L A D from d d c
       } else Some c);
     c \<leftarrow> qws_rpp L n c;
     let c = c\<lparr>emmAvailable := decreasedCount E (rvw_visibleCount L c) (emmAvailable c)\<rparr>;
     let vcount = rvw_visibleCount L c;
     let fs = fsize c;
     let r = rindex c;
     let x = (r + min (ooo_minus (fifoOutOfOrder c) n) vcount) mod fs;
     let oi = (r + min (fifoOutOfOrder c + 1) vcount) mod fs;
     enter_loop A E D x oi c
   }"

definition mux_readConsumeEventExpired :: "math_lib \<Rightarrow> 'e event_lib \<Rightarrow> nat \<Rightarrow> ('a, 'e) mux \<Rightarrow> ('a, 'e) mux option" where
  "mux_readConsumeEventExpired L E n c = do {
     c \<leftarrow> frv_fpp L n c;
     Some (c\<lparr>emmFree := increasedCount E (frv_freeCount L c) (emmFree c)\<rparr>)
   }"

definition mux_base_doReset :: "math_lib \<Rightarrow> 'e event_lib \<Rightarrow> ('a, 'e) mux \<Rightarrow> ('a, 'e) mux" where
  "mux_base_doReset L E c = (let
       c = c\<lparr>emmFree := emm_reset E (emmFree c)\<rparr>;
       c = c\<lparr>emmAvailable := emm_reset E (emmAvailable c)\<rparr>;
       c = c\<lparr>emmFree := increasedCount E (frv_freeCount L c) (emmFree c)\<rparr>
     in if vOutlets c = [] then c\<lparr>emmAvailable := increasedCount E (rvw_visibleCount L c) (emmAvailable c)\<rparr>
        else c)"

fun tell_all :: "'a colour_lib \<Rightarrow> 'e event_lib \<Rightarrow> 'a list \<Rightarrow> ('a, 'e) mux \<Rightarrow> ('a, 'e) mux option" where
  "tell_all A E [] c = Some c"
| "tell_all A E (t # ts) c = do { c \<leftarrow> tell_outlet E (col_get A t) c; tell_all A E ts c }"

definition mux_doReset :: "math_lib \<Rightarrow> 'a colour_lib \<Rightarrow> 'e event_lib \<Rightarrow> ('a, 'e) mux \<Rightarrow> ('a, 'e) mux option" where
  "mux_doReset L A E c = do {
     c \<leftarrow> fifo_storage_reset L c;
     let c = mux_base_doReset L E c;
     if vOutlets c \<noteq> [] then do {
       let c = c\<lparr>vOutlets := map (\<lambda>(i, v). (i, vo_reset E v)) (vOutlets c)\<rparr>;
       tell_all A E (initialTokens c) c
     } else Some c
   }"

section \<open>Plain entry and outlet\<close>

definition mux_entry_commStart :: "math_lib \<Rightarrow> 'e event_lib \<Rightarrow> nat \<Rightarrow> ('a, 'e) mux \<Rightarrow> ('a, 'e) mux option" where
  "mux_entry_commStart L E n c = do {
     c \<leftarrow> frv_wpp L n c;
     Some (c\<lparr>emmFree := decreasedCount E (frv_freeCount L c) (emmFree c)\<rparr>)
   }"

definition mux_entry_commFinish :: "math_lib \<Rightarrow> 'a colour_lib \<Rightarrow> 'e event_lib \<Rightarrow> 'a option \<Rightarrow> nat \<Rightarrow> bool \<Rightarrow>
    ('a, 'e) mux \<Rightarrow> ('a, 'e) mux option" where
  "mux_entry_commFinish L A E D n dropped c = do {
     assert_that (\<not> dropped);
     mux_latencyExpired L A E D n c
   }"

definition mux_entry_commExec :: "math_lib \<Rightarrow> 'a colour_lib \<Rightarrow> 'e event_lib \<Rightarrow> 'a option \<Rightarrow> nat \<Rightarrow>
    ('a, 'e) mux \<Rightarrow> ('a, 'e) mux option" where
  "mux_entry_commExec L A E D n c = do {
     c \<leftarrow> mux_entry_commStart L E n c;
     mux_entry_commFinish L A E D n False c
   }"

definition mux_outlet_commStart :: "math_lib \<Rightarrow> 'e event_lib \<Rightarrow> nat \<Rightarrow> ('a, 'e) mux \<Rightarrow> ('a, 'e) mux option" where
  "mux_outlet_commStart L E n c = do {
     c \<leftarrow> qws_rpp L n c;
     Some (c\<lparr>emmAvailable := decreasedCount E (rvw_visibleCount L c) (emmAvailable c)\<rparr>)
   }"

definition mux_outlet_commFinish :: "math_lib \<Rightarrow> 'e event_lib \<Rightarrow> nat \<Rightarrow> bool \<Rightarrow> ('a, 'e) mux \<Rightarrow> ('a, 'e) mux option" where
  "mux_outlet_commFinish L E n dropped c = do {
     assert_that (\<not> dropped);
     mux_readConsumeEventExpired L E n c
   }"

definition mux_outlet_commExec :: "math_lib \<Rightarrow> 'e event_lib \<Rightarrow> nat \<Rightarrow> ('a, 'e) mux \<Rightarrow> ('a, 'e) mux option" where
  "mux_outlet_commExec L E n c = do {
     c \<leftarrow> mux_outlet_commStart L E n c;
     mux_outlet_commFinish L E n False c
   }"

definition mux_dataAvailableEvent :: "'e event_lib \<Rightarrow> nat \<Rightarrow> ('a, 'e) mux \<Rightarrow> ('e \<times> ('a, 'e) mux) option" where
  "mux_dataAvailableEvent E n c = do { (e, m) \<leftarrow> getEvent E n (emmAvailable c); Some (e, c\<lparr>emmAvailable := m\<rparr>) }"

definition mux_spaceAvailableEvent :: "'e event_lib \<Rightarrow> nat \<Rightarrow> ('a, 'e) mux \<Rightarrow> ('e \<times> ('a, 'e) mux) option" where
  "mux_spaceAvailableEvent E n c = do { (e, m) \<leftarrow> getEvent E n (emmFree c); Some (e, c\<lparr>emmFree := m\<rparr>) }"

section \<open>Virtual entry and outlet\<close>

text \<open>The read access of virtual FIFO \<open>i\<close>: the loop over the cells, from cell \<open>r\<close>.\<close>

partial_function (option) vfifo_read_loop ::
    "'a colour_lib \<Rightarrow> 'a option \<Rightarrow> nat \<Rightarrow> nat \<Rightarrow> nat \<Rightarrow> ('a, 'e) mux \<Rightarrow> (nat \<times> ('a, 'e) mux) option" where
  [code]: "vfifo_read_loop A D i n r c = (if n \<ge> 1 then do {
       (t, c) \<leftarrow> storage_get D r c;
       vfifo_read_loop A D i (if col_get A t = i then n - 1 else n) (if r < fsize c - 1 then r + 1 else 0) c
     } else do {
       (t, c) \<leftarrow> storage_get D r c;
       if col_get A t \<noteq> i then do {
         (t, c) \<leftarrow> storage_get D r c;
         vfifo_read_loop A D i n (if r < fsize c - 1 then r + 1 else 0) c
       } else Some (r, c)
     })"

definition vfifo_read :: "'a colour_lib \<Rightarrow> 'a option \<Rightarrow> nat \<Rightarrow> nat \<Rightarrow> nat \<Rightarrow> ('a, 'e) mux \<Rightarrow> ('a option \<times> ('a, 'e) mux) option" where
  "vfifo_read A D limit i n c = do {
     assert_that (n < limit);
     (r, c) \<leftarrow> vfifo_read_loop A D i n (rindex c) c;
     (t, c) \<leftarrow> storage_get D r c;
     assert_that (col_get A t = i);
     Some (storage c ! r, c)
   }"

definition vfifo_write :: "nat \<Rightarrow> nat \<Rightarrow> 'a \<Rightarrow> ('a, 'z) qws_scheme \<Rightarrow> ('a, 'z) qws_scheme option" where
  "vfifo_write limit n t c = do {
     assert_that (n < limit);
     let w = windex c + n;
     let w = (if w \<ge> fsize c then w - fsize c else w);
     Some (c\<lparr>storage := (storage c)[w := cell_put t (storage c ! w)]\<rparr>)
   }"

definition vo_commStart :: "math_lib \<Rightarrow> 'a colour_lib \<Rightarrow> 'e event_lib \<Rightarrow> 'a option \<Rightarrow> nat \<Rightarrow> nat \<Rightarrow>
    ('a, 'e) mux \<Rightarrow> ('a, 'e) mux option" where
  "vo_commStart L A E D i n c = do {
     v \<leftarrow> map_of (vOutlets c) i;
     assert_that (vo_countAvailable v \<ge> n);
     let k = vo_countAvailable v - n;
     let c = c\<lparr>vOutlets := vout_upd i (\<lambda>v. v\<lparr>vo_countAvailable := k,
       vo_emmAvailable := decreasedCount E k (vo_emmAvailable v)\<rparr>) (vOutlets c)\<rparr>;
     mux_consume L A E D i n c
   }"

definition vo_commFinish :: "math_lib \<Rightarrow> 'e event_lib \<Rightarrow> nat \<Rightarrow> bool \<Rightarrow> ('a, 'e) mux \<Rightarrow> ('a, 'e) mux option" where
  "vo_commFinish L E n dropped c = do {
     assert_that (\<not> dropped);
     mux_readConsumeEventExpired L E n c
   }"

definition vo_commExec :: "math_lib \<Rightarrow> 'a colour_lib \<Rightarrow> 'e event_lib \<Rightarrow> 'a option \<Rightarrow> nat \<Rightarrow> nat \<Rightarrow>
    ('a, 'e) mux \<Rightarrow> ('a, 'e) mux option" where
  "vo_commExec L A E D i n c = do {
     c \<leftarrow> vo_commStart L A E D i n c;
     vo_commFinish L E n False c
   }"

definition vo_dataAvailableEvent :: "'e event_lib \<Rightarrow> nat \<Rightarrow> nat \<Rightarrow> ('a, 'e) mux \<Rightarrow> ('e \<times> ('a, 'e) mux) option" where
  "vo_dataAvailableEvent E i n c = do {
     v \<leftarrow> map_of (vOutlets c) i;
     (e, m) \<leftarrow> getEvent_at E (vo_countAvailable v) n (vo_emmAvailable v);
     Some (e, c\<lparr>vOutlets := vout_upd i (\<lambda>v. v\<lparr>vo_emmAvailable := m\<rparr>) (vOutlets c)\<rparr>)
   }"

definition vo_numAvailable :: "nat \<Rightarrow> ('a, 'e) mux \<Rightarrow> nat option" where
  "vo_numAvailable i c = map_option vo_countAvailable (map_of (vOutlets c) i)"

text \<open>The loop that colours the tokens written, \<open>k\<close> of them from cell \<open>w\<close>.\<close>

fun colour_loop :: "'a colour_lib \<Rightarrow> 'a option \<Rightarrow> nat \<Rightarrow> nat \<Rightarrow> nat \<Rightarrow> ('a, 'z) qws_scheme \<Rightarrow> ('a, 'z) qws_scheme option" where
  "colour_loop A D i w 0 c = Some c"
| "colour_loop A D i w (Suc k) c = do {
     (t, c) \<leftarrow> storage_get D w c;
     let c = c\<lparr>storage := (storage c)[w := Some (col_put A i t)]\<rparr>;
     let w = w + 1;
     colour_loop A D i (if w \<ge> fsize c then w - fsize c else w) k c
   }"

definition ve_commStart :: "math_lib \<Rightarrow> 'a colour_lib \<Rightarrow> 'e event_lib \<Rightarrow> 'a option \<Rightarrow> nat \<Rightarrow> nat \<Rightarrow>
    ('a, 'e) mux \<Rightarrow> ('a, 'e) mux option" where
  "ve_commStart L A E D i n c = do {
     c \<leftarrow> colour_loop A D i (windex c) n c;
     c \<leftarrow> frv_wpp L n c;
     Some (c\<lparr>emmFree := decreasedCount E (frv_freeCount L c) (emmFree c)\<rparr>)
   }"

definition ve_commFinish :: "math_lib \<Rightarrow> 'a colour_lib \<Rightarrow> 'e event_lib \<Rightarrow> 'a option \<Rightarrow> nat \<Rightarrow> bool \<Rightarrow>
    ('a, 'e) mux \<Rightarrow> ('a, 'e) mux option" where
  "ve_commFinish L A E D n dropped c = do {
     assert_that (\<not> dropped);
     mux_latencyExpired L A E D n c
   }"

definition ve_commExec :: "math_lib \<Rightarrow> 'a colour_lib \<Rightarrow> 'e event_lib \<Rightarrow> 'a option \<Rightarrow> nat \<Rightarrow> nat \<Rightarrow>
    ('a, 'e) mux \<Rightarrow> ('a, 'e) mux option" where
  "ve_commExec L A E D i n c = do {
     c \<leftarrow> ve_commStart L A E D i n c;
     ve_commFinish L A E D n False c
   }"

section \<open>Initialisers\<close>

text \<open>
  \<^verbatim>\<open>smoc_multiplex_fifo\<close>: the channel is created by the first \<^verbatim>\<open>getVirtFifo\<close>; until then initial tokens
  are collected, and later only the virtual FIFOs may add some, in their colour.
\<close>

record ('a, 'e) mux_init =
  mi_n :: nat
  mi_m :: nat
  mi_marking :: "'a list"
  mi_fifoIdCount :: nat
  mi_chan :: "('a, 'e) mux option"

definition mk_mux_init :: "nat \<Rightarrow> nat \<Rightarrow> ('a, 'e) mux_init" where
  "mk_mux_init n m = \<lparr>mi_n = n, mi_m = m, mi_marking = [], mi_fifoIdCount = 0, mi_chan = None\<rparr>"

definition mi_add :: "'a \<Rightarrow> ('a, 'e) mux_init \<Rightarrow> ('a, 'e) mux_init option" where
  "mi_add x i = do {
     assert_that (mi_chan i = None);
     Some (i\<lparr>mi_marking := mi_marking i @ [x]\<rparr>)
   }"

definition mi_getChan :: "('a, 'e) mux_init \<Rightarrow> (('a, 'e) mux \<times> ('a, 'e) mux_init) option" where
  "mi_getChan i = (case mi_chan i of
       Some c \<Rightarrow> Some (c, i)
     | None \<Rightarrow> do { c \<leftarrow> mk_mux (mi_n i) (mi_m i) (mi_marking i); Some (c, i\<lparr>mi_chan := Some c\<rparr>) })"

definition getVirtFifo :: "('a, 'e) mux_init \<Rightarrow> (nat \<times> ('a, 'e) mux_init) option" where
  "getVirtFifo i = do {
     (c, i) \<leftarrow> mi_getChan i;
     Some (mi_fifoIdCount i, i\<lparr>mi_fifoIdCount := mi_fifoIdCount i + 1\<rparr>)
   }"

definition vfifo_add :: "'a colour_lib \<Rightarrow> nat \<Rightarrow> 'a \<Rightarrow> ('a, 'e) mux \<Rightarrow> ('a, 'e) mux" where
  "vfifo_add A i x c = c\<lparr>initialTokens := initialTokens c @ [col_put A i x]\<rparr>"

section \<open>Cells by their distance from the read pointer\<close>

lemma mux_parts [simp]:
  "frv_areas (c\<lparr>vOutlets := x\<rparr>) = frv_areas c" "frv_areas (c\<lparr>emmFree := y\<rparr>) = frv_areas c"
  "frv_areas (c\<lparr>emmAvailable := y\<rparr>) = frv_areas c"
  "qws_inv (c\<lparr>vOutlets := x\<rparr>) = qws_inv c" "qws_inv (c\<lparr>emmFree := y\<rparr>) = qws_inv c"
  "qws_inv (c\<lparr>emmAvailable := y\<rparr>) = qws_inv c"
  "ring_cells (c\<lparr>vOutlets := x\<rparr>) = ring_cells c" "ring_cells (c\<lparr>emmFree := y\<rparr>) = ring_cells c"
  "ring_cells (c\<lparr>emmAvailable := y\<rparr>) = ring_cells c"
  "used_cells (c\<lparr>vOutlets := x\<rparr>) = used_cells c" "used_cells (c\<lparr>emmFree := y\<rparr>) = used_cells c"
  "used_cells (c\<lparr>emmAvailable := y\<rparr>) = used_cells c"
  "depthCount (c\<lparr>vOutlets := x\<rparr>) = depthCount c" "depthCount (c\<lparr>emmFree := y\<rparr>) = depthCount c"
  "depthCount (c\<lparr>emmAvailable := y\<rparr>) = depthCount c"
  by (simp_all add: frv_areas_def qws_inv_def frv_inv_def rvw_inv_def rw_inv_def used_cells_def
      ring_cells_def depthCount_def)

lemma storage_get_cell:
  fixes q :: "('a, 'z) qws_scheme"
  assumes "qws_inv q" "j < fsize q" "ring_cells q ! j = Some t"
  shows "storage_get D (ring_step (fsize q) (rindex q) j) q = Some (t, q)"
proof -
  have len: "length (storage q) = fsize q" and b: "rindex q < fsize q"
    using assms(1) frv_inv_bounds [of q] by (auto simp: qws_inv_def)
  let ?i = "ring_step (fsize q) (rindex q) j"
  have "storage q ! ?i = Some t"
    using rotate_nth_step [of "rindex q" "storage q" j] b assms(2,3) len by (simp add: ring_cells_def)
  moreover from this have "(storage q)[?i := Some t] = storage q" by (metis list_update_id)
  ultimately show ?thesis by (simp add: storage_get_def cell_get_def)
qed

lemma storage_put_cell:
  fixes q :: "('a, 'z) qws_scheme"
  assumes "qws_inv q" "j < fsize q"
  shows "ring_cells (q\<lparr>storage := (storage q)[ring_step (fsize q) (rindex q) j := x]\<rparr>) = (ring_cells q)[j := x]"
    and "qws_inv (q\<lparr>storage := (storage q)[i := x]\<rparr>)"
proof -
  have len: "length (storage q) = fsize q" and b: "rindex q < fsize q"
    using assms(1) frv_inv_bounds [of q] by (auto simp: qws_inv_def)
  show "ring_cells (q\<lparr>storage := (storage q)[ring_step (fsize q) (rindex q) j := x]\<rparr>) = (ring_cells q)[j := x]"
    using rotate_update [of "storage q" "fsize q" "rindex q" j x] b assms(2) len by (simp add: ring_cells_def)
  show "qws_inv (q\<lparr>storage := (storage q)[i := x]\<rparr>)"
    using assms(1) by (simp add: qws_inv_def storage_parts)
qed

lemma used_as_cells:
  assumes "qws_inv q" "used_cells q = map Some xs" "j < length xs"
  shows "j < fsize q" "ring_cells q ! j = Some (xs ! j)"
proof -
  have "length xs \<le> depthCount q" using used_cells_room(1) [OF assms(1)] assms(2) by simp
  then show "j < fsize q" using assms(1,3) by (simp add: depthCount_def qws_inv_def)
  have "used_cells q ! j = Some (xs ! j)" using assms(2,3) by simp
  then show "ring_cells q ! j = Some (xs ! j)" using assms(2,3)
    by (metis length_map length_take min_less_iff_conj nth_take used_cells_def)
qed

lemma mg_sub_step: "mg_laws L \<Longrightarrow> r < m \<Longrightarrow> 0 < a \<Longrightarrow> a < m \<Longrightarrow> mg_sub L m (ring_step m r a) 1 = ring_step m r (a - 1)"
  by (subst mg_sub_law) (auto simp: ring_step_def mod_less_double)

lemma ring_step_Suc: "r < m \<Longrightarrow> Suc a \<le> m \<Longrightarrow> mg_laws L \<Longrightarrow> mg_add L m (ring_step m r a) 1 = ring_step m r (Suc a)"
  using ring_step_step [of r m a 1] by simp

lemma ring_step_next: "r < m \<Longrightarrow> Suc a \<le> m \<Longrightarrow> (ring_step m r a + 1) mod m = ring_step m r (Suc a)"
  using ring_step_step [of r m a 1] ring_step_mod [of "ring_step m r a" m 1] ring_step_less [of r m a] by simp

section \<open>The tokens that enter the out-of-order area\<close>

abbreviation of_colour :: "'a colour_lib \<Rightarrow> nat \<Rightarrow> 'a \<Rightarrow> bool" where
  "of_colour A i t \<equiv> col_get A t = i"

definition ccount :: "'a colour_lib \<Rightarrow> nat \<Rightarrow> 'a list \<Rightarrow> nat" where
  "ccount A i ts = length (filter (of_colour A i) ts)"

lemma ccount_simps [simp]:
  "ccount A i [] = 0" "ccount A i (t # ts) = (if of_colour A i t then 1 else 0) + ccount A i ts"
  "ccount A i (ts @ us) = ccount A i ts + ccount A i us"
  by (simp_all add: ccount_def)

text \<open>Every outlet knows its number of tokens, and its events are right.\<close>

definition vo_ok :: "'e event_lib \<Rightarrow> nat \<Rightarrow> 'e vfifo_outlet \<Rightarrow> bool" where
  "vo_ok E n v \<longleftrightarrow> vo_countAvailable v = n \<and> emm_ok E n (vo_emmAvailable v) \<and>
     0 \<notin> set (map fst (vo_emmAvailable v))"

definition counted :: "'e event_lib \<Rightarrow> (nat \<Rightarrow> nat) \<Rightarrow> (nat \<times> 'e vfifo_outlet) list \<Rightarrow> bool" where
  "counted E f vs \<longleftrightarrow> (\<forall>(i, v) \<in> set vs. vo_ok E (f i) v)"

lemma vo_moreData_ok: "event_laws E \<Longrightarrow> vo_ok E n v \<Longrightarrow> vo_ok E (n + k) (vo_moreData E k v)"
  by (simp add: vo_ok_def vo_moreData_def Let_def increasedCount_ok [of E n] del: set_map)

lemma vout_upd_fst [simp]: "map fst (vout_upd i f vs) = map fst vs"
  by (auto simp: vout_upd_def)

lemma counted_upd:
  assumes "counted E f vs" "\<And>v. vo_ok E (f i) v \<Longrightarrow> vo_ok E k (g v)"
  shows "counted E (f(i := k)) (vout_upd i g vs)"
  using assms by (auto simp: counted_def vout_upd_def split: if_splits)

lemma tell_all_counted:
  assumes "event_laws E" "counted E f (vOutlets c)" "\<forall>t \<in> set ts. col_get A t \<in> fst ` set (vOutlets c)"
  shows "\<exists>vs. tell_all A E ts c = Some (c\<lparr>vOutlets := vs\<rparr>) \<and> map fst vs = map fst (vOutlets c) \<and>
    counted E (\<lambda>i. f i + ccount A i ts) vs"
  using assms(2,3)
proof (induction ts arbitrary: c f)
  case Nil
  then show ?case by (simp add: exI [of _ "vOutlets c"])
next
  case (Cons t ts)
  let ?i = "col_get A t"
  let ?vs = "vout_upd ?i (vo_moreData E 1) (vOutlets c)"
  have c: "counted E (f(?i := f ?i + 1)) ?vs"
    using Cons.prems(1) vo_moreData_ok [OF assms(1)] by (rule counted_upd)
  have fst: "fst ` set ?vs = fst ` set (vOutlets c)" by (metis list.set_map vout_upd_fst)
  let ?c = "c\<lparr>vOutlets := ?vs\<rparr>"
  have "counted E (f(?i := f ?i + 1)) (vOutlets ?c)" "\<forall>t \<in> set ts. col_get A t \<in> fst ` set (vOutlets ?c)"
    using c Cons.prems(2) fst by simp_all
  from Cons.IH [OF this] obtain vs where "tell_all A E ts ?c = Some (?c\<lparr>vOutlets := vs\<rparr>)"
      "map fst vs = map fst (vOutlets ?c)" and cnt: "counted E (\<lambda>i. (f(?i := f ?i + 1)) i + ccount A i ts) vs"
    by blast
  then have vs: "tell_all A E ts ?c = Some (c\<lparr>vOutlets := vs\<rparr>)" "map fst vs = map fst (vOutlets c)" by simp_all
  have "(\<lambda>i. (f(?i := f ?i + 1)) i + ccount A i ts) = (\<lambda>i. f i + ccount A i (t # ts))" by auto
  with cnt have "counted E (\<lambda>i. f i + ccount A i (t # ts)) vs" by simp
  then show ?case using vs Cons.prems(2) by (auto simp: tell_outlet_def)
qed

lemma enter_loop_tells:
  assumes "qws_inv c" "used_cells c = map Some xs" "j \<le> k" "k \<le> length xs"
  shows "enter_loop A E D (ring_step (fsize c) (rindex c) j) (ring_step (fsize c) (rindex c) k) c =
    tell_all A E (take (k - j) (drop j xs)) c"
  using assms
proof (induction "k - j" arbitrary: j c)
  case 0
  then show ?case by (simp add: enter_loop.simps)
next
  case (Suc n)
  have j: "j < length xs" "Suc j \<le> k" using Suc.hyps(2) Suc.prems(4) by linarith+
  note x = used_as_cells [OF Suc.prems(1,2) j(1)]
  have b: "rindex c < fsize c" using frv_inv_bounds(1) [OF qws_inv_frv [OF Suc.prems(1)]] .
  have "length xs \<le> depthCount c" using used_cells_room(1) [OF Suc.prems(1)] Suc.prems(2) by simp
  then have k: "k < fsize c" using Suc.prems(4) x(1) unfolding depthCount_def by linarith
  have ne: "ring_step (fsize c) (rindex c) j \<noteq> ring_step (fsize c) (rindex c) k"
    using ring_step_inj [OF b x(1) k] j(2) by simp
  have "k - j = Suc (k - Suc j)" using j(2) by simp
  moreover have "drop j xs = xs ! j # drop (Suc j) xs" by (rule Cons_nth_drop_Suc [symmetric, OF j(1)])
  ultimately have ts: "take (k - j) (drop j xs) = xs ! j # take (k - Suc j) (drop (Suc j) xs)" by simp
  have next_x: "(ring_step (fsize c) (rindex c) j + 1) mod fsize c = ring_step (fsize c) (rindex c) (Suc j)"
    using ring_step_next [OF b, of j] x(1) by simp
  show ?case
  proof (cases "tell_outlet E (col_get A (xs ! j)) c")
    case None
    then show ?thesis
      using ne storage_get_cell [OF Suc.prems(1) x] by (simp add: enter_loop.simps [of A E D "ring_step (fsize c) (rindex c) j"] ts)
  next
    case (Some c1)
    then obtain vs where c1: "c1 = c\<lparr>vOutlets := vs\<rparr>" by (auto simp: tell_outlet_def split: if_splits)
    have "enter_loop A E D (ring_step (fsize c1) (rindex c1) (Suc j)) (ring_step (fsize c1) (rindex c1) k) c1 =
        tell_all A E (take (k - Suc j) (drop (Suc j) xs)) c1"
      using Suc.hyps(2) Suc.prems j by (intro Suc.hyps(1)) (simp_all add: c1)
    then show ?thesis
      using ne storage_get_cell [OF Suc.prems(1) x] Some next_x
      by (simp add: enter_loop.simps [of A E D "ring_step (fsize c) (rindex c) j"] ts c1)
  qed
qed

section \<open>Taking the tokens of a colour out of the queue\<close>

text \<open>The position of the \<open>k\<close>-th element with \<open>P\<close>, counted from 0, and the list without the first \<open>n\<close>.\<close>

fun nth_pos :: "('a \<Rightarrow> bool) \<Rightarrow> nat \<Rightarrow> 'a list \<Rightarrow> nat" where
  "nth_pos P k [] = 0"
| "nth_pos P k (x # xs) = (if P x then (case k of 0 \<Rightarrow> 0 | Suc k \<Rightarrow> Suc (nth_pos P k xs)) else Suc (nth_pos P k xs))"

fun remove_first :: "('a \<Rightarrow> bool) \<Rightarrow> nat \<Rightarrow> 'a list \<Rightarrow> 'a list" where
  "remove_first P 0 xs = xs"
| "remove_first P (Suc n) [] = []"
| "remove_first P (Suc n) (x # xs) = (if P x then remove_first P n xs else x # remove_first P (Suc n) xs)"

lemma nth_pos_found:
  "k < length (filter P xs) \<Longrightarrow> nth_pos P k xs < length xs \<and> P (xs ! nth_pos P k xs) \<and>
   length (filter P (take (nth_pos P k xs) xs)) = k"
  by (induction P k xs rule: nth_pos.induct) (auto split: nat.splits)

lemma remove_first_pos:
  "n < length (filter P xs) \<Longrightarrow>
   remove_first P (Suc n) xs = filter (\<lambda>x. \<not> P x) (take (nth_pos P n xs) xs) @ drop (Suc (nth_pos P n xs)) xs"
proof (induction xs arbitrary: n)
  case (Cons x xs)
  then show ?case by (cases n) (auto split: if_splits)
qed simp

lemma nth_pos_bound: "k < length (filter P (take m xs)) \<Longrightarrow> nth_pos P k xs < m"
proof (induction xs arbitrary: k m)
  case (Cons x xs)
  then show ?case by (cases m; cases k) (auto split: if_splits)
qed simp

lemma length_remove_first: "n \<le> length (filter P xs) \<Longrightarrow> length (remove_first P n xs) = length xs - n"
proof (induction P n xs rule: remove_first.induct)
  case (3 P n x xs)
  show ?case
  proof (cases "P x")
    case False
    then have "Suc n \<le> length xs" using "3.prems" by (auto intro: order_trans [OF _ length_filter_le [of P xs]])
    then show ?thesis using 3 False by (simp add: Suc_diff_Suc)
  qed (use 3 in simp)
qed simp_all

lemma remove_first_append:
  "n \<le> length (filter P xs) \<Longrightarrow> remove_first P n (xs @ ys) = remove_first P n xs @ ys"
  by (induction P n xs rule: remove_first.induct) (auto split: if_splits)

lemma take_remove_first:
  assumes "n \<le> length (filter P (take m xs))"
  shows "take (m - n) (remove_first P n xs) = remove_first P n (take m xs)"
proof (cases "m \<le> length xs")
  case True
  have "remove_first P n xs = remove_first P n (take m xs) @ drop m xs"
    using remove_first_append [OF assms, of "drop m xs"] by simp
  then show ?thesis using length_remove_first [OF assms] True by simp
next
  case False
  then show ?thesis using assms length_remove_first [of n P xs] by simp
qed

lemma ccount_remove_first:
  "n \<le> length (filter (of_colour A i) xs) \<Longrightarrow>
   ccount A j (remove_first (of_colour A i) n xs) = (if j = i then ccount A j xs - n else ccount A j xs)"
proof (induction "of_colour A i" n xs rule: remove_first.induct)
  case (3 n x xs)
  then show ?case by (auto simp: ccount_def)
qed (simp_all add: ccount_def)

text \<open>The search loops stop at that position.\<close>

lemma visible_pos_less:
  assumes "mg_laws L" "qws_inv c" "j < area_V (frv_areas c)"
  shows "visible_pos L (ring_step (fsize c) (rindex c) j) c"
proof -
  note b = frv_inv_bounds [OF qws_inv_frv [OF assms(2)]] and s = frv_inv_split [OF qws_inv_frv [OF assms(2)]]
  let ?v = "ring_dist (fsize c) (rindex c) (vindex c)"
  have v: "j < ?v" "?v < fsize c" using assms(3) ring_dist_less [OF b(1,3)] by (auto simp: frv_areas_def)
  have "vindex c = ring_step (fsize c) (rindex c) ?v" using b by simp
  then have "mg_sub L (fsize c) (vindex c) 1 = ring_step (fsize c) (rindex c) (?v - 1)"
    using mg_sub_step [OF assms(1) b(1), of ?v] v by simp
  then show ?thesis using assms(1) b v by (simp add: visible_pos_def)
qed

lemma find_next_pos:
  assumes "mg_laws L" "qws_inv c" "used_cells c = map Some xs" "j \<le> area_V (frv_areas c)"
    and "0 < length (filter (of_colour A i) (drop j (take (area_V (frv_areas c)) xs)))"
  shows "find_next L A D i (ring_step (fsize c) (rindex c) j) c =
    Some (ring_step (fsize c) (rindex c) (j + nth_pos (of_colour A i) 0 (drop j (take (area_V (frv_areas c)) xs))), c)"
  using assms(4,5)
proof (induction "area_V (frv_areas c) - j" arbitrary: j)
  case 0
  then show ?case by simp
next
  case (Suc n)
  have len: "area_V (frv_areas c) \<le> length xs" using used_cells_areas [OF assms(2)] assms(3) by simp
  have j: "j < area_V (frv_areas c)" "j < length xs" using Suc.hyps(2) len by linarith+
  note x = used_as_cells [OF assms(2,3) j(2)]
  have b: "rindex c < fsize c" using frv_inv_bounds(1) [OF qws_inv_frv [OF assms(2)]] .
  have d: "drop j (take (area_V (frv_areas c)) xs) = xs ! j # drop (Suc j) (take (area_V (frv_areas c)) xs)"
    using j len by (simp add: Cons_nth_drop_Suc [symmetric])
  show ?case
  proof (cases "of_colour A i (xs ! j)")
    case True
    then show ?thesis using storage_get_cell [OF assms(2) x]
      by (simp add: find_next.simps [of L A D i "ring_step (fsize c) (rindex c) j"] d)
  next
    case False
    have "find_next L A D i (ring_step (fsize c) (rindex c) (Suc j)) c =
      Some (ring_step (fsize c) (rindex c) (Suc j + nth_pos (of_colour A i) 0 (drop (Suc j) (take (area_V (frv_areas c)) xs))), c)"
      using Suc.hyps(2) Suc.prems(2) j False d by (intro Suc.hyps(1)) auto
    then show ?thesis
      using storage_get_cell [OF assms(2) x] visible_pos_less [OF assms(1,2) j(1)] ring_step_Suc [OF b _ assms(1), of j] False x(1)
      by (simp add: find_next.simps [of L A D i "ring_step (fsize c) (rindex c) j"] d)
  qed
qed

lemma find_pos:
  assumes "mg_laws L" "qws_inv c" "used_cells c = map Some xs" "j \<le> area_V (frv_areas c)"
    and "n < length (filter (of_colour A i) (drop j (take (area_V (frv_areas c)) xs)))"
  shows "(find_nth L A D i (Suc n) (ring_step (fsize c) (rindex c) j) c \<bind> (\<lambda>(d, c). find_next L A D i d c)) =
    Some (ring_step (fsize c) (rindex c) (j + nth_pos (of_colour A i) n (drop j (take (area_V (frv_areas c)) xs))), c)"
  using assms(4,5)
proof (induction "area_V (frv_areas c) - j" arbitrary: j n)
  case 0
  then show ?case by simp
next
  case (Suc k)
  have len: "area_V (frv_areas c) \<le> length xs" using used_cells_areas [OF assms(2)] assms(3) by simp
  have j: "j < area_V (frv_areas c)" "j < length xs" using Suc.hyps(2) len by linarith+
  note x = used_as_cells [OF assms(2,3) j(2)]
  have b: "rindex c < fsize c" using frv_inv_bounds(1) [OF qws_inv_frv [OF assms(2)]] .
  have d: "drop j (take (area_V (frv_areas c)) xs) = xs ! j # drop (Suc j) (take (area_V (frv_areas c)) xs)"
    using j len by (simp add: Cons_nth_drop_Suc [symmetric])
  show ?case
  proof (cases n)
    case 0
    then show ?thesis using find_next_pos [OF assms(1-3) Suc.prems(1)] Suc.prems(2)
      by (simp add: find_nth.simps [of L A D i "Suc 0"])
  next
    case (Suc m)
    let ?m = "if of_colour A i (xs ! j) then m else Suc m"
    have "(find_nth L A D i (Suc ?m) (ring_step (fsize c) (rindex c) (Suc j)) c \<bind> (\<lambda>(d, c). find_next L A D i d c)) =
      Some (ring_step (fsize c) (rindex c) (Suc j + nth_pos (of_colour A i) ?m (drop (Suc j) (take (area_V (frv_areas c)) xs))), c)"
      using Suc.hyps(2) Suc.prems(2) Suc j d by (intro Suc.hyps(1)) auto
    then show ?thesis
      using storage_get_cell [OF assms(2) x] visible_pos_less [OF assms(1,2) j(1)] ring_step_Suc [OF b _ assms(1), of j] x(1)
      by (simp add: find_nth.simps [of L A D i "Suc (Suc m)"] Suc d split: if_splits)
  qed
qed

text \<open>The way back: the tokens of other colours below \<open>a\<close> end up just below \<open>b + 1\<close>.\<close>

lemma move_others_cells:
  assumes "mg_laws L" "qws_inv c" "ring_cells c = map Some ys @ rest" "a \<le> b" "b < length ys"
  shows "\<exists>c' st. move_others L A D i (ring_step (fsize c) (rindex c) a) (ring_step (fsize c) (rindex c) b) c = Some c' \<and>
    c' = c\<lparr>storage := st\<rparr> \<and> qws_inv c' \<and>
    ring_cells c' = map Some (take (b + 1 - length (filter (\<lambda>t. \<not> of_colour A i t) (take a ys))) ys @
      filter (\<lambda>t. \<not> of_colour A i t) (take a ys) @ drop (b + 1) ys) @ rest"
  using assms(2-)
proof (induction a arbitrary: b c ys)
  case 0
  have "rindex c < fsize c" using frv_inv_bounds(1) [OF qws_inv_frv [OF "0.prems"(1)]] .
  moreover have "map Some ys = map Some (take (b + 1) ys @ drop (b + 1) ys)" by simp
  ultimately show ?case using "0.prems"
    by (intro exI [of _ c] exI [of _ "storage c"])
      (simp add: move_others.simps [of L A D i "rindex c"] del: append_take_drop_id)
next
  case (Suc a)
  let ?m = "fsize c" and ?r = "rindex c" and ?P = "\<lambda>t. \<not> of_colour A i t"
  have m: "length (ring_cells c) = ?m" using Suc.prems(1) by (simp add: qws_inv_def)
  then have len: "length ys \<le> ?m" using Suc.prems(2) by simp
  have b: "?r < ?m" "b < ?m" using frv_inv_bounds(1) [OF qws_inv_frv [OF Suc.prems(1)]] Suc.prems(4) len by simp_all
  have ne: "ring_step ?m ?r (Suc a) \<noteq> ?r"
    using ring_step_inj [OF b(1), of "Suc a" 0] b Suc.prems(3) by simp
  have s: "mg_sub L ?m (ring_step ?m ?r (Suc a)) 1 = ring_step ?m ?r a"
      "mg_sub L ?m (ring_step ?m ?r b) 1 = ring_step ?m ?r (b - 1)"
    using mg_sub_step [OF assms(1) b(1), of "Suc a"] mg_sub_step [OF assms(1) b(1), of b] b Suc.prems(3) by simp_all
  have bt: "mg_between L ?m (ring_step ?m ?r a) ?r (ring_step ?m ?r (b - 1))"
    using assms(1) b Suc.prems(3) by simp
  have g: "storage_get D (ring_step ?m ?r a) c = Some (ys ! a, c)"
    using Suc.prems b by (intro storage_get_cell) (simp_all add: nth_append)
  have t: "take (Suc a) ys = take a ys @ [ys ! a]"
    using Suc.prems(3,4) by (simp add: take_Suc_conv_app_nth)
  show ?case
  proof (cases "of_colour A i (ys ! a)")
    case True
    obtain c' st where "move_others L A D i (ring_step ?m ?r a) (ring_step ?m ?r b) c = Some c'"
      "c' = c\<lparr>storage := st\<rparr>" "qws_inv c'"
      "ring_cells c' = map Some (take (b + 1 - length (filter ?P (take a ys))) ys @ filter ?P (take a ys) @ drop (b + 1) ys) @ rest"
      using Suc.IH [OF Suc.prems(1,2) _ Suc.prems(4)] Suc.prems(3) by auto
    then show ?thesis using ne s bt g True t
      by (intro exI [of _ c'] exI [of _ st]) (simp add: move_others.simps [of L A D i "ring_step ?m ?r (Suc a)"] Let_def)
  next
    case False
    let ?c = "c\<lparr>storage := (storage c)[ring_step ?m ?r b := Some (ys ! a)]\<rparr>"
    let ?ys = "ys[b := ys ! a]"
    have c: "qws_inv ?c" "ring_cells ?c = map Some ?ys @ rest"
      using storage_put_cell [OF Suc.prems(1) b(2)] Suc.prems(2,4) by (simp_all add: list_update_append map_update)
    have "a \<le> b - 1" "b - 1 < length ?ys" using Suc.prems(3,4) by simp_all
    from Suc.IH [OF c this] obtain c' st where
      x: "move_others L A D i (ring_step ?m ?r a) (ring_step ?m ?r (b - 1)) ?c = Some c'"
      "c' = ?c\<lparr>storage := st\<rparr>" "qws_inv c'"
      "ring_cells c' = map Some (take (b - 1 + 1 - length (filter ?P (take a ?ys))) ?ys @ filter ?P (take a ?ys) @ drop (b - 1 + 1) ?ys) @ rest"
      by auto
    have ta: "take a ?ys = take a ys" using Suc.prems(3) by simp
    let ?k = "length (filter ?P (take a ys))"
    have "?k \<le> a" using length_filter_le [of ?P "take a ys"] Suc.prems(3,4) by simp
    then have k: "b - ?k \<le> b" "b - 1 + 1 = b" "b + 1 - Suc ?k = b - ?k" using Suc.prems(3) by simp_all
    have "drop b ?ys = ys ! a # drop (b + 1) ys"
      using Suc.prems(4) by (simp add: drop_update_swap Cons_nth_drop_Suc [symmetric])
    moreover have "take (b - ?k) ?ys = take (b - ?k) ys" by simp
    ultimately have "ring_cells c' = map Some (take (b + 1 - length (filter ?P (take (Suc a) ys))) ys @
        filter ?P (take (Suc a) ys) @ drop (b + 1) ys) @ rest"
      using x(4) False k by (simp add: ta t)
    moreover have "c' = c\<lparr>storage := st\<rparr>" using x(2) by simp
    ultimately show ?thesis using ne s bt g False x(1,3)
      by (intro exI [of _ c'] exI [of _ st]) (simp add: move_others.simps [of L A D i "ring_step ?m ?r (Suc a)"] Let_def cell_put_def)
  qed
qed

end
