(* ===== verification/Multiplex_Refinement.thy ===== *)
theory Multiplex_Refinement
  imports Multiplex_Fifo
begin

text \<open>
  What the multiplex FIFO promises: the queue behind it, the virtual FIFOs as views of its visible tokens,
  and the counts and events of every view.  Each operation of the code implements the specification.
\<close>

section \<open>Consuming out of order\<close>

lemma nth_pos_take: "k < length (filter P (take m xs)) \<Longrightarrow> nth_pos P k (take m xs) = nth_pos P k xs"
proof (induction xs arbitrary: k m)
  case (Cons x xs)
  then show ?case by (cases m; cases k) (auto split: if_splits)
qed simp

text \<open>The part of \<open>consume\<close> that searches and moves.\<close>

definition move_to_front :: "math_lib \<Rightarrow> 'a colour_lib \<Rightarrow> 'a option \<Rightarrow> nat \<Rightarrow> nat \<Rightarrow> ('a, 'e) mux \<Rightarrow> ('a, 'e) mux option" where
  "move_to_front L A D i n c = (if n > 0 then do {
         (d, c) \<leftarrow> find_nth L A D i n (rindex c) c;
         (d, c) \<leftarrow> find_next L A D i d c;
         move_others L A D i d d c
       } else Some c)"

lemma move_to_front_cells:
  assumes "mg_laws L" "qws_inv c" "used_cells c = map Some xs"
    and "n \<le> length (filter (of_colour A i) (take (area_V (frv_areas c)) xs))"
  shows "\<exists>c' st. move_to_front L A D i n c = Some c' \<and> c' = c\<lparr>storage := st\<rparr> \<and> qws_inv c' \<and>
    drop n (used_cells c') = map Some (remove_first (of_colour A i) n xs)"
proof (cases n)
  case 0
  then show ?thesis using assms by (intro exI [of _ c] exI [of _ "storage c"]) (simp add: move_to_front_def)
next
  case (Suc m)
  let ?P = "of_colour A i" and ?V = "take (area_V (frv_areas c)) xs"
  let ?d = "nth_pos ?P m ?V"
  let ?F = "filter (\<lambda>t. \<not> ?P t) (take ?d xs)"
  have len: "area_V (frv_areas c) \<le> length xs" using used_cells_areas [OF assms(2)] assms(3) by simp
  have m: "m < length (filter ?P ?V)" using assms(4) Suc by simp
  note d = nth_pos_found [OF m]
  have dx: "?d = nth_pos ?P m xs" by (rule nth_pos_take [OF m])
  have dl: "?d < length xs" using d by simp
  have b: "rindex c < fsize c" using frv_inv_bounds(1) [OF qws_inv_frv [OF assms(2)]] .
  have cells: "ring_cells c = map Some xs @ drop (length xs) (ring_cells c)"
    using assms(3) used_cells_room [OF assms(2)]
    by (metis append_take_drop_id length_map length_used_cells [OF assms(2)] used_cells_def)
  obtain c' st where c': "move_others L A D i (ring_step (fsize c) (rindex c) ?d) (ring_step (fsize c) (rindex c) ?d) c = Some c'"
    "c' = c\<lparr>storage := st\<rparr>" "qws_inv c'"
    "ring_cells c' = map Some (take (?d + 1 - length ?F) xs @ ?F @ drop (?d + 1) xs) @ drop (length xs) (ring_cells c)"
    using move_others_cells [OF assms(1,2) cells order_refl dl] by blast
  have mx: "m < length (filter ?P xs)"
    using m by (metis append_take_drop_id filter_append length_append trans_less_add1)
  have "length (filter ?P (take ?d xs)) = m" using nth_pos_found [OF mx] unfolding dx by blast
  then have n: "?d + 1 - length ?F = n" "m + length ?F = ?d"
    using sum_length_filter_compl [of ?P "take ?d xs"] dl Suc by simp_all
  have "length (take n xs @ ?F @ drop (?d + 1) xs) = length xs" using n dl Suc by simp
  moreover have "used_cells c' = take (length xs) (ring_cells c')"
    using length_used_cells [OF assms(2)] assms(3) c'(2) by (simp add: used_cells_def [of "c\<lparr>storage := st\<rparr>"])
  ultimately have used: "used_cells c' = map Some (take n xs @ ?F @ drop (?d + 1) xs)"
    unfolding c'(4) n(1) by (simp only: take_append length_map) simp
  have "n \<le> length xs" using n dl Suc by simp
  then have "drop n (used_cells c') = map Some (?F @ drop (?d + 1) xs)" unfolding used by simp
  then have "drop n (used_cells c') = map Some (remove_first ?P n xs)"
    using remove_first_pos [OF mx] by (simp add: Suc dx)
  moreover have "move_to_front L A D i n c =
      (find_nth L A D i (Suc m) (ring_step (fsize c) (rindex c) 0) c \<bind> (\<lambda>(d, c). find_next L A D i d c)) \<bind>
      (\<lambda>(d, c). move_others L A D i d d c)"
    using Suc b by (simp add: move_to_front_def case_prod_unfold)
  then have "move_to_front L A D i n c = Some c'"
    using find_pos [OF assms(1-3), of 0 m A i D] m c'(1) by simp
  ultimately show ?thesis using c'(2,3) by blast
qed

section \<open>Specification\<close>

text \<open>
  The channel is a bounded queue as before.  A virtual FIFO \<open>i\<close> sees the tokens of colour \<open>i\<close> among the
  first \<open>k = fifoOutOfOrder + 1\<close> visible ones, and takes the first \<open>n\<close> of them out.
\<close>

datatype 'a mux_op = VPut nat "'a list" | PlainPut "'a list" | PutDone nat | VGet nat nat | GetDone nat | MuxReset

definition spec_avail :: "'a colour_lib \<Rightarrow> nat \<Rightarrow> 'a fifo_spec \<Rightarrow> nat \<Rightarrow> nat" where
  "spec_avail A k s i = ccount A i (take k (sp_V s))"

fun mux_spec_op :: "'a colour_lib \<Rightarrow> nat \<Rightarrow> nat \<Rightarrow> 'a list \<Rightarrow> 'a mux_op \<Rightarrow> 'a fifo_spec \<Rightarrow> 'a fifo_spec option" where
  "mux_spec_op A k depth init (VPut i ts) s = spec_op depth init (PutStart (map (col_put A i) ts)) s"
| "mux_spec_op A k depth init (PlainPut ts) s = spec_op depth init (PutStart ts) s"
| "mux_spec_op A k depth init (PutDone n) s = spec_op depth init (PutFinish n False) s"
| "mux_spec_op A k depth init (VGet i n) s =
     (if n \<le> spec_avail A k s i
      then Some (s\<lparr>sp_C := sp_C s + n, sp_V := remove_first (of_colour A i) n (sp_V s)\<rparr>) else None)"
| "mux_spec_op A k depth init (GetDone n) s = spec_op depth init (GetFinish n False) s"
| "mux_spec_op A k depth init MuxReset s = spec_op depth init ResetChan s"

text \<open>The code: the ports write through their ring access, then the channel is told.\<close>

fun vfifo_writes :: "nat \<Rightarrow> nat \<Rightarrow> 'a list \<Rightarrow> ('a, 'z) qws_scheme \<Rightarrow> ('a, 'z) qws_scheme option" where
  "vfifo_writes limit n [] c = Some c"
| "vfifo_writes limit n (t # ts) c = do { c \<leftarrow> vfifo_write limit n t c; vfifo_writes limit (Suc n) ts c }"

fun mux_step :: "math_lib \<Rightarrow> 'a colour_lib \<Rightarrow> 'e event_lib \<Rightarrow> 'a option \<Rightarrow> 'a mux_op \<Rightarrow> ('a, 'e) mux \<Rightarrow>
    ('a, 'e) mux option" where
  "mux_step L A E D (VPut i ts) c = do {
     c \<leftarrow> vfifo_writes (length ts) 0 ts c;
     ve_commStart L A E D i (length ts) c
   }"
| "mux_step L A E D (PlainPut ts) c = do {
     c \<leftarrow> write_tokens (length ts) 0 ts c;
     mux_entry_commStart L E (length ts) c
   }"
| "mux_step L A E D (PutDone n) c = ve_commFinish L A E D n False c"
| "mux_step L A E D (VGet i n) c = vo_commStart L A E D i n c"
| "mux_step L A E D (GetDone n) c = vo_commFinish L E n False c"
| "mux_step L A E D MuxReset c = mux_doReset L A E c"

text \<open>The invariant, and the operations a client may use: their colours have an outlet.\<close>

abbreviation colours :: "('a, 'e) mux \<Rightarrow> nat set" where
  "colours c \<equiv> fst ` set (vOutlets c)"

definition mux_counted :: "'a colour_lib \<Rightarrow> 'e event_lib \<Rightarrow> ('a, 'e) mux \<Rightarrow> bool" where
  "mux_counted A E c \<longleftrightarrow> counted E (spec_avail A (fifoOutOfOrder c + 1) (fifo_abs c)) (vOutlets c)"

definition mux_wf :: "'a colour_lib \<Rightarrow> 'e event_lib \<Rightarrow> ('a, 'e) mux \<Rightarrow> bool" where
  "mux_wf A E c \<longleftrightarrow> qws_inv c \<and> fifoOutOfOrder c + 1 \<le> depthCount c \<and> depthCount c < 2 ^ 64 \<and>
     distinct (map fst (vOutlets c)) \<and> vOutlets c \<noteq> []"

definition mux_inv :: "'a colour_lib \<Rightarrow> 'e event_lib \<Rightarrow> ('a, 'e) mux \<Rightarrow> bool" where
  "mux_inv A E c \<longleftrightarrow> mux_wf A E c \<and>
     (\<forall>x \<in> set (used_cells c). x \<noteq> None \<and> col_get A (the x) \<in> colours c) \<and>
     emm_ok E (area_F (frv_areas c)) (emmFree c) \<and> mux_counted A E c"

text \<open>The operations name only colours that have a virtual FIFO, here those in \<open>I\<close>.\<close>

fun mux_op_ok :: "'a colour_lib \<Rightarrow> nat set \<Rightarrow> 'a list \<Rightarrow> 'a mux_op \<Rightarrow> bool" where
  "mux_op_ok A I init (VPut i ts) = (i \<in> I)"
| "mux_op_ok A I init (PlainPut ts) = (\<forall>t \<in> set ts. col_get A t \<in> I)"
| "mux_op_ok A I init (VGet i n) = (i \<in> I)"
| "mux_op_ok A I init MuxReset = (\<forall>t \<in> set init. col_get A t \<in> I)"
| "mux_op_ok A I init op = True"

definition same_mux :: "('a, 'e) mux \<Rightarrow> ('a, 'e) mux \<Rightarrow> bool" where
  "same_mux c c' \<longleftrightarrow> depthCount c' = depthCount c \<and> initialTokens c' = initialTokens c \<and>
     fifoOutOfOrder c' = fifoOutOfOrder c \<and> map fst (vOutlets c') = map fst (vOutlets c)"

definition mux_implements :: "'a colour_lib \<Rightarrow> 'e event_lib \<Rightarrow> ('a, 'e) mux \<Rightarrow> ('a, 'e) mux option \<Rightarrow>
    'a fifo_spec option \<Rightarrow> bool" where
  "mux_implements A E c r s \<longleftrightarrow> map_option fifo_abs r = s \<and> pred_option (\<lambda>c'. mux_inv A E c' \<and> same_mux c c') r"

lemma mux_implements_simps:
  "mux_implements A E c (Some c') s \<longleftrightarrow> s = Some (fifo_abs c') \<and> mux_inv A E c' \<and> same_mux c c'"
  "mux_implements A E c None s \<longleftrightarrow> s = None"
  by (auto simp: mux_implements_def)

lemma same_mux_colours: "same_mux c c' \<Longrightarrow> colours c' = colours c"
  unfolding same_mux_def by (metis list.set_map)

lemma mux_abs_upd [simp]:
  "fifo_abs (c\<lparr>vOutlets := x\<rparr>) = fifo_abs c" "fifo_abs (c\<lparr>emmFree := y\<rparr>) = fifo_abs c"
  "fifo_abs (c\<lparr>emmAvailable := y\<rparr>) = fifo_abs c"
  by (simp_all add: fifo_abs_def)

lemma mux_counts [simp]:
  "rvw_visibleCount L (c\<lparr>vOutlets := x\<rparr>) = rvw_visibleCount L c"
  "rvw_visibleCount L (c\<lparr>emmFree := y\<rparr>) = rvw_visibleCount L c"
  "rvw_visibleCount L (c\<lparr>emmAvailable := y\<rparr>) = rvw_visibleCount L c"
  "frv_freeCount L (c\<lparr>vOutlets := x\<rparr>) = frv_freeCount L c"
  "frv_freeCount L (c\<lparr>emmFree := y\<rparr>) = frv_freeCount L c"
  "frv_freeCount L (c\<lparr>emmAvailable := y\<rparr>) = frv_freeCount L c"
  by (simp_all add: rvw_visibleCount_def frv_freeCount_def)

lemma vfifo_writes_eq: "vfifo_writes limit n ts c = write_tokens limit n ts c"
  by (induction ts arbitrary: n c)
    (simp_all add: vfifo_write_def write_token_def ring_index_def Let_def bind_eq_Some_iff cong: bind_option_cong split: if_splits)

section \<open>The counts of the virtual FIFOs\<close>

text \<open>What enters the window of the first \<open>k\<close> visible tokens when \<open>n\<close> tokens of colour \<open>i\<close> leave.\<close>

lemma ccount_after_take:
  assumes "n \<le> ccount A i (take k V)"
  defines "V' \<equiv> remove_first (of_colour A i) n V"
  shows "((\<lambda>j. ccount A j (take k V))(i := ccount A i (take k V) - n)) j +
      ccount A j (take (min k (length V') - min (k - n) (length V')) (drop (min (k - n) (length V')) V')) =
    ccount A j (take k V')"
proof -
  let ?P = "of_colour A i"
  have n: "n \<le> length (filter ?P (take k V))" using assms(1) by (simp add: ccount_def)
  have "take (k - n) V' = remove_first ?P n (take k V)" unfolding V'_def by (rule take_remove_first [OF n])
  then have old: "((\<lambda>j. ccount A j (take k V))(i := ccount A i (take k V) - n)) j = ccount A j (take (k - n) V')"
    using ccount_remove_first [OF n, of j] by simp
  have "take k V' = take (min (k - n) (length V')) V' @
      take (min k (length V') - min (k - n) (length V')) (drop (min (k - n) (length V')) V')"
    by (subst take_add [symmetric]) (auto simp: min_def)
  moreover have "take (min (k - n) (length V')) V' = take (k - n) V'" by (simp add: min_def)
  ultimately show ?thesis using old by simp
qed

lemma ooo_minus_eq: "n \<le> k + 1 \<Longrightarrow> k + 1 < 2 ^ 64 \<Longrightarrow> ooo_minus k n = k + 1 - n"
proof -
  assume a: "n \<le> k + 1" "k + 1 < 2 ^ 64"
  have "of_nat (k + 1) - of_nat n = (of_nat (k + 1 - n) :: 64 word)" using a(1) by (simp add: of_nat_diff)
  then show "ooo_minus k n = k + 1 - n" using a by (simp add: ooo_minus_def unat_of_nat take_bit_nat_eq_self del: of_nat_diff)
qed

text \<open>The loop over the cells between two distances of at most the window tells the outlets.\<close>

lemma enter_window:
  assumes "event_laws E" "qws_inv c" "used_cells c = map Some xs" "\<forall>t \<in> set xs. col_get A t \<in> colours c"
    and "counted E f (vOutlets c)" "j \<le> k" "k \<le> area_V (frv_areas c)"
  shows "\<exists>vs. enter_loop A E D ((rindex c + j) mod fsize c) ((rindex c + k) mod fsize c) c = Some (c\<lparr>vOutlets := vs\<rparr>) \<and>
    map fst vs = map fst (vOutlets c) \<and> counted E (\<lambda>i. f i + ccount A i (take (k - j) (drop j xs))) vs"
proof -
  have len: "area_V (frv_areas c) \<le> length xs" using used_cells_areas [OF assms(2)] assms(3) by simp
  have b: "rindex c < fsize c" using frv_inv_bounds(1) [OF qws_inv_frv [OF assms(2)]] .
  have "length xs \<le> depthCount c" using used_cells_room(1) [OF assms(2)] assms(3) by simp
  then have "k \<le> fsize c" using len assms(7) by (simp add: depthCount_def)
  then have "(rindex c + j) mod fsize c = ring_step (fsize c) (rindex c) j"
      "(rindex c + k) mod fsize c = ring_step (fsize c) (rindex c) k"
    using b assms(6) by (simp_all add: ring_step_mod)
  moreover have "\<forall>t \<in> set (take (k - j) (drop j xs)). col_get A t \<in> colours c"
    using assms(4) by (meson in_set_dropD in_set_takeD)
  ultimately show ?thesis
    using enter_loop_tells [OF assms(2,3,6), of A E D] tell_all_counted [OF assms(1,5)] assms(7) len by simp
qed

lemma used_tokens:
  assumes "\<forall>x \<in> set xs. x \<noteq> None \<and> Q (the x)"
  shows "xs = map Some (map the xs)" "\<forall>t \<in> set (map the xs). Q t"
  using assms by (induction xs) auto

lemma set_remove_first: "set (remove_first P n xs) \<subseteq> set xs"
  by (induction P n xs rule: remove_first.induct) auto

lemma take_window: "l \<le> w \<Longrightarrow> take (l - j) (drop j xs) = take (l - j) (drop j (take w xs))"
  by (simp add: drop_take diff_le_mono min.absorb1)

lemma mux_consume_step:
  fixes c :: "('a, 'e) mux"
  assumes "mg_laws L" "event_laws E" "mux_wf A E c" "used_cells c = map Some xs"
    and "\<forall>t \<in> set xs. col_get A t \<in> colours c"
    and "n \<le> ccount A i (take (fifoOutOfOrder c + 1) (take (area_V (frv_areas c)) xs))"
    and "counted E ((\<lambda>j. ccount A j (take (fifoOutOfOrder c + 1) (take (area_V (frv_areas c)) xs)))
      (i := ccount A i (take (fifoOutOfOrder c + 1) (take (area_V (frv_areas c)) xs)) - n)) (vOutlets c)"
  shows "\<exists>c'. mux_consume L A E D i n c = Some c' \<and> qws_inv c' \<and> same_mux c c' \<and> emmFree c' = emmFree c \<and>
    frv_areas c' = (frv_areas c)\<lparr>area_C := area_C (frv_areas c) + n, area_V := area_V (frv_areas c) - n\<rparr> \<and>
    used_cells c' = map Some (remove_first (of_colour A i) n xs) \<and>
    counted E (\<lambda>j. ccount A j (take (fifoOutOfOrder c + 1)
      (remove_first (of_colour A i) n (take (area_V (frv_areas c)) xs)))) (vOutlets c')"
proof -
  let ?k = "fifoOutOfOrder c + 1" and ?v = "area_V (frv_areas c)" and ?P = "of_colour A i"
  let ?V = "take ?v xs"
  let ?xs' = "remove_first ?P n xs" and ?V' = "remove_first ?P n ?V"
  have q: "qws_inv c" and k: "?k < 2 ^ 64" using assms(3) unfolding mux_wf_def by linarith+
  have nk: "n \<le> length (filter ?P (take ?k ?V))" using assms(6) by (simp add: ccount_def)
  also have "length (filter ?P (take ?k ?V)) \<le> length (filter ?P ?V)"
    by (metis append_take_drop_id filter_append le_add1 length_append)
  finally have nV: "n \<le> length (filter ?P ?V)" .
  have n: "n \<le> ?k" using nk length_filter_le [of ?P "take ?k ?V"] by simp
  have v: "?v \<le> length xs" using used_cells_areas [OF q] assms(4) by simp
  then have nv: "n \<le> ?v" using nV length_filter_le [of ?P ?V] by simp
  obtain c1 st where c1: "move_to_front L A D i n c = Some c1" "c1 = c\<lparr>storage := st\<rparr>" "qws_inv c1"
      "drop n (used_cells c1) = map Some ?xs'"
    using move_to_front_cells [OF assms(1) q assms(4) nV] by blast
  have ar: "frv_areas c1 = frv_areas c" using c1(2) by (simp add: storage_parts)
  obtain c2 where c2: "qws_rpp L n c1 = Some c2" "qws_inv c2"
      "frv_areas c2 = (frv_areas c)\<lparr>area_C := area_C (frv_areas c) + n, area_V := ?v - n\<rparr>"
      "used_cells c2 = map Some ?xs'" "c2 = c1\<lparr>rindex := rindex c2, storage := storage c2\<rparr>"
    using qws_rpp_step [OF assms(1) c1(3), of n] c1(4) ar nv by auto
  have c2c: "c2 = c\<lparr>rindex := rindex c2, storage := storage c2\<rparr>" using c2(5) unfolding c1(2) by simp
  have vc: "rvw_visibleCount L c2 = ?v - n"
    using frv_area_counts(1) [OF assms(1) qws_inv_frv [OF c2(2)]] c2(3) by simp
  define c3 where "c3 = c2\<lparr>emmAvailable := decreasedCount E (rvw_visibleCount L c2) (emmAvailable c2)\<rparr>"
  have same: "vOutlets c3 = vOutlets c" "fifoOutOfOrder c3 = fifoOutOfOrder c" "emmFree c3 = emmFree c"
      "depthCount c3 = depthCount c" "initialTokens c3 = initialTokens c"
    unfolding c3_def by (subst c2c, simp add: depthCount_def)+
  have q3: "qws_inv c3" "used_cells c3 = map Some ?xs'" "rvw_visibleCount L c3 = ?v - n"
      "frv_areas c3 = (frv_areas c)\<lparr>area_C := area_C (frv_areas c) + n, area_V := ?v - n\<rparr>"
    unfolding c3_def using c2(2,3,4) vc by simp_all
  have tV: "take (?v - n) ?xs' = ?V'" by (rule take_remove_first [OF nV])
  have lV: "length ?V' = ?v - n" using length_remove_first [OF nV] v by simp
  have reg: "\<forall>t \<in> set ?xs'. col_get A t \<in> colours c3"
    using assms(5) set_remove_first [of ?P n xs] same(1) by auto
  let ?f = "(\<lambda>j. ccount A j (take ?k ?V))(i := ccount A i (take ?k ?V) - n)"
  let ?j = "min (?k - n) (?v - n)" and ?l = "min ?k (?v - n)"
  have f: "counted E ?f (vOutlets c3)" using assms(7) same(1) by simp
  have "?j \<le> ?l" "?l \<le> area_V (frv_areas c3)" unfolding q3(4) by simp_all
  from enter_window [OF assms(2) q3(1,2) reg f this, of D] obtain vs where
    vs: "enter_loop A E D ((rindex c3 + ?j) mod fsize c3) ((rindex c3 + ?l) mod fsize c3) c3 = Some (c3\<lparr>vOutlets := vs\<rparr>)"
      "map fst vs = map fst (vOutlets c3)"
    and cnt: "counted E (\<lambda>j. ?f j + ccount A j (take (?l - ?j) (drop ?j ?xs'))) vs"
    by blast
  have "take (min ?k (?v - n) - min (?k - n) (?v - n)) (drop (min (?k - n) (?v - n)) ?xs') =
      take (min ?k (length ?V') - min (?k - n) (length ?V')) (drop (min (?k - n) (length ?V')) ?V')"
    unfolding lV unfolding tV [symmetric] by (rule take_window) simp
  then have cnt': "counted E (\<lambda>j. ccount A j (take ?k ?V')) vs"
    using cnt ccount_after_take [OF assms(6)] by (simp only:)
  have "mux_consume L A E D i n c =
      enter_loop A E D ((rindex c3 + ?j) mod fsize c3) ((rindex c3 + ?l) mod fsize c3) c3"
    unfolding mux_consume_def move_to_front_def [symmetric] c1(1) c2(1) Let_def bind.bind_lunit
      c3_def [symmetric] q3(3) same(2) ooo_minus_eq [OF n k] ..
  then show ?thesis using q3 cnt' vs same by (intro exI [of _ "c3\<lparr>vOutlets := vs\<rparr>"]) (simp add: same_mux_def)
qed

section \<open>Each operation implements the specification\<close>

lemma mux_inv_tokens:
  assumes "mux_inv A E c"
  shows "used_cells c = map Some (map the (used_cells c))"
    and "\<forall>t \<in> set (map the (used_cells c)). col_get A t \<in> colours c"
    and "qws_inv c" "mux_wf A E c"
  using assms used_tokens [of "used_cells c" "\<lambda>t. col_get A t \<in> colours c"]
  unfolding mux_inv_def mux_wf_def by blast+

lemma fifo_abs_tokens:
  "used_cells c = map Some xs \<Longrightarrow> fifo_abs c = \<lparr>sp_C = area_C (frv_areas c),
     sp_V = take (area_V (frv_areas c)) xs, sp_P = drop (area_V (frv_areas c)) xs\<rparr>"
  by (simp add: fifo_abs_def take_map drop_map o_def)

lemma mux_inv_intro:
  assumes "mux_wf A E c" "used_cells c = map Some xs" "\<forall>t \<in> set xs. col_get A t \<in> colours c"
    and "emm_ok E (area_F (frv_areas c)) (emmFree c)" "mux_counted A E c"
  shows "mux_inv A E c"
  using assms by (auto simp: mux_inv_def)

lemma same_mux_wf: "mux_wf A E c \<Longrightarrow> same_mux c c' \<Longrightarrow> qws_inv c' \<Longrightarrow> mux_wf A E c'"
  unfolding mux_wf_def same_mux_def by (metis map_is_Nil_conv)

lemma spec_avail_fun: "spec_avail A k s = (\<lambda>j. ccount A j (take k (sp_V s)))"
  by (rule ext) (simp add: spec_avail_def)

lemma vo_taken_ok: "event_laws E \<Longrightarrow> vo_ok E m v \<Longrightarrow>
    vo_ok E (m - n) (v\<lparr>vo_countAvailable := m - n, vo_emmAvailable := decreasedCount E (m - n) (vo_emmAvailable v)\<rparr>)"
  by (simp add: vo_ok_def decreasedCount_ok [of E m] del: set_map)

lemma counted_found:
  assumes "counted E f vs" "i \<in> fst ` set vs"
  shows "\<exists>v. map_of vs i = Some v \<and> vo_countAvailable v = f i"
proof -
  obtain v where v: "map_of vs i = Some v" using assms(2) by (metis map_of_eq_None_iff not_None_eq)
  then have "(i, v) \<in> set vs" by (rule map_of_SomeD)
  then show ?thesis using assms(1) v by (auto simp: counted_def vo_ok_def)
qed

lemma vget_implements:
  assumes "mg_laws L" "event_laws E" "mux_inv A E c" "i \<in> colours c"
  shows "mux_implements A E c (mux_step L A E D (VGet i n) c)
    (mux_spec_op A (fifoOutOfOrder c + 1) (depthCount c) (initialTokens c) (VGet i n) (fifo_abs c))"
proof -
  let ?k = "fifoOutOfOrder c + 1" and ?xs = "map the (used_cells c)" and ?P = "of_colour A i"
  let ?v = "area_V (frv_areas c)"
  note inv = mux_inv_tokens [OF assms(3)]
  note abs = fifo_abs_tokens [OF inv(1)]
  have avail: "spec_avail A ?k (fifo_abs c) = (\<lambda>j. ccount A j (take ?k (take ?v ?xs)))"
    by (simp add: spec_avail_fun abs)
  have cnt: "counted E (\<lambda>j. ccount A j (take ?k (take ?v ?xs))) (vOutlets c)"
    using assms(3) avail unfolding mux_inv_def mux_counted_def by simp
  obtain v where v: "map_of (vOutlets c) i = Some v" "vo_countAvailable v = ccount A i (take ?k (take ?v ?xs))"
    using counted_found [OF cnt assms(4)] by blast
  show ?thesis
  proof (cases "n \<le> ccount A i (take ?k (take ?v ?xs))")
    case False
    then have "mux_step L A E D (VGet i n) c = None" using v by (simp add: vo_commStart_def)
    then show ?thesis using False avail by (simp add: mux_implements_simps)
  next
    case True
    define m where "m = ccount A i (take ?k (take ?v ?xs)) - n"
    define c1 where "c1 = c\<lparr>vOutlets := vout_upd i (\<lambda>v. v\<lparr>vo_countAvailable := m,
       vo_emmAvailable := decreasedCount E m (vo_emmAvailable v)\<rparr>) (vOutlets c)\<rparr>"
    have step: "mux_step L A E D (VGet i n) c = mux_consume L A E D i n c1"
      using v True by (simp add: vo_commStart_def Let_def c1_def m_def)
    have f1: "frv_areas c1 = frv_areas c" "used_cells c1 = map Some ?xs" "fifoOutOfOrder c1 = fifoOutOfOrder c"
        "emmFree c1 = emmFree c" "same_mux c c1" "qws_inv c1"
      using inv(1,3) by (simp_all add: c1_def same_mux_def)
    have "counted E ((\<lambda>j. ccount A j (take ?k (take ?v ?xs)))(i := m)) (vOutlets c1)"
      unfolding c1_def m_def using counted_upd [OF cnt vo_taken_ok [OF assms(2)]] by simp
    then have cnt1: "counted E ((\<lambda>j. ccount A j (take (fifoOutOfOrder c1 + 1) (take (area_V (frv_areas c1)) ?xs)))
        (i := ccount A i (take (fifoOutOfOrder c1 + 1) (take (area_V (frv_areas c1)) ?xs)) - n)) (vOutlets c1)"
      unfolding f1(1,3) m_def .
    have "\<forall>t \<in> set ?xs. col_get A t \<in> colours c1"
      using inv(2) same_mux_colours [OF f1(5)] by simp
    from mux_consume_step [OF assms(1,2) same_mux_wf [OF inv(4) f1(5,6)] f1(2) this _ cnt1] True
    obtain c' where c': "mux_consume L A E D i n c1 = Some c'" "qws_inv c'" "same_mux c1 c'" "emmFree c' = emmFree c"
      "frv_areas c' = (frv_areas c)\<lparr>area_C := area_C (frv_areas c) + n, area_V := ?v - n\<rparr>"
      "used_cells c' = map Some (remove_first ?P n ?xs)"
      "counted E (\<lambda>j. ccount A j (take ?k (remove_first ?P n (take ?v ?xs)))) (vOutlets c')"
      unfolding f1(1,3,4) by blast
    have same: "same_mux c c'" using f1(5) c'(3) by (simp add: same_mux_def)
    have nk: "n \<le> length (filter ?P (take ?k (take ?v ?xs)))" using True by (simp add: ccount_def)
    also have "\<dots> \<le> length (filter ?P (take ?v ?xs))"
      by (metis append_take_drop_id filter_append le_add1 length_append)
    finally have nV: "n \<le> length (filter ?P (take ?v ?xs))" .
    have abs': "fifo_abs c' = \<lparr>sp_C = area_C (frv_areas c) + n, sp_V = remove_first ?P n (take ?v ?xs), sp_P = drop ?v ?xs\<rparr>"
      using fifo_abs_tokens [OF c'(6)] c'(5) take_remove_first [OF nV]
        remove_first_append [OF nV, of "drop ?v ?xs"] length_remove_first [OF nV] used_cells_areas [OF inv(3)] by simp
    have "mux_counted A E c'"
      unfolding mux_counted_def abs' using c'(7) same by (simp add: spec_avail_fun same_mux_def)
    moreover have "\<forall>t \<in> set (remove_first ?P n ?xs). col_get A t \<in> colours c'"
      using inv(2) set_remove_first [of ?P n ?xs] same_mux_colours [OF same] by blast
    moreover have "emm_ok E (area_F (frv_areas c')) (emmFree c')"
      using assms(3) c'(4,5) by (simp add: mux_inv_def)
    ultimately have "mux_inv A E c'"
      using same_mux_wf [OF inv(4) same c'(2)] c'(6) by (intro mux_inv_intro)
    then show ?thesis
      using True step c'(1) same by (simp add: mux_implements_simps spec_avail_fun abs' abs)
  qed
qed

text \<open>Consumed tokens are freed, as in the plain FIFO.\<close>

lemma get_done_implements:
  assumes "mg_laws L" "event_laws E" "mux_inv A E c"
  shows "mux_implements A E c (mux_step L A E D (GetDone n) c)
    (mux_spec_op A (fifoOutOfOrder c + 1) (depthCount c) (initialTokens c) (GetDone n) (fifo_abs c))"
proof (cases "n \<le> area_C (frv_areas c)")
  case True
  note inv = mux_inv_tokens [OF assms(3)]
  obtain c1 where r: "frv_fpp L n c = Some c1" "qws_inv c1"
    "frv_areas c1 = (frv_areas c)\<lparr>area_C := area_C (frv_areas c) - n, area_F := area_F (frv_areas c) + n\<rparr>"
    "used_cells c1 = used_cells c" and c1: "c1 = c\<lparr>findex := findex c1\<rparr>"
    using qws_fpp_step [OF assms(1) inv(3) True] by blast
  have same: "vOutlets c1 = vOutlets c" "emmFree c1 = emmFree c" "depthCount c1 = depthCount c"
      "initialTokens c1 = initialTokens c" "fifoOutOfOrder c1 = fifoOutOfOrder c"
    by (subst c1, simp add: depthCount_def)+
  have v: "frv_freeCount L c1 = area_F (frv_areas c) + n"
    using frv_area_counts(2) [OF assms(1) qws_inv_frv [OF r(2)]] r(3) by simp
  have emm: "emm_ok E (area_F (frv_areas c) + n) (increasedCount E (area_F (frv_areas c) + n) (emmFree c))"
    using assms(2,3) by (intro increasedCount_ok) (auto simp: mux_inv_def)
  let ?c = "c1\<lparr>emmFree := increasedCount E (frv_freeCount L c1) (emmFree c1)\<rparr>"
  have abs: "fifo_abs c1 = (fifo_abs c)\<lparr>sp_C := sp_C (fifo_abs c) - n\<rparr>"
    using r(3,4) True by (simp add: fifo_abs_def)
  have "mux_inv A E ?c"
    using assms(3) r(2,3,4) same v emm abs
    by (simp add: mux_inv_def mux_wf_def mux_counted_def spec_avail_fun)
  then show ?thesis
    using r(1) same abs True by (simp add: vo_commFinish_def mux_readConsumeEventExpired_def mux_implements_simps same_mux_def fifo_abs_def)
next
  case False
  have q: "frv_inv c" using mux_inv_tokens(3) [OF assms(3)] by (rule qws_inv_frv)
  show ?thesis
    using False frv_refuse(4) [OF assms(1) q, of n]
    by (simp add: mux_implements_simps vo_commFinish_def mux_readConsumeEventExpired_def fifo_abs_def)
qed

text \<open>Tokens whose latency has expired become visible, and enter the window as far as it reaches.\<close>

lemma put_done_implements:
  assumes "mg_laws L" "event_laws E" "mux_inv A E c"
  shows "mux_implements A E c (mux_step L A E D (PutDone n) c)
    (mux_spec_op A (fifoOutOfOrder c + 1) (depthCount c) (initialTokens c) (PutDone n) (fifo_abs c))"
proof (cases "n \<le> area_P (frv_areas c)")
  case True
  let ?k = "fifoOutOfOrder c + 1" and ?xs = "map the (used_cells c)" and ?v = "area_V (frv_areas c)"
  note inv = mux_inv_tokens [OF assms(3)]
  note abs = fifo_abs_tokens [OF inv(1)]
  obtain c1 where r: "rvw_vpp L n c = Some c1" "qws_inv c1"
    "frv_areas c1 = (frv_areas c)\<lparr>area_V := ?v + n, area_P := area_P (frv_areas c) - n\<rparr>"
    "used_cells c1 = used_cells c" and c1: "c1 = c\<lparr>vindex := vindex c1\<rparr>"
    using qws_vpp_step [OF assms(1) inv(3) True] by blast
  have same: "vOutlets c1 = vOutlets c" "emmFree c1 = emmFree c" "depthCount c1 = depthCount c"
      "initialTokens c1 = initialTokens c" "fifoOutOfOrder c1 = fifoOutOfOrder c"
    by (subst c1, simp add: depthCount_def)+
  have v: "rvw_visibleCount L c1 = ?v + n"
    using frv_area_counts(1) [OF assms(1) qws_inv_frv [OF r(2)]] r(3) by simp
  have f: "counted E (\<lambda>j. ccount A j (take ?k (take ?v ?xs))) (vOutlets c1)"
    using assms(3) unfolding mux_inv_def mux_counted_def by (simp add: spec_avail_fun abs same)
  have u: "used_cells c1 = map Some ?xs" "\<forall>t \<in> set ?xs. col_get A t \<in> colours c1"
    using inv(1,2) r(4) same(1) by simp_all
  have len: "?v + n \<le> length ?xs" using used_cells_areas [OF inv(3)] True by simp
  have jl: "min ?k ?v \<le> min ?k (?v + n)" "min ?k (?v + n) \<le> area_V (frv_areas c1)" unfolding r(3) by simp_all
  from enter_window [OF assms(2) r(2) u f jl, of D] obtain vs where
    vs: "enter_loop A E D ((rindex c1 + min ?k ?v) mod fsize c1) ((rindex c1 + min ?k (?v + n)) mod fsize c1) c1 =
        Some (c1\<lparr>vOutlets := vs\<rparr>)" "map fst vs = map fst (vOutlets c1)"
    and cnt: "counted E (\<lambda>j. ccount A j (take ?k (take ?v ?xs)) +
      ccount A j (take (min ?k (?v + n) - min ?k ?v) (drop (min ?k ?v) ?xs))) vs"
    by blast
  have "take (min ?k (?v + n)) ?xs = take (min ?k ?v) ?xs @ take (min ?k (?v + n) - min ?k ?v) (drop (min ?k ?v) ?xs)"
    using jl(1) by (simp flip: take_add)
  then have cnt': "counted E (\<lambda>j. ccount A j (take ?k (take (?v + n) ?xs))) vs"
    using cnt by simp
  let ?c = "c1\<lparr>vOutlets := vs\<rparr>"
  have abs': "fifo_abs c1 = \<lparr>sp_C = area_C (frv_areas c), sp_V = take (?v + n) ?xs, sp_P = drop (?v + n) ?xs\<rparr>"
    using fifo_abs_tokens [OF u(1)] r(3) by simp
  have "vOutlets c \<noteq> []" using inv(4) by (simp add: mux_wf_def)
  then have step: "mux_step L A E D (PutDone n) c = Some ?c"
    using r(1) v vs same by (simp add: ve_commFinish_def mux_latencyExpired_def Let_def)
  have sm: "same_mux c ?c" using same vs(2) by (simp add: same_mux_def)
  have "mux_wf A E ?c" using same_mux_wf [OF inv(4) sm] r(2) by simp
  moreover have "used_cells ?c = map Some ?xs" "\<forall>t \<in> set ?xs. col_get A t \<in> colours ?c"
    using u(1) inv(2) same_mux_colours [OF sm] by simp_all
  moreover have "emm_ok E (area_F (frv_areas ?c)) (emmFree ?c)"
    using assms(3) r(3) same(2) by (simp add: mux_inv_def)
  moreover have "mux_counted A E ?c"
    using cnt' same(5) by (simp add: mux_counted_def spec_avail_fun abs')
  ultimately have "mux_inv A E ?c" by (rule mux_inv_intro)
  moreover have "take (?v + n) ?xs = take ?v ?xs @ take n (drop ?v ?xs)" by (rule take_add)
  ultimately show ?thesis
    using step sm True used_cells_areas [OF inv(3)]
    by (simp add: mux_implements_simps abs abs' add.commute [of n])
next
  case False
  have q: "qws_inv c" by (rule mux_inv_tokens(3) [OF assms(3)])
  then show ?thesis
    using False frv_refuse(2) [OF assms(1) qws_inv_frv [OF q], of n] fifo_abs_used(2) [OF q]
    by (simp add: mux_implements_simps ve_commFinish_def mux_latencyExpired_def)
qed

text \<open>The virtual entry colours the tokens written before it advances the write pointer.\<close>

lemma colour_loop_frame: "colour_loop A D i w n q = Some q' \<Longrightarrow> \<exists>st. q' = q\<lparr>storage := st\<rparr>"
proof (induction n arbitrary: w q)
  case 0
  then show ?case by (intro exI [of _ "storage q"]) simp
next
  case (Suc n)
  then obtain t c where x: "cell_get D (storage q ! w) = Some (t, c)"
    by (auto simp: storage_get_def bind_eq_Some_conv)
  let ?q = "q\<lparr>storage := (storage q)[w := Some (col_put A i t)]\<rparr>"
  have "colour_loop A D i (if w + 1 \<ge> fsize q then w + 1 - fsize q else w + 1) n ?q = Some q'"
    using Suc.prems x by (simp add: storage_get_def Let_def cong: if_cong)
  from Suc.IH [OF this] show ?case by auto
qed

lemma colour_loop_cells:
  fixes q :: "('a, 'z) qws_scheme"
  assumes "qws_inv q" "ring_cells q = pre @ map Some ts @ post"
  shows "\<exists>q' st. colour_loop A D i (ring_step (fsize q) (rindex q) (length pre)) (length ts) q = Some q' \<and>
    q' = q\<lparr>storage := st\<rparr> \<and> qws_inv q' \<and> ring_cells q' = pre @ map Some (map (col_put A i) ts) @ post"
  using assms
proof (induction ts arbitrary: pre q)
  case Nil
  then show ?case by (intro exI [of _ q] exI [of _ "storage q"]) simp
next
  case (Cons t ts)
  let ?m = "fsize q" and ?r = "rindex q" and ?j = "length pre"
  have "length (ring_cells q) = ?m" using Cons.prems(1) by (simp add: qws_inv_def)
  then have j: "?j < ?m" using Cons.prems(2) by simp
  have r: "?r < ?m" using frv_inv_bounds(1) [OF qws_inv_frv [OF Cons.prems(1)]] .
  let ?q = "q\<lparr>storage := (storage q)[ring_step ?m ?r ?j := Some (col_put A i t)]\<rparr>"
  have get: "storage_get D (ring_step ?m ?r ?j) q = Some (t, q)"
    using Cons.prems(2) by (intro storage_get_cell [OF Cons.prems(1) j]) simp
  have q: "qws_inv ?q" "ring_cells ?q = (pre @ [Some (col_put A i t)]) @ map Some ts @ post"
    using storage_put_cell [OF Cons.prems(1) j] Cons.prems(2) by simp_all
  have s: "(if ring_step ?m ?r ?j + 1 \<ge> ?m then ring_step ?m ?r ?j + 1 - ?m else ring_step ?m ?r ?j + 1) =
      ring_step ?m ?r (Suc ?j)"
    using r j by (auto simp: ring_step_def)
  have "colour_loop A D i (ring_step ?m ?r ?j) (length (t # ts)) q =
      colour_loop A D i (ring_step ?m ?r (Suc ?j)) (length ts) ?q"
    using get s by (simp add: Let_def cong: if_cong)
  moreover obtain q' st where "colour_loop A D i (ring_step ?m ?r (Suc ?j)) (length ts) ?q = Some q'"
      "q' = ?q\<lparr>storage := st\<rparr>" "qws_inv q'" "ring_cells q' = (pre @ [Some (col_put A i t)]) @ map Some (map (col_put A i) ts) @ post"
    using Cons.IH [OF q] by auto
  ultimately show ?case by (intro exI [of _ q'] exI [of _ st]) simp
qed

definition put_advance :: "math_lib \<Rightarrow> 'e event_lib \<Rightarrow> nat \<Rightarrow> ('a, 'e) mux \<Rightarrow> ('a, 'e) mux option" where
  "put_advance L E n c = do {
     c \<leftarrow> frv_wpp L n c;
     Some (c\<lparr>emmFree := decreasedCount E (frv_freeCount L c) (emmFree c)\<rparr>)
   }"

lemma put_advance_refused:
  assumes "mg_laws L" "qws_inv c" "\<not> n \<le> area_F (frv_areas c)"
  shows "put_advance L E n (c\<lparr>storage := st\<rparr>) = None"
proof -
  have "frv_wpp L n (c\<lparr>storage := st\<rparr>) = None"
    using assms(2,3) by (intro frv_refuse(1) [OF assms(1)]) (simp_all add: storage_parts qws_inv_def)
  then show ?thesis by (simp add: put_advance_def)
qed

lemma put_advance_implements:
  assumes "mg_laws L" "event_laws E" "mux_inv A E c" "length ts \<le> area_F (frv_areas c)"
    and "c1 = c\<lparr>storage := st\<rparr>" "qws_inv c1" "used_cells c1 = used_cells c"
    and "take (length ts) (drop (length (used_cells c)) (ring_cells c1)) = map Some ts"
    and "\<forall>t \<in> set ts. col_get A t \<in> colours c"
  shows "mux_implements A E c (put_advance L E (length ts) c1)
    (spec_op (depthCount c) (initialTokens c) (PutStart ts) (fifo_abs c))"
proof -
  let ?xs = "map the (used_cells c)" and ?v = "area_V (frv_areas c)"
  note inv = mux_inv_tokens [OF assms(3)]
  have a: "frv_areas c1 = frv_areas c" using assms(5) by (simp add: storage_parts)
  obtain c3 where w: "frv_wpp L (length ts) c1 = Some c3" "qws_inv c3"
    "frv_areas c3 = (frv_areas c)\<lparr>area_P := area_P (frv_areas c) + length ts, area_F := area_F (frv_areas c) - length ts\<rparr>"
    "used_cells c3 = used_cells c @ map Some ts" and c3: "c3 = c1\<lparr>windex := windex c3\<rparr>"
    using write_wpp_cells [OF assms(1) inv(3) assms(6) a assms(7,8)] assms(4) by auto
  have same: "vOutlets c3 = vOutlets c" "emmFree c3 = emmFree c" "depthCount c3 = depthCount c"
      "initialTokens c3 = initialTokens c" "fifoOutOfOrder c3 = fifoOutOfOrder c"
    by (subst c3, simp add: assms(5) depthCount_def)+
  have f: "frv_freeCount L c3 = area_F (frv_areas c) - length ts"
    using frv_area_counts(2) [OF assms(1) qws_inv_frv [OF w(2)]] w(3) by simp
  have emm: "emm_ok E (area_F (frv_areas c) - length ts)
      (decreasedCount E (area_F (frv_areas c) - length ts) (emmFree c))"
    using assms(2,3) by (intro decreasedCount_ok) (auto simp: mux_inv_def)
  let ?c = "c3\<lparr>emmFree := decreasedCount E (frv_freeCount L c3) (emmFree c3)\<rparr>"
  have abs: "fifo_abs c3 = (fifo_abs c)\<lparr>sp_P := sp_P (fifo_abs c) @ ts\<rparr>"
    using w(3,4) used_cells_areas [OF inv(3)] by (simp add: fifo_abs_def o_def)
  have "mux_inv A E ?c"
    using assms(3,9) w(2,3,4) same f emm abs
    by (auto simp: mux_inv_def mux_wf_def mux_counted_def spec_avail_fun)
  moreover have "spec_used (fifo_abs c) + length ts \<le> depthCount c"
    using fifo_abs_used(3) [OF inv(3)] assms(4) by linarith
  ultimately show ?thesis using w(1) same abs by (simp add: put_advance_def mux_implements_simps same_mux_def)
qed

lemma plain_put_implements:
  assumes "mg_laws L" "event_laws E" "mux_inv A E c" "\<forall>t \<in> set ts. col_get A t \<in> colours c"
  shows "mux_implements A E c (mux_step L A E D (PlainPut ts) c)
    (mux_spec_op A k (depthCount c) (initialTokens c) (PlainPut ts) (fifo_abs c))"
proof (cases "length ts \<le> area_F (frv_areas c)")
  case True
  have q: "qws_inv c" by (rule mux_inv_tokens(3) [OF assms(3)])
  obtain c1 st where c1: "write_tokens (length ts) 0 ts c = Some c1" "qws_inv c1" "used_cells c1 = used_cells c"
      "take (length ts) (drop (length (used_cells c)) (ring_cells c1)) = map Some ts" "c1 = c\<lparr>storage := st\<rparr>"
    using write_tokens_cells [OF q, of 0 ts "length ts"] True by auto
  have "mux_step L A E D (PlainPut ts) c = put_advance L E (length ts) c1"
    using c1(1) by (simp add: mux_entry_commStart_def put_advance_def)
  then show ?thesis
    using put_advance_implements [OF assms(1-3) True c1(5,2,3,4) assms(4)] by simp
next
  case False
  have q: "qws_inv c" by (rule mux_inv_tokens(3) [OF assms(3)])
  have "mux_step L A E D (PlainPut ts) c = None"
  proof (cases "write_tokens (length ts) 0 ts c")
    case (Some c1)
    then obtain st where "c1 = c\<lparr>storage := st\<rparr>" using write_tokens_frame by blast
    then show ?thesis using put_advance_refused [OF assms(1) q False] Some
      by (simp add: mux_entry_commStart_def put_advance_def)
  qed simp
  moreover have "\<not> spec_used (fifo_abs c) + length ts \<le> depthCount c"
    using fifo_abs_used(3) [OF q] False by linarith
  ultimately show ?thesis by (simp add: mux_implements_simps)
qed

lemma vput_implements:
  assumes "mg_laws L" "event_laws E" "colour_law A" "mux_inv A E c" "i \<in> colours c"
  shows "mux_implements A E c (mux_step L A E D (VPut i ts) c)
    (mux_spec_op A k (depthCount c) (initialTokens c) (VPut i ts) (fifo_abs c))"
proof (cases "length ts \<le> area_F (frv_areas c)")
  case True
  have q: "qws_inv c" by (rule mux_inv_tokens(3) [OF assms(4)])
  obtain c1 st where c1: "write_tokens (length ts) 0 ts c = Some c1" "qws_inv c1" "used_cells c1 = used_cells c"
      "take (length ts) (drop (length (used_cells c)) (ring_cells c1)) = map Some ts" "c1 = c\<lparr>storage := st\<rparr>"
    using write_tokens_cells [OF q, of 0 ts "length ts"] True by auto
  let ?u = "length (used_cells c)" and ?us = "map (col_put A i) ts"
  have uc: "take ?u (ring_cells c1) = used_cells c"
    using c1(3) length_used_cells [OF c1(2)] by (simp add: used_cells_def)
  have split: "ring_cells c1 = used_cells c @ map Some ts @ drop (length ts) (drop ?u (ring_cells c1))"
    using append_take_drop_id [of ?u "ring_cells c1"] append_take_drop_id [of "length ts" "drop ?u (ring_cells c1)"]
    unfolding uc c1(4) by simp
  have b: "rindex c1 < fsize c1" "windex c1 < fsize c1" using frv_inv_bounds [OF qws_inv_frv [OF c1(2)]] by simp_all
  have "?u = ring_dist (fsize c1) (rindex c1) (windex c1)" using length_used_cells [OF c1(2)] c1(3) by simp
  then have w: "ring_step (fsize c1) (rindex c1) ?u = windex c1" using b by simp
  obtain c2 st2 where c2: "colour_loop A D i (windex c1) (length ts) c1 = Some c2" "c2 = c1\<lparr>storage := st2\<rparr>" "qws_inv c2"
      "ring_cells c2 = used_cells c @ map Some ?us @ drop (length ts) (drop ?u (ring_cells c1))"
    using colour_loop_cells [OF c1(2) split, of A D i] w by auto
  have "used_cells c2 = take ?u (ring_cells c2)"
    using length_used_cells [OF c1(2)] c1(3) by (simp add: c2(2) used_cells_def [of "c1\<lparr>storage := st2\<rparr>"])
  then have u2: "used_cells c2 = used_cells c" using c2(4) by simp
  have t2: "take (length ?us) (drop ?u (ring_cells c2)) = map Some ?us" using c2(4) by simp
  have c2': "c2 = c\<lparr>storage := st2\<rparr>" using c2(2) c1(5) by simp
  have "mux_step L A E D (VPut i ts) c = put_advance L E (length ?us) c2"
    using c1(1) c2(1) by (simp add: vfifo_writes_eq ve_commStart_def put_advance_def)
  moreover have "\<forall>t \<in> set ?us. col_get A t \<in> colours c" using assms(3,5) by (auto simp: colour_law_def)
  ultimately show ?thesis
    using put_advance_implements [OF assms(1,2,4) _ c2' c2(3) u2 t2] True by simp
next
  case False
  have q: "qws_inv c" by (rule mux_inv_tokens(3) [OF assms(4)])
  have "mux_step L A E D (VPut i ts) c = None"
  proof (cases "write_tokens (length ts) 0 ts c")
    case (Some c1)
    then obtain st where c1: "c1 = c\<lparr>storage := st\<rparr>" using write_tokens_frame by blast
    show ?thesis
    proof (cases "colour_loop A D i (windex c1) (length ts) c1")
      case None
      then show ?thesis using Some by (simp add: vfifo_writes_eq ve_commStart_def)
    next
      case (Some c2)
      then obtain st where "c2 = c\<lparr>storage := st\<rparr>" using colour_loop_frame [OF Some] c1 by auto
      then show ?thesis using put_advance_refused [OF assms(1) q False] Some \<open>write_tokens _ _ _ _ = _\<close>
        by (simp add: vfifo_writes_eq ve_commStart_def put_advance_def)
    qed
  qed (simp add: vfifo_writes_eq)
  moreover have "\<not> spec_used (fifo_abs c) + length ts \<le> depthCount c"
    using fifo_abs_used(3) [OF q] False by linarith
  ultimately show ?thesis by (simp add: mux_implements_simps)
qed

text \<open>
  A reset fills the queue with the initial tokens and tells the outlets about all of them, which is right
  as long as they lie within the window.  It also mends whatever the counts were before.
\<close>

definition mux_ready :: "'a colour_lib \<Rightarrow> 'e event_lib \<Rightarrow> ('a, 'e) mux \<Rightarrow> bool" where
  "mux_ready A E c \<longleftrightarrow> mux_wf A E c \<and> emm_keys (emmFree c) \<and>
     (\<forall>(i, v) \<in> set (vOutlets c). emm_keys (vo_emmAvailable v) \<and> 0 \<notin> set (map fst (vo_emmAvailable v)))"

lemma vo_reset_ok:
  assumes "event_laws E" "emm_keys (vo_emmAvailable v)" "0 \<notin> set (map fst (vo_emmAvailable v))"
  shows "vo_ok E 0 (vo_reset E v)"
proof -
  have "k \<noteq> 0" if "(k, e) \<in> set (vo_emmAvailable v)" for k e using assms(3) that by force
  then have "emm_ok E 0 (emm_reset E (vo_emmAvailable v))"
    using assms(1,2) unfolding emm_reset_def by (subst emm_ok_map) auto
  then show ?thesis using assms(3) by (simp add: vo_ok_def vo_reset_def del: set_map)
qed

lemma reset_step:
  assumes "mg_laws L" "event_laws E" "mux_ready A E c" "length (initialTokens c) \<le> depthCount c"
    and "\<forall>t \<in> set (initialTokens c). col_get A t \<in> colours c"
  shows "\<exists>c'. mux_doReset L A E c = Some c' \<and> mux_wf A E c' \<and> same_mux c c' \<and>
    used_cells c' = map Some (initialTokens c) \<and> emm_ok E (area_F (frv_areas c')) (emmFree c') \<and>
    fifo_abs c' = \<lparr>sp_C = 0, sp_V = initialTokens c, sp_P = []\<rparr> \<and>
    counted E (\<lambda>i. ccount A i (initialTokens c)) (vOutlets c')"
proof -
  let ?k = "length (initialTokens c)"
  have wf: "mux_wf A E c" and keys: "emm_keys (emmFree c)" using assms(3) by (simp_all add: mux_ready_def)
  then have q: "qws_inv c" and ne: "vOutlets c \<noteq> []" by (simp_all add: mux_wf_def)
  obtain c1 where r: "fifo_storage_reset L c = Some c1" "qws_inv c1"
    "used_cells c1 = map Some (initialTokens c)"
    "frv_areas c1 = \<lparr>area_C = 0, area_V = ?k, area_P = 0, area_F = depthCount c - ?k\<rparr>"
    and c1: "\<exists>st w v. c1 = c\<lparr>findex := 0, rindex := 0, storage := st, windex := w, vindex := v\<rparr>"
    using fifo_storage_reset_step [OF assms(1) q assms(4)] by blast
  have same: "vOutlets c1 = vOutlets c" "emmFree c1 = emmFree c" "depthCount c1 = depthCount c"
      "initialTokens c1 = initialTokens c" "fifoOutOfOrder c1 = fifoOutOfOrder c"
    using c1 by (auto simp: depthCount_def)
  have counts: "frv_freeCount L c1 = depthCount c - ?k"
    using frv_area_counts [OF assms(1) qws_inv_frv [OF r(2)]] r(4) by simp
  let ?c2 = "c1\<lparr>emmAvailable := emm_reset E (emmAvailable c1),
      emmFree := increasedCount E (depthCount c - ?k) (emm_reset E (emmFree c)),
      vOutlets := map (\<lambda>(i, v). (i, vo_reset E v)) (vOutlets c)\<rparr>"
  have fst2: "map fst (vOutlets ?c2) = map fst (vOutlets c)" by (simp add: split_def)
  have "counted E (\<lambda>i. 0) (vOutlets ?c2)"
    using assms(3) vo_reset_ok [OF assms(2)] by (fastforce simp: counted_def mux_ready_def)
  moreover have "\<forall>t \<in> set (initialTokens c). col_get A t \<in> colours ?c2"
    using assms(5) fst2 by (metis list.set_map)
  ultimately obtain vs where vs: "tell_all A E (initialTokens c) ?c2 = Some (?c2\<lparr>vOutlets := vs\<rparr>)"
      "map fst vs = map fst (vOutlets ?c2)" "counted E (\<lambda>i. 0 + ccount A i (initialTokens c)) vs"
    using tell_all_counted [OF assms(2), of "\<lambda>i. 0" ?c2] by blast
  let ?c = "?c2\<lparr>vOutlets := vs\<rparr>"
  have "mux_doReset L A E c = Some ?c"
    using r(1) vs(1) same counts ne by (simp add: mux_doReset_def mux_base_doReset_def Let_def)
  moreover have sm: "same_mux c ?c" using same vs(2) fst2 by (simp add: same_mux_def)
  moreover have "mux_wf A E ?c" using same_mux_wf [OF wf sm] r(2) by simp
  moreover have "emm_ok E (area_F (frv_areas ?c)) (emmFree ?c)"
    using r(4) increasedCount_after_reset [OF assms(2) keys] by simp
  moreover have "fifo_abs ?c = \<lparr>sp_C = 0, sp_V = initialTokens c, sp_P = []\<rparr>"
    using fifo_abs_tokens [OF r(3)] r(4) by simp
  moreover have "used_cells ?c = map Some (initialTokens c)" using r(3) by simp
  moreover have "counted E (\<lambda>i. ccount A i (initialTokens c)) (vOutlets ?c)" using vs(3) by simp
  ultimately show ?thesis by blast
qed

lemma mux_inv_ready: "mux_inv A E c \<Longrightarrow> mux_ready A E c"
  by (auto simp: mux_inv_def mux_ready_def mux_counted_def counted_def vo_ok_def dest: emm_ok_keys)

lemma mux_reset_implements:
  assumes "mg_laws L" "event_laws E" "mux_ready A E c"
    and "mux_op_ok A (colours c) (initialTokens c) MuxReset" "length (initialTokens c) \<le> fifoOutOfOrder c + 1"
  shows "mux_implements A E c (mux_step L A E D MuxReset c)
    (mux_spec_op A (fifoOutOfOrder c + 1) (depthCount c) (initialTokens c) MuxReset (fifo_abs c))"
proof -
  note k = assms(5)
  have col: "\<forall>t \<in> set (initialTokens c). col_get A t \<in> colours c" using assms(4) by simp
  moreover have "fifoOutOfOrder c + 1 \<le> depthCount c" using assms(3) by (simp add: mux_ready_def mux_wf_def)
  ultimately have d: "length (initialTokens c) \<le> depthCount c" using k by linarith
  from reset_step [OF assms(1-3) d col] obtain c' where c': "mux_doReset L A E c = Some c'" "mux_wf A E c'"
    "same_mux c c'" "used_cells c' = map Some (initialTokens c)" "emm_ok E (area_F (frv_areas c')) (emmFree c')"
    "fifo_abs c' = \<lparr>sp_C = 0, sp_V = initialTokens c, sp_P = []\<rparr>"
    "counted E (\<lambda>i. ccount A i (initialTokens c)) (vOutlets c')" by blast
  have "mux_counted A E c'"
    using c'(7) c'(3) k by (simp add: mux_counted_def spec_avail_fun c'(6) same_mux_def)
  moreover have "\<forall>t \<in> set (initialTokens c). col_get A t \<in> colours c'"
    using col same_mux_colours [OF c'(3)] by simp
  ultimately have "mux_inv A E c'" using c'(2,4,5) by (intro mux_inv_intro)
  then show ?thesis using c'(1,3,6) d by (simp add: mux_implements_simps)
qed

lemma mux_step_implements:
  assumes "mg_laws L" "event_laws E" "colour_law A" "mux_inv A E c"
    and "mux_op_ok A (colours c) (initialTokens c) op" "length (initialTokens c) \<le> fifoOutOfOrder c + 1"
  shows "mux_implements A E c (mux_step L A E D op c)
    (mux_spec_op A (fifoOutOfOrder c + 1) (depthCount c) (initialTokens c) op (fifo_abs c))"
proof (cases op)
  case (VPut i ts)
  then show ?thesis using vput_implements [OF assms(1-4)] assms(5) by (simp del: mux_step.simps mux_spec_op.simps)
next
  case (PlainPut ts)
  then show ?thesis using plain_put_implements [OF assms(1,2,4)] assms(5) by (simp del: mux_step.simps mux_spec_op.simps)
next
  case (PutDone n)
  then show ?thesis using put_done_implements [OF assms(1,2,4)] by (simp only:)
next
  case (VGet i n)
  then show ?thesis using vget_implements [OF assms(1,2,4)] assms(5) by (simp del: mux_step.simps mux_spec_op.simps)
next
  case (GetDone n)
  then show ?thesis using get_done_implements [OF assms(1,2,4)] by (simp only:)
next
  case MuxReset
  then show ?thesis using mux_reset_implements [OF assms(1,2) mux_inv_ready [OF assms(4)]] assms(5,6) by (simp only:)
qed

lemma mux_run_implements:
  assumes "mg_laws L" "event_laws E" "colour_law A" "mux_inv A E c"
    and "\<forall>op \<in> set ops. mux_op_ok A (colours c) (initialTokens c) op" "length (initialTokens c) \<le> fifoOutOfOrder c + 1"
  shows "mux_implements A E c (run_ops (mux_step L A E D) ops c)
    (run_ops (mux_spec_op A (fifoOutOfOrder c + 1) (depthCount c) (initialTokens c)) ops (fifo_abs c))"
  using assms(4,5,6)
proof (induction ops arbitrary: c)
  case Nil
  then show ?case by (simp add: mux_implements_simps same_mux_def)
next
  case (Cons op ops)
  have "mux_op_ok A (colours c) (initialTokens c) op" using Cons.prems(2) by simp
  note step = mux_step_implements [OF assms(1-3) Cons.prems(1) this Cons.prems(3), of D]
  show ?case
  proof (cases "mux_step L A E D op c")
    case None
    then show ?thesis using step by (simp add: mux_implements_simps)
  next
    case (Some c1)
    then have c1: "mux_inv A E c1" "same_mux c c1"
      "mux_spec_op A (fifoOutOfOrder c + 1) (depthCount c) (initialTokens c) op (fifo_abs c) = Some (fifo_abs c1)"
      using step by (simp_all add: mux_implements_simps)
    have same: "colours c1 = colours c" "initialTokens c1 = initialTokens c" "fifoOutOfOrder c1 = fifoOutOfOrder c"
      "depthCount c1 = depthCount c"
      using same_mux_colours [OF c1(2)] c1(2) by (simp_all add: same_mux_def)
    have "mux_implements A E c1 (run_ops (mux_step L A E D) ops c1)
        (run_ops (mux_spec_op A (fifoOutOfOrder c + 1) (depthCount c) (initialTokens c)) ops (fifo_abs c1))"
      using Cons.IH [OF c1(1)] Cons.prems(2,3) same by simp
    then show ?thesis using Some c1(2,3)
      by (auto simp: mux_implements_def same_mux_def split: option.splits)
  qed
qed

section \<open>Reading\<close>

text \<open>The read access of a virtual FIFO finds the token of its colour, and touches nothing.\<close>

lemma vfifo_read_loop_pos:
  assumes "qws_inv c" "used_cells c = map Some xs" "n < length (filter (of_colour A i) (drop j xs))"
  shows "vfifo_read_loop A D i n (ring_step (fsize c) (rindex c) j) c =
    Some (ring_step (fsize c) (rindex c) (j + nth_pos (of_colour A i) n (drop j xs)), c)"
  using assms(3)
proof (induction "length xs - j" arbitrary: j n)
  case 0
  then show ?case by simp
next
  case (Suc k)
  then have j: "j < length xs" by linarith
  note x = used_as_cells [OF assms(1,2) j]
  let ?m = "fsize c" and ?r = "rindex c"
  have b: "?r < ?m" using frv_inv_bounds(1) [OF qws_inv_frv [OF assms(1)]] .
  have d: "drop j xs = xs ! j # drop (Suc j) xs" using j by (simp add: Cons_nth_drop_Suc [symmetric])
  have s: "(if ring_step ?m ?r j < ?m - 1 then ring_step ?m ?r j + 1 else 0) = ring_step ?m ?r (Suc j)"
    using b x(1) by (auto simp: ring_step_def)
  let ?n = "if of_colour A i (xs ! j) then n - 1 else n"
  show ?case
  proof (cases "of_colour A i (xs ! j) \<and> n = 0")
    case True
    then show ?thesis using storage_get_cell [OF assms(1) x] by (subst vfifo_read_loop.simps) (simp add: d)
  next
    case False
    have "vfifo_read_loop A D i ?n (ring_step ?m ?r (Suc j)) c =
        Some (ring_step ?m ?r (Suc j + nth_pos (of_colour A i) ?n (drop (Suc j) xs)), c)"
      using Suc.hyps(2) Suc.prems d False by (intro Suc.hyps(1)) (auto split: if_splits)
    moreover have "vfifo_read_loop A D i n (ring_step ?m ?r j) c = vfifo_read_loop A D i ?n (ring_step ?m ?r (Suc j)) c"
      using storage_get_cell [OF assms(1) x] s False by (subst vfifo_read_loop.simps) auto
    ultimately show ?thesis using False by (cases n) (auto simp: d)
  qed
qed

lemma nth_pos_filter: "n < length (filter P xs) \<Longrightarrow> xs ! nth_pos P n xs = filter P xs ! n"
proof (induction xs arbitrary: n)
  case (Cons x xs)
  then show ?case by (cases n) auto
qed simp

lemma vfifo_read_finds:
  assumes "qws_inv c" "used_cells c = map Some xs" "n < length (filter (of_colour A i) xs)" "n < limit"
  shows "vfifo_read A D limit i n c = Some (Some (filter (of_colour A i) xs ! n), c)"
proof -
  let ?p = "nth_pos (of_colour A i) n xs"
  note p = nth_pos_found [OF assms(3)]
  have pl: "?p < length xs" using p by simp
  note x = used_as_cells [OF assms(1,2) pl]
  have b: "rindex c < fsize c" using frv_inv_bounds(1) [OF qws_inv_frv [OF assms(1)]] .
  then have loop: "vfifo_read_loop A D i n (rindex c) c = Some (ring_step (fsize c) (rindex c) ?p, c)"
    using vfifo_read_loop_pos [OF assms(1,2), of n A i 0 D] assms(3) by simp
  have get: "storage_get D (ring_step (fsize c) (rindex c) ?p) c = Some (xs ! ?p, c)"
    by (rule storage_get_cell [OF assms(1) x])
  have "length (storage c) = fsize c" using assms(1) by (simp add: qws_inv_def)
  then have "storage c ! ring_step (fsize c) (rindex c) ?p = Some (xs ! ?p)"
    using rotate_nth_step [of "rindex c" "storage c" ?p] b x by (simp add: ring_cells_def)
  then show ?thesis using loop get p assms(4) nth_pos_filter [OF assms(3)] by (simp add: vfifo_read_def)
qed

end
