(* ===== verification/Virtual_Fifo.thy ===== *)
theory Virtual_Fifo
  imports Multiplex_Refinement
begin

text \<open>
  The multiplex FIFO from elaboration on, and what a virtual FIFO looks like to its reader and writer.
\<close>

section \<open>Elaboration\<close>

text \<open>The outlets register in the order of construction, then the actors ask for events.\<close>

fun registerVOutlets :: "nat list \<Rightarrow> ('a, 'e) mux \<Rightarrow> ('a, 'e) mux option" where
  "registerVOutlets [] c = Some c"
| "registerVOutlets (i # is') c = do { c \<leftarrow> registerVOutlet i c; registerVOutlets is' c }"

fun register_mux_events :: "'e event_lib \<Rightarrow> (nat option \<times> nat) list \<Rightarrow> ('a, 'e) mux \<Rightarrow> ('a, 'e) mux option" where
  "register_mux_events E [] c = Some c"
| "register_mux_events E ((p, n) # rs) c = do {
     (e, c) \<leftarrow> (case p of None \<Rightarrow> mux_spaceAvailableEvent E n c | Some i \<Rightarrow> vo_dataAvailableEvent E i n c);
     register_mux_events E rs c
   }"

definition elaborate_mux :: "'e event_lib \<Rightarrow> nat \<Rightarrow> nat \<Rightarrow> 'a list \<Rightarrow> nat list \<Rightarrow> (nat option \<times> nat) list \<Rightarrow>
    ('a, 'e) mux option" where
  "elaborate_mux E n m marking is' rs = do {
     c \<leftarrow> mk_mux n m marking;
     c \<leftarrow> registerVOutlets is' c;
     register_mux_events E rs c
   }"

lemma mk_mux_ready:
  assumes "mk_mux n m ts = Some (c :: ('a, 'e) mux)"
  shows "qws_inv c" "depthCount c = n" "initialTokens c = ts" "fifoOutOfOrder c = m" "m + 1 \<le> n"
    "vOutlets c = []" "emmFree c = []" "fifo_abs c = \<lparr>sp_C = 0, sp_V = [], sp_P = []\<rparr>"
  using assms
  by (auto simp: mk_mux_def Let_def mk_qws_def mk_frvwq_def mk_rvwq_def mk_rwq_def qws.defs frvwq.defs rvwq.defs
      rwq.defs frv_areas_def used_cells_def qws_inv_def depthCount_def fifo_abs_def intro!: frv_invI split: if_splits)

lemma registerVOutlets_eq:
  "registerVOutlets is' c = Some c' \<longleftrightarrow> c' = c\<lparr>vOutlets := vOutlets c @ map (\<lambda>i. (i, mk_vfifo_outlet)) is'\<rparr> \<and>
     distinct is' \<and> set is' \<inter> fst ` set (vOutlets c) = {}"
proof (induction is' arbitrary: c)
  case (Cons i is')
  show ?case by (auto simp: Cons.IH registerVOutlet_def)
qed auto

text \<open>The events are the registered ones.\<close>

definition mux_keys :: "(nat \<times> 'e vfifo_outlet) list \<Rightarrow> bool" where
  "mux_keys vs \<longleftrightarrow> (\<forall>(i, v) \<in> set vs. emm_keys (vo_emmAvailable v) \<and> 0 \<notin> set (map fst (vo_emmAvailable v)))"

lemma mux_keys_upd:
  assumes "mux_keys vs" "emm_keys m" "0 \<notin> set (map fst m)"
  shows "mux_keys (vout_upd i (\<lambda>v. v\<lparr>vo_emmAvailable := m\<rparr>) vs)"
  unfolding mux_keys_def
proof
  fix x assume "x \<in> set (vout_upd i (\<lambda>v. v\<lparr>vo_emmAvailable := m\<rparr>) vs)"
  then obtain j v where "(j, v) \<in> set vs" "x = (if j = i then (j, v\<lparr>vo_emmAvailable := m\<rparr>) else (j, v))"
    by (auto simp: vout_upd_def)
  then show "case x of (i, v) \<Rightarrow> emm_keys (vo_emmAvailable v) \<and> 0 \<notin> set (map fst (vo_emmAvailable v))"
    using assms by (cases "j = i") (auto simp: mux_keys_def simp del: set_map)
qed

lemma register_mux_events_keys:
  "register_mux_events E rs c = Some c' \<Longrightarrow> emm_keys (emmFree c) \<Longrightarrow> mux_keys (vOutlets c) \<Longrightarrow> 0 \<notin> snd ` set rs \<Longrightarrow>
   \<exists>m vs. c' = c\<lparr>emmFree := m, vOutlets := vs\<rparr> \<and> emm_keys m \<and> mux_keys vs \<and> map fst vs = map fst (vOutlets c)"
proof (induction E rs c rule: register_mux_events.induct)
  case (1 E c)
  then show ?case by (intro exI [of _ "emmFree c"] exI [of _ "vOutlets c"]) simp
next
  case (2 E p n rs c)
  obtain e c1 where c1: "(case p of None \<Rightarrow> mux_spaceAvailableEvent E n c | Some i \<Rightarrow> vo_dataAvailableEvent E i n c) = Some (e, c1)"
      "register_mux_events E rs c1 = Some c'"
    using "2.prems"(1) by (auto simp: bind_eq_Some_iff)
  note IH = "2.IH" [OF c1(1) refl c1(2)]
  show ?case
  proof (cases p)
    case None
    then obtain m where m: "getEvent E n (emmFree c) = Some (e, m)" "c1 = c\<lparr>emmFree := m\<rparr>"
      using c1(1) by (auto simp: mux_spaceAvailableEvent_def bind_eq_Some_iff)
    have "emm_keys (emmFree c1)" using getEvent_fst(1) [OF "2.prems"(2) m(1)] by (simp add: m(2))
    then show ?thesis using IH "2.prems"(3,4) by (auto simp: m(2))
  next
    case (Some i)
    then obtain v m where v: "map_of (vOutlets c) i = Some v" "getEvent_at E (vo_countAvailable v) n (vo_emmAvailable v) = Some (e, m)"
        "c1 = c\<lparr>vOutlets := vout_upd i (\<lambda>v. v\<lparr>vo_emmAvailable := m\<rparr>) (vOutlets c)\<rparr>"
      using c1(1) by (auto simp: vo_dataAvailableEvent_def bind_eq_Some_iff)
    have k: "emm_keys (vo_emmAvailable v)" "0 \<notin> set (map fst (vo_emmAvailable v))"
      using "2.prems"(3) map_of_SomeD [OF v(1)] by (auto simp: mux_keys_def)
    have "emm_get (\<lambda>k. ev_new E (k \<le> vo_countAvailable v)) n (vo_emmAvailable v) = (e, m)"
      using v(2) by (auto simp: getEvent_at_def split: if_splits)
    from emm_get_set [OF k(1) this] have "emm_keys m" "set (map fst m) = insert n (set (map fst (vo_emmAvailable v)))"
      by auto
    then have "mux_keys (vOutlets c1)" "emm_keys (emmFree c1)"
      using mux_keys_upd [OF "2.prems"(3), of m i] k(2) "2.prems"(2,4) by (auto simp: v(3) simp del: set_map)
    then show ?thesis using IH "2.prems"(4) by (auto simp: v(3)) 
  qed
qed

lemma elaborate_mux_ready:
  assumes "elaborate_mux E n m ts is' rs = Some (c :: ('a, 'e) mux)" "is' \<noteq> []" "0 \<notin> snd ` set rs" "n < 2 ^ 64"
  shows "mux_ready A E c" "depthCount c = n" "initialTokens c = ts" "fifoOutOfOrder c = m" "colours c = set is'"
    "fifo_abs c = \<lparr>sp_C = 0, sp_V = [], sp_P = []\<rparr>" "m + 1 \<le> n"
proof -
  obtain c0 c1 :: "('a, 'e) mux" where c: "mk_mux n m ts = Some c0" "registerVOutlets is' c0 = Some c1" "register_mux_events E rs c1 = Some c"
    using assms(1) by (auto simp: elaborate_mux_def bind_eq_Some_iff)
  note c0 = mk_mux_ready [OF c(1)]
  have c1: "c1 = c0\<lparr>vOutlets := map (\<lambda>i. (i, mk_vfifo_outlet)) is'\<rparr>" "distinct is'"
    using c(2) c0(6) unfolding registerVOutlets_eq by simp_all
  have "emm_keys (emmFree c1)" "mux_keys (vOutlets c1)"
    using c0(7) by (auto simp: c1(1) mux_keys_def mk_vfifo_outlet_def)
  from register_mux_events_keys [OF c(3) this assms(3)] obtain f vs where
    cf: "c = c1\<lparr>emmFree := f, vOutlets := vs\<rparr>" "emm_keys f" "mux_keys vs" "map fst vs = map fst (vOutlets c1)" by blast
  have fst_vs: "map fst vs = is'" using cf(4) by (simp add: c1(1) o_def)
  then have ne: "vs \<noteq> []" using assms(2) by auto
  show "depthCount c = n" "initialTokens c = ts" "fifoOutOfOrder c = m" "m + 1 \<le> n"
      "fifo_abs c = \<lparr>sp_C = 0, sp_V = [], sp_P = []\<rparr>"
    using c0 by (simp_all add: cf(1) c1(1))
  show "colours c = set is'" using fst_vs by (simp add: cf(1)) (metis list.set_map)
  show "mux_ready A E c"
    using c0 cf(2,3) fst_vs c1(2) ne assms(4) by (simp add: mux_ready_def mux_wf_def mux_keys_def cf(1) c1(1))
qed

section \<open>The channel as its users see it\<close>

lemma mux_start_implements:
  assumes "mg_laws L" "event_laws E" "colour_law A" "elaborate_mux E n m ts is' rs = Some (c :: ('a, 'e) mux)"
    and "is' \<noteq> []" "0 \<notin> snd ` set rs" "n < 2 ^ 64"
    and "\<forall>op \<in> set (MuxReset # ops). mux_op_ok A (set is') ts op" "length ts \<le> m + 1"
  shows "mux_implements A E c (run_ops (mux_step L A E D) (MuxReset # ops) c)
    (run_ops (mux_spec_op A (m + 1) n ts) (MuxReset # ops) \<lparr>sp_C = 0, sp_V = [], sp_P = []\<rparr>)"
proof -
  note c = elaborate_mux_ready [OF assms(4-7)]
  have "mux_op_ok A (colours c) (initialTokens c) MuxReset" "length (initialTokens c) \<le> fifoOutOfOrder c + 1"
    unfolding c(3-5) using assms(8,9) by simp_all
  from mux_reset_implements [OF assms(1,2) c(1) this, of D]
  have r: "mux_implements A E c (mux_step L A E D MuxReset c)
      (mux_spec_op A (m + 1) n ts MuxReset \<lparr>sp_C = 0, sp_V = [], sp_P = []\<rparr>)" unfolding c(2-4,6) .
  show ?thesis
  proof (cases "mux_step L A E D MuxReset c")
    case None
    then have "mux_spec_op A (m + 1) n ts MuxReset \<lparr>sp_C = 0, sp_V = [], sp_P = []\<rparr> = None"
      using r by (simp only: mux_implements_simps)
    then show ?thesis using None by (simp only: run_ops.simps Option.bind.simps mux_implements_simps)
  next
    case (Some c1)
    then have s: "mux_spec_op A (m + 1) n ts MuxReset \<lparr>sp_C = 0, sp_V = [], sp_P = []\<rparr> = Some (fifo_abs c1)"
        "mux_inv A E c1" "same_mux c c1" using r by (simp_all only: mux_implements_simps)
    have same: "colours c1 = set is'" "initialTokens c1 = ts" "fifoOutOfOrder c1 = m" "depthCount c1 = n"
      using same_mux_colours [OF s(3)] s(3) c(2-5) by (simp_all add: same_mux_def)
    have "\<forall>op \<in> set ops. mux_op_ok A (colours c1) (initialTokens c1) op" "length (initialTokens c1) \<le> fifoOutOfOrder c1 + 1"
      unfolding same using assms(8,9) by simp_all
    from mux_run_implements [OF assms(1-3) s(2) this, of D]
    have "mux_implements A E c1 (run_ops (mux_step L A E D) ops c1) (run_ops (mux_spec_op A (m + 1) n ts) ops (fifo_abs c1))"
      unfolding same .
    then have "mux_implements A E c (run_ops (mux_step L A E D) ops c1) (run_ops (mux_spec_op A (m + 1) n ts) ops (fifo_abs c1))"
      using s(3) by (auto simp: mux_implements_def same_mux_def option.pred_set)
    then show ?thesis using Some s(1) by (simp only: run_ops.simps Option.bind.simps)
  qed
qed

text \<open>A concrete instance: tokens are pairs of a colour and a value.\<close>

definition pair_colour :: "(nat \<times> nat) colour_lib" where
  "pair_colour = \<lparr>col_get = fst, col_put = (\<lambda>i t. (i, snd t))\<rparr>"

lemma pair_colour_law: "colour_law pair_colour"
  by (simp add: colour_law_def pair_colour_def)

definition mux_example :: "(nat \<times> nat, bool \<times> nat) mux option" where
  "mux_example = elaborate_mux event_ref 4 1 [(0, 1), (1, 2)] [0, 1] [(Some 1, 2), (None, 1)]"

definition mux_example_ops :: "(nat \<times> nat) mux_op list" where
  "mux_example_ops = [VPut 1 [(0, 3), (0, 4)], PutDone 2, VGet 1 1]"

lemma mux_example_elaborates: "\<exists>c. mux_example = Some c"
  by (simp add: mux_example_def elaborate_mux_def mk_mux_def mk_qws_def mk_frvwq_def mk_rvwq_def mk_rwq_def
      qws.defs frvwq.defs rvwq.defs rwq.defs depthCount_def registerVOutlet_def mk_vfifo_outlet_def vout_upd_def Let_def
      vo_dataAvailableEvent_def mux_spaceAvailableEvent_def getEvent_at_def getEvent_def)

lemma mux_example_hyps:
  "[0, 1 :: nat] \<noteq> []" "0 \<notin> snd ` set [(Some (1 :: nat), 2 :: nat), (None, 1)]" "(4 :: nat) < 2 ^ 64"
  "\<forall>op \<in> set (MuxReset # mux_example_ops). mux_op_ok pair_colour (set [0, 1]) [(0, 1), (1, 2)] op"
  "length [(0 :: nat, 1 :: nat), (1, 2)] \<le> 1 + 1"
  by (simp_all add: mux_example_ops_def pair_colour_def)

lemma mux_example_spec:
  "run_ops (mux_spec_op pair_colour (1 + 1) 4 [(0, 1), (1, 2)]) (MuxReset # mux_example_ops) \<lparr>sp_C = 0, sp_V = [], sp_P = []\<rparr> =
   Some \<lparr>sp_C = 1, sp_V = [(0, 1), (1, 3), (1, 4)], sp_P = []\<rparr>"
  by (simp add: mux_example_ops_def pair_colour_def spec_used_def spec_avail_def ccount_def numeral_2_eq_2)

text \<open>
  The claims about the multiplex FIFO are for a channel with at least one virtual FIFO, whose initial
  tokens and operations name only colours that have a virtual FIFO, whose depth fits into 64 bits,
  whose events wait for positive amounts, and which has at most \<open>fifoOutOfOrder + 1\<close> initial tokens.
  What a reset does to the counts if there are more initial tokens is claim C31.
\<close>

text \<open>
  C27.  With at most \<open>fifoOutOfOrder + 1\<close> initial tokens, the multiplex FIFO refines a bounded queue from
  which the virtual FIFOs take tokens out of order: after elaboration and the initial reset, any sequence
  of writes, expiries, reads and resets that name only colours with a virtual FIFO leaves the tokens, in
  this order, that the specification computes, and an assertion fires exactly where the specification
  refuses the operation.
\<close>

theorem multiplex_refines_spec:
  assumes "mg_laws L" "event_laws E" "colour_law A" "elaborate_mux E n m ts is' rs = Some c"
    and "is' \<noteq> []" "0 \<notin> snd ` set rs" "n < 2 ^ 64"
    and "\<forall>op \<in> set (MuxReset # ops). mux_op_ok A (set is') ts op" "length ts \<le> m + 1"
  shows "map_option fifo_abs (run_ops (mux_step L A E D) (MuxReset # ops) c) =
    run_ops (mux_spec_op A (m + 1) n ts) (MuxReset # ops) \<lparr>sp_C = 0, sp_V = [], sp_P = []\<rparr>"
  using mux_start_implements [OF assms] by (simp only: mux_implements_def)

theorem multiplex_refines_spec_witness:
  "\<exists>c. mux_example = Some c \<and>
    map_option fifo_abs (run_ops (mux_step math_ref pair_colour event_ref None) (MuxReset # mux_example_ops) c) =
    Some \<lparr>sp_C = 1, sp_V = [(0, 1), (1, 3), (1, 4)], sp_P = []\<rparr>"
proof -
  obtain c where c: "mux_example = Some c" using mux_example_elaborates by blast
  show ?thesis
    using c multiplex_refines_spec [OF math_ref_laws event_ref_laws pair_colour_law c [unfolded mux_example_def] mux_example_hyps]
    unfolding mux_example_spec by blast
qed

text \<open>
  C28.  With at most \<open>fifoOutOfOrder + 1\<close> initial tokens, after any such run every virtual FIFO counts
  exactly the tokens of its colour in the window of the first \<open>fifoOutOfOrder + 1\<close> visible tokens, its
  event for \<open>k\<close> tokens is active if and only if \<open>k\<close> of them are there, and the events for free places of
  the shared queue are right too.
\<close>

theorem virtual_counts_exact:
  assumes "mg_laws L" "event_laws E" "colour_law A" "elaborate_mux E n m ts is' rs = Some c"
    and "is' \<noteq> []" "0 \<notin> snd ` set rs" "n < 2 ^ 64"
    and "\<forall>op \<in> set (MuxReset # ops). mux_op_ok A (set is') ts op" "length ts \<le> m + 1"
    and "run_ops (mux_step L A E D) (MuxReset # ops) c = Some c'"
  shows "(\<forall>(i, v) \<in> set (vOutlets c'). vo_countAvailable v = ccount A i (take (m + 1) (sp_V (fifo_abs c'))) \<and>
      (\<forall>(k, e) \<in> set (vo_emmAvailable v). ev_active E e \<longleftrightarrow> k \<le> vo_countAvailable v)) \<and>
    (\<forall>(k, e) \<in> set (emmFree c'). ev_active E e \<longleftrightarrow> k \<le> frv_freeCount L c')"
proof -
  have i: "mux_inv A E c'" "same_mux c c'"
    using mux_start_implements [OF assms(1-9), of D] unfolding assms(10) mux_implements_simps by blast+
  have m: "fifoOutOfOrder c' = m" using i(2) elaborate_mux_ready(4) [OF assms(4-7)] by (simp add: same_mux_def)
  have "frv_freeCount L c' = area_F (frv_areas c')"
    using frv_area_counts(2) [OF assms(1) qws_inv_frv [OF mux_inv_tokens(3) [OF i(1)]]] by simp
  moreover have "vo_countAvailable v = ccount A j (take (m + 1) (sp_V (fifo_abs c'))) \<and> emm_ok E (vo_countAvailable v) (vo_emmAvailable v)"
    if "(j, v) \<in> set (vOutlets c')" for j v
    using i(1) that by (fastforce simp: mux_inv_def mux_counted_def counted_def vo_ok_def spec_avail_def m)
  ultimately show ?thesis using i(1) by (fastforce simp: emm_ok_def mux_inv_def)
qed

theorem virtual_counts_exact_witness:
  "\<exists>c c'. mux_example = Some c \<and>
    run_ops (mux_step math_ref pair_colour event_ref None) (MuxReset # mux_example_ops) c = Some c' \<and>
    (\<forall>(i, v) \<in> set (vOutlets c'). vo_countAvailable v = ccount pair_colour i (take (1 + 1) (sp_V (fifo_abs c'))))"
proof -
  obtain c where c: "mux_example = Some c" using mux_example_elaborates by blast
  note e = math_ref_laws event_ref_laws pair_colour_law c [unfolded mux_example_def] mux_example_hyps
  have "run_ops (mux_step math_ref pair_colour event_ref None) (MuxReset # mux_example_ops) c \<noteq> None"
    using mux_start_implements [OF e, of None] unfolding mux_example_spec by (auto simp only: mux_implements_def)
  then obtain c' where "run_ops (mux_step math_ref pair_colour event_ref None) (MuxReset # mux_example_ops) c = Some c'" by blast
  then show ?thesis using virtual_counts_exact [OF e] c by fast
qed

section \<open>A virtual FIFO is a FIFO\<close>

text \<open>The tokens of one colour, and what an operation does to them.\<close>

definition lane :: "'a colour_lib \<Rightarrow> nat \<Rightarrow> 'a fifo_spec \<Rightarrow> 'a list" where
  "lane A i s = filter (of_colour A i) (sp_V s @ sp_P s)"

fun lane_op :: "'a colour_lib \<Rightarrow> 'a list \<Rightarrow> nat \<Rightarrow> 'a mux_op \<Rightarrow> 'a list \<Rightarrow> 'a list" where
  "lane_op A init i (VPut j ts) q = (if j = i then q @ map (col_put A i) ts else q)"
| "lane_op A init i (PlainPut ts) q = q @ filter (of_colour A i) ts"
| "lane_op A init i (VGet j n) q = (if j = i then drop n q else q)"
| "lane_op A init i MuxReset q = filter (of_colour A i) init"
| "lane_op A init i op q = q"

lemma filter_remove_first:
  "filter (of_colour A i) (remove_first (of_colour A j) n xs) =
   (if j = i then drop n (filter (of_colour A i) xs) else filter (of_colour A i) xs)"
  by (induction "of_colour A j" n xs rule: remove_first.induct) auto

lemma lane_step:
  assumes "colour_law A" "mux_spec_op A k d init op s = Some s'"
  shows "lane A i s' = lane_op A init i op (lane A i s)"
proof (cases op)
  case (VPut j ts)
  have "filter (of_colour A i) (map (col_put A j) ts) = (if j = i then map (col_put A i) ts else [])"
    using assms(1) by (auto simp: colour_law_def filter_map o_def filter_empty_conv)
  then show ?thesis using assms(2) VPut by (auto simp: lane_def split: if_splits)
next
  case (PlainPut ts)
  then show ?thesis using assms(2) by (auto simp: lane_def split: if_splits)
next
  case (PutDone n)
  have "filter P (take n xs) @ filter P (drop n xs) = filter P xs" for P and xs :: "'a list"
    by (metis append_take_drop_id filter_append)
  then show ?thesis using assms(2) PutDone by (auto simp: lane_def split: if_splits)
next
  case (VGet j n)
  have "n \<le> spec_avail A k s j \<Longrightarrow> n \<le> length (filter (of_colour A j) (sp_V s))"
    using length_filter_le by (metis append_take_drop_id ccount_def filter_append le_add1 length_append order_trans spec_avail_def)
  then show ?thesis using assms(2) VGet by (auto simp: lane_def filter_remove_first split: if_splits)
next
  case (GetDone n)
  then show ?thesis using assms(2) by (auto simp: lane_def split: if_splits)
next
  case MuxReset
  then show ?thesis using assms(2) by (auto simp: lane_def split: if_splits)
qed

lemma lane_run:
  assumes "colour_law A"
  shows "run_ops (mux_spec_op A k d init) ops s = Some s' \<Longrightarrow> lane A i s' = fold (lane_op A init i) ops (lane A i s)"
proof (induction ops arbitrary: s)
  case (Cons op ops)
  then obtain s1 where "mux_spec_op A k d init op s = Some s1" "run_ops (mux_spec_op A k d init) ops s1 = Some s'"
    by (auto simp: bind_eq_Some_iff)
  then show ?case using Cons.IH lane_step [OF assms] by auto
qed simp

text \<open>
  C29.  With at most \<open>fifoOutOfOrder + 1\<close> initial tokens, after any such run each virtual FIFO is a FIFO
  of its own: whatever the other colours do, the tokens of colour \<open>i\<close> in the channel are those written to
  it, in order, less those its reader took from the front.
\<close>

theorem virtual_fifo_order:
  assumes "mg_laws L" "event_laws E" "colour_law A" "elaborate_mux E n m ts is' rs = Some c"
    and "is' \<noteq> []" "0 \<notin> snd ` set rs" "n < 2 ^ 64"
    and "\<forall>op \<in> set (MuxReset # ops). mux_op_ok A (set is') ts op" "length ts \<le> m + 1"
    and "run_ops (mux_step L A E D) (MuxReset # ops) c = Some c'"
  shows "lane A i (fifo_abs c') = fold (lane_op A ts i) ops (filter (of_colour A i) ts)"
proof -
  have "run_ops (mux_spec_op A (m + 1) n ts) (MuxReset # ops) \<lparr>sp_C = 0, sp_V = [], sp_P = []\<rparr> = Some (fifo_abs c')"
    using mux_start_implements [OF assms(1-9), of D] unfolding assms(10) mux_implements_simps by blast
  from lane_run [OF assms(3) this, of i] show ?thesis by simp
qed

lemma mux_example_run:
  assumes "mux_example = Some c"
  shows "\<exists>c'. run_ops (mux_step math_ref pair_colour event_ref None) (MuxReset # mux_example_ops) c = Some c' \<and>
    mux_inv pair_colour event_ref c' \<and> fifo_abs c' = \<lparr>sp_C = 1, sp_V = [(0, 1), (1, 3), (1, 4)], sp_P = []\<rparr> \<and> fifoOutOfOrder c' = 1"
proof -
  note e = math_ref_laws event_ref_laws pair_colour_law assms [unfolded mux_example_def] mux_example_hyps
  have i: "mux_implements pair_colour event_ref c (run_ops (mux_step math_ref pair_colour event_ref None) (MuxReset # mux_example_ops) c)
      (Some \<lparr>sp_C = 1, sp_V = [(0, 1), (1, 3), (1, 4)], sp_P = []\<rparr>)"
    using mux_start_implements [OF e, of None] unfolding mux_example_spec .
  then obtain c' where c': "run_ops (mux_step math_ref pair_colour event_ref None) (MuxReset # mux_example_ops) c = Some c'"
    by (auto simp only: mux_implements_def map_option_eq_Some)
  with i show ?thesis using elaborate_mux_ready(4) [OF e(4-7)] unfolding c' mux_implements_simps same_mux_def by simp
qed

theorem virtual_fifo_order_witness:
  "\<exists>c c'. mux_example = Some c \<and>
    run_ops (mux_step math_ref pair_colour event_ref None) (MuxReset # mux_example_ops) c = Some c' \<and>
    lane pair_colour 1 (fifo_abs c') = [(1, 3), (1, 4)]"
proof -
  obtain c where c: "mux_example = Some c" using mux_example_elaborates by blast
  obtain c' where c': "run_ops (mux_step math_ref pair_colour event_ref None) (MuxReset # mux_example_ops) c = Some c'"
    using mux_example_run [OF c] by blast
  have "lane pair_colour 1 (fifo_abs c') = [(1, 3), (1, 4)]"
    unfolding virtual_fifo_order [OF math_ref_laws event_ref_laws pair_colour_law c [unfolded mux_example_def] mux_example_hyps c', of 1]
    by (simp add: mux_example_ops_def pair_colour_def)
  then show ?thesis using c c' by blast
qed

text \<open>
  A read through a virtual FIFO returns: offset \<open>k\<close> below the count of virtual FIFO \<open>i\<close> gives the \<open>k\<close>-th
  token of colour \<open>i\<close> in the channel, and the search leaves the channel as it was.
\<close>

theorem virtual_read_in_order:
  assumes "mux_inv A E c" "k < spec_avail A (fifoOutOfOrder c + 1) (fifo_abs c) i" "k < limit"
  shows "vfifo_read A D limit i k c = Some (Some (lane A i (fifo_abs c) ! k), c)"
proof -
  let ?xs = "map the (used_cells c)"
  note inv = mux_inv_tokens [OF assms(1)]
  have abs: "lane A i (fifo_abs c) = filter (of_colour A i) ?xs"
    unfolding fifo_abs_tokens [OF inv(1)] lane_def by (metis append_take_drop_id fifo_spec.select_convs(2,3) filter_append)
  have "spec_avail A (fifoOutOfOrder c + 1) (fifo_abs c) i \<le> length (filter (of_colour A i) (sp_V (fifo_abs c)))"
    unfolding spec_avail_def ccount_def by (metis append_take_drop_id filter_append le_add1 length_append)
  also have "\<dots> \<le> length (filter (of_colour A i) ?xs)" unfolding abs [symmetric] lane_def by simp
  finally have "k < length (filter (of_colour A i) ?xs)" using assms(2) by linarith
  then show ?thesis using vfifo_read_finds [OF inv(3,1) _ assms(3)] abs by simp
qed

theorem virtual_read_in_order_witness:
  "\<exists>c. mux_inv pair_colour event_ref c \<and> vfifo_read pair_colour None 1 1 0 c = Some (Some (1, 3), c)"
proof -
  obtain c where c: "mux_example = Some c" using mux_example_elaborates by blast
  obtain c' where c': "mux_inv pair_colour event_ref c'"
      "fifo_abs c' = \<lparr>sp_C = 1, sp_V = [(0, 1), (1, 3), (1, 4)], sp_P = []\<rparr>" "fifoOutOfOrder c' = 1"
    using mux_example_run [OF c] by blast
  have "0 < spec_avail pair_colour (fifoOutOfOrder c' + 1) (fifo_abs c') 1"
    by (simp add: c' spec_avail_def pair_colour_def numeral_2_eq_2)
  moreover have "lane pair_colour 1 (fifo_abs c') ! 0 = (1, 3)" by (simp add: c' lane_def pair_colour_def)
  ultimately show ?thesis using virtual_read_in_order [OF c'(1), of 0 1 1 None] c'(1) by auto
qed

text \<open>
  C31.  A reset tells the outlets about all initial tokens, also those beyond the window of the first
  \<open>fifoOutOfOrder + 1\<close>: the count of a virtual FIFO then exceeds what it may take by the initial tokens of its
  colour behind the window.
\<close>

theorem reset_counts_beyond_window:
  assumes "mg_laws L" "event_laws E" "mux_ready A E c" "length (initialTokens c) \<le> depthCount c"
    and "\<forall>t \<in> set (initialTokens c). col_get A t \<in> colours c"
  shows "\<exists>c'. mux_doReset L A E c = Some c' \<and> (\<forall>(i, v) \<in> set (vOutlets c').
    vo_countAvailable v = spec_avail A (fifoOutOfOrder c + 1) (fifo_abs c') i +
      ccount A i (drop (fifoOutOfOrder c + 1) (initialTokens c)))"
proof -
  obtain c' where c': "mux_doReset L A E c = Some c'"
    "fifo_abs c' = \<lparr>sp_C = 0, sp_V = initialTokens c, sp_P = []\<rparr>"
    "counted E (\<lambda>i. ccount A i (initialTokens c)) (vOutlets c')"
    using reset_step [OF assms] by blast
  have "ccount A i (take k xs) + ccount A i (drop k xs) = ccount A i xs" for i k xs
    by (metis append_take_drop_id ccount_simps(3))
  then show ?thesis using c' by (auto simp: counted_def vo_ok_def spec_avail_def)
qed

theorem reset_counts_beyond_window_witness:
  "\<exists>c c' v. elaborate_mux event_ref 2 0 [(0, 1), (0, 2)] [0] [] = Some c \<and>
    mux_doReset math_ref pair_colour event_ref c = Some c' \<and> (0, v) \<in> set (vOutlets c') \<and>
    vo_countAvailable v = spec_avail pair_colour 1 (fifo_abs c') 0 + 1"
proof -
  obtain c :: "(nat \<times> nat, bool \<times> nat) mux" where c: "elaborate_mux event_ref 2 0 [(0, 1), (0, 2)] [0] [] = Some c"
    by (simp add: elaborate_mux_def mk_mux_def mk_qws_def mk_frvwq_def mk_rvwq_def mk_rwq_def qws.defs frvwq.defs
        rvwq.defs rwq.defs depthCount_def registerVOutlet_def Let_def)
  have r: "mux_ready pair_colour event_ref c" "depthCount c = 2" "initialTokens c = [(0, 1), (0, 2)]"
      "fifoOutOfOrder c = 0" "colours c = {0}"
    using elaborate_mux_ready [OF c] by simp_all
  then have h: "length (initialTokens c) \<le> depthCount c" "\<forall>t \<in> set (initialTokens c). col_get pair_colour t \<in> colours c"
    by (simp_all add: pair_colour_def)
  obtain c' where c': "mux_doReset math_ref pair_colour event_ref c = Some c'"
    "\<forall>(i, v) \<in> set (vOutlets c'). vo_countAvailable v = spec_avail pair_colour (fifoOutOfOrder c + 1) (fifo_abs c') i +
      ccount pair_colour i (drop (fifoOutOfOrder c + 1) (initialTokens c))"
    using reset_counts_beyond_window [OF math_ref_laws event_ref_laws r(1) h] by blast
  obtain c2 where "mux_doReset math_ref pair_colour event_ref c = Some c2" "same_mux c c2"
    using reset_step [OF math_ref_laws event_ref_laws r(1) h] by blast
  then have "0 \<in> colours c'" using c'(1) same_mux_colours r(5) by force
  then obtain v where "(0, v) \<in> set (vOutlets c')" by auto
  then show ?thesis using c c' r(3,4) by (fastforce simp: pair_colour_def)
qed

end
