(* ===== verification/Channel_Adapter.thy ===== *)
theory Channel_Adapter
  imports Fifo_Channel
begin

text \<open>
  The adapters between TLM ports and SysteMoC channels
  (\<^verbatim>\<open>headers/systemoc/smoc_chan_adapter.hpp\<close>): a SystemC thread reads or writes a channel one token at
  a time through the blocking and non-blocking get, peek and put interfaces.
\<close>

section \<open>The channel side\<close>

text \<open>
  What the adapter calls of a \<^verbatim>\<open>smoc_port_in_if\<close>: the state of the event it took in its constructor, the
  element access, which yields a reference to the token in the channel, the look through that
  reference, and \<^verbatim>\<open>commExec\<close>.  \<open>in_load\<close> is \<open>None\<close> where the object has been destroyed.
\<close>

record ('a, 's) in_if =
  in_available :: "'s \<Rightarrow> bool"
  in_refer :: "nat \<Rightarrow> nat \<Rightarrow> 's \<Rightarrow> (nat \<times> 's) option"
  in_load :: "nat \<Rightarrow> 's \<Rightarrow> 'a option"
  in_commExec :: "nat \<Rightarrow> 's \<Rightarrow> 's option"

record ('a, 's) out_if =
  out_available :: "'s \<Rightarrow> bool"
  out_assign :: "nat \<Rightarrow> nat \<Rightarrow> 'a \<Rightarrow> 's \<Rightarrow> 's option"
  out_commExec :: "nat \<Rightarrow> 's \<Rightarrow> 's option"

text \<open>
  A call waits for its event, returns, hits an assertion, or reads a token that is no more.
\<close>

datatype ('r, 's) call = Waits | Returns 'r 's | Asserts | Dangles

fun load_call :: "'a option \<Rightarrow> 's \<Rightarrow> ('a, 's) call" where
  "load_call (Some t) s = Returns t s"
| "load_call None s = Dangles"

section \<open>The adapters\<close>

definition get_blocking :: "('a, 's) in_if \<Rightarrow> 's \<Rightarrow> ('a, 's) call" where
  "get_blocking I s = (if \<not> in_available I s then Waits
     else case in_refer I 1 0 s of None \<Rightarrow> Asserts
     | Some (x, s) \<Rightarrow> (case in_commExec I 1 s of None \<Rightarrow> Asserts
         | Some s \<Rightarrow> load_call (in_load I x s) s))"

definition get_blocking_void :: "('a, 's) in_if \<Rightarrow> 's \<Rightarrow> (unit, 's) call" where
  "get_blocking_void I s = (if \<not> in_available I s then Waits
     else case in_commExec I 1 s of None \<Rightarrow> Asserts | Some s \<Rightarrow> Returns () s)"

text \<open>\<^verbatim>\<open>nb_get\<close> copies the token before it consumes it; the result is the token, if there is one.\<close>

definition nb_get :: "('a, 's) in_if \<Rightarrow> 's \<Rightarrow> ('a option, 's) call" where
  "nb_get I s = (if \<not> in_available I s then Returns None s
     else case in_refer I 1 0 s of None \<Rightarrow> Asserts
     | Some (x, s) \<Rightarrow> (case in_load I x s of None \<Rightarrow> Dangles
         | Some t \<Rightarrow> (case in_commExec I 1 s of None \<Rightarrow> Asserts | Some s \<Rightarrow> Returns (Some t) s)))"

definition nb_get_void :: "('a, 's) in_if \<Rightarrow> 's \<Rightarrow> (bool, 's) call" where
  "nb_get_void I s = (if \<not> in_available I s then Returns False s
     else case in_commExec I 1 s of None \<Rightarrow> Asserts | Some s \<Rightarrow> Returns True s)"

definition nb_can_get :: "('a, 's) in_if \<Rightarrow> 's \<Rightarrow> bool" where
  "nb_can_get I s = in_available I s"

definition peek_blocking :: "('a, 's) in_if \<Rightarrow> 's \<Rightarrow> ('a, 's) call" where
  "peek_blocking I s = (if \<not> in_available I s then Waits
     else case in_refer I 1 0 s of None \<Rightarrow> Asserts | Some (x, s) \<Rightarrow> load_call (in_load I x s) s)"

definition peek_blocking_void :: "('a, 's) in_if \<Rightarrow> 's \<Rightarrow> (unit, 's) call" where
  "peek_blocking_void I s = (if \<not> in_available I s then Waits else Returns () s)"

definition nb_peek :: "('a, 's) in_if \<Rightarrow> 's \<Rightarrow> ('a option, 's) call" where
  "nb_peek I s = (if \<not> in_available I s then Returns None s
     else case in_refer I 1 0 s of None \<Rightarrow> Asserts
     | Some (x, s) \<Rightarrow> (case in_load I x s of None \<Rightarrow> Dangles | Some t \<Rightarrow> Returns (Some t) s))"

definition nb_peek_void :: "('a, 's) in_if \<Rightarrow> 's \<Rightarrow> (bool, 's) call" where
  "nb_peek_void I s = (if \<not> in_available I s then Returns False s else Returns True s)"

definition nb_can_peek :: "('a, 's) in_if \<Rightarrow> 's \<Rightarrow> bool" where
  "nb_can_peek I s = in_available I s"

definition put_blocking :: "('a, 's) out_if \<Rightarrow> 'a \<Rightarrow> 's \<Rightarrow> (unit, 's) call" where
  "put_blocking I t s = (if \<not> out_available I s then Waits
     else case out_assign I 1 0 t s of None \<Rightarrow> Asserts
     | Some s \<Rightarrow> (case out_commExec I 1 s of None \<Rightarrow> Asserts | Some s \<Rightarrow> Returns () s))"

definition put_blocking_void :: "('a, 's) out_if \<Rightarrow> 's \<Rightarrow> (unit, 's) call" where
  "put_blocking_void I s = (if \<not> out_available I s then Waits
     else case out_commExec I 1 s of None \<Rightarrow> Asserts | Some s \<Rightarrow> Returns () s)"

definition nb_put :: "('a, 's) out_if \<Rightarrow> 'a \<Rightarrow> 's \<Rightarrow> (bool, 's) call" where
  "nb_put I t s = (if \<not> out_available I s then Returns False s
     else case out_assign I 1 0 t s of None \<Rightarrow> Asserts
     | Some s \<Rightarrow> (case out_commExec I 1 s of None \<Rightarrow> Asserts | Some s \<Rightarrow> Returns True s))"

definition nb_put_void :: "('a, 's) out_if \<Rightarrow> 's \<Rightarrow> (bool, 's) call" where
  "nb_put_void I s = (if \<not> out_available I s then Returns False s
     else case out_commExec I 1 s of None \<Rightarrow> Asserts | Some s \<Rightarrow> Returns True s)"

definition nb_can_put :: "('a, 's) out_if \<Rightarrow> 's \<Rightarrow> bool" where
  "nb_can_put I s = out_available I s"

section \<open>What an adapter relies on\<close>

text \<open>
  A source has a list of tokens to read.  Whoever consumes a token destroys it: that is what the
  queue with storage does.
\<close>

locale token_source =
  fixes I :: "('a, 's) in_if" and inv :: "'s \<Rightarrow> bool" and front :: "'s \<Rightarrow> 'a list"
  assumes available: "inv s \<Longrightarrow> in_available I s \<longleftrightarrow> front s \<noteq> []"
    and refer: "inv s \<Longrightarrow> front s \<noteq> [] \<Longrightarrow> \<exists>x. in_refer I 1 0 s = Some (x, s) \<and> in_load I x s = Some (hd (front s)) \<and>
      (\<forall>s'. in_commExec I 1 s = Some s' \<longrightarrow> in_load I x s' = None)"
    and consume: "inv s \<Longrightarrow> front s \<noteq> [] \<Longrightarrow> \<exists>s'. in_commExec I 1 s = Some s' \<and> inv s' \<and> front s' = tl (front s)"
begin

lemma nb_get_front:
  "inv s \<Longrightarrow> front s = t # ts \<Longrightarrow> \<exists>s'. nb_get I s = Returns (Some t) s' \<and> in_commExec I 1 s = Some s' \<and> inv s' \<and> front s' = ts"
  using available [of s] refer [of s] consume [of s] by (auto simp: nb_get_def)

lemma nb_get_nothing: "inv s \<Longrightarrow> front s = [] \<Longrightarrow> nb_get I s = Returns None s"
  using available [of s] by (simp add: nb_get_def)

lemma peek_front:
  "inv s \<Longrightarrow> front s = t # ts \<Longrightarrow> nb_peek I s = Returns (Some t) s \<and> peek_blocking I s = Returns t s"
  using available [of s] refer [of s] by (auto simp: nb_peek_def peek_blocking_def)

lemma get_blocking_dangles: "inv s \<Longrightarrow> front s \<noteq> [] \<Longrightarrow> get_blocking I s = Dangles"
  using available [of s] refer [of s] consume [of s] by (auto simp: get_blocking_def)

lemma nothing_waits:
  "inv s \<Longrightarrow> front s = [] \<Longrightarrow> get_blocking I s = Waits \<and> peek_blocking I s = Waits \<and> nb_peek I s = Returns None s"
  using available [of s] by (simp add: get_blocking_def peek_blocking_def nb_peek_def)

end

locale token_sink =
  fixes I :: "('a, 's) out_if" and inv :: "'s \<Rightarrow> bool" and room :: "'s \<Rightarrow> bool" and accept :: "'a \<Rightarrow> 's \<Rightarrow> 's \<Rightarrow> bool"
  assumes available: "inv s \<Longrightarrow> out_available I s \<longleftrightarrow> room s"
    and produce: "inv s \<Longrightarrow> room s \<Longrightarrow> \<exists>s1 s'. out_assign I 1 0 t s = Some s1 \<and> out_commExec I 1 s1 = Some s' \<and> inv s' \<and> accept t s s'"
begin

lemma nb_put_room:
  "inv s \<Longrightarrow> room s \<Longrightarrow> \<exists>s'. nb_put I t s = Returns True s' \<and> put_blocking I t s = Returns () s' \<and> inv s' \<and> accept t s s'"
  using available [of s] produce [of s t] by (auto simp: nb_put_def put_blocking_def)

lemma nb_put_full: "inv s \<Longrightarrow> \<not> room s \<Longrightarrow> nb_put I t s = Returns False s \<and> put_blocking I t s = Waits"
  using available [of s] by (simp add: nb_put_def put_blocking_def)

end

section \<open>The FIFO channel behind an adapter\<close>

text \<open>The references are cell numbers.\<close>

definition event_active :: "'e event_lib \<Rightarrow> nat \<Rightarrow> 'e emm \<Rightarrow> bool" where
  "event_active E n m = (case map_of m n of None \<Rightarrow> False | Some e \<Rightarrow> ev_active E e)"

definition fifo_in_if :: "math_lib \<Rightarrow> 'e event_lib \<Rightarrow> 'a option \<Rightarrow> ('a, ('a, 'e) fifo_chan) in_if" where
  "fifo_in_if L E D = \<lparr>in_available = (\<lambda>c. event_active E 1 (emmData c)),
     in_refer = (\<lambda>limit n c. do {
       x \<leftarrow> ring_index limit (fsize c) (rindex c) n;
       (t, s) \<leftarrow> cell_get D (storage c ! x);
       Some (x, c\<lparr>storage := (storage c)[x := s]\<rparr>)
     }),
     in_load = (\<lambda>x c. storage c ! x),
     in_commExec = outlet_commExec L E\<rparr>"

definition fifo_out_if :: "math_lib \<Rightarrow> 'e event_lib \<Rightarrow> 'a option \<Rightarrow> ('a, ('a, 'e) fifo_chan) out_if" where
  "fifo_out_if L E D = \<lparr>out_available = (\<lambda>c. event_active E 1 (emmSpace c)),
     out_assign = (\<lambda>limit n t c. write_token limit n t c),
     out_commExec = entry_commExec L E D\<rparr>"

text \<open>The adapters' constructors have asked for the events, and the channel has been reset.\<close>

definition adapted :: "math_lib \<Rightarrow> 'e event_lib \<Rightarrow> ('a, 'e) fifo_chan \<Rightarrow> bool" where
  "adapted L E c \<longleftrightarrow> mg_laws L \<and> event_laws E \<and> fifo_inv E c \<and> 1 \<in> set (map fst (emmData c)) \<and> 1 \<in> set (map fst (emmSpace c))"

lemma event_active_ok:
  assumes "emm_ok E k m" "n \<in> set (map fst m)"
  shows "event_active E n m \<longleftrightarrow> n \<le> k"
proof -
  obtain e where "map_of m n = Some e" using assms(2) by (metis list.set_map map_of_eq_None_iff not_Some_eq)
  then show ?thesis using assms(1) map_of_SomeD [of m n e] by (auto simp: event_active_def emm_ok_def)
qed

lemma adapted_step:
  assumes "adapted L E c" "fifo_step L E D op c = Some c'"
  shows "adapted L E c'" "spec_op (depthCount c) (initialTokens c) op (fifo_abs c) = Some (fifo_abs c')" "same_chan c c'"
proof -
  have a: "mg_laws L" "event_laws E" "fifo_inv E c" using assms(1) by (simp_all add: adapted_def)
  note i = fifo_step_implements [OF a, of D op, unfolded assms(2) implements_Some]
  then show "spec_op (depthCount c) (initialTokens c) op (fifo_abs c) = Some (fifo_abs c')" "same_chan c c'" by simp_all
  have "map fst (emmData c') = map fst (emmData c)" "map fst (emmSpace c') = map fst (emmSpace c)"
    using i by (simp_all add: same_chan_def)
  then show "adapted L E c'" using assms(1) i unfolding adapted_def by metis
qed

lemma adapted_runs:
  assumes "adapted L E c" "spec_op (depthCount c) (initialTokens c) op (fifo_abs c) = Some s"
  shows "\<exists>c'. fifo_step L E D op c = Some c' \<and> adapted L E c' \<and> fifo_abs c' = s \<and> same_chan c c'"
proof -
  have a: "mg_laws L" "event_laws E" "fifo_inv E c" using assms(1) by (simp_all add: adapted_def)
  obtain c' where "fifo_step L E D op c = Some c'"
    using fifo_step_implements [OF a, of D op] assms(2) by (cases "fifo_step L E D op c") (simp_all add: implements_None)
  then show ?thesis using adapted_step [OF assms(1)] assms(2) by fastforce
qed

lemma consumed_cell_destroyed:
  assumes "outlet_commExec L E 1 c = Some c'" "rindex c < fsize c" "length (storage c) = fsize c"
  shows "storage c' ! rindex c = None"
proof -
  have "min 1 (fsize c - rindex c) = 1" using assms(2) by simp
  then show ?thesis
    using assms by (auto simp: outlet_commExec_def outlet_commStart_def outlet_commFinish_def readConsumeEventExpired_def
        qws_rpp_def Let_def rvw_rpp_def rw_rpp_def frv_fpp_def cell_invalidate_def bind_eq_Some_iff split: if_splits)
qed

lemma fifo_front_cell:
  assumes "adapted L E c" "sp_V (fifo_abs c) \<noteq> []"
  shows "\<exists>t. sp_V (fifo_abs c) = t # tl (sp_V (fifo_abs c)) \<and> storage c ! rindex c = Some t" "rindex c < fsize c"
proof -
  have inv: "fifo_inv E c" and q: "qws_inv c" using assms(1) by (simp_all add: adapted_def fifo_inv_def)
  show b: "rindex c < fsize c" using frv_inv_bounds(1) [OF qws_inv_frv [OF q]] .
  have n: "0 < area_V (frv_areas c)" "0 < length (used_cells c)"
    using assms(2) fifo_abs_used(1) [OF q] used_cells_areas [OF q] by (auto simp flip: length_greater_0_conv)
  have "used_cells c ! 0 \<in> set (used_cells c)" using n(2) by (rule nth_mem)
  then obtain t where t: "used_cells c ! 0 = Some t" using inv unfolding fifo_inv_def by blast
  have "hd (sp_V (fifo_abs c)) = t" using n t by (simp add: fifo_abs_def hd_conv_nth)
  moreover have "ring_cells c ! 0 = Some t" using t n(2) by (simp add: used_cells_def)
  then have "storage c ! rindex c = Some t"
    using rotate_nth_step [of "rindex c" "storage c" 0] b q by (cases "storage c") (auto simp: ring_cells_def qws_inv_def)
  ultimately show "\<exists>t. sp_V (fifo_abs c) = t # tl (sp_V (fifo_abs c)) \<and> storage c ! rindex c = Some t"
    using assms(2) by (metis list.collapse)
qed

lemma fifo_available:
  assumes "adapted L E c"
  shows "event_active E 1 (emmData c) \<longleftrightarrow> sp_V (fifo_abs c) \<noteq> []"
    and "event_active E 1 (emmSpace c) \<longleftrightarrow> spec_used (fifo_abs c) < depthCount c"
proof -
  have inv: "fifo_inv E c" "qws_inv c" using assms by (simp_all add: adapted_def fifo_inv_def)
  have "event_active E 1 (emmData c) \<longleftrightarrow> 1 \<le> area_V (frv_areas c)"
    using inv(1) assms by (intro event_active_ok) (simp_all add: fifo_inv_def adapted_def)
  then show "event_active E 1 (emmData c) \<longleftrightarrow> sp_V (fifo_abs c) \<noteq> []"
    using fifo_abs_used(1) [OF inv(2)] by (auto simp: Suc_le_eq simp flip: length_greater_0_conv)
  have "event_active E 1 (emmSpace c) \<longleftrightarrow> 1 \<le> area_F (frv_areas c)"
    using inv(1) assms by (intro event_active_ok) (simp_all add: fifo_inv_def adapted_def)
  then show "event_active E 1 (emmSpace c) \<longleftrightarrow> spec_used (fifo_abs c) < depthCount c"
    using fifo_abs_used(3) [OF inv(2)] by linarith
qed

text \<open>\<^verbatim>\<open>commExec\<close> of the two sides.\<close>

lemma fifo_consumes:
  assumes "adapted L E c" "sp_V (fifo_abs c) = t # ts"
  shows "\<exists>c'. outlet_commExec L E 1 c = Some c' \<and> adapted L E c' \<and> fifo_abs c' = (fifo_abs c)\<lparr>sp_V := ts\<rparr> \<and> same_chan c c'"
proof -
  have "spec_op (depthCount c) (initialTokens c) (GetStart 1) (fifo_abs c) =
      Some ((fifo_abs c)\<lparr>sp_C := sp_C (fifo_abs c) + 1, sp_V := ts\<rparr>)" using assms(2) by simp
  from adapted_runs [OF assms(1) this, of undefined] obtain c1 where
    c1: "outlet_commStart L E 1 c = Some c1" "adapted L E c1" "fifo_abs c1 = (fifo_abs c)\<lparr>sp_C := sp_C (fifo_abs c) + 1, sp_V := ts\<rparr>" "same_chan c c1"
    by auto
  have "spec_op (depthCount c1) (initialTokens c1) (GetFinish 1 False) (fifo_abs c1) = Some ((fifo_abs c)\<lparr>sp_V := ts\<rparr>)"
    unfolding c1(3) by simp
  from adapted_runs [OF c1(2) this, of undefined] obtain c' where
    "outlet_commFinish L E 1 False c1 = Some c'" "adapted L E c'" "fifo_abs c' = (fifo_abs c)\<lparr>sp_V := ts\<rparr>" "same_chan c1 c'"
    by auto
  then show ?thesis using c1 by (auto simp: outlet_commExec_def same_chan_def)
qed

lemma fifo_produces:
  assumes "adapted L E c" "spec_used (fifo_abs c) < depthCount c"
  shows "\<exists>c1 c'. write_token 1 0 t c = Some c1 \<and> entry_commExec L E D 1 c1 = Some c' \<and> adapted L E c' \<and>
    fifo_abs c' = (fifo_abs c)\<lparr>sp_V := sp_V (fifo_abs c) @ take 1 (sp_P (fifo_abs c) @ [t]), sp_P := drop 1 (sp_P (fifo_abs c) @ [t])\<rparr> \<and>
    same_chan c c'"
proof -
  have "spec_op (depthCount c) (initialTokens c) (PutStart [t]) (fifo_abs c) = Some ((fifo_abs c)\<lparr>sp_P := sp_P (fifo_abs c) @ [t]\<rparr>)"
    using assms(2) by simp
  from adapted_runs [OF assms(1) this, of D] obtain c2 where
    c2: "fifo_step L E D (PutStart [t]) c = Some c2" "adapted L E c2" "fifo_abs c2 = (fifo_abs c)\<lparr>sp_P := sp_P (fifo_abs c) @ [t]\<rparr>" "same_chan c c2"
    by blast
  obtain c1 where w: "write_token 1 0 t c = Some c1" "entry_commStart L E 1 c1 = Some c2"
    using c2(1) by (auto simp: bind_eq_Some_iff)
  have "spec_op (depthCount c2) (initialTokens c2) (PutFinish 1 False) (fifo_abs c2) =
      Some ((fifo_abs c)\<lparr>sp_V := sp_V (fifo_abs c) @ take 1 (sp_P (fifo_abs c) @ [t]), sp_P := drop 1 (sp_P (fifo_abs c) @ [t])\<rparr>)"
    unfolding c2(3) by simp
  from adapted_runs [OF c2(2) this, of D] obtain c' where
    "entry_commFinish L E D 1 False c2 = Some c'" "adapted L E c'" "same_chan c2 c'"
    "fifo_abs c' = (fifo_abs c)\<lparr>sp_V := sp_V (fifo_abs c) @ take 1 (sp_P (fifo_abs c) @ [t]), sp_P := drop 1 (sp_P (fifo_abs c) @ [t])\<rparr>"
    by auto
  then show ?thesis using w c2(4) by (auto simp: entry_commExec_def same_chan_def)
qed

interpretation fifo_src: token_source "fifo_in_if L E D" "adapted L E" "\<lambda>c. sp_V (fifo_abs c)"
  for L and E :: "'b event_lib" and D :: "'a option"
proof unfold_locales
  fix c :: "('a, 'b) fifo_chan" assume a: "adapted L E c"
  show "in_available (fifo_in_if L E D) c \<longleftrightarrow> sp_V (fifo_abs c) \<noteq> []"
    using fifo_available(1) [OF a] by (simp add: fifo_in_if_def)
  assume v: "sp_V (fifo_abs c) \<noteq> []"
  obtain t where t: "sp_V (fifo_abs c) = t # tl (sp_V (fifo_abs c))" "storage c ! rindex c = Some t"
    using fifo_front_cell(1) [OF a v] by blast
  note b = fifo_front_cell(2) [OF a v]
  have len: "length (storage c) = fsize c" using a by (simp add: adapted_def fifo_inv_def qws_inv_def)
  have "in_refer (fifo_in_if L E D) 1 0 c = Some (rindex c, c)"
    using t(2) b list_update_id [of "storage c" "rindex c"] by (simp add: fifo_in_if_def ring_index_def cell_get_def)
  moreover have "in_load (fifo_in_if L E D) (rindex c) c = Some (hd (sp_V (fifo_abs c)))"
    using t by (simp add: fifo_in_if_def) (metis list.sel(1))
  moreover have "in_load (fifo_in_if L E D) (rindex c) c' = None" if "in_commExec (fifo_in_if L E D) 1 c = Some c'" for c'
    using consumed_cell_destroyed [of L E c c'] that b len by (simp add: fifo_in_if_def)
  ultimately show "\<exists>x. in_refer (fifo_in_if L E D) 1 0 c = Some (x, c) \<and>
      in_load (fifo_in_if L E D) x c = Some (hd (sp_V (fifo_abs c))) \<and>
      (\<forall>c'. in_commExec (fifo_in_if L E D) 1 c = Some c' \<longrightarrow> in_load (fifo_in_if L E D) x c' = None)" by blast
  show "\<exists>c'. in_commExec (fifo_in_if L E D) 1 c = Some c' \<and> adapted L E c' \<and> sp_V (fifo_abs c') = tl (sp_V (fifo_abs c))"
    using fifo_consumes [OF a t(1)] by (auto simp: fifo_in_if_def)
qed

interpretation fifo_snk: token_sink "fifo_out_if L E D" "adapted L E" "\<lambda>c. spec_used (fifo_abs c) < depthCount c"
    "\<lambda>t c c'. fifo_abs c' = (fifo_abs c)\<lparr>sp_V := sp_V (fifo_abs c) @ take 1 (sp_P (fifo_abs c) @ [t]),
       sp_P := drop 1 (sp_P (fifo_abs c) @ [t])\<rparr> \<and> same_chan c c'"
  for L and E :: "'b event_lib" and D :: "'a option"
proof unfold_locales
  fix c :: "('a, 'b) fifo_chan" and t assume a: "adapted L E c"
  show "out_available (fifo_out_if L E D) c \<longleftrightarrow> spec_used (fifo_abs c) < depthCount c"
    using fifo_available(2) [OF a] by (simp add: fifo_out_if_def)
  assume "spec_used (fifo_abs c) < depthCount c"
  from fifo_produces [OF a this] show "\<exists>s1 s'. out_assign (fifo_out_if L E D) 1 0 t c = Some s1 \<and>
      out_commExec (fifo_out_if L E D) 1 s1 = Some s' \<and> adapted L E s' \<and>
      fifo_abs s' = (fifo_abs c)\<lparr>sp_V := sp_V (fifo_abs c) @ take 1 (sp_P (fifo_abs c) @ [t]),
       sp_P := drop 1 (sp_P (fifo_abs c) @ [t])\<rparr> \<and> same_chan c s'"
    by (simp add: fifo_out_if_def)
qed

section \<open>Properties\<close>

text \<open>The channel at the start of the simulation, with both adapters at it.\<close>

lemma adapted_start:
  assumes "mg_laws L" "event_laws E" "register_events E rs (mk_fifo_chan n ts) = Some (c :: ('a, 'e) fifo_chan)"
    and "(True, 1) \<in> set rs" "(False, 1) \<in> set rs" "length ts \<le> n"
  shows "\<exists>c'. fifo_step L E D ResetChan c = Some c' \<and> adapted L E c' \<and> fifo_abs c' = \<lparr>sp_C = 0, sp_V = ts, sp_P = []\<rparr> \<and> depthCount c' = n"
proof -
  note c = registered_chan [OF assms(3)]
  have "implements E c (fifo_step L E D ResetChan c) (spec_op n ts ResetChan \<lparr>sp_C = 0, sp_V = [], sp_P = []\<rparr>)"
    using reset_implements [OF assms(1,2) c(1-3), of D] unfolding c(4-6) .
  then obtain c' where c': "fifo_step L E D ResetChan c = Some c'" "fifo_inv E c'" "same_chan c c'"
      "fifo_abs c' = \<lparr>sp_C = 0, sp_V = ts, sp_P = []\<rparr>"
    using assms(6) by (cases "fifo_step L E D ResetChan c") (auto simp: implements_Some implements_None)
  have "1 \<in> set (map fst (emmData c'))" "1 \<in> set (map fst (emmSpace c'))"
    using c(8,9) assms(4,5) c'(3) unfolding same_chan_def by (metis mem_Collect_eq)+
  then show ?thesis using c' assms(1,2) c(4) by (simp add: adapted_def same_chan_def)
qed

lemma adapted_example:
  assumes "length ts \<le> n"
  shows "\<exists>c. adapted math_ref event_ref (c :: (nat, bool \<times> nat) fifo_chan) \<and> fifo_abs c = \<lparr>sp_C = 0, sp_V = ts, sp_P = []\<rparr> \<and> depthCount c = n"
proof -
  obtain c :: "(nat, bool \<times> nat) fifo_chan" where "register_events event_ref [(True, 1), (False, 1)] (mk_fifo_chan n ts) = Some c"
    by (simp add: dataAvailableEvent_def spaceAvailableEvent_def getEvent_def mk_fifo_chan_def qws.defs)
  from adapted_start [OF math_ref_laws event_ref_laws this _ _ assms, of None] show ?thesis by auto
qed

text \<open>
  C32.  The non-blocking interfaces of the adapters are exact on a FIFO: \<^verbatim>\<open>nb_get\<close> and \<^verbatim>\<open>nb_peek\<close> answer with
  the oldest visible token exactly when there is one, \<^verbatim>\<open>nb_get\<close> takes it out, \<^verbatim>\<open>nb_put\<close> succeeds exactly when a
  place is free and appends the token, and a refused call changes nothing.
\<close>

theorem adapter_nonblocking_exact:
  assumes "adapted L E c"
  shows "(case sp_V (fifo_abs c) of
      [] \<Rightarrow> nb_get (fifo_in_if L E D) c = Returns None c \<and> nb_peek (fifo_in_if L E D) c = Returns None c
    | t # ts \<Rightarrow> nb_peek (fifo_in_if L E D) c = Returns (Some t) c \<and>
        (\<exists>c'. nb_get (fifo_in_if L E D) c = Returns (Some t) c' \<and> adapted L E c' \<and> fifo_abs c' = (fifo_abs c)\<lparr>sp_V := ts\<rparr>)) \<and>
    (if spec_used (fifo_abs c) < depthCount c
     then \<exists>c'. nb_put (fifo_out_if L E D) u c = Returns True c' \<and> adapted L E c' \<and>
       sp_V (fifo_abs c') @ sp_P (fifo_abs c') = sp_V (fifo_abs c) @ sp_P (fifo_abs c) @ [u]
     else nb_put (fifo_out_if L E D) u c = Returns False c)"
proof
  show "case sp_V (fifo_abs c) of
      [] \<Rightarrow> nb_get (fifo_in_if L E D) c = Returns None c \<and> nb_peek (fifo_in_if L E D) c = Returns None c
    | t # ts \<Rightarrow> nb_peek (fifo_in_if L E D) c = Returns (Some t) c \<and>
        (\<exists>c'. nb_get (fifo_in_if L E D) c = Returns (Some t) c' \<and> adapted L E c' \<and> fifo_abs c' = (fifo_abs c)\<lparr>sp_V := ts\<rparr>)"
  proof (cases "sp_V (fifo_abs c)")
    case Nil
    then show ?thesis using fifo_src.nb_get_nothing [OF assms Nil] fifo_src.nothing_waits [OF assms Nil] by simp
  next
    case (Cons t ts)
    obtain c' where "nb_get (fifo_in_if L E D) c = Returns (Some t) c'" "in_commExec (fifo_in_if L E D) 1 c = Some c'"
      using fifo_src.nb_get_front [OF assms Cons] by blast
    then show ?thesis using fifo_consumes [OF assms Cons] fifo_src.peek_front [OF assms Cons] Cons by (auto simp: fifo_in_if_def)
  qed
  show "if spec_used (fifo_abs c) < depthCount c
     then \<exists>c'. nb_put (fifo_out_if L E D) u c = Returns True c' \<and> adapted L E c' \<and>
       sp_V (fifo_abs c') @ sp_P (fifo_abs c') = sp_V (fifo_abs c) @ sp_P (fifo_abs c) @ [u]
     else nb_put (fifo_out_if L E D) u c = Returns False c"
    using fifo_snk.nb_put_room [OF assms, of D u] fifo_snk.nb_put_full [OF assms, of D u] by (cases "sp_P (fifo_abs c)") auto
qed

theorem adapter_nonblocking_exact_witness:
  "\<exists>c c'. adapted math_ref event_ref (c :: (nat, bool \<times> nat) fifo_chan) \<and>
    nb_get (fifo_in_if math_ref event_ref None) c = Returns (Some 7) c' \<and>
    nb_put (fifo_out_if math_ref event_ref None) 9 c = Returns False c"
proof -
  obtain c :: "(nat, bool \<times> nat) fifo_chan" where c: "adapted math_ref event_ref c"
      "fifo_abs c = \<lparr>sp_C = 0, sp_V = [7, 8], sp_P = []\<rparr>" "depthCount c = 2"
    using adapted_example [of "[7, 8]" 2] by auto
  then show ?thesis
    using adapter_nonblocking_exact [OF c(1), of None 9] by (auto simp: spec_used_def)
qed

text \<open>Writing and reading a list through the adapters.\<close>

fun nb_puts :: "('a, 's) out_if \<Rightarrow> 'a list \<Rightarrow> 's \<Rightarrow> 's option" where
  "nb_puts I [] s = Some s"
| "nb_puts I (t # ts) s = (case nb_put I t s of Returns True s \<Rightarrow> nb_puts I ts s | _ \<Rightarrow> None)"

fun nb_gets :: "('a, 's) in_if \<Rightarrow> nat \<Rightarrow> 's \<Rightarrow> ('a list \<times> 's) option" where
  "nb_gets I 0 s = Some ([], s)"
| "nb_gets I (Suc n) s = (case nb_get I s of
     Returns (Some t) s \<Rightarrow> do { (ts, s) \<leftarrow> nb_gets I n s; Some (t # ts, s) } | _ \<Rightarrow> None)"

lemma nb_puts_all:
  "adapted L E c \<Longrightarrow> sp_P (fifo_abs c) = [] \<Longrightarrow> spec_used (fifo_abs c) + length ts \<le> depthCount c \<Longrightarrow>
   \<exists>c'. nb_puts (fifo_out_if L E D) ts c = Some c' \<and> adapted L E c' \<and> fifo_abs c' = (fifo_abs c)\<lparr>sp_V := sp_V (fifo_abs c) @ ts\<rparr>"
proof (induction ts arbitrary: c)
  case (Cons t ts)
  then obtain c1 where c1: "nb_put (fifo_out_if L E D) t c = Returns True c1" "adapted L E c1"
      "fifo_abs c1 = (fifo_abs c)\<lparr>sp_V := sp_V (fifo_abs c) @ [t], sp_P := []\<rparr>" "same_chan c c1"
    using fifo_snk.nb_put_room [OF Cons.prems(1), of D t] by auto
  have "spec_used (fifo_abs c1) + length ts \<le> depthCount c1" "sp_P (fifo_abs c1) = []"
    using c1(3,4) Cons.prems(2,3) by (simp_all add: spec_used_def same_chan_def)
  from Cons.IH [OF c1(2) this(2,1)] show ?case using c1 Cons.prems(2) by auto
qed simp

lemma nb_gets_all:
  "adapted L E c \<Longrightarrow> sp_V (fifo_abs c) = ts @ us \<Longrightarrow>
   \<exists>c'. nb_gets (fifo_in_if L E D) (length ts) c = Some (ts, c') \<and> adapted L E c' \<and> fifo_abs c' = (fifo_abs c)\<lparr>sp_V := us\<rparr>"
proof (induction ts arbitrary: c)
  case Nil
  then have "fifo_abs c = (fifo_abs c)\<lparr>sp_V := us\<rparr>" by simp
  with Nil show ?case by simp
next
  case (Cons t ts)
  have "sp_V (fifo_abs c) = t # ts @ us" using Cons.prems(2) by simp
  then obtain c1 where c1: "nb_get (fifo_in_if L E D) c = Returns (Some t) c1" "adapted L E c1" "fifo_abs c1 = (fifo_abs c)\<lparr>sp_V := ts @ us\<rparr>"
    using fifo_src.nb_get_front [OF Cons.prems(1), of t "ts @ us" D] fifo_consumes [OF Cons.prems(1), of t "ts @ us"]
    by (auto simp: fifo_in_if_def)
  from Cons.IH [OF c1(2)] show ?case using c1 by auto
qed

text \<open>
  C33.  Round trip: what a thread writes token by token into an idle FIFO with enough free places, another
  reads back, in order and complete, and the channel is as before.
\<close>

theorem adapter_roundtrip:
  assumes "adapted L E c" "sp_V (fifo_abs c) = []" "sp_P (fifo_abs c) = []" "spec_used (fifo_abs c) + length ts \<le> depthCount c"
  shows "\<exists>c1 c2. nb_puts (fifo_out_if L E D) ts c = Some c1 \<and> nb_gets (fifo_in_if L E D) (length ts) c1 = Some (ts, c2) \<and>
    fifo_abs c2 = fifo_abs c"
proof -
  obtain c1 where c1: "nb_puts (fifo_out_if L E D) ts c = Some c1" "adapted L E c1" "fifo_abs c1 = (fifo_abs c)\<lparr>sp_V := ts\<rparr>"
    using nb_puts_all [OF assms(1,3,4), of D] assms(2) by auto
  have "sp_V (fifo_abs c1) = ts @ []" using c1(3) by simp
  from nb_gets_all [OF c1(2) this, of D] obtain c2 where
    c2: "nb_gets (fifo_in_if L E D) (length ts) c1 = Some (ts, c2)" "fifo_abs c2 = (fifo_abs c)\<lparr>sp_V := []\<rparr>"
    unfolding c1(3) by auto
  have "fifo_abs c2 = fifo_abs c" unfolding c2(2) using assms(2) by simp
  then show ?thesis using c1(1) c2(1) by blast
qed

theorem adapter_roundtrip_witness:
  "\<exists>c c1 c2. adapted math_ref event_ref (c :: (nat, bool \<times> nat) fifo_chan) \<and>
    nb_puts (fifo_out_if math_ref event_ref None) [4, 5] c = Some c1 \<and> nb_gets (fifo_in_if math_ref event_ref None) 2 c1 = Some ([4, 5], c2)"
proof -
  obtain c :: "(nat, bool \<times> nat) fifo_chan" where c: "adapted math_ref event_ref c"
      "fifo_abs c = \<lparr>sp_C = 0, sp_V = [], sp_P = []\<rparr>" "depthCount c = 2"
    using adapted_example [of "[]" 2] by auto
  have "spec_used (fifo_abs c) + length [4, 5 :: nat] \<le> depthCount c" by (simp add: c spec_used_def)
  from adapter_roundtrip [OF c(1) _ _ this, of None] show ?thesis using c by (auto simp: numeral_2_eq_2)
qed

text \<open>
  The blocking \<^verbatim>\<open>get\<close> returns through a reference into the channel after it has consumed the token:
  whenever a token is there, it reads an object that \<^verbatim>\<open>rpp\<close> has destroyed.  \<^verbatim>\<open>peek\<close> and \<^verbatim>\<open>nb_get\<close> return the token.
\<close>

theorem blocking_get_reads_destroyed_token:
  assumes "adapted L E c" "sp_V (fifo_abs c) = t # ts"
  shows "get_blocking (fifo_in_if L E D) c = Dangles \<and> peek_blocking (fifo_in_if L E D) c = Returns t c \<and>
    (\<exists>c'. nb_get (fifo_in_if L E D) c = Returns (Some t) c')"
  using fifo_src.get_blocking_dangles [OF assms(1)] fifo_src.peek_front [OF assms] fifo_src.nb_get_front [OF assms] assms(2)
  by fastforce

theorem blocking_get_reads_destroyed_token_witness:
  "\<exists>c. sp_V (fifo_abs c) = [7] \<and> get_blocking (fifo_in_if math_ref event_ref None) (c :: (nat, bool \<times> nat) fifo_chan) = Dangles"
proof -
  obtain c :: "(nat, bool \<times> nat) fifo_chan" where c: "adapted math_ref event_ref c"
      "fifo_abs c = \<lparr>sp_C = 0, sp_V = [7], sp_P = []\<rparr>"
    using adapted_example [of "[7]" 2] by auto
  then have "sp_V (fifo_abs c) = 7 # []" by simp
  from blocking_get_reads_destroyed_token [OF c(1) this, of None] this show ?thesis by blast
qed

end
