(* ===== verification/Register_Channel.thy ===== *)
theory Register_Channel
  imports Queue_Storage CoSupport_Lib
begin

text \<open>
  Registers (\<^verbatim>\<open>RegisterChan\<close>, \<^verbatim>\<open>RegisterStorage\<close>, \<^verbatim>\<open>RegisterEntry\<close>, \<^verbatim>\<open>RegisterOutlet\<close>): a channel of one value that
  is overwritten and never consumed.  Every entry and outlet has an event that is always active.
\<close>

section \<open>The channel\<close>

record 'a reg_chan =
  rg_tokenId :: "64 word"
  rg_actualValue :: "'a option"

text \<open>\<^verbatim>\<open>chan_init::add\<close>, with the marking collected so far.\<close>

definition reg_init_add :: "bool \<Rightarrow> 'a list \<Rightarrow> 'a \<Rightarrow> 'a list option" where
  "reg_init_add created marking x = do {
     assert_that (\<not> created);
     assert_that (marking = []);
     Some (marking @ [x])
   }"

definition mk_reg_chan :: "'a list \<Rightarrow> 'a reg_chan option" where
  "mk_reg_chan marking = do {
     assert_that (length marking \<le> 1);
     let c = \<lparr>rg_tokenId = 0, rg_actualValue = None\<rparr>;
     Some (if 0 < length marking then c\<lparr>rg_actualValue := cell_put (marking ! 0) (rg_actualValue c)\<rparr> else c)
   }"

definition reg_isValid :: "'a reg_chan \<Rightarrow> bool" where
  "reg_isValid c = cell_isValid (rg_actualValue c)"

definition reg_doReset :: "'a reg_chan \<Rightarrow> 'a reg_chan" where
  "reg_doReset c = c\<lparr>rg_actualValue := cell_invalidate (rg_actualValue c)\<rparr>"

section \<open>Entries and outlets\<close>

record 'e reg_end =
  re_trueEvent :: 'e

definition mk_reg_end :: "'e event_lib \<Rightarrow> 'e reg_end" where
  "mk_reg_end E = \<lparr>re_trueEvent = ev_new E True\<rparr>"

definition reg_spaceAvailableEvent :: "'e reg_end \<Rightarrow> nat \<Rightarrow> 'e option" where
  "reg_spaceAvailableEvent e n = do { assert_that (n \<le> 1); Some (re_trueEvent e) }"

definition reg_dataAvailableEvent :: "'e reg_end \<Rightarrow> nat \<Rightarrow> 'e option" where
  "reg_dataAvailableEvent e n = do { assert_that (n \<le> 1); Some (re_trueEvent e) }"

definition reg_numFree :: "'a reg_chan \<Rightarrow> nat" where
  "reg_numFree c = 1"

definition reg_numAvailable :: "'a reg_chan \<Rightarrow> nat" where
  "reg_numAvailable c = 1"

text \<open>Access through the ports: reading may default-construct the value, as with the cells of a FIFO.\<close>

definition reg_read :: "'a option \<Rightarrow> nat \<Rightarrow> 'a reg_chan \<Rightarrow> ('a \<times> 'a reg_chan) option" where
  "reg_read D n c = do {
     assert_that (n = 0);
     (t, v) \<leftarrow> cell_get D (rg_actualValue c);
     Some (t, c\<lparr>rg_actualValue := v\<rparr>)
   }"

definition reg_write :: "nat \<Rightarrow> 'a \<Rightarrow> 'a reg_chan \<Rightarrow> 'a reg_chan option" where
  "reg_write n t c = do {
     assert_that (n = 0);
     Some (c\<lparr>rg_actualValue := cell_put t (rg_actualValue c)\<rparr>)
   }"

definition reg_entry_tokenIsValid :: "nat \<Rightarrow> 'a reg_chan \<Rightarrow> bool option" where
  "reg_entry_tokenIsValid n c = do { assert_that (n = 0); Some (reg_isValid c) }"

definition reg_outlet_tokenIsValid :: "nat \<Rightarrow> 'a reg_chan \<Rightarrow> bool option" where
  "reg_outlet_tokenIsValid n c = do { assert_that (n = 0); Some (reg_isValid c) }"

definition reg_entry_commStart :: "nat \<Rightarrow> 'a reg_chan \<Rightarrow> 'a reg_chan option" where
  "reg_entry_commStart n c = Some c"

definition reg_entry_commFinish :: "nat \<Rightarrow> bool \<Rightarrow> 'a reg_chan \<Rightarrow> 'a reg_chan option" where
  "reg_entry_commFinish n dropped c = do { assert_that (\<not> dropped); Some c }"

definition reg_entry_commExec :: "nat \<Rightarrow> 'a reg_chan \<Rightarrow> 'a reg_chan option" where
  "reg_entry_commExec n c = do { c \<leftarrow> reg_entry_commStart n c; reg_entry_commFinish n False c }"

definition reg_outlet_commStart :: "nat \<Rightarrow> 'a reg_chan \<Rightarrow> 'a reg_chan option" where
  "reg_outlet_commStart n c = Some c"

definition reg_outlet_commFinish :: "nat \<Rightarrow> bool \<Rightarrow> 'a reg_chan \<Rightarrow> 'a reg_chan option" where
  "reg_outlet_commFinish n dropped c = do { assert_that (\<not> dropped); Some c }"

definition reg_outlet_commExec :: "nat \<Rightarrow> 'a reg_chan \<Rightarrow> 'a reg_chan option" where
  "reg_outlet_commExec n c = do { c \<leftarrow> reg_outlet_commStart n c; reg_outlet_commFinish n False c }"

section \<open>Runs\<close>

datatype 'a reg_op = RegWrite 'a | RegRead | RegPut | RegGet | RegReset

fun reg_step :: "'a option \<Rightarrow> 'a reg_op \<Rightarrow> 'a reg_chan \<Rightarrow> 'a reg_chan option" where
  "reg_step D (RegWrite t) c = reg_write 0 t c"
| "reg_step D RegRead c = map_option snd (reg_read D 0 c)"
| "reg_step D RegPut c = reg_entry_commExec 1 c"
| "reg_step D RegGet c = reg_outlet_commExec 1 c"
| "reg_step D RegReset c = Some (reg_doReset c)"

text \<open>The last value written since the last reset.\<close>

fun last_written :: "'a option \<Rightarrow> 'a reg_op list \<Rightarrow> 'a option" where
  "last_written v [] = v"
| "last_written v (RegWrite t # ops) = last_written (Some t) ops"
| "last_written v (RegReset # ops) = last_written None ops"
| "last_written v (_ # ops) = last_written v ops"

lemma last_written_append: "last_written v (xs @ ys) = last_written (last_written v xs) ys"
  by (induction v xs rule: last_written.induct) simp_all

text \<open>A cell stands for the last value, or for the default that reading it has constructed.\<close>

definition reg_holds :: "'a option \<Rightarrow> 'a option \<Rightarrow> 'a reg_chan \<Rightarrow> bool" where
  "reg_holds D v c \<longleftrightarrow> rg_actualValue c = v \<or> v = None \<and> rg_actualValue c = D"

lemmas reg_defs = reg_write_def reg_read_def reg_doReset_def cell_put_def cell_get_def cell_invalidate_def
  reg_entry_commExec_def reg_entry_commStart_def reg_entry_commFinish_def
  reg_outlet_commExec_def reg_outlet_commStart_def reg_outlet_commFinish_def

lemma reg_step_holds:
  "reg_holds D v c \<Longrightarrow> reg_step D op c = Some c' \<Longrightarrow> reg_holds D (last_written v [op]) c'"
  by (cases op) (auto simp: reg_defs reg_holds_def split: option.splits)

lemma reg_run_holds:
  "reg_holds D v c \<Longrightarrow> run_ops (reg_step D) ops c = Some c' \<Longrightarrow> reg_holds D (last_written v ops) c'"
proof (induction ops arbitrary: v c)
  case (Cons op ops)
  obtain c1 where c1: "reg_step D op c = Some c1" "run_ops (reg_step D) ops c1 = Some c'"
    using Cons.prems(2) by (auto simp: bind_eq_Some_iff)
  have "last_written v (op # ops) = last_written (last_written v [op]) ops"
    using last_written_append [of v "[op]" ops] by simp
  then show ?case using Cons.IH [OF reg_step_holds [OF Cons.prems(1) c1(1)] c1(2)] by simp
qed simp

text \<open>
  C30.  A register holds the last value written.  After the reset at the start of the simulation and any run of
  writes, reads, communications and resets, a read gives the value written last, whoever reads and how
  often; before the first write after a reset it gives a default value, or hits an assertion when the type has
  none, and this whatever initial value the register was declared with.  The events of its ends are
  active all the time.
\<close>

theorem register_holds_last_write:
  assumes "mk_reg_chan marking = Some c" "run_ops (reg_step D) (RegReset # ops) c = Some c'" "event_laws E" "n \<le> 1"
  shows "map_option fst (reg_read D 0 c') = (case last_written None ops of Some t \<Rightarrow> Some t | None \<Rightarrow> D) \<and>
    map_option (ev_active E) (reg_dataAvailableEvent (mk_reg_end E) n) = Some True \<and>
    map_option (ev_active E) (reg_spaceAvailableEvent (mk_reg_end E) n) = Some True"
proof -
  have "reg_holds D None (reg_doReset c)" by (simp add: reg_holds_def reg_defs)
  moreover have "run_ops (reg_step D) ops (reg_doReset c) = Some c'" using assms(2) by simp
  ultimately have "reg_holds D (last_written None ops) c'" by (rule reg_run_holds)
  then have "map_option fst (reg_read D 0 c') = (case last_written None ops of Some t \<Rightarrow> Some t | None \<Rightarrow> D)"
    by (cases "last_written None ops"; cases D) (auto simp: reg_holds_def reg_defs)
  then show ?thesis
    using assms(3,4) by (simp add: reg_dataAvailableEvent_def reg_spaceAvailableEvent_def mk_reg_end_def)
qed

theorem register_holds_last_write_witness:
  "\<exists>c c0 c1. mk_reg_chan [5 :: nat] = Some c \<and> run_ops (reg_step None) [RegReset] c = Some c0 \<and> reg_read None 0 c0 = None \<and>
    run_ops (reg_step None) [RegReset, RegWrite 7, RegPut, RegRead, RegGet] c = Some c1 \<and> map_option fst (reg_read None 0 c1) = Some 7"
proof -
  obtain c where c: "mk_reg_chan [5 :: nat] = Some c" by (simp add: mk_reg_chan_def)
  obtain c0 where c0: "run_ops (reg_step None) [RegReset] c = Some c0" by simp
  obtain c1 where c1: "run_ops (reg_step None) [RegReset, RegWrite 7, RegPut, RegRead, RegGet] c = Some c1"
    by (simp add: reg_defs)
  from register_holds_last_write [OF c c0 event_ref_laws, of 1] register_holds_last_write [OF c c1 event_ref_laws, of 1]
  show ?thesis using c c0 c1 by simp
qed

end
