(* ===== verification/Channel_Names.thy ===== *)
theory Channel_Names
  imports Smoc_Prelude "HOL-Library.Multiset" "HOL-Library.Char_ord" "HOL-Library.List_Lexorder"
begin

text \<open>
  The names of channels (\<^verbatim>\<open>ChanBase::generateName\<close>).  A channel without a name is named after the actor ports it
  connects.  The ports come from maps whose order is that of pointers, so their names are sorted first.
\<close>

section \<open>Generating names\<close>

text \<open>Insertion into the \<^verbatim>\<open>std::set\<close>, which asserts that the name is new.\<close>

fun collect_names :: "string list \<Rightarrow> string list \<Rightarrow> string list option" where
  "collect_names [] names = Some names"
| "collect_names (n # ns) names = do {
     assert_that (n \<notin> set names);
     collect_names ns (insort n names)
   }"

fun write_bars :: "bool \<Rightarrow> string list \<Rightarrow> string" where
  "write_bars first [] = []"
| "write_bars first (n # ns) = (if first then [] else ''|'') @ n @ write_bars False ns"

record chan_base =
  cb_myName :: string
  cb_entries :: "string list"
  cb_outlets :: "string list"

text \<open>The generated names so far are in \<open>used\<close>, the static set \<^verbatim>\<open>_smoc_channel_names\<close>.\<close>

definition generateName :: "string list \<Rightarrow> chan_base \<Rightarrow> (string list \<times> chan_base) option" where
  "generateName used c = (if cb_myName c = [] then do {
       outputPorts \<leftarrow> collect_names (cb_entries c) [];
       inputPorts \<leftarrow> collect_names (cb_outlets c) [];
       let name = ''cf:'' @ write_bars True outputPorts @ ''->'' @ write_bars True inputPorts;
       assert_that (name \<notin> set used);
       Some (name # used, c\<lparr>cb_myName := name\<rparr>)
     } else Some (used, c))"

text \<open>All channels, before the end of elaboration.\<close>

fun name_channels :: "string list \<Rightarrow> chan_base list \<Rightarrow> chan_base list option" where
  "name_channels used [] = Some []"
| "name_channels used (c # cs) = do {
     (used, c) \<leftarrow> generateName used c;
     cs \<leftarrow> name_channels used cs;
     Some (c # cs)
   }"

section \<open>Names tell channels apart\<close>

definition chan_label :: "string list \<Rightarrow> string list \<Rightarrow> string" where
  "chan_label os is = ''cf:'' @ write_bars True (sort os) @ ''->'' @ write_bars True (sort is)"

lemma sort_same_set: "distinct xs \<Longrightarrow> distinct ys \<Longrightarrow> set xs = set ys \<Longrightarrow> sort xs = sort (ys :: 'a :: linorder list)"
  by (rule properties_for_sort) (simp_all add: set_eq_iff_mset_eq_distinct)

lemma collect_names_sort: "distinct (ns @ names) \<Longrightarrow> sorted names \<Longrightarrow> collect_names ns names = Some (sort (ns @ names))"
proof (induction ns arbitrary: names)
  case (Cons n ns)
  have "sort (ns @ insort n names) = sort ((n # ns) @ names)"
    by (rule properties_for_sort) (simp_all add: sorted_insort)
  then show ?case using Cons.IH [of "insort n names"] Cons.prems by (simp add: sorted_insort set_insort_key distinct_insort)
qed (simp add: sorted_sort_id)

lemma write_bars_inj_tail:
  "\<forall>n \<in> set xs. CHR ''|'' \<notin> set n \<Longrightarrow> \<forall>n \<in> set ys. CHR ''|'' \<notin> set n \<Longrightarrow> write_bars False xs = write_bars False ys \<Longrightarrow> xs = ys"
proof (induction xs arbitrary: ys)
  case Nil
  then show ?case by (cases ys) simp_all
next
  case (Cons x xs)
  then obtain y ys' where ys: "ys = y # ys'" by (cases ys) simp_all
  have front: "takeWhile (\<lambda>c. c \<noteq> CHR ''|'') (z @ write_bars False zs) = z" if "CHR ''|'' \<notin> set z" for z zs
  proof -
    have "takeWhile (\<lambda>c. c \<noteq> CHR ''|'') (z @ write_bars False zs) = z @ takeWhile (\<lambda>c. c \<noteq> CHR ''|'') (write_bars False zs)"
      by (rule takeWhile_append2) (use that in blast)
    then show ?thesis by (cases zs) simp_all
  qed
  have e: "x @ write_bars False xs = y @ write_bars False ys'" using Cons.prems(3) by (simp add: ys)
  then have "x = y" using front [of x xs] front [of y ys'] Cons.prems(1,2) by (simp add: ys)
  then show ?case using e Cons.IH [of ys'] Cons.prems(1,2) by (simp add: ys)
qed

lemma write_bars_inj:
  assumes "\<forall>n \<in> set xs. n \<noteq> [] \<and> CHR ''|'' \<notin> set n" "\<forall>n \<in> set ys. n \<noteq> [] \<and> CHR ''|'' \<notin> set n" "write_bars True xs = write_bars True ys"
  shows "xs = ys"
proof -
  have "write_bars False zs = (if zs = [] then [] else ''|'' @ write_bars True zs)" for zs by (cases zs) simp_all
  moreover have "xs = [] \<longleftrightarrow> ys = []" using assms by (cases xs; cases ys) auto
  ultimately have "write_bars False xs = write_bars False ys" using assms(3) by simp
  then show ?thesis using write_bars_inj_tail assms(1,2) by blast
qed

definition port_name_ok :: "string \<Rightarrow> bool" where
  "port_name_ok n \<longleftrightarrow> n \<noteq> [] \<and> CHR ''|'' \<notin> set n \<and> CHR ''>'' \<notin> set n"

lemma chan_label_inj:
  assumes "\<forall>n \<in> set os \<union> set is \<union> set os' \<union> set is'. port_name_ok n" "chan_label os is = chan_label os' is'"
  shows "set os = set os' \<and> set is = set is'"
proof -
  have chars: "set (write_bars b xs) \<subseteq> insert (CHR ''|'') (\<Union> (set ` set xs))" for b xs
    by (induction b xs rule: write_bars.induct) auto
  have no_gt: "CHR ''>'' \<notin> set (write_bars True (sort xs) @ ''-'')" if "\<forall>n \<in> set xs. port_name_ok n" for xs
    using chars [of True "sort xs"] that by (auto simp: port_name_ok_def)
  have split: "takeWhile (\<lambda>c. c \<noteq> CHR ''>'') ((write_bars True (sort xs) @ ''-'') @ CHR ''>'' # t) = write_bars True (sort xs) @ ''-''"
    if "\<forall>n \<in> set xs. port_name_ok n" for xs t
    using no_gt [OF that] by (subst takeWhile_append2) auto
  have e: "(write_bars True (sort os) @ ''-'') @ CHR ''>'' # write_bars True (sort is) =
      (write_bars True (sort os') @ ''-'') @ CHR ''>'' # write_bars True (sort is')"
    using assms(2) by (simp add: chan_label_def)
  then have "write_bars True (sort os) @ ''-'' = write_bars True (sort os') @ ''-''"
    using split [of os "write_bars True (sort is)"] split [of os' "write_bars True (sort is')"] assms(1) by simp
  then have "write_bars True (sort os) = write_bars True (sort os')" "write_bars True (sort is) = write_bars True (sort is')"
    using e by simp_all
  then have "sort os = sort os'" "sort is = sort is'" using assms(1) by (auto intro!: write_bars_inj simp: port_name_ok_def)
  then show ?thesis by (metis set_sort)
qed

text \<open>Ports belong to one channel each, and a channel without a name has a port.\<close>

definition chan_ports :: "chan_base \<Rightarrow> string list" where
  "chan_ports c = cb_entries c @ cb_outlets c"

definition channels_ok :: "chan_base list \<Rightarrow> bool" where
  "channels_ok cs \<longleftrightarrow> distinct (concat (map chan_ports cs)) \<and> list_all port_name_ok (concat (map chan_ports cs)) \<and>
     list_all (\<lambda>c. cb_myName c = [] \<longrightarrow> chan_ports c \<noteq> []) cs"

lemma channels_ok_suffix: "channels_ok (bs @ cs) \<Longrightarrow> channels_ok cs"
  by (simp add: channels_ok_def)

definition named :: "chan_base \<Rightarrow> chan_base" where
  "named c = (if cb_myName c = [] then c\<lparr>cb_myName := chan_label (cb_entries c) (cb_outlets c)\<rparr> else c)"

definition unnamed_labels :: "chan_base list \<Rightarrow> string list" where
  "unnamed_labels cs = map (\<lambda>c. chan_label (cb_entries c) (cb_outlets c)) (filter (\<lambda>c. cb_myName c = []) cs)"

lemma labels_differ:
  assumes "channels_ok (c # cs)" "d \<in> set cs" "cb_myName c = []"
  shows "chan_label (cb_entries c) (cb_outlets c) \<noteq> chan_label (cb_entries d) (cb_outlets d)"
proof
  assume e: "chan_label (cb_entries c) (cb_outlets c) = chan_label (cb_entries d) (cb_outlets d)"
  have "\<forall>n \<in> set (chan_ports c) \<union> set (chan_ports d). port_name_ok n" "set (chan_ports c) \<inter> set (chan_ports d) = {}" "chan_ports c \<noteq> []"
    using assms by (auto simp: channels_ok_def list_all_iff)
  then show False using chan_label_inj [OF _ e] by (auto simp: chan_ports_def)
qed

lemma unnamed_labels_distinct: "channels_ok cs \<Longrightarrow> distinct (unnamed_labels cs)"
proof (induction cs)
  case (Cons c cs)
  have "channels_ok cs" using Cons.prems by (auto simp: channels_ok_def)
  then show ?case using Cons.IH labels_differ [OF Cons.prems] by (auto simp: unnamed_labels_def)
qed (simp add: unnamed_labels_def)

lemma name_channels_named:
  "channels_ok cs \<Longrightarrow> set used \<inter> set (unnamed_labels cs) = {} \<Longrightarrow> name_channels used cs = Some (map named cs)"
proof (induction cs arbitrary: used)
  case (Cons c cs)
  have ok: "channels_ok cs" using Cons.prems(1) by (auto simp: channels_ok_def)
  show ?case
  proof (cases "cb_myName c = []")
    case True
    let ?l = "chan_label (cb_entries c) (cb_outlets c)"
    have "distinct (cb_entries c)" "distinct (cb_outlets c)" using Cons.prems(1) by (auto simp: channels_ok_def chan_ports_def)
    moreover have "?l \<notin> set used" using Cons.prems(2) True by (auto simp: unnamed_labels_def)
    ultimately have "generateName used c = Some (?l # used, named c)"
      using True by (simp add: generateName_def collect_names_sort named_def chan_label_def Let_def)
    moreover have "set (?l # used) \<inter> set (unnamed_labels cs) = {}"
      using Cons.prems(2) unnamed_labels_distinct [OF Cons.prems(1)] True by (auto simp: unnamed_labels_def)
    ultimately show ?thesis using Cons.IH [OF ok] by simp
  next
    case False
    then have "generateName used c = Some (used, named c)" by (simp add: generateName_def named_def)
    moreover have "unnamed_labels (c # cs) = unnamed_labels cs" using False by (simp add: unnamed_labels_def)
    ultimately show ?thesis using Cons.IH [OF ok] Cons.prems(2) by simp
  qed
qed simp

text \<open>
  C36.  Naming the channels succeeds when every port belongs to one channel, channels without a name have a port, and
  port names contain no bar and no \<^verbatim>\<open>>\<close>: no assertion fires, channels with a name keep it, the generated
  names are pairwise different, and they depend on the ports only, not on the order in which a channel has them.
\<close>

theorem channel_names_unique:
  assumes "channels_ok cs"
  shows "name_channels [] cs = Some (map named cs) \<and>
    (\<forall>i < length cs. \<forall>j < length cs. i \<noteq> j \<longrightarrow> cb_myName (cs ! i) = [] \<longrightarrow> cb_myName (cs ! j) = [] \<longrightarrow>
       cb_myName (named (cs ! i)) \<noteq> cb_myName (named (cs ! j))) \<and>
    (\<forall>c \<in> set cs. \<forall>d. set (cb_entries d) = set (cb_entries c) \<longrightarrow> distinct (cb_entries d) \<longrightarrow> set (cb_outlets d) = set (cb_outlets c) \<longrightarrow>
       distinct (cb_outlets d) \<longrightarrow> cb_myName d = cb_myName c \<longrightarrow> cb_myName (named d) = cb_myName (named c))"
proof (intro conjI)
  show "name_channels [] cs = Some (map named cs)" using name_channels_named [OF assms, of "[]"] by simp
  have differ: "cb_myName (named (cs ! i)) \<noteq> cb_myName (named (cs ! j))"
    if "i < j" "j < length cs" "cb_myName (cs ! i) = []" "cb_myName (cs ! j) = []" for i j
  proof -
    have d: "drop i cs = cs ! i # drop (Suc i) cs" using that by (simp add: Cons_nth_drop_Suc)
    have "channels_ok (drop i cs)" using channels_ok_suffix [of "take i cs" "drop i cs"] assms by simp
    moreover have "cs ! j \<in> set (drop (Suc i) cs)" using that by (auto simp: in_set_conv_nth intro!: exI [of _ "j - Suc i"])
    ultimately show ?thesis using labels_differ [of "cs ! i" "drop (Suc i) cs"] that(3,4) by (simp add: d named_def)
  qed
  show "\<forall>i < length cs. \<forall>j < length cs. i \<noteq> j \<longrightarrow> cb_myName (cs ! i) = [] \<longrightarrow> cb_myName (cs ! j) = [] \<longrightarrow>
      cb_myName (named (cs ! i)) \<noteq> cb_myName (named (cs ! j))"
    using differ by (metis linorder_neqE_nat)
  have "cb_myName (named d) = cb_myName (named c)"
    if "c \<in> set cs" "set (cb_entries d) = set (cb_entries c)" "distinct (cb_entries d)" "set (cb_outlets d) = set (cb_outlets c)"
      "distinct (cb_outlets d)" "cb_myName d = cb_myName c" for c d
  proof -
    have "distinct (chan_ports c)" using assms that(1) by (auto simp: channels_ok_def distinct_concat_iff dest: split_list)
    then have "sort (cb_entries d) = sort (cb_entries c)" "sort (cb_outlets d) = sort (cb_outlets c)"
      using that(2-5) sort_same_set [of "cb_entries d" "cb_entries c"] sort_same_set [of "cb_outlets d" "cb_outlets c"]
      by (auto simp: chan_ports_def)
    then show ?thesis using that(6) by (simp add: named_def chan_label_def)
  qed
  then show "\<forall>c \<in> set cs. \<forall>d. set (cb_entries d) = set (cb_entries c) \<longrightarrow> distinct (cb_entries d) \<longrightarrow> set (cb_outlets d) = set (cb_outlets c) \<longrightarrow>
      distinct (cb_outlets d) \<longrightarrow> cb_myName d = cb_myName c \<longrightarrow> cb_myName (named d) = cb_myName (named c)" by blast
qed

theorem channel_names_unique_witness:
  "\<exists>a b. name_channels [] [\<lparr>cb_myName = [], cb_entries = [''top.src.o''], cb_outlets = [''top.b.i'', ''top.a.i'']\<rparr>,
      \<lparr>cb_myName = [], cb_entries = [''top.a.o''], cb_outlets = [''top.snk.i'']\<rparr>] = Some [a, b] \<and>
    cb_myName a = ''cf:top.src.o->top.a.i|top.b.i'' \<and> cb_myName a \<noteq> cb_myName b"
proof -
  let ?c = "\<lparr>cb_myName = [], cb_entries = [''top.src.o''], cb_outlets = [''top.b.i'', ''top.a.i'']\<rparr>"
    and ?d = "\<lparr>cb_myName = [], cb_entries = [''top.a.o''], cb_outlets = [''top.snk.i'']\<rparr>"
  have "channels_ok [?c, ?d]" by (simp add: channels_ok_def chan_ports_def port_name_ok_def)
  note u = channel_names_unique [OF this]
  have "cb_myName (named ?c) \<noteq> cb_myName (named ?d)" using u [THEN conjunct2, THEN conjunct1, rule_format, of 0 1] by simp
  moreover have "cb_myName (named ?c) = ''cf:top.src.o->top.a.i|top.b.i''" by code_simp
  ultimately show ?thesis using u [THEN conjunct1] by (intro exI [of _ "named ?c"] exI [of _ "named ?d"]) simp
qed

end
