(* ===== verification/Ports.thy ===== *)
theory Ports
  imports Fifo_Channel
begin

text \<open>
  The ports of actors: \<^verbatim>\<open>PortBase\<close>, \<^verbatim>\<open>PortInBase\<close>, \<^verbatim>\<open>PortOutBase\<close>
  (\<^verbatim>\<open>headers/smoc/detail/PortBase.hpp\<close>, \<^verbatim>\<open>cpp/detail/PortBase.cpp\<close>) and
  \<^verbatim>\<open>smoc_port_out\<close>.  An output port may be bound to several channels; it writes each token to the
  first and copies it to the others.
\<close>

section \<open>The hierarchy of ports\<close>

record port_links =
  pl_parent :: "nat \<Rightarrow> nat option"
  pl_child :: "nat \<Rightarrow> nat option"

definition no_links :: port_links where
  "no_links = \<lparr>pl_parent = (\<lambda>_. None), pl_child = (\<lambda>_. None)\<rparr>"

definition bind_port :: "nat \<Rightarrow> nat \<Rightarrow> port_links \<Rightarrow> port_links option" where
  "bind_port this parent P = do {
     assert_that (pl_parent P this = None \<and> pl_child P parent = None);
     Some (P\<lparr>pl_parent := (pl_parent P)(this := Some parent), pl_child := (pl_child P)(parent := Some this)\<rparr>)
   }"

definition getParentPort :: "nat \<Rightarrow> port_links \<Rightarrow> nat option" where
  "getParentPort this P = pl_parent P this"

text \<open>The loop of \<^verbatim>\<open>getActorPort\<close>; it does not return when the links form a cycle.\<close>

partial_function (option) follow_children :: "(nat \<Rightarrow> nat option) \<Rightarrow> nat \<Rightarrow> nat option" where
  [code]: "follow_children ch p = (case ch p of None \<Rightarrow> Some p | Some c \<Rightarrow> follow_children ch c)"

definition getActorPort :: "nat \<Rightarrow> port_links \<Rightarrow> nat option" where
  "getActorPort this P = follow_children (pl_child P) this"

fun bind_all :: "(nat \<times> nat) list \<Rightarrow> port_links \<Rightarrow> port_links option" where
  "bind_all [] P = Some P"
| "bind_all ((this, parent) # bs) P = do { P \<leftarrow> bind_port this parent P; bind_all bs P }"

section \<open>Interfaces\<close>

text \<open>A \<^verbatim>\<open>sc_interface *\<close>: null, of another class, or an interface of the class the port expects.\<close>

datatype 'i sc_interface = NullIf | OtherIf string | ChanIf 'i

text \<open>\<open>access i\<close> is \<^verbatim>\<open>i->getChannelAccess()\<close>.\<close>

record ('i, 'a) port_in =
  pi_name :: string
  pi_interface :: "'i option"
  pi_portAccess :: "'a option"

definition mk_port_in :: "string \<Rightarrow> ('i, 'a) port_in" where
  "mk_port_in name = \<lparr>pi_name = name, pi_interface = None, pi_portAccess = None\<rparr>"

definition pi_interface_count :: "('i, 'a) port_in \<Rightarrow> nat" where
  "pi_interface_count p = (if pi_interface p \<noteq> None then 1 else 0)"

definition dynamic_cast :: "'i sc_interface \<Rightarrow> 'i option" where
  "dynamic_cast iface = (case iface of ChanIf i \<Rightarrow> Some i | _ \<Rightarrow> None)"

definition pi_add_interface :: "('i \<Rightarrow> 'a) \<Rightarrow> 'i sc_interface \<Rightarrow> ('i, 'a) port_in \<Rightarrow> ('i, 'a) port_in result" where
  "pi_add_interface access iface p =
     (if iface = NullIf then Inl (RuntimeError (''Tried to add null channel interface to port '' @ pi_name p @ ''!''))
      else let i = dynamic_cast iface in
        if iface = NullIf then Inl (RuntimeError ''Tried to add wrong channel interface'')
        else if pi_interface p \<noteq> None then
          Inl (RuntimeError (''Tried to add multiple channel interfaces to port '' @ pi_name p @ ''!''))
        else (let p = p\<lparr>pi_interface := i\<rparr> in
          case i of None \<Rightarrow> Inl NullDeref | Some c \<Rightarrow> Inr (p\<lparr>pi_portAccess := Some (access c)\<rparr>)))"

record ('i, 'a) port_out =
  po_interfaces :: "'i list"
  po_portAccesses :: "'a list"
  po_portAccess :: "'a option"
  po_blockEventMap :: "(nat \<times> nat list) list"

definition mk_port_out :: "('i, 'a) port_out" where
  "mk_port_out = \<lparr>po_interfaces = [], po_portAccesses = [], po_portAccess = None, po_blockEventMap = []\<rparr>"

definition po_interface_count :: "('i, 'a) port_out \<Rightarrow> nat" where
  "po_interface_count p = length (po_interfaces p)"

definition po_add_interface :: "('i \<Rightarrow> 'a) \<Rightarrow> 'i sc_interface \<Rightarrow> ('i, 'a) port_out \<Rightarrow> ('i, 'a) port_out result" where
  "po_add_interface access iface p =
     (if iface = NullIf then Inl (RuntimeError ''Tried to add null channel interface to port!'')
      else (case dynamic_cast iface of
          None \<Rightarrow> Inl (RuntimeError ''Tried to add wrong channel interface to port!'')
        | Some i \<Rightarrow> (let
              p = p\<lparr>po_interfaces := po_interfaces p @ [i]\<rparr>;
              p = p\<lparr>po_portAccesses := po_portAccesses p @ [access i]\<rparr>
            in Inr (if po_portAccess p = None then p\<lparr>po_portAccess := Some (access i)\<rparr> else p))))"

text \<open>
  \<^verbatim>\<open>blockEvent\<close>: with several channels, the conjunction of their events, built once for every
  number of places.  \<open>ev i n\<close> is the event of channel \<open>i\<close>.  The result is the list of events to wait for.
\<close>

definition po_blockEvent :: "('i \<Rightarrow> nat \<Rightarrow> nat) \<Rightarrow> nat \<Rightarrow> ('i, 'a) port_out \<Rightarrow> (nat list \<times> ('i, 'a) port_out) option" where
  "po_blockEvent ev n p =
     (if length (po_interfaces p) > 1 then
        (case map_of (po_blockEventMap p) n of
          Some es \<Rightarrow> Some (es, p)
        | None \<Rightarrow> (let es = foldl (\<lambda>es i. if ev i n \<in> set es then es else es @ [ev i n]) [] (po_interfaces p)
            in Some (es, p\<lparr>po_blockEventMap := (n, es) # po_blockEventMap p\<rparr>)))
      else do {
        assert_that (length (po_interfaces p) = 1);
        Some ([ev (hd (po_interfaces p)) n], p)
      })"

text \<open>\<^verbatim>\<open>numFree\<close> starts from the largest \<^verbatim>\<open>size_t\<close>.\<close>

definition po_numFree :: "('i \<Rightarrow> nat) \<Rightarrow> ('i, 'a) port_out \<Rightarrow> nat" where
  "po_numFree free p = foldl (\<lambda>n i. min n (free i)) (2 ^ 64 - 1) (po_interfaces p)"

section \<open>Communication\<close>

text \<open>
  The channels of an output port, the first of which the actor writes to.  Reading back through a
  write access uses the non-const cell.
\<close>

definition access_get :: "nat \<Rightarrow> 'a option \<Rightarrow> nat \<Rightarrow> ('a, 'z) qws_scheme \<Rightarrow> ('a \<times> ('a, 'z) qws_scheme) option" where
  "access_get limit D n q = do {
     i \<leftarrow> ring_index limit (fsize q) (windex q) n;
     (t, c) \<leftarrow> cell_get D (storage q ! i);
     Some (t, q\<lparr>storage := (storage q)[i := c]\<rparr>)
   }"

text \<open>The inner loop of \<^verbatim>\<open>duplicateOutput\<close>: positions \<open>i, \<dots>\<close>, \<open>k\<close> of them.\<close>

fun duplicate_to :: "nat \<Rightarrow> 'a option \<Rightarrow> nat \<Rightarrow> nat \<Rightarrow> ('a, 'y) qws_scheme \<Rightarrow> ('a, 'z) qws_scheme \<Rightarrow>
    (('a, 'y) qws_scheme \<times> ('a, 'z) qws_scheme) option" where
  "duplicate_to limit D i 0 first access = Some (first, access)"
| "duplicate_to limit D i (Suc k) first access = do {
     (t, first) \<leftarrow> access_get limit D i first;
     access \<leftarrow> write_token limit i t access;
     duplicate_to limit D (Suc i) k first access
   }"

fun duplicate_all :: "nat \<Rightarrow> 'a option \<Rightarrow> nat \<Rightarrow> ('a, 'y) qws_scheme \<Rightarrow> ('a, 'z) qws_scheme list \<Rightarrow>
    (('a, 'y) qws_scheme \<times> ('a, 'z) qws_scheme list) option" where
  "duplicate_all limit D n first [] = Some (first, [])"
| "duplicate_all limit D n first (access # rest) = do {
     (first, access) \<leftarrow> duplicate_to limit D 0 n first access;
     (first, rest) \<leftarrow> duplicate_all limit D n first rest;
     Some (first, access # rest)
   }"

definition duplicateOutput :: "nat \<Rightarrow> 'a option \<Rightarrow> nat \<Rightarrow> ('a, 'z) qws_scheme list \<Rightarrow> ('a, 'z) qws_scheme list option" where
  "duplicateOutput limit D n cs = (case cs of
       [] \<Rightarrow> None
     | c # cs \<Rightarrow> do { (c, cs) \<leftarrow> duplicate_all limit D n c cs; Some (c # cs) })"

fun each :: "('c \<Rightarrow> 'c option) \<Rightarrow> 'c list \<Rightarrow> 'c list option" where
  "each f [] = Some []"
| "each f (c # cs) = do { c \<leftarrow> f c; cs \<leftarrow> each f cs; Some (c # cs) }"

definition po_commStart :: "math_lib \<Rightarrow> 'e event_lib \<Rightarrow> nat \<Rightarrow> 'a option \<Rightarrow> nat \<Rightarrow> ('a, 'e, 'z) chan list \<Rightarrow>
    ('a, 'e, 'z) chan list option" where
  "po_commStart L E limit D n cs = do {
     cs \<leftarrow> duplicateOutput limit D n cs;
     each (entry_commStart L E n) cs
   }"

definition po_commFinish :: "math_lib \<Rightarrow> 'e event_lib \<Rightarrow> 'a option \<Rightarrow> nat \<Rightarrow> ('a, 'e, 'z) chan list \<Rightarrow>
    ('a, 'e, 'z) chan list option" where
  "po_commFinish L E D n cs = each (entry_commFinish L E D n False) cs"

definition po_commExec :: "math_lib \<Rightarrow> 'e event_lib \<Rightarrow> nat \<Rightarrow> 'a option \<Rightarrow> nat \<Rightarrow> ('a, 'e, 'z) chan list \<Rightarrow>
    ('a, 'e, 'z) chan list option" where
  "po_commExec L E limit D n cs = do {
     cs \<leftarrow> duplicateOutput limit D n cs;
     each (entry_commExec L E D n) cs
   }"

text \<open>An action that writes the tokens \<open>ts\<close>, followed by the communication of the firing.\<close>

definition fire_output :: "math_lib \<Rightarrow> 'e event_lib \<Rightarrow> 'a option \<Rightarrow> 'a list \<Rightarrow> ('a, 'e, 'z) chan list \<Rightarrow>
    ('a, 'e, 'z) chan list option" where
  "fire_output L E D ts cs = (case cs of [] \<Rightarrow> None
     | c # cs \<Rightarrow> do {
         c \<leftarrow> write_tokens (length ts) 0 ts c;
         po_commExec L E (length ts) D (length ts) (c # cs)
       })"

section \<open>Every channel gets the tokens\<close>

text \<open>Reading a written cell back through the write access returns the token and changes nothing.\<close>

lemma access_get_written:
  fixes q :: "('a, 'z) qws_scheme"
  assumes "qws_inv q" "n < limit" "n < area_F (frv_areas q)"
    and "ring_cells q ! (length (used_cells q) + n) = Some t"
  shows "access_get limit D n q = Some (t, q)"
proof -
  have inv: "frv_inv q" and len: "length (storage q) = fsize q" using assms(1) by (auto simp: qws_inv_def)
  note b = frv_inv_bounds [OF inv] and s = frv_inv_split [OF inv]
  let ?u = "ring_dist (fsize q) (rindex q) (windex q)" and ?i = "ring_step (fsize q) (windex q) n"
  have n: "?u + n < fsize q"
    using assms(3) s unfolding frv_areas_def areas.simps by linarith
  have "ring_step (fsize q) (windex q) n = ring_step (fsize q) (rindex q) (?u + n)"
    using ring_step_step [of "rindex q" "fsize q" ?u n] b n by simp
  then have "storage q ! ?i = Some t"
    using rotate_nth_step [of "rindex q" "storage q" "?u + n"] n b len assms(4)
    by (simp add: ring_cells_def length_used_cells [OF assms(1)])
  moreover from this have "(storage q)[?i := Some t] = storage q" by (metis list_update_id)
  ultimately show ?thesis
    using assms(2) by (simp add: access_get_def ring_index_step cell_get_def)
qed

lemma duplicate_to_writes:
  assumes "\<And>j. j < length ts \<Longrightarrow> access_get (length ts) D j first = Some (ts ! j, first)" "i + k \<le> length ts"
  shows "duplicate_to (length ts) D i k first access =
    map_option (Pair first) (write_tokens (length ts) i (take k (drop i ts)) access)"
  using assms(2)
proof (induction k arbitrary: i access)
  case (Suc k)
  then have "take (Suc k) (drop i ts) = ts ! i # take k (drop (Suc i) ts)"
    by (simp add: Cons_nth_drop_Suc [symmetric])
  then show ?case using Suc assms(1) [of i]
    by (cases "write_token (length ts) i (ts ! i) access") simp_all
qed simp

lemma duplicate_all_writes:
  assumes "\<And>j. j < length ts \<Longrightarrow> access_get (length ts) D j first = Some (ts ! j, first)"
  shows "duplicate_all (length ts) D (length ts) first cs =
    map_option (Pair first) (each (write_tokens (length ts) 0 ts) cs)"
proof (induction cs)
  case (Cons c cs)
  then show ?case using duplicate_to_writes [OF assms, of 0 "length ts" c]
    by (cases "write_tokens (length ts) 0 ts c"; cases "each (write_tokens (length ts) 0 ts) cs") simp_all
qed simp

lemma each_each: "each f cs \<bind> each g = each (\<lambda>c. f c \<bind> g) cs"
proof (induction cs)
  case (Cons c cs)
  show ?case
  proof (cases "f c")
    case (Some c1)
    then show ?thesis by (cases "each f cs"; cases "g c1") (simp_all add: Cons.IH [symmetric])
  qed simp
qed simp

lemma fire_output_room:
  fixes c :: "('a, 'e, 'z) chan"
  assumes "qws_inv c" "length ts \<le> area_F (frv_areas c)"
  shows "fire_output L E D ts (c # cs) =
    each (\<lambda>c. write_tokens (length ts) 0 ts c \<bind> entry_commExec L E D (length ts)) (c # cs)"
proof -
  obtain c1 where w: "write_tokens (length ts) 0 ts c = Some c1" "qws_inv c1" "frv_areas c1 = frv_areas c"
      "used_cells c1 = used_cells c" "take (length ts) (drop (length (used_cells c)) (ring_cells c1)) = map Some ts"
    using write_tokens_cells [OF assms(1), of 0 ts "length ts"] assms(2) by auto
  have "access_get (length ts) D j c1 = Some (ts ! j, c1)" if "j < length ts" for j
  proof (rule access_get_written [OF w(2) that])
    show "j < area_F (frv_areas c1)" using that assms(2) w(3) by simp
    have "ring_cells c1 ! (length (used_cells c1) + j) =
        take (length ts) (drop (length (used_cells c)) (ring_cells c1)) ! j"
      using that assms(2) used_cells_room [OF w(2)] w(3,4) by simp
    also have "\<dots> = Some (ts ! j)" using w(5) that by simp
    finally show "ring_cells c1 ! (length (used_cells c1) + j) = Some (ts ! j)" .
  qed
  from duplicate_all_writes [of ts D c1 cs, OF this] have
    "fire_output L E D ts (c # cs) =
      (each (write_tokens (length ts) 0 ts) (c # cs) \<bind> each (entry_commExec L E D (length ts)))"
    using w(1) by (cases "each (write_tokens (length ts) 0 ts) cs")
      (simp_all add: fire_output_def po_commExec_def duplicateOutput_def)
  then show ?thesis by (simp only: each_each)
qed

lemma duplicate_to_frame:
  "duplicate_to limit D i k c a = Some (c', a') \<Longrightarrow> \<exists>st. c' = c\<lparr>storage := st\<rparr>"
proof (induction k arbitrary: i c a)
  case 0
  then show ?case by (simp add: exI [of _ "storage c"])
next
  case (Suc k)
  then obtain t c1 a1 where "access_get limit D i c = Some (t, c1)" "duplicate_to limit D (Suc i) k c1 a1 = Some (c', a')"
    by (auto simp: bind_eq_Some_iff)
  then show ?case using Suc.IH by (fastforce simp: access_get_def bind_eq_Some_iff)
qed

lemma duplicate_all_frame:
  "duplicate_all limit D n c cs = Some (c', cs') \<Longrightarrow> \<exists>st. c' = c\<lparr>storage := st\<rparr>"
proof (induction cs arbitrary: c cs')
  case Nil
  then show ?case by (simp add: exI [of _ "storage c"])
next
  case (Cons a cs)
  then obtain c1 a1 cs1 where "duplicate_to limit D 0 n c a = Some (c1, a1)" "duplicate_all limit D n c1 cs = Some (c', cs1)"
    by (auto simp: bind_eq_Some_iff)
  then show ?case using Cons.IH duplicate_to_frame by fastforce
qed

lemma commExec_refused:
  fixes c :: "('a, 'e, 'z) chan"
  assumes "mg_laws L" "qws_inv c" "area_F (frv_areas c) < n"
  shows "entry_commExec L E D n (c\<lparr>storage := st\<rparr>) = None"
proof -
  have "frv_wpp L n ((c\<lparr>storage := st\<rparr>)\<lparr>tokenId := tokenId c + of_nat n\<rparr>) = None"
    using assms(2,3) by (intro frv_refuse(1) [OF assms(1)]) (simp_all add: storage_parts qws_inv_def)
  then show ?thesis by (simp add: entry_commExec_def entry_commStart_def)
qed

lemma fire_output_refused:
  fixes c :: "('a, 'e, 'z) chan"
  assumes "mg_laws L" "qws_inv c" "area_F (frv_areas c) < length ts"
  shows "fire_output L E D ts (c # cs) = None"
proof -
  have "each (entry_commExec L E D (length ts)) (c' # cs') = None"
    if w: "write_tokens (length ts) 0 ts c = Some c1" "duplicate_all (length ts) D (length ts) c1 cs = Some (c', cs')"
    for c1 c' cs'
  proof -
    obtain st where "c' = c\<lparr>storage := st\<rparr>"
      using write_tokens_frame [OF w(1)] duplicate_all_frame [OF w(2)] by auto
    then show ?thesis using commExec_refused [OF assms] by simp
  qed
  then show ?thesis
    by (fastforce simp: fire_output_def po_commExec_def duplicateOutput_def bind_eq_None_conv)
qed

lemma run_ops_end [simp]: "x \<bind> run_ops f [] = x"
  by (cases x) simp_all

lemma fire_output_each:
  fixes c :: "('a, 'e, 'z) chan"
  assumes "mg_laws L" "qws_inv c"
  shows "fire_output L E D ts (c # cs) =
    each (run_ops (fifo_step L E D) [PutStart ts, PutFinish (length ts) False]) (c # cs)"
proof -
  have f: "(\<lambda>c :: ('a, 'e, 'z) chan. write_tokens (length ts) 0 ts c \<bind> entry_commExec L E D (length ts)) =
      run_ops (fifo_step L E D) [PutStart ts, PutFinish (length ts) False]"
  proof (intro ext)
    fix c :: "('a, 'e, 'z) chan"
    show "write_tokens (length ts) 0 ts c \<bind> entry_commExec L E D (length ts) =
        run_ops (fifo_step L E D) [PutStart ts, PutFinish (length ts) False] c"
    proof (cases "write_tokens (length ts) 0 ts c")
      case (Some c1)
      then show ?thesis by (cases "entry_commStart L E (length ts) c1") (simp_all add: entry_commExec_def)
    qed simp
  qed
  show ?thesis
  proof (cases "length ts \<le> area_F (frv_areas c)")
    case True
    then show ?thesis using fire_output_room [OF assms(2) True, of L E D cs] unfolding f by simp
  next
    case False
    have "run_ops (fifo_step L E D) [PutStart ts, PutFinish (length ts) False] c = None"
    proof (cases "write_tokens (length ts) 0 ts c")
      case (Some c1)
      then obtain st where "c1 = c\<lparr>storage := st\<rparr>" using write_tokens_frame by blast
      then show ?thesis
        using Some commExec_refused [OF assms, of "length ts" E D st] False
        unfolding fun_cong [OF f [symmetric]] by simp
    qed simp
    then show ?thesis using False fire_output_refused [OF assms] by (simp del: run_ops.simps)
  qed
qed

lemma put_now_implements:
  fixes c :: "('a, 'e, 'z) chan"
  assumes "mg_laws L" "event_laws E" "fifo_inv E c"
  shows "implements E c (run_ops (fifo_step L E D) [PutStart ts, PutFinish (length ts) False] c)
    (if spec_used (fifo_abs c) + length ts \<le> depthCount c
     then Some ((fifo_abs c)\<lparr>sp_V := sp_V (fifo_abs c) @ take (length ts) (sp_P (fifo_abs c) @ ts),
       sp_P := drop (length ts) (sp_P (fifo_abs c) @ ts)\<rparr>)
     else None)"
proof -
  have "run_ops (spec_op (depthCount c) (initialTokens c)) [PutStart ts, PutFinish (length ts) False] (fifo_abs c) =
    (if spec_used (fifo_abs c) + length ts \<le> depthCount c
     then Some ((fifo_abs c)\<lparr>sp_V := sp_V (fifo_abs c) @ take (length ts) (sp_P (fifo_abs c) @ ts),
       sp_P := drop (length ts) (sp_P (fifo_abs c) @ ts)\<rparr>)
     else None)"
    by simp
  then show ?thesis
    using fifo_run_implements [OF assms, of D "[PutStart ts, PutFinish (length ts) False]"] by (simp only:)
qed

lemma each_map:
  "\<forall>c \<in> set cs. map_option ab (f c) = (if P c then Some (g c) else None) \<Longrightarrow>
   map_option (map ab) (each f cs) = (if \<forall>c \<in> set cs. P c then Some (map g cs) else None)"
proof (induction cs)
  case (Cons c cs)
  show ?case
  proof (cases "P c")
    case True
    then obtain c1 where "f c = Some c1" "ab c1 = g c" using Cons.prems by auto
    then show ?thesis using Cons True by (cases "each f cs") (auto split: if_splits)
  next
    case False
    then have "f c = None" using Cons.prems by auto
    then show ?thesis using False by simp
  qed
qed simp

lemma each_all: "\<forall>c \<in> set cs. pred_option (Q c) (f c) \<Longrightarrow> each f cs = Some cs' \<Longrightarrow> list_all2 Q cs cs'"
  by (induction cs arbitrary: cs') (auto simp: bind_eq_Some_iff)

text \<open>
  C20. An output port bound to several channels delivers what the actor wrote to each of them: the
  write to the first channel, the duplication to the others and the communication of all of them
  succeed exactly when every channel has room, and then append the same tokens to every one of them.
\<close>

theorem multicast_delivers_everywhere:
  fixes cs :: "('a, 'e, 'z) chan list"
  assumes "mg_laws L" "event_laws E" "cs \<noteq> []" "\<forall>c \<in> set cs. fifo_inv E c"
  shows "map_option (map fifo_abs) (fire_output L E D ts cs) =
    (if \<forall>c \<in> set cs. spec_used (fifo_abs c) + length ts \<le> depthCount c
     then Some (map (\<lambda>c. (fifo_abs c)\<lparr>sp_V := sp_V (fifo_abs c) @ take (length ts) (sp_P (fifo_abs c) @ ts),
       sp_P := drop (length ts) (sp_P (fifo_abs c) @ ts)\<rparr>) cs)
     else None)"
proof -
  obtain c cs0 where cs: "cs = c # cs0" using assms(3) by (cases cs) auto
  have "qws_inv c" using assms(4) cs by (simp add: fifo_inv_def)
  then have "fire_output L E D ts cs = each (run_ops (fifo_step L E D) [PutStart ts, PutFinish (length ts) False]) cs"
    unfolding cs by (rule fire_output_each [OF assms(1)])
  moreover have "map_option fifo_abs (run_ops (fifo_step L E D) [PutStart ts, PutFinish (length ts) False] c) =
    (if spec_used (fifo_abs c) + length ts \<le> depthCount c
     then Some ((fifo_abs c)\<lparr>sp_V := sp_V (fifo_abs c) @ take (length ts) (sp_P (fifo_abs c) @ ts),
       sp_P := drop (length ts) (sp_P (fifo_abs c) @ ts)\<rparr>)
     else None)" if "c \<in> set cs" for c
    using put_now_implements [OF assms(1,2)] assms(4) that unfolding implements_def by blast
  ultimately show ?thesis
    using each_map [of cs fifo_abs "run_ops (fifo_step L E D) [PutStart ts, PutFinish (length ts) False]"] by simp
qed

text \<open>The channels stay consistent, and the guard a firing rule waits for ensures the delivery.\<close>

lemma multicast_inv:
  fixes cs :: "('a, 'e, 'z) chan list"
  assumes "mg_laws L" "event_laws E" "\<forall>c \<in> set cs. fifo_inv E c" "fire_output L E D ts cs = Some cs'"
  shows "list_all2 (\<lambda>c c'. fifo_inv E c' \<and> same_chan c c') cs cs'"
proof (cases cs)
  case Nil
  then show ?thesis using assms(4) by (simp add: fire_output_def)
next
  case (Cons c cs0)
  have "qws_inv c" using assms(3) Cons by (simp add: fifo_inv_def)
  then have "each (run_ops (fifo_step L E D) [PutStart ts, PutFinish (length ts) False]) cs = Some cs'"
    using assms(4) fire_output_each [OF assms(1)] unfolding Cons by metis
  moreover have "\<forall>c \<in> set cs. pred_option (\<lambda>c'. fifo_inv E c' \<and> same_chan c c')
      (run_ops (fifo_step L E D) [PutStart ts, PutFinish (length ts) False] c)"
    using put_now_implements [OF assms(1,2)] assms(3) unfolding implements_def by blast
  ultimately show ?thesis by (rule each_all [rotated])
qed

lemma min_fold: "foldl (\<lambda>n i. min n (f i)) (m :: nat) is = Min (insert m (f ` set is))"
proof (induction "is" arbitrary: m)
  case (Cons i "is")
  have "insert m (insert (f i) (f ` set is)) = insert (f i) (insert m (f ` set is))" by blast
  then show ?case using Cons [of "min m (f i)"]
    by (cases "f ` set is = {}") (auto simp: min.assoc)
qed simp

lemma numFree_le: "n \<le> po_numFree free p \<longleftrightarrow> n \<le> 2 ^ 64 - 1 \<and> (\<forall>i \<in> set (po_interfaces p). n \<le> free i)"
  unfolding po_numFree_def min_fold by simp

lemma reset_example:
  assumes "length ts \<le> n"
  shows "\<exists>c :: ('a, bool \<times> nat) fifo_chan. fifo_inv event_ref c \<and> fifo_abs c = \<lparr>sp_C = 0, sp_V = ts, sp_P = []\<rparr> \<and>
    depthCount c = n"
proof -
  have r: "register_events event_ref [] (mk_fifo_chan n ts :: ('a, bool \<times> nat) fifo_chan) = Some (mk_fifo_chan n ts)"
    by simp
  let ?c = "mk_fifo_chan n ts :: ('a, bool \<times> nat) fifo_chan"
  have i: "implements event_ref ?c (run_ops (fifo_step math_ref event_ref None) [ResetChan] ?c)
      (Some \<lparr>sp_C = 0, sp_V = ts, sp_P = []\<rparr>)"
    using fifo_start_implements [OF math_ref_laws event_ref_laws r, of None "[]"] assms by simp
  then obtain c where "run_ops (fifo_step math_ref event_ref None) [ResetChan] ?c = Some c"
    unfolding implements_def by (simp only: map_option_eq_Some) blast
  then have "fifo_inv event_ref c" "same_chan ?c c" "fifo_abs c = \<lparr>sp_C = 0, sp_V = ts, sp_P = []\<rparr>"
    using i by (simp_all only: implements_Some option.inject)
  then show ?thesis using registered_chan(4) [OF r] by (auto simp: same_chan_def)
qed

theorem multicast_delivers_everywhere_witness:
  "\<exists>c1 c2 :: (nat, bool \<times> nat) fifo_chan. depthCount c1 = 3 \<and> depthCount c2 = 2 \<and>
     map_option (map fifo_abs) (fire_output math_ref event_ref None [7, 8] [c1, c2]) =
       Some [\<lparr>sp_C = 0, sp_V = [5, 7, 8], sp_P = []\<rparr>, \<lparr>sp_C = 0, sp_V = [7, 8], sp_P = []\<rparr>] \<and>
     fire_output math_ref event_ref None [7, 8, 9] [c1, c2] = None"
proof -
  obtain c1 c2 :: "(nat, bool \<times> nat) fifo_chan" where c: "fifo_inv event_ref c1" "fifo_inv event_ref c2"
      "fifo_abs c1 = \<lparr>sp_C = 0, sp_V = [5], sp_P = []\<rparr>" "fifo_abs c2 = \<lparr>sp_C = 0, sp_V = [], sp_P = []\<rparr>"
      "depthCount c1 = 3" "depthCount c2 = 2"
    using reset_example [of "[5 :: nat]" 3] reset_example [of "[] :: nat list" 2] by auto
  have "[c1, c2] \<noteq> []" "\<forall>c \<in> set [c1, c2]. fifo_inv event_ref c" using c by simp_all
  note t = multicast_delivers_everywhere [OF math_ref_laws event_ref_laws this, of None]
  show ?thesis
    using t [of "[7, 8]"] t [of "[7, 8, 9]"] c by (intro exI [of _ c1] exI [of _ c2]) (simp add: spec_used_def)
qed

section \<open>Events of a bound port\<close>

text \<open>The cached conjunctions name the events of all channels.\<close>

definition block_events_ok :: "('i \<Rightarrow> nat \<Rightarrow> nat) \<Rightarrow> ('i, 'a) port_out \<Rightarrow> bool" where
  "block_events_ok ev p \<longleftrightarrow>
     (\<forall>x \<in> set (po_blockEventMap p). set (snd x) = (\<lambda>i. ev i (fst x)) ` set (po_interfaces p))"

lemma collect_events: "set (foldl (\<lambda>es i. if f i \<in> set es then es else es @ [f i]) es is) = set es \<union> f ` set is"
  by (induction "is" arbitrary: es) auto

lemma po_blockEvent_all:
  assumes "block_events_ok ev p" "po_blockEvent ev n p = Some (es, p')"
  shows "set es = (\<lambda>i. ev i n) ` set (po_interfaces p) \<and> block_events_ok ev p' \<and>
    po_interfaces p' = po_interfaces p \<and> map_of (po_blockEventMap p') n = (if length (po_interfaces p) > 1 then Some es else map_of (po_blockEventMap p) n)"
proof (cases "length (po_interfaces p) > 1")
  case True
  show ?thesis
  proof (cases "map_of (po_blockEventMap p) n")
    case None
    let ?es = "foldl (\<lambda>es i. if ev i n \<in> set es then es else es @ [ev i n]) [] (po_interfaces p)"
    have p': "es = ?es" "p' = p\<lparr>po_blockEventMap := (n, es) # po_blockEventMap p\<rparr>"
      using None True assms(2) by (auto simp: po_blockEvent_def Let_def)
    have "set es = (\<lambda>i. ev i n) ` set (po_interfaces p)" by (simp add: p'(1) collect_events)
    then show ?thesis using assms(1) True unfolding block_events_ok_def p'(2) by simp
  next
    case (Some es0)
    then have "es = es0" "p' = p" "(n, es) \<in> set (po_blockEventMap p)"
      using True assms(2) by (auto simp: po_blockEvent_def dest: map_of_SomeD)
    then show ?thesis using assms(1) True Some unfolding block_events_ok_def by fastforce
  qed
next
  case False
  then have "\<exists>i. po_interfaces p = [i]"
    using assms(2) by (cases "po_interfaces p") (auto simp: po_blockEvent_def)
  then show ?thesis using assms by (auto simp: po_blockEvent_def)
qed

text \<open>
  The event a firing rule waits for on an output port with several channels is active exactly
  when the port reports enough free places: the conjunction covers every channel, whether it is built
  now or taken from the map of earlier calls, and building it keeps the map right.
\<close>

theorem block_event_waits_for_all_channels:
  assumes "block_events_ok ev p" "po_blockEvent ev n p = Some (es, p')" "n < 2 ^ 64"
    and "\<And>i. i \<in> set (po_interfaces p) \<Longrightarrow> active (ev i n) \<longleftrightarrow> n \<le> free i"
  shows "((\<forall>e \<in> set es. active e) \<longleftrightarrow> n \<le> po_numFree free p) \<and> block_events_ok ev p'"
  using po_blockEvent_all [OF assms(1,2)] assms(3,4) by (auto simp: numFree_le)

theorem block_event_waits_for_all_channels_witness:
  "\<exists>es p'. po_blockEvent (\<lambda>i n. 10 * i + n) 2 (mk_port_out\<lparr>po_interfaces := [1, 3 :: nat]\<rparr> :: (nat, unit) port_out) = Some (es, p') \<and>
     es = [12, 32] \<and> \<not> 2 \<le> po_numFree (\<lambda>i. i) (mk_port_out\<lparr>po_interfaces := [1, 3 :: nat]\<rparr> :: (nat, unit) port_out) \<and>
     block_events_ok (\<lambda>i n. 10 * i + n) p'"
proof -
  let ?p = "mk_port_out\<lparr>po_interfaces := [1, 3 :: nat]\<rparr> :: (nat, unit) port_out"
  have b: "po_blockEvent (\<lambda>i n. 10 * i + n) 2 ?p = Some ([12, 32], ?p\<lparr>po_blockEventMap := [(2, [12, 32])]\<rparr>)"
    by (simp add: po_blockEvent_def mk_port_out_def Let_def)
  have ok: "block_events_ok (\<lambda>i n. 10 * i + n) ?p" by (simp add: block_events_ok_def mk_port_out_def)
  have "(2 :: nat) < 2 ^ 64" by simp
  note t = block_event_waits_for_all_channels [OF ok b this, of "\<lambda>e. e = 32" "\<lambda>i. i"]
  have "((\<forall>e \<in> set [12, 32 :: nat]. e = 32) \<longleftrightarrow> 2 \<le> po_numFree (\<lambda>i. i) ?p) \<and>
      block_events_ok (\<lambda>i n. 10 * i + n) (?p\<lparr>po_blockEventMap := [(2, [12, 32])]\<rparr>)"
    by (rule t) (auto simp: mk_port_out_def)
  then show ?thesis using b by auto
qed

section \<open>Walking the hierarchy\<close>

definition links_inverse :: "port_links \<Rightarrow> bool" where
  "links_inverse P \<longleftrightarrow> (\<forall>a b. pl_parent P a = Some b \<longleftrightarrow> pl_child P b = Some a)"

lemma bind_port_links:
  assumes "links_inverse P" "bind_port this parent P = Some P'"
  shows "links_inverse P'"
    and "pl_parent P' a = (if a = this then Some parent else pl_parent P a)"
    and "pl_child P' a = (if a = parent then Some this else pl_child P a)"
proof -
  have P: "pl_parent P this = None" "pl_child P parent = None"
    "P' = P\<lparr>pl_parent := (pl_parent P)(this := Some parent), pl_child := (pl_child P)(parent := Some this)\<rparr>"
    using assms(2) by (auto simp: bind_port_def split: if_splits)
  show "links_inverse P'"
    using assms(1) P(1,2) unfolding links_inverse_def P(3) by (auto, metis option.distinct(1))
  show "pl_parent P' a = (if a = this then Some parent else pl_parent P a)"
    "pl_child P' a = (if a = parent then Some this else pl_child P a)" by (simp_all add: P(3))
qed

lemma bind_all_links:
  "links_inverse P \<Longrightarrow> bind_all bs P = Some P' \<Longrightarrow> links_inverse P' \<and>
    (\<forall>a b. pl_child P' b = Some a \<longrightarrow> pl_child P b = Some a \<or> (a, b) \<in> set bs)"
proof (induction bs arbitrary: P)
  case (Cons x bs)
  obtain a b where x: "x = (a, b)" by (cases x)
  obtain P1 where P1: "bind_port a b P = Some P1" "bind_all bs P1 = Some P'"
    using Cons.prems(2) x by (auto simp: bind_eq_Some_iff)
  note l = bind_port_links [OF Cons.prems(1) P1(1)]
  show ?case using Cons.IH [OF l(1) P1(2)] unfolding l(3) x by (auto split: if_splits)
qed simp

lemma follow_children_end:
  assumes "\<And>a b. ch b = Some a \<Longrightarrow> level a < (level b :: nat)"
  shows "\<exists>q. follow_children ch p = Some q \<and> ch q = None \<and> (p, q) \<in> {(b, a). ch b = Some a}\<^sup>*"
proof (induction "level p" arbitrary: p rule: less_induct)
  case less
  show ?case
  proof (cases "ch p")
    case None
    then show ?thesis by (simp add: follow_children.simps)
  next
    case (Some c)
    then obtain q where q: "follow_children ch c = Some q" "ch q = None" "(c, q) \<in> {(b, a). ch b = Some a}\<^sup>*"
      using less [OF assms [OF Some]] by blast
    have "(p, c) \<in> {(b, a). ch b = Some a}" using Some by simp
    then show ?thesis using q Some by (auto simp: follow_children.simps intro: converse_rtrancl_into_rtrancl)
  qed
qed

text \<open>
  Where ports are bound outward through the hierarchy of modules, the search for the port of an
  actor ends: it returns the innermost port, from which following the parents leads back to the port
  it started from.
\<close>

theorem actor_port_found:
  assumes "bind_all bs no_links = Some P" "\<And>a b. (a, b) \<in> set bs \<Longrightarrow> depth b < (depth a :: nat)"
    and "\<And>a b. (a, b) \<in> set bs \<Longrightarrow> depth a \<le> N"
  shows "\<exists>q. getActorPort p P = Some q \<and> pl_child P q = None \<and>
    (q, p) \<in> {(a, b). getParentPort a P = Some b}\<^sup>*"
proof -
  have "links_inverse no_links" by (simp add: links_inverse_def no_links_def)
  from bind_all_links [OF this assms(1)] have l: "links_inverse P"
    "\<And>a b. pl_child P b = Some a \<Longrightarrow> (a, b) \<in> set bs" by (auto simp: no_links_def)
  have "N - depth a < N - depth b" if "pl_child P b = Some a" for a b
    using assms(2,3) [OF l(2) [OF that]] by linarith
  from follow_children_end [of "pl_child P" "\<lambda>a. N - depth a", OF this]
  obtain q where q: "follow_children (pl_child P) p = Some q" "pl_child P q = None"
      "(p, q) \<in> {(b, a). pl_child P b = Some a}\<^sup>*" by blast
  have "{(b, a). pl_child P b = Some a}\<inverse> = {(a, b). getParentPort a P = Some b}"
    using l(1) by (auto simp: links_inverse_def getParentPort_def)
  then have "(q, p) \<in> {(a, b). getParentPort a P = Some b}\<^sup>*"
    using q(3) by (metis rtrancl_converseI)
  then show ?thesis using q(1,2) by (auto simp: getActorPort_def)
qed

theorem actor_port_found_witness:
  "\<exists>P. bind_all [(3, 2), (2, 1)] no_links = Some P \<and>
     (\<exists>q. getActorPort 1 P = Some q \<and> pl_child P q = None \<and> (q, 1) \<in> {(a, b). getParentPort a P = Some b}\<^sup>*) \<and>
     bind_port 4 1 P = None"
proof -
  have "\<exists>P. bind_all [(3, 2), (2, 1)] no_links = Some P \<and> bind_port 4 1 P = None"
    by (simp add: bind_port_def no_links_def)
  then obtain P where P: "bind_all [(3, 2), (2, 1)] no_links = Some P" "bind_port 4 1 P = None" by blast
  have "\<exists>q. getActorPort 1 P = Some q \<and> pl_child P q = None \<and> (q, 1) \<in> {(a, b). getParentPort a P = Some b}\<^sup>*"
    by (rule actor_port_found [OF P(1), of "\<lambda>p. p" 3]) auto
  then show ?thesis using P by blast
qed

text \<open>Binding two ports to each other is accepted; from either of them the search does not end.\<close>

lemma cyclic_ports_accepted:
  "\<exists>P. bind_all [(1, 2), (2, 1)] no_links = Some P \<and> pl_child P 1 = Some 2 \<and> pl_child P 2 = Some 1"
  by (simp add: bind_port_def no_links_def)

text \<open>An interface of a wrong class is reported by an output port; an input port dereferences null.\<close>

lemma wrong_interface:
  "pi_interface p = None \<Longrightarrow> pi_add_interface access (OtherIf s) p = Inl NullDeref"
  "po_add_interface access (OtherIf s) p' = Inl (RuntimeError ''Tried to add wrong channel interface to port!'')"
  by (simp_all add: pi_add_interface_def po_add_interface_def dynamic_cast_def Let_def)

end
