(* ===== verification/Firing_Rules.thy ===== *)
theory Firing_Rules
  imports Smoc_Prelude
begin

text \<open>
  Guards, actions and firing rules: the expression classes of \<^verbatim>\<open>headers/smoc/smoc_guard.hpp\<close>,
  \<^verbatim>\<open>smoc_action\<close>, \<^verbatim>\<open>smoc_firing_rule\<close> and \<^verbatim>\<open>cpp/detail/FSM/RuntimeFiringRule\<close>.  An expression
  template \<^verbatim>\<open>D<E>\<close> is a value of the type \<open>gexpr\<close>; \<^verbatim>\<open>Value<E>\<close> is \<open>geval\<close> and
  \<^verbatim>\<open>VisitorApplication<E>\<close> with the \<^verbatim>\<open>GuardVisitor\<close> is \<open>gvisit\<close>.  Guards work on values of type
  \<^verbatim>\<open>bool\<close> and \<^verbatim>\<open>unsigned int\<close>, on pointers, tagged unions and structures of them.  An expression
  that C++ would not compile, a division by zero and a failing assertion have the value
  \<^term>\<open>None\<close>.
\<close>

section \<open>Syntax\<close>

datatype opun = LNot | BNot | Ref | DeRef | Type

datatype opbin = Add | Sub | Multiply | Divide | Eq | Ne | Lt | Le | Gt | Ge
  | BAnd | BOr | BXor | LAnd | LOr | Field

datatype activation = DISABLED | BLOCKED | ENABLED

definition activation_of_bool :: "bool \<Rightarrow> activation" where
  "activation_of_bool b = (if b then ENABLED else DISABLED)"

datatype gval =
    VBool bool
  | VUInt "32 word"
  | VEnabled
  | VPtr gval
  | VOneof "32 word" gval
  | VStruct "(string \<times> gval) list"
  | VMember string

datatype gexpr =
    GVar string
  | GLit gval
  | GMemGuard string "gval list"
  | GEvent nat string
  | GToken nat nat
  | GComm nat nat nat
  | GUnOp opun gexpr
  | GBinOp opbin gexpr gexpr
  | GVirtual gexpr

text \<open>\<^verbatim>\<open>isType\<close>, and \<^verbatim>\<open>operator >>\<close>, which is a conjunction.\<close>

definition g_isType :: "32 word \<Rightarrow> gexpr \<Rightarrow> gexpr" where
  "g_isType t a = GBinOp Eq (GUnOp Type a) (GLit (VUInt t))"

definition g_and :: "gexpr \<Rightarrow> gexpr \<Rightarrow> gexpr" where
  "g_and a b = GBinOp LAnd a b"

section \<open>Evaluation\<close>

text \<open>
  What a guard reads: the variables, the member functions of the actor, the events, and the tokens of
  its ports.  The token access asserts that the position is below the limit of the port.
\<close>

record genv =
  ge_var :: "string \<Rightarrow> gval"
  ge_mem :: "string \<Rightarrow> gval list \<Rightarrow> gval"
  ge_event :: "nat \<Rightarrow> bool"
  ge_limit :: "nat \<Rightarrow> nat"
  ge_token :: "nat \<Rightarrow> nat \<Rightarrow> gval option"

fun to_bool :: "gval \<Rightarrow> bool option" where
  "to_bool (VBool b) = Some b"
| "to_bool (VUInt w) = Some (w \<noteq> 0)"
| "to_bool VEnabled = Some True"
| "to_bool (VPtr v) = Some True"
| "to_bool _ = None"

text \<open>The built-in conversions: \<^verbatim>\<open>bool\<close> and \<^verbatim>\<open>ENABLED\<close> operands of arithmetic become integers.\<close>

fun to_uint :: "gval \<Rightarrow> 32 word option" where
  "to_uint (VBool b) = Some (if b then 1 else 0)"
| "to_uint (VUInt w) = Some w"
| "to_uint VEnabled = Some 1"
| "to_uint _ = None"

unbundle bit_operations_syntax

fun uint_op :: "opbin \<Rightarrow> 32 word \<Rightarrow> 32 word \<Rightarrow> gval option" where
  "uint_op Add a b = Some (VUInt (a + b))"
| "uint_op Sub a b = Some (VUInt (a - b))"
| "uint_op Multiply a b = Some (VUInt (a * b))"
| "uint_op Divide a b = (if b = 0 then None else Some (VUInt (a div b)))"
| "uint_op Eq a b = Some (VBool (a = b))"
| "uint_op Ne a b = Some (VBool (a \<noteq> b))"
| "uint_op Lt a b = Some (VBool (a < b))"
| "uint_op Le a b = Some (VBool (a \<le> b))"
| "uint_op Gt a b = Some (VBool (b < a))"
| "uint_op Ge a b = Some (VBool (b \<le> a))"
| "uint_op BAnd a b = Some (VUInt (a AND b))"
| "uint_op BOr a b = Some (VUInt (a OR b))"
| "uint_op BXor a b = Some (VUInt (a XOR b))"
| "uint_op _ a b = None"

fun un_op :: "opun \<Rightarrow> gval \<Rightarrow> gval option" where
  "un_op LNot v = map_option (\<lambda>b. VBool (\<not> b)) (to_bool v)"
| "un_op BNot v = map_option (\<lambda>w. VUInt (NOT w)) (to_uint v)"
| "un_op DeRef (VPtr v) = Some v"
| "un_op Type (VOneof t v) = Some (VUInt t)"
| "un_op _ v = None"

text \<open>The static type \<^verbatim>\<open>ENABLED\<close> of communication requests, events and their conjunctions.\<close>

fun is_enabled :: "gexpr \<Rightarrow> bool" where
  "is_enabled (GComm p c r) = True"
| "is_enabled (GEvent e n) = True"
| "is_enabled (GBinOp LAnd a b) = (is_enabled a \<and> is_enabled b)"
| "is_enabled _ = False"

text \<open>
  \<^verbatim>\<open>Value<E>\<close> of the leaves.  An event asserts that it is active, a token that its position is below
  the limit of the port.
\<close>

definition value_DVar :: "genv \<Rightarrow> string \<Rightarrow> gval option" where
  [simp]: "value_DVar \<Gamma> x = Some (ge_var \<Gamma> x)"

definition value_DLiteral :: "genv \<Rightarrow> gval \<Rightarrow> gval option" where
  [simp]: "value_DLiteral \<Gamma> v = Some v"

definition value_DMemGuard :: "genv \<Rightarrow> string \<Rightarrow> gval list \<Rightarrow> gval option" where
  [simp]: "value_DMemGuard \<Gamma> f ps = Some (ge_mem \<Gamma> f ps)"

definition value_DSMOCEvent :: "genv \<Rightarrow> nat \<Rightarrow> gval option" where
  [simp]: "value_DSMOCEvent \<Gamma> e = do { assert_that (ge_event \<Gamma> e); Some VEnabled }"

definition value_DComm :: "genv \<Rightarrow> nat \<Rightarrow> nat \<Rightarrow> nat \<Rightarrow> gval option" where
  [simp]: "value_DComm \<Gamma> p c r = Some VEnabled"

definition value_DToken :: "genv \<Rightarrow> nat \<Rightarrow> nat \<Rightarrow> gval option" where
  [simp]: "value_DToken \<Gamma> p n = do { assert_that (n < ge_limit \<Gamma> p); ge_token \<Gamma> p n }"

text \<open>
  \<^verbatim>\<open>Value<E>\<close> of the operators, from the values of the operands.  The specialisations of \<^verbatim>\<open>&&\<close> for
  \<^verbatim>\<open>ENABLED\<close> with \<^verbatim>\<open>ENABLED\<close> or \<^verbatim>\<open>bool\<close> evaluate both sides, for the assertions in them; otherwise
  \<^verbatim>\<open>&&\<close> and \<^verbatim>\<open>||\<close> are the built-in operators, which stop at the left side.
\<close>

definition builtin_land :: "gval option \<Rightarrow> gval option \<Rightarrow> gval option" where
  "builtin_land a b = do {
     x \<leftarrow> a; p \<leftarrow> to_bool x;
     if p then do { y \<leftarrow> b; q \<leftarrow> to_bool y; Some (VBool q) } else Some (VBool False)
   }"

definition exec_LAnd :: "bool \<Rightarrow> bool \<Rightarrow> gval option \<Rightarrow> gval option \<Rightarrow> gval option" where
  "exec_LAnd enA enB a b =
     (if enA \<and> enB then do { x \<leftarrow> a; y \<leftarrow> b; Some VEnabled }
      else if enA then do { x \<leftarrow> a; y \<leftarrow> b; q \<leftarrow> to_bool y; Some (VBool q) }
      else if enB then (case a of
          Some (VBool p) \<Rightarrow> do { y \<leftarrow> b; Some (VBool p) }
        | _ \<Rightarrow> builtin_land a b)
      else builtin_land a b)"

definition exec_LOr :: "gval option \<Rightarrow> gval option \<Rightarrow> gval option" where
  "exec_LOr a b = do {
     x \<leftarrow> a; p \<leftarrow> to_bool x;
     if p then Some (VBool True) else do { y \<leftarrow> b; q \<leftarrow> to_bool y; Some (VBool q) }
   }"

definition exec_Field :: "gval option \<Rightarrow> gval option \<Rightarrow> gval option" where
  "exec_Field a b = do {
     x \<leftarrow> a; y \<leftarrow> b;
     case (x, y) of (VStruct fs, VMember m) \<Rightarrow> map_of fs m | _ \<Rightarrow> None
   }"

definition exec_BinOp :: "opbin \<Rightarrow> gval option \<Rightarrow> gval option \<Rightarrow> gval option" where
  "exec_BinOp op a b = do { x \<leftarrow> a; y \<leftarrow> b; u \<leftarrow> to_uint x; w \<leftarrow> to_uint y; uint_op op u w }"

definition value_DBinOp :: "opbin \<Rightarrow> bool \<Rightarrow> bool \<Rightarrow> gval option \<Rightarrow> gval option \<Rightarrow> gval option" where
  "value_DBinOp op enA enB a b =
     (if op = LAnd then exec_LAnd enA enB a b
      else if op = LOr then exec_LOr a b
      else if op = Field then exec_Field a b
      else exec_BinOp op a b)"

definition value_DUnOp :: "opun \<Rightarrow> gval option \<Rightarrow> gval option" where
  "value_DUnOp op e = do { v \<leftarrow> e; un_op op v }"

text \<open>A \<^verbatim>\<open>DVirtual<bool>\<close> converts the value of the expression it holds.\<close>

definition value_DVirtual :: "gval option \<Rightarrow> gval option" where
  "value_DVirtual e = do { v \<leftarrow> e; map_option VBool (to_bool v) }"

lemmas value_defs = builtin_land_def exec_LAnd_def exec_LOr_def exec_Field_def exec_BinOp_def
  value_DBinOp_def value_DUnOp_def value_DVirtual_def

fun geval :: "genv \<Rightarrow> gexpr \<Rightarrow> gval option" where
  "geval \<Gamma> (GVar x) = value_DVar \<Gamma> x"
| "geval \<Gamma> (GLit v) = value_DLiteral \<Gamma> v"
| "geval \<Gamma> (GMemGuard f ps) = value_DMemGuard \<Gamma> f ps"
| "geval \<Gamma> (GEvent e n) = value_DSMOCEvent \<Gamma> e"
| "geval \<Gamma> (GToken p n) = value_DToken \<Gamma> p n"
| "geval \<Gamma> (GComm p c r) = value_DComm \<Gamma> p c r"
| "geval \<Gamma> (GUnOp op e) = value_DUnOp op (geval \<Gamma> e)"
| "geval \<Gamma> (GVirtual e) = value_DVirtual (geval \<Gamma> e)"
| "geval \<Gamma> (GBinOp op a b) = value_DBinOp op (is_enabled a) (is_enabled b) (geval \<Gamma> a) (geval \<Gamma> b)"

section \<open>Actions and firing rules\<close>

text \<open>An action is a list of function calls; a call has a name and the printed parameters.\<close>

record func_call =
  fc_name :: string
  fc_params :: "string list"

type_synonym smoc_action = "func_call list"

definition merge_action :: "smoc_action \<Rightarrow> smoc_action \<Rightarrow> smoc_action" where
  "merge_action a b = (if a = [] then b else if b = [] then a else foldl (\<lambda>ret i. ret @ [i]) a b)"

text \<open>
  \<^verbatim>\<open>smoc_action::operator ()\<close>: the calls in their order, on the state of the actor.  A call may hit an
  assertion, such as that of a token access.
\<close>

fun run_action :: "(func_call \<Rightarrow> 's \<Rightarrow> 's option) \<Rightarrow> smoc_action \<Rightarrow> 's \<Rightarrow> 's option" where
  "run_action call [] s = Some s"
| "run_action call (f # fs) s = do { s \<leftarrow> call f s; run_action call fs s }"

record firing_rule =
  fr_guard :: gexpr
  fr_action :: smoc_action

definition mk_firing_rule :: "gexpr \<Rightarrow> smoc_action \<Rightarrow> firing_rule" where
  "mk_firing_rule g f = \<lparr>fr_guard = GVirtual g, fr_action = f\<rparr>"

text \<open>\<^verbatim>\<open>smoc_firing_rule >> smoc_action\<close>.\<close>

definition rule_then :: "firing_rule \<Rightarrow> smoc_action \<Rightarrow> firing_rule" where
  "rule_then tp a = tp\<lparr>fr_action := merge_action (fr_action tp) a\<rparr>"

section \<open>Runtime firing rules\<close>

text \<open>\<^verbatim>\<open>events\<close> is the set of event waiters the rule has to wait for, in the order of insertion.\<close>

record rt_rule = firing_rule +
  rr_guardNames :: "string list"
  rr_guardComplexity :: nat
  rr_events :: "nat list"
  rr_portIn :: "(nat \<times> nat \<times> nat) list"
  rr_portOut :: "(nat \<times> nat \<times> nat) list"
  rr_ioPatternWaiter :: "nat list option"

definition event_and :: "nat list \<Rightarrow> nat \<Rightarrow> nat list" where
  "event_and es e = (if e \<in> set es then es else es @ [e])"

fun gvisit :: "(nat \<Rightarrow> bool) \<Rightarrow> gexpr \<Rightarrow> rt_rule \<Rightarrow> rt_rule option" where
  "gvisit isInput (GVar x) fr = Some (fr\<lparr>rr_guardComplexity := rr_guardComplexity fr + 2\<rparr>)"
| "gvisit isInput (GLit v) fr = Some (fr\<lparr>rr_guardComplexity := rr_guardComplexity fr + 1\<rparr>)"
| "gvisit isInput (GMemGuard f ps) fr = Some (fr\<lparr>rr_guardNames := rr_guardNames fr @ [f]\<rparr>)"
| "gvisit isInput (GEvent e n) fr = Some (fr\<lparr>rr_events := event_and (rr_events fr) e,
     rr_guardComplexity := rr_guardComplexity fr + 1\<rparr>)"
| "gvisit isInput (GToken p n) fr = Some (fr\<lparr>rr_guardComplexity := rr_guardComplexity fr + 5\<rparr>)"
| "gvisit isInput (GComm p c r) fr = (let fr = fr\<lparr>rr_guardComplexity := rr_guardComplexity fr + 3\<rparr>
     in if isInput p then do {
          assert_that (c \<le> r);
          Some (fr\<lparr>rr_portIn := rr_portIn fr @ [(p, c, r)]\<rparr>)
        } else do {
          assert_that (c = 0 \<or> c = r);
          Some (fr\<lparr>rr_portOut := rr_portOut fr @ [(p, c, r)]\<rparr>)
        })"
| "gvisit isInput (GUnOp op e) fr =
     gvisit isInput e (fr\<lparr>rr_guardComplexity := rr_guardComplexity fr + 1\<rparr>)"
| "gvisit isInput (GBinOp op a b) fr = do {
     fr \<leftarrow> gvisit isInput a (fr\<lparr>rr_guardComplexity := rr_guardComplexity fr + 1\<rparr>);
     gvisit isInput b fr
   }"
| "gvisit isInput (GVirtual e) fr = gvisit isInput e fr"

definition mk_rt_rule :: "(nat \<Rightarrow> bool) \<Rightarrow> firing_rule \<Rightarrow> rt_rule option" where
  "mk_rt_rule isInput r = gvisit isInput (fr_guard r) (firing_rule.extend r
     \<lparr>rr_guardNames = [], rr_guardComplexity = 0, rr_events = [], rr_portIn = [], rr_portOut = [],
      rr_ioPatternWaiter = None\<rparr>)"

text \<open>
  \<^verbatim>\<open>end_of_elaboration\<close> adds the event every port signals when enough tokens or places are there;
  \<open>blockEvent p n\<close> names it.
\<close>

definition rule_end_of_elaboration :: "(nat \<Rightarrow> nat \<Rightarrow> nat) \<Rightarrow> rt_rule \<Rightarrow> rt_rule" where
  "rule_end_of_elaboration blockEvent r = (let
       es = foldl (\<lambda>es (p, c, n). event_and es (blockEvent p n)) (rr_events r) (rr_portIn r);
       es = foldl (\<lambda>es (p, c, n). event_and es (blockEvent p n)) es (rr_portOut r)
     in r\<lparr>rr_ioPatternWaiter := Some es, rr_events := []\<rparr>)"

definition getActionNames :: "rt_rule \<Rightarrow> string list" where
  "getActionNames r = map fc_name (fr_action r)"

text \<open>
  The limits of the ports while a rule is checked or executed: the required number of tokens of an
  input, the produced number of an output.
\<close>

definition commSetup :: "rt_rule \<Rightarrow> (nat \<Rightarrow> nat) \<Rightarrow> (nat \<Rightarrow> nat)" where
  "commSetup r lim = foldl (\<lambda>lim (p, c, n). lim(p := c))
     (foldl (\<lambda>lim (p, c, n). lim(p := n)) lim (rr_portIn r)) (rr_portOut r)"

definition commReset :: "rt_rule \<Rightarrow> (nat \<Rightarrow> nat) \<Rightarrow> (nat \<Rightarrow> nat)" where
  "commReset r lim = foldl (\<lambda>lim (p, c, n). lim(p := 0))
     (foldl (\<lambda>lim (p, c, n). lim(p := 0)) lim (rr_portIn r)) (rr_portOut r)"

definition getIOPatternWaiter :: "rt_rule \<Rightarrow> nat list option" where
  "getIOPatternWaiter r = rr_ioPatternWaiter r"

text \<open>\<^verbatim>\<open>RuntimeTransition::check\<close>: the guard is only evaluated when the event waiter is active.\<close>

definition check_rule :: "genv \<Rightarrow> rt_rule \<Rightarrow> bool option" where
  "check_rule \<Gamma> r = do {
     w \<leftarrow> getIOPatternWaiter r;
     if list_all (ge_event \<Gamma>) w then do {
       v \<leftarrow> geval (\<Gamma>\<lparr>ge_limit := commSetup r (ge_limit \<Gamma>)\<rparr>) (fr_guard r);
       b \<leftarrow> to_bool v;
       (case activation_of_bool b of ENABLED \<Rightarrow> Some True | DISABLED \<Rightarrow> Some False | BLOCKED \<Rightarrow> None)
     } else Some False
   }"

section \<open>What the visitor collects\<close>

fun gcomms :: "gexpr \<Rightarrow> (nat \<times> nat \<times> nat) list" where
  "gcomms (GComm p c r) = [(p, c, r)]"
| "gcomms (GUnOp op e) = gcomms e"
| "gcomms (GBinOp op a b) = gcomms a @ gcomms b"
| "gcomms (GVirtual e) = gcomms e"
| "gcomms _ = []"

fun gevents :: "gexpr \<Rightarrow> nat list" where
  "gevents (GEvent e n) = [e]"
| "gevents (GUnOp op e) = gevents e"
| "gevents (GBinOp op a b) = gevents a @ gevents b"
| "gevents (GVirtual e) = gevents e"
| "gevents _ = []"

fun gtokens :: "gexpr \<Rightarrow> (nat \<times> nat) list" where
  "gtokens (GToken p n) = [(p, n)]"
| "gtokens (GUnOp op e) = gtokens e"
| "gtokens (GBinOp op a b) = gtokens a @ gtokens b"
| "gtokens (GVirtual e) = gtokens e"
| "gtokens _ = []"

definition comm_ok :: "(nat \<Rightarrow> bool) \<Rightarrow> nat \<times> nat \<times> nat \<Rightarrow> bool" where
  "comm_ok isInput = (\<lambda>(p, c, r). if isInput p then c \<le> r else c = 0 \<or> c = r)"

text \<open>The parts of a runtime rule that the execution of the rule depends on.\<close>

lemma gvisit_collects:
  "gvisit isInput e fr = Some fr' \<Longrightarrow>
   list_all (comm_ok isInput) (gcomms e) \<and> fr_guard fr' = fr_guard fr \<and> fr_action fr' = fr_action fr \<and>
   rr_events fr' = foldl event_and (rr_events fr) (gevents e) \<and>
   rr_portIn fr' = rr_portIn fr @ filter (\<lambda>(p, c, r). isInput p) (gcomms e) \<and>
   rr_portOut fr' = rr_portOut fr @ filter (\<lambda>(p, c, r). \<not> isInput p) (gcomms e)"
proof (induction isInput e fr arbitrary: fr' rule: gvisit.induct)
  case (8 isInput op a b fr)
  obtain fr1 where a: "gvisit isInput a (fr\<lparr>rr_guardComplexity := rr_guardComplexity fr + 1\<rparr>) = Some fr1"
      and b: "gvisit isInput b fr1 = Some fr'"
    using "8.prems" unfolding gvisit.simps bind_eq_Some_iff by blast
  from "8.IH"(1) [OF a] "8.IH"(2) [OF a b] show ?case by simp
qed (auto simp: comm_ok_def Let_def split: if_splits)

lemma gvisit_accepts:
  "list_all (comm_ok isInput) (gcomms e) \<Longrightarrow> \<exists>fr'. gvisit isInput e fr = Some fr'"
proof (induction isInput e fr rule: gvisit.induct)
  case (8 isInput op a b fr)
  then obtain fr1 where "gvisit isInput a (fr\<lparr>rr_guardComplexity := rr_guardComplexity fr + 1\<rparr>) = Some fr1" by auto
  with 8 show ?case by simp
qed (auto simp: comm_ok_def Let_def)

lemma event_and_fold: "distinct es \<Longrightarrow>
  distinct (foldl event_and es xs) \<and> set (foldl event_and es xs) = set es \<union> set xs"
proof (induction xs arbitrary: es)
  case (Cons x xs)
  have "distinct (event_and es x)" "set (event_and es x) = insert x (set es)"
    using Cons.prems by (auto simp: event_and_def)
  with Cons.IH [of "event_and es x"] show ?case by auto
qed simp

lemma event_and_fold_map: "foldl (\<lambda>es (p, c, n). event_and es (f p n)) es xs = foldl event_and es (map (\<lambda>(p, c, n). f p n) xs)"
  by (induction xs arbitrary: es) auto

lemma elaborated_waiter:
  assumes "mk_rt_rule isInput r = Some rr"
  shows "\<exists>es. getIOPatternWaiter (rule_end_of_elaboration blockEvent rr) = Some es \<and> distinct es \<and>
    set es = set (gevents (fr_guard r)) \<union> (\<lambda>(p, c, n). blockEvent p n) ` set (gcomms (fr_guard r))"
proof -
  note c = gvisit_collects [OF assms [unfolded mk_rt_rule_def], simplified]
  let ?es = "foldl event_and (foldl event_and (rr_events rr) (map (\<lambda>(p, c, n). blockEvent p n) (rr_portIn rr)))
      (map (\<lambda>(p, c, n). blockEvent p n) (rr_portOut rr))"
  have "distinct (rr_events rr)" "set (rr_events rr) = set (gevents (fr_guard r))"
    using event_and_fold [of "[]" "gevents (fr_guard r)"] c by (simp_all add: firing_rule.defs)
  moreover from this(1) have "distinct ?es" "set ?es = set (rr_events rr) \<union>
      (\<lambda>(p, c, n). blockEvent p n) ` set (rr_portIn rr) \<union> (\<lambda>(p, c, n). blockEvent p n) ` set (rr_portOut rr)"
    using event_and_fold by simp_all
  ultimately have "distinct ?es" "set ?es = set (gevents (fr_guard r)) \<union>
      (\<lambda>(p, c, n). blockEvent p n) ` (set (rr_portIn rr) \<union> set (rr_portOut rr))"
    by (simp_all only: image_Un sup_assoc)
  moreover have "set (rr_portIn rr) \<union> set (rr_portOut rr) = set (gcomms (fr_guard r))"
    using c by (auto simp: firing_rule.defs)
  ultimately show ?thesis
    by (simp add: rule_end_of_elaboration_def getIOPatternWaiter_def Let_def event_and_fold_map)
qed

section \<open>Limits and assertions during a check\<close>

lemma foldl_upd_other: "p \<notin> fst ` set xs \<Longrightarrow> foldl (\<lambda>lim (p, c, n). lim(p := f c n)) lim xs p = lim p"
  by (induction xs arbitrary: lim) auto

lemma foldl_upd_same:
  "distinct (map fst xs) \<Longrightarrow> (p, c, n) \<in> set xs \<Longrightarrow>
   foldl (\<lambda>lim (p, c, n). lim(p := f c n)) lim xs p = f c n"
proof (induction xs arbitrary: lim)
  case (Cons x xs)
  obtain q d m where x: "x = (q, d, m)" by (cases x)
  show ?case
  proof (cases "x = (p, c, n)")
    case True
    then have "p \<notin> fst ` set xs" using Cons.prems(1) by auto
    from foldl_upd_other [OF this, of f "lim(p := f c n)"] show ?thesis
      by (simp only: True foldl_Cons prod.case fun_upd_same)
  qed (use Cons x in auto)
qed simp

lemma commSetup_input:
  assumes "mk_rt_rule isInput r = Some rr" "distinct (map fst (gcomms (fr_guard r)))"
    and "(p, c, n) \<in> set (gcomms (fr_guard r))" "isInput p"
  shows "commSetup (rule_end_of_elaboration blockEvent rr) lim p = n"
proof -
  note k = gvisit_collects [OF assms(1) [unfolded mk_rt_rule_def], simplified]
  have i: "rr_portIn rr = filter (\<lambda>(p, c, r). isInput p) (gcomms (fr_guard r))"
      "rr_portOut rr = filter (\<lambda>(p, c, r). \<not> isInput p) (gcomms (fr_guard r))"
    using k by (simp_all add: firing_rule.defs)
  have "p \<notin> fst ` set (rr_portOut rr)" using assms(4) by (auto simp: i)
  moreover have "distinct (map fst (rr_portIn rr))" "(p, c, n) \<in> set (rr_portIn rr)"
    using assms by (auto simp: i distinct_map_filter)
  ultimately show ?thesis
    using foldl_upd_same [of "rr_portIn rr" p c n "\<lambda>c n. n" lim]
      foldl_upd_other [of p "rr_portOut rr" "\<lambda>c n. c"]
    by (simp add: commSetup_def rule_end_of_elaboration_def Let_def)
qed

text \<open>Limits and events only matter where a guard uses them.\<close>

lemma geval_cong:
  "(\<And>p n. (p, n) \<in> set (gtokens e) \<Longrightarrow> (n < ge_limit \<Gamma> p) = (n < ge_limit \<Delta> p)) \<Longrightarrow>
   (\<And>x. x \<in> set (gevents e) \<Longrightarrow> ge_event \<Gamma> x = ge_event \<Delta> x) \<Longrightarrow>
   ge_var \<Gamma> = ge_var \<Delta> \<Longrightarrow> ge_mem \<Gamma> = ge_mem \<Delta> \<Longrightarrow> ge_token \<Gamma> = ge_token \<Delta> \<Longrightarrow> geval \<Gamma> e = geval \<Delta> e"
proof (induction e)
  case (GBinOp op a b)
  have "geval \<Gamma> a = geval \<Delta> a" "geval \<Gamma> b = geval \<Delta> b"
    using GBinOp by simp_all
  then show ?case by (simp only: geval.simps)
qed auto

text \<open>
  C9.  A firing rule waits for exactly what its guard needs: after elaboration its event waiter is the
  set of the events named by \<^verbatim>\<open>till\<close> in the guard and, for every communication request, of the
  event its port signals when the required number of tokens or places is there; each is entered once.
  The rule is accepted exactly when no input consumes more than it requires and every output produces
  nothing or what it requires.
\<close>

theorem rule_waits_for_guard:
  "(case mk_rt_rule isInput r of
      None \<Rightarrow> \<not> list_all (comm_ok isInput) (gcomms (fr_guard r))
    | Some rr \<Rightarrow> list_all (comm_ok isInput) (gcomms (fr_guard r)) \<and>
        (\<exists>es. getIOPatternWaiter (rule_end_of_elaboration blockEvent rr) = Some es \<and> distinct es \<and>
          set es = set (gevents (fr_guard r)) \<union> (\<lambda>(p, c, n). blockEvent p n) ` set (gcomms (fr_guard r))))"
proof (cases "mk_rt_rule isInput r")
  case None
  then show ?thesis
    using gvisit_accepts [of isInput "fr_guard r"] unfolding mk_rt_rule_def by (metis option.case(1) option.discI)
next
  case (Some rr)
  then have "list_all (comm_ok isInput) (gcomms (fr_guard r))"
    using gvisit_collects unfolding mk_rt_rule_def by fastforce
  with Some elaborated_waiter [OF Some] show ?thesis by simp
qed

text \<open>
  The tokens the evaluation of a guard reads in any case, and the environment in which the events are
  active and no token of the guard lies beyond a limit.
\<close>

fun always_read :: "gexpr \<Rightarrow> (nat \<times> nat) list" where
  "always_read (GToken p n) = [(p, n)]"
| "always_read (GUnOp op e) = always_read e"
| "always_read (GVirtual e) = always_read e"
| "always_read (GBinOp op a b) = always_read a @
     (if op = LOr \<or> op = LAnd \<and> \<not> is_enabled a then [] else always_read b)"
| "always_read _ = []"

lemma always_read_trips:
  "(p, n) \<in> set (always_read e) \<Longrightarrow> ge_limit \<Gamma> p \<le> n \<Longrightarrow> geval \<Gamma> e = None"
proof (induction e)
  case (GBinOp op a b)
  show ?case
  proof (cases "(p, n) \<in> set (always_read a)")
    case True
    then show ?thesis using GBinOp by (simp add: value_defs)
  next
    case False
    then have "geval \<Gamma> b = None" "op \<noteq> LOr" "op = LAnd \<longrightarrow> is_enabled a"
      using GBinOp by (auto split: if_splits)
    then show ?thesis by (auto simp: value_defs split: Option.bind_splits)
  qed
qed (auto simp: value_DUnOp_def value_DVirtual_def)

definition without_limits :: "gexpr \<Rightarrow> genv \<Rightarrow> genv" where
  "without_limits g \<Gamma> = \<Gamma>\<lparr>ge_event := \<lambda>_. True, ge_limit := \<lambda>_. Suc (foldr max (map snd (gtokens g)) 0)\<rparr>"

lemma below_max: "x \<in> set xs \<Longrightarrow> x < Suc (foldr max xs (0 :: nat))"
  by (induction xs) auto

definition tokens_required :: "(nat \<Rightarrow> bool) \<Rightarrow> gexpr \<Rightarrow> bool" where
  "tokens_required isInput g \<longleftrightarrow>
     list_all (\<lambda>(p, n). isInput p \<and> list_ex (\<lambda>(q, c, k). q = p \<and> n < k) (gcomms g)) (gtokens g)"

text \<open>
  C10.  Let no port be requested twice.  If every token a guard reads lies below what the guard requires
  of that input port, then checking the elaborated rule hits no assertion of an event or a token: it
  answers no if an event of its waiter is inactive, and otherwise what the guard evaluates to without
  any token limit.  If a token that is read in any case lies at or beyond what is required of its
  port, then checking the rule hits the assertion as soon as its events are active.
\<close>

theorem check_rule_exact:
  assumes "mk_rt_rule isInput r = Some rr" "distinct (map fst (gcomms (fr_guard r)))"
  shows "\<exists>es. getIOPatternWaiter (rule_end_of_elaboration blockEvent rr) = Some es \<and>
    (tokens_required isInput (fr_guard r) \<longrightarrow> check_rule \<Gamma> (rule_end_of_elaboration blockEvent rr) =
       (if list_all (ge_event \<Gamma>) es then geval (without_limits (fr_guard r) \<Gamma>) (fr_guard r) \<bind> to_bool else Some False)) \<and>
    (\<forall>(p, c, k) \<in> set (gcomms (fr_guard r)). \<forall>(q, n) \<in> set (always_read (fr_guard r)).
       isInput p \<and> q = p \<and> k \<le> n \<and> list_all (ge_event \<Gamma>) es \<longrightarrow>
       check_rule \<Gamma> (rule_end_of_elaboration blockEvent rr) = None)"
proof -
  let ?rr = "rule_end_of_elaboration blockEvent rr" and ?g = "fr_guard r"
  let ?\<Gamma> = "\<Gamma>\<lparr>ge_limit := commSetup ?rr (ge_limit \<Gamma>)\<rparr>"
  obtain es where es: "getIOPatternWaiter ?rr = Some es" "set (gevents ?g) \<subseteq> set es"
    using elaborated_waiter [OF assms(1), of blockEvent] by auto
  have g: "fr_guard ?rr = ?g"
    using gvisit_collects [OF assms(1) [unfolded mk_rt_rule_def]]
    by (simp add: rule_end_of_elaboration_def Let_def firing_rule.defs)
  have check: "check_rule \<Gamma> ?rr = (if list_all (ge_event \<Gamma>) es then geval ?\<Gamma> ?g \<bind> to_bool else Some False)"
    using es(1) by (auto simp: check_rule_def g activation_of_bool_def split: Option.bind_splits)
  have "geval ?\<Gamma> ?g = geval (without_limits ?g \<Gamma>) ?g"
    if t: "tokens_required isInput ?g" and a: "list_all (ge_event \<Gamma>) es"
  proof (rule geval_cong)
    fix p n assume pn: "(p, n) \<in> set (gtokens ?g)"
    then obtain c k where k: "(p, c, k) \<in> set (gcomms ?g)" "n < k" "isInput p"
      using t by (force simp: tokens_required_def list_all_iff list_ex_iff)
    have "n < Suc (foldr max (map snd (gtokens ?g)) 0)" using pn by (intro below_max) force
    then show "(n < ge_limit ?\<Gamma> p) = (n < ge_limit (without_limits ?g \<Gamma>) p)"
      using commSetup_input [OF assms(1,2) k(1,3)] k(2) by (simp add: without_limits_def)
  next
    fix x assume "x \<in> set (gevents ?g)"
    then have "ge_event \<Gamma> x" using es(2) a by (auto simp: list_all_iff)
    then show "ge_event ?\<Gamma> x = ge_event (without_limits ?g \<Gamma>) x" by (simp add: without_limits_def)
  qed (simp_all add: without_limits_def)
  moreover have "geval ?\<Gamma> ?g = None"
    if "(p, c, k) \<in> set (gcomms ?g)" "(p, n) \<in> set (always_read ?g)" "isInput p" "k \<le> n" for p c k n
    using commSetup_input [OF assms(1,2) that(1,3)] that(4) by (intro always_read_trips [OF that(2)]) simp
  ultimately show ?thesis using es(1) check by (auto split: if_splits)
qed

theorem check_rule_exact_witness:
  "\<exists>rr es. mk_rt_rule (\<lambda>_. True) (mk_firing_rule (g_and (GComm 0 1 2) (GBinOp Lt (GToken 0 1) (GLit (VUInt 9)))) []) = Some rr \<and>
     check_rule \<lparr>ge_var = \<lambda>_. VEnabled, ge_mem = \<lambda>_ _. VEnabled, ge_event = \<lambda>_. True, ge_limit = \<lambda>_. 0,
       ge_token = \<lambda>p n. Some (VUInt 4)\<rparr> (rule_end_of_elaboration (\<lambda>p n. p) rr) = Some True"
proof -
  let ?g = "g_and (GComm 0 1 2) (GBinOp Lt (GToken 0 1) (GLit (VUInt 9)))"
  let ?r = "mk_firing_rule ?g []"
  let ?env = "\<lparr>ge_var = \<lambda>_. VEnabled, ge_mem = \<lambda>_ _. VEnabled, ge_event = \<lambda>_. True, ge_limit = \<lambda>_. 0,
       ge_token = \<lambda>p n. Some (VUInt 4)\<rparr>"
  obtain rr where rr: "mk_rt_rule (\<lambda>_. True) ?r = Some rr"
    by (auto simp: mk_rt_rule_def mk_firing_rule_def g_and_def)
  have "geval (without_limits (fr_guard ?r) ?env) (fr_guard ?r) \<bind> to_bool = Some True"
    by (simp add: mk_firing_rule_def g_and_def value_defs without_limits_def)
  moreover have "distinct (map fst (gcomms (fr_guard ?r)))" "tokens_required (\<lambda>_. True) (fr_guard ?r)"
    by (simp_all add: mk_firing_rule_def g_and_def tokens_required_def)
  moreover have "list_all (ge_event ?env) es" for es by (simp add: list_all_iff)
  ultimately have "check_rule ?env (rule_end_of_elaboration (\<lambda>p n. p) rr) = Some True"
    using check_rule_exact [OF rr, of "\<lambda>p n. p" ?env] by auto
  then show ?thesis using rr by auto
qed

end
