(* ===== verification/Guard_Typing.thy ===== *)
theory Guard_Typing
  imports Firing_Rules
begin

text \<open>
  The types of guards.  The templates of \<^verbatim>\<open>headers/smoc/smoc_guard.hpp\<close> compute a \<^verbatim>\<open>result_type\<close> for every
  expression, by \<^verbatim>\<open>typeof\<close> of the built-in operators on values or by specialisation; an expression without one
  does not compile.  Guards that compile have a value of that type.
\<close>

section \<open>Types\<close>

datatype gty =
    TBool
  | TUInt
  | TEnabled
  | TPtr gty
  | TOneof
  | TStruct "(string \<times> gty) list"
  | TMember string

primrec type_of :: "gval \<Rightarrow> gty" where
  "type_of (VBool b) = TBool"
| "type_of (VUInt w) = TUInt"
| "type_of VEnabled = TEnabled"
| "type_of (VPtr v) = TPtr (type_of v)"
| "type_of (VOneof t v) = TOneof"
| "type_of (VStruct fs) = TStruct (map (map_prod id type_of) fs)"
| "type_of (VMember m) = TMember m"

text \<open>Types with the built-in arithmetic, and those that convert to \<^verbatim>\<open>bool\<close>.\<close>

fun is_arith :: "gty \<Rightarrow> bool" where
  "is_arith TBool = True"
| "is_arith TUInt = True"
| "is_arith TEnabled = True"
| "is_arith _ = False"

fun is_cond :: "gty \<Rightarrow> bool" where
  "is_cond (TPtr t) = True"
| "is_cond t = is_arith t"

fun un_type :: "opun \<Rightarrow> gty \<Rightarrow> gty option" where
  "un_type LNot t = (if is_cond t then Some TBool else None)"
| "un_type BNot t = (if is_arith t then Some TUInt else None)"
| "un_type DeRef (TPtr t) = Some t"
| "un_type Type TOneof = Some TUInt"
| "un_type _ _ = None"

fun arith_type :: "opbin \<Rightarrow> gty option" where
  "arith_type Add = Some TUInt"
| "arith_type Sub = Some TUInt"
| "arith_type Multiply = Some TUInt"
| "arith_type Divide = Some TUInt"
| "arith_type Eq = Some TBool"
| "arith_type Ne = Some TBool"
| "arith_type Lt = Some TBool"
| "arith_type Le = Some TBool"
| "arith_type Gt = Some TBool"
| "arith_type Ge = Some TBool"
| "arith_type BAnd = Some TUInt"
| "arith_type BOr = Some TUInt"
| "arith_type BXor = Some TUInt"
| "arith_type _ = None"

definition land_type :: "bool \<Rightarrow> bool \<Rightarrow> gty \<Rightarrow> gty \<Rightarrow> gty option" where
  "land_type enA enB s t =
     (if enA \<and> enB then Some TEnabled
      else if (enA \<or> is_cond s) \<and> (enB \<or> is_cond t) then Some TBool else None)"

definition field_type :: "gty \<Rightarrow> gty \<Rightarrow> gty option" where
  "field_type s t = (case (s, t) of (TStruct fs, TMember m) \<Rightarrow> map_of fs m | _ \<Rightarrow> None)"

definition bin_type :: "opbin \<Rightarrow> bool \<Rightarrow> bool \<Rightarrow> gty \<Rightarrow> gty \<Rightarrow> gty option" where
  "bin_type op enA enB s t =
     (if op = LAnd then land_type enA enB s t
      else if op = LOr then (if is_cond s \<and> is_cond t then Some TBool else None)
      else if op = Field then field_type s t
      else if is_arith s \<and> is_arith t then arith_type op else None)"

text \<open>The types of variables, of the results of member functions and of the tokens of the ports.\<close>

record type_env =
  te_var :: "string \<Rightarrow> gty"
  te_mem :: "string \<Rightarrow> gval list \<Rightarrow> gty"
  te_token :: "nat \<Rightarrow> gty"

fun guard_type :: "type_env \<Rightarrow> gexpr \<Rightarrow> gty option" where
  "guard_type \<Delta> (GVar x) = Some (te_var \<Delta> x)"
| "guard_type \<Delta> (GLit v) = Some (type_of v)"
| "guard_type \<Delta> (GMemGuard f ps) = Some (te_mem \<Delta> f ps)"
| "guard_type \<Delta> (GEvent e n) = Some TEnabled"
| "guard_type \<Delta> (GToken p n) = Some (te_token \<Delta> p)"
| "guard_type \<Delta> (GComm p c r) = Some TEnabled"
| "guard_type \<Delta> (GUnOp op e) = guard_type \<Delta> e \<bind> un_type op"
| "guard_type \<Delta> (GVirtual e) = do { t \<leftarrow> guard_type \<Delta> e; if is_cond t then Some TBool else None }"
| "guard_type \<Delta> (GBinOp op a b) = do {
     s \<leftarrow> guard_type \<Delta> a;
     t \<leftarrow> guard_type \<Delta> b;
     bin_type op (is_enabled a) (is_enabled b) s t
   }"

section \<open>Values of these types\<close>

lemma type_of_inv:
  "type_of v = TBool \<longleftrightarrow> (\<exists>b. v = VBool b)" "type_of v = TUInt \<longleftrightarrow> (\<exists>w. v = VUInt w)" "type_of v = TEnabled \<longleftrightarrow> v = VEnabled"
  "type_of v = TPtr t \<longleftrightarrow> (\<exists>x. v = VPtr x \<and> type_of x = t)" "type_of v = TOneof \<longleftrightarrow> (\<exists>i x. v = VOneof i x)"
  "type_of v = TStruct ts \<longleftrightarrow> (\<exists>fs. v = VStruct fs \<and> map (map_prod id type_of) fs = ts)" "type_of v = TMember m \<longleftrightarrow> v = VMember m"
  by (cases v; auto)+

lemma is_arith_value: "is_arith (type_of v) \<Longrightarrow> \<exists>w. to_uint v = Some w"
  by (cases v) simp_all

lemma is_cond_value: "is_cond (type_of v) \<Longrightarrow> \<exists>b. to_bool v = Some b"
  by (cases v) auto

lemma map_of_map_prod: "map_of (map (map_prod id f) fs) m = map_option f (map_of fs m)"
  by (induction fs) auto

lemma un_type_sound:
  assumes "un_type op (type_of v) = Some t"
  shows "\<exists>x. un_op op v = Some x \<and> type_of x = t"
proof (cases op)
  case LNot
  then show ?thesis using assms is_cond_value [of v] by (auto split: if_splits)
next
  case BNot
  then show ?thesis using assms is_arith_value [of v] by (auto split: if_splits)
qed (use assms in \<open>cases v; auto\<close>)+

lemma arith_type_sound:
  assumes "arith_type op = Some t" "op = Divide \<Longrightarrow> w \<noteq> 0"
  shows "\<exists>x. uint_op op u w = Some x \<and> type_of x = t"
  using assms by (cases op) auto

lemma bin_type_sound:
  assumes "bin_type op enA enB (type_of v) (type_of x) = Some t" "op = Divide \<Longrightarrow> to_uint x \<noteq> Some 0"
    and "enA \<Longrightarrow> type_of v = TEnabled" "enB \<Longrightarrow> type_of x = TEnabled"
  shows "\<exists>y. value_DBinOp op enA enB (Some v) (Some x) = Some y \<and> type_of y = t"
proof -
  consider "op = LAnd" | "op = LOr" | "op = Field" | "op \<notin> {LAnd, LOr, Field}" by blast
  then show ?thesis
  proof cases
    case 1
    then show ?thesis
      using assms(1,3,4) is_cond_value [of v] is_cond_value [of x]
      by (auto simp: bin_type_def land_type_def value_defs type_of_inv split: if_splits gval.splits)
  next
    case 2
    then show ?thesis
      using assms(1) is_cond_value [of v] is_cond_value [of x] by (auto simp: bin_type_def value_defs split: if_splits)
  next
    case 3
    then obtain fs m where "type_of v = TStruct fs" "type_of x = TMember m" "map_of fs m = Some t"
      using assms(1) by (auto simp: bin_type_def field_type_def split: gty.splits)
    then show ?thesis using 3 by (auto simp: type_of_inv value_defs map_of_map_prod)
  next
    case 4
    then have a: "is_arith (type_of v)" "is_arith (type_of x)" "arith_type op = Some t"
      using assms(1) by (auto simp: bin_type_def split: if_splits)
    obtain u w where "to_uint v = Some u" "to_uint x = Some w" using is_arith_value [OF a(1)] is_arith_value [OF a(2)] by blast
    then show ?thesis using 4 arith_type_sound [OF a(3), of w u] assms(2) by (auto simp: value_defs)
  qed
qed

lemma enabled_type: "is_enabled e \<Longrightarrow> guard_type \<Delta> e = Some t \<Longrightarrow> t = TEnabled"
  by (induction e arbitrary: t rule: is_enabled.induct) (auto simp: bin_type_def land_type_def bind_eq_Some_iff)

section \<open>Soundness\<close>

text \<open>
  What a guard reads has the types of its declarations: the variables, results of member functions, and the tokens
  within the limits of their ports; its events are active.
\<close>

definition env_fits :: "type_env \<Rightarrow> genv \<Rightarrow> gexpr \<Rightarrow> bool" where
  "env_fits \<Delta> \<Gamma> e \<longleftrightarrow> (\<forall>x. type_of (ge_var \<Gamma> x) = te_var \<Delta> x) \<and> (\<forall>f ps. type_of (ge_mem \<Gamma> f ps) = te_mem \<Delta> f ps) \<and>
     list_all (ge_event \<Gamma>) (gevents e) \<and>
     list_all (\<lambda>(p, n). n < ge_limit \<Gamma> p \<and> map_option type_of (ge_token \<Gamma> p n) = Some (te_token \<Delta> p)) (gtokens e)"

text \<open>
  Whether the evaluation of a guard comes to a division by zero.  The right operand of \<^verbatim>\<open>&&\<close> and \<^verbatim>\<open>||\<close> may
  not be evaluated.
\<close>

definition right_needed :: "opbin \<Rightarrow> bool \<Rightarrow> bool \<Rightarrow> gval \<Rightarrow> bool" where
  "right_needed op enA enB v =
     (if op = LAnd then enA \<or> enB \<and> type_of v = TBool \<or> to_bool v = Some True
      else if op = LOr then to_bool v = Some False else True)"

fun zero_division :: "genv \<Rightarrow> gexpr \<Rightarrow> bool" where
  "zero_division \<Gamma> (GUnOp op e) = zero_division \<Gamma> e"
| "zero_division \<Gamma> (GVirtual e) = zero_division \<Gamma> e"
| "zero_division \<Gamma> (GBinOp op a b) = (zero_division \<Gamma> a \<or>
     (case geval \<Gamma> a of None \<Rightarrow> False
      | Some v \<Rightarrow> right_needed op (is_enabled a) (is_enabled b) v \<and>
          (zero_division \<Gamma> b \<or> op = Divide \<and> geval \<Gamma> b \<bind> to_uint = Some 0)))"
| "zero_division \<Gamma> _ = False"

text \<open>An operator whose right operand is needed but has no value has no value either.\<close>

lemma right_undefined:
  assumes "right_needed op enA enB v" "bin_type op enA enB (type_of v) t \<noteq> None"
  shows "value_DBinOp op enA enB (Some v) None = None"
  using assms by (auto simp: right_needed_def value_defs type_of_inv split: gval.splits Option.bind_splits)

text \<open>If it is not needed, its type suffices.\<close>

lemma right_unneeded:
  assumes "bin_type op enA enB (type_of v) s = Some t" "\<not> right_needed op enA enB v"
  shows "\<exists>y. value_DBinOp op enA enB (Some v) w = Some y \<and> type_of y = t"
proof -
  consider "op = LAnd" "\<not> enA" | "op = LOr" using assms(2) by (auto simp: right_needed_def split: if_splits)
  then show ?thesis
  proof cases
    case 1
    then have "is_cond (type_of v)" "t = TBool" using assms(1) by (auto simp: bin_type_def land_type_def split: if_splits)
    moreover from this obtain p where "to_bool v = Some p" using is_cond_value by blast
    ultimately show ?thesis using 1 assms(2)
      by (cases v) (auto simp: right_needed_def value_defs split: if_splits)
  next
    case 2
    then have "is_cond (type_of v)" "t = TBool" using assms(1) by (auto simp: bin_type_def split: if_splits)
    moreover from this obtain p where "to_bool v = Some p" using is_cond_value by blast
    ultimately show ?thesis using 2 assms(2) by (auto simp: right_needed_def value_defs)
  qed
qed

lemma division_undefined: "to_uint x = Some 0 \<Longrightarrow> value_DBinOp Divide enA enB (Some v) (Some x) = None"
  by (auto simp: value_defs split: Option.bind_splits)

lemma guard_value:
  "guard_type \<Delta> e = Some t \<Longrightarrow> env_fits \<Delta> \<Gamma> e \<Longrightarrow>
     (if zero_division \<Gamma> e then geval \<Gamma> e = None else \<exists>v. geval \<Gamma> e = Some v \<and> type_of v = t)"
proof (induction e arbitrary: t)
  case (GUnOp op e)
  then obtain s where s: "guard_type \<Delta> e = Some s" "un_type op s = Some t" by (auto simp: bind_eq_Some_iff)
  have "if zero_division \<Gamma> e then geval \<Gamma> e = None else \<exists>v. geval \<Gamma> e = Some v \<and> type_of v = s"
    using GUnOp.IH [OF s(1)] GUnOp.prems by (simp add: env_fits_def)
  then show ?case using un_type_sound [of op _ t] s(2) by (auto simp: value_DUnOp_def split: if_splits)
next
  case (GVirtual e)
  then obtain s where s: "guard_type \<Delta> e = Some s" "is_cond s" "t = TBool" by (auto simp: bind_eq_Some_iff split: if_splits)
  have "if zero_division \<Gamma> e then geval \<Gamma> e = None else \<exists>v. geval \<Gamma> e = Some v \<and> type_of v = s"
    using GVirtual.IH [OF s(1)] GVirtual.prems by (simp add: env_fits_def)
  then show ?case using is_cond_value s(2,3) by (fastforce simp: value_DVirtual_def split: if_splits)
next
  case (GBinOp op a b)
  then obtain r s where rs: "guard_type \<Delta> a = Some r" "guard_type \<Delta> b = Some s"
    "bin_type op (is_enabled a) (is_enabled b) r s = Some t" by (auto simp: bind_eq_Some_iff)
  have A: "if zero_division \<Gamma> a then geval \<Gamma> a = None else \<exists>v. geval \<Gamma> a = Some v \<and> type_of v = r"
    using GBinOp.IH(1) [OF rs(1)] GBinOp.prems by (simp add: env_fits_def)
  have B: "if zero_division \<Gamma> b then geval \<Gamma> b = None else \<exists>x. geval \<Gamma> b = Some x \<and> type_of x = s"
    using GBinOp.IH(2) [OF rs(2)] GBinOp.prems by (simp add: env_fits_def)
  show ?case
  proof (cases "zero_division \<Gamma> a")
    case True
    then show ?thesis using A by (simp add: value_defs)
  next
    case False
    then obtain v where v: "geval \<Gamma> a = Some v" "type_of v = r" using A by auto
    show ?thesis
    proof (cases "right_needed op (is_enabled a) (is_enabled b) v")
      case unneeded: False
      then show ?thesis using False v right_unneeded [of op "is_enabled a" "is_enabled b" v s t "geval \<Gamma> b"] rs(3) by simp
    next
      case needed: True
      show ?thesis
      proof (cases "zero_division \<Gamma> b")
        case True
        then show ?thesis using B v needed right_undefined [OF needed, of s] rs(3) by simp
      next
        case nb: False
        then obtain x where x: "geval \<Gamma> b = Some x" "type_of x = s" using B by auto
        show ?thesis
        proof (cases "op = Divide \<and> to_uint x = Some 0")
          case True
          then show ?thesis using v x needed division_undefined by simp
        next
          case ok: False
          then show ?thesis using False nb v x needed rs
              bin_type_sound [of op "is_enabled a" "is_enabled b" v x t] enabled_type by auto
        qed
      qed
    qed
  qed
qed (auto simp: env_fits_def)



end
