(* ===== verification/Node_Firing.thy ===== *)
theory Node_Firing
  imports Firing_Rules
begin

text \<open>
  The firing of a node: \<^verbatim>\<open>RuntimeTransition\<close>, \<^verbatim>\<open>RuntimeState\<close> (\<^verbatim>\<open>cpp/detail/FSM/\<close>), \<^verbatim>\<open>NodeBase\<close>
  (\<^verbatim>\<open>cpp/detail/NodeBase.cpp\<close>) and the built-in scheduler (\<^verbatim>\<open>cpp/detail/SysteMoCSimulator.cpp\<close>), in
  the build with \<^verbatim>\<open>SYSTEMOC_ENABLE_HOOKING\<close> and \<^verbatim>\<open>SYSTEMOC_ENABLE_DEBUG\<close>.  An event waiter is the list of
  the events it is the conjunction of, which identifies it.  What is outside the node, the channels,
  the variables of the actor and its functions, is a world that the node reads and changes through
  the operations of \<open>world_lib\<close>.
\<close>

section \<open>The world of a node\<close>

record 'x world =
  wd_limit :: "nat \<Rightarrow> nat"
  wd_rest :: 'x

text \<open>
  What guards see; the functions of the actor and its \<^verbatim>\<open>reset\<close>; the communication of a port; the
  callbacks of the user, with the source state, the action and the destination state.
\<close>

record 'x world_lib =
  wl_view :: "'x world \<Rightarrow> genv"
  wl_call :: "func_call \<Rightarrow> 'x world \<Rightarrow> 'x world option"
  wl_reset :: "'x world \<Rightarrow> 'x world"
  wl_commExec :: "nat \<Rightarrow> nat \<Rightarrow> 'x world \<Rightarrow> 'x world option"
  wl_hook :: "nat \<Rightarrow> string \<Rightarrow> string \<Rightarrow> string \<Rightarrow> 'x world \<Rightarrow> 'x world"

definition guard_env :: "'x world_lib \<Rightarrow> 'x world \<Rightarrow> genv" where
  "guard_env W w = (wl_view W w)\<lparr>ge_limit := wd_limit w\<rparr>"

definition waiter_active :: "'x world_lib \<Rightarrow> 'x world \<Rightarrow> nat list \<Rightarrow> bool" where
  "waiter_active W w e = list_all (ge_event (wl_view W w)) e"

section \<open>Runtime states and transitions\<close>

record rt_transition =
  tr_rule :: rt_rule
  tr_dest :: nat
  tr_actionStr :: string
  tr_preHooks :: "nat list"
  tr_postHooks :: "nat list"

record rt_state =
  rs_name :: string
  rs_tl :: "rt_transition list"
  rs_am :: "nat list list"

type_synonym rt_fsm = "rt_state list"

text \<open>\<^verbatim>\<open>TransitionActionNameVisitor\<close>.\<close>

fun join_with :: "string \<Rightarrow> string list \<Rightarrow> string" where
  "join_with sep [] = []"
| "join_with sep [x] = x"
| "join_with sep (x # xs) = x @ sep @ join_with sep xs"

definition action_string :: "smoc_action \<Rightarrow> string" where
  "action_string f = join_with '';'' (map (\<lambda>i. fc_name i @ ''('' @ join_with '','' (fc_params i) @ '')'') f)"

text \<open>
  A hook of the user: three regular expressions, whose meaning is a parameter, and the callbacks,
  named by their number.
\<close>

record hook =
  hk_src :: string
  hk_action :: string
  hk_dest :: string
  hk_pre :: nat
  hk_post :: nat

definition hook_match :: "(string \<Rightarrow> string \<Rightarrow> bool) \<Rightarrow> hook \<Rightarrow> string \<Rightarrow> string \<Rightarrow> string \<Rightarrow> bool" where
  "hook_match re h src action dest \<longleftrightarrow> re (hk_src h) src \<and> re (hk_action h) action \<and> re (hk_dest h) dest"

definition mk_transition :: "(string \<Rightarrow> string \<Rightarrow> bool) \<Rightarrow> hook list \<Rightarrow> string \<Rightarrow> rt_rule \<Rightarrow> nat \<Rightarrow> string \<Rightarrow>
    rt_transition" where
  "mk_transition re hooks src rule dest destName = (let
       a = action_string (fr_action rule);
       hs = filter (\<lambda>th. hook_match re th src a destName) hooks
     in \<lparr>tr_rule = rule, tr_dest = dest, tr_actionStr = a, tr_preHooks = map hk_pre hs, tr_postHooks = map hk_post hs\<rparr>)"

definition mk_rt_state :: "string \<Rightarrow> rt_state option" where
  "mk_rt_state name = do {
     assert_that (name \<noteq> []);
     Some \<lparr>rs_name = name, rs_tl = [], rs_am = []\<rparr>
   }"

definition rs_addTransition :: "rt_transition \<Rightarrow> rt_state \<Rightarrow> rt_state" where
  "rs_addTransition t s = s\<lparr>rs_tl := rs_tl s @ [t]\<rparr>"

text \<open>\<^verbatim>\<open>am\<close> is a set of pointers; here it has the waiters in the order of their first insertion.\<close>

fun insert_waiters :: "rt_transition list \<Rightarrow> nat list list \<Rightarrow> nat list list option" where
  "insert_waiters [] am = Some am"
| "insert_waiters (t # ts) am = do {
     e \<leftarrow> getIOPatternWaiter (tr_rule t);
     insert_waiters ts (if e \<in> set am then am else am @ [e])
   }"

definition rs_end_of_elaboration :: "rt_state \<Rightarrow> rt_state option" where
  "rs_end_of_elaboration s = do {
     am \<leftarrow> insert_waiters (rs_tl s) (rs_am s);
     Some (s\<lparr>rs_am := am\<rparr>)
   }"

text \<open>
  The states of the machine with the transitions that lead out of them, and the end of their
  elaboration: \<^verbatim>\<open>FiringFSM::end_of_elaboration\<close> elaborates the firing rules and then the states.
\<close>

definition fsm_end_of_elaboration :: "(nat \<Rightarrow> nat \<Rightarrow> nat) \<Rightarrow> rt_fsm \<Rightarrow> rt_fsm option" where
  "fsm_end_of_elaboration blockEvent F = those (map (\<lambda>s. rs_end_of_elaboration
     (s\<lparr>rs_tl := map (\<lambda>t. t\<lparr>tr_rule := rule_end_of_elaboration blockEvent (tr_rule t)\<rparr>) (rs_tl s)\<rparr>)) F)"

definition build_state :: "string \<times> rt_transition list \<Rightarrow> rt_state option" where
  "build_state = (\<lambda>(name, ts). map_option (fold rs_addTransition ts) (mk_rt_state name))"

definition elaborate_fsm :: "(nat \<Rightarrow> nat \<Rightarrow> nat) \<Rightarrow> (string \<times> rt_transition list) list \<Rightarrow> rt_fsm option" where
  "elaborate_fsm blockEvent Q = do { F \<leftarrow> those (map build_state Q); fsm_end_of_elaboration blockEvent F }"

definition transition_check :: "'x world_lib \<Rightarrow> rt_transition \<Rightarrow> 'x world \<Rightarrow> (bool \<times> 'x world) option" where
  "transition_check W t w = do {
     e \<leftarrow> getIOPatternWaiter (tr_rule t);
     if waiter_active W w e then do {
       let w = w\<lparr>wd_limit := commSetup (tr_rule t) (wd_limit w)\<rparr>;
       v \<leftarrow> geval (guard_env W w) (fr_guard (tr_rule t));
       b \<leftarrow> to_bool v;
       let w = w\<lparr>wd_limit := commReset (tr_rule t) (wd_limit w)\<rparr>;
       (case activation_of_bool b of ENABLED \<Rightarrow> Some (True, w) | DISABLED \<Rightarrow> Some (False, w) | BLOCKED \<Rightarrow> None)
     } else Some (False, w)
   }"

text \<open>\<^verbatim>\<open>SysteMoCScheduler::executeFiringRule\<close>.\<close>

fun comm_all :: "'x world_lib \<Rightarrow> (nat \<times> nat \<times> nat) list \<Rightarrow> 'x world \<Rightarrow> 'x world option" where
  "comm_all W [] w = Some w"
| "comm_all W ((p, c, n) # ps) w = do { w \<leftarrow> wl_commExec W p c w; comm_all W ps w }"

definition executeFiringRule :: "'x world_lib \<Rightarrow> rt_rule \<Rightarrow> 'x world \<Rightarrow> 'x world option" where
  "executeFiringRule W r w = do {
     w \<leftarrow> comm_all W (rr_portIn r) w;
     comm_all W (rr_portOut r) w
   }"

fun run_hooks :: "'x world_lib \<Rightarrow> nat list \<Rightarrow> string \<Rightarrow> string \<Rightarrow> string \<Rightarrow> 'x world \<Rightarrow> 'x world" where
  "run_hooks W [] src a dest w = w"
| "run_hooks W (h # hs) src a dest w = run_hooks W hs src a dest (wl_hook W h src a dest w)"

definition transition_execute :: "'x world_lib \<Rightarrow> string \<Rightarrow> string \<Rightarrow> rt_transition \<Rightarrow> 'x world \<Rightarrow>
    (nat \<times> 'x world) option" where
  "transition_execute W src dest t w = do {
     let w = w\<lparr>wd_limit := commSetup (tr_rule t) (wd_limit w)\<rparr>;
     let w = run_hooks W (tr_preHooks t) src (tr_actionStr t) dest w;
     w \<leftarrow> run_action (wl_call W) (fr_action (tr_rule t)) w;
     let w = run_hooks W (tr_postHooks t) src (tr_actionStr t) dest w;
     w \<leftarrow> executeFiringRule W (tr_rule t) w;
     let w = w\<lparr>wd_limit := commReset (tr_rule t) (wd_limit w)\<rparr>;
     Some (tr_dest t, w)
   }"

section \<open>The node\<close>

text \<open>
  The calls a node makes to event waiters and to its scheduler.  \<open>Removed e\<close> stands for the return
  value of \<^verbatim>\<open>signaled\<close> that asks the waiter to drop the node.
\<close>

datatype node_call =
    AddListener "nat list"
  | DelListener "nat list"
  | Removed "nat list"
  | NotifyActivation bool
  | CheckFiringRule rt_rule

record node =
  nd_currentState :: "nat option"
  nd_ct :: "nat option"
  nd_executing :: bool
  nd_signalingEvent :: "nat list option"
  nd_signalingEventRemove :: bool
  nd_useActivationCallback :: bool
  nd_active :: bool
  nd_calls :: "node_call list"

definition mk_node :: node where
  "mk_node = \<lparr>nd_currentState = None, nd_ct = None, nd_executing = False, nd_signalingEvent = None,
     nd_signalingEventRemove = False, nd_useActivationCallback = True, nd_active = True, nd_calls = []\<rparr>"

definition emit :: "node_call \<Rightarrow> node \<Rightarrow> node" where
  "emit c n = n\<lparr>nd_calls := nd_calls n @ [c]\<rparr>"

definition addMySelfAsListener :: "rt_state \<Rightarrow> node \<Rightarrow> node" where
  "addMySelfAsListener s n = foldl (\<lambda>n e. emit (AddListener e) n) n (rs_am s)"

definition delMySelfAsListener :: "rt_state \<Rightarrow> node \<Rightarrow> node" where
  "delMySelfAsListener s n = foldl (\<lambda>n e.
     if Some e = nd_signalingEvent n then n\<lparr>nd_signalingEventRemove := True\<rparr>
     else emit (DelListener e) n) n (rs_am s)"

text \<open>A state is named by its position in the machine; an unknown one is a null pointer.\<close>

definition setCurrentState :: "rt_fsm \<Rightarrow> nat \<Rightarrow> node \<Rightarrow> node option" where
  "setCurrentState F newState n = do {
     assert_that (newState < length F);
     let n = (if nd_useActivationCallback n \<and> nd_active n then
         (if nd_currentState n \<noteq> Some newState then (let
             n = (case nd_currentState n of None \<Rightarrow> n | Some s \<Rightarrow> delMySelfAsListener (F ! s) n);
             n = n\<lparr>nd_currentState := Some newState\<rparr>
           in addMySelfAsListener (F ! newState) n)
          else n)
       else n\<lparr>nd_currentState := Some newState\<rparr>);
     Some (n\<lparr>nd_ct := None\<rparr>)
   }"

text \<open>The loop over the transitions, from position \<open>i\<close>.\<close>

fun search_from :: "'x world_lib \<Rightarrow> bool \<Rightarrow> nat \<Rightarrow> rt_transition list \<Rightarrow> node \<Rightarrow> 'x world \<Rightarrow> (node \<times> 'x world) option" where
  "search_from W debug i [] n w = Some (n, w)"
| "search_from W debug i (t # ts) n w = (let n = (if debug then n else emit (CheckFiringRule (tr_rule t)) n) in do {
     (b, w) \<leftarrow> transition_check W t w;
     if b then Some (n\<lparr>nd_ct := Some i\<rparr>, w) else search_from W debug (Suc i) ts n w
   })"

definition searchActiveTransition :: "'x world_lib \<Rightarrow> rt_fsm \<Rightarrow> bool \<Rightarrow> node \<Rightarrow> 'x world \<Rightarrow> (node \<times> 'x world) option" where
  "searchActiveTransition W F debug n w = do {
     s \<leftarrow> nd_currentState n;
     search_from W debug 0 (rs_tl (F ! s)) (n\<lparr>nd_ct := None\<rparr>) w
   }"

definition search_notify :: "'x world_lib \<Rightarrow> rt_fsm \<Rightarrow> node \<Rightarrow> 'x world \<Rightarrow> (node \<times> 'x world) option" where
  "search_notify W F n w = do {
     (n, w) \<leftarrow> searchActiveTransition W F False n w;
     Some (emit (NotifyActivation (nd_ct n \<noteq> None)) n, w)
   }"

definition node_doReset :: "'x world_lib \<Rightarrow> rt_fsm \<Rightarrow> nat \<Rightarrow> node \<Rightarrow> 'x world \<Rightarrow> (node \<times> 'x world) option" where
  "node_doReset W F initial n w = do {
     let w = wl_reset W w;
     if F = [] then Some (n, w)
     else do {
       n \<leftarrow> setCurrentState F initial n;
       if nd_useActivationCallback n \<and> nd_active n then search_notify W F n w else Some (n, w)
     }
   }"

definition signaled :: "'x world_lib \<Rightarrow> rt_fsm \<Rightarrow> nat list \<Rightarrow> node \<Rightarrow> 'x world \<Rightarrow> (bool \<times> node \<times> 'x world) option" where
  "signaled W F e n w = do {
     assert_that (nd_useActivationCallback n \<and> nd_active n);
     (n, w) \<leftarrow> (if \<not> nd_executing n then do {
         assert_that (nd_signalingEvent n = None);
         assert_that (\<not> nd_signalingEventRemove n);
         let n = n\<lparr>nd_signalingEvent := Some e\<rparr>;
         (n, w) \<leftarrow> (if waiter_active W w e then do {
             let oldct = nd_ct n;
             (n, w) \<leftarrow> searchActiveTransition W F False n w;
             assert_that (\<not> (oldct \<noteq> None \<and> nd_ct n = None));
             Some (if nd_ct n \<noteq> None then emit (NotifyActivation True) n else n, w)
           } else if nd_ct n \<noteq> None then do {
             (n, w) \<leftarrow> searchActiveTransition W F False n w;
             Some (if nd_ct n = None then emit (NotifyActivation False) n else n, w)
           } else Some (n, w));
         assert_that (nd_signalingEvent n = Some e);
         Some (n\<lparr>nd_signalingEvent := None\<rparr>, w)
       } else Some (n, w));
     let remove = nd_signalingEventRemove n;
     let n = n\<lparr>nd_signalingEventRemove := False\<rparr>;
     Some (remove, if remove then emit (Removed e) n else n, w)
   }"

definition renotified :: "'x world_lib \<Rightarrow> rt_fsm \<Rightarrow> nat list \<Rightarrow> node \<Rightarrow> 'x world \<Rightarrow> (node \<times> 'x world) option" where
  "renotified W F e n w = do {
     assert_that (waiter_active W w e);
     (remove, n, w) \<leftarrow> signaled W F e n w;
     assert_that (\<not> remove);
     Some (n, w)
   }"

definition setUseActivationCallback :: "'x world_lib \<Rightarrow> rt_fsm \<Rightarrow> bool \<Rightarrow> node \<Rightarrow> 'x world \<Rightarrow> (node \<times> 'x world) option" where
  "setUseActivationCallback W F flag n w = (case nd_currentState n of
       Some s \<Rightarrow> (let
           oldState = nd_active n \<and> nd_useActivationCallback n;
           n = n\<lparr>nd_useActivationCallback := flag\<rparr>;
           newState = nd_active n \<and> nd_useActivationCallback n
         in if oldState \<and> \<not> newState then
              Some (emit (NotifyActivation False) (delMySelfAsListener (F ! s) n), w)
            else if \<not> oldState \<and> newState then search_notify W F (addMySelfAsListener (F ! s) n) w
            else Some (n, w))
     | None \<Rightarrow> Some (n\<lparr>nd_useActivationCallback := flag\<rparr>, w))"

definition setActive :: "'x world_lib \<Rightarrow> rt_fsm \<Rightarrow> bool \<Rightarrow> node \<Rightarrow> 'x world \<Rightarrow> (node \<times> 'x world) option" where
  "setActive W F flag n w = (case nd_currentState n of
       Some s \<Rightarrow> (let
           oldState = nd_active n \<and> nd_useActivationCallback n;
           n = n\<lparr>nd_active := flag\<rparr>;
           newState = nd_active n \<and> nd_useActivationCallback n
         in if oldState \<and> \<not> newState then (let n = delMySelfAsListener (F ! s) n
              in Some (if \<not> nd_executing n then emit (NotifyActivation False) n else n, w))
            else if \<not> oldState \<and> newState then do {
              let n = addMySelfAsListener (F ! s) n;
              assert_that (\<not> nd_executing n);
              search_notify W F n w
            } else Some (n, w))
     | None \<Rightarrow> Some (n\<lparr>nd_active := flag\<rparr>, w))"

definition schedule :: "'x world_lib \<Rightarrow> rt_fsm \<Rightarrow> node \<Rightarrow> 'x world \<Rightarrow> (node \<times> 'x world) option" where
  "schedule W F n w = do {
     s \<leftarrow> nd_currentState n;
     i \<leftarrow> nd_ct n;
     let t = rs_tl (F ! s) ! i;
     (b, w) \<leftarrow> transition_check W t w;
     assert_that b;
     assert_that (\<not> nd_executing n);
     let n = n\<lparr>nd_executing := True\<rparr>;
     (d, w) \<leftarrow> transition_execute W (rs_name (F ! s)) (rs_name (F ! tr_dest t)) t w;
     n \<leftarrow> setCurrentState F d n;
     let n = n\<lparr>nd_executing := False\<rparr>;
     assert_that (nd_ct n = None);
     if nd_useActivationCallback n then searchActiveTransition W F False n w else Some (n, w)
   }"

definition canFire :: "'x world_lib \<Rightarrow> rt_fsm \<Rightarrow> node \<Rightarrow> 'x world \<Rightarrow> (bool \<times> node \<times> 'x world) option" where
  "canFire W F n w =
     (if nd_active n then do {
        (n, w) \<leftarrow> (if \<not> nd_useActivationCallback n then searchActiveTransition W F False n w else Some (n, w));
        Some (nd_ct n \<noteq> None, n, w)
      } else Some (False, n, w))"

text \<open>\<^verbatim>\<open>SysteMoCScheduler::scheduleRequestMethod\<close>; it need not end.\<close>

partial_function (option) scheduleRequestMethod ::
    "'x world_lib \<Rightarrow> rt_fsm \<Rightarrow> node \<Rightarrow> 'x world \<Rightarrow> (node \<times> 'x world) option" where
  [code]: "scheduleRequestMethod W F n w =
     (if \<not> nd_active n then Some (n, w)
      else do {
        (b, n, w) \<leftarrow> canFire W F n w;
        if b then do {
          (n, w) \<leftarrow> schedule W F n w;
          scheduleRequestMethod W F n w
        } else Some (n, w)
      })"

section \<open>Search\<close>

text \<open>Whether a transition is enabled, and the first enabled one of a list.\<close>

definition enabled :: "'x world_lib \<Rightarrow> 'x world \<Rightarrow> rt_transition \<Rightarrow> bool" where
  "enabled W w t \<longleftrightarrow> map_option fst (transition_check W t w) = Some True"

fun first_enabled :: "'x world_lib \<Rightarrow> 'x world \<Rightarrow> nat \<Rightarrow> rt_transition list \<Rightarrow> nat option" where
  "first_enabled W w i [] = None"
| "first_enabled W w i (t # ts) = (if enabled W w t then Some i else first_enabled W w (Suc i) ts)"

text \<open>
  A guard does not see the limits except those of the ports its rule sets: what it views is independent
  of them, and every token it reads is of a port the rule requests.
\<close>

definition view_law :: "'x world_lib \<Rightarrow> bool" where
  "view_law W \<longleftrightarrow> (\<forall>w l. wl_view W (w\<lparr>wd_limit := l\<rparr>) = wl_view W w)"

definition tokens_covered :: "rt_transition \<Rightarrow> bool" where
  "tokens_covered t \<longleftrightarrow> (\<forall>(p, n) \<in> set (gtokens (fr_guard (tr_rule t))).
     p \<in> fst ` set (rr_portIn (tr_rule t)) \<union> fst ` set (rr_portOut (tr_rule t)))"

definition rules_covered :: "rt_fsm \<Rightarrow> bool" where
  "rules_covered F \<longleftrightarrow> (\<forall>s \<in> set F. \<forall>t \<in> set (rs_tl s). tokens_covered t)"

lemma foldl_upd_indep:
  "p \<in> fst ` set xs \<or> lim p = lim' p \<Longrightarrow>
   foldl (\<lambda>lim (p, c, n). lim(p := f c n)) lim xs p = foldl (\<lambda>lim (p, c, n). lim(p := f c n)) lim' xs p"
proof (induction xs arbitrary: lim lim')
  case (Cons x xs)
  obtain q c n where x: "x = (q, c, n)" by (cases x)
  have "p \<in> fst ` set xs \<or> (lim(q := f c n)) p = (lim'(q := f c n)) p"
    using Cons.prems by (auto simp: x)
  from Cons.IH [of "lim(q := f c n)" "lim'(q := f c n)", OF this]
  show ?case by (simp only: x foldl_Cons prod.case)
qed simp

lemma commSetup_indep:
  assumes "p \<in> fst ` set (rr_portIn r) \<union> fst ` set (rr_portOut r)"
  shows "commSetup r lim p = commSetup r lim' p"
proof (cases "p \<in> fst ` set (rr_portOut r)")
  case True
  then show ?thesis unfolding commSetup_def by (intro foldl_upd_indep disjI1)
next
  case False
  then have "p \<in> fst ` set (rr_portIn r)" using assms by blast
  then show ?thesis unfolding commSetup_def by (intro foldl_upd_indep disjI2 disjI1)
qed

lemma transition_check_alt:
  "transition_check W t w = (case getIOPatternWaiter (tr_rule t) of None \<Rightarrow> None
    | Some e \<Rightarrow> if waiter_active W w e then
        map_option (\<lambda>b. (b, w\<lparr>wd_limit := commReset (tr_rule t) (commSetup (tr_rule t) (wd_limit w))\<rparr>))
          (geval (guard_env W (w\<lparr>wd_limit := commSetup (tr_rule t) (wd_limit w)\<rparr>)) (fr_guard (tr_rule t)) \<bind> to_bool)
      else Some (False, w))"
proof (cases "getIOPatternWaiter (tr_rule t)")
  case (Some e)
  let ?v = "geval (guard_env W (w\<lparr>wd_limit := commSetup (tr_rule t) (wd_limit w)\<rparr>)) (fr_guard (tr_rule t))"
  show ?thesis
  proof (cases ?v)
    case (Some v)
    show ?thesis
      by (cases "to_bool v")
        (simp_all add: transition_check_def Some \<open>getIOPatternWaiter (tr_rule t) = _\<close> activation_of_bool_def)
  qed (simp add: transition_check_def Some)
qed (simp add: transition_check_def)

lemma check_limit:
  assumes "view_law W" "tokens_covered t"
  shows "map_option fst (transition_check W t (w\<lparr>wd_limit := l\<rparr>)) = map_option fst (transition_check W t w)"
proof -
  have v: "wl_view W (w\<lparr>wd_limit := l\<rparr>) = wl_view W w" for w l
    using assms(1) by (simp add: view_law_def)
  have "geval (guard_env W (w\<lparr>wd_limit := commSetup (tr_rule t) l\<rparr>)) (fr_guard (tr_rule t)) =
      geval (guard_env W (w\<lparr>wd_limit := commSetup (tr_rule t) (wd_limit w)\<rparr>)) (fr_guard (tr_rule t))"
  proof (rule geval_cong)
    fix p n assume "(p, n) \<in> set (gtokens (fr_guard (tr_rule t)))"
    then have "p \<in> fst ` set (rr_portIn (tr_rule t)) \<union> fst ` set (rr_portOut (tr_rule t))"
      using assms(2) by (auto simp: tokens_covered_def)
    from commSetup_indep [OF this, of l "wd_limit w"]
    show "(n < ge_limit (guard_env W (w\<lparr>wd_limit := commSetup (tr_rule t) l\<rparr>)) p) =
        (n < ge_limit (guard_env W (w\<lparr>wd_limit := commSetup (tr_rule t) (wd_limit w)\<rparr>)) p)"
      by (simp add: guard_env_def)
  qed (simp_all add: guard_env_def v)
  then show ?thesis
    by (simp add: transition_check_alt waiter_active_def v option.map_comp o_def split: option.split)
qed

lemma enabled_limit: "view_law W \<Longrightarrow> tokens_covered t \<Longrightarrow> enabled W (w\<lparr>wd_limit := l\<rparr>) t = enabled W w t"
  by (simp add: enabled_def check_limit)

lemma first_enabled_cong:
  "(\<And>t. t \<in> set ts \<Longrightarrow> enabled W w t = enabled W' w' t) \<Longrightarrow> first_enabled W w i ts = first_enabled W' w' i ts"
  by (induction ts arbitrary: i) auto

lemma same_limit [simp]: "\<exists>l. w = w\<lparr>wd_limit := l\<rparr>" for w :: "'x world"
  by (rule exI [of _ "wd_limit w"]) simp

lemma check_world: "transition_check W t w = Some (b, w') \<Longrightarrow> \<exists>l. w' = w\<lparr>wd_limit := l\<rparr>"
  unfolding transition_check_alt by (auto split: option.splits if_splits)

text \<open>The search sets the first enabled transition; else it changes only limits and the log.\<close>

definition only_checks :: "node_call list \<Rightarrow> bool" where
  "only_checks cs \<longleftrightarrow> (\<forall>c \<in> set cs. case c of CheckFiringRule r \<Rightarrow> True | _ \<Rightarrow> False)"

lemma search_from_exact:
  assumes "view_law W" "\<forall>t \<in> set ts. tokens_covered t" "search_from W debug i ts n w = Some (n', w')" "nd_ct n = None"
  shows "nd_ct n' = first_enabled W w i ts \<and> (\<exists>l. w' = w\<lparr>wd_limit := l\<rparr>) \<and>
    (\<exists>cs. only_checks cs \<and> n' = n\<lparr>nd_ct := nd_ct n', nd_calls := nd_calls n @ cs\<rparr>)"
  using assms(2-)
proof (induction ts arbitrary: i n w)
  case Nil
  then show ?case by (auto intro!: exI [of _ "[]"] simp: only_checks_def)
next
  case (Cons t ts)
  define n1 where "n1 = (if debug then n else emit (CheckFiringRule (tr_rule t)) n)"
  obtain b w1 where c: "transition_check W t w = Some (b, w1)"
    and s: "(if b then Some (n1\<lparr>nd_ct := Some i\<rparr>, w1) else search_from W debug (Suc i) ts n1 w1) = Some (n', w')"
    using Cons.prems(2) unfolding search_from.simps Let_def n1_def [symmetric] bind_eq_Some_iff by auto
  obtain cs' where cs': "only_checks cs'" "n1 = n\<lparr>nd_calls := nd_calls n @ cs'\<rparr>"
  proof (cases debug)
    case True
    then show thesis using that [of "[]"] by (simp add: n1_def only_checks_def)
  next
    case False
    then show thesis using that [of "[CheckFiringRule (tr_rule t)]"] by (simp add: n1_def only_checks_def emit_def)
  qed
  obtain l where l: "w1 = w\<lparr>wd_limit := l\<rparr>" using check_world [OF c] by blast
  have b: "enabled W w t = b" using c by (simp add: enabled_def)
  show ?case
  proof (cases b)
    case True
    then have "n' = n1\<lparr>nd_ct := Some i\<rparr>" "w' = w1" using s by simp_all
    then show ?thesis using True b l cs' by (auto intro!: exI [of _ cs'])
  next
    case False
    then have "search_from W debug (Suc i) ts n1 w1 = Some (n', w')" using s by simp
    moreover have "nd_ct n1 = None" using Cons.prems(3) cs'(2) by simp
    ultimately obtain l' cs where r: "nd_ct n' = first_enabled W w1 (Suc i) ts" "w' = w1\<lparr>wd_limit := l'\<rparr>"
      "only_checks cs" "n' = n1\<lparr>nd_ct := nd_ct n', nd_calls := nd_calls n1 @ cs\<rparr>"
      using Cons.IH [of "Suc i" n1 w1] Cons.prems(1) by auto
    have "first_enabled W w1 (Suc i) ts = first_enabled W w (Suc i) ts"
      unfolding l using Cons.prems(1) assms(1) by (intro first_enabled_cong enabled_limit) auto
    moreover have "n' = n\<lparr>nd_ct := nd_ct n', nd_calls := nd_calls n @ (cs' @ cs)\<rparr>"
      by (subst r(4)) (simp add: cs'(2))
    moreover have "only_checks (cs' @ cs)" using cs'(1) r(3) by (auto simp: only_checks_def)
    ultimately show ?thesis using b False l r(1,2) by auto
  qed
qed

lemma searchActiveTransition_exact:
  assumes "view_law W" "rules_covered F" "nd_currentState n = Some s" "s < length F"
    and "searchActiveTransition W F debug n w = Some (n', w')"
  shows "nd_ct n' = first_enabled W w 0 (rs_tl (F ! s)) \<and> (\<exists>l. w' = w\<lparr>wd_limit := l\<rparr>) \<and>
    (\<exists>cs. only_checks cs \<and> n' = n\<lparr>nd_ct := nd_ct n', nd_calls := nd_calls n @ cs\<rparr>)"
proof -
  have "\<forall>t \<in> set (rs_tl (F ! s)). tokens_covered t"
    using assms(2,4) nth_mem unfolding rules_covered_def by blast
  moreover have "search_from W debug 0 (rs_tl (F ! s)) (n\<lparr>nd_ct := None\<rparr>) w = Some (n', w')"
    using assms(3,5) by (simp add: searchActiveTransition_def)
  ultimately obtain cs where r: "nd_ct n' = first_enabled W w 0 (rs_tl (F ! s))" "\<exists>l. w' = w\<lparr>wd_limit := l\<rparr>"
    "only_checks cs" "n' = n\<lparr>nd_ct := None, nd_ct := nd_ct n', nd_calls := nd_calls (n\<lparr>nd_ct := None\<rparr>) @ cs\<rparr>"
    using search_from_exact [OF assms(1), of "rs_tl (F ! s)" debug 0 "n\<lparr>nd_ct := None\<rparr>" w n' w'] by fastforce
  have "n' = n\<lparr>nd_ct := nd_ct n', nd_calls := nd_calls n @ cs\<rparr>" by (subst r(4)) simp
  then show ?thesis using r(1-3) by blast
qed

lemma first_enabled_range: "first_enabled W w i ts = Some j \<Longrightarrow> i \<le> j \<and> j < i + length ts \<and> enabled W w (ts ! (j - i)) \<and>
    (\<forall>k < j - i. \<not> enabled W w (ts ! k))"
proof (induction ts arbitrary: i)
  case (Cons t ts)
  show ?case
  proof (cases "enabled W w t")
    case True
    then show ?thesis using Cons.prems by simp
  next
    case False
    then have "first_enabled W w (Suc i) ts = Some j" using Cons.prems by simp
    then have "Suc i \<le> j \<and> j < Suc i + length ts \<and> enabled W w (ts ! (j - Suc i)) \<and>
        (\<forall>k < j - Suc i. \<not> enabled W w (ts ! k))" by (rule Cons.IH)
    moreover from this have "Suc i \<le> j" by blast
    then have "j - i = Suc (j - Suc i)" by linarith
    ultimately show ?thesis using False by (auto simp: less_Suc_eq_0_disj)
  qed
qed simp

lemma first_enabled_None: "first_enabled W w i ts = None \<longleftrightarrow> (\<forall>t \<in> set ts. \<not> enabled W w t)"
  by (induction ts arbitrary: i) auto

section \<open>What a node listens to\<close>

text \<open>The waiters at which the node is registered after its calls.\<close>

fun listen_step :: "nat list set \<Rightarrow> node_call \<Rightarrow> nat list set" where
  "listen_step S (AddListener e) = insert e S"
| "listen_step S (DelListener e) = S - {e}"
| "listen_step S (Removed e) = S - {e}"
| "listen_step S _ = S"

definition listening :: "node_call list \<Rightarrow> nat list set" where
  "listening cs = foldl listen_step {} cs"

lemma listening_append: "listening (cs @ cs') = foldl listen_step (listening cs) cs'"
  by (simp add: listening_def)

lemma listening_checks: "only_checks cs' \<Longrightarrow> listening (cs @ cs') = listening cs"
proof -
  have "only_checks cs' \<Longrightarrow> foldl listen_step S cs' = S" for S
    by (induction cs' arbitrary: S) (auto simp: only_checks_def split: node_call.splits)
  then show "only_checks cs' \<Longrightarrow> ?thesis" by (simp add: listening_append)
qed

lemma addMySelfAsListener_alt:
  "addMySelfAsListener s n = n\<lparr>nd_calls := nd_calls n @ map AddListener (rs_am s)\<rparr>"
proof -
  have "foldl (\<lambda>n e. emit (AddListener e) n) n es = n\<lparr>nd_calls := nd_calls n @ map AddListener es\<rparr>" for es
    by (induction es arbitrary: n) (simp_all add: emit_def)
  then show ?thesis by (simp add: addMySelfAsListener_def)
qed

lemma delMySelfAsListener_alt:
  "nd_signalingEvent n = None \<Longrightarrow>
   delMySelfAsListener s n = n\<lparr>nd_calls := nd_calls n @ map DelListener (rs_am s)\<rparr>"
proof -
  have "nd_signalingEvent n = None \<Longrightarrow> foldl (\<lambda>n e.
     if Some e = nd_signalingEvent n then n\<lparr>nd_signalingEventRemove := True\<rparr>
     else emit (DelListener e) n) n es = n\<lparr>nd_calls := nd_calls n @ map DelListener es\<rparr>" for es
    by (induction es arbitrary: n) (simp_all add: emit_def)
  then show "nd_signalingEvent n = None \<Longrightarrow> ?thesis" by (simp add: delMySelfAsListener_def)
qed

lemma listening_add: "listening (cs @ map AddListener es) = listening cs \<union> set es"
proof -
  have "foldl listen_step S (map AddListener es) = S \<union> set es" for S
    by (induction es arbitrary: S) auto
  then show ?thesis by (simp add: listening_append)
qed

lemma listening_del: "listening (cs @ map DelListener es) = listening cs - set es"
proof -
  have "foldl listen_step S (map DelListener es) = S - set es" for S
    by (induction es arbitrary: S) auto
  then show ?thesis by (simp add: listening_append)
qed

lemma listening_del_notify: "listening (cs @ map DelListener es @ [NotifyActivation b]) = listening cs - set es"
  using listening_del [of cs es] by (simp add: listening_append)

text \<open>
  The invariant between two calls of a node.  While an action executes (\<open>busy\<close>), an inactive node is
  also possible.
\<close>

definition node_ok :: "rt_fsm \<Rightarrow> node \<Rightarrow> bool" where
  "node_ok F n \<longleftrightarrow> \<not> nd_executing n \<and> nd_signalingEvent n = None \<and> \<not> nd_signalingEventRemove n \<and>
     (case nd_currentState n of
        None \<Rightarrow> nd_ct n = None \<and> listening (nd_calls n) = {}
      | Some s \<Rightarrow> s < length F \<and> pred_option (\<lambda>i. i < length (rs_tl (F ! s))) (nd_ct n) \<and>
          listening (nd_calls n) = (if nd_useActivationCallback n \<and> nd_active n then set (rs_am (F ! s)) else {}))"

definition wf_rt_fsm :: "rt_fsm \<Rightarrow> bool" where
  "wf_rt_fsm F \<longleftrightarrow> (\<forall>s \<in> set F. \<forall>t \<in> set (rs_tl s). tr_dest t < length F \<and>
     (\<exists>e \<in> set (rs_am s). getIOPatternWaiter (tr_rule t) = Some e))"

section \<open>Runs of a node\<close>

text \<open>\<open>OpWorld f\<close> is a change of the world by others.\<close>

datatype 'x node_op =
    OpReset
  | OpSignaled "nat list"
  | OpRenotified "nat list"
  | OpSetUse bool
  | OpSetActive bool
  | OpSchedule
  | OpCanFire
  | OpWorld "'x world \<Rightarrow> 'x world"

fun node_step :: "'x world_lib \<Rightarrow> rt_fsm \<Rightarrow> nat \<Rightarrow> 'x node_op \<Rightarrow> node \<times> 'x world \<Rightarrow> (node \<times> 'x world) option" where
  "node_step W F initial OpReset (n, w) = node_doReset W F initial n w"
| "node_step W F initial (OpSignaled e) (n, w) = map_option snd (signaled W F e n w)"
| "node_step W F initial (OpRenotified e) (n, w) = renotified W F e n w"
| "node_step W F initial (OpSetUse b) (n, w) = setUseActivationCallback W F b n w"
| "node_step W F initial (OpSetActive b) (n, w) = setActive W F b n w"
| "node_step W F initial OpSchedule (n, w) = schedule W F n w"
| "node_step W F initial OpCanFire (n, w) = map_option snd (canFire W F n w)"
| "node_step W F initial (OpWorld f) (n, w) = Some (n, f w)"

fun node_run :: "'x world_lib \<Rightarrow> rt_fsm \<Rightarrow> nat \<Rightarrow> 'x node_op list \<Rightarrow> node \<times> 'x world \<Rightarrow> (node \<times> 'x world) option" where
  "node_run W F initial [] c = Some c"
| "node_run W F initial (op # ops) c = do { c \<leftarrow> node_step W F initial op c; node_run W F initial ops c }"

definition sync :: "'x world_lib \<Rightarrow> rt_fsm \<Rightarrow> node \<Rightarrow> 'x world \<Rightarrow> bool" where
  "sync W F n w \<longleftrightarrow> (\<forall>s. nd_currentState n = Some s \<and> nd_useActivationCallback n \<and> nd_active n \<longrightarrow>
     nd_ct n = first_enabled W w 0 (rs_tl (F ! s)))"

lemma emit_simps [simp]:
  "nd_currentState (emit c n) = nd_currentState n" "nd_ct (emit c n) = nd_ct n"
  "nd_executing (emit c n) = nd_executing n" "nd_signalingEvent (emit c n) = nd_signalingEvent n"
  "nd_signalingEventRemove (emit c n) = nd_signalingEventRemove n"
  "nd_useActivationCallback (emit c n) = nd_useActivationCallback n" "nd_active (emit c n) = nd_active n"
  "nd_calls (emit c n) = nd_calls n @ [c]"
  by (simp_all add: emit_def)

lemma first_enabled_bound: "pred_option (\<lambda>i. i < length ts) (first_enabled W w 0 ts)"
  using first_enabled_range [of W w 0 ts] by (cases "first_enabled W w 0 ts") auto

lemma first_enabled_limit:
  "view_law W \<Longrightarrow> rules_covered F \<Longrightarrow> s < length F \<Longrightarrow>
   first_enabled W (w\<lparr>wd_limit := l\<rparr>) i (rs_tl (F ! s)) = first_enabled W w i (rs_tl (F ! s))"
  by (intro first_enabled_cong enabled_limit) (auto simp: rules_covered_def dest: nth_mem)

text \<open>A search in a valid state keeps everything but the transition and the log, and is exact.\<close>

lemma search_effect:
  assumes "view_law W" "rules_covered F" "nd_currentState n = Some s" "s < length F"
    and "searchActiveTransition W F False n w = Some (n', w')"
  shows "nd_ct n' = first_enabled W w' 0 (rs_tl (F ! s))" "\<exists>l. w' = w\<lparr>wd_limit := l\<rparr>"
    "pred_option (\<lambda>i. i < length (rs_tl (F ! s))) (nd_ct n')"
    "nd_currentState n' = Some s" "nd_executing n' = nd_executing n" "nd_signalingEvent n' = nd_signalingEvent n"
    "nd_signalingEventRemove n' = nd_signalingEventRemove n"
    "nd_useActivationCallback n' = nd_useActivationCallback n" "nd_active n' = nd_active n"
    "listening (nd_calls n') = listening (nd_calls n)" "\<exists>cs. only_checks cs \<and> nd_calls n' = nd_calls n @ cs"
proof -
  obtain l cs where r: "nd_ct n' = first_enabled W w 0 (rs_tl (F ! s))" "w' = w\<lparr>wd_limit := l\<rparr>"
      "only_checks cs" and n': "n' = n\<lparr>nd_ct := nd_ct n', nd_calls := nd_calls n @ cs\<rparr>"
    using searchActiveTransition_exact [OF assms] by blast
  show "nd_ct n' = first_enabled W w' 0 (rs_tl (F ! s))" "\<exists>l. w' = w\<lparr>wd_limit := l\<rparr>"
    using r first_enabled_limit [OF assms(1,2,4)] by auto
  show "pred_option (\<lambda>i. i < length (rs_tl (F ! s))) (nd_ct n')"
    using r(1) first_enabled_bound by simp
  have c: "nd_calls n' = nd_calls n @ cs" by (subst n') simp
  then show "listening (nd_calls n') = listening (nd_calls n)" "\<exists>cs. only_checks cs \<and> nd_calls n' = nd_calls n @ cs"
    using listening_checks [OF r(3)] r(3) by auto
  show "nd_currentState n' = Some s" "nd_executing n' = nd_executing n" "nd_signalingEvent n' = nd_signalingEvent n"
    "nd_signalingEventRemove n' = nd_signalingEventRemove n"
    "nd_useActivationCallback n' = nd_useActivationCallback n" "nd_active n' = nd_active n"
    by (subst n', simp add: assms(3))+
qed

lemma listening_notify [simp]: "listening (cs @ [NotifyActivation b]) = listening cs"
  by (simp add: listening_append)

lemma search_notify_ok:
  assumes "view_law W" "rules_covered F" "node_ok F n" "nd_currentState n = Some s"
    and "search_notify W F n w = Some (n', w')"
  shows "node_ok F n'" "sync W F n' w'" "nd_currentState n' = Some s" "\<exists>l. w' = w\<lparr>wd_limit := l\<rparr>"
    "nd_useActivationCallback n' = nd_useActivationCallback n" "nd_active n' = nd_active n"
proof -
  have s: "s < length F" using assms(3,4) by (simp add: node_ok_def)
  obtain n1 where n1: "searchActiveTransition W F False n w = Some (n1, w')"
      "n' = emit (NotifyActivation (nd_ct n1 \<noteq> None)) n1"
    using assms(5) by (auto simp: search_notify_def bind_eq_Some_iff)
  note e = search_effect [OF assms(1,2,4) s n1(1)]
  show "node_ok F n'" using assms(3,4) e by (simp add: node_ok_def n1(2))
  show "sync W F n' w'" using e(1,4) by (simp add: sync_def n1(2))
  show "nd_currentState n' = Some s" "\<exists>l. w' = w\<lparr>wd_limit := l\<rparr>"
    "nd_useActivationCallback n' = nd_useActivationCallback n" "nd_active n' = nd_active n"
    using e by (simp_all add: n1(2))
qed

lemma set_state_ok:
  assumes "node_ok F (n\<lparr>nd_executing := False\<rparr>)" "setCurrentState F d n = Some n'"
  shows "node_ok F (n'\<lparr>nd_executing := False\<rparr>)" "nd_currentState n' = Some d" "nd_ct n' = None" "d < length F"
    "nd_executing n' = nd_executing n" "nd_useActivationCallback n' = nd_useActivationCallback n"
    "nd_active n' = nd_active n"
proof -
  have d: "d < length F" using assms(2) by (auto simp: setCurrentState_def split: if_splits)
  let ?flag = "nd_useActivationCallback n \<and> nd_active n"
  have e: "nd_signalingEvent n = None" "\<not> nd_signalingEventRemove n"
    using assms(1) by (simp_all add: node_ok_def)
  have l: "listening (nd_calls n) = (case nd_currentState n of None \<Rightarrow> {}
      | Some s \<Rightarrow> if ?flag then set (rs_am (F ! s)) else {})"
    using assms(1) by (simp add: node_ok_def split: option.splits)
  have "\<exists>cs. n' = n\<lparr>nd_currentState := Some d, nd_ct := None, nd_calls := cs\<rparr> \<and>
      listening cs = (if ?flag then set (rs_am (F ! d)) else {})"
  proof (cases "?flag \<and> nd_currentState n \<noteq> Some d")
    case True
    show ?thesis
    proof (cases "nd_currentState n")
      case None
      then show ?thesis using assms(2) d True l
        by (intro exI [of _ "nd_calls n @ map AddListener (rs_am (F ! d))"])
          (auto simp: setCurrentState_def addMySelfAsListener_alt listening_add)
    next
      case (Some s)
      let ?cs = "(nd_calls n @ map DelListener (rs_am (F ! s))) @ map AddListener (rs_am (F ! d))"
      have "n' = n\<lparr>nd_currentState := Some d, nd_ct := None, nd_calls := ?cs\<rparr>"
        using Some assms(2) d True e(1)
        by (auto simp: setCurrentState_def addMySelfAsListener_alt delMySelfAsListener_alt)
      moreover have "listening ?cs = set (rs_am (F ! d))"
        using Some True l unfolding listening_add listening_del by simp
      ultimately show ?thesis using True by auto
    qed
  next
    case False
    have "n' = n\<lparr>nd_currentState := Some d, nd_ct := None\<rparr>"
    proof (cases ?flag)
      case True
      then have "Some d = nd_currentState n" using False by simp
      then have "n\<lparr>nd_currentState := Some d\<rparr> = n" by simp
      moreover have "n' = n\<lparr>nd_ct := None\<rparr>" using assms(2) d True False by (auto simp: setCurrentState_def)
      ultimately show ?thesis by metis
    qed (use assms(2) d in \<open>auto simp: setCurrentState_def\<close>)
    then have "n' = n\<lparr>nd_currentState := Some d, nd_ct := None, nd_calls := nd_calls n\<rparr>" by simp
    moreover have "listening (nd_calls n) = (if ?flag then set (rs_am (F ! d)) else {})"
      using l False by (auto split: option.splits)
    ultimately show ?thesis by blast
  qed
  then obtain cs where n': "n' = n\<lparr>nd_currentState := Some d, nd_ct := None, nd_calls := cs\<rparr>"
      "listening cs = (if ?flag then set (rs_am (F ! d)) else {})" by blast
  show "node_ok F (n'\<lparr>nd_executing := False\<rparr>)" "nd_currentState n' = Some d" "nd_ct n' = None" "d < length F"
    "nd_executing n' = nd_executing n" "nd_useActivationCallback n' = nd_useActivationCallback n"
    "nd_active n' = nd_active n"
    using d e n'(2) by (simp_all add: n'(1) node_ok_def)
qed

lemma node_ok_idle: "node_ok F n \<Longrightarrow> n\<lparr>nd_executing := False\<rparr> = n"
  by (simp add: node_ok_def)

lemma reset_ok:
  assumes "view_law W" "rules_covered F" "node_ok F n" "node_doReset W F initial n w = Some (n', w')"
  shows "node_ok F n' \<and> sync W F n' w'"
proof (cases "F = []")
  case True
  then have "nd_currentState n = None" using assms(3) by (auto simp: node_ok_def split: option.splits)
  then show ?thesis using True assms(3,4) by (auto simp: node_doReset_def sync_def Let_def)
next
  case False
  then obtain n1 where n1: "setCurrentState F initial n = Some n1"
    and n': "(if nd_useActivationCallback n1 \<and> nd_active n1 then search_notify W F n1 (wl_reset W w)
      else Some (n1, wl_reset W w)) = Some (n', w')"
    using assms(4) by (auto simp: node_doReset_def Let_def bind_eq_Some_iff)
  have "node_ok F (n\<lparr>nd_executing := False\<rparr>)"
    using assms(3) by (simp add: node_ok_def split: option.splits)
  note s = set_state_ok [OF this n1]
  have ok: "node_ok F n1" using s(1,5) assms(3) by (simp add: node_ok_def split: option.splits)
  show ?thesis
    using n' search_notify_ok [OF assms(1,2) ok s(2)] ok by (auto simp: sync_def split: if_splits)
qed

text \<open>Outside of a firing a signal keeps the node registered where it is.\<close>

lemma signaled_ok:
  assumes "view_law W" "rules_covered F" "node_ok F n" "signaled W F e n w = Some (r, n', w')"
  shows "node_ok F n'" "\<not> r" "nd_currentState n' = nd_currentState n" "\<exists>l. w' = w\<lparr>wd_limit := l\<rparr>"
    "nd_ct n' = nd_ct n \<and> \<not> waiter_active W w e \<and> nd_ct n = None \<or> sync W F n' w'"
    "nd_useActivationCallback n'" "nd_active n'" "nd_useActivationCallback n" "nd_active n"
proof -
  have flags: "nd_useActivationCallback n" "nd_active n" "\<not> nd_executing n" "nd_signalingEvent n = None"
      "\<not> nd_signalingEventRemove n"
    using assms(3,4) by (auto simp: node_ok_def signaled_def split: if_splits)
  then show "nd_useActivationCallback n" "nd_active n" by blast+
  let ?n = "n\<lparr>nd_signalingEvent := Some e\<rparr>"
  have "\<exists>n1. node_ok F (n1\<lparr>nd_signalingEvent := None\<rparr>) \<and> n' = n1\<lparr>nd_signalingEvent := None, nd_signalingEventRemove := False\<rparr> \<and>
      nd_signalingEventRemove n1 = r \<and> \<not> r \<and> nd_currentState n1 = nd_currentState n \<and> (\<exists>l. w' = w\<lparr>wd_limit := l\<rparr>) \<and>
      (nd_ct n1 = nd_ct n \<and> \<not> waiter_active W w e \<and> nd_ct n = None \<or> sync W F n1 w') \<and>
      nd_useActivationCallback n1 \<and> nd_active n1"
  proof (cases "waiter_active W w e \<or> nd_ct n \<noteq> None")
    case True
    obtain n0 where n0: "searchActiveTransition W F False ?n w = Some (n0, w')"
      using assms(4) flags True by (auto simp: signaled_def bind_eq_Some_iff Let_def split: if_splits)
    obtain s where s: "nd_currentState ?n = Some s"
      using n0 by (auto simp: searchActiveTransition_def bind_eq_Some_iff)
    then have sl: "s < length F" using assms(3) by (simp add: node_ok_def)
    note x = search_effect [OF assms(1,2) s sl n0]
    define n1 where "n1 = (if waiter_active W w e then (if nd_ct n0 \<noteq> None then emit (NotifyActivation True) n0 else n0)
      else (if nd_ct n0 = None then emit (NotifyActivation False) n0 else n0))"
    have r: "n' = n1\<lparr>nd_signalingEvent := None, nd_signalingEventRemove := False\<rparr>" "r = nd_signalingEventRemove n1"
      using assms(4) flags True n0 x(6,7) unfolding n1_def
      by (auto simp: signaled_def bind_eq_Some_iff Let_def split: if_splits)
    have n1: "nd_ct n1 = nd_ct n0" "nd_currentState n1 = nd_currentState n0" "nd_executing n1 = nd_executing n0"
      "nd_signalingEventRemove n1 = nd_signalingEventRemove n0" "listening (nd_calls n1) = listening (nd_calls n0)"
      "nd_useActivationCallback n1 = nd_useActivationCallback n0" "nd_active n1 = nd_active n0"
      by (simp_all add: n1_def)
    show ?thesis
      using x n1 r flags s assms(3) by (intro exI [of _ n1]) (auto simp: node_ok_def sync_def)
  next
    case False
    then have "n' = ?n\<lparr>nd_signalingEvent := None, nd_signalingEventRemove := False\<rparr>" "\<not> r" "w' = w"
      using assms(4) flags by (auto simp: signaled_def Let_def)
    then show ?thesis using False flags assms(3) by (intro exI [of _ ?n]) (auto simp: node_ok_def split: option.splits)
  qed
  then obtain n1 where n1: "node_ok F (n1\<lparr>nd_signalingEvent := None\<rparr>)"
      "n' = n1\<lparr>nd_signalingEvent := None, nd_signalingEventRemove := False\<rparr>"
      "nd_signalingEventRemove n1 = r" "\<not> r" "nd_currentState n1 = nd_currentState n" "\<exists>l. w' = w\<lparr>wd_limit := l\<rparr>"
      "nd_ct n1 = nd_ct n \<and> \<not> waiter_active W w e \<and> nd_ct n = None \<or> sync W F n1 w'"
      "nd_useActivationCallback n1" "nd_active n1" by blast
  show "node_ok F n'" "\<not> r" "nd_currentState n' = nd_currentState n" "\<exists>l. w' = w\<lparr>wd_limit := l\<rparr>"
    "nd_ct n' = nd_ct n \<and> \<not> waiter_active W w e \<and> nd_ct n = None \<or> sync W F n' w'"
    "nd_useActivationCallback n'" "nd_active n'"
    using n1 by (simp_all add: node_ok_def sync_def split: option.splits)
qed

lemma renotified_ok:
  assumes "view_law W" "rules_covered F" "node_ok F n" "sync W F n w" "renotified W F e n w = Some (n', w')"
  shows "node_ok F n' \<and> sync W F n' w'"
proof -
  have "waiter_active W w e" "signaled W F e n w = Some (False, n', w')"
    using assms(5) by (auto simp: renotified_def bind_eq_Some_iff split: if_splits)
  then show ?thesis using signaled_ok [OF assms(1-3), of e w False n' w'] by auto
qed

lemma setUse_ok:
  assumes "view_law W" "rules_covered F" "node_ok F n" "sync W F n w"
    and "setUseActivationCallback W F flag n w = Some (n', w')"
  shows "node_ok F n' \<and> sync W F n' w'"
proof (cases "nd_currentState n")
  case None
  then show ?thesis using assms(3,5) by (auto simp: setUseActivationCallback_def node_ok_def sync_def)
next
  case (Some s)
  have e: "nd_signalingEvent n = None" using assms(3) by (simp add: node_ok_def)
  let ?n = "addMySelfAsListener (F ! s) (n\<lparr>nd_useActivationCallback := flag\<rparr>)"
  have ok: "node_ok F ?n" if "\<not> (nd_active n \<and> nd_useActivationCallback n)" "nd_active n" "flag"
    using that Some assms(3) by (auto simp: node_ok_def addMySelfAsListener_alt listening_add)
  have del: "node_ok F (emit (NotifyActivation False) (delMySelfAsListener (F ! s) (n\<lparr>nd_useActivationCallback := flag\<rparr>)))"
    if "nd_active n \<and> nd_useActivationCallback n" "\<not> flag"
    using that Some e assms(3) by (auto simp: node_ok_def emit_def delMySelfAsListener_alt listening_del_notify)
  show ?thesis
  proof (cases "nd_active n \<and> nd_useActivationCallback n")
    case True
    show ?thesis
    proof (cases flag)
      case False
      then show ?thesis using True Some assms(5) del e
        by (auto simp: setUseActivationCallback_def sync_def delMySelfAsListener_alt)
    next
      case 2: True
      then show ?thesis using True Some assms(3,4,5)
        by (auto simp: setUseActivationCallback_def sync_def node_ok_def)
    qed
  next
    case False
    show ?thesis
    proof (cases "nd_active n \<and> flag")
      case True
      then have "search_notify W F ?n w = Some (n', w')"
        using False Some assms(5) by (simp add: setUseActivationCallback_def)
      moreover have "nd_currentState ?n = Some s" using Some by (simp add: addMySelfAsListener_alt)
      ultimately show ?thesis using search_notify_ok [OF assms(1,2) ok] False True by blast
    next
      case 2: False
      then have n': "n' = n\<lparr>nd_useActivationCallback := flag\<rparr>" "w' = w" using False Some assms(5)
        by (auto simp: setUseActivationCallback_def)
      have "\<not> (nd_useActivationCallback n' \<and> nd_active n')" "listening (nd_calls n) = {}"
        using 2 False Some assms(3) n' by (auto simp: node_ok_def)
      then show ?thesis using Some assms(3) by (simp add: n' sync_def node_ok_def) blast
    qed
  qed
qed

lemma setActive_ok:
  assumes "view_law W" "rules_covered F" "node_ok F n" "sync W F n w" "setActive W F flag n w = Some (n', w')"
  shows "node_ok F n' \<and> sync W F n' w'"
proof (cases "nd_currentState n")
  case None
  then show ?thesis using assms(3,5) by (auto simp: setActive_def node_ok_def sync_def)
next
  case (Some s)
  have e: "nd_signalingEvent n = None" "\<not> nd_executing n" using assms(3) by (simp_all add: node_ok_def)
  let ?n = "addMySelfAsListener (F ! s) (n\<lparr>nd_active := flag\<rparr>)"
  have ok: "node_ok F ?n" if "\<not> (nd_active n \<and> nd_useActivationCallback n)" "nd_useActivationCallback n" "flag"
    using that Some assms(3) by (auto simp: node_ok_def addMySelfAsListener_alt listening_add)
  have del: "node_ok F (emit (NotifyActivation False) (delMySelfAsListener (F ! s) (n\<lparr>nd_active := flag\<rparr>)))"
    if "nd_active n \<and> nd_useActivationCallback n" "\<not> flag"
    using that Some e assms(3) by (auto simp: node_ok_def emit_def delMySelfAsListener_alt listening_del_notify)
  show ?thesis
  proof (cases "nd_active n \<and> nd_useActivationCallback n")
    case True
    show ?thesis
    proof (cases flag)
      case False
      then show ?thesis using True Some assms(5) del e
        by (auto simp: setActive_def sync_def delMySelfAsListener_alt Let_def)
    next
      case 2: True
      then show ?thesis using True Some assms(3,4,5) by (auto simp: setActive_def sync_def node_ok_def)
    qed
  next
    case False
    show ?thesis
    proof (cases "nd_useActivationCallback n \<and> flag")
      case True
      then have "search_notify W F ?n w = Some (n', w')"
        using False Some assms(5) e by (simp add: setActive_def addMySelfAsListener_alt Let_def)
      moreover have "nd_currentState ?n = Some s" using Some by (simp add: addMySelfAsListener_alt)
      ultimately show ?thesis using search_notify_ok [OF assms(1,2) ok] False True by blast
    next
      case 2: False
      then have n': "n' = n\<lparr>nd_active := flag\<rparr>" "w' = w" using False Some assms(5)
        by (auto simp: setActive_def)
      have "\<not> (nd_useActivationCallback n' \<and> nd_active n')" "listening (nd_calls n) = {}"
        using 2 False Some assms(3) n' by (auto simp: node_ok_def)
      then show ?thesis using Some assms(3) by (simp add: n' sync_def node_ok_def) blast
    qed
  qed
qed

text \<open>A node fires the transition it has selected and goes to its destination.\<close>

lemma schedule_ok:
  assumes "view_law W" "rules_covered F" "node_ok F n" "schedule W F n w = Some (n', w')"
  shows "\<exists>s i l1 d w1 l2. nd_currentState n = Some s \<and> nd_ct n = Some i \<and> enabled W w (rs_tl (F ! s) ! i) \<and>
    transition_execute W (rs_name (F ! s)) (rs_name (F ! tr_dest (rs_tl (F ! s) ! i))) (rs_tl (F ! s) ! i)
      (w\<lparr>wd_limit := l1\<rparr>) = Some (d, w1) \<and> w' = w1\<lparr>wd_limit := l2\<rparr> \<and> nd_currentState n' = Some d \<and>
    node_ok F n' \<and> sync W F n' w'"
    and "nd_useActivationCallback n' = nd_useActivationCallback n" "nd_active n' = nd_active n"
proof -
  obtain s i w0 d w1 n1 where si: "nd_currentState n = Some s" "nd_ct n = Some i"
    and c: "transition_check W (rs_tl (F ! s) ! i) w = Some (True, w0)"
    and x: "transition_execute W (rs_name (F ! s)) (rs_name (F ! tr_dest (rs_tl (F ! s) ! i))) (rs_tl (F ! s) ! i) w0 = Some (d, w1)"
    and n1: "setCurrentState F d (n\<lparr>nd_executing := True\<rparr>) = Some n1"
    and n': "(if nd_useActivationCallback n1 then searchActiveTransition W F False (n1\<lparr>nd_executing := False\<rparr>) w1
      else Some (n1\<lparr>nd_executing := False\<rparr>, w1)) = Some (n', w')"
    using assms(4) by (auto simp: schedule_def bind_eq_Some_iff Let_def split: if_splits)
  have "node_ok F (n\<lparr>nd_executing := True, nd_executing := False\<rparr>)"
    using assms(3) by (simp add: node_ok_def split: option.splits)
  note s = set_state_ok [OF this n1]
  let ?n = "n1\<lparr>nd_executing := False\<rparr>"
  have sc: "nd_currentState ?n = Some d" using s(2) by simp
  have r: "node_ok F n' \<and> sync W F n' w' \<and> nd_currentState n' = Some d \<and> (\<exists>l. w' = w1\<lparr>wd_limit := l\<rparr>) \<and>
    nd_useActivationCallback n' = nd_useActivationCallback n \<and> nd_active n' = nd_active n"
  proof (cases "nd_useActivationCallback n1")
    case True
    note e = search_effect [OF assms(1,2) sc s(4)]
    have "searchActiveTransition W F False ?n w1 = Some (n', w')" using n' True by simp
    from e [OF this] show ?thesis using s by (simp add: node_ok_def sync_def)
  next
    case False
    then have "n' = ?n" "w' = w1" using n' by simp_all
    then show ?thesis using s False by (simp add: sync_def)
  qed
  obtain l1 where "w0 = w\<lparr>wd_limit := l1\<rparr>" using check_world [OF c] by blast
  moreover have "enabled W w (rs_tl (F ! s) ! i)" using c by (simp add: enabled_def)
  ultimately show "\<exists>s i l1 d w1 l2. nd_currentState n = Some s \<and> nd_ct n = Some i \<and> enabled W w (rs_tl (F ! s) ! i) \<and>
    transition_execute W (rs_name (F ! s)) (rs_name (F ! tr_dest (rs_tl (F ! s) ! i))) (rs_tl (F ! s) ! i)
      (w\<lparr>wd_limit := l1\<rparr>) = Some (d, w1) \<and> w' = w1\<lparr>wd_limit := l2\<rparr> \<and> nd_currentState n' = Some d \<and>
    node_ok F n' \<and> sync W F n' w'"
    using si x r by blast
  show "nd_useActivationCallback n' = nd_useActivationCallback n" "nd_active n' = nd_active n" using r by blast+
qed

lemma canFire_ok:
  assumes "view_law W" "rules_covered F" "node_ok F n" "sync W F n w" "canFire W F n w = Some (b, n', w')"
  shows "node_ok F n'" "sync W F n' w'" "nd_currentState n' = nd_currentState n" "\<exists>l. w' = w\<lparr>wd_limit := l\<rparr>"
    "nd_active n' = nd_active n" "nd_useActivationCallback n' = nd_useActivationCallback n"
    "b \<Longrightarrow> nd_ct n' \<noteq> None"
    "nd_currentState n = Some s \<Longrightarrow> nd_active n \<Longrightarrow> nd_ct n' = first_enabled W w' 0 (rs_tl (F ! s)) \<and> (b \<longleftrightarrow> nd_ct n' \<noteq> None)"
    "\<not> nd_active n \<Longrightarrow> \<not> b"
proof -
  have "(node_ok F n' \<and> sync W F n' w' \<and> nd_currentState n' = nd_currentState n \<and> (\<exists>l. w' = w\<lparr>wd_limit := l\<rparr>) \<and>
    nd_active n' = nd_active n \<and> nd_useActivationCallback n' = nd_useActivationCallback n \<and>
    (b \<longrightarrow> nd_ct n' \<noteq> None) \<and> (\<forall>s. nd_currentState n = Some s \<longrightarrow> nd_active n \<longrightarrow>
      nd_ct n' = first_enabled W w' 0 (rs_tl (F ! s)) \<and> (b \<longleftrightarrow> nd_ct n' \<noteq> None))) \<and> (\<not> nd_active n \<longrightarrow> \<not> b)"
  proof (cases "nd_active n \<and> \<not> nd_useActivationCallback n")
    case True
    then have "searchActiveTransition W F False n w = Some (n', w')" "b = (nd_ct n' \<noteq> None)"
      using assms(5) by (auto simp: canFire_def bind_eq_Some_iff)
    moreover from this(1) obtain s where s: "nd_currentState n = Some s"
      by (auto simp: searchActiveTransition_def bind_eq_Some_iff)
    moreover have "s < length F" using assms(3) s by (simp add: node_ok_def)
    ultimately have x: "nd_ct n' = first_enabled W w' 0 (rs_tl (F ! s))" "\<exists>l. w' = w\<lparr>wd_limit := l\<rparr>"
      "pred_option (\<lambda>i. i < length (rs_tl (F ! s))) (nd_ct n')"
      "nd_currentState n' = Some s" "nd_executing n' = nd_executing n" "nd_signalingEvent n' = nd_signalingEvent n"
      "nd_signalingEventRemove n' = nd_signalingEventRemove n"
      "nd_useActivationCallback n' = nd_useActivationCallback n" "nd_active n' = nd_active n"
      "listening (nd_calls n') = listening (nd_calls n)" "s < length F"
      using search_effect [OF assms(1,2) s, of w n' w'] by blast+
    moreover from this have "node_ok F n'" "sync W F n' w'"
      using assms(3) s True by (simp_all add: node_ok_def sync_def)
    ultimately show ?thesis using s True \<open>b = _\<close> by simp
  next
    case False
    then have "n' = n" "w' = w" "b = (nd_active n \<and> nd_ct n \<noteq> None)" using assms(5) by (auto simp: canFire_def split: if_splits)
    then show ?thesis using False assms(3,4) by (auto simp: sync_def)
  qed
  then show "node_ok F n'" "sync W F n' w'" "nd_currentState n' = nd_currentState n" "\<exists>l. w' = w\<lparr>wd_limit := l\<rparr>"
    "nd_active n' = nd_active n" "nd_useActivationCallback n' = nd_useActivationCallback n"
    "b \<Longrightarrow> nd_ct n' \<noteq> None"
    "nd_currentState n = Some s \<Longrightarrow> nd_active n \<Longrightarrow> nd_ct n' = first_enabled W w' 0 (rs_tl (F ! s)) \<and> (b \<longleftrightarrow> nd_ct n' \<noteq> None)"
    "\<not> nd_active n \<Longrightarrow> \<not> b"
    by blast+
qed

section \<open>A node under its waiters\<close>

definition waits_for :: "rt_transition \<Rightarrow> nat list set \<Rightarrow> bool" where
  "waits_for t D \<longleftrightarrow> (\<exists>e \<in> D. getIOPatternWaiter (tr_rule t) = Some e)"

definition out_transitions :: "rt_fsm \<Rightarrow> node \<Rightarrow> rt_transition set" where
  "out_transitions F n = (case nd_currentState n of None \<Rightarrow> {} | Some s \<Rightarrow> set (rs_tl (F ! s)))"

text \<open>
  The situations of a node between its calls.  \<open>D\<close> are the waiters whose conjunction has changed and
  that have not signaled the node yet.  A change of the world concerns the transitions that wait for
  the waiters it changes; each of them then signals.  While the node does not want to be called back,
  the world changes silently.
\<close>

inductive tracked :: "'x world_lib \<Rightarrow> rt_fsm \<Rightarrow> nat \<Rightarrow> nat list set \<Rightarrow> node \<Rightarrow> 'x world \<Rightarrow> bool"
  for W F initial where
  start: "node_doReset W F initial mk_node w = Some (n, w') \<Longrightarrow> tracked W F initial {} n w'"
| call: "tracked W F initial {} n w \<Longrightarrow> (\<And>f. op \<noteq> OpWorld f) \<Longrightarrow> node_step W F initial op (n, w) = Some (n', w') \<Longrightarrow>
    tracked W F initial {} n' w'"
| change: "tracked W F initial D n w \<Longrightarrow>
    (\<And>t. t \<in> out_transitions F n \<Longrightarrow> \<not> waits_for t D' \<Longrightarrow> enabled W w' t = enabled W w t) \<Longrightarrow>
    tracked W F initial (D \<union> D') n w'"
| signal: "tracked W F initial D n w \<Longrightarrow> e \<in> D \<Longrightarrow> signaled W F e n w = Some (r, n', w') \<Longrightarrow>
    tracked W F initial (D - {e}) n' w'"
| silent: "tracked W F initial D n w \<Longrightarrow> \<not> (nd_useActivationCallback n \<and> nd_active n) \<Longrightarrow>
    tracked W F initial {} n w'"

definition sync_but :: "'x world_lib \<Rightarrow> rt_fsm \<Rightarrow> nat list set \<Rightarrow> node \<Rightarrow> 'x world \<Rightarrow> bool" where
  "sync_but W F D n w \<longleftrightarrow> sync W F n w \<or>
     D \<noteq> {} \<and> (nd_ct n = None \<longrightarrow> (\<forall>t \<in> out_transitions F n. enabled W w t \<longrightarrow> waits_for t D))"

lemma None_first_enabled: "None = first_enabled W w i ts \<longleftrightarrow> (\<forall>t \<in> set ts. \<not> enabled W w t)"
  using first_enabled_None [of W w i ts] by (auto simp: eq_commute)

lemma sync_None:
  "sync W F n w \<Longrightarrow> nd_useActivationCallback n \<Longrightarrow> nd_active n \<Longrightarrow> nd_ct n = None \<Longrightarrow> t \<in> out_transitions F n \<Longrightarrow>
   \<not> enabled W w t"
  by (auto simp: sync_def out_transitions_def None_first_enabled split: option.splits)

lemma step_ok:
  assumes "view_law W" "rules_covered F" "node_ok F n" "sync W F n w" "\<And>f. op \<noteq> OpWorld f"
    and "node_step W F initial op (n, w) = Some (n', w')"
  shows "node_ok F n' \<and> sync W F n' w'"
proof (cases op)
  case OpReset
  then show ?thesis using reset_ok [OF assms(1-3)] assms(6) by simp
next
  case (OpSignaled e)
  then obtain r where r: "signaled W F e n w = Some (r, n', w')" using assms(6) by auto
  note s = signaled_ok [OF assms(1-3) r]
  show ?thesis
  proof (cases "sync W F n' w'")
    case False
    then have c: "nd_ct n' = nd_ct n" "nd_ct n = None" using s(5) by auto
    obtain l where l: "w' = w\<lparr>wd_limit := l\<rparr>" using s(4) by blast
    have "first_enabled W w' 0 (rs_tl (F ! x)) = nd_ct n'" if "nd_currentState n = Some x" for x
    proof -
      have "x < length F" using assms(3) that by (simp add: node_ok_def)
      then show ?thesis
        using assms(4) that s(8,9) c unfolding l first_enabled_limit [OF assms(1,2) \<open>x < length F\<close>]
        by (simp add: sync_def)
    qed
    then show ?thesis using s(1,3) by (simp add: sync_def)
  qed (use s(1) in blast)
next
  case (OpRenotified e)
  then show ?thesis using renotified_ok [OF assms(1-4)] assms(6) by simp
next
  case (OpSetUse b)
  then show ?thesis using setUse_ok [OF assms(1-4)] assms(6) by simp
next
  case (OpSetActive b)
  then show ?thesis using setActive_ok [OF assms(1-4)] assms(6) by simp
next
  case OpSchedule
  then show ?thesis using schedule_ok(1) [OF assms(1-3), of w n' w'] assms(6) by auto
next
  case OpCanFire
  then obtain b where "canFire W F n w = Some (b, n', w')" using assms(6) by auto
  then show ?thesis using canFire_ok(1,2) [OF assms(1-4)] by blast
qed (use assms(5) in blast)

lemma enabled_waiter: "enabled W w t \<Longrightarrow> \<exists>e. getIOPatternWaiter (tr_rule t) = Some e \<and> waiter_active W w e"
  by (auto simp: enabled_def transition_check_alt split: option.splits if_splits)

lemma tracked_ok:
  assumes "view_law W" "rules_covered F" "tracked W F initial D n w"
  shows "node_ok F n \<and> sync_but W F D n w"
  using assms(3)
proof (induction rule: tracked.induct)
  case (start w n w')
  have "node_ok F mk_node" by (simp add: node_ok_def mk_node_def listening_def)
  then show ?case using reset_ok [OF assms(1,2) _ start] by (simp add: sync_but_def)
next
  case (call n w op n' w')
  then have "sync W F n w" by (simp add: sync_but_def)
  then show ?case using step_ok [OF assms(1,2) _ _ call.hyps(2,3)] call.IH by (simp add: sync_but_def)
next
  case (change D n w D' w')
  show ?case
  proof (cases "D' = {}")
    case True
    then have e: "enabled W w' t = enabled W w t" if "t \<in> out_transitions F n" for t
      using change.hyps(2) [OF that] by (simp add: waits_for_def)
    then have "first_enabled W w' 0 (rs_tl (F ! s)) = first_enabled W w 0 (rs_tl (F ! s))"
      if "nd_currentState n = Some s" for s
      using that by (intro first_enabled_cong) (simp add: out_transitions_def)
    then show ?thesis using change.IH True e by (auto simp: sync_but_def sync_def)
  next
    case False
    show ?thesis
    proof (cases "nd_useActivationCallback n \<and> nd_active n")
      case on: True
      have "waits_for t (D \<union> D')" if "nd_ct n = None" "t \<in> out_transitions F n" "enabled W w' t" for t
      proof (cases "waits_for t D'")
        case 1: False
        then have "enabled W w t" using change.hyps(2) that by blast
        then show ?thesis
          using change.IH sync_None [of W F n w t] on that unfolding sync_but_def waits_for_def by blast
      qed (auto simp: waits_for_def)
      then show ?thesis using change.IH False by (auto simp: sync_but_def)
    next
      case 2: False
      then show ?thesis using change.IH by (auto simp: sync_but_def sync_def)
    qed
  qed
next
  case (signal D n w e r n' w')
  have ok: "node_ok F n" using signal.IH by blast
  note s = signaled_ok [OF assms(1,2) ok signal.hyps(3)]
  show ?case
  proof (cases "sync W F n' w'")
    case False
    then have c: "nd_ct n' = None" "nd_ct n = None" "\<not> waiter_active W w e" using s(5) by auto
    obtain l where l: "w' = w\<lparr>wd_limit := l\<rparr>" using s(4) by blast
    have out: "out_transitions F n' = out_transitions F n" using s(3) by (simp add: out_transitions_def)
    have cov: "tokens_covered t" if "t \<in> out_transitions F n" for t
      using that assms(2) ok by (auto simp: out_transitions_def rules_covered_def node_ok_def split: option.splits)
    have w: "waits_for t (D - {e})" if "t \<in> out_transitions F n" "enabled W w' t" for t
    proof -
      have "enabled W w t" using that enabled_limit [OF assms(1) cov] unfolding l by blast
      then have "waits_for t D" "\<not> waits_for t {e}"
        using signal.IH sync_None [of W F n w t] s(8,9) c that(1) enabled_waiter [of W w t]
        by (auto simp: sync_but_def waits_for_def)
      then show ?thesis by (auto simp: waits_for_def)
    qed
    show ?thesis
    proof (cases "D - {e} = {}")
      case True
      then have "\<not> enabled W w' t" if "t \<in> out_transitions F n" for t
        using w [OF that] by (auto simp: waits_for_def)
      then have "sync W F n' w'"
        using c(1) out by (auto simp: sync_def out_transitions_def None_first_enabled split: option.splits)
      with False show ?thesis by blast
    qed (use w out s(1) c in \<open>auto simp: sync_but_def\<close>)
  qed (use s(1) in \<open>simp add: sync_but_def\<close>)
qed (auto simp: sync_but_def sync_def)

text \<open>The elaboration of a state enters the waiters of its transitions.\<close>

lemma insert_waiters_set:
  "insert_waiters ts am = Some am' \<Longrightarrow> (\<forall>t \<in> set ts. getIOPatternWaiter (tr_rule t) \<noteq> None) \<and>
     set am' = set am \<union> {e. \<exists>t \<in> set ts. getIOPatternWaiter (tr_rule t) = Some e}"
proof (induction ts arbitrary: am)
  case (Cons t ts)
  then obtain e where e: "getIOPatternWaiter (tr_rule t) = Some e"
      "insert_waiters ts (if e \<in> set am then am else am @ [e]) = Some am'"
    by (auto simp: bind_eq_Some_iff)
  have "set (if e \<in> set am then am else am @ [e]) = insert e (set am)" by auto
  with Cons.IH [OF e(2)] e(1) show ?case by auto
qed simp

lemma those_nth: "those (map f xs) = Some ys \<Longrightarrow> length ys = length xs \<and> (\<forall>i < length xs. f (xs ! i) = Some (ys ! i))"
proof (induction xs arbitrary: ys)
  case (Cons x xs)
  then obtain y zs where "f x = Some y" "those (map f xs) = Some zs" "ys = y # zs"
    by (auto split: option.splits)
  with Cons.IH show ?case by (auto simp: nth_Cons split: nat.split)
qed simp

lemma build_state_am: "build_state q = Some s \<Longrightarrow> rs_am s = []"
proof -
  have "rs_am (fold rs_addTransition ts s) = rs_am s" for ts and s :: rt_state
    by (induction ts arbitrary: s) (simp_all add: rs_addTransition_def)
  then show "build_state q = Some s \<Longrightarrow> ?thesis"
    by (auto simp: build_state_def mk_rt_state_def split: prod.splits if_splits)
qed

lemma elaborated_waiters:
  assumes "elaborate_fsm blockEvent Q = Some F" "s < length F"
  shows "\<forall>t \<in> set (rs_tl (F ! s)). getIOPatternWaiter (tr_rule t) \<noteq> None"
    and "set (rs_am (F ! s)) = {e. \<exists>t \<in> set (rs_tl (F ! s)). getIOPatternWaiter (tr_rule t) = Some e}"
proof -
  obtain G where G: "those (map build_state Q) = Some G" "fsm_end_of_elaboration blockEvent G = Some F"
    using assms(1) by (auto simp: elaborate_fsm_def bind_eq_Some_iff)
  let ?g = "(G ! s)\<lparr>rs_tl := map (\<lambda>t. t\<lparr>tr_rule := rule_end_of_elaboration blockEvent (tr_rule t)\<rparr>) (rs_tl (G ! s))\<rparr>"
  have s: "s < length G" "rs_end_of_elaboration ?g = Some (F ! s)"
    using those_nth [OF G(2) [unfolded fsm_end_of_elaboration_def]] assms(2) by auto
  have "rs_am (G ! s) = []" using those_nth [OF G(1)] s(1) by (intro build_state_am [of "Q ! s"]) auto
  then obtain am where am: "insert_waiters (rs_tl ?g) [] = Some am" "F ! s = ?g\<lparr>rs_am := am\<rparr>"
    using s(2) by (auto simp: rs_end_of_elaboration_def bind_eq_Some_iff)
  from insert_waiters_set [OF am(1)] am(2)
  show "\<forall>t \<in> set (rs_tl (F ! s)). getIOPatternWaiter (tr_rule t) \<noteq> None"
    "set (rs_am (F ! s)) = {e. \<exists>t \<in> set (rs_tl (F ! s)). getIOPatternWaiter (tr_rule t) = Some e}" by simp_all
qed

text \<open>
  C23.  A node listens exactly where it waits.  Let its machine be elaborated from states with named
  transitions, so that every state has collected its event waiters.  In every situation between two
  calls all transitions that leave the current state have a waiter, and the node is registered exactly
  at these waiters, if it is active and wants to be called back, and at none otherwise; its current
  state is a state of the machine and its selected transition one of that state.  It is supposed
  that what the actor shows to its guards is independent of the token limits, and that a guard reads
  only tokens of ports that its rule requests.
\<close>

theorem node_listens_where_it_waits:
  assumes "view_law W" "elaborate_fsm blockEvent Q = Some F" "rules_covered F"
    and "tracked W F initial D n w" "nd_currentState n = Some s"
  shows "s < length F \<and> pred_option (\<lambda>i. i < length (rs_tl (F ! s))) (nd_ct n) \<and>
    (\<forall>t \<in> set (rs_tl (F ! s)). getIOPatternWaiter (tr_rule t) \<noteq> None) \<and>
    listening (nd_calls n) = (if nd_useActivationCallback n \<and> nd_active n
      then {e. \<exists>t \<in> set (rs_tl (F ! s)). getIOPatternWaiter (tr_rule t) = Some e} else {})"
proof -
  have ok: "s < length F" "pred_option (\<lambda>i. i < length (rs_tl (F ! s))) (nd_ct n)"
      "listening (nd_calls n) = (if nd_useActivationCallback n \<and> nd_active n then set (rs_am (F ! s)) else {})"
    using tracked_ok [OF assms(1,3,4)] assms(5) by (simp_all add: node_ok_def)
  show ?thesis using ok elaborated_waiters [OF assms(2) ok(1)] by simp
qed


section \<open>The scheduler\<close>

text \<open>
  The reference: in state \<open>s\<close> the first enabled transition is executed.  The limits of the ports carry no
  information between firings.
\<close>

inductive fires :: "'x world_lib \<Rightarrow> rt_fsm \<Rightarrow> nat \<times> 'x world \<Rightarrow> nat \<times> 'x world \<Rightarrow> bool" for W F where
  "s < length F \<Longrightarrow> first_enabled W w 0 (rs_tl (F ! s)) = Some i \<Longrightarrow> t = rs_tl (F ! s) ! i \<Longrightarrow>
   transition_execute W (rs_name (F ! s)) (rs_name (F ! tr_dest t)) t (w\<lparr>wd_limit := l\<rparr>) = Some (d, w') \<Longrightarrow>
   fires W F (s, w) (d, w'\<lparr>wd_limit := l'\<rparr>)"

lemma fires_limit: "view_law W \<Longrightarrow> rules_covered F \<Longrightarrow> fires W F (s, w\<lparr>wd_limit := k\<rparr>) (d, w') \<Longrightarrow> fires W F (s, w) (d, w')"
  by (erule fires.cases) (auto simp: first_enabled_limit intro!: fires.intros)

lemma schedule_fires:
  assumes "view_law W" "rules_covered F" "node_ok F n" "nd_ct n = first_enabled W w 0 (rs_tl (F ! s))"
    and "nd_currentState n = Some s" "schedule W F n w = Some (n', w')"
  shows "\<exists>d. fires W F (s, w) (d, w') \<and> nd_currentState n' = Some d"
proof -
  obtain i l1 d w1 l2 where x: "nd_ct n = Some i"
    "transition_execute W (rs_name (F ! s)) (rs_name (F ! tr_dest (rs_tl (F ! s) ! i))) (rs_tl (F ! s) ! i)
      (w\<lparr>wd_limit := l1\<rparr>) = Some (d, w1)" "w' = w1\<lparr>wd_limit := l2\<rparr>" "nd_currentState n' = Some d"
    using schedule_ok(1) [OF assms(1-3,6)] assms(5) by auto
  moreover have "s < length F" using assms(3,5) by (simp add: node_ok_def)
  ultimately show ?thesis using fires.intros [of s F W w i _ l1 d w1 l2] assms(4) by auto
qed

text \<open>What the loop of the scheduler leaves, and how it got there.\<close>

definition quiet :: "'x world_lib \<Rightarrow> rt_fsm \<Rightarrow> nat \<times> 'x world \<Rightarrow> node \<times> 'x world \<Rightarrow> bool" where
  "quiet W F c r \<longleftrightarrow> (\<exists>s' w1 l. (fires W F)\<^sup>*\<^sup>* c (s', w1) \<and> snd r = w1\<lparr>wd_limit := l\<rparr> \<and>
     nd_currentState (fst r) = Some s' \<and> (nd_active (fst r) \<longrightarrow> (\<forall>t \<in> set (rs_tl (F ! s')). \<not> enabled W (snd r) t)))"

lemma quiet_step:
  assumes "view_law W" "rules_covered F" "fires W F (s, w) c" "quiet W F c r"
  shows "quiet W F (s, w) r"
proof -
  obtain s' w1 l where "(fires W F)\<^sup>*\<^sup>* c (s', w1)" "snd r = w1\<lparr>wd_limit := l\<rparr>" "nd_currentState (fst r) = Some s'"
    "nd_active (fst r) \<longrightarrow> (\<forall>t \<in> set (rs_tl (F ! s')). \<not> enabled W (snd r) t)"
    using assms(4) by (auto simp: quiet_def)
  moreover from this(1) have "(fires W F)\<^sup>*\<^sup>* (s, w) (s', w1)" using assms(3) by (metis converse_rtranclp_into_rtranclp)
  ultimately show ?thesis unfolding quiet_def by blast
qed

lemma quiet_now:
  assumes "nd_currentState n = Some s" "w' = w\<lparr>wd_limit := l\<rparr>"
    "nd_active n \<longrightarrow> (\<forall>t \<in> set (rs_tl (F ! s)). \<not> enabled W w' t)"
  shows "quiet W F (s, w) (n, w')"
  using assms unfolding quiet_def by (intro exI [of _ s] exI [of _ w] exI [of _ l]) simp

text \<open>One round of the loop: it stops, or fires and goes on.\<close>

lemma round_cases:
  assumes "view_law W" "rules_covered F" "node_ok F n" "sync W F n w" "nd_currentState n = Some s" "nd_active n"
    and "canFire W F n w = Some (b, n1, w1)"
  shows "node_ok F n1" "sync W F n1 w1" "nd_currentState n1 = Some s" "nd_active n1" "\<exists>l. w1 = w\<lparr>wd_limit := l\<rparr>"
    "nd_ct n1 = first_enabled W w1 0 (rs_tl (F ! s))" "b \<longleftrightarrow> nd_ct n1 \<noteq> None"
  using canFire_ok [OF assms(1-4,7)] assms(5,6) by simp_all

lemma scheduler_quiet:
  assumes "scheduleRequestMethod W F n w = Some r"
  shows "\<forall>s. view_law W \<longrightarrow> rules_covered F \<longrightarrow> node_ok F n \<longrightarrow> sync W F n w \<longrightarrow> nd_currentState n = Some s \<longrightarrow>
    quiet W F (s, w) r"
  using assms
proof (rule scheduleRequestMethod.raw_induct [rotated], intro allI impI)
  fix f W F n w r s
  assume ih: "\<And>W F n w r. f W F n w = Some r \<Longrightarrow> \<forall>s. view_law W \<longrightarrow> rules_covered F \<longrightarrow> node_ok F n \<longrightarrow>
      sync W F n w \<longrightarrow> nd_currentState n = Some s \<longrightarrow> quiet W F (s, w) r"
    and eq: "(if \<not> nd_active n then Some (n, w)
      else do { (b, n, w) \<leftarrow> canFire W F n w;
        if b then do { (n, w) \<leftarrow> schedule W F n w; f W F n w } else Some (n, w) }) = Some r"
    and prems: "view_law W" "rules_covered F" "node_ok F n" "sync W F n w" "nd_currentState n = Some s"
  show "quiet W F (s, w) r"
  proof (cases "nd_active n")
    case False
    then have "r = (n, w)" using eq by simp
    then show ?thesis using quiet_now [OF prems(5), where w = w and w' = w and l = "wd_limit w"] False by simp
  next
    case True
    obtain b n1 w1 where c: "canFire W F n w = Some (b, n1, w1)"
      and rest: "(if b then schedule W F n1 w1 \<bind> (\<lambda>(n, w). f W F n w) else Some (n1, w1)) = Some r"
      using eq True by (auto simp: bind_eq_Some_iff)
    note x = round_cases [OF prems(1-5) True c]
    obtain l where l: "w1 = w\<lparr>wd_limit := l\<rparr>" using x(5) by blast
    show ?thesis
    proof (cases b)
      case False
      then have "\<forall>t \<in> set (rs_tl (F ! s)). \<not> enabled W w1 t" "r = (n1, w1)"
        using x(6,7) first_enabled_None [of W w1 0 "rs_tl (F ! s)"] rest by auto
      then show ?thesis using quiet_now [OF x(3) l] by simp
    next
      case True
      then obtain n2 w2 where sch: "schedule W F n1 w1 = Some (n2, w2)" and f: "f W F n2 w2 = Some r"
        using rest by (auto simp: bind_eq_Some_iff)
      obtain d where d: "fires W F (s, w1) (d, w2)" "nd_currentState n2 = Some d"
        using schedule_fires [OF prems(1,2) x(1,6,3) sch] by blast
      have "node_ok F n2" "sync W F n2 w2" using schedule_ok(1) [OF prems(1,2) x(1) sch] by auto
      then have "quiet W F (d, w2) r" using ih [OF f] prems(1,2) d(2) by blast
      moreover have "fires W F (s, w) (d, w2)" using fires_limit [OF prems(1,2)] d(1) unfolding l by blast
      ultimately show ?thesis by (rule quiet_step [OF prems(1,2), rotated])
    qed
  qed
qed


lemma search_total:
  assumes "view_law W" "\<forall>t \<in> set ts. tokens_covered t \<and> transition_check W t w \<noteq> None"
  shows "\<exists>r. search_from W debug i ts n (w\<lparr>wd_limit := l\<rparr>) = Some r"
  using assms(2)
proof (induction ts arbitrary: i n l)
  case (Cons t ts)
  have "map_option fst (transition_check W t (w\<lparr>wd_limit := l\<rparr>)) \<noteq> None"
    using Cons.prems check_limit [OF assms(1), of t l w] by simp
  then obtain b w1 where c: "transition_check W t (w\<lparr>wd_limit := l\<rparr>) = Some (b, w1)" by auto
  obtain l1 where "w1 = w\<lparr>wd_limit := l1\<rparr>" using check_world [OF c] by auto
  then show ?case using c Cons.IH [of "Suc i" _ l1] Cons.prems by (cases b) (auto simp: Let_def)
qed simp

lemma searchActive_total:
  assumes "view_law W" "rules_covered F" "s < length F" "nd_currentState n = Some s"
    "\<forall>t \<in> set (rs_tl (F ! s)). transition_check W t w \<noteq> None"
  shows "\<exists>r. searchActiveTransition W F False n (w\<lparr>wd_limit := l\<rparr>) = Some r"
proof -
  have "\<forall>t \<in> set (rs_tl (F ! s)). tokens_covered t \<and> transition_check W t w \<noteq> None"
    using assms(2,3,5) nth_mem unfolding rules_covered_def by blast
  from search_total [OF assms(1) this] show ?thesis using assms(4) by (simp add: searchActiveTransition_def)
qed

text \<open>Firings that succeed: \<open>I\<close> holds in the situations, \<open>\<mu>\<close> falls with every firing.\<close>

definition progresses :: "'x world_lib \<Rightarrow> rt_fsm \<Rightarrow> (nat \<times> 'x world \<Rightarrow> bool) \<Rightarrow> (nat \<times> 'x world \<Rightarrow> nat) \<Rightarrow> bool" where
  "progresses W F I \<mu> \<longleftrightarrow>
     (\<forall>s w l. I (s, w\<lparr>wd_limit := l\<rparr>) = I (s, w) \<and> \<mu> (s, w\<lparr>wd_limit := l\<rparr>) = \<mu> (s, w)) \<and>
     (\<forall>s w. I (s, w) \<longrightarrow> (\<forall>t \<in> set (rs_tl (F ! s)). transition_check W t w \<noteq> None)) \<and>
     (\<forall>s w i. I (s, w) \<longrightarrow> first_enabled W w 0 (rs_tl (F ! s)) = Some i \<longrightarrow>
        (\<exists>d w'. transition_execute W (rs_name (F ! s)) (rs_name (F ! tr_dest (rs_tl (F ! s) ! i))) (rs_tl (F ! s) ! i) w = Some (d, w') \<and>
          d < length F \<and> I (d, w') \<and> \<mu> (d, w') < \<mu> (s, w)))"

lemma schedule_total:
  assumes "view_law W" "rules_covered F" "progresses W F I \<mu>" "node_ok F n" "nd_currentState n = Some s"
    and "nd_ct n = first_enabled W w 0 (rs_tl (F ! s))" "nd_ct n \<noteq> None" "I (s, w)"
  shows "\<exists>n' w' d. schedule W F n w = Some (n', w') \<and> nd_currentState n' = Some d \<and> I (d, w') \<and> \<mu> (d, w') < \<mu> (s, w)"
proof -
  have lim: "\<And>s w l. I (s, w\<lparr>wd_limit := l\<rparr>) = I (s, w)" "\<And>s w l. \<mu> (s, w\<lparr>wd_limit := l\<rparr>) = \<mu> (s, w)"
    and chk: "\<And>s w. I (s, w) \<Longrightarrow> \<forall>t \<in> set (rs_tl (F ! s)). transition_check W t w \<noteq> None"
    and fire: "\<And>s w i. I (s, w) \<Longrightarrow> first_enabled W w 0 (rs_tl (F ! s)) = Some i \<Longrightarrow>
        \<exists>d w'. transition_execute W (rs_name (F ! s)) (rs_name (F ! tr_dest (rs_tl (F ! s) ! i))) (rs_tl (F ! s) ! i) w = Some (d, w') \<and>
          d < length F \<and> I (d, w') \<and> \<mu> (d, w') < \<mu> (s, w)"
    using assms(3) unfolding progresses_def by blast+
  obtain i where i: "nd_ct n = Some i" using assms(7) by blast
  let ?t = "rs_tl (F ! s) ! i"
  have s: "s < length F" "\<not> nd_executing n" using assms(4,5) by (simp_all add: node_ok_def)
  have "enabled W w ?t" using first_enabled_range [of W w 0 "rs_tl (F ! s)" i] assms(6) i by simp
  then obtain w0 where c: "transition_check W ?t w = Some (True, w0)" by (auto simp: enabled_def)
  obtain l where l: "w0 = w\<lparr>wd_limit := l\<rparr>" using check_world [OF c] by blast
  have "first_enabled W w0 0 (rs_tl (F ! s)) = Some i"
    using first_enabled_limit [OF assms(1,2) s(1)] assms(6) i unfolding l by simp
  moreover have "I (s, w0)" using assms(8) lim(1) unfolding l by blast
  ultimately obtain d w1 where x: "transition_execute W (rs_name (F ! s)) (rs_name (F ! tr_dest ?t)) ?t w0 = Some (d, w1)"
    "d < length F" "I (d, w1)" "\<mu> (d, w1) < \<mu> (s, w)" using fire [of s w0 i] lim(2) unfolding l by auto
  obtain n1 where n1: "setCurrentState F d (n\<lparr>nd_executing := True\<rparr>) = Some n1"
    using x(2) by (simp add: setCurrentState_def)
  have "node_ok F (n\<lparr>nd_executing := True, nd_executing := False\<rparr>)"
    using assms(4) by (simp add: node_ok_def split: option.splits)
  note st = set_state_ok [OF this n1]
  have "w1 = w1\<lparr>wd_limit := wd_limit w1\<rparr>" by simp
  then obtain r where "searchActiveTransition W F False (n1\<lparr>nd_executing := False\<rparr>) w1 = Some r"
    using searchActive_total [OF assms(1,2) st(4), of "n1\<lparr>nd_executing := False\<rparr>" w1 "wd_limit w1"] st(2) chk [OF x(3)] by auto
  then have "\<exists>n' w'. schedule W F n w = Some (n', w')"
    using assms(5) i c s x(1) n1 st(3) by (cases r) (auto simp: schedule_def Let_def)
  then obtain n' w' where sch: "schedule W F n w = Some (n', w')" by blast
  have "(\<exists>l. w' = w1\<lparr>wd_limit := l\<rparr>) \<and> nd_currentState n' = Some d"
  proof (cases "nd_useActivationCallback n1")
    case True
    then have "searchActiveTransition W F False (n1\<lparr>nd_executing := False\<rparr>) w1 = Some (n', w')"
      using sch assms(5) i c s x(1) n1 st(3) by (simp add: schedule_def Let_def)
    then show ?thesis
      using search_effect(2,4) [OF assms(1,2) _ st(4), of "n1\<lparr>nd_executing := False\<rparr>" w1 n' w'] st(2) by simp
  next
    case False
    then have "n' = n1\<lparr>nd_executing := False\<rparr>" "w' = w1"
      using sch assms(5) i c s x(1) n1 st(3) by (simp_all add: schedule_def Let_def)
    then show ?thesis using st(2) by simp
  qed
  then show ?thesis using sch x(3,4) lim by auto
qed

lemma canFire_total:
  assumes "view_law W" "rules_covered F" "s < length F" "nd_currentState n = Some s"
    "\<forall>t \<in> set (rs_tl (F ! s)). transition_check W t w \<noteq> None"
  shows "\<exists>r. canFire W F n w = Some r"
  using searchActive_total [OF assms, of "wd_limit w"] by (auto simp: canFire_def)

lemma scheduler_ends:
  assumes "view_law W" "rules_covered F" "progresses W F I \<mu>"
  shows "node_ok F n \<Longrightarrow> sync W F n w \<Longrightarrow> nd_currentState n = Some s \<Longrightarrow> I (s, w) \<Longrightarrow>
    \<exists>r. scheduleRequestMethod W F n w = Some r"
proof (induction "\<mu> (s, w)" arbitrary: n s w rule: less_induct)
  case less
  show ?case
  proof (cases "nd_active n")
    case False
    then show ?thesis by (simp add: scheduleRequestMethod.simps)
  next
    case True
    have s: "s < length F" using less.prems(1,3) by (simp add: node_ok_def)
    have "\<forall>t \<in> set (rs_tl (F ! s)). transition_check W t w \<noteq> None"
      using assms(3) less.prems(4) unfolding progresses_def by blast
    then obtain r where "canFire W F n w = Some r"
      using canFire_total [OF assms(1,2) s less.prems(3)] by blast
    then obtain b n1 w1 where c: "canFire W F n w = Some (b, n1, w1)" by (cases r) blast
    note x = round_cases [OF assms(1,2) less.prems(1-3) True c]
    obtain l where l: "w1 = w\<lparr>wd_limit := l\<rparr>" using x(5) by blast
    have i: "I (s, w1)" "\<mu> (s, w1) = \<mu> (s, w)"
      using assms(3) less.prems(4) unfolding l progresses_def by blast+
    show ?thesis
    proof (cases b)
      case False
      then show ?thesis using c True by (simp add: scheduleRequestMethod.simps [of W F n w])
    next
      case b: True
      then obtain n2 w2 d where sch: "schedule W F n1 w1 = Some (n2, w2)" "nd_currentState n2 = Some d" "I (d, w2)"
        "\<mu> (d, w2) < \<mu> (s, w1)"
        using schedule_total [OF assms x(1,3,6) _ i(1)] x(7) by blast
      have "node_ok F n2" "sync W F n2 w2" using schedule_ok(1) [OF assms(1,2) x(1) sch(1)] by auto
      from less.hyps [OF _ this sch(2,3)] sch(4) i(2) obtain r where "scheduleRequestMethod W F n2 w2 = Some r" by auto
      then show ?thesis using c b True sch(1) by (simp add: scheduleRequestMethod.simps [of W F n w])
    qed
  qed
qed

text \<open>
  The loop of the scheduler returns, without hitting an assertion of the node, for a node whose
  guards have values, whose enabled transitions can be executed and whose firings use up a resource.
\<close>

theorem scheduler_returns:
  assumes "view_law W" "rules_covered F" "progresses W F I \<mu>" "tracked W F initial {} n w"
    and "nd_currentState n = Some s" "I (s, w)"
  shows "\<exists>n' w'. scheduleRequestMethod W F n w = Some (n', w')"
proof -
  have "node_ok F n" "sync W F n w" using tracked_ok [OF assms(1,2,4)] by (auto simp: sync_but_def)
  then show ?thesis using scheduler_ends [OF assms(1-3) _ _ assms(5,6)] by auto
qed

section \<open>An example\<close>

text \<open>
  A node with one state that consumes one token per firing from a channel, of which only the number of
  tokens is kept; event \<open>k\<close> is active when \<open>k\<close> tokens are there.
\<close>

definition sink_lib :: "nat world_lib" where
  "sink_lib = \<lparr>wl_view = (\<lambda>w. \<lparr>ge_var = \<lambda>_. VEnabled, ge_mem = \<lambda>_ _. VEnabled, ge_event = \<lambda>e. e \<le> wd_rest w,
       ge_limit = \<lambda>_. 0, ge_token = \<lambda>_ _. None\<rparr>),
     wl_call = (\<lambda>f w. Some w), wl_reset = (\<lambda>w. w),
     wl_commExec = (\<lambda>p n w. if n \<le> wd_rest w then Some (w\<lparr>wd_rest := wd_rest w - n\<rparr>) else None),
     wl_hook = (\<lambda>h a b c w. w)\<rparr>"

definition sink_rule :: rt_rule where
  "sink_rule = \<lparr>fr_guard = GVirtual (GComm 0 1 1), fr_action = [], rr_guardNames = [], rr_guardComplexity = 3,
     rr_events = [], rr_portIn = [(0, 1, 1)], rr_portOut = [], rr_ioPatternWaiter = Some [1]\<rparr>"

lemma sink_rule_elaborated:
  "map_option (rule_end_of_elaboration (\<lambda>p n. n)) (mk_rt_rule (\<lambda>_. True) (mk_firing_rule (GComm 0 1 1) [])) = Some sink_rule"
  by (simp add: mk_rt_rule_def mk_firing_rule_def rule_end_of_elaboration_def event_and_def sink_rule_def firing_rule.defs)

definition sink_fsm :: rt_fsm where
  "sink_fsm = [\<lparr>rs_name = ''start'', rs_tl = [mk_transition (\<lambda>_ _. False) [] ''start'' sink_rule 0 ''start''], rs_am = [[1]]\<rparr>]"

definition sink_world :: "nat \<Rightarrow> nat world" where
  "sink_world k = \<lparr>wd_limit = (\<lambda>_. 0), wd_rest = k\<rparr>"

lemma sink_laws: "view_law sink_lib" "rules_covered sink_fsm"
  by (simp_all add: view_law_def sink_lib_def rules_covered_def sink_fsm_def tokens_covered_def mk_transition_def
      Let_def sink_rule_def)

lemma sink_check:
  "transition_check sink_lib (mk_transition re [] src sink_rule 0 dst) w =
    (if 1 \<le> wd_rest w then Some (True, w\<lparr>wd_limit := (wd_limit w)(0 := 0)\<rparr>) else Some (False, w))"
  by (auto simp: transition_check_def getIOPatternWaiter_def mk_transition_def sink_rule_def Let_def waiter_active_def
      sink_lib_def guard_env_def value_DVirtual_def activation_of_bool_def commSetup_def commReset_def)

lemma sink_enabled [simp]: "enabled sink_lib w (mk_transition re [] src sink_rule 0 dst) \<longleftrightarrow> 1 \<le> wd_rest w"
  by (cases "1 \<le> wd_rest w") (simp_all add: enabled_def sink_check)

lemma sink_check_value: "\<forall>t \<in> set (rs_tl (sink_fsm ! 0)). transition_check sink_lib t w \<noteq> None"
  by (cases "1 \<le> wd_rest w") (simp_all add: sink_fsm_def sink_check)

lemma mk_transition_dest [simp]: "tr_dest (mk_transition re hs src r d dst) = d"
  by (simp add: mk_transition_def Let_def)

lemma sink_execute:
  assumes "1 \<le> wd_rest w"
  shows "\<exists>w'. transition_execute sink_lib src dst (mk_transition re [] src sink_rule 0 dst) w = Some (0, w') \<and>
     wd_rest w' = wd_rest w - 1"
proof -
  let ?t = "mk_transition re [] src sink_rule 0 dst"
  let ?w = "w\<lparr>wd_limit := commSetup sink_rule (wd_limit w), wd_rest := wd_rest w - 1\<rparr>"
  have "transition_execute sink_lib src dst ?t w =
      Some (0, ?w\<lparr>wd_limit := commReset sink_rule (wd_limit ?w)\<rparr>)"
    using assms by (simp add: transition_execute_def mk_transition_def Let_def executeFiringRule_def sink_lib_def)
      (simp add: sink_rule_def)
  then show ?thesis by simp
qed

lemma sink_progresses: "progresses sink_lib sink_fsm (\<lambda>(s, w). s = 0) (\<lambda>(s, w). wd_rest w)"
proof -
  have "\<exists>w'. transition_execute sink_lib ''start'' ''start'' (mk_transition (\<lambda>_ _. False) [] ''start'' sink_rule 0 ''start'') w =
      Some (0, w') \<and> wd_rest w' < wd_rest w" if "1 \<le> wd_rest w" for w
    using sink_execute [OF that] that by fastforce
  then show ?thesis
    using sink_check_value by (auto simp: progresses_def sink_fsm_def split: if_splits)
qed

lemma sink_reset [simp]: "wl_reset sink_lib w = w"
  by (simp add: sink_lib_def)

lemma sink_start:
  "\<exists>n w'. tracked sink_lib sink_fsm 0 {} n w' \<and> nd_currentState n = Some 0 \<and> nd_active n \<and> wd_rest w' = k"
proof -
  have "\<exists>n w. node_doReset sink_lib sink_fsm 0 mk_node (sink_world k) = Some (n, w) \<and> nd_currentState n = Some 0 \<and>
      nd_active n \<and> wd_rest w = k"
    by (cases k) (simp_all add: node_doReset_def sink_fsm_def setCurrentState_def mk_node_def addMySelfAsListener_alt
        search_notify_def searchActiveTransition_def sink_check sink_world_def Let_def)
  then obtain n w where r: "node_doReset sink_lib sink_fsm 0 mk_node (sink_world k) = Some (n, w)"
      "nd_currentState n = Some 0" "nd_active n" "wd_rest w = k" by blast
  have "tracked sink_lib sink_fsm 0 {} n w" by (rule tracked.start [OF r(1)])
  then show ?thesis using r(2-4) by blast
qed

definition sink_states :: "(string \<times> rt_transition list) list" where
  "sink_states = [(''start'', [mk_transition (\<lambda>_ _. False) [] ''start''
     (the (mk_rt_rule (\<lambda>_. True) (mk_firing_rule (GComm 0 1 1) []))) 0 ''start''])]"

lemma sink_elaborates: "elaborate_fsm (\<lambda>p n. n) sink_states = Some sink_fsm"
  using sink_rule_elaborated
  by (simp add: elaborate_fsm_def sink_states_def build_state_def mk_rt_state_def rs_addTransition_def
      fsm_end_of_elaboration_def mk_transition_def Let_def sink_fsm_def rs_end_of_elaboration_def getIOPatternWaiter_def
      mk_rt_rule_def mk_firing_rule_def rule_end_of_elaboration_def event_and_def sink_rule_def firing_rule.defs)

theorem node_listens_where_it_waits_witness:
  "\<exists>n w. tracked sink_lib sink_fsm 0 {} n w \<and> listening (nd_calls n) = (if nd_useActivationCallback n then {[1]} else {})"
proof -
  obtain n w where n: "tracked sink_lib sink_fsm 0 {} n w" "nd_currentState n = Some 0" "nd_active n"
    using sink_start [of 0] by blast
  have "{e. \<exists>t \<in> set (rs_tl (sink_fsm ! 0)). getIOPatternWaiter (tr_rule t) = Some e} = {[1]}"
    by (simp add: sink_fsm_def mk_transition_def Let_def getIOPatternWaiter_def sink_rule_def)
  then show ?thesis
    using node_listens_where_it_waits [OF sink_laws(1) sink_elaborates sink_laws(2) n(1,2)] n(1,3) by auto
qed


theorem scheduler_returns_witness:
  "\<exists>n w n' w'. tracked sink_lib sink_fsm 0 {} n w \<and> wd_rest w = 5 \<and> scheduleRequestMethod sink_lib sink_fsm n w = Some (n', w')"
proof -
  obtain n w where n: "tracked sink_lib sink_fsm 0 {} n w" "nd_currentState n = Some 0" "wd_rest w = 5"
    using sink_start [of 5] by blast
  then show ?thesis using scheduler_returns [OF sink_laws sink_progresses n(1,2)] by auto
qed


end
