(* ===== verification/Periodic_Actor.thy ===== *)
theory Periodic_Actor
  imports Node_Firing Complex_Main
begin

text \<open>
  Periodic actors (\<^verbatim>\<open>smoc_periodic_actor\<close>): a node that does not fire before its next release time, which advances by
  whole periods, with a random deviation if jitter is set.  Times are \<^verbatim>\<open>sc_time\<close> values: 64-bit counts of the
  resolution, whose sums wrap; the products with the counter are taken as exact.  The product of jitter, random
  number and period, as SystemC rounds it, and the random numbers are parameters.
\<close>

section \<open>The actor\<close>

record periodic =
  pa_counter :: nat
  pa_period :: nat
  pa_offset :: nat
  pa_next :: nat
  pa_jitter :: rat
  pa_reexecute :: bool
  pa_active :: bool

definition mk_periodic :: "nat \<Rightarrow> nat \<Rightarrow> rat \<Rightarrow> periodic" where
  "mk_periodic per off jit = \<lparr>pa_counter = 0, pa_period = per, pa_offset = off, pa_next = off, pa_jitter = jit,
     pa_reexecute = False, pa_active = True\<rparr>"

text \<open>\<open>M j r p\<close> is the time \<open>j * r * p\<close>; \<open>rnd k\<close> is the number drawn for the period \<open>k\<close>, between -1 and 1.\<close>

definition calculateMobility :: "(rat \<Rightarrow> rat \<Rightarrow> nat \<Rightarrow> int) \<Rightarrow> (nat \<Rightarrow> rat) \<Rightarrow> periodic \<Rightarrow> int" where
  "calculateMobility M rnd p = (if pa_jitter p \<noteq> 0 then M (pa_jitter p) (rnd (pa_counter p)) (pa_period p) else 0)"

partial_function (option) updateReleaseTime ::
    "(rat \<Rightarrow> rat \<Rightarrow> nat \<Rightarrow> int) \<Rightarrow> (nat \<Rightarrow> rat) \<Rightarrow> nat \<Rightarrow> periodic \<Rightarrow> periodic option" where
  [code]: "updateReleaseTime M rnd now p =
     (if pa_next p \<le> now then (let
          p = p\<lparr>pa_counter := pa_counter p + 1\<rparr>;
          p = p\<lparr>pa_next := nat ((int (pa_counter p * pa_period p + pa_offset p) + calculateMobility M rnd p) mod 2 ^ 64)\<rparr>
        in updateReleaseTime M rnd now p)
      else Some p)"

definition pa_getNextReleaseTime :: "nat \<Rightarrow> periodic \<Rightarrow> nat" where
  "pa_getNextReleaseTime now p = (if pa_reexecute p \<or> \<not> pa_active p then now else pa_next p)"

text \<open>What an action of the actor can call.\<close>

datatype periodic_call = ForceReexecution | StopExecution | RestartExecution

fun apply_call :: "periodic_call \<Rightarrow> periodic \<Rightarrow> periodic" where
  "apply_call ForceReexecution p = p\<lparr>pa_reexecute := True\<rparr>"
| "apply_call StopExecution p = p\<lparr>pa_active := False\<rparr>"
| "apply_call RestartExecution p = p\<lparr>pa_active := True\<rparr>"

text \<open>\<open>calls\<close> are the calls the executed action makes.\<close>

definition periodic_schedule :: "(rat \<Rightarrow> rat \<Rightarrow> nat \<Rightarrow> int) \<Rightarrow> (nat \<Rightarrow> rat) \<Rightarrow> nat \<Rightarrow> periodic_call list \<Rightarrow>
    'x world_lib \<Rightarrow> rt_fsm \<Rightarrow> periodic \<Rightarrow> node \<Rightarrow> 'x world \<Rightarrow> (periodic \<times> node \<times> 'x world) option" where
  "periodic_schedule M rnd now calls W F p n w = do {
     let p = p\<lparr>pa_reexecute := False, pa_active := True\<rparr>;
     (n, w) \<leftarrow> schedule W F n w;
     let p = fold apply_call calls p;
     p \<leftarrow> (if \<not> pa_reexecute p \<and> pa_active p then updateReleaseTime M rnd now p else Some p);
     Some (p, n, w)
   }"

definition periodic_canFire :: "nat \<Rightarrow> 'x world_lib \<Rightarrow> rt_fsm \<Rightarrow> periodic \<Rightarrow> node \<Rightarrow> 'x world \<Rightarrow> (bool \<times> node \<times> 'x world) option" where
  "periodic_canFire now W F p n w = do {
     (active, n, w) \<leftarrow> canFire W F n w;
     Some (if active \<and> now < pa_getNextReleaseTime now p \<and> nd_useActivationCallback n
       then (False, emit (NotifyActivation True) n, w) else (active, n, w))
   }"

section \<open>Release times\<close>

definition mobility_law :: "(rat \<Rightarrow> rat \<Rightarrow> nat \<Rightarrow> int) \<Rightarrow> bool" where
  "mobility_law M \<longleftrightarrow> (\<forall>j r p. \<bar>j\<bar> \<le> 1 \<longrightarrow> \<bar>r\<bar> \<le> 1 \<longrightarrow> \<bar>M j r p\<bar> \<le> int p)"

definition grid :: "periodic \<Rightarrow> nat \<Rightarrow> nat" where
  "grid p k = k * pa_period p + pa_offset p"

definition mobility_ref :: "rat \<Rightarrow> rat \<Rightarrow> nat \<Rightarrow> int" where
  "mobility_ref j r p = \<lfloor>j * r * of_nat p\<rfloor>"

lemma mobility_ref_law [simp]: "mobility_law mobility_ref"
proof -
  have "\<bar>\<lfloor>j * r * of_nat p\<rfloor>\<bar> \<le> int p" if "\<bar>j\<bar> \<le> 1" "\<bar>r\<bar> \<le> 1" for j r :: rat and p
  proof -
    have "\<bar>j * r\<bar> \<le> 1" using mult_mono [OF that] by (simp add: abs_mult)
    then have "\<bar>j * r * of_nat p\<bar> \<le> of_nat p" using mult_right_mono [of "\<bar>j * r\<bar>" 1 "of_nat p"] by (simp add: abs_mult)
    then have "- of_nat p \<le> j * r * of_nat p" "j * r * of_nat p \<le> of_nat p" by linarith+
    then have "- int p \<le> \<lfloor>j * r * of_nat p\<rfloor>" "\<lfloor>j * r * of_nat p\<rfloor> \<le> int p"
      by (simp_all add: le_floor_iff floor_le_iff) 
    then show ?thesis by linarith
  qed
  then show ?thesis by (simp add: mobility_law_def mobility_ref_def)
qed

text \<open>One round of the loop stays within a period of the grid.\<close>

lemma mobility_bound:
  assumes "mobility_law M" "\<bar>pa_jitter p\<bar> \<le> 1" "\<forall>k. \<bar>rnd k\<bar> \<le> 1"
  shows "\<bar>calculateMobility M rnd p\<bar> \<le> int (pa_period p)" "pa_jitter p = 0 \<Longrightarrow> calculateMobility M rnd p = 0"
  using assms by (auto simp: calculateMobility_def mobility_law_def)

definition released :: "periodic \<Rightarrow> bool" where
  "released p \<longleftrightarrow> \<bar>int (pa_next p) - int (grid p (pa_counter p))\<bar> \<le> int (pa_period p) \<and>
     (pa_jitter p = 0 \<longrightarrow> pa_next p = grid p (pa_counter p))"

lemma mk_periodic_released: "released (mk_periodic per off jit)"
  by (simp add: released_def mk_periodic_def grid_def)

text \<open>The fields the loop leaves alone.\<close>

definition same_timer :: "periodic \<Rightarrow> periodic \<Rightarrow> bool" where
  "same_timer p p' \<longleftrightarrow> pa_period p' = pa_period p \<and> pa_offset p' = pa_offset p \<and> pa_jitter p' = pa_jitter p \<and>
     pa_reexecute p' = pa_reexecute p \<and> pa_active p' = pa_active p"

lemma same_timer_grid: "same_timer p p' \<Longrightarrow> grid p' k = grid p k"
  by (simp add: same_timer_def grid_def)

lemma update_ends:
  assumes "mobility_law M" "\<forall>k. \<bar>rnd k\<bar> \<le> 1" "0 < pa_period p" "\<bar>pa_jitter p\<bar> \<le> 1" "released p"
    and "now + pa_offset p + 4 * pa_period p < 2 ^ 64"
  shows "\<exists>p'. updateReleaseTime M rnd now p = Some p' \<and> same_timer p p' \<and> released p' \<and> now < pa_next p' \<and>
    (pa_next p \<le> now \<longrightarrow> pa_counter p < pa_counter p' \<and> pa_next p' \<le> now + 3 * pa_period p + pa_offset p) \<and>
    (pa_next p \<le> now \<longrightarrow> pa_jitter p = 0 \<longrightarrow> pa_next p' \<le> now + pa_period p)"
  using assms(3-6)
proof (induction "now + 2 * pa_period p + pa_offset p - grid p (pa_counter p)" arbitrary: p rule: less_induct)
  case less
  show ?case
  proof (cases "pa_next p \<le> now")
    case False
    then show ?thesis using less.prems by (simp add: updateReleaseTime.simps [of M rnd now p] same_timer_def)
  next
    case True
    define q where "q = p\<lparr>pa_counter := pa_counter p + 1\<rparr>"
    define z where "z = int (grid p (pa_counter p + 1)) + calculateMobility M rnd q"
    define p1 where "p1 = q\<lparr>pa_next := nat (z mod 2 ^ 64)\<rparr>"
    have step: "updateReleaseTime M rnd now p = updateReleaseTime M rnd now p1"
      using True by (subst updateReleaseTime.simps) (simp add: p1_def q_def z_def grid_def Let_def distrib_right)
    have m: "\<bar>calculateMobility M rnd q\<bar> \<le> int (pa_period p)" "pa_jitter p = 0 \<Longrightarrow> calculateMobility M rnd q = 0"
      using mobility_bound [OF assms(1), of q rnd] assms(2) less.prems(2) by (simp_all add: q_def)
    have g: "grid p (pa_counter p + 1) = grid p (pa_counter p) + pa_period p" by (simp add: grid_def)
    have low: "grid p (pa_counter p) \<le> now + pa_period p" using less.prems(3) True unfolding released_def by linarith
    have "int (now + pa_offset p + 4 * pa_period p) < int (2 ^ 64)" using less.prems(4) by (simp only: of_nat_less_iff)
    then have "int now + 4 * int (pa_period p) < 2 ^ 64" by simp
    then have z: "0 \<le> z" "z < 2 ^ 64" using m(1) low unfolding z_def g by simp_all
    then have next1: "int (pa_next p1) = z" by (simp add: p1_def)
    have same: "same_timer p p1" and counter: "pa_counter p1 = pa_counter p + 1" by (simp_all add: p1_def q_def same_timer_def)
    have same_fields: "pa_period p1 = pa_period p" "pa_offset p1 = pa_offset p" using same by (simp_all add: same_timer_def)
    have rel: "released p1"
      using m next1 same_timer_grid [OF same] same unfolding released_def z_def counter same_timer_def by auto
    have "now + 2 * pa_period p1 + pa_offset p1 - grid p1 (pa_counter p1) < now + 2 * pa_period p + pa_offset p - grid p (pa_counter p)"
      using g low less.prems(1) unfolding counter same_fields same_timer_grid [OF same] by linarith
    from less.hyps [OF this] less.prems same rel obtain p' where p': "updateReleaseTime M rnd now p1 = Some p'" "same_timer p1 p'"
      "released p'" "now < pa_next p'"
      "pa_next p1 \<le> now \<longrightarrow> pa_counter p1 < pa_counter p' \<and> pa_next p' \<le> now + 3 * pa_period p + pa_offset p"
      "pa_next p1 \<le> now \<longrightarrow> pa_jitter p = 0 \<longrightarrow> pa_next p' \<le> now + pa_period p"
      by (auto simp: same_timer_def)
    have stop: "p' = p1" if "\<not> pa_next p1 \<le> now"
      using p'(1) that by (simp add: updateReleaseTime.simps [of M rnd now p1])
    have "pa_counter p < pa_counter p'" using p'(5) stop counter by (cases "pa_next p1 \<le> now") auto
    moreover have "pa_next p' \<le> now + 3 * pa_period p + pa_offset p"
    proof (cases "pa_next p1 \<le> now")
      case False
      then show ?thesis using stop m(1) next1 low unfolding z_def g by auto
    qed (use p'(5) in blast)
    moreover have "pa_next p' \<le> now + pa_period p" if "pa_jitter p = 0"
    proof (cases "pa_next p1 \<le> now")
      case False
      have "pa_next p = grid p (pa_counter p)" using less.prems(3) that by (simp add: released_def)
      then show ?thesis using stop False m(2) [OF that] next1 True unfolding z_def g by auto
    qed (use p'(6) that in blast)
    moreover have "same_timer p p'" using same p'(2) by (simp add: same_timer_def)
    ultimately show ?thesis using step p'(1,3,4) by auto
  qed
qed

text \<open>With a period of zero the loop does not end.\<close>

lemma update_period_zero:
  assumes "pa_period p = 0" "pa_jitter p = 0" "pa_offset p \<le> now" "now < 2 ^ 64" "pa_next p \<le> now"
  shows "updateReleaseTime M rnd now p = None"
proof -
  define Z where "Z q \<longleftrightarrow> pa_period q = 0 \<and> pa_jitter q = 0 \<and> pa_offset q \<le> now \<and> pa_next q \<le> now" for q :: periodic
  have never: "\<not> (t = now \<and> Z q)" if "updateReleaseTime M rnd t q = Some r" for M rnd t q r
    using that
  proof (rule updateReleaseTime.raw_induct [rotated])
    fix f M rnd t q r
    assume ih: "\<And>M rnd t q r. f M rnd t q = Some r \<Longrightarrow> \<not> (t = now \<and> Z q)"
      and eq: "(if pa_next q \<le> t then let q = q\<lparr>pa_counter := pa_counter q + 1\<rparr>;
          q = q\<lparr>pa_next := nat ((int (pa_counter q * pa_period q + pa_offset q) + calculateMobility M rnd q) mod 2 ^ 64)\<rparr>
        in f M rnd t q else Some q) = Some r"
    show "\<not> (t = now \<and> Z q)"
    proof
      assume z: "t = now \<and> Z q"
      have "int (pa_offset q) mod 2 ^ 64 = int (pa_offset q)" using z assms(4) by (simp add: Z_def)
      then have "Z (q\<lparr>pa_counter := pa_counter q + 1, pa_next := nat (int (pa_offset q) mod 2 ^ 64)\<rparr>)" using z by (simp add: Z_def)
      moreover have "f M rnd t (q\<lparr>pa_counter := pa_counter q + 1, pa_next := nat (int (pa_offset q) mod 2 ^ 64)\<rparr>) = Some r"
        using eq z by (simp add: Z_def calculateMobility_def Let_def)
      ultimately show False using ih z by blast
    qed
  qed
  have "Z p" using assms by (simp add: Z_def)
  then show ?thesis using never by (cases "updateReleaseTime M rnd now p") blast+
qed



end
