(* ===== verification/Dataflow_Network.thy ===== *)
theory Dataflow_Network
  imports Channel_Adapter Node_Firing
begin

text \<open>
  Actors connected by channels.  Ports call their channels through the interfaces \<^verbatim>\<open>PortInBaseIf\<close> and
  \<^verbatim>\<open>PortOutBaseIf\<close> (\<^verbatim>\<open>headers/smoc/detail/PortIOBaseIf.hpp\<close>, \<^verbatim>\<open>PortBase.hpp\<close>), here a record of
  operations; the locale \<open>flow_channel\<close> states what the actors rely on, and the FIFO provides it.  The
  world of a node is the list of all channels and the variables of all actors.  A port is bound to one
  channel; an action reads the tokens its rule requires and writes all those it announces.
\<close>

section \<open>Channels as ports see them\<close>

record ('a, 's) chan_ops =
  co_dataEvent :: "nat \<Rightarrow> 's \<Rightarrow> bool"
  co_spaceEvent :: "nat \<Rightarrow> 's \<Rightarrow> bool"
  co_read :: "nat \<Rightarrow> nat \<Rightarrow> 's \<Rightarrow> ('a \<times> 's) option"
  co_write :: "nat \<Rightarrow> 'a list \<Rightarrow> 's \<Rightarrow> 's option"
  co_consume :: "nat \<Rightarrow> 's \<Rightarrow> 's option"
  co_produce :: "nat \<Rightarrow> 's \<Rightarrow> 's option"

definition fifo_ops :: "math_lib \<Rightarrow> 'e event_lib \<Rightarrow> 'a option \<Rightarrow> ('a, ('a, 'e) fifo_chan) chan_ops" where
  "fifo_ops L E D = \<lparr>co_dataEvent = (\<lambda>n c. event_active E n (emmData c)),
     co_spaceEvent = (\<lambda>n c. event_active E n (emmSpace c)),
     co_read = read_token D, co_write = (\<lambda>limit. write_tokens limit 0),
     co_consume = outlet_commExec L E, co_produce = entry_commExec L E D\<rparr>"

section \<open>The world of the nodes of a network\<close>

record 's network =
  nw_chans :: "'s list"
  nw_vars :: "nat \<Rightarrow> string \<Rightarrow> gval"

datatype port_end = Reads nat | Writes nat

text \<open>
  The ends the ports are bound to, the ports of each node, the port and amount each event stands for,
  and the user's code: member functions used as guards, and actions, from the limits of the ports, the
  tokens read and the variables to the variables and the tokens written.
\<close>

record net_conf =
  nc_end :: "nat \<Rightarrow> port_end"
  nc_ins :: "nat \<Rightarrow> nat list"
  nc_outs :: "nat \<Rightarrow> nat list"
  nc_event :: "nat \<Rightarrow> nat \<times> nat"
  nc_member :: "nat \<Rightarrow> string \<Rightarrow> gval list \<Rightarrow> (string \<Rightarrow> gval) \<Rightarrow> gval"
  nc_body :: "nat \<Rightarrow> func_call \<Rightarrow> (nat \<Rightarrow> nat) \<Rightarrow> (nat \<Rightarrow> gval list) \<Rightarrow> (string \<Rightarrow> gval) \<Rightarrow>
    (string \<Rightarrow> gval) \<times> (nat \<Rightarrow> gval list)"

definition port_blockEvent :: "(gval, 's) chan_ops \<Rightarrow> net_conf \<Rightarrow> 's list \<Rightarrow> nat \<times> nat \<Rightarrow> bool" where
  "port_blockEvent ops cfg chs = (\<lambda>(p, n). case nc_end cfg p of
     Reads c \<Rightarrow> co_dataEvent ops n (chs ! c) | Writes c \<Rightarrow> co_spaceEvent ops n (chs ! c))"

definition port_getValueAt :: "(gval, 's) chan_ops \<Rightarrow> net_conf \<Rightarrow> 's list \<Rightarrow> nat \<Rightarrow> nat \<Rightarrow> gval option" where
  "port_getValueAt ops cfg chs p n = (case nc_end cfg p of
     Reads c \<Rightarrow> map_option fst (co_read ops (Suc n) n (chs ! c)) | Writes c \<Rightarrow> None)"

definition net_view :: "(gval, 's) chan_ops \<Rightarrow> net_conf \<Rightarrow> nat \<Rightarrow> 's network world \<Rightarrow> genv" where
  "net_view ops cfg i w = (let v = nw_vars (wd_rest w) i in
     \<lparr>ge_var = v, ge_mem = (\<lambda>f ps. nc_member cfg i f ps v),
      ge_event = (\<lambda>e. port_blockEvent ops cfg (nw_chans (wd_rest w)) (nc_event cfg e)), ge_limit = (\<lambda>_. 0),
      ge_token = port_getValueAt ops cfg (nw_chans (wd_rest w))\<rparr>)"

text \<open>Access to the tokens of a port, from position \<open>i\<close>, and of all ports.\<close>

fun read_from :: "(gval, 's) chan_ops \<Rightarrow> nat \<Rightarrow> nat \<Rightarrow> nat \<Rightarrow> 's \<Rightarrow> (gval list \<times> 's) option" where
  "read_from ops limit i 0 s = Some ([], s)"
| "read_from ops limit i (Suc k) s = do {
     (t, s) \<leftarrow> co_read ops limit i s;
     (ts, s) \<leftarrow> read_from ops limit (Suc i) k s;
     Some (t # ts, s)
   }"

fun read_ports :: "(gval, 's) chan_ops \<Rightarrow> net_conf \<Rightarrow> (nat \<Rightarrow> nat) \<Rightarrow> nat list \<Rightarrow> 's list \<Rightarrow>
    ((nat \<Rightarrow> gval list) \<times> 's list) option" where
  "read_ports ops cfg lim [] chs = Some (\<lambda>_. [], chs)"
| "read_ports ops cfg lim (p # ps) chs = (case nc_end cfg p of Writes c \<Rightarrow> None
     | Reads c \<Rightarrow> do {
         (ts, s) \<leftarrow> read_from ops (lim p) 0 (lim p) (chs ! c);
         (ins, chs) \<leftarrow> read_ports ops cfg lim ps (chs[c := s]);
         Some (ins(p := ts), chs)
       })"

fun write_ports :: "(gval, 's) chan_ops \<Rightarrow> net_conf \<Rightarrow> (nat \<Rightarrow> nat) \<Rightarrow> (nat \<Rightarrow> gval list) \<Rightarrow> nat list \<Rightarrow> 's list \<Rightarrow>
    's list option" where
  "write_ports ops cfg lim outs [] chs = Some chs"
| "write_ports ops cfg lim outs (p # ps) chs = (case nc_end cfg p of Reads c \<Rightarrow> None
     | Writes c \<Rightarrow> do {
         s \<leftarrow> co_write ops (lim p) (outs p) (chs ! c);
         write_ports ops cfg lim outs ps (chs[c := s])
       })"

definition net_call :: "(gval, 's) chan_ops \<Rightarrow> net_conf \<Rightarrow> nat \<Rightarrow> func_call \<Rightarrow> 's network world \<Rightarrow>
    's network world option" where
  "net_call ops cfg i f w = (let lim = wd_limit w; r = wd_rest w in do {
     (ins, chs) \<leftarrow> read_ports ops cfg lim (nc_ins cfg i) (nw_chans r);
     let (v, outs) = nc_body cfg i f lim ins (nw_vars r i);
     chs \<leftarrow> write_ports ops cfg lim outs (nc_outs cfg i) chs;
     Some (w\<lparr>wd_rest := \<lparr>nw_chans = chs, nw_vars = (nw_vars r)(i := v)\<rparr>\<rparr>)
   })"

text \<open>\<^verbatim>\<open>commExec\<close> of an input and of an output port.\<close>

definition port_commExec :: "(gval, 's) chan_ops \<Rightarrow> net_conf \<Rightarrow> nat \<Rightarrow> nat \<Rightarrow> 's list \<Rightarrow> 's list option" where
  "port_commExec ops cfg p n chs = (case nc_end cfg p of
     Reads c \<Rightarrow> do { s \<leftarrow> co_consume ops n (chs ! c); Some (chs[c := s]) }
   | Writes c \<Rightarrow> do { s \<leftarrow> co_produce ops n (chs ! c); Some (chs[c := s]) })"

definition net_lib :: "(gval, 's) chan_ops \<Rightarrow> net_conf \<Rightarrow> nat \<Rightarrow> 's network world_lib" where
  "net_lib ops cfg i = \<lparr>wl_view = net_view ops cfg i, wl_call = net_call ops cfg i, wl_reset = (\<lambda>w. w),
     wl_commExec = (\<lambda>p n w. do {
       chs \<leftarrow> port_commExec ops cfg p n (nw_chans (wd_rest w));
       Some (w\<lparr>wd_rest := (wd_rest w)\<lparr>nw_chans := chs\<rparr>\<rparr>)
     }),
     wl_hook = (\<lambda>h src a dest w. w)\<rparr>"

lemma net_lib_simps [simp]:
  "wl_view (net_lib ops cfg i) = net_view ops cfg i" "wl_call (net_lib ops cfg i) = net_call ops cfg i"
  "wl_hook (net_lib ops cfg i) h src a dest w = w"
  by (simp_all add: net_lib_def)

lemma net_view_law: "view_law (net_lib ops cfg i)"
  by (simp add: view_law_def net_view_def)

section \<open>What the actors rely on\<close>

text \<open>
  The tokens that can be read, the free places, the amounts for which events have been asked for, and
  \<open>cs_staged s ts s'\<close>: in \<open>s'\<close> the tokens \<open>ts\<close> are written behind those of \<open>s\<close>, but not produced yet.
\<close>

record ('a, 's) chan_spec =
  cs_inv :: "'s \<Rightarrow> bool"
  cs_toks :: "'s \<Rightarrow> 'a list"
  cs_room :: "'s \<Rightarrow> nat"
  cs_data :: "'s \<Rightarrow> nat set"
  cs_space :: "'s \<Rightarrow> nat set"
  cs_staged :: "'s \<Rightarrow> 'a list \<Rightarrow> 's \<Rightarrow> bool"

text \<open>\<open>s'\<close> is \<open>s\<close> less its first \<open>k\<close> tokens and with \<open>ts\<close> behind the others.\<close>

definition chan_step :: "('a, 's) chan_spec \<Rightarrow> 's \<Rightarrow> nat \<Rightarrow> 'a list \<Rightarrow> 's \<Rightarrow> bool" where
  "chan_step S s k ts s' \<longleftrightarrow> cs_inv S s' \<and> cs_toks S s' = drop k (cs_toks S s) @ ts \<and>
     cs_room S s' = cs_room S s + k - length ts \<and> cs_data S s' = cs_data S s \<and> cs_space S s' = cs_space S s"

locale flow_channel =
  fixes ops :: "('a, 's) chan_ops" and S :: "('a, 's) chan_spec"
  assumes data_event: "cs_inv S s \<Longrightarrow> n \<in> cs_data S s \<Longrightarrow> co_dataEvent ops n s \<longleftrightarrow> n \<le> length (cs_toks S s)"
    and space_event: "cs_inv S s \<Longrightarrow> n \<in> cs_space S s \<Longrightarrow> co_spaceEvent ops n s \<longleftrightarrow> n \<le> cs_room S s"
    and read: "cs_inv S s \<Longrightarrow> k < limit \<Longrightarrow> k < length (cs_toks S s) \<Longrightarrow> co_read ops limit k s = Some (cs_toks S s ! k, s)"
    and consume: "cs_inv S s \<Longrightarrow> n \<le> length (cs_toks S s) \<Longrightarrow> \<exists>s'. co_consume ops n s = Some s' \<and> chan_step S s n [] s'"
    and stage: "cs_inv S s \<Longrightarrow> cs_staged S s [] s"
    and staged: "cs_staged S s ts s' \<Longrightarrow> chan_step S s 0 [] s'"
    and rewrite: "cs_staged S s ts s' \<Longrightarrow> length us \<le> cs_room S s \<Longrightarrow>
      \<exists>s''. co_write ops (length us) us s' = Some s'' \<and> cs_staged S s us s''"
    and produce: "cs_staged S s ts s' \<Longrightarrow> \<exists>s''. co_produce ops (length ts) s' = Some s'' \<and> chan_step S s 0 ts s''"

section \<open>The FIFO as provider\<close>

definition fifo_flow :: "math_lib \<Rightarrow> 'e event_lib \<Rightarrow> ('a, ('a, 'e) fifo_chan) chan_spec" where
  "fifo_flow L E = \<lparr>cs_inv = (\<lambda>c. mg_laws L \<and> event_laws E \<and> fifo_inv E c \<and> sp_C (fifo_abs c) = 0 \<and> sp_P (fifo_abs c) = []),
     cs_toks = (\<lambda>c. sp_V (fifo_abs c)), cs_room = (\<lambda>c. depthCount c - spec_used (fifo_abs c)),
     cs_data = (\<lambda>c. set (map fst (emmData c))), cs_space = (\<lambda>c. set (map fst (emmSpace c))),
     cs_staged = (\<lambda>c ts c1. mg_laws L \<and> event_laws E \<and> fifo_inv E c \<and> sp_C (fifo_abs c) = 0 \<and> sp_P (fifo_abs c) = [] \<and>
       qws_inv c1 \<and> length ts \<le> area_F (frv_areas c) \<and> used_cells c1 = used_cells c \<and>
       take (length ts) (drop (length (used_cells c)) (ring_cells c1)) = map Some ts \<and> (\<exists>st. c1 = c\<lparr>storage := st\<rparr>))\<rparr>"

text \<open>An operation of the FIFO that the specification allows.\<close>

lemma fifo_allowed:
  assumes "mg_laws L" "event_laws E" "fifo_inv E c" "spec_op (depthCount c) (initialTokens c) op (fifo_abs c) = Some s"
  shows "\<exists>c'. fifo_step L E D op c = Some c' \<and> fifo_inv E c' \<and> fifo_abs c' = s \<and> same_chan c c'"
  using fifo_step_implements [OF assms(1-3), of D op] assms(4)
  by (cases "fifo_step L E D op c") (auto simp: implements_None implements_Some)

lemma fifo_used_room:
  assumes "fifo_inv E c"
  shows "depthCount c - spec_used (fifo_abs c) = area_F (frv_areas c)" "spec_used (fifo_abs c) \<le> depthCount c"
  using fifo_abs_used(3) [of c] assms by (auto simp: fifo_inv_def)

lemma same_chan_keys: "same_chan c c' \<Longrightarrow> set (map fst (emmData c')) = set (map fst (emmData c)) \<and>
    set (map fst (emmSpace c')) = set (map fst (emmSpace c)) \<and> depthCount c' = depthCount c"
  by (simp only: same_chan_def)

lemma fifo_flow_consume:
  assumes "cs_inv (fifo_flow L E) c" "n \<le> length (cs_toks (fifo_flow L E) c)"
  shows "\<exists>c'. outlet_commExec L E n c = Some c' \<and> chan_step (fifo_flow L E) c n [] c'"
proof -
  have a: "mg_laws L" "event_laws E" "fifo_inv E c" "sp_C (fifo_abs c) = 0" "sp_P (fifo_abs c) = []"
    "n \<le> length (sp_V (fifo_abs c))" using assms by (simp_all add: fifo_flow_def)
  obtain c1 where c1: "outlet_commStart L E n c = Some c1" "fifo_inv E c1" "same_chan c c1"
    "fifo_abs c1 = (fifo_abs c)\<lparr>sp_C := n, sp_V := drop n (sp_V (fifo_abs c))\<rparr>"
    using fifo_allowed [OF a(1-3), of "GetStart n" _ None] a(4,6) by fastforce
  have "spec_op (depthCount c1) (initialTokens c1) (GetFinish n False) (fifo_abs c1) = Some (fifo_abs c1\<lparr>sp_C := 0\<rparr>)"
    by (simp add: c1(4))
  from fifo_allowed [OF a(1,2) c1(2) this, of None] obtain c2 where c2: "outlet_commFinish L E n False c1 = Some c2"
    "fifo_inv E c2" "same_chan c1 c2" "fifo_abs c2 = fifo_abs c1\<lparr>sp_C := 0\<rparr>" by auto
  have "chan_step (fifo_flow L E) c n [] c2"
    using a c1(4) c2(2,4) same_chan_keys [OF c1(3)] same_chan_keys [OF c2(3)]
    by (simp add: chan_step_def fifo_flow_def spec_used_def)
       (use fifo_used_room(2) [OF a(3)] in \<open>simp add: spec_used_def\<close>)
  then show ?thesis using c1(1) c2(1) by (simp add: outlet_commExec_def)
qed

text \<open>Producing staged tokens.\<close>

lemma staged_commStart:
  fixes c c1 :: "('a, 'e) fifo_chan"
  assumes "cs_staged (fifo_flow L E) c ts c1"
  shows "\<exists>c2. entry_commStart L E (length ts) c1 = Some c2 \<and> fifo_inv E c2 \<and> same_chan c c2 \<and>
    fifo_abs c2 = (fifo_abs c)\<lparr>sp_P := ts\<rparr>"
proof -
  have a: "mg_laws L" "event_laws E" "fifo_inv E c" "sp_P (fifo_abs c) = []" "qws_inv c1" "length ts \<le> area_F (frv_areas c)"
    "used_cells c1 = used_cells c" "take (length ts) (drop (length (used_cells c)) (ring_cells c1)) = map Some ts"
    using assms by (simp_all add: fifo_flow_def)
  obtain st where c1: "c1 = c\<lparr>storage := st\<rparr>" using assms by (auto simp: fifo_flow_def)
  have q: "qws_inv c" using a(3) by (simp add: fifo_inv_def)
  have areas: "frv_areas c1 = frv_areas c" unfolding c1 by (rule storage_parts)
  let ?c2 = "c1\<lparr>tokenId := tokenId c1 + of_nat (length ts)\<rparr>"
  obtain c3 where w: "frv_wpp L (length ts) ?c2 = Some c3" "qws_inv c3"
    "frv_areas c3 = (frv_areas c)\<lparr>area_P := area_P (frv_areas c) + length ts, area_F := area_F (frv_areas c) - length ts\<rparr>"
    "used_cells c3 = used_cells c @ map Some ts" and c3: "c3 = ?c2\<lparr>windex := windex c3\<rparr>"
    using write_wpp_cells [OF a(1) q, of ?c2 "length ts" ts] a areas by auto
  have same: "emmData c3 = emmData c" "emmSpace c3 = emmSpace c" "depthCount c3 = depthCount c"
      "initialTokens c3 = initialTokens c"
    by (subst c3, simp add: c1 depthCount_def)+
  have f: "frv_freeCount L c3 = area_F (frv_areas c) - length ts"
    using frv_area_counts(2) [OF a(1) qws_inv_frv [OF w(2)]] w(3) by simp
  have "emm_ok E (area_F (frv_areas c) - length ts)
      (decreasedCount E (area_F (frv_areas c) - length ts) (emmSpace c))"
    using a(2,3) by (intro decreasedCount_ok) (auto simp: fifo_inv_def)
  then have "fifo_inv E (c3\<lparr>emmSpace := decreasedCount E (frv_freeCount L c3) (emmSpace c3)\<rparr>)"
    using w a(3) same f by (auto simp: fifo_inv_def)
  moreover have "fifo_abs c3 = (fifo_abs c)\<lparr>sp_P := sp_P (fifo_abs c) @ ts\<rparr>"
    using w used_cells_areas [OF q] by (simp add: fifo_abs_def o_def)
  ultimately show ?thesis using w(1) same a(4) by (simp add: entry_commStart_def same_chan_def)
qed

lemma fifo_flow_produce:
  fixes c c1 :: "('a, 'e) fifo_chan"
  assumes "cs_staged (fifo_flow L E) c ts c1"
  shows "\<exists>c2. entry_commExec L E D (length ts) c1 = Some c2 \<and> chan_step (fifo_flow L E) c 0 ts c2"
proof -
  have a: "mg_laws L" "event_laws E" "fifo_inv E c" "sp_C (fifo_abs c) = 0" "sp_P (fifo_abs c) = []"
    using assms by (simp_all add: fifo_flow_def)
  obtain c2 where c2: "entry_commStart L E (length ts) c1 = Some c2" "fifo_inv E c2" "same_chan c c2"
    "fifo_abs c2 = (fifo_abs c)\<lparr>sp_P := ts\<rparr>" using staged_commStart [OF assms] by blast
  have "spec_op (depthCount c2) (initialTokens c2) (PutFinish (length ts) False) (fifo_abs c2) =
      Some ((fifo_abs c)\<lparr>sp_V := sp_V (fifo_abs c) @ ts\<rparr>)" by (simp add: c2(4) a(5))
  from fifo_allowed [OF a(1,2) c2(2) this, of D] obtain c3 where c3: "entry_commFinish L E D (length ts) False c2 = Some c3"
    "fifo_inv E c3" "same_chan c2 c3" "fifo_abs c3 = (fifo_abs c)\<lparr>sp_V := sp_V (fifo_abs c) @ ts\<rparr>" by auto
  have "chan_step (fifo_flow L E) c 0 ts c3"
    using a c3(2,4) same_chan_keys [OF c2(3)] same_chan_keys [OF c3(3)]
    by (simp add: chan_step_def fifo_flow_def spec_used_def)
  then show ?thesis using c2(1) c3(1) by (simp add: entry_commExec_def)
qed

lemma chan_step_room:
  assumes "qws_inv c1" "used_cells c1 = used_cells c" "c1 = c\<lparr>storage := st\<rparr>" "cs_inv (fifo_flow L E) (c :: ('a, 'e) fifo_chan)"
  shows "chan_step (fifo_flow L E) c 0 [] c1"
proof -
  have "frv_areas c1 = frv_areas c" unfolding assms(3) by (rule storage_parts)
  then have "fifo_abs c1 = fifo_abs c" "fifo_inv E c1" "depthCount c1 = depthCount c"
    using assms by (simp_all add: fifo_abs_def fifo_inv_def fifo_flow_def depthCount_def)
  moreover have "emmData c1 = emmData c" "emmSpace c1 = emmSpace c" by (simp_all add: assms(3))
  ultimately show ?thesis using assms(4) by (simp add: chan_step_def fifo_flow_def)
qed

lemma fifo_flow_write:
  fixes c c1 :: "('a, 'e) fifo_chan"
  assumes "cs_staged (fifo_flow L E) c ts c1" "length us \<le> cs_room (fifo_flow L E) c"
  shows "\<exists>c2. write_tokens (length us) 0 us c1 = Some c2 \<and> cs_staged (fifo_flow L E) c us c2"
proof -
  have a: "fifo_inv E c" "qws_inv c1" "used_cells c1 = used_cells c" using assms(1) by (simp_all add: fifo_flow_def)
  obtain st where c1: "c1 = c\<lparr>storage := st\<rparr>" using assms(1) by (auto simp: fifo_flow_def)
  have areas: "frv_areas c1 = frv_areas c" unfolding c1 by (rule storage_parts)
  have len: "length us \<le> area_F (frv_areas c)"
    using assms(2) fifo_used_room(1) [OF a(1)] by (simp add: fifo_flow_def)
  obtain c2 st2 where "write_tokens (length us) 0 us c1 = Some c2" "qws_inv c2" "used_cells c2 = used_cells c1"
    "take (length us) (drop (length (used_cells c1)) (ring_cells c2)) = map Some us" "c2 = c1\<lparr>storage := st2\<rparr>"
    using write_tokens_cells [OF a(2), of 0 us "length us"] len areas by auto
  then show ?thesis using assms(1) a len c1 by (auto simp: fifo_flow_def)
qed

lemma fifo_flow_read:
  fixes c :: "('a, 'e) fifo_chan"
  assumes "cs_inv (fifo_flow L E) c" "k < limit" "k < length (cs_toks (fifo_flow L E) c)"
  shows "read_token D limit k c = Some (cs_toks (fifo_flow L E) c ! k, c)"
proof -
  have inv: "fifo_inv E c" "qws_inv c" and k: "k < length (sp_V (fifo_abs c))"
    using assms by (simp_all add: fifo_flow_def fifo_inv_def)
  have len: "k < length (used_cells c)" using k by (simp add: fifo_abs_def)
  have "used_cells c ! k \<in> set (used_cells c)" using len by (rule nth_mem)
  then obtain t where t: "used_cells c ! k = Some t" using inv(1) unfolding fifo_inv_def by blast
  moreover have "cs_toks (fifo_flow L E) c ! k = t" using k t by (simp add: fifo_flow_def fifo_abs_def)
  ultimately show ?thesis using read_token_cell [OF inv(2) assms(2) len t] by simp
qed

interpretation fifo_net: flow_channel "fifo_ops L E D" "fifo_flow L E"
  for L and E :: "'b event_lib" and D :: "'a option"
proof unfold_locales
  fix s :: "('a, 'b) fifo_chan" and n assume i: "cs_inv (fifo_flow L E) s"
  then have inv: "fifo_inv E s" "qws_inv s" by (simp_all add: fifo_flow_def fifo_inv_def)
  show "co_dataEvent (fifo_ops L E D) n s \<longleftrightarrow> n \<le> length (cs_toks (fifo_flow L E) s)" if "n \<in> cs_data (fifo_flow L E) s"
    using event_active_ok [of E "area_V (frv_areas s)" "emmData s" n] that inv fifo_abs_used(1) [OF inv(2)]
    by (simp add: fifo_ops_def fifo_flow_def fifo_inv_def)
  show "co_spaceEvent (fifo_ops L E D) n s \<longleftrightarrow> n \<le> cs_room (fifo_flow L E) s" if "n \<in> cs_space (fifo_flow L E) s"
    using event_active_ok [of E "area_F (frv_areas s)" "emmSpace s" n] that inv fifo_used_room(1) [OF inv(1)]
    by (simp add: fifo_ops_def fifo_flow_def fifo_inv_def)
  show "\<exists>s'. co_consume (fifo_ops L E D) n s = Some s' \<and> chan_step (fifo_flow L E) s n [] s'"
    if "n \<le> length (cs_toks (fifo_flow L E) s)"
    using fifo_flow_consume [OF i that] by (simp add: fifo_ops_def)
  show "cs_staged (fifo_flow L E) s [] s"
    using i inv by (simp add: fifo_flow_def) (metis qws.surjective qws.update_convs(1))
next
  fix s :: "('a, 'b) fifo_chan" and k limit
  assume "cs_inv (fifo_flow L E) s" "k < limit" "k < length (cs_toks (fifo_flow L E) s)"
  then show "co_read (fifo_ops L E D) limit k s = Some (cs_toks (fifo_flow L E) s ! k, s)"
    using fifo_flow_read by (simp add: fifo_ops_def)
next
  fix s s' :: "('a, 'b) fifo_chan" and ts us :: "'a list" assume st: "cs_staged (fifo_flow L E) s ts s'"
  then obtain st where s': "s' = s\<lparr>storage := st\<rparr>" by (auto simp: fifo_flow_def)
  have "cs_inv (fifo_flow L E) s" "qws_inv s'" "used_cells s' = used_cells s" using st by (simp_all add: fifo_flow_def)
  then show "chan_step (fifo_flow L E) s 0 [] s'" using chan_step_room s' by blast
  show "\<exists>s''. co_write (fifo_ops L E D) (length us) us s' = Some s'' \<and> cs_staged (fifo_flow L E) s us s''"
    if "length us \<le> cs_room (fifo_flow L E) s" using fifo_flow_write [OF st that] by (simp add: fifo_ops_def)
  show "\<exists>s''. co_produce (fifo_ops L E D) (length ts) s' = Some s'' \<and> chan_step (fifo_flow L E) s 0 ts s''"
    using fifo_flow_produce [OF st] by (simp add: fifo_ops_def)
qed

end
