(* ===== verification/Network_Firing.thy ===== *)
theory Network_Firing
  imports Dataflow_Network
begin

text \<open>
  What a firing does in a network: when a transition is enabled in terms of tokens, places and the values of
  its guard, that it then runs without hitting an assertion, and what it does to the channels.  Firings of
  different actors commute.
\<close>

section \<open>Well-formed networks\<close>

definition node_ports :: "net_conf \<Rightarrow> nat \<Rightarrow> nat set" where
  "node_ports cfg i = set (nc_ins cfg i) \<union> set (nc_outs cfg i)"

text \<open>
  Channels have one reader and one writer, which are different nodes; an action writes as many tokens to a
  port as its limit announces.
\<close>

definition net_wf :: "net_conf \<Rightarrow> nat \<Rightarrow> nat \<Rightarrow> bool" where
  "net_wf cfg nn nch \<longleftrightarrow>
     (\<forall>i < nn. \<forall>p \<in> set (nc_ins cfg i). \<exists>c < nch. nc_end cfg p = Reads c) \<and>
     (\<forall>i < nn. \<forall>p \<in> set (nc_outs cfg i). \<exists>c < nch. nc_end cfg p = Writes c) \<and>
     (\<forall>i < nn. \<forall>j < nn. \<forall>p \<in> node_ports cfg i. \<forall>q \<in> node_ports cfg j. nc_end cfg p = nc_end cfg q \<longrightarrow> i = j \<and> p = q) \<and>
     (\<forall>i < nn. \<forall>p \<in> set (nc_ins cfg i). \<forall>q \<in> set (nc_outs cfg i). \<forall>c. nc_end cfg p = Reads c \<longrightarrow> nc_end cfg q \<noteq> Writes c) \<and>
     (\<forall>i < nn. distinct (nc_ins cfg i) \<and> distinct (nc_outs cfg i)) \<and>
     (\<forall>i < nn. \<forall>f lim ins v. \<forall>p \<in> set (nc_outs cfg i). length (snd (nc_body cfg i f lim ins v) p) = lim p)"

text \<open>
  A rule of node \<open>i\<close> after elaboration: it waits for the events of its requests, requests every port once, and
  its guard reads tokens it requires; it has an action if it produces tokens.
\<close>

definition rule_fits :: "net_conf \<Rightarrow> nat \<Rightarrow> rt_rule \<Rightarrow> bool" where
  "rule_fits cfg i r \<longleftrightarrow>
     (\<exists>es. rr_ioPatternWaiter r = Some es \<and>
        nc_event cfg ` set es = (\<lambda>(p, c, n). (p, n)) ` (set (rr_portIn r) \<union> set (rr_portOut r))) \<and>
     gevents (fr_guard r) = [] \<and> distinct (map fst (rr_portIn r @ rr_portOut r)) \<and>
     (\<forall>p c n. (p, c, n) \<in> set (rr_portIn r) \<longrightarrow> p \<in> set (nc_ins cfg i) \<and> c \<le> n) \<and>
     (\<forall>p c n. (p, c, n) \<in> set (rr_portOut r) \<longrightarrow> p \<in> set (nc_outs cfg i) \<and> (c = 0 \<or> c = n)) \<and>
     (\<forall>p n. (p, n) \<in> set (gtokens (fr_guard r)) \<longrightarrow> (\<exists>c k. (p, c, k) \<in> set (rr_portIn r) \<and> n < k)) \<and>
     (fr_action r = [] \<longrightarrow> (\<forall>p c n. (p, c, n) \<in> set (rr_portOut r) \<longrightarrow> c = 0))"

text \<open>What elaboration makes of a rule fits, if events are named by port and amount.\<close>

lemma elaborated_fits:
  assumes "mk_rt_rule isInput r = Some rr" "\<And>p n. nc_event cfg (blockEvent p n) = (p, n)" "gevents (fr_guard r) = []"
    and "distinct (map fst (gcomms (fr_guard r)))"
    and "\<forall>(p, c, n) \<in> set (gcomms (fr_guard r)). if isInput p then p \<in> set (nc_ins cfg i) else p \<in> set (nc_outs cfg i)"
    and "\<forall>(p, n) \<in> set (gtokens (fr_guard r)). isInput p \<and> (\<exists>c k. (p, c, k) \<in> set (gcomms (fr_guard r)) \<and> n < k)"
    and "fr_action r \<noteq> []"
  shows "rule_fits cfg i (rule_end_of_elaboration blockEvent rr)"
proof -
  note k = gvisit_collects [OF assms(1) [unfolded mk_rt_rule_def], simplified]
  let ?rr = "rule_end_of_elaboration blockEvent rr"
  have parts: "fr_guard ?rr = fr_guard r" "fr_action ?rr = fr_action r"
      "rr_portIn ?rr = filter (\<lambda>(p, c, n). isInput p) (gcomms (fr_guard r))"
      "rr_portOut ?rr = filter (\<lambda>(p, c, n). \<not> isInput p) (gcomms (fr_guard r))"
    using k by (simp_all add: rule_end_of_elaboration_def Let_def firing_rule.defs)
  have ok: "list_all (comm_ok isInput) (gcomms (fr_guard r))" using k by simp
  obtain es where es: "rr_ioPatternWaiter ?rr = Some es" "set es = (\<lambda>(p, c, n). blockEvent p n) ` set (gcomms (fr_guard r))"
    using elaborated_waiter [OF assms(1), of blockEvent] assms(3) by (auto simp: getIOPatternWaiter_def)
  have "nc_event cfg ` set es = (\<lambda>(p, c, n). (p, n)) ` set (gcomms (fr_guard r))"
    unfolding es(2) image_image using assms(2) by (auto intro!: image_cong)
  also have "set (gcomms (fr_guard r)) = set (rr_portIn ?rr) \<union> set (rr_portOut ?rr)" by (auto simp: parts)
  finally have w: "nc_event cfg ` set es = (\<lambda>(p, c, n). (p, n)) ` (set (rr_portIn ?rr) \<union> set (rr_portOut ?rr))" .
  have d: "distinct (map fst (rr_portIn ?rr @ rr_portOut ?rr))"
    using assms(4) by (auto simp: parts distinct_map_filter)
  have t: "\<forall>p n. (p, n) \<in> set (gtokens (fr_guard ?rr)) \<longrightarrow> (\<exists>c k. (p, c, k) \<in> set (rr_portIn ?rr) \<and> n < k)"
    using assms(6) by (fastforce simp: parts)
  have "\<forall>p c n. (p, c, n) \<in> set (rr_portIn ?rr) \<longrightarrow> p \<in> set (nc_ins cfg i) \<and> c \<le> n"
    "\<forall>p c n. (p, c, n) \<in> set (rr_portOut ?rr) \<longrightarrow> p \<in> set (nc_outs cfg i) \<and> (c = 0 \<or> c = n)"
    using ok assms(5) by (fastforce simp: parts list_all_iff comm_ok_def)+
  then show ?thesis
    unfolding rule_fits_def using w d t es(1) assms(3,7) by (simp add: parts(1,2))
qed

text \<open>The parts of these definitions.\<close>

lemma net_wf_ends:
  assumes "net_wf cfg nn nch" "i < nn"
  shows "p \<in> set (nc_ins cfg i) \<Longrightarrow> \<exists>c < nch. nc_end cfg p = Reads c"
    and "p \<in> set (nc_outs cfg i) \<Longrightarrow> \<exists>c < nch. nc_end cfg p = Writes c"
    and "p \<in> set (nc_outs cfg i) \<Longrightarrow> length (snd (nc_body cfg i f lim ins v) p) = lim p"
    and "distinct (nc_ins cfg i)" and "distinct (nc_outs cfg i)"
  using assms by (simp_all add: net_wf_def)

lemma net_wf_own:
  assumes "net_wf cfg nn nch" "i < nn" "j < nn" "p \<in> node_ports cfg i" "q \<in> node_ports cfg j" "nc_end cfg p = nc_end cfg q"
  shows "i = j" "p = q"
proof -
  have "\<forall>i < nn. \<forall>j < nn. \<forall>p \<in> node_ports cfg i. \<forall>q \<in> node_ports cfg j. nc_end cfg p = nc_end cfg q \<longrightarrow> i = j \<and> p = q"
    using assms(1) unfolding net_wf_def by (elim conjE)
  then show "i = j" "p = q" using assms(2-) by blast+
qed

lemma net_wf_no_loop:
  assumes "net_wf cfg nn nch" "i < nn" "p \<in> set (nc_ins cfg i)" "q \<in> set (nc_outs cfg i)" "nc_end cfg p = Reads c"
  shows "nc_end cfg q \<noteq> Writes c"
  using assms by (simp add: net_wf_def)

lemma rule_fits_waiter:
  "rule_fits cfg i r \<Longrightarrow> \<exists>es. rr_ioPatternWaiter r = Some es \<and>
     nc_event cfg ` set es = (\<lambda>(p, c, n). (p, n)) ` (set (rr_portIn r) \<union> set (rr_portOut r))"
  unfolding rule_fits_def by (elim conjE)

lemma rule_fits_ports:
  assumes "rule_fits cfg i r"
  shows "gevents (fr_guard r) = []" and "distinct (map fst (rr_portIn r @ rr_portOut r))"
    and "(p, c, n) \<in> set (rr_portIn r) \<Longrightarrow> p \<in> set (nc_ins cfg i) \<and> c \<le> n"
    and "(p, c, n) \<in> set (rr_portOut r) \<Longrightarrow> p \<in> set (nc_outs cfg i) \<and> (c = 0 \<or> c = n)"
    and "(p, n) \<in> set (gtokens (fr_guard r)) \<Longrightarrow> \<exists>c k. (p, c, k) \<in> set (rr_portIn r) \<and> n < k"
    and "(p, c, n) \<in> set (rr_portOut r) \<Longrightarrow> fr_action r = [] \<Longrightarrow> c = 0"
  using assms unfolding rule_fits_def by (elim conjE, blast)+

text \<open>The events a rule waits for have been asked for during elaboration.\<close>

definition end_registered :: "('a, 's) chan_spec \<Rightarrow> 's list \<Rightarrow> port_end \<Rightarrow> nat \<Rightarrow> bool" where
  "end_registered S chs e n = (case e of Reads c \<Rightarrow> n \<in> cs_data S (chs ! c) | Writes c \<Rightarrow> n \<in> cs_space S (chs ! c))"

definition rule_registered :: "('a, 's) chan_spec \<Rightarrow> net_conf \<Rightarrow> rt_rule \<Rightarrow> 's list \<Rightarrow> bool" where
  "rule_registered S cfg r chs \<longleftrightarrow>
     (\<forall>p c n. (p, c, n) \<in> set (rr_portIn r) \<union> set (rr_portOut r) \<longrightarrow> end_registered S chs (nc_end cfg p) n)"

definition net_ok :: "('a, 's) chan_spec \<Rightarrow> nat \<Rightarrow> 's network world \<Rightarrow> bool" where
  "net_ok S nch w \<longleftrightarrow> wd_limit w = (\<lambda>_. 0) \<and> length (nw_chans (wd_rest w)) = nch \<and>
     (\<forall>c < nch. cs_inv S (nw_chans (wd_rest w) ! c))"

section \<open>Enabled transitions\<close>

definition end_ready :: "('a, 's) chan_spec \<Rightarrow> 's list \<Rightarrow> port_end \<Rightarrow> nat \<Rightarrow> bool" where
  "end_ready S chs e n = (case e of Reads c \<Rightarrow> n \<le> length (cs_toks S (chs ! c)) | Writes c \<Rightarrow> n \<le> cs_room S (chs ! c))"

definition rule_ready :: "('a, 's) chan_spec \<Rightarrow> net_conf \<Rightarrow> rt_rule \<Rightarrow> 's list \<Rightarrow> bool" where
  "rule_ready S cfg r chs \<longleftrightarrow>
     (\<forall>p c n. (p, c, n) \<in> set (rr_portIn r) \<union> set (rr_portOut r) \<longrightarrow> end_ready S chs (nc_end cfg p) n)"

text \<open>The guard evaluated on the tokens of the channels.\<close>

definition token_env :: "(gval, 's) chan_spec \<Rightarrow> net_conf \<Rightarrow> nat \<Rightarrow> rt_rule \<Rightarrow> 's network \<Rightarrow> genv" where
  "token_env S cfg i r x = \<lparr>ge_var = nw_vars x i, ge_mem = (\<lambda>f ps. nc_member cfg i f ps (nw_vars x i)), ge_event = (\<lambda>_. True),
     ge_limit = commSetup r (\<lambda>_. 0),
     ge_token = (\<lambda>p n. case nc_end cfg p of Reads c \<Rightarrow> Some (cs_toks S (nw_chans x ! c) ! n) | Writes c \<Rightarrow> None)\<rparr>"

definition guard_holds :: "(gval, 's) chan_spec \<Rightarrow> net_conf \<Rightarrow> nat \<Rightarrow> rt_rule \<Rightarrow> 's network \<Rightarrow> bool" where
  "guard_holds S cfg i r x \<longleftrightarrow> geval (token_env S cfg i r x) (fr_guard r) \<bind> to_bool = Some True"

text \<open>A guard only depends on the tokens it reads within the limits.\<close>

lemma geval_tokens_cong:
  "(\<And>p n. (p, n) \<in> set (gtokens e) \<Longrightarrow> (n < ge_limit \<Gamma> p) = (n < ge_limit \<Delta> p) \<and>
      (n < ge_limit \<Gamma> p \<longrightarrow> ge_token \<Gamma> p n = ge_token \<Delta> p n)) \<Longrightarrow>
   (\<And>x. x \<in> set (gevents e) \<Longrightarrow> ge_event \<Gamma> x = ge_event \<Delta> x) \<Longrightarrow>
   ge_var \<Gamma> = ge_var \<Delta> \<Longrightarrow> ge_mem \<Gamma> = ge_mem \<Delta> \<Longrightarrow> geval \<Gamma> e = geval \<Delta> e"
proof (induction e)
  case (GBinOp op a b)
  have "geval \<Gamma> a = geval \<Delta> a" "geval \<Gamma> b = geval \<Delta> b"
    using GBinOp by simp_all
  then show ?case by (simp only: geval.simps)
next
  case (GToken p n)
  then show ?case by (cases "n < ge_limit \<Gamma> p") auto
qed auto

lemma commSetup_ports:
  assumes "distinct (map fst (rr_portIn r @ rr_portOut r))"
  shows "(p, c, n) \<in> set (rr_portIn r) \<Longrightarrow> commSetup r lim p = n"
    and "(p, c, n) \<in> set (rr_portOut r) \<Longrightarrow> commSetup r lim p = c"
    and "p \<notin> fst ` set (rr_portIn r) \<Longrightarrow> p \<notin> fst ` set (rr_portOut r) \<Longrightarrow> commSetup r lim p = lim p"
proof -
  have d: "distinct (map fst (rr_portIn r))" "distinct (map fst (rr_portOut r))"
    "fst ` set (rr_portIn r) \<inter> fst ` set (rr_portOut r) = {}" using assms by auto
  show "commSetup r lim p = n" if p: "(p, c, n) \<in> set (rr_portIn r)"
  proof -
    have "p \<notin> fst ` set (rr_portOut r)" using d(3) p by force
    from foldl_upd_other [OF this, of "\<lambda>c n. c"] foldl_upd_same [OF d(1) p, of "\<lambda>c n. n"]
    show ?thesis by (simp add: commSetup_def)
  qed
  show "commSetup r lim p = c" if "(p, c, n) \<in> set (rr_portOut r)"
    using foldl_upd_same [OF d(2) that, of "\<lambda>c n. c"] by (simp add: commSetup_def)
  show "commSetup r lim p = lim p" if "p \<notin> fst ` set (rr_portIn r)" "p \<notin> fst ` set (rr_portOut r)"
    using foldl_upd_other [OF that(1), of "\<lambda>c n. n"] foldl_upd_other [OF that(2), of "\<lambda>c n. c"] by (simp add: commSetup_def)
qed

lemma commReset_commSetup: "commReset r (commSetup r (\<lambda>_. 0)) = (\<lambda>_. 0)"
proof
  fix p
  have u: "foldl (\<lambda>lim (p, c, n). lim(p := 0)) lim xs p = (if p \<in> fst ` set xs then 0 else lim p)" for xs :: "(nat \<times> nat \<times> nat) list" and lim
    by (induction xs arbitrary: lim) auto
  show "commReset r (commSetup r (\<lambda>_. 0)) p = 0"
  proof (cases "p \<in> fst ` set (rr_portIn r) \<or> p \<in> fst ` set (rr_portOut r)")
    case False
    then show ?thesis
      using foldl_upd_other [of p "rr_portIn r" "\<lambda>c n. n"] foldl_upd_other [of p "rr_portOut r" "\<lambda>c n. c"]
      by (simp add: commReset_def commSetup_def u)
  qed (auto simp: commReset_def u)
qed

text \<open>The channels of a network carry the values that guards compute with.\<close>

locale node_channel = flow_channel ops S for ops :: "(gval, 's) chan_ops" and S :: "(gval, 's) chan_spec"
begin

lemma port_event:
  assumes "\<forall>c < length chs. cs_inv S (chs ! c)" "nc_end cfg p = Reads c \<or> nc_end cfg p = Writes c" "c < length chs"
    and "end_registered S chs (nc_end cfg p) n"
  shows "port_blockEvent ops cfg chs (p, n) \<longleftrightarrow> end_ready S chs (nc_end cfg p) n"
proof -
  have "cs_inv S (chs ! c)" using assms(1,3) by blast
  then show ?thesis
    using data_event [of "chs ! c" n] space_event [of "chs ! c" n] assms(2,4)
    by (elim disjE) (simp_all add: port_blockEvent_def end_ready_def end_registered_def)
qed

lemma rule_events:
  assumes "net_wf cfg nn nch" "i < nn" "rule_fits cfg i r" "length chs = nch" "\<forall>c < nch. cs_inv S (chs ! c)"
    and "rule_registered S cfg r chs" "rr_ioPatternWaiter r = Some es"
  shows "list_all (\<lambda>e. port_blockEvent ops cfg chs (nc_event cfg e)) es \<longleftrightarrow> rule_ready S cfg r chs"
proof -
  let ?ps = "set (rr_portIn r) \<union> set (rr_portOut r)"
  have ev: "port_blockEvent ops cfg chs (p, n) \<longleftrightarrow> end_ready S chs (nc_end cfg p) n" if "(p, c, n) \<in> ?ps" for p c n
  proof -
    have "p \<in> set (nc_ins cfg i) \<or> p \<in> set (nc_outs cfg i)"
      using rule_fits_ports(3,4) [OF assms(3)] that by blast
    then obtain k where k: "nc_end cfg p = Reads k \<or> nc_end cfg p = Writes k" "k < nch"
      using net_wf_ends(1,2) [OF assms(1,2)] by blast
    have "end_registered S chs (nc_end cfg p) n" using assms(6) that unfolding rule_registered_def by blast
    from port_event [OF _ k(1) _ this] show ?thesis using k(2) assms(4,5) by simp
  qed
  have "list_all (\<lambda>e. port_blockEvent ops cfg chs (nc_event cfg e)) es \<longleftrightarrow>
      (\<forall>x \<in> nc_event cfg ` set es. port_blockEvent ops cfg chs x)" by (simp add: list_all_iff)
  also have "nc_event cfg ` set es = (\<lambda>(p, c, n). (p, n)) ` ?ps" using rule_fits_waiter [OF assms(3)] assms(7) by simp
  also have "(\<forall>x \<in> (\<lambda>(p, c, n). (p, n)) ` ?ps. port_blockEvent ops cfg chs x) \<longleftrightarrow> rule_ready S cfg r chs"
    unfolding rule_ready_def ball_simps(9) using ev by (simp only: Ball_def split_paired_All prod.case) blast
  finally show ?thesis .
qed

lemma guard_tokens:
  assumes "net_wf cfg nn nch" "i < nn" "rule_fits cfg i r" "net_ok S nch w" "rule_ready S cfg r (nw_chans (wd_rest w))"
  shows "geval (guard_env (net_lib ops cfg i) (w\<lparr>wd_limit := commSetup r (wd_limit w)\<rparr>)) (fr_guard r) =
    geval (token_env S cfg i r (wd_rest w)) (fr_guard r)"
proof (rule geval_tokens_cong)
  let ?\<Gamma> = "guard_env (net_lib ops cfg i) (w\<lparr>wd_limit := commSetup r (wd_limit w)\<rparr>)" and ?\<Delta> = "token_env S cfg i r (wd_rest w)"
  have l: "wd_limit w = (\<lambda>_. 0)" using assms(4) by (simp add: net_ok_def)
  show "ge_var ?\<Gamma> = ge_var ?\<Delta>" "ge_mem ?\<Gamma> = ge_mem ?\<Delta>" by (simp_all add: guard_env_def net_view_def token_env_def Let_def)
  show "ge_event ?\<Gamma> x = ge_event ?\<Delta> x" if "x \<in> set (gevents (fr_guard r))" for x
    using that rule_fits_ports(1) [OF assms(3)] by simp
  fix p n assume "(p, n) \<in> set (gtokens (fr_guard r))"
  then obtain c k where pk: "(p, c, k) \<in> set (rr_portIn r)" "n < k" using rule_fits_ports(5) [OF assms(3)] by blast
  then have "p \<in> set (nc_ins cfg i)" using rule_fits_ports(3) [OF assms(3)] by blast
  then obtain ch where ch: "nc_end cfg p = Reads ch" "ch < nch" using net_wf_ends(1) [OF assms(1,2)] by blast
  have "k \<le> length (cs_toks S (nw_chans (wd_rest w) ! ch))"
    using assms(5) pk(1) ch(1) unfolding rule_ready_def end_ready_def by (metis UnI1 port_end.case(1))
  then have "port_getValueAt ops cfg (nw_chans (wd_rest w)) p n = Some (cs_toks S (nw_chans (wd_rest w) ! ch) ! n)"
    using read [of "nw_chans (wd_rest w) ! ch" n "Suc n"] assms(4) ch pk(2) by (simp add: port_getValueAt_def net_ok_def)
  then show "(n < ge_limit ?\<Gamma> p) = (n < ge_limit ?\<Delta> p) \<and> (n < ge_limit ?\<Gamma> p \<longrightarrow> ge_token ?\<Gamma> p n = ge_token ?\<Delta> p n)"
    using ch(1) by (simp add: guard_env_def net_view_def token_env_def Let_def l)
qed

lemma enabled_iff:
  assumes "net_wf cfg nn nch" "i < nn" "rule_fits cfg i (tr_rule t)" "net_ok S nch w"
    and "rule_registered S cfg (tr_rule t) (nw_chans (wd_rest w))"
  shows "enabled (net_lib ops cfg i) w t \<longleftrightarrow>
    rule_ready S cfg (tr_rule t) (nw_chans (wd_rest w)) \<and> guard_holds S cfg i (tr_rule t) (wd_rest w)"
proof -
  obtain es where es: "rr_ioPatternWaiter (tr_rule t) = Some es" using rule_fits_waiter [OF assms(3)] by blast
  have chs: "length (nw_chans (wd_rest w)) = nch" "\<forall>c < nch. cs_inv S (nw_chans (wd_rest w) ! c)"
    using assms(4) by (simp_all add: net_ok_def)
  have "waiter_active (net_lib ops cfg i) w es \<longleftrightarrow> rule_ready S cfg (tr_rule t) (nw_chans (wd_rest w))"
    using rule_events [OF assms(1-3) chs assms(5) es] by (simp add: waiter_active_def net_view_def Let_def)
  then show ?thesis
    using guard_tokens [OF assms(1-4)]
    by (auto simp: enabled_def transition_check_alt getIOPatternWaiter_def es guard_holds_def option.map_comp o_def bind_eq_Some_iff
        split: option.splits)
qed

end

section \<open>Firing\<close>

text \<open>What a rule takes out of a channel and, with the tokens its actions wrote, puts into it.\<close>

definition taken :: "net_conf \<Rightarrow> rt_rule \<Rightarrow> nat \<Rightarrow> nat" where
  "taken cfg r c = sum_list (map (\<lambda>(p, k, n). if nc_end cfg p = Reads c then k else 0) (rr_portIn r))"

definition given :: "net_conf \<Rightarrow> rt_rule \<Rightarrow> (nat \<Rightarrow> gval list) \<Rightarrow> nat \<Rightarrow> gval list" where
  "given cfg r outs c = concat (map (\<lambda>(p, k, n). if nc_end cfg p = Writes c then outs p else []) (rr_portOut r))"

text \<open>The tokens an action sees, and what the actions compute from them.\<close>

definition port_tokens :: "(gval, 's) chan_spec \<Rightarrow> net_conf \<Rightarrow> nat list \<Rightarrow> (nat \<Rightarrow> nat) \<Rightarrow> 's list \<Rightarrow> nat \<Rightarrow> gval list" where
  "port_tokens S cfg ps lim chs p = (if p \<in> set ps then
     (case nc_end cfg p of Reads c \<Rightarrow> take (lim p) (cs_toks S (chs ! c)) | Writes c \<Rightarrow> []) else [])"

fun run_bodies :: "net_conf \<Rightarrow> nat \<Rightarrow> (nat \<Rightarrow> nat) \<Rightarrow> (nat \<Rightarrow> gval list) \<Rightarrow> func_call list \<Rightarrow>
    (string \<Rightarrow> gval) \<times> (nat \<Rightarrow> gval list) \<Rightarrow> (string \<Rightarrow> gval) \<times> (nat \<Rightarrow> gval list)" where
  "run_bodies cfg i lim ins [] x = x"
| "run_bodies cfg i lim ins (f # fs) x = run_bodies cfg i lim ins fs (nc_body cfg i f lim ins (fst x))"

definition computed :: "(gval, 's) chan_spec \<Rightarrow> net_conf \<Rightarrow> nat \<Rightarrow> rt_rule \<Rightarrow> 's network \<Rightarrow>
    (string \<Rightarrow> gval) \<times> (nat \<Rightarrow> gval list)" where
  "computed S cfg i r x = (let lim = commSetup r (\<lambda>_. 0) in
     run_bodies cfg i lim (port_tokens S cfg (nc_ins cfg i) lim (nw_chans x)) (fr_action r) (nw_vars x i, \<lambda>_. []))"

lemma run_bodies_length:
  assumes "net_wf cfg nn nch" "i < nn" "p \<in> set (nc_outs cfg i)" "length (snd x p) = lim p \<or> fs \<noteq> []"
  shows "length (snd (run_bodies cfg i lim ins fs x) p) = lim p"
  using assms(4)
proof (induction fs arbitrary: x)
  case (Cons f fs)
  have "length (snd (nc_body cfg i f lim ins (fst x)) p) = lim p"
    by (rule net_wf_ends(3) [OF assms(1-3)])
  then show ?case using Cons.IH by simp
qed simp

lemma computed_length:
  assumes "net_wf cfg nn nch" "i < nn" "rule_fits cfg i r" "p \<in> set (nc_outs cfg i)"
  shows "length (snd (computed S cfg i r x) p) = commSetup r (\<lambda>_. 0) p"
proof -
  note fits = rule_fits_ports [OF assms(3)]
  have "commSetup r (\<lambda>_. 0) p = 0 \<or> fr_action r \<noteq> []"
  proof (cases "p \<in> fst ` set (rr_portOut r)")
    case True
    then obtain c n where "(p, c, n) \<in> set (rr_portOut r)" by auto
    then show ?thesis using fits(6) commSetup_ports(2) [OF fits(2)] by metis
  next
    case False
    have "p \<notin> fst ` set (rr_portIn r)"
      using fits(3) net_wf_ends(1,2) [OF assms(1,2)] assms(4) by fastforce
    then show ?thesis using commSetup_ports(3) [OF fits(2) _ False] by simp
  qed
  then show ?thesis
    unfolding computed_def Let_def by (intro run_bodies_length [OF assms(1,2,4)]) auto
qed

lemma taken_none:
  fixes e :: "nat \<Rightarrow> bool" and ps :: "(nat \<times> nat \<times> nat) list"
  assumes "\<And>q. q \<in> fst ` set ps \<Longrightarrow> \<not> e q"
  shows "sum_list (map (\<lambda>(p, k, n). if e p then k else 0) ps) = (0 :: nat)"
    and "concat (map (\<lambda>(p, k, n). if e p then f p else []) ps) = []"
  using assms by (induction ps) auto

lemma taken_port:
  fixes e :: "nat \<Rightarrow> bool" and ps :: "(nat \<times> nat \<times> nat) list"
  assumes "(p, k, n) \<in> set ps" "distinct (map fst ps)" "\<And>q. q \<in> fst ` set ps \<Longrightarrow> e q \<longleftrightarrow> q = p"
  shows "sum_list (map (\<lambda>(p, k, n). if e p then k else 0) ps) = k"
    and "concat (map (\<lambda>(p, k, n). if e p then f p else []) ps) = f p"
proof -
  obtain xs ys where ps: "ps = xs @ (p, k, n) # ys" using split_list [OF assms(1)] by blast
  have "p \<notin> fst ` set xs" "p \<notin> fst ` set ys" using assms(2) unfolding ps by auto
  then have x: "\<And>q. q \<in> fst ` set xs \<Longrightarrow> \<not> e q" and y: "\<And>q. q \<in> fst ` set ys \<Longrightarrow> \<not> e q"
    using assms(3) unfolding ps by auto
  have "e p" using assms(3) [of p] unfolding ps by simp
  then show "sum_list (map (\<lambda>(p, k, n). if e p then k else 0) ps) = k"
    "concat (map (\<lambda>(p, k, n). if e p then f p else []) ps) = f p"
    unfolding ps by (simp_all add: taken_none [OF x] taken_none [OF y])
qed

text \<open>The channels a rule takes from or gives to are those its ports are bound to.\<close>

lemma rule_channels:
  assumes "net_wf cfg nn nch" "i < nn" "rule_fits cfg i r"
  shows "(p, k, n) \<in> set (rr_portIn r) \<Longrightarrow> nc_end cfg p = Reads c \<Longrightarrow> taken cfg r c = k \<and> given cfg r outs c = []"
    and "(p, k, n) \<in> set (rr_portOut r) \<Longrightarrow> nc_end cfg p = Writes c \<Longrightarrow> taken cfg r c = 0 \<and> given cfg r outs c = outs p"
proof -
  note fits = rule_fits_ports [OF assms(3)]
  have d: "distinct (map fst (rr_portIn r))" "distinct (map fst (rr_portOut r))" using fits(2) by auto
  have own: "p \<in> node_ports cfg i" if "p \<in> fst ` set (rr_portIn r) \<or> p \<in> fst ` set (rr_portOut r)" for p
    using fits(3,4) that by (auto simp: node_ports_def)
  have loop: "nc_end cfg q \<noteq> Writes c" if "(p, k, n) \<in> set (rr_portIn r)" "q \<in> fst ` set (rr_portOut r)" "nc_end cfg p = Reads c" for p k n q
    using net_wf_no_loop [OF assms(1,2), of p q c] fits(3,4) that by auto
  show "taken cfg r c = k \<and> given cfg r outs c = []" if p: "(p, k, n) \<in> set (rr_portIn r)" "nc_end cfg p = Reads c"
  proof -
    have "nc_end cfg q = Reads c \<longleftrightarrow> q = p" if "q \<in> fst ` set (rr_portIn r)" for q
      using net_wf_own(2) [OF assms(1,2,2) own own, of q p] that p by force
    then show ?thesis
      unfolding taken_def given_def
      using taken_port(1) [OF p(1) d(1), where e = "\<lambda>q. nc_end cfg q = Reads c"] loop [OF p(1) _ p(2)]
        taken_none(2) [where ps = "rr_portOut r" and e = "\<lambda>q. nc_end cfg q = Writes c" and f = outs] by blast
  qed
  show "taken cfg r c = 0 \<and> given cfg r outs c = outs p" if p: "(p, k, n) \<in> set (rr_portOut r)" "nc_end cfg p = Writes c"
  proof -
    have "nc_end cfg q = Writes c \<longleftrightarrow> q = p" if "q \<in> fst ` set (rr_portOut r)" for q
      using net_wf_own(2) [OF assms(1,2,2) own own, of q p] that p by force
    moreover have "nc_end cfg q \<noteq> Reads c" if q: "q \<in> fst ` set (rr_portIn r)" for q
    proof
      obtain k' n' where "(q, k', n') \<in> set (rr_portIn r)" using q by auto
      moreover assume "nc_end cfg q = Reads c"
      ultimately show False using loop [of q k' n' p] p by force
    qed
    ultimately show ?thesis
      unfolding taken_def given_def
      using taken_port(2) [OF p(1) d(2), where e = "\<lambda>q. nc_end cfg q = Writes c" and f = outs]
        taken_none(1) [where ps = "rr_portIn r" and e = "\<lambda>q. nc_end cfg q = Reads c"] by blast
  qed
qed

lemma rule_channels_none:
  assumes "\<And>p. p \<in> fst ` set (rr_portIn r) \<Longrightarrow> nc_end cfg p \<noteq> Reads c"
    and "\<And>p. p \<in> fst ` set (rr_portOut r) \<Longrightarrow> nc_end cfg p \<noteq> Writes c"
  shows "taken cfg r c = 0" "given cfg r outs c = []"
  unfolding taken_def given_def
  using assms taken_none(1) [where ps = "rr_portIn r" and e = "\<lambda>q. nc_end cfg q = Reads c"]
    taken_none(2) [where ps = "rr_portOut r" and e = "\<lambda>q. nc_end cfg q = Writes c" and f = outs] by blast+

text \<open>
  The channels while a rule of a node runs: those it writes have the tokens \<open>outs\<close> staged, the others are
  untouched.
\<close>

definition half_fired :: "('a, 's) chan_spec \<Rightarrow> net_conf \<Rightarrow> nat \<Rightarrow> (nat \<Rightarrow> 'a list) \<Rightarrow> 's list \<Rightarrow> 's list \<Rightarrow> bool" where
  "half_fired S cfg i outs chs chs' \<longleftrightarrow> length chs' = length chs \<and>
     (\<forall>p c. p \<in> set (nc_outs cfg i) \<longrightarrow> nc_end cfg p = Writes c \<longrightarrow> cs_staged S (chs ! c) (outs p) (chs' ! c)) \<and>
     (\<forall>c. (\<forall>p \<in> set (nc_outs cfg i). nc_end cfg p \<noteq> Writes c) \<longrightarrow> chs' ! c = chs ! c)"

text \<open>The limits of a node fit the channels.\<close>

definition limits_fit :: "('a, 's) chan_spec \<Rightarrow> net_conf \<Rightarrow> nat \<Rightarrow> (nat \<Rightarrow> nat) \<Rightarrow> 's list \<Rightarrow> bool" where
  "limits_fit S cfg i lim chs \<longleftrightarrow> (\<forall>p \<in> node_ports cfg i. end_ready S chs (nc_end cfg p) (lim p))"

lemma limits_fit_end: "limits_fit S cfg i lim chs \<Longrightarrow> p \<in> node_ports cfg i \<Longrightarrow> end_ready S chs (nc_end cfg p) (lim p)"
  by (simp add: limits_fit_def)

lemma ready_limits_fit:
  assumes "net_wf cfg nn nch" "i < nn" "rule_fits cfg i r" "rule_ready S cfg r chs"
  shows "limits_fit S cfg i (commSetup r (\<lambda>_. 0)) chs"
proof -
  note fits = rule_fits_ports [OF assms(3)]
  have mono: "end_ready S chs e k" if "end_ready S chs e n" "k \<le> n" for e k n
    using that by (auto simp: end_ready_def split: port_end.splits)
  have zero: "end_ready S chs e 0" for e by (simp add: end_ready_def split: port_end.splits)
  have "end_ready S chs (nc_end cfg p) (commSetup r (\<lambda>_. 0) p)" for p
  proof (cases "p \<in> fst ` set (rr_portIn r) \<or> p \<in> fst ` set (rr_portOut r)")
    case True
    then obtain c n where p: "(p, c, n) \<in> set (rr_portIn r) \<or> (p, c, n) \<in> set (rr_portOut r)" by fastforce
    then have "commSetup r (\<lambda>_. 0) p \<le> n"
      using commSetup_ports(1,2) [OF fits(2), of p c n] fits(4) [of p c n] by auto
    moreover have "end_ready S chs (nc_end cfg p) n" using assms(4) p unfolding rule_ready_def by blast
    ultimately show ?thesis using mono by blast
  qed (use commSetup_ports(3) [OF fits(2), of p "\<lambda>_. 0"] zero in auto)
  then show ?thesis by (simp add: limits_fit_def)
qed

context node_channel
begin

lemma read_from_tokens:
  "cs_inv S s \<Longrightarrow> i + k \<le> limit \<Longrightarrow> i + k \<le> length (cs_toks S s) \<Longrightarrow>
   read_from ops limit i k s = Some (take k (drop i (cs_toks S s)), s)"
proof (induction k arbitrary: i)
  case (Suc k)
  have "read_from ops limit (Suc i) k s = Some (take k (drop (Suc i) (cs_toks S s)), s)"
    using Suc.IH [of "Suc i"] Suc.prems by simp
  moreover have "take (Suc k) (drop i (cs_toks S s)) = cs_toks S s ! i # take k (drop (Suc i) (cs_toks S s))"
    using Suc.prems(3) by (simp add: Cons_nth_drop_Suc [symmetric])
  ultimately show ?case using read [of s i limit] Suc.prems by simp
qed simp

lemma read_ports_tokens:
  assumes "\<And>p. p \<in> set ps \<Longrightarrow> \<exists>c < length chs. nc_end cfg p = Reads c \<and> cs_inv S (chs ! c) \<and> lim p \<le> length (cs_toks S (chs ! c))"
  shows "read_ports ops cfg lim ps chs = Some (port_tokens S cfg ps lim chs, chs)"
  using assms
proof (induction ps)
  case (Cons p ps)
  obtain c where c: "c < length chs" "nc_end cfg p = Reads c" "cs_inv S (chs ! c)" "lim p \<le> length (cs_toks S (chs ! c))"
    using Cons.prems [of p] by auto
  have "read_ports ops cfg lim ps chs = Some (port_tokens S cfg ps lim chs, chs)" using Cons by simp
  moreover have "(port_tokens S cfg ps lim chs)(p := take (lim p) (cs_toks S (chs ! c))) = port_tokens S cfg (p # ps) lim chs"
    by (auto simp: port_tokens_def c(2))
  ultimately show ?case using read_from_tokens [of "chs ! c" 0 "lim p" "lim p"] c by (simp add: list_update_id)
qed (simp add: port_tokens_def fun_eq_iff)

lemma write_ports_staged:
  assumes "distinct ps" "inj_on (nc_end cfg) (set ps)"
    and "\<And>p. p \<in> set ps \<Longrightarrow> \<exists>c < length chs'. nc_end cfg p = Writes c \<and> (\<exists>ts. cs_staged S (chs ! c) ts (chs' ! c)) \<and>
      length (outs p) = lim p \<and> lim p \<le> cs_room S (chs ! c)"
  shows "\<exists>chs''. write_ports ops cfg lim outs ps chs' = Some chs'' \<and> length chs'' = length chs' \<and>
    (\<forall>p c. p \<in> set ps \<longrightarrow> nc_end cfg p = Writes c \<longrightarrow> cs_staged S (chs ! c) (outs p) (chs'' ! c)) \<and>
    (\<forall>c. (\<forall>p \<in> set ps. nc_end cfg p \<noteq> Writes c) \<longrightarrow> chs'' ! c = chs' ! c)"
  using assms
proof (induction ps arbitrary: chs')
  case (Cons p ps)
  obtain c ts where c: "c < length chs'" "nc_end cfg p = Writes c" "cs_staged S (chs ! c) ts (chs' ! c)"
    "length (outs p) = lim p" "lim p \<le> cs_room S (chs ! c)" using Cons.prems(3) [of p] by auto
  obtain s where s: "co_write ops (lim p) (outs p) (chs' ! c) = Some s" "cs_staged S (chs ! c) (outs p) s"
    using rewrite [OF c(3), of "outs p"] c(4,5) by auto
  have other: "nc_end cfg q \<noteq> Writes c" if "q \<in> set ps" for q
    using Cons.prems(1,2) that c(2) by (auto simp: inj_on_def)
  have "\<exists>k < length (chs'[c := s]). nc_end cfg q = Writes k \<and> (\<exists>ts. cs_staged S (chs ! k) ts (chs'[c := s] ! k)) \<and>
      length (outs q) = lim q \<and> lim q \<le> cs_room S (chs ! k)" if "q \<in> set ps" for q
    using Cons.prems(3) [of q] that other [OF that] by fastforce
  from Cons.IH [OF _ _ this] Cons.prems(1,2) obtain chs'' where
    r: "write_ports ops cfg lim outs ps (chs'[c := s]) = Some chs''" "length chs'' = length chs'"
    "\<And>q k. q \<in> set ps \<Longrightarrow> nc_end cfg q = Writes k \<Longrightarrow> cs_staged S (chs ! k) (outs q) (chs'' ! k)"
    "\<And>k. (\<forall>q \<in> set ps. nc_end cfg q \<noteq> Writes k) \<Longrightarrow> chs'' ! k = chs'[c := s] ! k" by auto
  have "chs'' ! c = s" using r(4) [of c] other c(1) by simp
  then show ?case using r s c(2) by (auto intro!: exI [of _ chs''] split: if_splits)
qed simp

lemma net_call_half:
  assumes "net_wf cfg nn nch" "i < nn" "length chs = nch" "\<forall>c < nch. cs_inv S (chs ! c)"
    and "half_fired S cfg i outs chs chs'" "limits_fit S cfg i lim chs"
    and "nc_body cfg i f lim (port_tokens S cfg (nc_ins cfg i) lim chs) (V i) = (v, outs')"
  shows "\<exists>chs''. net_call ops cfg i f \<lparr>wd_limit = lim, wd_rest = \<lparr>nw_chans = chs', nw_vars = V\<rparr>\<rparr> =
      Some \<lparr>wd_limit = lim, wd_rest = \<lparr>nw_chans = chs'', nw_vars = V(i := v)\<rparr>\<rparr> \<and> half_fired S cfg i outs' chs chs''"
proof -
  note ends = net_wf_ends [OF assms(1,2)]
  have h: "length chs' = nch" "\<And>p c. p \<in> set (nc_outs cfg i) \<Longrightarrow> nc_end cfg p = Writes c \<Longrightarrow> cs_staged S (chs ! c) (outs p) (chs' ! c)"
    "\<And>c. (\<forall>p \<in> set (nc_outs cfg i). nc_end cfg p \<noteq> Writes c) \<Longrightarrow> chs' ! c = chs ! c"
    using assms(3,5) by (simp_all add: half_fired_def)
  have ins: "\<exists>c < length chs'. nc_end cfg p = Reads c \<and> chs' ! c = chs ! c \<and> cs_inv S (chs' ! c) \<and>
      lim p \<le> length (cs_toks S (chs' ! c))" if p: "p \<in> set (nc_ins cfg i)" for p
  proof -
    obtain c where c: "c < nch" "nc_end cfg p = Reads c" using ends(1) [OF p] by blast
    have "chs' ! c = chs ! c" using h(3) [of c] net_wf_no_loop [OF assms(1,2) p _ c(2)] by blast
    moreover have "lim p \<le> length (cs_toks S (chs ! c))"
      using limits_fit_end [OF assms(6), of p] p c(2) by (simp add: end_ready_def node_ports_def)
    ultimately show ?thesis using c h(1) assms(4) by auto
  qed
  then have r: "read_ports ops cfg lim (nc_ins cfg i) chs' = Some (port_tokens S cfg (nc_ins cfg i) lim chs', chs')"
    by (intro read_ports_tokens) blast
  have "port_tokens S cfg (nc_ins cfg i) lim chs' = port_tokens S cfg (nc_ins cfg i) lim chs"
    using ins by (fastforce simp: port_tokens_def fun_eq_iff)
  then have b: "nc_body cfg i f lim (port_tokens S cfg (nc_ins cfg i) lim chs') (V i) = (v, outs')" using assms(7) by simp
  have len: "length (outs' p) = lim p" if "p \<in> set (nc_outs cfg i)" for p
    using ends(3) [OF that, of f lim _ "V i"] assms(7) by (metis snd_conv)
  have "\<exists>c < length chs'. nc_end cfg p = Writes c \<and> (\<exists>ts. cs_staged S (chs ! c) ts (chs' ! c)) \<and>
      length (outs' p) = lim p \<and> lim p \<le> cs_room S (chs ! c)" if p: "p \<in> set (nc_outs cfg i)" for p
  proof -
    obtain c where c: "c < nch" "nc_end cfg p = Writes c" using ends(2) [OF p] by blast
    moreover have "lim p \<le> cs_room S (chs ! c)"
      using limits_fit_end [OF assms(6), of p] p c(2) by (simp add: end_ready_def node_ports_def)
    ultimately show ?thesis using h(1,2) p len [OF p] by auto
  qed
  moreover have "inj_on (nc_end cfg) (set (nc_outs cfg i))"
    using net_wf_own(2) [OF assms(1,2,2)] by (intro inj_onI) (auto simp: node_ports_def)
  ultimately obtain chs'' where "write_ports ops cfg lim outs' (nc_outs cfg i) chs' = Some chs''" "length chs'' = length chs'"
    "\<forall>p c. p \<in> set (nc_outs cfg i) \<longrightarrow> nc_end cfg p = Writes c \<longrightarrow> cs_staged S (chs ! c) (outs' p) (chs'' ! c)"
    "\<forall>c. (\<forall>p \<in> set (nc_outs cfg i). nc_end cfg p \<noteq> Writes c) \<longrightarrow> chs'' ! c = chs' ! c"
    using write_ports_staged [OF ends(5), of cfg chs' chs outs' lim] by blast
  then show ?thesis
    using r b h(1,3) assms(3) by (intro exI [of _ chs'']) (simp add: net_call_def half_fired_def)
qed

end

text \<open>The communication of a firing, on the channels.\<close>

fun chan_of :: "port_end \<Rightarrow> nat" where
  "chan_of (Reads c) = c"
| "chan_of (Writes c) = c"

fun comm_chans :: "(gval, 's) chan_ops \<Rightarrow> net_conf \<Rightarrow> (nat \<times> nat \<times> nat) list \<Rightarrow> 's list \<Rightarrow> 's list option" where
  "comm_chans ops cfg [] chs = Some chs"
| "comm_chans ops cfg ((p, k, n) # ps) chs = do { chs \<leftarrow> port_commExec ops cfg p k chs; comm_chans ops cfg ps chs }"

lemma comm_all_chans:
  "comm_all (net_lib ops cfg i) ps w =
   map_option (\<lambda>chs. w\<lparr>wd_rest := (wd_rest w)\<lparr>nw_chans := chs\<rparr>\<rparr>) (comm_chans ops cfg ps (nw_chans (wd_rest w)))"
proof (induction ps arbitrary: w)
  case (Cons x ps)
  obtain p k n where x: "x = (p, k, n)" by (cases x)
  show ?case by (cases "port_commExec ops cfg p k (nw_chans (wd_rest w))") (simp_all add: x net_lib_def Cons.IH [unfolded net_lib_def] comp_def)
qed simp

lemma comm_chans_append: "comm_chans ops cfg (ps @ qs) chs = comm_chans ops cfg ps chs \<bind> comm_chans ops cfg qs"
proof (induction ps arbitrary: chs)
  case (Cons x ps)
  then show ?case by (cases x; cases "port_commExec ops cfg (fst x) (fst (snd x)) chs") simp_all
qed simp

definition end_comm :: "('a, 's) chan_ops \<Rightarrow> port_end \<Rightarrow> nat \<Rightarrow> 's \<Rightarrow> 's option" where
  "end_comm ops e k s = (case e of Reads c \<Rightarrow> co_consume ops k s | Writes c \<Rightarrow> co_produce ops k s)"

lemma port_commExec_end: "port_commExec ops cfg p k chs =
    map_option (\<lambda>s. chs[chan_of (nc_end cfg p) := s]) (end_comm ops (nc_end cfg p) k (chs ! chan_of (nc_end cfg p)))"
  by (cases "nc_end cfg p"; cases "end_comm ops (nc_end cfg p) k (chs ! chan_of (nc_end cfg p))")
    (simp_all add: port_commExec_def end_comm_def)

text \<open>Ports at different channels do not interfere.\<close>

lemma comm_chans_each:
  assumes "distinct (map (\<lambda>x. chan_of (nc_end cfg (fst x))) ps)"
    and "\<And>p k n. (p, k, n) \<in> set ps \<Longrightarrow> chan_of (nc_end cfg p) < length chs \<and>
      (\<exists>s. end_comm ops (nc_end cfg p) k (chs ! chan_of (nc_end cfg p)) = Some s \<and> R p k s)"
  shows "\<exists>chs'. comm_chans ops cfg ps chs = Some chs' \<and> length chs' = length chs \<and>
    (\<forall>p k n. (p, k, n) \<in> set ps \<longrightarrow> R p k (chs' ! chan_of (nc_end cfg p))) \<and>
    (\<forall>c. (\<forall>p \<in> fst ` set ps. chan_of (nc_end cfg p) \<noteq> c) \<longrightarrow> chs' ! c = chs ! c)"
  using assms
proof (induction ps arbitrary: chs)
  case (Cons x ps)
  obtain p k n where x: "x = (p, k, n)" by (cases x)
  let ?c = "chan_of (nc_end cfg p)"
  obtain s where s: "?c < length chs" "end_comm ops (nc_end cfg p) k (chs ! ?c) = Some s" "R p k s"
    using Cons.prems(2) [of p k n] x by auto
  have other: "chan_of (nc_end cfg q) \<noteq> ?c" if "(q, k', n') \<in> set ps" for q k' n'
    using Cons.prems(1) that by (force simp: x)
  have step: "chan_of (nc_end cfg q) < length (chs[?c := s]) \<and>
      (\<exists>s'. end_comm ops (nc_end cfg q) k' (chs[?c := s] ! chan_of (nc_end cfg q)) = Some s' \<and> R q k' s')"
    if "(q, k', n') \<in> set ps" for q k' n'
    using Cons.prems(2) [of q k' n'] other [OF that] that by simp
  have "distinct (map (\<lambda>x. chan_of (nc_end cfg (fst x))) ps)" using Cons.prems(1) by simp
  then have "\<exists>chs'. comm_chans ops cfg ps (chs[?c := s]) = Some chs' \<and> length chs' = length (chs[?c := s]) \<and>
      (\<forall>p k n. (p, k, n) \<in> set ps \<longrightarrow> R p k (chs' ! chan_of (nc_end cfg p))) \<and>
      (\<forall>c. (\<forall>p \<in> fst ` set ps. chan_of (nc_end cfg p) \<noteq> c) \<longrightarrow> chs' ! c = chs[?c := s] ! c)"
    by (rule Cons.IH) (use step in blast)
  then obtain chs' where r: "comm_chans ops cfg ps (chs[?c := s]) = Some chs'"
    "length chs' = length chs" "\<And>q k' n'. (q, k', n') \<in> set ps \<Longrightarrow> R q k' (chs' ! chan_of (nc_end cfg q))"
    "\<And>c. (\<forall>q \<in> fst ` set ps. chan_of (nc_end cfg q) \<noteq> c) \<Longrightarrow> chs' ! c = chs[?c := s] ! c"
    unfolding length_list_update by blast
  have "chs' ! ?c = s" using r(4) [of ?c] other s(1) by force
  moreover have "chs' ! c = chs ! c" if "\<forall>q \<in> fst ` set (x # ps). chan_of (nc_end cfg q) \<noteq> c" for c
    using r(4) [of c] that by (auto simp: x)
  ultimately show ?case
    using r(1,2,3) s(2,3) by (intro exI [of _ chs']) (auto simp: x port_commExec_end)
qed simp

lemma rule_chans_distinct:
  assumes "net_wf cfg nn nch" "i < nn" "rule_fits cfg i r"
  shows "distinct (map (\<lambda>x. chan_of (nc_end cfg (fst x))) (rr_portIn r @ rr_portOut r))"
proof -
  note fits = rule_fits_ports [OF assms(3)]
  let ?ps = "rr_portIn r @ rr_portOut r"
  have "p = q" if p: "p \<in> fst ` set ?ps" "q \<in> fst ` set ?ps" "chan_of (nc_end cfg p) = chan_of (nc_end cfg q)" for p q
  proof -
    have kind: "p \<in> set (nc_ins cfg i) \<or> p \<in> set (nc_outs cfg i)" if "p \<in> fst ` set ?ps" for p
      using fits(3,4) that by fastforce
    then have k: "p \<in> set (nc_ins cfg i) \<or> p \<in> set (nc_outs cfg i)" "q \<in> set (nc_ins cfg i) \<or> q \<in> set (nc_outs cfg i)"
      using p(1,2) by blast+
    have "nc_end cfg p = nc_end cfg q"
      using k net_wf_ends(1,2) [OF assms(1,2)] net_wf_no_loop [OF assms(1,2)] p(3) by (metis chan_of.simps)
    then show ?thesis using net_wf_own(2) [OF assms(1,2,2)] k by (auto simp: node_ports_def)
  qed
  then have "inj_on (\<lambda>p. chan_of (nc_end cfg p)) (fst ` set ?ps)" by (rule inj_onI)
  then have "distinct (map (\<lambda>p. chan_of (nc_end cfg p)) (map fst ?ps))"
    unfolding distinct_map [of _ "map fst ?ps"] using fits(2) by (simp only: set_map simp_thms)
  then show ?thesis by (simp add: comp_def)
qed

lemma run_hooks_net [simp]: "run_hooks (net_lib ops cfg i) hs src a dest w = w"
  by (induction hs) simp_all

context node_channel
begin

lemma run_calls_half:
  assumes "net_wf cfg nn nch" "i < nn" "length chs = nch" "\<forall>c < nch. cs_inv S (chs ! c)" "limits_fit S cfg i lim chs"
  shows "half_fired S cfg i outs chs chs' \<Longrightarrow>
    \<exists>chs''. run_action (net_call ops cfg i) fs \<lparr>wd_limit = lim, wd_rest = \<lparr>nw_chans = chs', nw_vars = V\<rparr>\<rparr> =
      Some \<lparr>wd_limit = lim, wd_rest = \<lparr>nw_chans = chs'', nw_vars = V(i :=
        fst (run_bodies cfg i lim (port_tokens S cfg (nc_ins cfg i) lim chs) fs (V i, outs)))\<rparr>\<rparr> \<and>
      half_fired S cfg i (snd (run_bodies cfg i lim (port_tokens S cfg (nc_ins cfg i) lim chs) fs (V i, outs))) chs chs''"
proof (induction fs arbitrary: V outs chs')
  case (Cons f fs)
  obtain v outs' where b: "nc_body cfg i f lim (port_tokens S cfg (nc_ins cfg i) lim chs) (V i) = (v, outs')" by fastforce
  obtain chs1 where c: "net_call ops cfg i f \<lparr>wd_limit = lim, wd_rest = \<lparr>nw_chans = chs', nw_vars = V\<rparr>\<rparr> =
      Some \<lparr>wd_limit = lim, wd_rest = \<lparr>nw_chans = chs1, nw_vars = V(i := v)\<rparr>\<rparr>" "half_fired S cfg i outs' chs chs1"
    using net_call_half [where V = V, OF assms(1-4) Cons.prems assms(5) b] by blast
  then show ?case using Cons.IH [OF c(2), of "V(i := v)"] by (simp add: b fun_upd_def cong: if_cong)
qed simp

lemma half_fired_start:
  assumes "net_wf cfg nn nch" "i < nn" "length chs = nch" "\<forall>c < nch. cs_inv S (chs ! c)"
  shows "half_fired S cfg i (\<lambda>_. []) chs chs"
  using stage net_wf_ends(2) [OF assms(1,2)] assms(3,4) by (fastforce simp: half_fired_def)

lemma half_fired_step:
  assumes "half_fired S cfg i outs chs chs'" "length chs = nch" "\<forall>c < nch. cs_inv S (chs ! c)" "c < nch"
  shows "chan_step S (chs ! c) 0 [] (chs' ! c)"
proof (cases "\<exists>p \<in> set (nc_outs cfg i). nc_end cfg p = Writes c")
  case True
  then show ?thesis using assms(1) staged unfolding half_fired_def by blast
next
  case False
  then have "chs' ! c = chs ! c" using assms(1) unfolding half_fired_def by blast
  then show ?thesis using assms(3,4) by (simp add: chan_step_def)
qed

text \<open>After the actions every port of the rule can communicate.\<close>

lemma ports_communicate:
  assumes "net_wf cfg nn nch" "i < nn" "rule_fits cfg i r" "length chs = nch" "\<forall>c < nch. cs_inv S (chs ! c)"
    and "rule_ready S cfg r chs" "half_fired S cfg i outs chs chs'"
    and "\<And>p. p \<in> set (nc_outs cfg i) \<Longrightarrow> length (outs p) = commSetup r (\<lambda>_. 0) p"
    and "(p, k, n) \<in> set (rr_portIn r @ rr_portOut r)"
  shows "chan_of (nc_end cfg p) < length chs' \<and>
    (\<exists>s. end_comm ops (nc_end cfg p) k (chs' ! chan_of (nc_end cfg p)) = Some s \<and>
      (case nc_end cfg p of Reads c \<Rightarrow> chan_step S (chs ! c) k [] s | Writes c \<Rightarrow> chan_step S (chs ! c) 0 (outs p) s))"
proof -
  note fits = rule_fits_ports [OF assms(3)] and ends = net_wf_ends [OF assms(1,2)]
  have h: "length chs' = nch" "\<And>p c. p \<in> set (nc_outs cfg i) \<Longrightarrow> nc_end cfg p = Writes c \<Longrightarrow> cs_staged S (chs ! c) (outs p) (chs' ! c)"
    "\<And>c. (\<forall>p \<in> set (nc_outs cfg i). nc_end cfg p \<noteq> Writes c) \<Longrightarrow> chs' ! c = chs ! c"
    using assms(4,7) by (simp_all add: half_fired_def)
  show ?thesis
  proof (cases "(p, k, n) \<in> set (rr_portIn r)")
    case True
    then have p: "p \<in> set (nc_ins cfg i)" "k \<le> n" using fits(3) by blast+
    obtain c where c: "c < nch" "nc_end cfg p = Reads c" using ends(1) [OF p(1)] by blast
    have "end_ready S chs (nc_end cfg p) n" using assms(6) True unfolding rule_ready_def by blast
    then have "k \<le> length (cs_toks S (chs ! c))" using c(2) p(2) by (simp add: end_ready_def)
    moreover have "chs' ! c = chs ! c" using h(3) [of c] net_wf_no_loop [OF assms(1,2) p(1) _ c(2)] by blast
    ultimately show ?thesis using consume [of "chs ! c" k] assms(5) c h(1) by (simp add: end_comm_def)
  next
    case False
    then have o: "(p, k, n) \<in> set (rr_portOut r)" using assms(9) by simp
    then have p: "p \<in> set (nc_outs cfg i)" using fits(4) by blast
    obtain c where c: "c < nch" "nc_end cfg p = Writes c" using ends(2) [OF p] by blast
    have "length (outs p) = k" using assms(8) [OF p] commSetup_ports(2) [OF fits(2) o] by simp
    then show ?thesis using produce [OF h(2) [OF p c(2)]] c h(1) by (simp add: end_comm_def)
  qed
qed

text \<open>
  An enabled transition runs to its end.  Each channel loses the tokens its port consumes and gains those the
  action wrote.
\<close>

lemma transition_fires:
  assumes "net_wf cfg nn nch" "i < nn" "rule_fits cfg i (tr_rule t)" "net_ok S nch w"
    and "rule_ready S cfg (tr_rule t) (nw_chans (wd_rest w))"
  shows "\<exists>chs'. transition_execute (net_lib ops cfg i) src dst t w = Some (tr_dest t, \<lparr>wd_limit = \<lambda>_. 0,
      wd_rest = \<lparr>nw_chans = chs', nw_vars = (nw_vars (wd_rest w))(i := fst (computed S cfg i (tr_rule t) (wd_rest w)))\<rparr>\<rparr>) \<and>
    length chs' = nch \<and> (\<forall>c < nch. chan_step S (nw_chans (wd_rest w) ! c) (taken cfg (tr_rule t) c)
      (given cfg (tr_rule t) (snd (computed S cfg i (tr_rule t) (wd_rest w))) c) (chs' ! c))"
proof -
  let ?r = "tr_rule t" and ?chs = "nw_chans (wd_rest w)" and ?V = "nw_vars (wd_rest w)" and ?lim = "commSetup (tr_rule t) (\<lambda>_. 0)"
  obtain v outs where vo: "computed S cfg i ?r (wd_rest w) = (v, outs)" by fastforce
  have ok: "wd_limit w = (\<lambda>_. 0)" "length ?chs = nch" "\<forall>c < nch. cs_inv S (?chs ! c)" using assms(4) by (simp_all add: net_ok_def)
  note start = half_fired_start [OF assms(1,2) ok(2,3)] and fits = rule_fits_ports [OF assms(3)]
  obtain chs1 where act: "run_action (net_call ops cfg i) (fr_action ?r) \<lparr>wd_limit = ?lim, wd_rest = \<lparr>nw_chans = ?chs, nw_vars = ?V\<rparr>\<rparr> =
      Some \<lparr>wd_limit = ?lim, wd_rest = \<lparr>nw_chans = chs1, nw_vars = ?V(i := v)\<rparr>\<rparr>" "half_fired S cfg i outs ?chs chs1"
    using run_calls_half [OF assms(1,2) ok(2,3) ready_limits_fit [OF assms(1-3,5)] start, of "fr_action ?r" ?V] vo
    by (auto simp: computed_def Let_def)
  have len: "length (outs p) = ?lim p" if "p \<in> set (nc_outs cfg i)" for p
    using computed_length [OF assms(1-3) that, of S "wd_rest w"] by (simp add: vo)
  define R where "R p k s = (case nc_end cfg p of Reads c \<Rightarrow> chan_step S (?chs ! c) k [] s | Writes c \<Rightarrow> chan_step S (?chs ! c) 0 (outs p) s)"
    for p k s
  have "\<exists>chs2. comm_chans ops cfg (rr_portIn ?r @ rr_portOut ?r) chs1 = Some chs2 \<and> length chs2 = length chs1 \<and>
    (\<forall>p k n. (p, k, n) \<in> set (rr_portIn ?r @ rr_portOut ?r) \<longrightarrow> R p k (chs2 ! chan_of (nc_end cfg p))) \<and>
    (\<forall>c. (\<forall>p \<in> fst ` set (rr_portIn ?r @ rr_portOut ?r). chan_of (nc_end cfg p) \<noteq> c) \<longrightarrow> chs2 ! c = chs1 ! c)"
    unfolding R_def
    by (rule comm_chans_each [OF rule_chans_distinct [OF assms(1-3)]])
      (rule ports_communicate [OF assms(1-3) ok(2,3) assms(5) act(2) len])
  moreover have len1: "length chs1 = nch" using act(2) ok(2) by (simp add: half_fired_def)
  ultimately obtain chs2 where comm: "comm_chans ops cfg (rr_portIn ?r @ rr_portOut ?r) chs1 = Some chs2" "length chs2 = nch"
    "\<And>p k n. (p, k, n) \<in> set (rr_portIn ?r) \<union> set (rr_portOut ?r) \<Longrightarrow> R p k (chs2 ! chan_of (nc_end cfg p))"
    "\<And>c. (\<forall>p \<in> fst ` (set (rr_portIn ?r) \<union> set (rr_portOut ?r)). chan_of (nc_end cfg p) \<noteq> c) \<Longrightarrow> chs2 ! c = chs1 ! c"
    unfolding set_append using len1 by (elim exE conjE) metis
  have set: "w\<lparr>wd_limit := ?lim\<rparr> = \<lparr>wd_limit = ?lim, wd_rest = \<lparr>nw_chans = ?chs, nw_vars = ?V\<rparr>\<rparr>" by simp
  have "transition_execute (net_lib ops cfg i) src dst t w = Some (tr_dest t, \<lparr>wd_limit = \<lambda>_. 0,
      wd_rest = \<lparr>nw_chans = chs2, nw_vars = ?V(i := v)\<rparr>\<rparr>)"
    using act(1) [folded set] comm(1) by (auto simp: transition_execute_def executeFiringRule_def comm_all_chans comm_chans_append Let_def
        ok(1) commReset_commSetup bind_eq_Some_iff)
  moreover have "chan_step S (?chs ! c) (taken cfg ?r c) (given cfg ?r outs c) (chs2 ! c)" if c: "c < nch" for c
  proof (cases "\<exists>p k n. (p, k, n) \<in> set (rr_portIn ?r) \<union> set (rr_portOut ?r) \<and> chan_of (nc_end cfg p) = c")
    case True
    then obtain p k n where p: "(p, k, n) \<in> set (rr_portIn ?r) \<union> set (rr_portOut ?r)" "chan_of (nc_end cfg p) = c" by blast
    show ?thesis
    proof (cases "(p, k, n) \<in> set (rr_portIn ?r)")
      case True
      then have "nc_end cfg p = Reads c" using fits(3) net_wf_ends(1) [OF assms(1,2)] p(2) by fastforce
      then show ?thesis using comm(3) [OF p(1)] rule_channels(1) [OF assms(1-3) True] by (simp add: R_def)
    next
      case False
      then have o: "(p, k, n) \<in> set (rr_portOut ?r)" using p(1) by blast
      then have "nc_end cfg p = Writes c" using fits(4) net_wf_ends(2) [OF assms(1,2)] p(2) by fastforce
      then show ?thesis using comm(3) [OF p(1)] rule_channels(2) [OF assms(1-3) o] by (simp add: R_def)
    qed
  next
    case False
    then have "chs2 ! c = chs1 ! c" by (intro comm(4)) force
    moreover have "taken cfg ?r c = 0" "given cfg ?r outs c = []"
      by (intro rule_channels_none; use False in force)+
    ultimately show ?thesis using half_fired_step [OF act(2) ok(2,3) c] by simp
  qed
  ultimately show ?thesis using comm(2) vo by auto
qed

end

end
