(* ===== verification/Network_Schedules.thy ===== *)
theory Network_Schedules
  imports Network_Firing
begin

text \<open>
  Schedules of a network.  A firing takes the tokens of its rule and appends what its actions computed; it
  cannot disable another node, and two schedules in which every node fires the same transitions in the same
  order end with the same tokens, places and variables.  The interpretation at the end applies this to
  actors connected by FIFOs.
\<close>

section \<open>One firing\<close>

definition node_fires :: "(gval, 's) chan_ops \<Rightarrow> net_conf \<Rightarrow> nat \<Rightarrow> rt_transition \<Rightarrow> 's network world \<Rightarrow> 's network world option" where
  "node_fires ops cfg i t w = (if enabled (net_lib ops cfg i) w t
     then map_option snd (transition_execute (net_lib ops cfg i) [] [] t w) else None)"

text \<open>What a firing does to the network, whatever the channels are.\<close>

definition net_step :: "(gval, 's) chan_spec \<Rightarrow> net_conf \<Rightarrow> nat \<Rightarrow> nat \<Rightarrow> rt_rule \<Rightarrow> 's network world \<Rightarrow> 's network world \<Rightarrow> bool" where
  "net_step S cfg nch i r w w' \<longleftrightarrow> wd_limit w' = (\<lambda>_. 0) \<and> length (nw_chans (wd_rest w')) = nch \<and>
     nw_vars (wd_rest w') = (nw_vars (wd_rest w))(i := fst (computed S cfg i r (wd_rest w))) \<and>
     (\<forall>c < nch. chan_step S (nw_chans (wd_rest w) ! c) (taken cfg r c)
        (given cfg r (snd (computed S cfg i r (wd_rest w))) c) (nw_chans (wd_rest w') ! c))"

text \<open>The same tokens, places, events and variables.\<close>

definition chan_same :: "('a, 's) chan_spec \<Rightarrow> 's \<Rightarrow> 's \<Rightarrow> bool" where
  "chan_same S s s' \<longleftrightarrow> cs_toks S s = cs_toks S s' \<and> cs_room S s = cs_room S s' \<and>
     cs_data S s = cs_data S s' \<and> cs_space S s = cs_space S s'"

definition net_same :: "('a, 's) chan_spec \<Rightarrow> nat \<Rightarrow> 's network world \<Rightarrow> 's network world \<Rightarrow> bool" where
  "net_same S nch w w' \<longleftrightarrow> nw_vars (wd_rest w) = nw_vars (wd_rest w') \<and>
     (\<forall>c < nch. chan_same S (nw_chans (wd_rest w) ! c) (nw_chans (wd_rest w') ! c))"

lemma net_same_refl [simp]: "net_same S nch w w"
  by (simp add: net_same_def chan_same_def)

lemma net_same_sym: "net_same S nch w w' \<Longrightarrow> net_same S nch w' w"
  by (simp add: net_same_def chan_same_def)

lemma net_same_trans: "net_same S nch w1 w2 \<Longrightarrow> net_same S nch w2 w3 \<Longrightarrow> net_same S nch w1 w3"
  by (simp add: net_same_def chan_same_def)

text \<open>A rule sees nothing else of the network.\<close>

lemma rule_end_chan:
  assumes "net_wf cfg nn nch" "i < nn" "rule_fits cfg i r" "(p, c, n) \<in> set (rr_portIn r) \<union> set (rr_portOut r)"
  shows "chan_of (nc_end cfg p) < nch" "p \<in> node_ports cfg i"
  using rule_fits_ports(3,4) [OF assms(3)] net_wf_ends(1,2) [OF assms(1,2)] assms(4)
  by (auto simp: node_ports_def) (metis chan_of.simps)+

lemma rule_registered_cong:
  assumes "net_wf cfg nn nch" "i < nn" "rule_fits cfg i r"
    and "\<And>c. c < nch \<Longrightarrow> cs_data S (chs ! c) = cs_data S (chs' ! c) \<and> cs_space S (chs ! c) = cs_space S (chs' ! c)"
  shows "rule_registered S cfg r chs \<longleftrightarrow> rule_registered S cfg r chs'"
proof -
  have "end_registered S chs (nc_end cfg p) n \<longleftrightarrow> end_registered S chs' (nc_end cfg p) n"
    if "(p, c, n) \<in> set (rr_portIn r) \<union> set (rr_portOut r)" for p c n
    using rule_end_chan(1) [OF assms(1-3) that] assms(4) [of "chan_of (nc_end cfg p)"]
    by (cases "nc_end cfg p") (simp_all add: end_registered_def)
  then show ?thesis unfolding rule_registered_def by blast
qed

lemma net_same_registered:
  assumes "net_wf cfg nn nch" "i < nn" "rule_fits cfg i r" "net_same S nch w u"
  shows "rule_registered S cfg r (nw_chans (wd_rest u)) \<longleftrightarrow> rule_registered S cfg r (nw_chans (wd_rest w))"
  by (rule rule_registered_cong [OF assms(1-3)]) (use assms(4) in \<open>simp add: net_same_def chan_same_def\<close>)

text \<open>A node sees a network grow: its inputs have more tokens behind those they had, its outputs more places.\<close>

definition node_grows :: "('a, 's) chan_spec \<Rightarrow> net_conf \<Rightarrow> nat \<Rightarrow> 's network \<Rightarrow> 's network \<Rightarrow> bool" where
  "node_grows S cfg i x y \<longleftrightarrow> nw_vars y i = nw_vars x i \<and> (\<forall>p \<in> node_ports cfg i. case nc_end cfg p of
     Reads c \<Rightarrow> \<exists>ts. cs_toks S (nw_chans y ! c) = cs_toks S (nw_chans x ! c) @ ts
   | Writes c \<Rightarrow> cs_room S (nw_chans x ! c) \<le> cs_room S (nw_chans y ! c))"

lemma node_grows_end:
  assumes "node_grows S cfg i x y" "p \<in> node_ports cfg i"
  shows "nc_end cfg p = Reads c \<Longrightarrow> \<exists>ts. cs_toks S (nw_chans y ! c) = cs_toks S (nw_chans x ! c) @ ts"
    and "nc_end cfg p = Writes c \<Longrightarrow> cs_room S (nw_chans x ! c) \<le> cs_room S (nw_chans y ! c)"
  using assms unfolding node_grows_def by (auto dest!: bspec [of _ _ p])

lemma net_same_grows:
  assumes "net_wf cfg nn nch" "i < nn" "net_same S nch w w'"
  shows "node_grows S cfg i (wd_rest w) (wd_rest w')"
proof -
  have "\<exists>c < nch. nc_end cfg p = Reads c \<or> nc_end cfg p = Writes c" if "p \<in> node_ports cfg i" for p
    using that net_wf_ends(1,2) [OF assms(1,2)] by (auto simp: node_ports_def)
  then show ?thesis
    using assms(3) by (fastforce simp: node_grows_def net_same_def chan_same_def split: port_end.split)
qed

lemma grows_ready:
  assumes "net_wf cfg nn nch" "i < nn" "rule_fits cfg i r" "node_grows S cfg i x y" "rule_ready S cfg r (nw_chans x)"
  shows "rule_ready S cfg r (nw_chans y)"
proof -
  have "end_ready S (nw_chans y) (nc_end cfg p) n" if p: "(p, c, n) \<in> set (rr_portIn r) \<union> set (rr_portOut r)" for p c n
  proof -
    have "end_ready S (nw_chans x) (nc_end cfg p) n" using assms(5) p unfolding rule_ready_def by blast
    then show ?thesis using node_grows_end [OF assms(4) rule_end_chan(2) [OF assms(1-3) p]]
      by (cases "nc_end cfg p") (fastforce simp: end_ready_def)+
  qed
  then show ?thesis unfolding rule_ready_def by blast
qed

lemma grows_guard:
  assumes "net_wf cfg nn nch" "i < nn" "rule_fits cfg i r" "node_grows S cfg i x y" "rule_ready S cfg r (nw_chans x)"
  shows "guard_holds S cfg i r y \<longleftrightarrow> guard_holds S cfg i r x"
proof -
  have v: "nw_vars y i = nw_vars x i" using assms(4) by (simp add: node_grows_def)
  have "geval (token_env S cfg i r y) (fr_guard r) = geval (token_env S cfg i r x) (fr_guard r)"
  proof (rule geval_tokens_cong)
    fix p n assume "(p, n) \<in> set (gtokens (fr_guard r))"
    then obtain c k where p: "(p, c, k) \<in> set (rr_portIn r)" "n < k" using rule_fits_ports(5) [OF assms(3)] by blast
    then have own: "p \<in> node_ports cfg i" and ready: "end_ready S (nw_chans x) (nc_end cfg p) k"
      using rule_end_chan(2) [OF assms(1-3), of p c k] assms(5) unfolding rule_ready_def by blast+
    obtain ch where ch: "nc_end cfg p = Reads ch"
      using rule_fits_ports(3) [OF assms(3) p(1)] net_wf_ends(1) [OF assms(1,2)] by blast
    then have "n < length (cs_toks S (nw_chans x ! ch))" using ready p(2) by (simp add: end_ready_def)
    then show "(n < ge_limit (token_env S cfg i r y) p) = (n < ge_limit (token_env S cfg i r x) p) \<and>
      (n < ge_limit (token_env S cfg i r y) p \<longrightarrow> ge_token (token_env S cfg i r y) p n = ge_token (token_env S cfg i r x) p n)"
      using node_grows_end(1) [OF assms(4) own ch] ch by (auto simp: token_env_def nth_append)
  qed (simp_all add: token_env_def v)
  then show ?thesis by (simp add: guard_holds_def)
qed

lemma grows_computed:
  assumes "net_wf cfg nn nch" "i < nn" "rule_fits cfg i r" "node_grows S cfg i x y" "rule_ready S cfg r (nw_chans x)"
  shows "computed S cfg i r y = computed S cfg i r x"
proof -
  let ?lim = "commSetup r (\<lambda>_. 0)"
  have "port_tokens S cfg (nc_ins cfg i) ?lim (nw_chans y) p = port_tokens S cfg (nc_ins cfg i) ?lim (nw_chans x) p" for p
  proof (cases "p \<in> set (nc_ins cfg i)")
    case True
    then obtain c where c: "nc_end cfg p = Reads c" using net_wf_ends(1) [OF assms(1,2)] by blast
    have own: "p \<in> node_ports cfg i" using True by (simp add: node_ports_def)
    have "?lim p \<le> length (cs_toks S (nw_chans x ! c))"
      using limits_fit_end [OF ready_limits_fit [OF assms(1-3,5)] own] c by (simp add: end_ready_def)
    then show ?thesis using node_grows_end(1) [OF assms(4) own c] by (auto simp: port_tokens_def c)
  qed (simp add: port_tokens_def)
  then have "port_tokens S cfg (nc_ins cfg i) ?lim (nw_chans y) = port_tokens S cfg (nc_ins cfg i) ?lim (nw_chans x)" ..
  moreover have "nw_vars y i = nw_vars x i" using assms(4) by (simp add: node_grows_def)
  ultimately show ?thesis by (simp add: computed_def Let_def)
qed

section \<open>Firings of different nodes\<close>

lemma net_step_chan:
  "net_step S cfg nch i r w w' \<Longrightarrow> c < nch \<Longrightarrow> chan_step S (nw_chans (wd_rest w) ! c) (taken cfg r c)
     (given cfg r (snd (computed S cfg i r (wd_rest w))) c) (nw_chans (wd_rest w') ! c)"
  by (simp add: net_step_def)

lemma net_step_keeps:
  assumes "net_step S cfg nch i r w w'"
  shows "net_ok S nch w'"
    and "net_wf cfg nn nch \<Longrightarrow> j < nn \<Longrightarrow> rule_fits cfg j q \<Longrightarrow>
      rule_registered S cfg q (nw_chans (wd_rest w')) \<longleftrightarrow> rule_registered S cfg q (nw_chans (wd_rest w))"
proof -
  show "net_ok S nch w'" using assms by (simp add: net_ok_def net_step_def chan_step_def)
  show "rule_registered S cfg q (nw_chans (wd_rest w')) \<longleftrightarrow> rule_registered S cfg q (nw_chans (wd_rest w))"
    if "net_wf cfg nn nch" "j < nn" "rule_fits cfg j q"
    by (rule rule_registered_cong [OF that]) (use net_step_chan [OF assms] in \<open>simp add: chan_step_def\<close>)
qed

text \<open>Only the reader of a channel takes from it and only its writer gives to it.\<close>

lemma other_channels:
  assumes "net_wf cfg nn nch" "i < nn" "rule_fits cfg i r" "j < nn" "i \<noteq> j" "q \<in> node_ports cfg j"
  shows "nc_end cfg q = Reads c \<Longrightarrow> taken cfg r c = 0" and "nc_end cfg q = Writes c \<Longrightarrow> given cfg r outs c = []"
proof -
  have "nc_end cfg p \<noteq> nc_end cfg q" if "p \<in> fst ` (set (rr_portIn r) \<union> set (rr_portOut r))" for p
  proof -
    obtain k n where "(p, k, n) \<in> set (rr_portIn r) \<union> set (rr_portOut r)" using \<open>p \<in> _\<close> by force
    from net_wf_own(1) [OF assms(1,2,4) rule_end_chan(2) [OF assms(1-3) this] assms(6)] assms(5) show ?thesis by blast
  qed
  then have d: "\<And>p. p \<in> fst ` set (rr_portIn r) \<Longrightarrow> nc_end cfg p \<noteq> nc_end cfg q"
    "\<And>p. p \<in> fst ` set (rr_portOut r) \<Longrightarrow> nc_end cfg p \<noteq> nc_end cfg q" by blast+
  show "taken cfg r c = 0" if "nc_end cfg q = Reads c"
    unfolding taken_def by (rule taken_none(1)) (use d(1) that in simp)
  show "given cfg r outs c = []" if "nc_end cfg q = Writes c"
    unfolding given_def by (rule taken_none(2)) (use d(2) that in simp)
qed

lemma taken_exclusive:
  assumes "net_wf cfg nn nch" "i < nn" "rule_fits cfg i r" "j < nn" "rule_fits cfg j q" "i \<noteq> j"
  shows "taken cfg r c = 0 \<or> taken cfg q c = 0"
proof (cases "\<exists>p \<in> fst ` set (rr_portIn q). nc_end cfg p = Reads c")
  case True
  then obtain p k n where p: "(p, k, n) \<in> set (rr_portIn q)" "nc_end cfg p = Reads c" by auto
  have "p \<in> node_ports cfg j" by (rule rule_end_chan(2) [OF assms(1,4,5)]) (use p(1) in blast)
  from other_channels(1) [OF assms(1-4,6) this p(2)] show ?thesis ..
next
  case False
  then have "taken cfg q c = 0" unfolding taken_def by (intro taken_none(1)) blast
  then show ?thesis ..
qed

lemma given_exclusive:
  assumes "net_wf cfg nn nch" "i < nn" "rule_fits cfg i r" "j < nn" "rule_fits cfg j q" "i \<noteq> j"
  shows "given cfg r outs c = [] \<or> given cfg q outs' c = []"
proof (cases "\<exists>p \<in> fst ` set (rr_portOut q). nc_end cfg p = Writes c")
  case True
  then obtain p k n where p: "(p, k, n) \<in> set (rr_portOut q)" "nc_end cfg p = Writes c" by auto
  have "p \<in> node_ports cfg j" by (rule rule_end_chan(2) [OF assms(1,4,5)]) (use p(1) in blast)
  from other_channels(2) [OF assms(1-4,6) this p(2)] show ?thesis ..
next
  case False
  then have "given cfg q outs' c = []" unfolding given_def by (intro taken_none(2)) blast
  then show ?thesis ..
qed

lemma net_step_grows:
  assumes "net_wf cfg nn nch" "i < nn" "rule_fits cfg i r" "net_step S cfg nch i r w w'" "j < nn" "i \<noteq> j"
  shows "node_grows S cfg j (wd_rest w) (wd_rest w')"
  unfolding node_grows_def
proof (intro conjI ballI)
  show "nw_vars (wd_rest w') j = nw_vars (wd_rest w) j" using assms(4,6) by (simp add: net_step_def)
  fix q assume q: "q \<in> node_ports cfg j"
  note other = other_channels [OF assms(1-3,5,6) q]
  have c: "chan_of (nc_end cfg q) < nch"
    using q net_wf_ends(1,2) [OF assms(1,5)] by (auto simp: node_ports_def) (metis chan_of.simps)+
  show "case nc_end cfg q of Reads c \<Rightarrow> \<exists>ts. cs_toks S (nw_chans (wd_rest w') ! c) = cs_toks S (nw_chans (wd_rest w) ! c) @ ts
      | Writes c \<Rightarrow> cs_room S (nw_chans (wd_rest w) ! c) \<le> cs_room S (nw_chans (wd_rest w') ! c)"
    using net_step_chan [OF assms(4) c] other by (cases "nc_end cfg q") (auto simp: chan_step_def)
qed

text \<open>
  A channel from which at most one of two nodes takes and to which at most one gives does not see their
  order.
\<close>

lemma chan_step_commute:
  assumes "chan_step S s k ts s1" "chan_step S s1 l us s2" "chan_step S s l us t1" "chan_step S t1 k ts t2"
    and "k \<le> length (cs_toks S s)" "l \<le> length (cs_toks S s)" "length ts \<le> cs_room S s" "length us \<le> cs_room S s"
    and "k = 0 \<or> l = 0" "ts = [] \<or> us = []"
  shows "chan_same S s2 t2"
proof -
  have "drop l (drop k (cs_toks S s) @ ts) @ us = drop k (drop l (cs_toks S s) @ us) @ ts"
    using assms(5,6,9,10) by (elim disjE) simp_all
  moreover have "cs_room S s + k - length ts + l - length us = cs_room S s + l - length us + k - length ts"
    using assms(7,8,10) by auto
  ultimately show ?thesis using assms(1-4) by (simp add: chan_step_def chan_same_def)
qed

lemma chan_step_same:
  assumes "chan_step S s k ts s1" "chan_step S t k ts t1" "chan_same S s t"
  shows "chan_same S s1 t1"
  using assms by (simp add: chan_step_def chan_same_def)

text \<open>The amounts of a ready rule are available.\<close>

lemma ready_amounts:
  assumes "net_wf cfg nn nch" "i < nn" "rule_fits cfg i r" "rule_ready S cfg r (nw_chans x)"
  shows "taken cfg r c \<le> length (cs_toks S (nw_chans x ! c))"
    and "length (given cfg r (snd (computed S cfg i r x)) c) \<le> cs_room S (nw_chans x ! c)"
proof -
  note fits = rule_fits_ports [OF assms(3)]
  have ready: "end_ready S (nw_chans x) (nc_end cfg p) n" if "(p, k, n) \<in> set (rr_portIn r) \<union> set (rr_portOut r)" for p k n
    using that assms(4) unfolding rule_ready_def by blast
  show "taken cfg r c \<le> length (cs_toks S (nw_chans x ! c))"
  proof (cases "\<exists>p \<in> fst ` set (rr_portIn r). nc_end cfg p = Reads c")
    case True
    then obtain p k n where p: "(p, k, n) \<in> set (rr_portIn r)" "nc_end cfg p = Reads c" by auto
    then show ?thesis
      using rule_channels(1) [OF assms(1-3) p] ready [of p k n] fits(3) [OF p(1)] by (auto simp: end_ready_def)
  next
    case False
    then have "taken cfg r c = 0" unfolding taken_def by (intro taken_none(1)) blast
    then show ?thesis by simp
  qed
  show "length (given cfg r (snd (computed S cfg i r x)) c) \<le> cs_room S (nw_chans x ! c)"
  proof (cases "\<exists>p \<in> fst ` set (rr_portOut r). nc_end cfg p = Writes c")
    case True
    then obtain p k n where p: "(p, k, n) \<in> set (rr_portOut r)" "nc_end cfg p = Writes c" by auto
    have out: "p \<in> set (nc_outs cfg i)" "k = 0 \<or> k = n" using fits(4) [OF p(1)] by blast+
    have "length (snd (computed S cfg i r x) p) = commSetup r (\<lambda>_. 0) p" by (rule computed_length [OF assms(1-3) out(1)])
    then have "length (snd (computed S cfg i r x) p) \<le> n" using commSetup_ports(2) [OF fits(2) p(1)] out(2) by auto
    moreover have "n \<le> cs_room S (nw_chans x ! c)" using ready [of p k n] p by (simp add: end_ready_def)
    ultimately show ?thesis using rule_channels(2) [OF assms(1-3) p] by (metis order_trans)
  next
    case False
    then have "given cfg r (snd (computed S cfg i r x)) c = []" unfolding given_def by (intro taken_none(2)) blast
    then show ?thesis by simp
  qed
qed

context node_channel
begin

text \<open>An enabled transition fires, and nothing else does.\<close>

lemma node_fires_iff:
  assumes "net_wf cfg nn nch" "i < nn" "rule_fits cfg i (tr_rule t)" "net_ok S nch w"
    and "rule_registered S cfg (tr_rule t) (nw_chans (wd_rest w))"
  shows "node_fires ops cfg i t w \<noteq> None \<longleftrightarrow>
    rule_ready S cfg (tr_rule t) (nw_chans (wd_rest w)) \<and> guard_holds S cfg i (tr_rule t) (wd_rest w)"
    and "node_fires ops cfg i t w = Some w' \<Longrightarrow> net_step S cfg nch i (tr_rule t) w w'"
proof -
  note en = enabled_iff [OF assms]
  have fires: "\<exists>w'. transition_execute (net_lib ops cfg i) [] [] t w = Some (tr_dest t, w') \<and> net_step S cfg nch i (tr_rule t) w w'"
    if "enabled (net_lib ops cfg i) w t"
    using transition_fires [OF assms(1-4), where src = "[]" and dst = "[]"] en that by (fastforce simp: net_step_def)
  then show "node_fires ops cfg i t w \<noteq> None \<longleftrightarrow>
      rule_ready S cfg (tr_rule t) (nw_chans (wd_rest w)) \<and> guard_holds S cfg i (tr_rule t) (wd_rest w)"
    using en by (auto simp: node_fires_def)
  show "net_step S cfg nch i (tr_rule t) w w'" if "node_fires ops cfg i t w = Some w'"
    using fires that by (auto simp: node_fires_def split: if_splits)
qed

text \<open>A node that sees the network grow can still fire and computes the same.\<close>

lemma grown_fires:
  assumes "net_wf cfg nn nch" "i < nn" "rule_fits cfg i (tr_rule t)" "net_ok S nch w" "net_ok S nch u"
    and "rule_registered S cfg (tr_rule t) (nw_chans (wd_rest w))" "rule_registered S cfg (tr_rule t) (nw_chans (wd_rest u))"
    and "node_grows S cfg i (wd_rest w) (wd_rest u)" "node_fires ops cfg i t w = Some w'"
  shows "\<exists>u'. node_fires ops cfg i t u = Some u' \<and> net_step S cfg nch i (tr_rule t) u u' \<and>
    computed S cfg i (tr_rule t) (wd_rest u) = computed S cfg i (tr_rule t) (wd_rest w)"
proof -
  have w: "rule_ready S cfg (tr_rule t) (nw_chans (wd_rest w))" "guard_holds S cfg i (tr_rule t) (wd_rest w)"
    using node_fires_iff(1) [OF assms(1-4,6)] assms(9) by auto
  have u: "node_fires ops cfg i t u \<noteq> None"
    using node_fires_iff(1) [OF assms(1-3,5,7)] grows_ready [OF assms(1-3,8) w(1)] grows_guard [OF assms(1-3,8) w(1)] w(2) by blast
  then show ?thesis
    using node_fires_iff(2) [OF assms(1-3,5,7)] grows_computed [OF assms(1-3,8) w(1)] by auto
qed

lemma fires_same:
  assumes "net_wf cfg nn nch" "i < nn" "rule_fits cfg i (tr_rule t)" "net_ok S nch w" "net_ok S nch u"
    and "rule_registered S cfg (tr_rule t) (nw_chans (wd_rest w))" "net_same S nch w u" "node_fires ops cfg i t w = Some w'"
  shows "\<exists>u'. node_fires ops cfg i t u = Some u' \<and> net_same S nch w' u'"
proof -
  have reg: "rule_registered S cfg (tr_rule t) (nw_chans (wd_rest u))"
    using net_same_registered [OF assms(1-3,7)] assms(6) by blast
  obtain u' where u: "node_fires ops cfg i t u = Some u'" "net_step S cfg nch i (tr_rule t) u u'"
    "computed S cfg i (tr_rule t) (wd_rest u) = computed S cfg i (tr_rule t) (wd_rest w)"
    using grown_fires [OF assms(1-6) reg net_same_grows [OF assms(1,2,7)] assms(8)] by blast
  have w: "net_step S cfg nch i (tr_rule t) w w'" by (rule node_fires_iff(2) [OF assms(1-4,6,8)])
  have "chan_same S (nw_chans (wd_rest w') ! c) (nw_chans (wd_rest u') ! c)" if "c < nch" for c
    using chan_step_same [OF net_step_chan [OF w that] net_step_chan [OF u(2) that, unfolded u(3)]] assms(7) that
    by (simp add: net_same_def)
  then show ?thesis using w u assms(7) by (intro exI [of _ u']) (simp add: net_same_def net_step_def)
qed

text \<open>Firings of different nodes commute.\<close>

lemma fires_commute:
  assumes "net_wf cfg nn nch" "i < nn" "j < nn" "i \<noteq> j" "rule_fits cfg i (tr_rule t)" "rule_fits cfg j (tr_rule u)"
    and "net_ok S nch w" "rule_registered S cfg (tr_rule t) (nw_chans (wd_rest w))"
      "rule_registered S cfg (tr_rule u) (nw_chans (wd_rest w))"
    and "node_fires ops cfg i t w = Some wi" "node_fires ops cfg j u w = Some wj"
  shows "\<exists>wij wji. node_fires ops cfg j u wi = Some wij \<and> node_fires ops cfg i t wj = Some wji \<and> net_same S nch wij wji"
proof -
  note si = node_fires_iff(2) [OF assms(1,2,5,7,8,10)] and sj = node_fires_iff(2) [OF assms(1,3,6,7,9,11)]
  note ki = net_step_keeps [OF si] and kj = net_step_keeps [OF sj]
  have ready: "rule_ready S cfg (tr_rule t) (nw_chans (wd_rest w))" "rule_ready S cfg (tr_rule u) (nw_chans (wd_rest w))"
    using node_fires_iff(1) [OF assms(1,2,5,7,8)] node_fires_iff(1) [OF assms(1,3,6,7,9)] assms(10,11) by auto
  have regs: "rule_registered S cfg (tr_rule u) (nw_chans (wd_rest wi))" "rule_registered S cfg (tr_rule t) (nw_chans (wd_rest wj))"
    using ki(2) [OF assms(1,3,6)] kj(2) [OF assms(1,2,5)] assms(8,9) by simp_all
  obtain wij where ij: "node_fires ops cfg j u wi = Some wij" "net_step S cfg nch j (tr_rule u) wi wij"
    "computed S cfg j (tr_rule u) (wd_rest wi) = computed S cfg j (tr_rule u) (wd_rest w)"
    using grown_fires [OF assms(1,3,6,7) ki(1) assms(9) regs(1) net_step_grows [OF assms(1,2,5) si assms(3,4)] assms(11)] by blast
  obtain wji where ji: "node_fires ops cfg i t wj = Some wji" "net_step S cfg nch i (tr_rule t) wj wji"
    "computed S cfg i (tr_rule t) (wd_rest wj) = computed S cfg i (tr_rule t) (wd_rest w)"
    using grown_fires [OF assms(1,2,5,7) kj(1) assms(8) regs(2) net_step_grows [OF assms(1,3,6) sj assms(2) assms(4) [symmetric]] assms(10)] by blast
  have "chan_same S (nw_chans (wd_rest wij) ! c) (nw_chans (wd_rest wji) ! c)" if c: "c < nch" for c
  proof (rule chan_step_commute [OF net_step_chan [OF si c] net_step_chan [OF ij(2) c, unfolded ij(3)] net_step_chan [OF sj c]
        net_step_chan [OF ji(2) c, unfolded ji(3)]])
    note ai = ready_amounts [OF assms(1,2,5) ready(1)] and aj = ready_amounts [OF assms(1,3,6) ready(2)]
    show "taken cfg (tr_rule t) c \<le> length (cs_toks S (nw_chans (wd_rest w) ! c))"
      "taken cfg (tr_rule u) c \<le> length (cs_toks S (nw_chans (wd_rest w) ! c))" by (rule ai(1) aj(1))+
    show "length (given cfg (tr_rule t) (snd (computed S cfg i (tr_rule t) (wd_rest w))) c) \<le> cs_room S (nw_chans (wd_rest w) ! c)"
      "length (given cfg (tr_rule u) (snd (computed S cfg j (tr_rule u) (wd_rest w))) c) \<le> cs_room S (nw_chans (wd_rest w) ! c)"
      by (rule ai(2) aj(2))+
    show "taken cfg (tr_rule t) c = 0 \<or> taken cfg (tr_rule u) c = 0"
      by (rule taken_exclusive [OF assms(1,2,5,3,6,4)])
    show "given cfg (tr_rule t) (snd (computed S cfg i (tr_rule t) (wd_rest w))) c = [] \<or>
        given cfg (tr_rule u) (snd (computed S cfg j (tr_rule u) (wd_rest w))) c = []"
      by (rule given_exclusive [OF assms(1,2,5,3,6,4)])
  qed
  moreover have "nw_vars (wd_rest wij) = nw_vars (wd_rest wji)"
    using si sj ij(2,3) ji(2,3) assms(4) by (simp add: net_step_def fun_upd_twist)
  ultimately show ?thesis using ij(1) ji(1) by (auto simp: net_same_def)
qed

end

section \<open>Schedules\<close>

fun net_run :: "(gval, 's) chan_ops \<Rightarrow> net_conf \<Rightarrow> (nat \<times> rt_transition) list \<Rightarrow> 's network world \<Rightarrow> 's network world option" where
  "net_run ops cfg [] w = Some w"
| "net_run ops cfg ((i, t) # xs) w = do { w \<leftarrow> node_fires ops cfg i t w; net_run ops cfg xs w }"

text \<open>A network in which all transitions of a schedule fit and are registered.\<close>

definition schedule_ok :: "('a, 's) chan_spec \<Rightarrow> net_conf \<Rightarrow> nat \<Rightarrow> nat \<Rightarrow> (nat \<times> rt_transition) list \<Rightarrow> 's network world \<Rightarrow> bool" where
  "schedule_ok S cfg nn nch xs w \<longleftrightarrow> net_ok S nch w \<and> (\<forall>(i, t) \<in> set xs. i < nn \<and> rule_fits cfg i (tr_rule t) \<and>
     rule_registered S cfg (tr_rule t) (nw_chans (wd_rest w)))"

lemma schedule_ok_mem:
  assumes "schedule_ok S cfg nn nch xs w"
  shows "net_ok S nch w"
    and "(i, t) \<in> set xs \<Longrightarrow> i < nn \<and> rule_fits cfg i (tr_rule t) \<and> rule_registered S cfg (tr_rule t) (nw_chans (wd_rest w))"
  using assms by (auto simp: schedule_ok_def)

lemma schedule_ok_subset: "schedule_ok S cfg nn nch xs w \<Longrightarrow> set ys \<subseteq> set xs \<Longrightarrow> schedule_ok S cfg nn nch ys w"
  by (auto simp: schedule_ok_def)

lemma schedule_ok_same:
  assumes "net_wf cfg nn nch" "schedule_ok S cfg nn nch xs w" "net_ok S nch u" "net_same S nch w u"
  shows "schedule_ok S cfg nn nch xs u"
  using assms(2,3) net_same_registered [OF assms(1) _ _ assms(4)] by (auto simp: schedule_ok_def)

text \<open>Nodes that fire the same transitions in the same order in both schedules.\<close>

definition same_per_node :: "(nat \<times> rt_transition) list \<Rightarrow> (nat \<times> rt_transition) list \<Rightarrow> bool" where
  "same_per_node xs ys \<longleftrightarrow> (\<forall>i. filter (\<lambda>x. fst x = i) xs = filter (\<lambda>x. fst x = i) ys)"

lemma same_per_node_set: "same_per_node xs ys \<Longrightarrow> set xs = set ys"
proof -
  assume "same_per_node xs ys"
  then have "set (filter (\<lambda>x. fst x = i) xs) = set (filter (\<lambda>x. fst x = i) ys)" for i by (simp add: same_per_node_def)
  then show ?thesis unfolding set_filter by blast
qed

lemma same_per_node_Cons:
  assumes "same_per_node (x # xs) ys"
  shows "\<exists>as bs. ys = as @ x # bs \<and> (\<forall>y \<in> set as. fst y \<noteq> fst x) \<and> same_per_node xs (as @ bs)"
proof -
  have "filter (\<lambda>y. fst y = fst x) ys = x # filter (\<lambda>y. fst y = fst x) xs"
    using assms by (simp add: same_per_node_def eq_commute [of _ "filter _ ys"])
  then obtain as bs where ab: "ys = as @ x # bs" "\<forall>y \<in> set as. fst y \<noteq> fst x" "filter (\<lambda>y. fst y = fst x) xs = filter (\<lambda>y. fst y = fst x) bs"
    by (auto simp: filter_eq_Cons_iff)
  have "filter (\<lambda>y. fst y = i) xs = filter (\<lambda>y. fst y = i) (as @ bs)" for i
  proof (cases "i = fst x")
    case True
    then show ?thesis using ab(2,3) by (simp add: filter_empty_conv)
  next
    case False
    have "filter (\<lambda>y. fst y = i) (x # xs) = filter (\<lambda>y. fst y = i) ys" using assms by (simp add: same_per_node_def)
    then show ?thesis using False ab(1) by simp
  qed
  then show ?thesis using ab(1,2) by (auto simp: same_per_node_def)
qed

context node_channel
begin

lemma fires_schedule_ok:
  assumes "net_wf cfg nn nch" "schedule_ok S cfg nn nch ((i, t) # xs) w" "node_fires ops cfg i t w = Some w'"
  shows "schedule_ok S cfg nn nch ((i, t) # xs) w'"
proof -
  note it = schedule_ok_mem(2) [OF assms(2), of i t, simplified]
  have "net_step S cfg nch i (tr_rule t) w w'"
    using node_fires_iff(2) [OF assms(1) _ _ schedule_ok_mem(1) [OF assms(2)] _ assms(3)] it by blast
  from net_step_keeps(1) [OF this] net_step_keeps(2) [OF this assms(1)] show ?thesis
    using assms(2) by (auto simp: schedule_ok_def)
qed

lemma run_same:
  assumes "net_wf cfg nn nch"
  shows "schedule_ok S cfg nn nch xs w \<Longrightarrow> net_ok S nch u \<Longrightarrow> net_same S nch w u \<Longrightarrow> net_run ops cfg xs w = Some w' \<Longrightarrow>
    \<exists>u'. net_run ops cfg xs u = Some u' \<and> net_same S nch w' u'"
proof (induction xs arbitrary: w u)
  case (Cons x xs)
  obtain i t where x: "x = (i, t)" by (cases x)
  note it = schedule_ok_mem(2) [OF Cons.prems(1), of i t, unfolded x, simplified]
    and ok = schedule_ok_mem(1) [OF Cons.prems(1)]
  obtain w1 where w1: "node_fires ops cfg i t w = Some w1" "net_run ops cfg xs w1 = Some w'"
    using Cons.prems(4) by (auto simp: x bind_eq_Some_iff)
  then obtain u1 where u1: "node_fires ops cfg i t u = Some u1" "net_same S nch w1 u1"
    using fires_same [OF assms _ _ ok Cons.prems(2) _ Cons.prems(3)] it by blast
  have oku: "schedule_ok S cfg nn nch ((i, t) # xs) u"
    using schedule_ok_same [OF assms Cons.prems(1-3)] by (simp add: x)
  have "schedule_ok S cfg nn nch xs w1" "net_ok S nch u1"
    using fires_schedule_ok [OF assms Cons.prems(1) [unfolded x] w1(1)] fires_schedule_ok [OF assms oku u1(1)]
    by (auto simp: schedule_ok_def)
  from Cons.IH [OF this u1(2) w1(2)] show ?case using u1(1) by (simp add: x)
qed simp

text \<open>A firing that was possible from the start can come first.\<close>

lemma run_front:
  assumes "net_wf cfg nn nch"
  shows "schedule_ok S cfg nn nch (as @ (i, t) # bs) w \<Longrightarrow> \<forall>x \<in> set as. fst x \<noteq> i \<Longrightarrow> node_fires ops cfg i t w = Some w1 \<Longrightarrow>
    net_run ops cfg (as @ (i, t) # bs) w = Some w' \<Longrightarrow> \<exists>w''. net_run ops cfg (as @ bs) w1 = Some w'' \<and> net_same S nch w' w''"
proof (induction as arbitrary: w w1)
  case (Cons x as)
  obtain j u where x: "x = (j, u)" by (cases x)
  note ok = Cons.prems(1) [unfolded x, simplified] and mem = schedule_ok_mem(2) [OF Cons.prems(1), unfolded x]
  have ij: "i \<noteq> j" using Cons.prems(2) by (auto simp: x)
  have it: "i < nn" "rule_fits cfg i (tr_rule t)" "rule_registered S cfg (tr_rule t) (nw_chans (wd_rest w))"
    and ju: "j < nn" "rule_fits cfg j (tr_rule u)" "rule_registered S cfg (tr_rule u) (nw_chans (wd_rest w))"
    using mem [of i t] mem [of j u] by auto
  obtain wj where wj: "node_fires ops cfg j u w = Some wj" "net_run ops cfg (as @ (i, t) # bs) wj = Some w'"
    using Cons.prems(4) by (auto simp: x bind_eq_Some_iff)
  obtain wij wji where d: "node_fires ops cfg j u w1 = Some wij" "node_fires ops cfg i t wj = Some wji" "net_same S nch wij wji"
    using fires_commute [OF assms it(1) ju(1) ij it(2) ju(2) schedule_ok_mem(1) [OF ok] it(3) ju(3) Cons.prems(3) wj(1)] by blast
  have okj: "schedule_ok S cfg nn nch (as @ (i, t) # bs) wj"
    using fires_schedule_ok [OF assms ok wj(1)] by (rule schedule_ok_subset) auto
  from Cons.IH [OF okj _ d(2) wj(2)] Cons.prems(2) obtain v where
    v: "net_run ops cfg (as @ bs) wji = Some v" "net_same S nch w' v" by auto
  have "schedule_ok S cfg nn nch ((i, t) # as @ (i, t) # bs) wj" using okj by (rule schedule_ok_subset) auto
  from fires_schedule_ok [OF assms this d(2)] have okji: "schedule_ok S cfg nn nch (as @ bs) wji" by (rule schedule_ok_subset) auto
  have "schedule_ok S cfg nn nch ((i, t) # (j, u) # as @ (i, t) # bs) w" using ok by (rule schedule_ok_subset) auto
  from fires_schedule_ok [OF assms this Cons.prems(3)] have "schedule_ok S cfg nn nch ((j, u) # as @ (i, t) # bs) w1"
    by (rule schedule_ok_subset) auto
  from schedule_ok_mem(1) [OF fires_schedule_ok [OF assms this d(1)]]
  obtain v' where "net_run ops cfg (as @ bs) wij = Some v'" "net_same S nch v v'"
    using run_same [OF assms okji _ net_same_sym [OF d(3)] v(1)] by blast
  then show ?case using d(1) net_same_trans [OF v(2)] by (auto simp: x)
qed simp

lemma schedules_agree:
  assumes "net_wf cfg nn nch"
  shows "schedule_ok S cfg nn nch xs w \<Longrightarrow> same_per_node xs ys \<Longrightarrow> net_run ops cfg xs w = Some u \<Longrightarrow>
    net_run ops cfg ys w = Some v \<Longrightarrow> net_same S nch u v"
proof (induction xs arbitrary: w ys v)
  case Nil
  then have "set ys = {}" using same_per_node_set by fastforce
  then show ?case using Nil.prems by simp
next
  case (Cons x xs)
  obtain i t where x: "x = (i, t)" by (cases x)
  note ok = Cons.prems(1) [unfolded x]
  obtain w1 where w1: "node_fires ops cfg i t w = Some w1" "net_run ops cfg xs w1 = Some u"
    using Cons.prems(3) by (auto simp: x bind_eq_Some_iff)
  obtain as bs where ys: "ys = as @ (i, t) # bs" "\<forall>y \<in> set as. fst y \<noteq> i" "same_per_node xs (as @ bs)"
    using same_per_node_Cons [OF Cons.prems(2)] by (auto simp: x)
  have "schedule_ok S cfg nn nch ys w"
    by (rule schedule_ok_subset [OF Cons.prems(1)]) (use same_per_node_set [OF Cons.prems(2)] in simp)
  then obtain v' where v': "net_run ops cfg (as @ bs) w1 = Some v'" "net_same S nch v v'"
    using run_front [OF assms _ ys(2) w1(1)] Cons.prems(4) unfolding ys(1) by blast
  have "schedule_ok S cfg nn nch xs w1" using fires_schedule_ok [OF assms ok w1(1)] by (rule schedule_ok_subset) auto
  from Cons.IH [OF this ys(3) w1(2) v'(1)] show ?case using v'(2) net_same_sym net_same_trans by blast
qed

text \<open>What other nodes do does not disable a node.\<close>

lemma run_persistent:
  assumes "net_wf cfg nn nch" "i < nn" "rule_fits cfg i (tr_rule t)"
  shows "schedule_ok S cfg nn nch ((i, t) # xs) w \<Longrightarrow> \<forall>x \<in> set xs. fst x \<noteq> i \<Longrightarrow> net_run ops cfg xs w = Some w' \<Longrightarrow>
    node_fires ops cfg i t w \<noteq> None \<Longrightarrow> node_fires ops cfg i t w' \<noteq> None"
proof (induction xs arbitrary: w)
  case (Cons x xs)
  obtain j u where x: "x = (j, u)" by (cases x)
  note mem = schedule_ok_mem(2) [OF Cons.prems(1), unfolded x]
  have ij: "i \<noteq> j" using Cons.prems(2) by (auto simp: x)
  have it: "rule_registered S cfg (tr_rule t) (nw_chans (wd_rest w))"
    and ju: "j < nn" "rule_fits cfg j (tr_rule u)" "rule_registered S cfg (tr_rule u) (nw_chans (wd_rest w))"
    using mem [of i t] mem [of j u] by auto
  obtain wj where wj: "node_fires ops cfg j u w = Some wj" "net_run ops cfg xs wj = Some w'"
    using Cons.prems(3) by (auto simp: x bind_eq_Some_iff)
  have "node_fires ops cfg i t wj \<noteq> None"
    using fires_commute [OF assms(1,2) ju(1) ij assms(3) ju(2) schedule_ok_mem(1) [OF Cons.prems(1)] it ju(3) _ wj(1)] Cons.prems(4)
    by auto
  moreover have "schedule_ok S cfg nn nch ((j, u) # (i, t) # xs) w" using Cons.prems(1) unfolding x by (rule schedule_ok_subset) auto
  from fires_schedule_ok [OF assms(1) this wj(1)] have "schedule_ok S cfg nn nch ((i, t) # xs) wj" by (rule schedule_ok_subset) auto
  ultimately show ?case using Cons.IH wj(2) Cons.prems(2) by simp
qed simp

end

text \<open>Actors connected by FIFOs.\<close>

interpretation fifo_nodes: node_channel "fifo_ops L E D" "fifo_flow L E"
  for L and E :: "'b event_lib" and D :: "gval option"
  by (rule node_channel.intro) (rule fifo_net.flow_channel_axioms)

end
