(* ===== verification/Network_Start.thy ===== *)
theory Network_Start
  imports Network_Schedules
begin

text \<open>
  Networks of FIFOs from elaboration on.  Every port asks its channel for the events of the amounts its rules
  name, and the reset at the start of the simulation places the initial tokens; the properties of firings and
  schedules then hold in every state the network reaches.
\<close>

section \<open>Elaboration and reset\<close>

text \<open>The events the rules of a network ask a channel for, for tokens (True) or places.\<close>

definition rule_requests :: "net_conf \<Rightarrow> nat \<Rightarrow> rt_rule \<Rightarrow> (bool \<times> nat) list" where
  "rule_requests cfg c r = map (\<lambda>(p, k, n). (nc_end cfg p = Reads c, n))
     (filter (\<lambda>(p, k, n). chan_of (nc_end cfg p) = c) (rr_portIn r @ rr_portOut r))"

definition chan_requests :: "net_conf \<Rightarrow> (nat \<times> rt_transition) list \<Rightarrow> nat \<Rightarrow> (bool \<times> nat) list" where
  "chan_requests cfg ts c = concat (map (\<lambda>(i, t). rule_requests cfg c (tr_rule t)) ts)"

fun start_chans :: "math_lib \<Rightarrow> 'e event_lib \<Rightarrow> (nat \<Rightarrow> (bool \<times> nat) list) \<Rightarrow> nat \<Rightarrow> (nat \<times> 'a list) list \<Rightarrow>
    ('a, 'e) fifo_chan list option" where
  "start_chans L E rs c [] = Some []"
| "start_chans L E rs c ((n, marking) # cs) = do {
     s \<leftarrow> register_events E (rs c) (mk_fifo_chan n marking);
     s \<leftarrow> fifo_doReset L E s;
     ss \<leftarrow> start_chans L E rs (Suc c) cs;
     Some (s # ss)
   }"

definition net_start :: "math_lib \<Rightarrow> 'e event_lib \<Rightarrow> net_conf \<Rightarrow> (nat \<times> rt_transition) list \<Rightarrow> (nat \<times> gval list) list \<Rightarrow>
    (nat \<Rightarrow> string \<Rightarrow> gval) \<Rightarrow> (gval, 'e) fifo_chan network world option" where
  "net_start L E cfg ts cs V = do {
     chs \<leftarrow> start_chans L E (chan_requests cfg ts) 0 cs;
     Some \<lparr>wd_limit = \<lambda>_. 0, wd_rest = \<lparr>nw_chans = chs, nw_vars = V\<rparr>\<rparr>
   }"

text \<open>What is asked of a network: the initial tokens have room, and no amount is the reserved one.\<close>

definition net_design :: "net_conf \<Rightarrow> nat \<Rightarrow> (nat \<times> rt_transition) list \<Rightarrow> (nat \<times> gval list) list \<Rightarrow> bool" where
  "net_design cfg nn ts cs \<longleftrightarrow> net_wf cfg nn (length cs) \<and> list_all (\<lambda>(n, marking). length marking \<le> n) cs \<and>
     list_all (\<lambda>(i, t). i < nn \<and> rule_fits cfg i (tr_rule t) \<and>
       list_all (\<lambda>(p, k, n). n \<noteq> 2 ^ 64 - 1) (rr_portIn (tr_rule t) @ rr_portOut (tr_rule t))) ts"

lemma net_design_parts:
  assumes "net_design cfg nn ts cs"
  shows "net_wf cfg nn (length cs)" "list_all (\<lambda>(n, marking). length marking \<le> n) cs"
    and "(i, t) \<in> set ts \<Longrightarrow> i < nn \<and> rule_fits cfg i (tr_rule t)"
    and "(i, t) \<in> set ts \<Longrightarrow> (p, k, n) \<in> set (rr_portIn (tr_rule t)) \<union> set (rr_portOut (tr_rule t)) \<Longrightarrow> n \<noteq> 2 ^ 64 - 1"
proof -
  show "net_wf cfg nn (length cs)" "list_all (\<lambda>(n, marking). length marking \<le> n) cs" using assms by (simp_all add: net_design_def)
  have t: "\<forall>(i, t) \<in> set ts. i < nn \<and> rule_fits cfg i (tr_rule t) \<and>
      (\<forall>(p, k, n) \<in> set (rr_portIn (tr_rule t)) \<union> set (rr_portOut (tr_rule t)). n \<noteq> 2 ^ 64 - 1)"
    using assms unfolding net_design_def list_all_iff set_append by (elim conjE)
  show "i < nn \<and> rule_fits cfg i (tr_rule t)" if "(i, t) \<in> set ts" using bspec [OF t that] by simp
  show "n \<noteq> 2 ^ 64 - 1" if "(i, t) \<in> set ts" "(p, k, n) \<in> set (rr_portIn (tr_rule t)) \<union> set (rr_portOut (tr_rule t))"
    using bspec [OF t that(1)] that(2) by blast
qed

lemma register_events_Some:
  "list_all (\<lambda>(b, n). n \<noteq> 2 ^ 64 - 1) rs \<Longrightarrow> \<exists>c'. register_events E rs c = Some c'"
  by (induction E rs c rule: register_events.induct)
    (auto simp: dataAvailableEvent_def spaceAvailableEvent_def getEvent_def split: prod.splits)

lemma start_chan:
  fixes s :: "('a, 'e) fifo_chan"
  assumes "mg_laws L" "event_laws E" "list_all (\<lambda>(b, n). n \<noteq> 2 ^ 64 - 1) rs" "length marking \<le> n"
  shows "\<exists>s1 s2 :: ('a, 'e) fifo_chan. register_events E rs (mk_fifo_chan n marking) = Some s1 \<and> fifo_doReset L E s1 = Some s2 \<and>
    cs_inv (fifo_flow L E) s2 \<and> cs_toks (fifo_flow L E) s2 = marking \<and> cs_room (fifo_flow L E) s2 = n - length marking \<and>
    cs_data (fifo_flow L E) s2 = {k. (True, k) \<in> set rs} \<and> cs_space (fifo_flow L E) s2 = {k. (False, k) \<in> set rs}"
proof -
  obtain s1 :: "('a, 'e) fifo_chan" where s1: "register_events E rs (mk_fifo_chan n marking) = Some s1"
    using register_events_Some [OF assms(3)] by blast
  note c = registered_chan [OF s1]
  have "implements E s1 (fifo_step L E None ResetChan s1) (spec_op n marking ResetChan \<lparr>sp_C = 0, sp_V = [], sp_P = []\<rparr>)"
    using reset_implements [OF assms(1,2) c(1-3), of None] unfolding c(4-6) .
  then obtain s2 where s2: "fifo_doReset L E s1 = Some s2" "fifo_inv E s2" "same_chan s1 s2"
      "fifo_abs s2 = \<lparr>sp_C = 0, sp_V = marking, sp_P = []\<rparr>"
    using assms(4) by (cases "fifo_step L E None ResetChan s1") (auto simp: implements_Some implements_None)
  have "set (map fst (emmData s2)) = {k. (True, k) \<in> set rs}" "set (map fst (emmSpace s2)) = {k. (False, k) \<in> set rs}"
    "depthCount s2 = n" using same_chan_keys [OF s2(3)] c(4,8,9) by simp_all
  then show ?thesis using s1 s2 assms(1,2) by (simp add: fifo_flow_def spec_used_def)
qed

lemma start_chans_ok:
  assumes "mg_laws L" "event_laws E"
  shows "list_all (\<lambda>(n, marking). length marking \<le> n) cs \<Longrightarrow> \<forall>k. list_all (\<lambda>(b, n). n \<noteq> 2 ^ 64 - 1) (rs k) \<Longrightarrow>
    \<exists>chs :: ('a, 'e) fifo_chan list. start_chans L E rs c cs = Some chs \<and> length chs = length cs \<and>
      (\<forall>j < length cs. cs_inv (fifo_flow L E) (chs ! j) \<and> cs_toks (fifo_flow L E) (chs ! j) = snd (cs ! j) \<and>
        cs_room (fifo_flow L E) (chs ! j) = fst (cs ! j) - length (snd (cs ! j)) \<and>
        cs_data (fifo_flow L E) (chs ! j) = {k. (True, k) \<in> set (rs (c + j))} \<and>
        cs_space (fifo_flow L E) (chs ! j) = {k. (False, k) \<in> set (rs (c + j))})"
proof (induction cs arbitrary: c)
  case (Cons x cs)
  obtain n marking where x: "x = (n, marking)" by (cases x)
  have "length marking \<le> n" "list_all (\<lambda>(b, n). n \<noteq> 2 ^ 64 - 1) (rs c)" using Cons.prems by (simp_all add: x)
  then obtain s1 s2 :: "('a, 'e) fifo_chan" where s: "register_events E (rs c) (mk_fifo_chan n marking) = Some s1"
    "fifo_doReset L E s1 = Some s2" "cs_inv (fifo_flow L E) s2" "cs_toks (fifo_flow L E) s2 = marking"
    "cs_room (fifo_flow L E) s2 = n - length marking" "cs_data (fifo_flow L E) s2 = {k. (True, k) \<in> set (rs c)}"
    "cs_space (fifo_flow L E) s2 = {k. (False, k) \<in> set (rs c)}"
    using start_chan [OF assms] by blast
  obtain chs :: "('a, 'e) fifo_chan list" where chs: "start_chans L E rs (Suc c) cs = Some chs" "length chs = length cs"
    "\<forall>j < length cs. cs_inv (fifo_flow L E) (chs ! j) \<and> cs_toks (fifo_flow L E) (chs ! j) = snd (cs ! j) \<and>
        cs_room (fifo_flow L E) (chs ! j) = fst (cs ! j) - length (snd (cs ! j)) \<and>
        cs_data (fifo_flow L E) (chs ! j) = {k. (True, k) \<in> set (rs (Suc c + j))} \<and>
        cs_space (fifo_flow L E) (chs ! j) = {k. (False, k) \<in> set (rs (Suc c + j))}"
    using Cons.IH [of "Suc c"] Cons.prems by auto
  show ?case
    by (rule exI [of _ "s2 # chs"]) (use s chs in \<open>auto simp: x nth_Cons split: nat.split\<close>)
qed simp

lemma net_start_ok:
  assumes "mg_laws L" "event_laws E" "net_design cfg nn ts cs"
  shows "\<exists>w. net_start L E cfg ts cs V = Some w \<and> schedule_ok (fifo_flow L E) cfg nn (length cs) ts w \<and> nw_vars (wd_rest w) = V \<and>
    (\<forall>c < length cs. cs_toks (fifo_flow L E) (nw_chans (wd_rest w) ! c) = snd (cs ! c) \<and>
      cs_room (fifo_flow L E) (nw_chans (wd_rest w) ! c) = fst (cs ! c) - length (snd (cs ! c)))"
proof -
  let ?rs = "chan_requests cfg ts"
  note d = net_design_parts [OF assms(3)]
  have "n \<noteq> 2 ^ 64 - 1" if "(b, n) \<in> set (?rs c)" for b n c
    using that d(4) by (fastforce simp: chan_requests_def rule_requests_def)
  then have "\<forall>k. list_all (\<lambda>(b, n). n \<noteq> 2 ^ 64 - 1) (?rs k)" unfolding list_all_iff by blast
  from start_chans_ok [OF assms(1,2) d(2) this, of 0] obtain chs :: "(gval, 'a) fifo_chan list" where
    chs: "start_chans L E ?rs 0 cs = Some chs" "length chs = length cs"
    "\<And>j. j < length cs \<Longrightarrow> cs_inv (fifo_flow L E) (chs ! j) \<and> cs_toks (fifo_flow L E) (chs ! j) = snd (cs ! j) \<and>
        cs_room (fifo_flow L E) (chs ! j) = fst (cs ! j) - length (snd (cs ! j))"
    "\<And>j. j < length cs \<Longrightarrow> cs_data (fifo_flow L E) (chs ! j) = {k. (True, k) \<in> set (?rs j)} \<and>
        cs_space (fifo_flow L E) (chs ! j) = {k. (False, k) \<in> set (?rs j)}" by auto
  have "end_registered (fifo_flow L E) chs (nc_end cfg p) n"
    if it: "(i, t) \<in> set ts" and p: "(p, k, n) \<in> set (rr_portIn (tr_rule t)) \<union> set (rr_portOut (tr_rule t))" for i t p k n
  proof -
    let ?c = "chan_of (nc_end cfg p)"
    have "?c < length cs" using rule_end_chan(1) [OF d(1) _ _ p] d(3) [OF it] by blast
    moreover have "(nc_end cfg p = Reads ?c, n) \<in> set (rule_requests cfg ?c (tr_rule t))"
      using p by (force simp: rule_requests_def)
    then have "(nc_end cfg p = Reads ?c, n) \<in> set (?rs ?c)" using it by (force simp: chan_requests_def)
    ultimately show ?thesis using chs(4) [of ?c] by (cases "nc_end cfg p") (simp_all add: end_registered_def)
  qed
  then have "rule_registered (fifo_flow L E) cfg (tr_rule t) chs" if "(i, t) \<in> set ts" for i t
    using that unfolding rule_registered_def by blast
  then show ?thesis using chs(1-3) d(3) by (auto simp: net_start_def schedule_ok_def net_ok_def)
qed

section \<open>Reached states\<close>

text \<open>What a rule puts into a channel, as a number.\<close>

definition offered :: "net_conf \<Rightarrow> rt_rule \<Rightarrow> nat \<Rightarrow> nat" where
  "offered cfg r c = sum_list (map (\<lambda>(p, k, n). if nc_end cfg p = Writes c then k else 0) (rr_portOut r))"

lemma given_offered:
  assumes "net_wf cfg nn nch" "i < nn" "rule_fits cfg i r"
  shows "length (given cfg r (snd (computed S cfg i r x)) c) = offered cfg r c"
proof -
  note fits = rule_fits_ports [OF assms(3)]
  have "length (snd (computed S cfg i r x) p) = k" if "(p, k, n) \<in> set (rr_portOut r)" for p k n
    using computed_length [OF assms, of p] fits(4) [OF that] commSetup_ports(2) [OF fits(2) that] by simp
  then show ?thesis
    unfolding given_def offered_def length_concat map_map
    by (intro arg_cong [where f = sum_list] map_cong) (auto split: prod.splits)
qed

context node_channel
begin

lemma run_schedule_ok:
  assumes "net_wf cfg nn nch"
  shows "schedule_ok S cfg nn nch ts w \<Longrightarrow> set xs \<subseteq> set ts \<Longrightarrow> net_run ops cfg xs w = Some w' \<Longrightarrow> schedule_ok S cfg nn nch ts w'"
proof (induction xs arbitrary: w)
  case (Cons x xs)
  obtain i t where x: "x = (i, t)" by (cases x)
  obtain w1 where w1: "node_fires ops cfg i t w = Some w1" "net_run ops cfg xs w1 = Some w'"
    using Cons.prems(3) by (auto simp: x bind_eq_Some_iff)
  have "schedule_ok S cfg nn nch ((i, t) # ts) w"
    using Cons.prems(1) by (rule schedule_ok_subset) (use Cons.prems(2) x in auto)
  from fires_schedule_ok [OF assms this w1(1)] have "schedule_ok S cfg nn nch ts w1" by (rule schedule_ok_subset) auto
  then show ?case using Cons.IH w1(2) Cons.prems(2) by simp
qed simp

lemma same_enabled:
  assumes "net_wf cfg nn nch" "schedule_ok S cfg nn nch ts u" "schedule_ok S cfg nn nch ts v" "net_same S nch u v" "(i, t) \<in> set ts"
  shows "enabled (net_lib ops cfg i) u t = enabled (net_lib ops cfg i) v t"
proof -
  note m = schedule_ok_mem [OF assms(2)] and n = schedule_ok_mem [OF assms(3)]
  have it: "i < nn" "rule_fits cfg i (tr_rule t)" using m(2) [OF assms(5)] by blast+
  have en: "enabled (net_lib ops cfg i) w t \<longleftrightarrow> rule_ready S cfg (tr_rule t) (nw_chans (wd_rest w)) \<and> guard_holds S cfg i (tr_rule t) (wd_rest w)"
    if "w = u \<or> w = v" for w
    using that enabled_iff [OF assms(1) it, of w] m n assms(5) by blast
  note uv = net_same_grows [OF assms(1) it(1) assms(4)] and vu = net_same_grows [OF assms(1) it(1) net_same_sym [OF assms(4)]]
  show ?thesis
    using en [of u] en [of v] grows_ready [OF assms(1) it uv] grows_ready [OF assms(1) it vu] grows_guard [OF assms(1) it uv]
      grows_guard [OF assms(1) it vu] by blast
qed

lemma fires_balance:
  assumes "net_wf cfg nn nch" "i < nn" "rule_fits cfg i (tr_rule t)" "net_ok S nch w"
    and "rule_registered S cfg (tr_rule t) (nw_chans (wd_rest w))" "node_fires ops cfg i t w = Some w'" "c < nch"
  shows "length (cs_toks S (nw_chans (wd_rest w') ! c)) + taken cfg (tr_rule t) c =
      length (cs_toks S (nw_chans (wd_rest w) ! c)) + offered cfg (tr_rule t) c"
    and "length (cs_toks S (nw_chans (wd_rest w') ! c)) + cs_room S (nw_chans (wd_rest w') ! c) =
      length (cs_toks S (nw_chans (wd_rest w) ! c)) + cs_room S (nw_chans (wd_rest w) ! c)"
proof -
  have "rule_ready S cfg (tr_rule t) (nw_chans (wd_rest w))" using node_fires_iff(1) [OF assms(1-5)] assms(6) by auto
  note am = ready_amounts [OF assms(1-3) this, of c]
  have st: "chan_step S (nw_chans (wd_rest w) ! c) (taken cfg (tr_rule t) c)
      (given cfg (tr_rule t) (snd (computed S cfg i (tr_rule t) (wd_rest w))) c) (nw_chans (wd_rest w') ! c)"
    by (rule net_step_chan [OF node_fires_iff(2) [OF assms(1-6)] assms(7)])
  show "length (cs_toks S (nw_chans (wd_rest w') ! c)) + taken cfg (tr_rule t) c =
      length (cs_toks S (nw_chans (wd_rest w) ! c)) + offered cfg (tr_rule t) c"
    using st am(1) given_offered [OF assms(1-3), of S "wd_rest w" c] by (simp add: chan_step_def)
  show "length (cs_toks S (nw_chans (wd_rest w') ! c)) + cs_room S (nw_chans (wd_rest w') ! c) =
      length (cs_toks S (nw_chans (wd_rest w) ! c)) + cs_room S (nw_chans (wd_rest w) ! c)"
    using st am by (simp add: chan_step_def)
qed

lemma run_balance:
  assumes "net_wf cfg nn nch" "c < nch"
  shows "schedule_ok S cfg nn nch ts w \<Longrightarrow> set xs \<subseteq> set ts \<Longrightarrow> net_run ops cfg xs w = Some w' \<Longrightarrow>
    length (cs_toks S (nw_chans (wd_rest w') ! c)) + (\<Sum>(i, t) \<leftarrow> xs. taken cfg (tr_rule t) c) =
      length (cs_toks S (nw_chans (wd_rest w) ! c)) + (\<Sum>(i, t) \<leftarrow> xs. offered cfg (tr_rule t) c) \<and>
    length (cs_toks S (nw_chans (wd_rest w') ! c)) + cs_room S (nw_chans (wd_rest w') ! c) =
      length (cs_toks S (nw_chans (wd_rest w) ! c)) + cs_room S (nw_chans (wd_rest w) ! c)"
proof (induction xs arbitrary: w)
  case (Cons x xs)
  obtain i t where x: "x = (i, t)" by (cases x)
  obtain w1 where w1: "node_fires ops cfg i t w = Some w1" "net_run ops cfg xs w1 = Some w'"
    using Cons.prems(3) by (auto simp: x bind_eq_Some_iff)
  have it: "i < nn" "rule_fits cfg i (tr_rule t)" "rule_registered S cfg (tr_rule t) (nw_chans (wd_rest w))"
    using schedule_ok_mem(2) [OF Cons.prems(1), of i t] Cons.prems(2) by (auto simp: x)
  have "schedule_ok S cfg nn nch ts w1"
    using run_schedule_ok [OF assms(1) Cons.prems(1), of "[(i, t)]" w1] Cons.prems(2) w1(1) by (simp add: x)
  from Cons.IH [OF this _ w1(2)] Cons.prems(2) show ?case
    using fires_balance [OF assms(1) it(1,2) schedule_ok_mem(1) [OF Cons.prems(1)] it(3) w1(1) assms(2)] by (simp add: x)
qed simp

end

section \<open>Networks of FIFOs\<close>

text \<open>A state that a network reaches from elaboration and reset, firing transitions \<open>ts\<close>.\<close>

definition reached :: "math_lib \<Rightarrow> 'e event_lib \<Rightarrow> gval option \<Rightarrow> net_conf \<Rightarrow> (nat \<times> rt_transition) list \<Rightarrow> (nat \<times> gval list) list \<Rightarrow>
    (nat \<Rightarrow> string \<Rightarrow> gval) \<Rightarrow> (nat \<times> rt_transition) list \<Rightarrow> (gval, 'e) fifo_chan network world option" where
  "reached L E D cfg ts cs V xs = net_start L E cfg ts cs V \<bind> net_run (fifo_ops L E D) cfg xs"

lemma reached_ok:
  assumes "mg_laws L" "event_laws E" "net_design cfg nn ts cs" "set xs \<subseteq> set ts" "reached L E D cfg ts cs V xs = Some w"
  shows "net_wf cfg nn (length cs)" "schedule_ok (fifo_flow L E) cfg nn (length cs) ts w"
proof -
  show wf: "net_wf cfg nn (length cs)" using assms(3) by (simp add: net_design_def)
  obtain w0 where w0: "net_start L E cfg ts cs V = Some w0" "schedule_ok (fifo_flow L E) cfg nn (length cs) ts w0"
    using net_start_ok [OF assms(1-3)] by blast
  then show "schedule_ok (fifo_flow L E) cfg nn (length cs) ts w"
    using fifo_nodes.run_schedule_ok [OF wf w0(2) assms(4)] assms(5) by (simp add: reached_def)
qed

lemma reached_rule:
  assumes "mg_laws L" "event_laws E" "net_design cfg nn ts cs" "set xs \<subseteq> set ts" "reached L E D cfg ts cs V xs = Some w" "(i, t) \<in> set ts"
  shows "net_wf cfg nn (length cs)" "i < nn" "rule_fits cfg i (tr_rule t)" "net_ok (fifo_flow L E) (length cs) w"
    "rule_registered (fifo_flow L E) cfg (tr_rule t) (nw_chans (wd_rest w))"
  using reached_ok [OF assms(1-5)] schedule_ok_mem [of "fifo_flow L E" cfg nn "length cs" ts w] assms(6) by blast+

text \<open>
  An example: a source and a sink at a channel with two places and one initial token; the sink takes tokens with
  the value 7 only, and that is what the source writes.
\<close>

definition pair_conf :: net_conf where
  "pair_conf = \<lparr>nc_end = (\<lambda>p. if p = 0 then Writes 0 else Reads 0), nc_ins = (\<lambda>i. if i = 1 then [1] else []),
     nc_outs = (\<lambda>i. if i = 0 then [0] else []), nc_event = (\<lambda>e. (e, 1)), nc_member = (\<lambda>i f ps v. VEnabled),
     nc_body = (\<lambda>i f lim ins v. (v, \<lambda>p. replicate (lim p) (VUInt 7)))\<rparr>"

definition pair_rule :: "gexpr \<Rightarrow> rt_rule" where
  "pair_rule g = rule_end_of_elaboration (\<lambda>p n. p) (the (mk_rt_rule (\<lambda>p. p = 1) (mk_firing_rule g [\<lparr>fc_name = ''process'', fc_params = []\<rparr>])))"

definition pair_source :: rt_transition where
  "pair_source = \<lparr>tr_rule = pair_rule (GComm 0 1 1), tr_dest = 0, tr_actionStr = [], tr_preHooks = [], tr_postHooks = []\<rparr>"

definition pair_sink :: rt_transition where
  "pair_sink = \<lparr>tr_rule = pair_rule (g_and (GComm 1 1 1) (GBinOp Eq (GToken 1 0) (GLit (VUInt 7)))),
     tr_dest = 0, tr_actionStr = [], tr_preHooks = [], tr_postHooks = []\<rparr>"

abbreviation pair_net :: "(nat \<times> rt_transition) list" where
  "pair_net \<equiv> [(0, pair_source), (1, pair_sink)]"

lemma pair_rules:
  "rr_portIn (tr_rule pair_source) = []" "rr_portOut (tr_rule pair_source) = [(0, 1, 1)]"
  "rr_portIn (tr_rule pair_sink) = [(1, 1, 1)]" "rr_portOut (tr_rule pair_sink) = []"
  "fr_guard (tr_rule pair_source) = GVirtual (GComm 0 1 1)"
  "fr_guard (tr_rule pair_sink) = GVirtual (g_and (GComm 1 1 1) (GBinOp Eq (GToken 1 0) (GLit (VUInt 7))))"
  "fr_action (tr_rule pair_source) = [\<lparr>fc_name = ''process'', fc_params = []\<rparr>]"
  "fr_action (tr_rule pair_sink) = [\<lparr>fc_name = ''process'', fc_params = []\<rparr>]"
  "rr_ioPatternWaiter (tr_rule pair_source) = Some [0]" "rr_ioPatternWaiter (tr_rule pair_sink) = Some [1]"
  by (simp_all add: pair_source_def pair_sink_def pair_rule_def mk_rt_rule_def mk_firing_rule_def g_and_def
      rule_end_of_elaboration_def event_and_def firing_rule.defs)

lemma pair_design: "net_design pair_conf 2 pair_net [(2, [VUInt 7])]"
proof -
  have "net_wf pair_conf 2 1"
    by (auto simp: net_wf_def pair_conf_def node_ports_def less_2_cases_iff)
  moreover have "rule_fits pair_conf 0 (tr_rule pair_source)" "rule_fits pair_conf 1 (tr_rule pair_sink)"
    by (auto simp: rule_fits_def pair_rules pair_conf_def g_and_def)
  ultimately show ?thesis by (simp add: net_design_def pair_rules)
qed

abbreviation pair_reached where
  "pair_reached \<equiv> reached math_ref event_ref None pair_conf pair_net [(2, [VUInt 7])] (\<lambda>_ _. VEnabled)"

abbreviation pair_flow where
  "pair_flow \<equiv> fifo_flow math_ref event_ref"

abbreviation pair_ops :: "(gval, (gval, bool \<times> nat) fifo_chan) chan_ops" where
  "pair_ops \<equiv> fifo_ops math_ref event_ref None"

text \<open>Both actors can fire at the start, in either order.\<close>

lemma pair_start:
  "\<exists>w. pair_reached [] = Some w \<and> schedule_ok pair_flow pair_conf 2 1 pair_net w \<and>
    cs_toks pair_flow (nw_chans (wd_rest w) ! 0) = [VUInt 7] \<and>
    rule_ready pair_flow pair_conf (tr_rule pair_source) (nw_chans (wd_rest w)) \<and> guard_holds pair_flow pair_conf 0 (tr_rule pair_source) (wd_rest w) \<and>
    rule_ready pair_flow pair_conf (tr_rule pair_sink) (nw_chans (wd_rest w)) \<and> guard_holds pair_flow pair_conf 1 (tr_rule pair_sink) (wd_rest w)"
proof -
  obtain w where w: "net_start math_ref event_ref pair_conf pair_net [(2, [VUInt 7])] (\<lambda>_ _. VEnabled) = Some w"
    "schedule_ok pair_flow pair_conf 2 1 pair_net w" "cs_toks pair_flow (nw_chans (wd_rest w) ! 0) = [VUInt 7]"
    "cs_room pair_flow (nw_chans (wd_rest w) ! 0) = 1"
    using net_start_ok [OF math_ref_laws event_ref_laws pair_design, of "\<lambda>_ _. VEnabled"] by auto
  have "rule_ready pair_flow pair_conf (tr_rule pair_source) (nw_chans (wd_rest w))"
    "rule_ready pair_flow pair_conf (tr_rule pair_sink) (nw_chans (wd_rest w))"
    using w(3,4) by (simp_all add: rule_ready_def pair_rules end_ready_def) (simp_all add: pair_conf_def)
  moreover have "guard_holds pair_flow pair_conf 0 (tr_rule pair_source) (wd_rest w)"
    by (simp add: guard_holds_def pair_rules value_defs)
  moreover have "guard_holds pair_flow pair_conf 1 (tr_rule pair_sink) (wd_rest w)"
    using w(3) by (simp add: guard_holds_def pair_rules value_defs g_and_def token_env_def commSetup_def)
      (simp add: pair_conf_def)
  ultimately show ?thesis using w by (auto simp: reached_def)
qed

lemma pair_runs:
  "\<exists>u v. pair_reached [(0, pair_source), (1, pair_sink)] = Some u \<and> pair_reached [(1, pair_sink), (0, pair_source)] = Some v"
proof -
  obtain w where w: "pair_reached [] = Some w" "schedule_ok pair_flow pair_conf 2 1 pair_net w"
    "rule_ready pair_flow pair_conf (tr_rule pair_source) (nw_chans (wd_rest w))" "guard_holds pair_flow pair_conf 0 (tr_rule pair_source) (wd_rest w)"
    "rule_ready pair_flow pair_conf (tr_rule pair_sink) (nw_chans (wd_rest w))" "guard_holds pair_flow pair_conf 1 (tr_rule pair_sink) (wd_rest w)"
    using pair_start by blast
  have wf: "net_wf pair_conf 2 1" using net_design_parts(1) [OF pair_design] by simp
  note ok = schedule_ok_mem(1) [OF w(2)]
  have source: "rule_fits pair_conf 0 (tr_rule pair_source)" "rule_registered pair_flow pair_conf (tr_rule pair_source) (nw_chans (wd_rest w))"
    and sink: "rule_fits pair_conf 1 (tr_rule pair_sink)" "rule_registered pair_flow pair_conf (tr_rule pair_sink) (nw_chans (wd_rest w))"
    using schedule_ok_mem(2) [OF w(2), of 0 pair_source] schedule_ok_mem(2) [OF w(2), of 1 pair_sink] by simp_all
  obtain w0 w1 where "node_fires pair_ops pair_conf 0 pair_source w = Some w0" "node_fires pair_ops pair_conf 1 pair_sink w = Some w1"
    using fifo_nodes.node_fires_iff(1) [OF wf _ source(1) ok source(2), of None] w(3,4)
      fifo_nodes.node_fires_iff(1) [OF wf _ sink(1) ok sink(2), of None] w(5,6) by auto
  moreover from fifo_nodes.fires_commute [OF wf _ _ _ source(1) sink(1) ok source(2) sink(2) this]
  obtain u v where "node_fires pair_ops pair_conf 1 pair_sink w0 = Some u" "node_fires pair_ops pair_conf 0 pair_source w1 = Some v" by auto
  ultimately show ?thesis using w(1) unfolding reached_def by (auto simp: bind_eq_Some_iff)
qed

text \<open>
  C18.  In every state that a network of FIFOs reaches, a transition of a node is enabled exactly when its input
  channels have the tokens and its output channels the places its rule requires and its guard holds for
  the first tokens of the channels.  An enabled transition runs to its end without hitting an assertion
  and leads to its destination; every channel then has lost the tokens the node consumed and gained
  those its actions computed, the variables are those they computed, and nothing else has changed.
\<close>

theorem network_firing_exact:
  assumes "mg_laws L" "event_laws E" "net_design cfg nn ts cs" "set xs \<subseteq> set ts" "reached L E D cfg ts cs V xs = Some w" "(i, t) \<in> set ts"
  shows "(enabled (net_lib (fifo_ops L E D) cfg i) w t \<longleftrightarrow>
      rule_ready (fifo_flow L E) cfg (tr_rule t) (nw_chans (wd_rest w)) \<and> guard_holds (fifo_flow L E) cfg i (tr_rule t) (wd_rest w)) \<and>
    (enabled (net_lib (fifo_ops L E D) cfg i) w t \<longrightarrow>
      (\<exists>w'. transition_execute (net_lib (fifo_ops L E D) cfg i) src dst t w = Some (tr_dest t, w') \<and>
        net_step (fifo_flow L E) cfg (length cs) i (tr_rule t) w w'))"
proof -
  note r = reached_rule [OF assms]
  note en = fifo_nodes.enabled_iff [OF r, of D]
  show ?thesis
    using en fifo_nodes.transition_fires [OF r(1-4), of D src dst] by (fastforce simp: net_step_def)
qed

theorem network_firing_exact_witness:
  "\<exists>w w'. pair_reached [] = Some w \<and> enabled (net_lib pair_ops pair_conf 1) w pair_sink \<and>
    transition_execute (net_lib pair_ops pair_conf 1) [] [] pair_sink w = Some (0, w') \<and> cs_toks pair_flow (nw_chans (wd_rest w') ! 0) = []"
proof -
  obtain w where w: "pair_reached [] = Some w" "cs_toks pair_flow (nw_chans (wd_rest w) ! 0) = [VUInt 7]"
    "rule_ready pair_flow pair_conf (tr_rule pair_sink) (nw_chans (wd_rest w))" "guard_holds pair_flow pair_conf 1 (tr_rule pair_sink) (wd_rest w)"
    using pair_start by blast
  have "set [] \<subseteq> set pair_net" "(1, pair_sink) \<in> set pair_net" by simp_all
  from network_firing_exact [OF math_ref_laws event_ref_laws pair_design this(1) w(1) this(2), of "[]" "[]"] w(3,4)
  obtain w' where w': "enabled (net_lib pair_ops pair_conf 1) w pair_sink"
    "transition_execute (net_lib pair_ops pair_conf 1) [] [] pair_sink w = Some (tr_dest pair_sink, w')"
    "net_step pair_flow pair_conf 1 1 (tr_rule pair_sink) w w'" by auto
  have "taken pair_conf (tr_rule pair_sink) 0 = 1" "given pair_conf (tr_rule pair_sink) outs 0 = []" for outs
    by (simp_all add: taken_def given_def pair_rules) (simp add: pair_conf_def)
  then have "cs_toks pair_flow (nw_chans (wd_rest w') ! 0) = []"
    using net_step_chan [OF w'(3), of 0] w(2) by (simp add: chan_step_def)
  then show ?thesis using w(1) w'(1,2) by (auto simp: pair_sink_def)
qed

text \<open>
  C34.  The result of a run does not depend on how the firings of different nodes interleave: if in two
  schedules every node fires the same transitions in the same order, both end with the same tokens and places in
  every channel, the same variables, and the same enabled transitions.
\<close>

theorem network_schedules_agree:
  assumes "mg_laws L" "event_laws E" "net_design cfg nn ts cs" "set xs \<subseteq> set ts" "same_per_node xs ys"
    and "reached L E D cfg ts cs V xs = Some u" "reached L E D cfg ts cs V ys = Some v"
  shows "net_same (fifo_flow L E) (length cs) u v \<and> (\<forall>(i, t) \<in> set ts.
    enabled (net_lib (fifo_ops L E D) cfg i) u t = enabled (net_lib (fifo_ops L E D) cfg i) v t)"
proof -
  have sub: "set ys \<subseteq> set ts" using assms(4) same_per_node_set [OF assms(5)] by simp
  obtain w where w: "net_start L E cfg ts cs V = Some w" "schedule_ok (fifo_flow L E) cfg nn (length cs) ts w"
    using net_start_ok [OF assms(1-3)] by blast
  have runs: "net_run (fifo_ops L E D) cfg xs w = Some u" "net_run (fifo_ops L E D) cfg ys w = Some v"
    using assms(6,7) w(1) by (simp_all add: reached_def)
  note u = reached_ok [OF assms(1-4,6)] and v = reached_ok [OF assms(1-3) sub assms(7)]
  have same: "net_same (fifo_flow L E) (length cs) u v"
    by (rule fifo_nodes.schedules_agree [OF u(1) schedule_ok_subset [OF w(2) assms(4)] assms(5) runs])
  moreover have "enabled (net_lib (fifo_ops L E D) cfg i) u t = enabled (net_lib (fifo_ops L E D) cfg i) v t" if "(i, t) \<in> set ts" for i t
    using fifo_nodes.same_enabled [OF u(1) u(2) v(2) same that] .
  ultimately show ?thesis by blast
qed

theorem network_schedules_agree_witness:
  "\<exists>u v. pair_reached [(0, pair_source), (1, pair_sink)] = Some u \<and> pair_reached [(1, pair_sink), (0, pair_source)] = Some v \<and>
    net_same pair_flow 1 u v"
proof -
  obtain u v where r: "pair_reached [(0, pair_source), (1, pair_sink)] = Some u" "pair_reached [(1, pair_sink), (0, pair_source)] = Some v"
    using pair_runs by blast
  have "same_per_node [(0, pair_source), (1, pair_sink)] [(1, pair_sink), (0, pair_source)]"
    by (auto simp: same_per_node_def)
  from network_schedules_agree [OF math_ref_laws event_ref_laws pair_design _ this r] show ?thesis using r by simp
qed

text \<open>
  C12.  The tokens in the channels balance in every reached state: what a channel holds and what was consumed
  from it add up to its initial tokens and what was produced, and what it holds and its free places add up
  to its size.
\<close>

theorem network_tokens_balance:
  assumes "mg_laws L" "event_laws E" "net_design cfg nn ts cs" "set xs \<subseteq> set ts" "reached L E D cfg ts cs V xs = Some w" "c < length cs"
  shows "length (cs_toks (fifo_flow L E) (nw_chans (wd_rest w) ! c)) + (\<Sum>(i, t) \<leftarrow> xs. taken cfg (tr_rule t) c) =
      length (snd (cs ! c)) + (\<Sum>(i, t) \<leftarrow> xs. offered cfg (tr_rule t) c) \<and>
    length (cs_toks (fifo_flow L E) (nw_chans (wd_rest w) ! c)) + cs_room (fifo_flow L E) (nw_chans (wd_rest w) ! c) = fst (cs ! c)"
proof -
  note d = net_design_parts [OF assms(3)]
  obtain w0 where w0: "net_start L E cfg ts cs V = Some w0" "schedule_ok (fifo_flow L E) cfg nn (length cs) ts w0"
    "cs_toks (fifo_flow L E) (nw_chans (wd_rest w0) ! c) = snd (cs ! c)"
    "cs_room (fifo_flow L E) (nw_chans (wd_rest w0) ! c) = fst (cs ! c) - length (snd (cs ! c))"
    using net_start_ok [OF assms(1-3), of V] assms(6) by blast
  have "length (snd (cs ! c)) \<le> fst (cs ! c)"
    using bspec [OF d(2) [unfolded list_all_iff] nth_mem [OF assms(6)]] by (simp add: case_prod_beta)
  moreover have "net_run (fifo_ops L E D) cfg xs w0 = Some w" using assms(5) w0(1) by (simp add: reached_def)
  from fifo_nodes.run_balance [OF d(1) assms(6) w0(2) assms(4) this]
  have "length (cs_toks (fifo_flow L E) (nw_chans (wd_rest w) ! c)) + (\<Sum>(i, t) \<leftarrow> xs. taken cfg (tr_rule t) c) =
      length (snd (cs ! c)) + (\<Sum>(i, t) \<leftarrow> xs. offered cfg (tr_rule t) c)"
    and "length (cs_toks (fifo_flow L E) (nw_chans (wd_rest w) ! c)) + cs_room (fifo_flow L E) (nw_chans (wd_rest w) ! c) =
      length (snd (cs ! c)) + (fst (cs ! c) - length (snd (cs ! c)))"
    unfolding w0(3,4) by blast+
  ultimately show ?thesis by (simp only: le_add_diff_inverse simp_thms)
qed

theorem network_tokens_balance_witness:
  "\<exists>w. pair_reached [(0, pair_source), (1, pair_sink)] = Some w \<and> length (cs_toks pair_flow (nw_chans (wd_rest w) ! 0)) = 1 \<and>
    cs_room pair_flow (nw_chans (wd_rest w) ! 0) = 1"
proof -
  obtain w where w: "pair_reached [(0, pair_source), (1, pair_sink)] = Some w" using pair_runs by blast
  have b: "taken pair_conf (tr_rule pair_sink) 0 = 1" "taken pair_conf (tr_rule pair_source) 0 = 0"
    "offered pair_conf (tr_rule pair_sink) 0 = 0" "offered pair_conf (tr_rule pair_source) 0 = 1"
    by (simp_all add: taken_def offered_def pair_rules) (simp_all add: pair_conf_def)
  show ?thesis
    using network_tokens_balance [OF math_ref_laws event_ref_laws pair_design _ w, of 0] w b by simp
qed

end
