(* ===== verification/Reset_Channel.thy ===== *)
theory Reset_Channel
  imports Network_Start
begin

text \<open>
  The reset channel (\<^verbatim>\<open>headers/systemoc/smoc_reset.hpp\<close>, \<^verbatim>\<open>cpp/smoc_reset.cpp\<close>): a token written to it resets the
  channels and then the nodes that were connected to its net.  The channels are FIFOs, in the world of a
  network; the sets of pointers are lists in the order of the addresses.  While a FIFO is reset, its events
  signal the nodes that listen to them (\<^verbatim>\<open>NodeBase::signaled\<close>).  Which node is signaled at which waiter, and
  what is in the FIFO at that moment, is left open: the operations take the signals as an argument, and the
  theorems hold for all of them.
\<close>

section \<open>The channel\<close>

record 'e reset_chan =
  rc_tokenId :: "64 word"
  rc_sae :: 'e
  rc_dae :: 'e
  rc_chans :: "nat list"
  rc_nodes :: "nat list"

definition mk_reset_chan :: "'e event_lib \<Rightarrow> 'e reset_chan" where
  "mk_reset_chan E = \<lparr>rc_tokenId = 1, rc_sae = ev_new E False, rc_dae = ev_new E False, rc_chans = [], rc_nodes = []\<rparr>"

definition rc_connect_node :: "nat \<Rightarrow> 'e reset_chan \<Rightarrow> 'e reset_chan option" where
  "rc_connect_node i r = do { assert_that (i \<notin> set (rc_nodes r)); Some (r\<lparr>rc_nodes := insort i (rc_nodes r)\<rparr>) }"

definition rc_connect_chan :: "nat \<Rightarrow> 'e reset_chan \<Rightarrow> 'e reset_chan option" where
  "rc_connect_chan c r = do { assert_that (c \<notin> set (rc_chans r)); Some (r\<lparr>rc_chans := insort c (rc_chans r)\<rparr>) }"

definition rc_doReset :: "'e event_lib \<Rightarrow> 'e reset_chan \<Rightarrow> 'e reset_chan" where
  "rc_doReset E r = r\<lparr>rc_sae := ev_notify E (rc_sae r)\<rparr>"

definition rc_inTokenId :: "'e reset_chan \<Rightarrow> 64 word" where
  "rc_inTokenId r = rc_tokenId r - 1"

definition rc_outTokenId :: "'e reset_chan \<Rightarrow> 64 word" where
  "rc_outTokenId r = rc_tokenId r"

text \<open>
  A signal raised by the reset of channel \<open>c\<close>: the node, the waiter, and channel \<open>c\<close> in the midst of its
  reset.  Node \<open>i\<close> has the machine \<open>fst (F i)\<close> and its initial state.
\<close>

type_synonym 'e delivery = "nat \<times> nat list \<times> (gval, 'e) fifo_chan"

type_synonym 'e net_state = "(nat \<Rightarrow> node) \<times> (gval, 'e) fifo_chan network world"

abbreviation put_chan :: "nat \<Rightarrow> 's \<Rightarrow> 's network world \<Rightarrow> 's network world" where
  "put_chan c x w \<equiv> w\<lparr>wd_rest := (wd_rest w)\<lparr>nw_chans := (nw_chans (wd_rest w))[c := x]\<rparr>\<rparr>"

fun deliver :: "(gval, (gval, 'e) fifo_chan) chan_ops \<Rightarrow> net_conf \<Rightarrow> (nat \<Rightarrow> rt_fsm \<times> nat) \<Rightarrow> nat \<Rightarrow> 'e delivery list \<Rightarrow>
    'e net_state \<Rightarrow> 'e net_state option" where
  "deliver ops cfg F c [] s = Some s"
| "deliver ops cfg F c ((i, e, x) # ds) (nd, w) = do {
     (r, n, u) \<leftarrow> signaled (net_lib ops cfg i) (fst (F i)) e (nd i) (put_chan c x w);
     deliver ops cfg F c ds (nd(i := n), w\<lparr>wd_limit := wd_limit u\<rparr>)
   }"

text \<open>The loops over the connected channels and nodes.\<close>

fun reset_chans :: "math_lib \<Rightarrow> 'e event_lib \<Rightarrow> gval option \<Rightarrow> net_conf \<Rightarrow> (nat \<Rightarrow> rt_fsm \<times> nat) \<Rightarrow> (nat \<Rightarrow> 'e delivery list) \<Rightarrow>
    nat list \<Rightarrow> 'e net_state \<Rightarrow> 'e net_state option" where
  "reset_chans L E D cfg F sg [] s = Some s"
| "reset_chans L E D cfg F sg (c # cs) (nd, w) = do {
     x \<leftarrow> fifo_doReset L E (nw_chans (wd_rest w) ! c);
     (nd, w) \<leftarrow> deliver (fifo_ops L E D) cfg F c (sg c) (nd, w);
     reset_chans L E D cfg F sg cs (nd, put_chan c x w)
   }"

fun reset_nodes :: "(gval, 's) chan_ops \<Rightarrow> net_conf \<Rightarrow> (nat \<Rightarrow> rt_fsm \<times> nat) \<Rightarrow> nat list \<Rightarrow> (nat \<Rightarrow> node) \<Rightarrow> 's network world \<Rightarrow>
    ((nat \<Rightarrow> node) \<times> 's network world) option" where
  "reset_nodes ops cfg F [] nd w = Some (nd, w)"
| "reset_nodes ops cfg F (i # is) nd w = do {
     (n, w) \<leftarrow> node_doReset (net_lib ops cfg i) (fst (F i)) (snd (F i)) (nd i) w;
     reset_nodes ops cfg F is (nd(i := n)) w
   }"

definition rc_produce :: "math_lib \<Rightarrow> 'e event_lib \<Rightarrow> gval option \<Rightarrow> net_conf \<Rightarrow> (nat \<Rightarrow> rt_fsm \<times> nat) \<Rightarrow> (nat \<Rightarrow> 'e delivery list) \<Rightarrow>
    'e reset_chan \<Rightarrow> 'e net_state \<Rightarrow> ('e reset_chan \<times> 'e net_state) option" where
  "rc_produce L E D cfg F sg r s = (let r = r\<lparr>rc_tokenId := rc_tokenId r + 1\<rparr> in do {
     (nd, w) \<leftarrow> reset_chans L E D cfg F sg (rc_chans r) s;
     s \<leftarrow> reset_nodes (fifo_ops L E D) cfg F (rc_nodes r) nd w;
     Some (r, s)
   })"

section \<open>Entry and outlet\<close>

definition rc_spaceAvailableEvent :: "nat \<Rightarrow> 'e reset_chan \<Rightarrow> 'e option" where
  "rc_spaceAvailableEvent n r = do { assert_that (n = 1); Some (rc_sae r) }"

definition rc_dataAvailableEvent :: "nat \<Rightarrow> 'e reset_chan \<Rightarrow> 'e option" where
  "rc_dataAvailableEvent n r = do { assert_that (n = 1); Some (rc_dae r) }"

definition rc_entry_commStart :: "nat \<Rightarrow> unit option" where
  "rc_entry_commStart n = assert_that (n = 1)"

definition rc_entry_commFinish :: "math_lib \<Rightarrow> 'e event_lib \<Rightarrow> gval option \<Rightarrow> net_conf \<Rightarrow> (nat \<Rightarrow> rt_fsm \<times> nat) \<Rightarrow>
    (nat \<Rightarrow> 'e delivery list) \<Rightarrow> nat \<Rightarrow> bool \<Rightarrow> 'e reset_chan \<Rightarrow> 'e net_state \<Rightarrow> ('e reset_chan \<times> 'e net_state) option" where
  "rc_entry_commFinish L E D cfg F sg n dropped r s = do {
     assert_that (n = 1);
     assert_that (\<not> dropped);
     rc_produce L E D cfg F sg r s
   }"

definition rc_entry_commExec :: "math_lib \<Rightarrow> 'e event_lib \<Rightarrow> gval option \<Rightarrow> net_conf \<Rightarrow> (nat \<Rightarrow> rt_fsm \<times> nat) \<Rightarrow>
    (nat \<Rightarrow> 'e delivery list) \<Rightarrow> nat \<Rightarrow> 'e reset_chan \<Rightarrow> 'e net_state \<Rightarrow> ('e reset_chan \<times> 'e net_state) option" where
  "rc_entry_commExec L E D cfg F sg n r s = do {
     rc_entry_commStart n;
     rc_entry_commFinish L E D cfg F sg n False r s
   }"

text \<open>The outlet refuses every communication.\<close>

definition rc_outlet_commExec :: "nat \<Rightarrow> 'e reset_chan \<Rightarrow> 'e reset_chan option" where
  "rc_outlet_commExec n r = do { assert_that False; Some r }"

section \<open>Signals during a reset\<close>

text \<open>
  What a signal leaves of a node that is between two calls or executing: everything but its selected
  transition, its calls and its marks.
\<close>

definition kept :: "rt_fsm \<Rightarrow> node \<Rightarrow> node \<Rightarrow> bool" where
  "kept F n n' \<longleftrightarrow> nd_currentState n' = nd_currentState n \<and> nd_executing n' = nd_executing n \<and>
     nd_useActivationCallback n' = nd_useActivationCallback n \<and> nd_active n' = nd_active n \<and> (node_ok F n \<longrightarrow> node_ok F n')"

lemma kept_refl [simp]: "kept F n n"
  by (simp add: kept_def)

lemma kept_trans: "kept F n n' \<Longrightarrow> kept F n' n'' \<Longrightarrow> kept F n n''"
  by (simp add: kept_def)

lemma kept_sync: "kept F n n' \<Longrightarrow> nd_ct n' = nd_ct n \<Longrightarrow> sync W F n w \<Longrightarrow> sync W F n' w"
  by (simp add: kept_def sync_def)

definition signal_ready :: "rt_fsm \<Rightarrow> node \<Rightarrow> bool" where
  "signal_ready F n \<longleftrightarrow> rules_covered F \<and> (node_ok F n \<or> nd_executing n)"

lemma kept_ready: "kept F n n' \<Longrightarrow> signal_ready F n \<Longrightarrow> signal_ready F n'"
  by (auto simp: kept_def signal_ready_def)

lemma signaled_kept:
  assumes "view_law W" "signal_ready F n" "signaled W F e n w = Some (r, n', w')"
  shows "kept F n n' \<and> (nd_ct n' = nd_ct n \<or> sync W F n' w')"
proof (cases "nd_executing n")
  case True
  then have "\<not> node_ok F n" by (simp add: node_ok_def)
  then show ?thesis using True assms(3) by (auto simp: signaled_def kept_def Let_def split: if_splits)
next
  case False
  then have ok: "rules_covered F" "node_ok F n" using assms(2) by (auto simp: signal_ready_def)
  note s = signaled_ok [OF assms(1) ok assms(3)]
  show ?thesis using s ok(2) by (auto simp: kept_def node_ok_def)
qed

text \<open>Worlds with the same variables and the same channels outside of \<open>cs\<close>.\<close>

definition agree :: "nat list \<Rightarrow> 's network world \<Rightarrow> 's network world \<Rightarrow> bool" where
  "agree cs w u \<longleftrightarrow> nw_vars (wd_rest u) = nw_vars (wd_rest w) \<and>
     (\<forall>c. c \<notin> set cs \<longrightarrow> nw_chans (wd_rest u) ! c = nw_chans (wd_rest w) ! c)"

lemma agree_limit [simp]: "agree cs w (u\<lparr>wd_limit := l\<rparr>) = agree cs w u" "agree cs (w\<lparr>wd_limit := l\<rparr>) u = agree cs w u"
  by (simp_all add: agree_def)

lemma agree_put [simp]: "agree [c] w (put_chan c x w)" "agree [c] (put_chan c x w) w" "agree cs w w"
  by (auto simp: agree_def)

lemma agree_trans: "agree cs w u \<Longrightarrow> agree ds u v \<Longrightarrow> agree (cs @ ds) w v"
  by (auto simp: agree_def)

lemma agree_sym: "agree cs w u \<Longrightarrow> agree cs u w"
  by (auto simp: agree_def)

lemma agree_mono: "agree cs w u \<Longrightarrow> set cs \<subseteq> set ds \<Longrightarrow> agree ds w u"
  by (auto simp: agree_def)

text \<open>
  The effect of signals on the nodes: only the nodes in \<open>S\<close> are changed, and a node that has selected
  another transition has selected the first one enabled when only channels in \<open>cs\<close> were different.
\<close>

definition signals :: "(gval, 's) chan_ops \<Rightarrow> net_conf \<Rightarrow> (nat \<Rightarrow> rt_fsm \<times> nat) \<Rightarrow> nat list \<Rightarrow> nat set \<Rightarrow>
    (nat \<Rightarrow> node) \<times> 's network world \<Rightarrow> (nat \<Rightarrow> node) \<times> 's network world \<Rightarrow> bool" where
  "signals ops cfg F cs S s s' \<longleftrightarrow> agree cs (snd s) (snd s') \<and> (\<forall>i. kept (fst (F i)) (fst s i) (fst s' i) \<and>
     (i \<notin> S \<longrightarrow> fst s' i = fst s i) \<and>
     (nd_ct (fst s' i) = nd_ct (fst s i) \<or>
      (\<exists>u. agree cs (snd s') u \<and> sync (net_lib ops cfg i) (fst (F i)) (fst s' i) u)))"

lemma signals_refl: "agree cs w w' \<Longrightarrow> signals ops cfg F cs S (nd, w) (nd, w')"
  by (simp add: signals_def)

lemma signals_trans:
  assumes "signals ops cfg F cs S s s1" "signals ops cfg F ds T s1 s2"
  shows "signals ops cfg F (cs @ ds) (S \<union> T) s s2"
proof -
  have "nd_ct (fst s2 i) = nd_ct (fst s i) \<or>
      (\<exists>u. agree (cs @ ds) (snd s2) u \<and> sync (net_lib ops cfg i) (fst (F i)) (fst s2 i) u)" for i
  proof (cases "nd_ct (fst s2 i) = nd_ct (fst s1 i)")
    case False
    then obtain u where "agree ds (snd s2) u" "sync (net_lib ops cfg i) (fst (F i)) (fst s2 i) u"
      using assms(2) by (auto simp: signals_def)
    then show ?thesis using agree_mono [of ds _ u "cs @ ds"] by auto
  next
    case True
    show ?thesis
    proof (cases "nd_ct (fst s1 i) = nd_ct (fst s i)")
      case False
      then obtain u where u: "agree cs (snd s1) u" "sync (net_lib ops cfg i) (fst (F i)) (fst s1 i) u"
        using assms(1) by (auto simp: signals_def)
      have "agree ds (snd s2) (snd s1)" using assms(2) agree_sym by (auto simp: signals_def)
      from agree_mono [OF agree_trans [OF this u(1)], of "cs @ ds"] kept_sync [OF _ True u(2)] assms(2)
      show ?thesis by (auto simp: signals_def)
    qed (use True in simp)
  qed
  moreover have "kept (fst (F i)) (fst s i) (fst s2 i)" "i \<notin> S \<union> T \<longrightarrow> fst s2 i = fst s i" for i
    using assms kept_trans [of "fst (F i)" "fst s i" "fst s1 i" "fst s2 i"] by (auto simp: signals_def)
  moreover have "agree (cs @ ds) (snd s) (snd s2)" using assms agree_trans by (auto simp: signals_def)
  ultimately show ?thesis unfolding signals_def by blast
qed

lemma signals_mono: "signals ops cfg F cs S s s' \<Longrightarrow> set cs \<subseteq> set ds \<Longrightarrow> S \<subseteq> T \<Longrightarrow> signals ops cfg F ds T s s'"
  unfolding signals_def using agree_mono by blast

lemma signals_ready:
  "signals ops cfg F cs S s s' \<Longrightarrow> signal_ready (fst (F i)) (fst s i) \<Longrightarrow> signal_ready (fst (F i)) (fst s' i)"
  using kept_ready by (auto simp: signals_def)

lemma deliver_signals:
  "\<forall>i \<in> fst ` set ds. signal_ready (fst (F i)) (nd i) \<Longrightarrow> deliver ops cfg F c ds (nd, w) = Some (nd', w') \<Longrightarrow>
   (\<exists>l. w' = w\<lparr>wd_limit := l\<rparr>) \<and> signals ops cfg F [c] (fst ` set ds) (nd, w) (nd', w')"
proof (induction ds arbitrary: nd w)
  case Nil
  then have "nd' = nd" "w' = w" by simp_all
  then show ?case by (auto intro: signals_refl exI [of _ "wd_limit w"])
next
  case (Cons d ds)
  obtain i e x where d: "d = (i, e, x)" by (cases d)
  let ?W = "net_lib ops cfg i" and ?F = "fst (F i)"
  obtain r n u where u: "signaled ?W ?F e (nd i) (put_chan c x w) = Some (r, n, u)"
      "deliver ops cfg F c ds (nd(i := n), w\<lparr>wd_limit := wd_limit u\<rparr>) = Some (nd', w')"
    using Cons.prems(2) by (auto simp: d bind_eq_Some_iff)
  have i: "signal_ready ?F (nd i)" using Cons.prems(1) by (simp add: d)
  note k = signaled_kept [OF net_view_law i u(1)]
  have ul: "agree [c] w u"
  proof (cases "nd_executing (nd i)")
    case True
    then have "u = put_chan c x w" using u(1) by (auto simp: signaled_def Let_def split: if_splits)
    then show ?thesis by simp
  next
    case False
    then have "rules_covered ?F" "node_ok ?F (nd i)" using i by (auto simp: signal_ready_def)
    then show ?thesis using signaled_ok(4) [OF net_view_law _ _ u(1)] by auto
  qed
  have s1: "signals ops cfg F [c] {i} (nd, w) (nd(i := n), w\<lparr>wd_limit := wd_limit u\<rparr>)"
    using k ul by (auto simp: signals_def)
  have "\<forall>j \<in> fst ` set ds. signal_ready (fst (F j)) ((nd(i := n)) j)"
    using Cons.prems(1) signals_ready [OF s1] by (simp add: d)
  note ih = Cons.IH [OF this u(2)]
  then have s2: "\<exists>l. w' = w\<lparr>wd_limit := l\<rparr>" by auto
  from ih have s3: "signals ops cfg F [c] (fst ` set ds) (nd(i := n), w\<lparr>wd_limit := wd_limit u\<rparr>) (nd', w')" by blast
  have "signals ops cfg F [c] (fst ` set (d # ds)) (nd, w) (nd', w')"
    by (rule signals_mono [OF signals_trans [OF s1 s3]]) (auto simp: d)
  with s2 show ?case by blast
qed

definition signaled_nodes :: "(nat \<Rightarrow> 'e delivery list) \<Rightarrow> nat list \<Rightarrow> nat set" where
  "signaled_nodes sg cs = (\<Union>c \<in> set cs. fst ` set (sg c))"

section \<open>What a reset does\<close>

lemma reset_one_chan:
  assumes "mg_laws L" "event_laws E" "fifo_inv E c" "length (initialTokens c) \<le> depthCount c" "fifo_doReset L E c = Some x"
  shows "fifo_inv E x \<and> same_chan c x \<and> fifo_abs x = \<lparr>sp_C = 0, sp_V = initialTokens c, sp_P = []\<rparr>"
proof -
  have k: "qws_inv c" "emm_keys (emmData c)" "emm_keys (emmSpace c)"
    using assms(3) by (simp_all add: fifo_inv_def emm_ok_def)
  have "implements E c (fifo_step L E None ResetChan c) (spec_op (depthCount c) (initialTokens c) ResetChan (fifo_abs c))"
    using reset_implements [OF assms(1,2) k, of None] .
  then show ?thesis
    using assms(4,5) by (cases "fifo_step L E None ResetChan c") (auto simp: implements_Some implements_None)
qed

lemma reset_one_total:
  assumes "mg_laws L" "event_laws E" "fifo_inv E c" "length (initialTokens c) \<le> depthCount c"
  shows "\<exists>x. fifo_doReset L E c = Some x"
proof -
  have k: "qws_inv c" "emm_keys (emmData c)" "emm_keys (emmSpace c)"
    using assms(3) by (simp_all add: fifo_inv_def emm_ok_def)
  have "implements E c (fifo_step L E None ResetChan c) (spec_op (depthCount c) (initialTokens c) ResetChan (fifo_abs c))"
    using reset_implements [OF assms(1,2) k, of None] .
  then show ?thesis
    using assms(4) by (cases "fifo_step L E None ResetChan c") (auto simp: implements_Some implements_None)
qed

definition chans_fresh :: "'e event_lib \<Rightarrow> nat list \<Rightarrow> (gval, 'e) fifo_chan list \<Rightarrow> (gval, 'e) fifo_chan list \<Rightarrow> bool" where
  "chans_fresh E cs chs chs' \<longleftrightarrow> length chs' = length chs \<and> (\<forall>c < length chs. if c \<in> set cs
     then fifo_inv E (chs' ! c) \<and> same_chan (chs ! c) (chs' ! c) \<and>
       fifo_abs (chs' ! c) = \<lparr>sp_C = 0, sp_V = initialTokens (chs ! c), sp_P = []\<rparr>
     else chs' ! c = chs ! c)"

lemma reset_chans_fresh:
  assumes "mg_laws L" "event_laws E"
  shows "\<forall>c < length (nw_chans (wd_rest w)). fifo_inv E (nw_chans (wd_rest w) ! c) \<Longrightarrow> distinct cs \<Longrightarrow>
    set cs \<subseteq> {..<length (nw_chans (wd_rest w))} \<Longrightarrow>
    \<forall>c \<in> set cs. length (initialTokens (nw_chans (wd_rest w) ! c)) \<le> depthCount (nw_chans (wd_rest w) ! c) \<Longrightarrow>
    \<forall>i \<in> signaled_nodes sg cs. signal_ready (fst (F i)) (nd i) \<Longrightarrow>
    reset_chans L E D cfg F sg cs (nd, w) = Some (nd', w') \<Longrightarrow>
    chans_fresh E cs (nw_chans (wd_rest w)) (nw_chans (wd_rest w')) \<and>
    signals (fifo_ops L E D) cfg F cs (signaled_nodes sg cs) (nd, w) (nd', w')"
proof (induction cs arbitrary: nd w)
  case Nil
  then have "nd' = nd" "w' = w" by simp_all
  then show ?case by (simp add: chans_fresh_def signals_refl)
next
  case (Cons c cs)
  let ?ch = "\<lambda>w :: (gval, 'a) fifo_chan network world. nw_chans (wd_rest w)"
  obtain x nd1 w1 where x: "fifo_doReset L E (?ch w ! c) = Some x"
      "deliver (fifo_ops L E D) cfg F c (sg c) (nd, w) = Some (nd1, w1)"
      "reset_chans L E D cfg F sg cs (nd1, put_chan c x w1) = Some (nd', w')"
    using Cons.prems(6) by (auto simp: bind_eq_Some_iff)
  have c: "c < length (?ch w)" "fifo_inv E (?ch w ! c)" "length (initialTokens (?ch w ! c)) \<le> depthCount (?ch w ! c)"
    using Cons.prems by auto
  note fresh = reset_one_chan [OF assms c(2,3) x(1)]
  have "\<forall>i \<in> fst ` set (sg c). signal_ready (fst (F i)) (nd i)" using Cons.prems(5) by (auto simp: signaled_nodes_def)
  from deliver_signals [OF this x(2)] obtain l where l: "w1 = w\<lparr>wd_limit := l\<rparr>"
    and s1: "signals (fifo_ops L E D) cfg F [c] (fst ` set (sg c)) (nd, w) (nd1, w1)" by blast
  have s2: "signals (fifo_ops L E D) cfg F [c] {} (nd1, w1) (nd1, put_chan c x w1)"
    by (rule signals_refl) simp
  note s12 = signals_trans [OF s1 s2]
  have w2: "?ch (put_chan c x w1) = (?ch w)[c := x]" by (simp add: l)
  have "\<forall>d < length (?ch (put_chan c x w1)). fifo_inv E (?ch (put_chan c x w1) ! d)"
    unfolding w2 using Cons.prems(1) fresh c(1) by (auto simp: nth_list_update)
  moreover have "\<forall>d \<in> set cs. length (initialTokens (?ch (put_chan c x w1) ! d)) \<le> depthCount (?ch (put_chan c x w1) ! d)"
  proof
    fix d assume "d \<in> set cs"
    moreover from this have "d \<noteq> c" using Cons.prems(2) by auto
    ultimately show "length (initialTokens (?ch (put_chan c x w1) ! d)) \<le> depthCount (?ch (put_chan c x w1) ! d)"
      unfolding w2 using Cons.prems(4) by simp
  qed
  moreover have "set cs \<subseteq> {..<length (?ch (put_chan c x w1))}" unfolding w2 using Cons.prems(3) by simp
  moreover have "\<forall>i \<in> signaled_nodes sg cs. signal_ready (fst (F i)) (nd1 i)"
    using Cons.prems(5) signals_ready [OF s12] by (simp add: signaled_nodes_def)
  moreover have "distinct cs" using Cons.prems(2) by simp
  ultimately have r: "chans_fresh E cs (?ch (put_chan c x w1)) (?ch w')"
      "signals (fifo_ops L E D) cfg F cs (signaled_nodes sg cs) (nd1, put_chan c x w1) (nd', w')"
    using Cons.IH [OF _ _ _ _ _ x(3)] by blast+
  have fr: "chans_fresh E cs ((?ch w)[c := x]) (?ch w')" using r(1) w2 by metis
  have "chans_fresh E (c # cs) (?ch w) (?ch w')"
    unfolding chans_fresh_def
  proof (intro conjI allI impI)
    show "length (?ch w') = length (?ch w)" using fr by (simp add: chans_fresh_def)
    fix d assume d: "d < length (?ch w)"
    have "if d \<in> set cs then fifo_inv E (?ch w' ! d) \<and> same_chan ((?ch w)[c := x] ! d) (?ch w' ! d) \<and>
         fifo_abs (?ch w' ! d) = \<lparr>sp_C = 0, sp_V = initialTokens ((?ch w)[c := x] ! d), sp_P = []\<rparr>
       else ?ch w' ! d = (?ch w)[c := x] ! d"
      using fr d unfolding chans_fresh_def by simp
    then show "if d \<in> set (c # cs) then fifo_inv E (?ch w' ! d) \<and> same_chan (?ch w ! d) (?ch w' ! d) \<and>
         fifo_abs (?ch w' ! d) = \<lparr>sp_C = 0, sp_V = initialTokens (?ch w ! d), sp_P = []\<rparr>
       else ?ch w' ! d = ?ch w ! d"
      using fresh c(1) Cons.prems(2) by (cases "d = c") (simp_all split: if_splits)
  qed
  moreover have "signals (fifo_ops L E D) cfg F (c # cs) (signaled_nodes sg (c # cs)) (nd, w) (nd', w')"
    by (rule signals_mono [OF signals_trans [OF s12 r(2)]]) (auto simp: signaled_nodes_def)
  ultimately show ?case by blast
qed

lemma sync_limit: "view_law W \<Longrightarrow> rules_covered F \<Longrightarrow> node_ok F n \<Longrightarrow> sync W F n w \<Longrightarrow> sync W F n (w\<lparr>wd_limit := l\<rparr>)"
  using first_enabled_limit by (fastforce simp: sync_def node_ok_def)

lemma reset_node_state:
  assumes "view_law W" "rules_covered F" "node_ok F n" "F \<noteq> []" "wl_reset W w = w" "node_doReset W F s n w = Some (n', w')"
  shows "nd_currentState n' = Some s" "\<exists>l. w' = w\<lparr>wd_limit := l\<rparr>"
proof -
  obtain n1 where n1: "setCurrentState F s n = Some n1"
    and n': "(if nd_useActivationCallback n1 \<and> nd_active n1 then search_notify W F n1 w else Some (n1, w)) = Some (n', w')"
    using assms(4-6) by (auto simp: node_doReset_def Let_def bind_eq_Some_iff)
  have "node_ok F (n\<lparr>nd_executing := False\<rparr>)" using assms(3) by (simp add: node_ok_def split: option.splits)
  note c = set_state_ok [OF this n1]
  have ok: "node_ok F n1" using c(1,5) assms(3) by (simp add: node_ok_def split: option.splits)
  show "nd_currentState n' = Some s" "\<exists>l. w' = w\<lparr>wd_limit := l\<rparr>"
    using n' search_notify_ok [OF assms(1,2) ok c(2)] c(2) by (auto split: if_splits)
qed

lemma reset_nodes_fresh:
  "\<forall>i \<in> set is. node_ok (fst (F i)) (nd i) \<and> rules_covered (fst (F i)) \<and> fst (F i) \<noteq> [] \<Longrightarrow> distinct is \<Longrightarrow>
   reset_nodes ops cfg F is nd w = Some (nd', w') \<Longrightarrow>
   (\<exists>l. w' = w\<lparr>wd_limit := l\<rparr>) \<and> (\<forall>i. if i \<in> set is
      then nd_currentState (nd' i) = Some (snd (F i)) \<and> node_ok (fst (F i)) (nd' i) \<and> sync (net_lib ops cfg i) (fst (F i)) (nd' i) w'
      else nd' i = nd i)"
proof (induction "is" arbitrary: nd w)
  case Nil
  then show ?case by (auto intro: exI [of _ "wd_limit w"])
next
  case (Cons i js)
  let ?W = "net_lib ops cfg i" and ?F = "fst (F i)"
  obtain n w1 where n: "node_doReset ?W ?F (snd (F i)) (nd i) w = Some (n, w1)" "reset_nodes ops cfg F js (nd(i := n)) w1 = Some (nd', w')"
    using Cons.prems(3) by (auto simp: bind_eq_Some_iff)
  have i: "node_ok ?F (nd i)" "rules_covered ?F" "?F \<noteq> []" using Cons.prems(1) by auto
  have r: "wl_reset ?W w = w" by (simp add: net_lib_def)
  note st = reset_node_state [OF net_view_law i(2,1,3) r n(1)] and ok = reset_ok [OF net_view_law i(2,1) n(1)]
  have "\<forall>j \<in> set js. node_ok (fst (F j)) ((nd(i := n)) j) \<and> rules_covered (fst (F j)) \<and> fst (F j) \<noteq> []"
    using Cons.prems(1,2) by auto
  from Cons.IH [OF this _ n(2)] Cons.prems(2)
  have ih: "\<exists>l. w' = w1\<lparr>wd_limit := l\<rparr>" "\<And>j. if j \<in> set js
      then nd_currentState (nd' j) = Some (snd (F j)) \<and> node_ok (fst (F j)) (nd' j) \<and> sync (net_lib ops cfg j) (fst (F j)) (nd' j) w'
      else nd' j = (nd(i := n)) j" by simp_all
  have "nd' i = n" using ih(2) [of i] Cons.prems(2) by simp
  moreover have "sync ?W ?F n w'" using sync_limit [OF net_view_law i(2)] ok ih(1) by blast
  moreover have "\<exists>l. w' = w\<lparr>wd_limit := l\<rparr>" using ih(1) st(2) by auto
  moreover have "if j \<in> set (i # js)
      then nd_currentState (nd' j) = Some (snd (F j)) \<and> node_ok (fst (F j)) (nd' j) \<and> sync (net_lib ops cfg j) (fst (F j)) (nd' j) w'
      else nd' j = nd j" if "j \<noteq> i" for j
    using ih(2) [of j] that by (simp split: if_splits)
  ultimately show ?case using st(1) ok by (metis list.set_intros(1))
qed



end
