(* ===== verification/Composite_Graph.thy ===== *)
theory Composite_Graph
  imports Reset_Channel
begin

text \<open>
  Graphs (\<^verbatim>\<open>headers/smoc/detail/GraphBase.hpp\<close>, \<^verbatim>\<open>cpp/detail/GraphBase.cpp\<close>, \<^verbatim>\<open>cpp/smoc_graph.cpp\<close>): nodes that
  contain channels, actors and graphs.  A graph finds its children by name, resets them, and switches its
  actors off and on.  The channels are FIFOs in the world of a network.
\<close>

section \<open>Children\<close>

text \<open>An actor is its number; an elaborated graph is its number as a node, its channels and its nodes.\<close>

datatype node_obj =
    ActorObj nat
  | GraphObj nat "nat list" "node_obj list"

datatype sc_object =
    ChanObject string nat
  | NodeObject string node_obj
  | OtherObject string

fun object_name :: "sc_object \<Rightarrow> string" where
  "object_name (ChanObject s c) = s"
| "object_name (NodeObject s ob) = s"
| "object_name (OtherObject s) = s"

record graph_base =
  gb_node :: nat
  gb_nodes :: "node_obj list"
  gb_channels :: "nat list"
  gb_lookup :: "(string \<times> sc_object) list"

definition mk_graph :: "nat \<Rightarrow> graph_base" where
  "mk_graph i = \<lparr>gb_node = i, gb_nodes = [], gb_channels = [], gb_lookup = []\<rparr>"

definition add_child :: "sc_object \<Rightarrow> graph_base \<Rightarrow> graph_base" where
  "add_child ob gb = (case ob of
     ChanObject s c \<Rightarrow> gb\<lparr>gb_channels := gb_channels gb @ [c]\<rparr>
   | NodeObject s nob \<Rightarrow> gb\<lparr>gb_nodes := gb_nodes gb @ [nob]\<rparr>
   | OtherObject s \<Rightarrow> gb)"

fun graph_elaborate :: "sc_object list \<Rightarrow> graph_base \<Rightarrow> graph_base option" where
  "graph_elaborate [] gb = Some gb"
| "graph_elaborate (ob # obs) gb = do {
     assert_that (object_name ob \<notin> fst ` set (gb_lookup gb));
     graph_elaborate obs (add_child ob (gb\<lparr>gb_lookup := gb_lookup gb @ [(object_name ob, ob)]\<rparr>))
   }"

definition getChild :: "graph_base \<Rightarrow> string \<Rightarrow> sc_object option" where
  "getChild gb name = map_of (gb_lookup gb) name"

text \<open>\<^verbatim>\<open>disableActor\<close> and \<^verbatim>\<open>reEnableActor\<close>, for False and True; the child has to be an actor.\<close>

definition set_actor :: "(gval, 's) chan_ops \<Rightarrow> net_conf \<Rightarrow> (nat \<Rightarrow> rt_fsm \<times> nat) \<Rightarrow> bool \<Rightarrow> graph_base \<Rightarrow> string \<Rightarrow>
    (nat \<Rightarrow> node) \<times> 's network world \<Rightarrow> ((nat \<Rightarrow> node) \<times> 's network world) option" where
  "set_actor ops cfg F flag gb name = (\<lambda>(nd, w). case getChild gb name of
     Some (NodeObject s (ActorObj i)) \<Rightarrow> do {
       (n, w) \<leftarrow> setActive (net_lib ops cfg i) (fst (F i)) flag (nd i) w;
       Some (nd(i := n), w)
     }
   | _ \<Rightarrow> None)"

section \<open>Reset\<close>

text \<open>As in \<open>Reset_Channel\<close>, \<open>sg c\<close> are the signals that the reset of channel \<open>c\<close> raises.\<close>

fun graph_doReset :: "math_lib \<Rightarrow> 'e event_lib \<Rightarrow> gval option \<Rightarrow> net_conf \<Rightarrow> (nat \<Rightarrow> rt_fsm \<times> nat) \<Rightarrow> (nat \<Rightarrow> 'e delivery list) \<Rightarrow>
    node_obj \<Rightarrow> 'e net_state \<Rightarrow> 'e net_state option"
  and nodes_doReset :: "math_lib \<Rightarrow> 'e event_lib \<Rightarrow> gval option \<Rightarrow> net_conf \<Rightarrow> (nat \<Rightarrow> rt_fsm \<times> nat) \<Rightarrow> (nat \<Rightarrow> 'e delivery list) \<Rightarrow>
    node_obj list \<Rightarrow> 'e net_state \<Rightarrow> 'e net_state option" where
  "graph_doReset L E D cfg F sg (ActorObj i) (nd, w) = reset_nodes (fifo_ops L E D) cfg F [i] nd w"
| "graph_doReset L E D cfg F sg (GraphObj i cs obs) s = do {
     s \<leftarrow> reset_chans L E D cfg F sg cs s;
     (nd, w) \<leftarrow> nodes_doReset L E D cfg F sg obs s;
     reset_nodes (fifo_ops L E D) cfg F [i] nd w
   }"
| "nodes_doReset L E D cfg F sg [] s = Some s"
| "nodes_doReset L E D cfg F sg (ob # obs) s = do {
     s \<leftarrow> graph_doReset L E D cfg F sg ob s;
     nodes_doReset L E D cfg F sg obs s
   }"

text \<open>The channels and nodes of a graph, and for each node the channels it may see: those of the graphs around it.\<close>

fun tree_chans :: "node_obj \<Rightarrow> nat list" where
  "tree_chans (ActorObj i) = []"
| "tree_chans (GraphObj i cs obs) = cs @ concat (map tree_chans obs)"

fun tree_nodes :: "node_obj \<Rightarrow> nat list" where
  "tree_nodes (ActorObj i) = [i]"
| "tree_nodes (GraphObj i cs obs) = concat (map tree_nodes obs) @ [i]"

fun scopes :: "nat list \<Rightarrow> node_obj \<Rightarrow> (nat \<times> nat list) list" where
  "scopes vis (ActorObj i) = [(i, vis)]"
| "scopes vis (GraphObj i cs obs) = concat (map (scopes (vis @ cs)) obs) @ [(i, vis @ cs)]"

section \<open>Elaboration\<close>

lemma graph_elaborate_lookup:
  assumes "graph_elaborate obs gb = Some gb'"
  shows "gb_lookup gb' = gb_lookup gb @ map (\<lambda>ob. (object_name ob, ob)) obs" "gb_node gb' = gb_node gb"
    "gb_channels gb' = gb_channels gb @ concat (map (\<lambda>ob. case ob of ChanObject s c \<Rightarrow> [c] | _ \<Rightarrow> []) obs)"
    "gb_nodes gb' = gb_nodes gb @ concat (map (\<lambda>ob. case ob of NodeObject s nob \<Rightarrow> [nob] | _ \<Rightarrow> []) obs)"
    "distinct (map fst (gb_lookup gb)) \<Longrightarrow> distinct (map fst (gb_lookup gb'))"
proof -
  have "gb_lookup gb' = gb_lookup gb @ map (\<lambda>ob. (object_name ob, ob)) obs \<and> gb_node gb' = gb_node gb
    \<and> gb_channels gb' = gb_channels gb @ concat (map (\<lambda>ob. case ob of ChanObject s c \<Rightarrow> [c] | _ \<Rightarrow> []) obs)
    \<and> gb_nodes gb' = gb_nodes gb @ concat (map (\<lambda>ob. case ob of NodeObject s nob \<Rightarrow> [nob] | _ \<Rightarrow> []) obs)"
    using assms
  proof (induction obs gb rule: graph_elaborate.induct)
    case (2 ob obs gb)
    then show ?case
      by (cases ob) (auto simp: add_child_def split: if_splits)
  qed simp
  then show "gb_lookup gb' = gb_lookup gb @ map (\<lambda>ob. (object_name ob, ob)) obs" "gb_node gb' = gb_node gb"
    "gb_channels gb' = gb_channels gb @ concat (map (\<lambda>ob. case ob of ChanObject s c \<Rightarrow> [c] | _ \<Rightarrow> []) obs)"
    "gb_nodes gb' = gb_nodes gb @ concat (map (\<lambda>ob. case ob of NodeObject s nob \<Rightarrow> [nob] | _ \<Rightarrow> []) obs)"
    by blast+
  show "distinct (map fst (gb_lookup gb)) \<Longrightarrow> distinct (map fst (gb_lookup gb'))"
    using assms
  proof (induction obs gb rule: graph_elaborate.induct)
    case (2 ob obs gb)
    have "gb_lookup (add_child ob g) = gb_lookup g" for g
      by (cases ob) (simp_all add: add_child_def)
    then show ?case
      using 2 by (simp split: if_splits)
  qed simp
qed

text \<open>A graph with children of different names finds each by its name.\<close>

lemma graph_finds_children:
  assumes "graph_elaborate obs (mk_graph i) = Some gb"
  shows "getChild gb name = Some ob \<longleftrightarrow> ob \<in> set obs \<and> object_name ob = name"
proof -
  note g = graph_elaborate_lookup [OF assms]
  have "distinct (map fst (gb_lookup gb))"
    by (rule g(5)) (simp add: mk_graph_def)
  then have "getChild gb name = Some ob \<longleftrightarrow> (name, ob) \<in> set (gb_lookup gb)"
    by (simp add: getChild_def)
  then show ?thesis
    by (auto simp: g(1) mk_graph_def)
qed

lemma graph_elaborates: "distinct (map object_name obs) \<Longrightarrow> fst ` set (gb_lookup gb) \<inter> object_name ` set obs = {} \<Longrightarrow> \<exists>gb'. graph_elaborate obs gb = Some gb'"
proof (induction obs gb rule: graph_elaborate.induct)
  case (2 ob obs gb)
  have "gb_lookup (add_child ob g) = gb_lookup g" for g
    by (cases ob) (simp_all add: add_child_def)
  then show ?case
    using 2 by auto
qed simp

section \<open>What a reset does\<close>

definition resets :: "'e event_lib \<Rightarrow> (gval, (gval, 'e) fifo_chan) chan_ops \<Rightarrow> net_conf \<Rightarrow> (nat \<Rightarrow> rt_fsm \<times> nat) \<Rightarrow>
    (nat \<Rightarrow> 'e delivery list) \<Rightarrow> nat list \<Rightarrow> nat list \<Rightarrow> (nat \<times> nat list) list \<Rightarrow> 'e net_state \<Rightarrow> 'e net_state \<Rightarrow> bool" where
  "resets E ops cfg F sg cs is sc s s' \<longleftrightarrow> (let chs = nw_chans (wd_rest (snd s)); chs' = nw_chans (wd_rest (snd s')) in
     length chs' = length chs
   \<and> (\<forall>c < length chs. fifo_inv E (chs' ! c) \<and> same_chan (chs ! c) (chs' ! c)
        \<and> (if c \<in> set cs then fifo_abs (chs' ! c) = \<lparr>sp_C = 0, sp_V = initialTokens (chs ! c), sp_P = []\<rparr> else chs' ! c = chs ! c))
   \<and> agree cs (snd s) (snd s')
   \<and> (\<forall>i. i \<notin> set is \<longrightarrow> kept (fst (F i)) (fst s i) (fst s' i) \<and> (i \<notin> signaled_nodes sg cs \<longrightarrow> fst s' i = fst s i)
        \<and> (nd_ct (fst s' i) = nd_ct (fst s i)
           \<or> (\<exists>u. agree cs (snd s') u \<and> sync (net_lib ops cfg i) (fst (F i)) (fst s' i) u)))
   \<and> (\<forall>(i, vis) \<in> set sc. nd_currentState (fst s' i) = Some (snd (F i)) \<and> node_ok (fst (F i)) (fst s' i)
        \<and> (\<exists>u. sync (net_lib ops cfg i) (fst (F i)) (fst s' i) u \<and> nw_vars (wd_rest u) = nw_vars (wd_rest (snd s'))
             \<and> (\<forall>c \<in> set vis. nw_chans (wd_rest u) ! c = chs' ! c))))"

lemma resetsD:
  assumes "resets E ops cfg F sg cs is sc s s'"
  shows "length (nw_chans (wd_rest (snd s'))) = length (nw_chans (wd_rest (snd s)))"
    "c < length (nw_chans (wd_rest (snd s))) \<Longrightarrow> fifo_inv E (nw_chans (wd_rest (snd s')) ! c) \<and>
       same_chan (nw_chans (wd_rest (snd s)) ! c) (nw_chans (wd_rest (snd s')) ! c) \<and>
       (if c \<in> set cs then fifo_abs (nw_chans (wd_rest (snd s')) ! c) = \<lparr>sp_C = 0, sp_V = initialTokens (nw_chans (wd_rest (snd s)) ! c), sp_P = []\<rparr>
        else nw_chans (wd_rest (snd s')) ! c = nw_chans (wd_rest (snd s)) ! c)"
    "agree cs (snd s) (snd s')"
    "i \<notin> set is \<Longrightarrow> kept (fst (F i)) (fst s i) (fst s' i)"
    "i \<notin> set is \<Longrightarrow> i \<notin> signaled_nodes sg cs \<Longrightarrow> fst s' i = fst s i"
    "i \<notin> set is \<Longrightarrow> nd_ct (fst s' i) = nd_ct (fst s i)
       \<or> (\<exists>u. agree cs (snd s') u \<and> sync (net_lib ops cfg i) (fst (F i)) (fst s' i) u)"
    "(i, vis) \<in> set sc \<Longrightarrow> nd_currentState (fst s' i) = Some (snd (F i)) \<and> node_ok (fst (F i)) (fst s' i)
        \<and> (\<exists>u. sync (net_lib ops cfg i) (fst (F i)) (fst s' i) u \<and> nw_vars (wd_rest u) = nw_vars (wd_rest (snd s'))
             \<and> (\<forall>c \<in> set vis. nw_chans (wd_rest u) ! c = nw_chans (wd_rest (snd s')) ! c))"
  using assms unfolding resets_def Let_def by blast+

text \<open>The invariants a reset needs of channels and nodes.\<close>

definition reset_ready :: "'e event_lib \<Rightarrow> (nat \<Rightarrow> rt_fsm \<times> nat) \<Rightarrow> (nat \<Rightarrow> 'e delivery list) \<Rightarrow> nat list \<Rightarrow> nat list \<Rightarrow>
    'e net_state \<Rightarrow> bool" where
  "reset_ready E F sg cs is s \<longleftrightarrow> (let chs = nw_chans (wd_rest (snd s)) in
     (\<forall>c < length chs. fifo_inv E (chs ! c)) \<and> distinct cs \<and> set cs \<subseteq> {..<length chs}
   \<and> (\<forall>c \<in> set cs. length (initialTokens (chs ! c)) \<le> depthCount (chs ! c)) \<and> distinct is
   \<and> (\<forall>i \<in> set is. node_ok (fst (F i)) (fst s i) \<and> rules_covered (fst (F i)) \<and> fst (F i) \<noteq> [])
   \<and> (\<forall>i \<in> signaled_nodes sg cs. signal_ready (fst (F i)) (fst s i)))"

lemma same_chan_trans: "same_chan c1 c2 \<Longrightarrow> same_chan c2 c3 \<Longrightarrow> same_chan c1 c3"
  by (simp add: same_chan_def)

lemma same_chan_refl: "same_chan c c"
  by (simp add: same_chan_def)

lemma signaled_nodes_append [simp]:
  "signaled_nodes sg (cs @ ds) = signaled_nodes sg cs \<union> signaled_nodes sg ds" "signaled_nodes sg [] = {}"
  by (auto simp: signaled_nodes_def)

lemma reset_ready_rest:
  assumes "reset_ready E F sg (cs @ cs') (is @ is') s" "resets E ops cfg F sg cs is sc s s'" "set is \<subseteq> fst ` set sc"
  shows "reset_ready E F sg cs' is' s'"
proof -
  note D = resetsD [OF assms(2)]
  have "length (initialTokens (nw_chans (wd_rest (snd s')) ! c)) \<le> depthCount (nw_chans (wd_rest (snd s')) ! c)" if "c \<in> set cs'" for c
    using assms(1) D(2) [of c] that unfolding reset_ready_def Let_def by (auto simp: same_chan_def subset_iff)
  moreover have "node_ok (fst (F i)) (fst s' i)" if "i \<in> set is'" for i
  proof -
    have "i \<notin> set is" "node_ok (fst (F i)) (fst s i)" using assms(1) that by (auto simp: reset_ready_def Let_def)
    then show ?thesis using D(4) by (simp add: kept_def)
  qed
  moreover have "signal_ready (fst (F i)) (fst s' i)" if "i \<in> signaled_nodes sg cs'" for i
  proof (cases "i \<in> set is")
    case True
    then obtain vis where "(i, vis) \<in> set sc" using assms(3) by auto
    then show ?thesis using D(7) assms(1) True by (auto simp: signal_ready_def reset_ready_def Let_def)
  next
    case False
    then show ?thesis using D(4) [OF False] kept_ready assms(1) that by (auto simp: reset_ready_def Let_def)
  qed
  ultimately show ?thesis
    using assms(1) D(1,2) unfolding reset_ready_def Let_def by auto
qed

lemma reset_ready_first: "reset_ready E F sg (cs @ cs') (is @ is') s \<Longrightarrow> reset_ready E F sg cs is s"
  by (auto simp: reset_ready_def Let_def)

lemma resets_chans:
  assumes "mg_laws L" "event_laws E" "reset_ready E F sg cs is s" "reset_chans L E D cfg F sg cs s = Some s'"
  shows "resets E (fifo_ops L E D) cfg F sg cs [] [] s s'"
proof -
  obtain nd w nd' w' where s: "s = (nd, w)" "s' = (nd', w')" by (cases s; cases s') blast
  from reset_chans_fresh [OF assms(1,2) _ _ _ _ _ assms(4) [unfolded s]]
  have f: "chans_fresh E cs (nw_chans (wd_rest w)) (nw_chans (wd_rest w'))"
    and g: "signals (fifo_ops L E D) cfg F cs (signaled_nodes sg cs) (nd, w) (nd', w')"
    using assms(3) by (auto simp: s reset_ready_def Let_def)
  have "fifo_inv E (nw_chans (wd_rest w') ! c) \<and> same_chan (nw_chans (wd_rest w) ! c) (nw_chans (wd_rest w') ! c) \<and>
     (if c \<in> set cs then fifo_abs (nw_chans (wd_rest w') ! c) = \<lparr>sp_C = 0, sp_V = initialTokens (nw_chans (wd_rest w) ! c), sp_P = []\<rparr>
      else nw_chans (wd_rest w') ! c = nw_chans (wd_rest w) ! c)" if "c < length (nw_chans (wd_rest w))" for c
    using f that assms(3) by (auto simp: s chans_fresh_def reset_ready_def Let_def same_chan_refl split: if_splits)
  then show ?thesis
    using f g unfolding resets_def Let_def s signals_def chans_fresh_def fst_conv snd_conv list.set(1) by blast
qed

lemma resets_node:
  assumes "reset_ready E F sg cs [i] (nd, w)" "reset_nodes (fifo_ops L E D) cfg F [i] nd w = Some s'"
  shows "resets E (fifo_ops L E D) cfg F sg [] [i] [(i, vis)] (nd, w) s'"
proof -
  obtain nd' w' where s': "s' = (nd', w')" by (cases s')
  have "\<forall>j \<in> set [i]. node_ok (fst (F j)) (nd j) \<and> rules_covered (fst (F j)) \<and> fst (F j) \<noteq> []"
    using assms(1) by (simp add: reset_ready_def Let_def)
  from reset_nodes_fresh [OF this _ assms(2) [unfolded s']] obtain l where l: "w' = w\<lparr>wd_limit := l\<rparr>"
    and n: "\<And>j. if j \<in> set [i] then nd_currentState (nd' j) = Some (snd (F j)) \<and> node_ok (fst (F j)) (nd' j) \<and>
        sync (net_lib (fifo_ops L E D) cfg j) (fst (F j)) (nd' j) w' else nd' j = nd j"
    by auto
  have "nd_currentState (nd' i) = Some (snd (F i)) \<and> node_ok (fst (F i)) (nd' i) \<and> sync (net_lib (fifo_ops L E D) cfg i) (fst (F i)) (nd' i) w'"
    using n [of i] by simp
  moreover have "nd' j = nd j" if "j \<noteq> i" for j
    using n [of j] that by simp
  moreover have "nw_chans (wd_rest w') = nw_chans (wd_rest w)" "nw_vars (wd_rest w') = nw_vars (wd_rest w)" "agree [] w w'"
    by (simp_all add: l)
  ultimately show ?thesis
    using assms(1) by (auto simp: s' resets_def reset_ready_def Let_def same_chan_refl)
qed

text \<open>One reset after another, where the second does not touch what nodes of the first see.\<close>

lemma resets_then:
  assumes r1: "resets E ops cfg F sg cs1 is1 sc1 s s1" and r2: "resets E ops cfg F sg cs2 is2 sc2 s1 s2"
    and d: "set cs1 \<inter> set cs2 = {}" "set is1 \<inter> set is2 = {}" "\<forall>(i, vis) \<in> set sc1. i \<in> set is1 \<and> set vis \<inter> set cs2 = {}"
  shows "resets E ops cfg F sg (cs1 @ cs2) (is1 @ is2) (sc1 @ sc2) s s2"
proof -
  let ?ch = "\<lambda>s. nw_chans (wd_rest (snd s))"
  note A = resetsD [OF r1] and B = resetsD [OF r2]
  have "fifo_inv E (?ch s2 ! c) \<and> same_chan (?ch s ! c) (?ch s2 ! c)
      \<and> (if c \<in> set (cs1 @ cs2) then fifo_abs (?ch s2 ! c) = \<lparr>sp_C = 0, sp_V = initialTokens (?ch s ! c), sp_P = []\<rparr> else ?ch s2 ! c = ?ch s ! c)"
    if c: "c < length (?ch s)" for c
  proof -
    have c1: "c < length (?ch s1)" using c A(1) by simp
    have "same_chan (?ch s ! c) (?ch s2 ! c)"
      using A(2) [OF c] B(2) [OF c1] same_chan_trans by blast
    moreover have "initialTokens (?ch s1 ! c) = initialTokens (?ch s ! c)"
      using A(2) [OF c] by (simp add: same_chan_def)
    ultimately show ?thesis
      using A(2) [OF c] B(2) [OF c1] d(1) by (cases "c \<in> set cs1"; cases "c \<in> set cs2") auto
  qed
  moreover have ag: "agree (cs1 @ cs2) (snd s) (snd s2)" by (rule agree_trans [OF A(3) B(3)])
  moreover have "kept (fst (F i)) (fst s i) (fst s2 i) \<and>
      (i \<notin> signaled_nodes sg (cs1 @ cs2) \<longrightarrow> fst s2 i = fst s i) \<and>
      (nd_ct (fst s2 i) = nd_ct (fst s i) \<or>
       (\<exists>u. agree (cs1 @ cs2) (snd s2) u \<and> sync (net_lib ops cfg i) (fst (F i)) (fst s2 i) u))"
    if i: "i \<notin> set (is1 @ is2)" for i
  proof -
    have i': "i \<notin> set is1" "i \<notin> set is2" using i by auto
    note k = A(4) [OF i'(1)] B(4) [OF i'(2)]
    have "nd_ct (fst s2 i) = nd_ct (fst s i) \<or>
       (\<exists>u. agree (cs1 @ cs2) (snd s2) u \<and> sync (net_lib ops cfg i) (fst (F i)) (fst s2 i) u)"
      using B(6) [OF i'(2)]
    proof
      assume "\<exists>u. agree cs2 (snd s2) u \<and> sync (net_lib ops cfg i) (fst (F i)) (fst s2 i) u"
      then show ?thesis using agree_mono [of cs2 "snd s2" _ "cs1 @ cs2"] by auto
    next
      assume e: "nd_ct (fst s2 i) = nd_ct (fst s1 i)"
      from A(6) [OF i'(1)] show ?thesis
      proof
        assume "\<exists>u. agree cs1 (snd s1) u \<and> sync (net_lib ops cfg i) (fst (F i)) (fst s1 i) u"
        then obtain u where u: "agree cs1 (snd s1) u" "sync (net_lib ops cfg i) (fst (F i)) (fst s1 i) u" by blast
        have "agree (cs1 @ cs2) (snd s2) u"
          using agree_mono [OF agree_trans [OF agree_sym [OF B(3)] u(1)], of "cs1 @ cs2"] by simp
        then show ?thesis using kept_sync [OF k(2) e u(2)] by blast
      qed (use e in simp)
    qed
    then show ?thesis using k kept_trans A(5) [OF i'(1)] B(5) [OF i'(2)] by auto
  qed
  moreover have "nd_currentState (fst s2 i) = Some (snd (F i)) \<and> node_ok (fst (F i)) (fst s2 i)
        \<and> (\<exists>u. sync (net_lib ops cfg i) (fst (F i)) (fst s2 i) u \<and> nw_vars (wd_rest u) = nw_vars (wd_rest (snd s2))
             \<and> (\<forall>c \<in> set vis. nw_chans (wd_rest u) ! c = ?ch s2 ! c))" if i: "(i, vis) \<in> set (sc1 @ sc2)" for i vis
  proof (cases "(i, vis) \<in> set sc2")
    case True
    then show ?thesis by (rule B(7))
  next
    case False
    then have sc: "(i, vis) \<in> set sc1" using i by simp
    then have v: "i \<notin> set is2" "set vis \<inter> set cs2 = {}" using d(2,3) by auto
    note k = B(4) [OF v(1)]
    have same: "nw_vars (wd_rest (snd s2)) = nw_vars (wd_rest (snd s1))" "\<And>c. c \<in> set vis \<Longrightarrow> ?ch s2 ! c = ?ch s1 ! c"
      using B(3) v(2) by (auto simp: agree_def)
    obtain u where u: "sync (net_lib ops cfg i) (fst (F i)) (fst s1 i) u" "nw_vars (wd_rest u) = nw_vars (wd_rest (snd s1))"
        "\<forall>c \<in> set vis. nw_chans (wd_rest u) ! c = ?ch s1 ! c"
      using A(7) [OF sc] by blast
    have "\<exists>u. sync (net_lib ops cfg i) (fst (F i)) (fst s2 i) u \<and> nw_vars (wd_rest u) = nw_vars (wd_rest (snd s2))
             \<and> (\<forall>c \<in> set vis. nw_chans (wd_rest u) ! c = ?ch s2 ! c)"
      using B(6) [OF v(1)]
    proof
      assume "nd_ct (fst s2 i) = nd_ct (fst s1 i)"
      from kept_sync [OF k this u(1)] u(2,3) same show ?thesis by auto
    next
      assume "\<exists>u. agree cs2 (snd s2) u \<and> sync (net_lib ops cfg i) (fst (F i)) (fst s2 i) u"
      then obtain u' where u': "agree cs2 (snd s2) u'" "sync (net_lib ops cfg i) (fst (F i)) (fst s2 i) u'" by blast
      then show ?thesis using v(2) unfolding agree_def by blast
    qed
    then show ?thesis using k A(7) [OF sc] by (simp add: kept_def)
  qed
  moreover have "length (?ch s2) = length (?ch s)" using A(1) B(1) by simp
  ultimately show ?thesis unfolding resets_def Let_def by blast
qed

lemma scopes_in:
  "(i, v) \<in> set (scopes vis ob) \<Longrightarrow> i \<in> set (tree_nodes ob) \<and> set v \<subseteq> set vis \<union> set (tree_chans ob)"
proof (induction vis ob rule: scopes.induct)
  case (2 vis j cs obs)
  show ?case
  proof (cases "(i, v) = (j, vis @ cs)")
    case False
    then obtain ob where ob: "ob \<in> set obs" "(i, v) \<in> set (scopes (vis @ cs) ob)"
      using "2.prems" by auto
    from "2.IH" [OF this] have "i \<in> set (tree_nodes ob)" "set v \<subseteq> set (vis @ cs) \<union> set (tree_chans ob)"
      by simp_all
    then show ?thesis
      using ob(1) by fastforce
  qed auto
qed simp

lemma reset_ready_distinct: "reset_ready E F sg cs is s \<Longrightarrow> distinct cs \<and> distinct is"
  by (simp add: reset_ready_def Let_def)

lemma scopes_nodes: "map fst (scopes vis ob) = tree_nodes ob"
proof (induction vis ob rule: scopes.induct)
  case (2 vis i cs obs)
  have "map fst (concat (map (scopes (vis @ cs)) obs)) = concat (map tree_nodes obs)"
    using 2 by (simp add: map_concat comp_def cong: map_cong)
  then show ?case
    by simp
qed simp

lemma scopes_all: "set (concat (map tree_nodes obs)) \<subseteq> fst ` set (concat (map (scopes vis) obs))" "set (tree_nodes ob) \<subseteq> fst ` set (scopes vis ob)"
proof -
  show t: "set (tree_nodes ob) \<subseteq> fst ` set (scopes vis ob)" for ob
    using scopes_nodes [of vis ob] by (metis list.set_map order_refl)
  show "set (concat (map tree_nodes obs)) \<subseteq> fst ` set (concat (map (scopes vis) obs))"
    using t by (fastforce simp: image_Union)
qed

lemma graph_resets:
  fixes s :: "'e net_state"
  assumes "mg_laws L" "event_laws E"
  shows "\<lbrakk>reset_ready E F sg (tree_chans ob) (tree_nodes ob) s; set vis \<inter> set (tree_chans ob) = {};
      graph_doReset L E D cfg F sg ob s = Some s'\<rbrakk> \<Longrightarrow>
      resets E (fifo_ops L E D) cfg F sg (tree_chans ob) (tree_nodes ob) (scopes vis ob) s s'"
    and "\<lbrakk>reset_ready E F sg (concat (map tree_chans obs)) (concat (map tree_nodes obs)) s; set vis \<inter> set (concat (map tree_chans obs)) = {};
      nodes_doReset L E D cfg F sg obs s = Some s'\<rbrakk> \<Longrightarrow>
      resets E (fifo_ops L E D) cfg F sg (concat (map tree_chans obs)) (concat (map tree_nodes obs)) (concat (map (scopes vis) obs)) s s'"
  using assms
proof (induction L E D cfg F sg ob s and L E D cfg F sg obs s arbitrary: vis s' and vis s' rule: graph_doReset_nodes_doReset.induct)
  case (1 L E D cfg F sg i nd w)
  then show ?case
    using resets_node [of E F sg "[]" i nd w L D cfg s' vis] by simp
next
  case (2 L E D cfg F sg i cs obs s)
  let ?r = "resets E (fifo_ops L E D) cfg F sg"
  obtain s0 s1 where a: "reset_chans L E D cfg F sg cs s = Some s0" "nodes_doReset L E D cfg F sg obs s0 = Some s1"
    "reset_nodes (fifo_ops L E D) cfg F [i] (fst s1) (snd s1) = Some s'"
    using "2.prems"(3) by (auto simp: bind_eq_Some_iff)
  have ready: "reset_ready E F sg (cs @ concat (map tree_chans obs) @ []) ([] @ concat (map tree_nodes obs) @ [i]) s"
    using "2.prems"(1) by simp
  note d = reset_ready_distinct [OF ready]
  have r1: "?r cs [] [] s s0"
    by (rule resets_chans [OF "2.prems"(4,5) reset_ready_first [OF ready] a(1)])
  have ready1: "reset_ready E F sg (concat (map tree_chans obs) @ []) (concat (map tree_nodes obs) @ [i]) s0"
    by (rule reset_ready_rest [OF ready r1]) simp
  have vis: "set (vis @ cs) \<inter> set (concat (map tree_chans obs)) = {}"
    using "2.prems"(2) d by auto
  have r2: "?r (concat (map tree_chans obs)) (concat (map tree_nodes obs)) (concat (map (scopes (vis @ cs)) obs)) s0 s1"
    by (rule "2.IH" [OF a(1) reset_ready_first [OF ready1] vis a(2) "2.prems"(4,5)])
  have ready2: "reset_ready E F sg [] [i] s1"
    by (rule reset_ready_rest [OF ready1 r2 scopes_all(1)])
  have r3: "?r [] [i] [(i, vis @ cs)] s1 s'"
    using resets_node [of E F sg "[]" i "fst s1" "snd s1"] ready2 a(3) by simp
  have r12: "?r (cs @ concat (map tree_chans obs)) ([] @ concat (map tree_nodes obs)) ([] @ concat (map (scopes (vis @ cs)) obs)) s s1"
    by (rule resets_then [OF r1 r2]) (use d in auto)
  have "?r ((cs @ concat (map tree_chans obs)) @ []) (([] @ concat (map tree_nodes obs)) @ [i]) (([] @ concat (map (scopes (vis @ cs)) obs)) @ [(i, vis @ cs)]) s s'"
  proof (rule resets_then [OF r12 r3])
    have "j \<in> set ([] @ concat (map tree_nodes obs)) \<and> set v \<inter> set [] = {}"
      if j: "(j, v) \<in> set ([] @ concat (map (scopes (vis @ cs)) obs))" for j v
      using j scopes_in [of j v "vis @ cs"] by fastforce
    then show "\<forall>(j, v) \<in> set ([] @ concat (map (scopes (vis @ cs)) obs)). j \<in> set ([] @ concat (map tree_nodes obs)) \<and> set v \<inter> set [] = {}"
      by blast
  qed (use d in auto)
  then show ?case
    by simp
next
  case (3 L E D cfg F sg s)
  then show ?case
    by (auto simp: resets_def reset_ready_def Let_def same_chan_refl)
next
  case (4 L E D cfg F sg ob obs s)
  let ?r = "resets E (fifo_ops L E D) cfg F sg"
  obtain s1 where a: "graph_doReset L E D cfg F sg ob s = Some s1" "nodes_doReset L E D cfg F sg obs s1 = Some s'"
    using "4.prems"(3) by (auto simp: bind_eq_Some_iff)
  have ready: "reset_ready E F sg (tree_chans ob @ concat (map tree_chans obs)) (tree_nodes ob @ concat (map tree_nodes obs)) s"
    using "4.prems"(1) by simp
  note d = reset_ready_distinct [OF ready]
  have r1: "?r (tree_chans ob) (tree_nodes ob) (scopes vis ob) s s1"
    by (rule "4.IH"(1) [OF reset_ready_first [OF ready] _ a(1) "4.prems"(4,5)]) (use "4.prems"(2) in auto)
  have ready1: "reset_ready E F sg (concat (map tree_chans obs)) (concat (map tree_nodes obs)) s1"
    by (rule reset_ready_rest [OF ready r1 scopes_all(2)])
  have r2: "?r (concat (map tree_chans obs)) (concat (map tree_nodes obs)) (concat (map (scopes vis) obs)) s1 s'"
    by (rule "4.IH"(2) [OF a(1) ready1 _ a(2) "4.prems"(4,5)]) (use "4.prems"(2) in auto)
  have "?r (tree_chans ob @ concat (map tree_chans obs)) (tree_nodes ob @ concat (map tree_nodes obs)) (scopes vis ob @ concat (map (scopes vis) obs)) s s'"
  proof (rule resets_then [OF r1 r2])
    have "i \<in> set (tree_nodes ob) \<and> set v \<inter> set (concat (map tree_chans obs)) = {}"
      if "(i, v) \<in> set (scopes vis ob)" for i v
    proof -
      have "set (tree_chans ob) \<inter> set (concat (map tree_chans obs)) = {}" "set vis \<inter> set (concat (map tree_chans obs)) = {}"
        using d "4.prems"(2) by auto
      then show ?thesis
        using scopes_in [OF that] by blast
    qed
    then show "\<forall>(i, v) \<in> set (scopes vis ob). i \<in> set (tree_nodes ob) \<and> set v \<inter> set (concat (map tree_chans obs)) = {}"
      by blast
  qed (use d in auto)
  then show ?case
    by simp
qed



end
