(* ===== verification/FSM_States.thy ===== *)
theory FSM_States
  imports Firing_Rules
begin

text \<open>
  The hierarchical states of an actor's state machine: \<^verbatim>\<open>StateImpl\<close>, \<^verbatim>\<open>FiringStateImpl\<close>,
  \<^verbatim>\<open>XORStateImpl\<close>, \<^verbatim>\<open>ANDStateImpl\<close>, \<^verbatim>\<open>JunctionStateImpl\<close>, \<^verbatim>\<open>MultiStateImpl\<close>
  (\<^verbatim>\<open>cpp/detail/FSM/\<close>).  A state owns its children, so the states are a tree; a pointer to a state
  is its number.  A \<^verbatim>\<open>parent\<close> pointer is followed by walking the path from the root.  The number
  of bits for \<open>n\<close> children, \<^verbatim>\<open>CoSupport::Math::flog2c\<close>, is the parameter \<open>F\<close>.
\<close>

section \<open>States and transitions\<close>

datatype dest_ref = ToState nat | ToJunction nat | ToMulti nat

record partial_transition = firing_rule +
  pt_dest :: dest_ref

record state_info =
  si_id :: nat
  si_name :: string
  si_code :: "64 word"
  si_bits :: nat
  si_ptl :: "partial_transition list"

datatype hstate =
    Firing state_info
  | Xor state_info "nat option" "hstate list"
  | AndSt state_info "hstate list"

fun info :: "hstate \<Rightarrow> state_info" where
  "info (Firing i) = i"
| "info (Xor i init cs) = i"
| "info (AndSt i cs) = i"

fun children :: "hstate \<Rightarrow> hstate list" where
  "children (Firing i) = []"
| "children (Xor i init cs) = cs"
| "children (AndSt i cs) = cs"

abbreviation sid :: "hstate \<Rightarrow> nat" where
  "sid h \<equiv> si_id (info h)"

definition mk_info :: "nat \<Rightarrow> string \<Rightarrow> partial_transition list \<Rightarrow> state_info" where
  "mk_info i name ptl = \<lparr>si_id = i, si_name = name, si_code = 0, si_bits = 1, si_ptl = ptl\<rparr>"

text \<open>\<^verbatim>\<open>add\<close> appends a child; an exclusive state remembers the initial one.\<close>

fun add_child :: "hstate \<Rightarrow> bool \<Rightarrow> hstate \<Rightarrow> hstate" where
  "add_child c i (Xor n init cs) = Xor n (if i then Some (sid c) else init) (cs @ [c])"
| "add_child c i (AndSt n cs) = AndSt n (cs @ [c])"
| "add_child c i (Firing n) = Firing n"

text \<open>All states of a tree, and the path of states from the one with number \<open>n\<close> up to the root.\<close>

fun subs :: "hstate \<Rightarrow> hstate list" where
  "subs (Firing i) = [Firing i]"
| "subs (Xor i init cs) = Xor i init cs # concat (map subs cs)"
| "subs (AndSt i cs) = AndSt i cs # concat (map subs cs)"

fun path_to :: "nat \<Rightarrow> hstate \<Rightarrow> hstate list option"
  and path_in :: "nat \<Rightarrow> hstate list \<Rightarrow> hstate list option" where
  "path_to n (Firing i) = (if si_id i = n then Some [Firing i] else None)"
| "path_to n (Xor i init cs) = (if si_id i = n then Some [Xor i init cs]
     else map_option (\<lambda>p. p @ [Xor i init cs]) (path_in n cs))"
| "path_to n (AndSt i cs) = (if si_id i = n then Some [AndSt i cs]
     else map_option (\<lambda>p. p @ [AndSt i cs]) (path_in n cs))"
| "path_in n [] = None"
| "path_in n (c # cs) = (case path_to n c of Some p \<Rightarrow> Some p | None \<Rightarrow> path_in n cs)"

section \<open>Names\<close>

text \<open>\<^verbatim>\<open>getHierarchicalName\<close> on the path from the state to the top state.\<close>

fun getHierarchicalName :: "hstate list \<Rightarrow> string" where
  "getHierarchicalName [] = []"
| "getHierarchicalName [s] = si_name (info s)"
| "getHierarchicalName [s, t] = si_name (info s)"
| "getHierarchicalName (s # p # ps) = (let parentName = getHierarchicalName (p # ps)
     in if si_name (info s) = [] then parentName
        else if parentName = [] then si_name (info s)
        else parentName @ ''.'' @ si_name (info s))"

text \<open>\<^verbatim>\<open>select\<close> follows a dotted name; a wrong name fires an assertion.\<close>

fun split_dot :: "string \<Rightarrow> string \<times> string option" where
  "split_dot [] = ([], None)"
| "split_dot (ch # s) = (if ch = CHR ''.'' then ([], Some s)
     else (let (a, b) = split_dot s in (ch # a, b)))"

lemma split_dot_less: "split_dot s = (a, Some b) \<Longrightarrow> length b < length s"
  by (induction s arbitrary: a) (auto split: if_splits prod.splits)

function select :: "string \<Rightarrow> hstate \<Rightarrow> hstate option" where
  "select name h = (case split_dot name of
       ([], None) \<Rightarrow> Some h
     | ([], Some rest) \<Rightarrow> None
     | (nm, rest) \<Rightarrow> (case find (\<lambda>c. si_name (info c) = nm) (children h) of
           None \<Rightarrow> None
         | Some c \<Rightarrow> (case rest of None \<Rightarrow> Some c | Some r \<Rightarrow> select r c)))"
  by pat_completeness auto
termination
  by (relation "measure (\<lambda>(name, h). length name)") (auto dest: split_dot_less [OF sym])

declare select.simps [simp del]

section \<open>Ancestors and markings\<close>

definition isAncestor :: "state_info \<Rightarrow> state_info \<Rightarrow> bool" where
  "isAncestor this s = (if si_id s = si_id this then True
     else if si_bits this < si_bits s
       then si_code this = drop_bit (si_bits s - si_bits this) (si_code s)
     else False)"

type_synonym marking = "nat set"

fun mark :: "hstate list \<Rightarrow> marking \<Rightarrow> marking" where
  "mark [] m = m"
| "mark (s # parents) m = (if sid s \<in> m then m else mark parents (insert (sid s) m))"

definition isMarked :: "marking \<Rightarrow> hstate \<Rightarrow> bool" where
  "isMarked m s = (sid s \<in> m)"

section \<open>Initial states\<close>

type_synonym prod_state = "nat set"

text \<open>The loop of \<^verbatim>\<open>XORStateImpl::getInitialState\<close> over the children.\<close>

fun marked_child :: "marking \<Rightarrow> hstate list \<Rightarrow> hstate option \<Rightarrow> hstate option result" where
  "marked_child m [] t = Inr t"
| "marked_child m (s # ss) t = (if isMarked m s then
       (case t of Some _ \<Rightarrow> Inl (ModelingError ''smoc_xor_state: Must specify single initial state'')
        | None \<Rightarrow> marked_child m ss (Some s))
     else marked_child m ss t)"

definition xor_child :: "marking \<Rightarrow> nat option \<Rightarrow> hstate list \<Rightarrow> hstate result" where
  "xor_child m init cs = rbind (marked_child m cs None) (\<lambda>t.
     (case t of Some s \<Rightarrow> Inr s
      | None \<Rightarrow> (case init of None \<Rightarrow> Inl AssertFailed
          | Some i \<Rightarrow> (case find (\<lambda>c. sid c = i) cs of Some s \<Rightarrow> Inr s | None \<Rightarrow> Inl AssertFailed))))"

lemma marked_child_in: "marked_child m cs t = Inr (Some s) \<Longrightarrow> s \<in> set cs \<or> t = Some s"
  by (induction m cs t rule: marked_child.induct) (auto split: if_splits option.splits)

lemma xor_child_in: "xor_child m init cs = Inr s \<Longrightarrow> s \<in> set cs"
  by (auto simp: xor_child_def rbind_eq_Inr_iff find_Some_iff split: option.splits
      dest!: marked_child_in)

lemma xor_child_size [termination_simp]: "xor_child m init cs = Inr s \<Longrightarrow> size s < Suc (size_list size cs)"
  using xor_child_in [of m init cs s] by (simp add: size_list_estimation' less_Suc_eq_le)

function (sequential) getInitialState :: "marking \<Rightarrow> hstate \<Rightarrow> prod_state \<Rightarrow> prod_state result"
  and getInitialStates :: "marking \<Rightarrow> hstate list \<Rightarrow> prod_state \<Rightarrow> prod_state result" where
  "getInitialState m (Firing i) p = Inr (insert (si_id i) p)"
| "getInitialState m (Xor i init cs) p = rbind (xor_child m init cs) (\<lambda>t. getInitialState m t p)"
| "getInitialState m (AndSt i cs) p = getInitialStates m cs p"
| "getInitialStates m [] p = Inr p"
| "getInitialStates m (c # cs) p = rbind (getInitialState m c p) (\<lambda>p. getInitialStates m cs p)"
  by pat_completeness auto
termination
  by (relation "measure (\<lambda>x. case x of Inl (m, h, p) \<Rightarrow> 2 * size h + 1 | Inr (m, cs, p) \<Rightarrow> 2 * size_list size cs + 1)")
    (auto dest!: xor_child_size)

section \<open>Top states\<close>

text \<open>
  \<^verbatim>\<open>getTopState\<close> on the path from a state up to the root: the first state on it that contains all
  states \<open>d\<close>.  A concurrent state must not be crossed between its partitions.
\<close>

definition firing_getTopState :: "state_info \<Rightarrow> state_info list \<Rightarrow> hstate result \<Rightarrow> hstate result" where
  [simp]: "firing_getTopState i d up =
     (if \<exists>s \<in> set d. si_id s \<noteq> si_id i then up else Inr (Firing i))"

definition xor_getTopState :: "state_info \<Rightarrow> hstate \<Rightarrow> state_info list \<Rightarrow> hstate result \<Rightarrow> hstate result" where
  [simp]: "xor_getTopState i this d up =
     (if \<exists>s \<in> set d. \<not> isAncestor i s then up else Inr this)"

definition and_getTopState :: "state_info \<Rightarrow> hstate \<Rightarrow> state_info list \<Rightarrow> bool \<Rightarrow> hstate result \<Rightarrow> hstate result" where
  [simp]: "and_getTopState i this d isSrcState up =
     (if \<exists>s \<in> set d. \<not> isAncestor i s then up
      else if isSrcState \<or> (\<exists>s \<in> set d. si_id s = si_id i) then Inr this
      else Inl (ModelingError ''smoc_and_state: Can't create inter-partition transitions''))"

fun getTopState :: "hstate list \<Rightarrow> state_info list \<Rightarrow> bool \<Rightarrow> hstate result" where
  "getTopState [] d isSrcState = Inl AssertFailed"
| "getTopState (Firing i # ps) d isSrcState = firing_getTopState i d (getTopState ps d False)"
| "getTopState (Xor i init cs # ps) d isSrcState = xor_getTopState i (Xor i init cs) d (getTopState ps d False)"
| "getTopState (AndSt i cs # ps) d isSrcState =
     and_getTopState i (AndSt i cs) d isSrcState (getTopState ps d False)"

section \<open>Expanded transitions\<close>

record multi_state =
  ms_states :: "nat list"
  ms_cond :: "(nat \<times> bool) list"
  ms_ptl :: "partial_transition list"

record expanded_transition =
  et_src :: nat
  et_in :: "(nat \<times> bool) list"
  et_rule :: rt_rule
  et_dest :: "nat list"

text \<open>The states of the machine that are not in the hierarchy, by their numbers.\<close>

record connectors =
  junctions :: "(nat \<times> partial_transition list) list"
  multis :: "(nat \<times> multi_state) list"

definition acquireFiringRule :: "(nat \<Rightarrow> bool) \<Rightarrow> firing_rule \<Rightarrow> rt_rule result" where
  "acquireFiringRule isInput r = (case mk_rt_rule isInput r of Some rr \<Rightarrow> Inr rr | None \<Rightarrow> Inl AssertFailed)"

text \<open>
  \<^verbatim>\<open>expandTransition\<close> of the destination.  A junction passes the accumulated guard and action on to
  its own transitions; a cycle of junctions recurses without end.  A chain of different junctions has
  at most as many members as there are junctions, so with that much fuel only the endless recursions
  run out of it.
\<close>

fun expandTransition :: "nat \<Rightarrow> (nat \<Rightarrow> bool) \<Rightarrow> connectors \<Rightarrow> dest_ref \<Rightarrow> nat \<Rightarrow> (nat \<times> bool) list \<Rightarrow>
    firing_rule \<Rightarrow> expanded_transition list \<Rightarrow> expanded_transition list result"
  and expandTransitions :: "nat \<Rightarrow> (nat \<Rightarrow> bool) \<Rightarrow> connectors \<Rightarrow> partial_transition list \<Rightarrow> nat \<Rightarrow>
    (nat \<times> bool) list \<Rightarrow> firing_rule \<Rightarrow> expanded_transition list \<Rightarrow> expanded_transition list result" where
  "expandTransition f I K (ToState n) src conds r etl = rbind (acquireFiringRule I r) (\<lambda>rr.
     Inr (etl @ [\<lparr>et_src = src, et_in = conds, et_rule = rr, et_dest = [n]\<rparr>]))"
| "expandTransition f I K (ToMulti n) src conds r etl = (case map_of (multis K) n of
       None \<Rightarrow> Inl NullDeref
     | Some m \<Rightarrow>
        if ms_states m = [] then
          Inl (ModelingError ''smoc_multi_state: Destination multi-state must specify at least one target state!'')
        else if ms_cond m \<noteq> [] then
          Inl (ModelingError ''smoc_multi_state: Destination multi-state must not specify any condition states!'')
        else rbind (acquireFiringRule I r) (\<lambda>rr.
          Inr (etl @ [\<lparr>et_src = src, et_in = conds, et_rule = rr, et_dest = ms_states m\<rparr>])))"
| "expandTransition 0 I K (ToJunction n) src conds r etl = Inl Diverges"
| "expandTransition (Suc f) I K (ToJunction n) src conds r etl = (case map_of (junctions K) n of
       None \<Rightarrow> Inl NullDeref
     | Some ptl \<Rightarrow>
        if ptl = [] then Inl (ModelingError ''smoc_junction_state: Must specify at least one transition'')
        else expandTransitions f I K ptl src conds r etl)"
| "expandTransitions f I K [] src conds r etl = Inr etl"
| "expandTransitions f I K (pt # ptl) src conds r etl =
     rbind (expandTransition f I K (pt_dest pt) src conds
        (mk_firing_rule (g_and (fr_guard r) (fr_guard pt)) (merge_action (fr_action r) (fr_action pt))) etl)
       (\<lambda>etl. expandTransitions f I K ptl src conds r etl)"

text \<open>The loop over the transitions of a state or multi-state.\<close>

fun expand_all :: "(nat \<Rightarrow> bool) \<Rightarrow> connectors \<Rightarrow> partial_transition list \<Rightarrow> nat \<Rightarrow> (nat \<times> bool) list \<Rightarrow>
    expanded_transition list \<Rightarrow> expanded_transition list result" where
  "expand_all I K [] src conds etl = Inr etl"
| "expand_all I K (pt # ptl) src conds etl =
     rbind (expandTransition (length (junctions K)) I K (pt_dest pt) src conds (firing_rule.truncate pt) etl)
       (\<lambda>etl. expand_all I K ptl src conds etl)"

section \<open>Finalising\<close>

text \<open>
  \<^verbatim>\<open>StateImpl::finalise\<close>: the code of a child is the code of its parent followed by the index of
  the child.  The code and the number of bits the parent has just assigned are arguments.
\<close>

fun finalise :: "(nat \<Rightarrow> nat) \<Rightarrow> (nat \<Rightarrow> bool) \<Rightarrow> connectors \<Rightarrow> 64 word \<Rightarrow> nat \<Rightarrow> hstate \<Rightarrow>
    expanded_transition list \<Rightarrow> (hstate \<times> expanded_transition list) result"
  and finalise_list :: "(nat \<Rightarrow> nat) \<Rightarrow> (nat \<Rightarrow> bool) \<Rightarrow> connectors \<Rightarrow> 64 word \<Rightarrow> nat \<Rightarrow> hstate list \<Rightarrow>
    expanded_transition list \<Rightarrow> (hstate list \<times> expanded_transition list) result" where
  "finalise F I K code bits (Firing i) etl =
     rbind (expand_all I K (si_ptl i) (si_id i) [] etl)
       (\<lambda>etl. Inr (Firing (i\<lparr>si_code := code, si_bits := bits\<rparr>), etl))"
| "finalise F I K code bits (Xor i init cs) etl =
     (if init = None then Inl (ModelingError ''smoc_xor_state: Must specify initial state'')
      else if cs \<noteq> [] \<and> \<not> F (length cs) + bits < 64 then Inl AssertFailed
      else rbind (finalise_list F I K (push_bit (F (length cs)) code) (F (length cs) + bits) cs etl)
        (\<lambda>(cs, etl). rbind (expand_all I K (si_ptl i) (si_id i) [] etl)
          (\<lambda>etl. Inr (Xor (i\<lparr>si_code := code, si_bits := bits\<rparr>) init cs, etl))))"
| "finalise F I K code bits (AndSt i cs) etl =
     (if cs \<noteq> [] \<and> \<not> F (length cs) + bits < 64 then Inl AssertFailed
      else rbind (finalise_list F I K (push_bit (F (length cs)) code) (F (length cs) + bits) cs etl)
        (\<lambda>(cs, etl). rbind (expand_all I K (si_ptl i) (si_id i) [] etl)
          (\<lambda>etl. Inr (AndSt (i\<lparr>si_code := code, si_bits := bits\<rparr>) cs, etl))))"
| "finalise_list F I K cc cb [] etl = Inr ([], etl)"
| "finalise_list F I K cc cb (c # cs) etl = rbind (finalise F I K cc cb c etl)
     (\<lambda>(c, etl). rbind (finalise_list F I K (cc + 1) cb cs etl) (\<lambda>(cs, etl). Inr (c # cs, etl)))"

text \<open>\<^verbatim>\<open>MultiStateImpl::finalise\<close>.\<close>

definition multi_finalise :: "(nat \<Rightarrow> bool) \<Rightarrow> connectors \<Rightarrow> multi_state \<Rightarrow> expanded_transition list \<Rightarrow>
    expanded_transition list result" where
  "multi_finalise I K m etl =
     (if ms_ptl m = [] then Inr etl
      else (case ms_states m of
          [s] \<Rightarrow> expand_all I K (ms_ptl m) s (ms_cond m) etl
        | _ \<Rightarrow> Inl (ModelingError ''smoc_multi_state: Source multi-state must specify exactly one source state!'')))"

end
