(* ===== verification/FSM_Ancestors.thy ===== *)
theory FSM_Ancestors
  imports FSM_States
begin

text \<open>
  The codes that \<^verbatim>\<open>StateImpl::finalise\<close> assigns, and why \<^verbatim>\<open>isAncestor\<close> decides with them whether one
  state contains another.
\<close>

lemma hstate_children_induct [case_names node]:
  assumes "\<And>h. (\<And>c. c \<in> set (children h) \<Longrightarrow> P c) \<Longrightarrow> P h"
  shows "P h"
proof (induction h)
  case (Firing i)
  show ?case by (rule assms) simp
next
  case (Xor i init cs)
  show ?case by (rule assms) (simp add: Xor.IH)
next
  case (AndSt i cs)
  show ?case by (rule assms) (simp add: AndSt.IH)
qed

lemma subs_children: "subs h = h # concat (map subs (children h))"
  by (cases h) simp_all

lemma subs_self [simp]: "h \<in> set (subs h)"
  by (simp add: subs_children [of h])

lemma subs_child: "c \<in> set (children h) \<Longrightarrow> x \<in> set (subs c) \<Longrightarrow> x \<in> set (subs h)"
  by (auto simp: subs_children [of h])

lemma subs_cases:
  assumes "x \<in> set (subs h)"
  obtains "x = h" | c where "c \<in> set (children h)" "x \<in> set (subs c)"
  using assms by (auto simp: subs_children [of h])

lemma subs_trans: "y \<in> set (subs x) \<Longrightarrow> x \<in> set (subs h) \<Longrightarrow> y \<in> set (subs h)"
proof (induction h rule: hstate_children_induct)
  case (node h)
  from node.prems(2) show ?case
  proof (cases rule: subs_cases)
    case 1
    then show ?thesis using node.prems(1) by simp
  next
    case (2 c)
    then show ?thesis using node.IH node.prems(1) subs_child by blast
  qed
qed

definition ids :: "hstate \<Rightarrow> nat list" where
  "ids h = map sid (subs h)"

section \<open>Codes\<close>

fun coded_list :: "(64 word \<Rightarrow> nat \<Rightarrow> hstate \<Rightarrow> bool) \<Rightarrow> 64 word \<Rightarrow> nat \<Rightarrow> hstate list \<Rightarrow> bool" where
  "coded_list P cc cb [] = True"
| "coded_list P cc cb (c # cs) = (P cc cb c \<and> coded_list P (cc + 1) cb cs)"

lemma coded_list_cong [fundef_cong]:
  "cs = ds \<Longrightarrow> (\<And>cc cb c. c \<in> set ds \<Longrightarrow> P cc cb c = Q cc cb c) \<Longrightarrow> cc = dd \<Longrightarrow> cb = db \<Longrightarrow>
   coded_list P cc cb cs = coded_list Q dd db ds"
proof -
  assume a: "cs = ds" "\<And>cc cb c. c \<in> set ds \<Longrightarrow> P cc cb c = Q cc cb c" "cc = dd" "cb = db"
  have "(\<And>cc cb c. c \<in> set ds \<Longrightarrow> P cc cb c = Q cc cb c) \<Longrightarrow> coded_list P dd db ds = coded_list Q dd db ds"
    by (induction ds arbitrary: dd) auto
  then show ?thesis using a by blast
qed

fun coded :: "(nat \<Rightarrow> nat) \<Rightarrow> 64 word \<Rightarrow> nat \<Rightarrow> hstate \<Rightarrow> bool" where
  "coded F code bits (Firing i) = (si_code i = code \<and> si_bits i = bits)"
| "coded F code bits (Xor i init cs) = (si_code i = code \<and> si_bits i = bits \<and>
     (cs \<noteq> [] \<longrightarrow> F (length cs) + bits < 64) \<and>
     coded_list (coded F) (push_bit (F (length cs)) code) (F (length cs) + bits) cs)"
| "coded F code bits (AndSt i cs) = (si_code i = code \<and> si_bits i = bits \<and>
     (cs \<noteq> [] \<longrightarrow> F (length cs) + bits < 64) \<and>
     coded_list (coded F) (push_bit (F (length cs)) code) (F (length cs) + bits) cs)"

lemma coded_children:
  "coded F code bits h \<longleftrightarrow> si_code (info h) = code \<and> si_bits (info h) = bits \<and>
     (children h \<noteq> [] \<longrightarrow> F (length (children h)) + bits < 64) \<and>
     coded_list (coded F) (push_bit (F (length (children h))) code) (F (length (children h)) + bits) (children h)"
  by (cases h) auto

text \<open>\<^verbatim>\<open>finalise\<close> numbers the tree in this way and changes nothing else.\<close>

fun blank :: "hstate \<Rightarrow> hstate" where
  "blank (Firing i) = Firing (i\<lparr>si_code := 0, si_bits := 0\<rparr>)"
| "blank (Xor i init cs) = Xor (i\<lparr>si_code := 0, si_bits := 0\<rparr>) init (map blank cs)"
| "blank (AndSt i cs) = AndSt (i\<lparr>si_code := 0, si_bits := 0\<rparr>) (map blank cs)"

lemma finalise_coded:
  "finalise F I K code bits h etl = Inr (h', etl') \<Longrightarrow> coded F code bits h' \<and> blank h' = blank h"
  "finalise_list F I K cc cb cs etl = Inr (cs', etl') \<Longrightarrow>
     coded_list (coded F) cc cb cs' \<and> map blank cs' = map blank cs"
proof (induction F I K code bits h etl and F I K cc cb cs etl arbitrary: h' etl' and cs' etl'
    rule: finalise_finalise_list.induct)
  case (2 F I K code bits i init cs etl)
  then obtain ds etl1 where "finalise_list F I K (push_bit (F (length cs)) code) (F (length cs) + bits) cs etl = Inr (ds, etl1)"
      "h' = Xor (i\<lparr>si_code := code, si_bits := bits\<rparr>) init ds" "cs \<noteq> [] \<longrightarrow> F (length cs) + bits < 64" "init \<noteq> None"
    by (auto simp: rbind_eq_Inr_iff split: if_splits)
  moreover from this "2.IH" [OF _ _ this(1)] have "map blank ds = map blank cs"
    "coded_list (coded F) (push_bit (F (length cs)) code) (F (length cs) + bits) ds" by auto
  moreover have "length ds = length cs" using calculation(5) by (metis length_map)
  ultimately show ?case by auto
next
  case (3 F I K code bits i cs etl)
  then obtain ds etl1 where "finalise_list F I K (push_bit (F (length cs)) code) (F (length cs) + bits) cs etl = Inr (ds, etl1)"
      "h' = AndSt (i\<lparr>si_code := code, si_bits := bits\<rparr>) ds" "cs \<noteq> [] \<longrightarrow> F (length cs) + bits < 64"
    by (auto simp: rbind_eq_Inr_iff split: if_splits)
  moreover from this "3.IH" [OF _ this(1)] have "map blank ds = map blank cs"
    "coded_list (coded F) (push_bit (F (length cs)) code) (F (length cs) + bits) ds" by auto
  moreover have "length ds = length cs" using calculation(4) by (metis length_map)
  ultimately show ?case by auto
qed (auto simp: rbind_eq_Inr_iff)

text \<open>
  What the code relies on: \<^verbatim>\<open>flog2c\<close>, the binary logarithm rounded up, gives enough bits to number
  the children of every state.  One child needs no bit, so \<^verbatim>\<open>flog2c(1)\<close> may be zero.
\<close>

definition bits_suffice :: "(nat \<Rightarrow> nat) \<Rightarrow> hstate \<Rightarrow> bool" where
  "bits_suffice F h \<longleftrightarrow> (\<forall>x \<in> set (subs h). children x \<noteq> [] \<longrightarrow>
     length (children x) \<le> 2 ^ F (length (children x)))"

lemma bits_suffice_child: "bits_suffice F h \<Longrightarrow> c \<in> set (children h) \<Longrightarrow> bits_suffice F c"
  using subs_child by (auto simp: bits_suffice_def)

lemma bits_suffice_self:
  "bits_suffice F h \<Longrightarrow> children h \<noteq> [] \<Longrightarrow>
     length (children h) \<le> 2 ^ F (length (children h))"
  using subs_self by (auto simp: bits_suffice_def)

text \<open>
  The states reached from a state through only children.  If \<^verbatim>\<open>flog2c(1)\<close> is zero they have the same
  code and length as the state itself.
\<close>

fun only_line :: "hstate \<Rightarrow> hstate list" where
  "only_line (Xor i init [c]) = c # only_line c"
| "only_line (AndSt i [c]) = c # only_line c"
| "only_line h = []"

lemma only_line_children: "only_line h = (case children h of [c] \<Rightarrow> c # only_line c | _ \<Rightarrow> [])"
  by (cases h rule: only_line.cases) simp_all

definition bit_between :: "(nat \<Rightarrow> nat) \<Rightarrow> hstate \<Rightarrow> hstate \<Rightarrow> bool" where
  "bit_between F x y \<longleftrightarrow> 0 < F 1 \<or> y \<notin> set (only_line x)"

lemma bit_between_child:
  assumes "length (children h) \<le> 2 ^ F (length (children h))" "d \<in> set (children h)" "y \<in> set (subs d)"
    and "y \<noteq> d \<Longrightarrow> P \<longleftrightarrow> bit_between F d y"
  shows "0 < F (length (children h)) \<or> y \<noteq> d \<and> P \<longleftrightarrow> bit_between F h y"
proof (cases "children h = [d]")
  case True
  then show ?thesis using assms(4) by (auto simp: bit_between_def only_line_children [of h])
next
  case False
  then have two: "2 \<le> length (children h)" using assms(2) by (cases "children h"; cases "tl (children h)") auto
  then have "only_line h = []" unfolding only_line_children [of h] by (auto split: list.splits)
  moreover have "0 < F (length (children h))" using two assms(1) by (cases "F (length (children h))") auto
  ultimately show ?thesis by (simp add: bit_between_def)
qed

lemma coded_list_nth:
  "coded_list P cc cb cs \<Longrightarrow> j < length cs \<Longrightarrow> P (cc + of_nat j) cb (cs ! j)"
proof (induction cs arbitrary: cc j)
  case (Cons c cs)
  then show ?case using Cons.IH [of "cc + 1" "j - 1"] by (cases j) (auto simp: add_ac)
qed simp

lemma unat_drop_bit_div: "unat (drop_bit n (w :: 64 word)) = unat w div 2 ^ n"
  by (metis unat_drop_bit_eq drop_bit_eq_div)

text \<open>The code of child \<open>j\<close>, as a number: no bit is lost as long as fewer than 64 bits are used.\<close>

lemma child_code:
  assumes "unat (code :: 64 word) < 2 ^ b" "k + b < 64" "j < 2 ^ k"
  shows "unat (push_bit k code + of_nat j) = unat code * 2 ^ k + j"
    and "unat (push_bit k code + of_nat j) < 2 ^ (k + b)"
proof -
  have j: "unat (of_nat j :: 64 word) = j"
  proof -
    have "j < 2 ^ k" by (rule assms(3))
    also have "(2 :: nat) ^ k \<le> 2 ^ 64" using assms(2) by (intro power_increasing) auto
    finally show ?thesis by (simp add: unat_of_nat take_bit_nat_eq_self)
  qed
  have lt: "unat code * 2 ^ k + j < 2 ^ (k + b)"
  proof -
    have "unat code * 2 ^ k + j < (unat code + 1) * 2 ^ k" using assms(3) by simp
    also have "\<dots> \<le> 2 ^ b * 2 ^ k" using assms(1) by (intro mult_right_mono) auto
    finally show ?thesis by (simp add: power_add mult.commute)
  qed
  also have "(2 :: nat) ^ (k + b) < 2 ^ 64" using assms(2) by (intro power_strict_increasing) auto
  finally have small: "unat code * 2 ^ k + j < 2 ^ 64" .
  have "unat (push_bit k code) = take_bit 64 (push_bit k (unat code))"
    by (simp add: unsigned_push_bit_eq)
  also have "\<dots> = push_bit k (unat code)"
    using small by (intro take_bit_nat_eq_self) (simp add: push_bit_eq_mult)
  finally have "unat (push_bit k code) = unat code * 2 ^ k"
    by (simp add: push_bit_eq_mult)
  then show "unat (push_bit k code + of_nat j) = unat code * 2 ^ k + j"
    using small j by (subst unat_add_lem [THEN iffD1]) simp_all
  with lt show "unat (push_bit k code + of_nat j) < 2 ^ (k + b)" by simp
qed

text \<open>Every state below a state with code \<open>c\<close> and \<open>b\<close> bits has a code that begins with \<open>c\<close>.\<close>

lemma coded_prefix:
  assumes "coded F c b h" "bits_suffice F h" "unat c < 2 ^ b" "b < 64" "y \<in> set (subs h)"
  shows "b \<le> si_bits (info y) \<and> si_bits (info y) < 64 \<and>
    unat (si_code (info y)) div 2 ^ (si_bits (info y) - b) = unat c \<and>
    ((\<exists>d \<in> set (children h). y \<in> set (subs d)) \<longrightarrow> (b < si_bits (info y) \<longleftrightarrow> bit_between F h y))"
  using assms
proof (induction h arbitrary: c b y rule: hstate_children_induct)
  case (node h)
  let ?cs = "children h" and ?k = "F (length (children h))"
  have self: "si_code (info h) = c" "si_bits (info h) = b" using node.prems(1) by (auto simp: coded_children)
  have below: "b \<le> si_bits (info y) \<and> si_bits (info y) < 64 \<and>
      unat (si_code (info y)) div 2 ^ (si_bits (info y) - b) = unat c \<and>
      (b < si_bits (info y) \<longleftrightarrow> bit_between F h y)"
    if d: "d \<in> set ?cs" "y \<in> set (subs d)" for d
  proof -
    obtain j where j: "j < length ?cs" "d = ?cs ! j" using d(1) by (auto simp: in_set_conv_nth)
    have k: "length ?cs \<le> 2 ^ ?k" "?k + b < 64"
      using node.prems(1) bits_suffice_self [OF node.prems(2)] d(1)
      by (simp_all add: coded_children) (metis empty_iff list.set(1))+
    let ?c = "push_bit ?k c + of_nat j"
    have cd: "coded F ?c (?k + b) d"
      using node.prems(1) coded_list_nth j by (auto simp: coded_children [of F c b h])
    note cc = child_code [OF node.prems(3) k(2), of j]
    have IH: "?k + b \<le> si_bits (info y)" "si_bits (info y) < 64"
        "unat (si_code (info y)) div 2 ^ (si_bits (info y) - (?k + b)) = unat ?c"
      and IHb: "y \<noteq> d \<Longrightarrow> ?k + b < si_bits (info y) \<longleftrightarrow> bit_between F d y"
      using node.IH [OF d(1) cd bits_suffice_child [OF node.prems(2) d(1)] cc(2) k(2) d(2)] j k d(2)
      by (auto elim: subs_cases)
    have self_bits: "y = d \<Longrightarrow> si_bits (info y) = ?k + b" using cd by (auto simp: coded_children)
    have "b < si_bits (info y) \<longleftrightarrow> 0 < ?k \<or> y \<noteq> d \<and> ?k + b < si_bits (info y)"
      using IH(1) self_bits by (cases "y = d") auto
    also have "\<dots> \<longleftrightarrow> bit_between F h y" by (rule bit_between_child [OF k(1) d IHb])
    finally have bits: "b < si_bits (info y) \<longleftrightarrow> bit_between F h y" .
    have "unat (si_code (info y)) div 2 ^ (si_bits (info y) - b) =
        unat (si_code (info y)) div 2 ^ (si_bits (info y) - (?k + b)) div 2 ^ ?k"
      using IH(1) by (simp add: div_mult2_eq [symmetric] power_add [symmetric])
    also have "\<dots> = unat c" using IH(3) cc(1) j k by simp
    finally show ?thesis using IH bits by simp
  qed
  show ?case
    using node.prems(5)
  proof (cases rule: subs_cases)
    case 1
    then show ?thesis using self node.prems(4) below by auto
  next
    case (2 d)
    then show ?thesis using below [OF 2] by simp
  qed
qed

lemma sid_unique:
  assumes "distinct (ids h)" "x \<in> set (subs h)" "y \<in> set (subs h)" "sid x = sid y"
  shows "x = y"
  using assms by (auto simp: ids_def distinct_map dest: inj_onD)

lemma distinct_ids_child: "distinct (ids h) \<Longrightarrow> c \<in> set (children h) \<Longrightarrow> distinct (ids c)"
  by (auto simp: ids_def subs_children [of h] map_concat distinct_concat_iff)

lemma children_disjoint:
  assumes "distinct (ids h)" "i < length (children h)" "j < length (children h)" "i \<noteq> j"
    and "x \<in> set (subs (children h ! i))" "y \<in> set (subs (children h ! j))"
  shows "sid x \<noteq> sid y"
proof -
  have "distinct (concat (map (map sid) (map subs (children h))))"
    using assms(1) by (simp add: ids_def subs_children [of h] map_concat del: subs_self)
  moreover have lists: "i' < j' \<Longrightarrow> j' < length xss \<Longrightarrow> distinct (concat xss) \<Longrightarrow> a \<in> set (xss ! i') \<Longrightarrow>
      b \<in> set (xss ! j') \<Longrightarrow> a \<noteq> b" for i' j' a b and xss :: "nat list list"
  proof (induction xss arbitrary: i' j')
    case (Cons xs xss)
    then show ?case by (cases i'; cases j') fastforce+
  qed simp
  have "sid x \<in> set (map (map sid) (map subs (children h)) ! i)"
      "sid y \<in> set (map (map sid) (map subs (children h)) ! j)"
    using assms(2,3,5,6) by simp_all
  then show ?thesis
    using lists [of i j "map (map sid) (map subs (children h))" "sid x" "sid y"]
      lists [of j i "map (map sid) (map subs (children h))" "sid y" "sid x"] calculation(1) assms(2-4)
    by (metis length_map linorder_neq_iff)
qed

lemma root_not_below:
  assumes "distinct (ids h)" "c \<in> set (children h)" "x \<in> set (subs c)"
  shows "sid x \<noteq> sid h" "h \<notin> set (subs x)"
proof -
  have d: "sid h \<notin> sid ` (\<Union>x\<in>set (children h). set (subs x))"
    using assms(1) by (simp add: ids_def subs_children [of h] del: subs_self)
  have s: "sid z \<noteq> sid h" if "z \<in> set (subs c)" for z
    using d assms(2) that by (metis UN_I image_eqI)
  show "sid x \<noteq> sid h" by (rule s [OF assms(3)])
  show "h \<notin> set (subs x)" using s [of h] subs_trans [OF _ assms(3)] by blast
qed

text \<open>
  With the codes of \<^verbatim>\<open>finalise\<close>, \<^verbatim>\<open>isAncestor\<close> holds exactly for the states in the subtree that a bit
  tells from the state.
\<close>

lemma isAncestor_subs:
  assumes "coded F c b h" "bits_suffice F h" "unat c < 2 ^ b" "b < 64" "distinct (ids h)"
    and "x \<in> set (subs h)" "y \<in> set (subs h)"
  shows "isAncestor (info x) (info y) \<longleftrightarrow> y = x \<or> y \<in> set (subs x) \<and> bit_between F x y"
  using assms
proof (induction h arbitrary: c b x y rule: hstate_children_induct)
  case (node h)
  let ?cs = "children h" and ?k = "F (length (children h))"
  note pre = coded_prefix [OF node.prems(1-4)]
  have self: "si_code (info h) = c" "si_bits (info h) = b" using node.prems(1) by (auto simp: coded_children)
  have child: "coded F (push_bit ?k c + of_nat j) (?k + b) (?cs ! j)" "?k + b < 64"
      "unat (push_bit ?k c + of_nat j) = unat c * 2 ^ ?k + j"
      "unat (push_bit ?k c + of_nat j) < 2 ^ (?k + b)" if "j < length ?cs" for j
  proof -
    have k: "length ?cs \<le> 2 ^ ?k" "?k + b < 64"
      using node.prems(1) bits_suffice_self [OF node.prems(2)] that
      by (simp_all add: coded_children) (metis list.size(3) not_less_zero)+
    then show "?k + b < 64" "coded F (push_bit ?k c + of_nat j) (?k + b) (?cs ! j)"
      "unat (push_bit ?k c + of_nat j) = unat c * 2 ^ ?k + j" "unat (push_bit ?k c + of_nat j) < 2 ^ (?k + b)"
      using node.prems(1) coded_list_nth that child_code [OF node.prems(3) k(2), of j]
      by (auto simp: coded_children [of F c b h])
  qed
  from node.prems(6) show ?case
  proof (cases rule: subs_cases)
    case 1
    from node.prems(7) show ?thesis
    proof (cases rule: subs_cases)
      case (2 d)
      note p = pre [OF node.prems(7)]
      have "b < si_bits (info y) \<longleftrightarrow> bit_between F h y" using p 2 by blast
      moreover have "drop_bit (si_bits (info y) - b) (si_code (info y)) = c"
        using p by (simp add: word_unat_eq_iff unat_drop_bit_div)
      moreover have "sid y \<noteq> sid h" by (rule root_not_below(1) [OF node.prems(5) 2])
      ultimately show ?thesis using 1 self node.prems(7) by (auto simp: isAncestor_def)
    qed (simp add: 1 isAncestor_def)
  next
    case (2 d)
    obtain i where i: "i < length ?cs" "d = ?cs ! i" using 2(1) by (auto simp: in_set_conv_nth)
    have bx: "b \<le> si_bits (info x)" using pre [OF node.prems(6)] by blast
    from node.prems(7) show ?thesis
    proof (cases rule: subs_cases)
      case y: 1
      then show ?thesis
        using root_not_below [OF node.prems(5) 2] self bx by (auto simp: isAncestor_def)
    next
      case (2 e)
      obtain j where j: "j < length ?cs" "e = ?cs ! j" using 2(1) by (auto simp: in_set_conv_nth)
      show ?thesis
      proof (cases "i = j")
        case True
        then have "y \<in> set (subs d)" using 2(2) i j by simp
        then show ?thesis
          using node.IH [OF \<open>d \<in> set ?cs\<close> child(1) [OF i(1), folded i(2)] _ child(4) [OF i(1)] child(2) [OF i(1)] _ \<open>x \<in> set (subs d)\<close>]
            bits_suffice_child [OF node.prems(2) \<open>d \<in> set ?cs\<close>] distinct_ids_child [OF node.prems(5) \<open>d \<in> set ?cs\<close>] by blast
      next
        case False
        have ne: "sid x \<noteq> sid y"
          using children_disjoint [OF node.prems(5) i(1) j(1) False] \<open>x \<in> set (subs d)\<close> 2(2) i j by simp
        have "y \<notin> set (subs x)"
          using children_disjoint [OF node.prems(5) i(1) j(1) False, of y y] subs_trans \<open>x \<in> set (subs d)\<close> 2(2) i j by blast
        moreover have "\<not> isAncestor (info x) (info y)"
        proof
          assume "isAncestor (info x) (info y)"
          then have lt: "si_bits (info x) < si_bits (info y)"
            and eq: "si_code (info x) = drop_bit (si_bits (info y) - si_bits (info x)) (si_code (info y))"
            using ne by (auto simp: isAncestor_def split: if_splits)
          have px: "?k + b \<le> si_bits (info x)" "unat (si_code (info x)) div 2 ^ (si_bits (info x) - (?k + b)) = unat c * 2 ^ ?k + i"
            using coded_prefix [OF child(1) [OF i(1), folded i(2)] bits_suffice_child [OF node.prems(2) \<open>d \<in> set ?cs\<close>] child(4) [OF i(1)] child(2) [OF i(1)] \<open>x \<in> set (subs d)\<close>]
              child(3) [OF i(1)] by simp_all
          have py: "?k + b \<le> si_bits (info y)" "unat (si_code (info y)) div 2 ^ (si_bits (info y) - (?k + b)) = unat c * 2 ^ ?k + j"
            using coded_prefix [OF child(1) [OF j(1), folded j(2)] bits_suffice_child [OF node.prems(2) 2(1)] child(4) [OF j(1)] child(2) [OF j(1)] 2(2)]
              child(3) [OF j(1)] by simp_all
          have "unat (si_code (info x)) div 2 ^ (si_bits (info x) - (?k + b)) =
              unat (si_code (info y)) div 2 ^ (si_bits (info y) - (?k + b))"
            using lt px(1) by (simp add: eq unat_drop_bit_div div_mult2_eq [symmetric] power_add [symmetric])
          then show False using px(2) py(2) False by simp
        qed
        ultimately show ?thesis using ne by blast
      qed
    qed
  qed
qed

lemma blank_children: "children (blank h) = map blank (children h)"
  by (cases h) simp_all

lemma blank_sid [simp]: "sid (blank h) = sid h"
  by (cases h) simp_all

lemma subs_blank: "subs (blank h) = map blank (subs h)"
proof (induction h rule: hstate_children_induct)
  case (node h)
  then show ?case
    by (simp add: subs_children [of h] subs_children [of "blank h"] blank_children map_concat comp_def
        cong: map_cong)
qed

lemma ids_blank: "ids (blank h) = ids h"
  by (simp add: ids_def subs_blank comp_def)

lemma bits_suffice_blank: "bits_suffice F (blank h) = bits_suffice F h"
  by (auto simp: bits_suffice_def subs_blank blank_children)

lemma finalise_tree:
  assumes "finalise F I K 0 1 h etl = Inr (h', etl')"
  shows "ids h' = ids h" "bits_suffice F h' = bits_suffice F h" "coded F 0 1 h'" "blank h' = blank h"
  using finalise_coded(1) [OF assms] ids_blank [of h] ids_blank [of h']
    bits_suffice_blank [of F h] bits_suffice_blank [of F h'] by auto

lemma isAncestor_finalised:
  assumes "finalise F I K 0 1 h etl = Inr (h', etl')" "bits_suffice F h" "distinct (ids h)"
    and "x \<in> set (subs h')" "y \<in> set (subs h')"
  shows "isAncestor (info x) (info y) \<longleftrightarrow> y = x \<or> y \<in> set (subs x) \<and> bit_between F x y"
  using assms finalise_tree [OF assms(1)] by (intro isAncestor_subs [of F 0 1 h']) auto

section \<open>Properties\<close>

text \<open>
  C11.  Let \<^verbatim>\<open>flog2c\<close> give enough bits to number the children of every state.  After \<^verbatim>\<open>finalise\<close>
  of the top state, \<^verbatim>\<open>isAncestor\<close>, which only compares the codes, holds of two states exactly when
  they are the same or the second is in the subtree of the first and, should \<^verbatim>\<open>flog2c(1)\<close> be zero, is
  not reached from it through only children.  \<^verbatim>\<open>finalise\<close> changes nothing in the tree but the codes
  and their lengths.
\<close>

theorem isAncestor_exact:
  assumes "finalise F I K 0 1 h etl = Inr (h', etl')" "bits_suffice F h" "distinct (ids h)"
  shows "blank h' = blank h \<and> (\<forall>x \<in> set (subs h'). \<forall>y \<in> set (subs h').
           isAncestor (info x) (info y) =
             (y = x \<or> y \<in> set (subs x) \<and> (0 < F 1 \<or> y \<notin> set (only_line x))))"
  using isAncestor_finalised [OF assms] finalise_tree(4) [OF assms(1)] unfolding bit_between_def by blast

abbreviation leaf :: "nat \<Rightarrow> hstate" where
  "leaf i \<equiv> Firing (mk_info i ''s'' [])"

theorem isAncestor_exact_witness:
  "let h = Xor (mk_info 0 '''' []) (Some 1) [Xor (mk_info 1 ''x'' []) (Some 6) [leaf 6],
             AndSt (mk_info 2 ''a'' []) [leaf 3, leaf 4, leaf 5]];
       F = (\<lambda>n. n - 1)
   in (\<exists>h' etl. finalise F (\<lambda>p. True) \<lparr>junctions = [], multis = []\<rparr> 0 1 h [] = Inr (h', etl) \<and>
        blank h' = blank h \<and> (\<forall>x \<in> set (subs h'). \<forall>y \<in> set (subs h').
           isAncestor (info x) (info y) =
             (y = x \<or> y \<in> set (subs x) \<and> (0 < F 1 \<or> y \<notin> set (only_line x)))))"
proof -
  let ?h = "Xor (mk_info 0 '''' []) (Some 1) [Xor (mk_info 1 ''x'' []) (Some 6) [leaf 6],
             AndSt (mk_info 2 ''a'' []) [leaf 3, leaf 4, leaf 5]]"
  let ?F = "\<lambda>n :: nat. n - 1"
  have "\<exists>h'. finalise ?F (\<lambda>p. True) \<lparr>junctions = [], multis = []\<rparr> 0 1 ?h [] = Inr (h', [])"
    by (simp add: mk_info_def)
  then obtain h' where h': "finalise ?F (\<lambda>p. True) \<lparr>junctions = [], multis = []\<rparr> 0 1 ?h [] = Inr (h', [])"
    by blast
  have s: "bits_suffice ?F ?h" "distinct (ids ?h)"
    by (simp_all add: bits_suffice_def ids_def mk_info_def)
  show ?thesis using isAncestor_exact [OF h' s] h' unfolding Let_def by blast
qed

text \<open>
  The codes are exact for every state but the top one if \<^verbatim>\<open>flog2c(1)\<close> is positive or no state below
  the top state has just one child; of the top state they are exact if it has several children.
\<close>

definition only_children_seen :: "(nat \<Rightarrow> nat) \<Rightarrow> hstate \<Rightarrow> bool" where
  "only_children_seen F h \<longleftrightarrow> 0 < F 1 \<or> (\<forall>c \<in> set (children h). \<forall>x \<in> set (subs c). length (children x) \<noteq> 1)"

lemma only_children_seen_blank: "only_children_seen F (blank h) = only_children_seen F h"
  by (auto simp: only_children_seen_def subs_blank blank_children)

lemma only_children_seen_bit:
  assumes "only_children_seen F h" "x \<in> set (subs h)" "x \<noteq> h \<or> length (children h) \<noteq> 1"
  shows "bit_between F x y"
proof (cases "0 < F 1")
  case False
  have "length (children x) \<noteq> 1"
    using assms(2)
  proof (cases rule: subs_cases)
    case (2 c)
    then show ?thesis using assms(1) False by (auto simp: only_children_seen_def)
  qed (use assms(3) in blast)
  then have "only_line x = []" unfolding only_line_children [of x] by (auto split: list.splits)
  then show ?thesis by (simp add: bit_between_def)
qed (simp add: bit_between_def)

end
