(* ===== verification/FSM_Product.thy ===== *)
theory FSM_Product
  imports FSM_Ancestors "HOL-Library.While_Combinator" "HOL-Library.List_Lexorder" "HOL-Library.Char_ord"
begin

text \<open>
  The product of the hierarchical states: \<^verbatim>\<open>FiringFSM::before_end_of_elaboration\<close>
  (\<^verbatim>\<open>cpp/detail/FSM/FiringFSM.cpp\<close>).  A product state is a set of firing states; the worklist
  computes the product states that are reachable from the initial one, and the transitions between
  them.  A \<^verbatim>\<open>StateImpl *\<close> is the number of the state, dereferenced by \<open>find_state\<close>.
\<close>

definition find_state :: "hstate \<Rightarrow> nat \<Rightarrow> hstate option" where
  "find_state root n = find (\<lambda>x. sid x = n) (subs root)"

definition below :: "hstate \<Rightarrow> hstate \<Rightarrow> nat \<Rightarrow> bool" where
  "below root x n = (case find_state root n of None \<Rightarrow> False | Some y \<Rightarrow> isAncestor (info x) (info y))"

definition isImplied :: "hstate \<Rightarrow> nat \<Rightarrow> prod_state \<Rightarrow> bool" where
  "isImplied root s p = (case find_state root s of None \<Rightarrow> False | Some x \<Rightarrow> (\<exists>n \<in> p. below root x n))"

definition areImplied :: "hstate \<Rightarrow> (nat \<times> bool) list \<Rightarrow> prod_state \<Rightarrow> bool" where
  "areImplied root c p = (\<forall>(s, neg) \<in> set c. isImplied root s p \<noteq> neg)"

definition markStates :: "hstate \<Rightarrow> nat list \<Rightarrow> marking \<Rightarrow> marking" where
  "markStates root ds m =
     fold (\<lambda>d m. case path_to d root of None \<Rightarrow> m | Some p \<Rightarrow> mark p m) ds m"

text \<open>The product state that transition \<open>t\<close> leads to from product state \<open>s\<close>.\<close>

definition target :: "hstate \<Rightarrow> expanded_transition \<Rightarrow> prod_state \<Rightarrow> prod_state result" where
  "target root t s = (case (path_to (et_src t) root, those (map (find_state root) (et_dest t))) of
       (Some path, Some ds) \<Rightarrow>
         rbind (getTopState path (map info ds) True) (\<lambda>x.
         rbind (getInitialState (markStates root (et_dest t) {}) x {}) (\<lambda>d.
           let remaining = {n \<in> s. \<not> below root x n}
           in rbind (rassert (d \<inter> remaining = {})) (\<lambda>_. Inr (d \<union> remaining))))
     | _ \<Rightarrow> Inl NullDeref)"

section \<open>The worklist\<close>

type_synonym runtime_fsm = "(prod_state \<times> (rt_rule \<times> prod_state) list) list"

record build =
  bd_states :: runtime_fsm
  bd_new :: "prod_state list"

definition add_runtime_transition :: "prod_state \<Rightarrow> rt_rule \<times> prod_state \<Rightarrow> runtime_fsm \<Rightarrow> runtime_fsm" where
  "add_runtime_transition s e st = map (\<lambda>(p, ts). (p, if p = s then ts @ [e] else ts)) st"

definition enabled :: "hstate \<Rightarrow> prod_state \<Rightarrow> expanded_transition \<Rightarrow> bool" where
  "enabled root s t = (isImplied root (et_src t) s \<and> areImplied root (et_in t) s)"

definition visit :: "hstate \<Rightarrow> prod_state \<Rightarrow> expanded_transition \<Rightarrow> build \<Rightarrow> build result" where
  "visit root s t b =
     (if enabled root s t then
        rbind (target root t s) (\<lambda>d.
          let b = (if d \<in> fst ` set (bd_states b) then b
                   else b\<lparr>bd_states := bd_states b @ [(d, [])], bd_new := bd_new b @ [d]\<rparr>)
          in Inr (b\<lparr>bd_states := add_runtime_transition s (et_rule t, d) (bd_states b)\<rparr>))
      else Inr b)"

fun visit_all :: "hstate \<Rightarrow> prod_state \<Rightarrow> expanded_transition list \<Rightarrow> build \<Rightarrow> build result" where
  "visit_all root s [] b = Inr b"
| "visit_all root s (t # ts) b = rbind (visit root s t b) (visit_all root s ts)"

definition round_of :: "hstate \<Rightarrow> expanded_transition list \<Rightarrow> build \<Rightarrow> build result" where
  "round_of root etl b = (case bd_new b of [] \<Rightarrow> Inr b
     | s # ns \<Rightarrow> visit_all root s etl (b\<lparr>bd_new := ns\<rparr>))"

definition unfinished :: "build result \<Rightarrow> bool" where
  "unfinished r = (case r of Inl e \<Rightarrow> False | Inr b \<Rightarrow> bd_new b \<noteq> [])"

definition worklist :: "hstate \<Rightarrow> expanded_transition list \<Rightarrow> build \<Rightarrow> build result option" where
  "worklist root etl b = while_option unfinished (\<lambda>r. rbind r (round_of root etl)) (Inr b)"

definition build_fsm :: "hstate \<Rightarrow> expanded_transition list \<Rightarrow> (prod_state \<times> runtime_fsm) result option" where
  "build_fsm root etl = (case getInitialState {} root {} of
       Inl e \<Rightarrow> Some (Inl e)
     | Inr p0 \<Rightarrow> map_option (\<lambda>r. rbind r (\<lambda>b. Inr (p0, bd_states b)))
         (worklist root etl \<lparr>bd_states = [(p0, [])], bd_new = [p0]\<rparr>))"

text \<open>The top state gets all remaining states as children.\<close>

definition make_top :: "nat \<Rightarrow> nat \<Rightarrow> hstate list \<Rightarrow> hstate" where
  "make_top topid hsinit hs = fold (\<lambda>h t. add_child h (sid h = hsinit) t) hs (Xor (mk_info topid [] []) None [])"

fun finalise_multis :: "(nat \<Rightarrow> bool) \<Rightarrow> connectors \<Rightarrow> multi_state list \<Rightarrow> expanded_transition list \<Rightarrow>
    expanded_transition list result" where
  "finalise_multis I K [] etl = Inr etl"
| "finalise_multis I K (m # ms) etl = rbind (multi_finalise I K m etl) (finalise_multis I K ms)"

definition before_end_of_elaboration :: "(nat \<Rightarrow> nat) \<Rightarrow> (nat \<Rightarrow> bool) \<Rightarrow> connectors \<Rightarrow> nat \<Rightarrow> nat \<Rightarrow> hstate list \<Rightarrow>
    (prod_state \<times> runtime_fsm) result option" where
  "before_end_of_elaboration F I K topid hsinit hs =
     (if hsinit \<notin> sid ` set hs then
        Some (Inl (ModelingError ''smoc_firing_fsm: Initial state must be on top hierarchy level''))
      else (case rbind (finalise_multis I K (map snd (multis K)) [])
              (finalise F I K 0 1 (make_top topid hsinit hs)) of
          Inl e \<Rightarrow> Some (Inl e)
        | Inr (root, etl) \<Rightarrow> build_fsm root etl))"

section \<open>The name of a product state\<close>

text \<open>\<^verbatim>\<open>operator<<\<close> counts the names of the states in a sorted map and writes each as often.\<close>

fun count_name :: "string \<Rightarrow> (string \<times> nat) list \<Rightarrow> (string \<times> nat) list" where
  "count_name n [] = [(n, 1)]"
| "count_name n ((m, k) # xs) =
     (if n = m then (m, Suc k) # xs else if n < m then (n, 1) # (m, k) # xs else (m, k) # count_name n xs)"

definition count_names :: "string list \<Rightarrow> (string \<times> nat) list" where
  "count_names ns = fold count_name ns []"

fun write_names :: "bool \<Rightarrow> (string \<times> nat) list \<Rightarrow> string \<Rightarrow> string" where
  "write_names is_first [] os = os"
| "write_names is_first ((n, 0) # xs) os = write_names is_first xs os"
| "write_names is_first ((n, Suc k) # xs) os =
     write_names False ((n, k) # xs) ((if is_first then os else os @ '','') @ n)"

definition prod_state_name :: "string list \<Rightarrow> string result" where
  "prod_state_name names = rbind (rassert ([] \<notin> set names))
     (\<lambda>_. Inr (write_names True (count_names names) []))"

end
