(* ===== verification/FSM_Configurations.thy ===== *)
theory FSM_Configurations
  imports FSM_Product
begin

text \<open>
  What the product states mean: each is a configuration of the hierarchy, that is one child of every
  active exclusive state and all children of every active concurrent one, and a transition replaces
  the configuration below the smallest state that contains its source and its destinations.
\<close>

fun config :: "hstate \<Rightarrow> nat set \<Rightarrow> bool" where
  "config (Firing i) p = (p = {si_id i})"
| "config (Xor i init cs) p = (\<exists>c \<in> set cs. config c p)"
| "config (AndSt i cs) p = (p \<subseteq> (\<Union>c \<in> set cs. set (ids c)) \<and> (\<forall>c \<in> set cs. config c (p \<inter> set (ids c))))"

lemma ids_children: "ids h = sid h # concat (map ids (children h))"
  by (simp add: ids_def [abs_def] subs_children [of h] map_concat comp_def)

lemma ids_simps [simp]:
  "ids (Firing i) = [si_id i]"
  "ids (Xor i init cs) = si_id i # concat (map ids cs)"
  "ids (AndSt i cs) = si_id i # concat (map ids cs)"
  by (simp_all add: ids_children)

lemma sub_ids: "x \<in> set (subs h) \<Longrightarrow> set (ids x) \<subseteq> set (ids h)"
  using subs_trans [of _ x h] by (auto simp: ids_def)

lemma sid_in_ids [simp]: "sid h \<in> set (ids h)"
  unfolding ids_children [of h] by simp

lemma config_ids: "config h p \<Longrightarrow> p \<subseteq> set (ids h)"
proof (induction h arbitrary: p)
  case (Xor i init cs)
  then obtain c where "c \<in> set cs" "config c p" by auto
  with Xor.IH [of c p] show ?case by auto
next
  case (AndSt i cs)
  then have "p \<subseteq> (\<Union>c \<in> set cs. set (ids c))" by simp
  then show ?case by auto
qed simp

lemma distinct_concat_disjoint:
  assumes "distinct (concat (map f xs))" "x \<in> set xs" "y \<in> set xs" "a \<in> set (f x)" "a \<in> set (f y)"
  shows "x = y"
  using assms by (induction xs) auto

lemma children_apart:
  assumes "distinct (ids h)" "c \<in> set (children h)" "d \<in> set (children h)"
    and "n \<in> set (ids c)" "n \<in> set (ids d)"
  shows "c = d"
  using assms distinct_concat_disjoint [of ids "children h" c d n] by (simp add: ids_children [of h])

lemma config_nonempty_child:
  assumes "config (Xor i init cs) p" "distinct (ids (Xor i init cs))" "c \<in> set cs" "p \<inter> set (ids c) \<noteq> {}"
  shows "config c p"
proof -
  obtain e where e: "e \<in> set cs" "config e p" using assms(1) by auto
  then have "e = c" using config_ids [OF e(2)] assms(2-4) children_apart [of "Xor i init cs" e c] by fastforce
  with e show ?thesis by simp
qed

text \<open>Replacing the configuration of an active state gives a configuration.\<close>

lemma config_replace:
  assumes "config h s" "distinct (ids h)" "x \<in> set (subs h)" "s \<inter> set (ids x) \<noteq> {}" "config x d"
  shows "config h (d \<union> (s - set (ids x)))"
  using assms
proof (induction h arbitrary: s)
  case (Firing i)
  then show ?case by (auto simp: config_ids)
next
  case (Xor i init cs)
  show ?case
  proof (cases "x = Xor i init cs")
    case True
    then have "d \<union> (s - set (ids x)) = d" using config_ids [OF Xor.prems(1)] by blast
    then show ?thesis using Xor.prems(5) True by (simp only:)
  next
    case False
    then obtain c where c: "c \<in> set cs" "x \<in> set (subs c)" using Xor.prems(3) by auto
    have "config c s"
      by (rule config_nonempty_child [OF Xor.prems(1,2) c(1)]) (use sub_ids [OF c(2)] Xor.prems(4) in blast)
    from Xor.IH [OF c(1) this _ c(2) Xor.prems(4,5)] distinct_ids_child [OF Xor.prems(2)] c(1)
    show ?thesis by auto
  qed
next
  case (AndSt i cs)
  show ?case
  proof (cases "x = AndSt i cs")
    case True
    then have "d \<union> (s - set (ids x)) = d" using config_ids [OF AndSt.prems(1)] by blast
    then show ?thesis using AndSt.prems(5) True by (simp only:)
  next
    case False
    then obtain c where c: "c \<in> set cs" "x \<in> set (subs c)" using AndSt.prems(3) by auto
    let ?q = "d \<union> (s - set (ids x))"
    have xc: "set (ids x) \<subseteq> set (ids c)" and dc: "d \<subseteq> set (ids x)"
      using sub_ids [OF c(2)] config_ids [OF AndSt.prems(5)] by auto
    have other: "?q \<inter> set (ids e) = s \<inter> set (ids e)" if "e \<in> set cs" "e \<noteq> c" for e
      using children_apart [OF AndSt.prems(2), of c e] that c(1) xc dc by auto
    have "config c (d \<union> (s \<inter> set (ids c) - set (ids x)))"
      using AndSt.prems distinct_ids_child [OF AndSt.prems(2)] c xc by (intro AndSt.IH) auto
    moreover have "?q \<inter> set (ids c) = d \<union> (s \<inter> set (ids c) - set (ids x))" using xc dc by blast
    ultimately have "config e (?q \<inter> set (ids e))" if "e \<in> set cs" for e
      using other [of e] that AndSt.prems(1) by (cases "e = c") auto
    moreover have "?q \<subseteq> (\<Union>c \<in> set cs. set (ids c))" using AndSt.prems(1) c(1) xc dc by auto
    ultimately show ?thesis by simp
  qed
qed

section \<open>Initial configurations\<close>

lemma getInitialState_config:
  "getInitialState m h p = Inr q \<Longrightarrow> distinct (ids h) \<Longrightarrow> \<exists>d. q = p \<union> d \<and> config h d"
  "getInitialStates m cs p = Inr q \<Longrightarrow> distinct (concat (map ids cs)) \<Longrightarrow>
     \<exists>d. q = p \<union> d \<and> d \<subseteq> (\<Union>c \<in> set cs. set (ids c)) \<and> (\<forall>c \<in> set cs. config c (d \<inter> set (ids c)))"
proof (induction m h p and m cs p arbitrary: q and q rule: getInitialState_getInitialStates.induct)
  case (2 m i init cs p)
  then obtain t where t: "xor_child m init cs = Inr t" "getInitialState m t p = Inr q"
    by (auto simp: rbind_eq_Inr_iff)
  moreover have "distinct (ids t)"
    using distinct_ids_child [OF "2.prems"(2)] xor_child_in [OF t(1)] by simp
  ultimately show ?case using "2.IH" [of t q] xor_child_in [OF t(1)] by auto
next
  case (3 m i cs p)
  then show ?case by auto
next
  case (5 m c cs p)
  then obtain r where r: "getInitialState m c p = Inr r" "getInitialStates m cs r = Inr q"
    by (auto simp: rbind_eq_Inr_iff)
  obtain d where d: "r = p \<union> d" "config c d" using "5.IH"(1) [OF r(1)] "5.prems"(2) by auto
  obtain e where e: "q = r \<union> e" "e \<subseteq> (\<Union>c \<in> set cs. set (ids c))" "\<forall>c \<in> set cs. config c (e \<inter> set (ids c))"
    using "5.IH"(2) [OF r(1,2)] "5.prems"(2) by auto
  have dc: "d \<subseteq> set (ids c)" by (rule config_ids [OF d(2)])
  have disj: "set (ids c) \<inter> (\<Union>c \<in> set cs. set (ids c)) = {}" using "5.prems"(2) by auto
  have "(d \<union> e) \<inter> set (ids c) = d" using dc e(2) disj by blast
  moreover have "(d \<union> e) \<inter> set (ids k) = e \<inter> set (ids k)" if "k \<in> set cs" for k
    using dc disj that by auto
  ultimately have "\<forall>k \<in> set (c # cs). config k ((d \<union> e) \<inter> set (ids k))" using d(2) e(3) by auto
  moreover have "d \<union> e \<subseteq> (\<Union>c \<in> set (c # cs). set (ids c))" using dc e(2) by auto
  ultimately show ?case using d(1) e(1) by (intro exI [of _ "d \<union> e"]) auto
qed auto

lemma getInitialState_empty:
  "getInitialState m h {} = Inr q \<Longrightarrow> distinct (ids h) \<Longrightarrow> config h q"
  using getInitialState_config(1) by fastforce

section \<open>Markings\<close>

text \<open>
  The codes are exact but possibly for a top state with one child; the transitions connect states
  below the top state, so that \<^verbatim>\<open>isAncestor\<close> is never asked of such a top state.
\<close>

definition seen :: "hstate \<Rightarrow> hstate \<Rightarrow> bool" where
  "seen root x \<longleftrightarrow> x \<noteq> root \<or> length (children root) \<noteq> 1"

definition well_coded :: "hstate \<Rightarrow> bool" where
  "well_coded root \<longleftrightarrow> distinct (ids root) \<and>
     (\<forall>x \<in> set (subs root). \<forall>y \<in> set (subs root). seen root x \<longrightarrow>
        isAncestor (info x) (info y) = (y \<in> set (subs x)))"

definition inner_ids :: "hstate \<Rightarrow> nat set" where
  "inner_ids root = set (concat (map ids (children root)))"

definition inner_ends :: "hstate \<Rightarrow> expanded_transition \<Rightarrow> bool" where
  "inner_ends root t \<longleftrightarrow> et_src t \<in> inner_ids root \<and> set (et_dest t) \<subseteq> inner_ids root"

lemma inner_ids_ids: "n \<in> inner_ids root \<Longrightarrow> n \<in> set (ids root)"
  by (simp add: inner_ids_def ids_children [of root])

lemma inner_not_root:
  assumes "distinct (ids root)" "n \<in> inner_ids root"
  shows "n \<noteq> sid root"
  using assms by (auto simp: inner_ids_def ids_children [of root])

lemma find_state_iff:
  assumes "distinct (ids root)"
  shows "find_state root n = Some x \<longleftrightarrow> x \<in> set (subs root) \<and> sid x = n"
proof
  assume "find_state root n = Some x"
  then show "x \<in> set (subs root) \<and> sid x = n" by (auto simp: find_state_def find_Some_iff)
next
  assume x: "x \<in> set (subs root) \<and> sid x = n"
  then obtain y where y: "find_state root n = Some y"
    by (cases "find_state root n") (auto simp: find_state_def find_None_iff)
  then have "y \<in> set (subs root) \<and> sid y = n" by (auto simp: find_state_def find_Some_iff)
  then have "y = x" using sid_unique [OF assms] x by blast
  with y show "find_state root n = Some x" by simp
qed

definition good_path :: "nat \<Rightarrow> hstate \<Rightarrow> hstate list \<Rightarrow> bool" where
  "good_path n h p \<longleftrightarrow> p \<noteq> [] \<and> sid (hd p) = n \<and> last p = h \<and> set p \<subseteq> set (subs h) \<and>
     sorted_wrt (\<lambda>s x. s \<in> set (subs x)) p"

lemma good_path_append:
  assumes "good_path n c q" "c \<in> set (children h)"
  shows "good_path n h (q @ [h])"
  using assms subs_child [OF assms(2)] by (auto simp: good_path_def sorted_wrt_append)

lemma path_to_good:
  "path_to n h = Some p \<Longrightarrow> good_path n h p"
  "path_in n cs = Some p \<Longrightarrow> \<exists>c \<in> set cs. good_path n c p"
proof (induction n h and n cs arbitrary: p and p rule: path_to_path_in.induct)
  case (2 n i init cs)
  show ?case
  proof (cases "si_id i = n")
    case False
    then obtain q c where "p = q @ [Xor i init cs]" "c \<in> set cs" "good_path n c q"
      using "2.prems" "2.IH" by auto
    then show ?thesis using good_path_append [of n c q "Xor i init cs"] by simp
  qed (use 2 in \<open>auto simp: good_path_def\<close>)
next
  case (3 n i cs)
  show ?case
  proof (cases "si_id i = n")
    case False
    then obtain q c where "p = q @ [AndSt i cs]" "c \<in> set cs" "good_path n c q"
      using "3.prems" "3.IH" by auto
    then show ?thesis using good_path_append [of n c q "AndSt i cs"] by simp
  qed (use 3 in \<open>auto simp: good_path_def\<close>)
qed (auto simp: good_path_def split: option.splits if_splits)

lemma path_to_exists:
  "n \<in> set (ids h) \<Longrightarrow> \<exists>p. path_to n h = Some p"
  "n \<in> set (concat (map ids cs)) \<Longrightarrow> \<exists>p. path_in n cs = Some p"
  by (induction n h and n cs rule: path_to_path_in.induct) (auto split: option.splits)

lemma path_in_child: "path_in n cs = Some p \<Longrightarrow> \<exists>c \<in> set cs. path_to n c = Some p"
  by (induction cs) (auto split: option.splits)

lemma good_path_ids: "good_path n h p \<Longrightarrow> n \<in> set (ids h)"
  unfolding good_path_def ids_def by (cases p) auto

lemma good_path_src:
  assumes "good_path n h p" "x \<in> set p"
  shows "n \<in> set (ids x)"
proof -
  have "hd p \<in> set (subs x)" using assms by (cases p) (auto simp: good_path_def)
  then have "sid (hd p) \<in> set (ids x)" by (simp add: ids_def)
  then show ?thesis using assms(1) by (simp add: good_path_def)
qed

lemma path_to_children:
  "path_to n h = (if sid h = n then Some [h] else map_option (\<lambda>p. p @ [h]) (path_in n (children h)))"
  by (cases h) simp_all

text \<open>The path visits every state above its first one.\<close>

lemma path_above:
  assumes "path_to n h = Some p" "distinct (ids h)" "x \<in> set (subs h)" "n \<in> set (ids x)"
  shows "x \<in> set p"
  using assms
proof (induction h arbitrary: p rule: hstate_children_induct)
  case (node h)
  show ?case
  proof (cases "x = h \<or> sid h = n")
    case True
    have "x = h" if "sid h = n"
    proof (rule ccontr)
      assume "x \<noteq> h"
      with node.prems(3) obtain c where "c \<in> set (children h)" "x \<in> set (subs c)"
        by (auto elim: subs_cases)
      with sub_ids [of x c] node.prems(4) that have "sid h \<in> set (concat (map ids (children h)))" by auto
      then show False using node.prems(2) ids_children [of h] by simp
    qed
    then have "x = h" using True by blast
    then show ?thesis using path_to_good(1) [OF node.prems(1)] last_in_set [of p] by (auto simp: good_path_def)
  next
    case False
    then obtain d where d: "d \<in> set (children h)" "x \<in> set (subs d)"
      using node.prems(3) by (auto elim: subs_cases)
    obtain q where q: "path_in n (children h) = Some q" "p = q @ [h]"
      using node.prems(1) False by (auto simp: path_to_children [of n h])
    then obtain c where c: "c \<in> set (children h)" "path_to n c = Some q" using path_in_child by blast
    have "n \<in> set (ids c)" using path_to_good(1) [OF c(2)] good_path_ids by blast
    moreover have "n \<in> set (ids d)" using sub_ids [OF d(2)] node.prems(4) by blast
    ultimately have "c = d" using children_apart [OF node.prems(2) c(1) d(1)] by blast
    then have "x \<in> set q"
      using node.IH [OF d(1)] c(2) d(2) node.prems(4) distinct_ids_child [OF node.prems(2) d(1)] by blast
    with q show ?thesis by simp
  qed
qed

definition closed_marking :: "hstate \<Rightarrow> marking \<Rightarrow> bool" where
  "closed_marking root m \<longleftrightarrow> (\<forall>x \<in> set (subs root). \<forall>y \<in> set (subs root).
     y \<in> set (subs x) \<and> sid y \<in> m \<longrightarrow> sid x \<in> m)"

lemma path_distinct:
  assumes "path_to n h = Some p" "distinct (ids h)"
  shows "distinct (map sid p)"
  using assms
proof (induction h arbitrary: p rule: hstate_children_induct)
  case (node h)
  show ?case
  proof (cases "sid h = n")
    case False
    then obtain q where q: "path_in n (children h) = Some q" "p = q @ [h]"
      using node.prems(1) by (auto simp: path_to_children [of n h])
    then obtain c where c: "c \<in> set (children h)" "path_to n c = Some q" using path_in_child by blast
    have "set q \<subseteq> set (subs c)" using path_to_good(1) [OF c(2)] by (simp add: good_path_def)
    then have "sid h \<notin> sid ` set q" using root_not_below(1) [OF node.prems(2) c(1)] by fastforce
    with node.IH [OF c(1,2) distinct_ids_child [OF node.prems(2) c(1)]] q show ?thesis by simp
  qed (use node.prems(1) in \<open>auto simp: path_to_children [of n h]\<close>)
qed

text \<open>\<^verbatim>\<open>mark\<close> stops at a marked state: above it all states are marked already.\<close>

lemma mark_path:
  assumes "closed_marking root m" "set p \<subseteq> set (subs root)" "sorted_wrt (\<lambda>s x. s \<in> set (subs x)) p"
    and "distinct (map sid p)" "sid ` set p \<inter> e = {}"
  shows "mark p (m \<union> e) = m \<union> e \<union> sid ` set p"
  using assms(2-)
proof (induction p arbitrary: e)
  case (Cons s p)
  show ?case
  proof (cases "sid s \<in> m \<union> e")
    case True
    then have "sid s \<in> m" using Cons.prems(4) by auto
    then have "sid ` set p \<subseteq> m" using assms(1) Cons.prems(1,2) unfolding closed_marking_def by auto
    with True Cons.prems(4) show ?thesis by auto
  next
    case False
    then show ?thesis using Cons.IH [of "insert (sid s) e"] Cons.prems by auto
  qed
qed simp

lemma mark_to:
  assumes "well_coded root" "closed_marking root m" "path_to n root = Some p"
  shows "closed_marking root (mark p m)"
    and "x \<in> set (subs root) \<Longrightarrow> sid x \<in> mark p m \<longleftrightarrow> sid x \<in> m \<or> n \<in> set (ids x)"
proof -
  have d: "distinct (ids root)" using assms(1) by (simp add: well_coded_def)
  have g: "good_path n root p" by (rule path_to_good(1) [OF assms(3)])
  have e: "mark p m = m \<union> sid ` set p"
    using mark_path [OF assms(2), of p "{}"] g path_distinct [OF assms(3) d] by (simp add: good_path_def)
  have on: "sid x \<in> sid ` set p \<longleftrightarrow> n \<in> set (ids x)" if x: "x \<in> set (subs root)" for x
  proof
    assume "sid x \<in> sid ` set p"
    then obtain y where y: "y \<in> set p" "sid y = sid x" by force
    then have "y = x" using sid_unique [OF d _ x] g unfolding good_path_def by blast
    then have "hd p \<in> set (subs x)" using y(1) g by (cases p) (auto simp: good_path_def)
    then show "n \<in> set (ids x)" using g unfolding good_path_def ids_def by auto
  next
    assume "n \<in> set (ids x)"
    then show "sid x \<in> sid ` set p" using path_above [OF assms(3) d x] by blast
  qed
  show "sid x \<in> mark p m \<longleftrightarrow> sid x \<in> m \<or> n \<in> set (ids x)" if "x \<in> set (subs root)" for x
    using on [OF that] by (simp add: e)
  then show "closed_marking root (mark p m)"
    using assms(2) sub_ids unfolding closed_marking_def by blast
qed

lemma markStates_marks:
  assumes "well_coded root" "set ds \<subseteq> set (ids root)" "closed_marking root m"
  shows "closed_marking root (markStates root ds m) \<and> (\<forall>x \<in> set (subs root).
     sid x \<in> markStates root ds m \<longleftrightarrow> sid x \<in> m \<or> (\<exists>n \<in> set ds. n \<in> set (ids x)))"
  using assms(2,3)
proof (induction ds arbitrary: m)
  case (Cons n ds)
  obtain p where p: "path_to n root = Some p"
    using Cons.prems(1) path_to_exists(1) [of n root] by auto
  have "markStates root (n # ds) m = markStates root ds (mark p m)" by (simp add: markStates_def p)
  with Cons.IH [of "mark p m"] Cons.prems mark_to [OF assms(1) Cons.prems(2) p] show ?case by auto
qed (simp add: markStates_def)

section \<open>The top state of a transition\<close>

lemma getTopState_contains:
  "getTopState p ds b = Inr x \<Longrightarrow> x \<in> set p \<and> (\<forall>s \<in> set ds. isAncestor (info x) s)"
  by (induction p ds b rule: getTopState.induct) (auto simp: isAncestor_def split: if_splits)

text \<open>The states below the top state on the path do not contain all destinations.\<close>

definition misses :: "state_info list \<Rightarrow> hstate \<Rightarrow> bool" where
  "misses ds z \<longleftrightarrow> (\<exists>s \<in> set ds. \<not> isAncestor (info z) s \<or> (\<exists>i. z = Firing i \<and> si_id s \<noteq> si_id i))"

lemma getTopState_first:
  "getTopState p ds b = Inr x \<Longrightarrow> \<exists>q r. p = q @ x # r \<and> (\<forall>z \<in> set q. misses ds z)"
proof (induction p ds b rule: getTopState.induct)
  case (2 i ps d b)
  show ?case
  proof (cases "\<exists>s \<in> set d. si_id s \<noteq> si_id i")
    case True
    then obtain q r where "ps = q @ x # r" "\<forall>z \<in> set q. misses d z" using 2 by auto
    with True show ?thesis by (intro exI [of _ "Firing i # q"] exI [of _ r]) (auto simp: misses_def)
  next
    case False
    then show ?thesis using "2.prems" by (intro exI [of _ "[]"] exI [of _ ps]) auto
  qed
next
  case (3 i init cs ps d b)
  show ?case
  proof (cases "\<exists>s \<in> set d. \<not> isAncestor i s")
    case True
    then obtain q r where "ps = q @ x # r" "\<forall>z \<in> set q. misses d z" using 3 by auto
    with True show ?thesis by (intro exI [of _ "Xor i init cs # q"] exI [of _ r]) (auto simp: misses_def)
  next
    case False
    then show ?thesis using "3.prems" by (intro exI [of _ "[]"] exI [of _ ps]) auto
  qed
next
  case (4 i cs ps d b)
  show ?case
  proof (cases "\<exists>s \<in> set d. \<not> isAncestor i s")
    case True
    then obtain q r where "ps = q @ x # r" "\<forall>z \<in> set q. misses d z" using 4 by auto
    with True show ?thesis by (intro exI [of _ "AndSt i cs # q"] exI [of _ r]) (auto simp: misses_def)
  next
    case False
    then show ?thesis using "4.prems" by (intro exI [of _ "[]"] exI [of _ ps]) (auto split: if_splits)
  qed
qed simp

text \<open>The recursion ends at a state that contains all destinations, at the latest.\<close>

lemma getTopState_found:
  assumes "q \<noteq> []" "\<not> misses ds (last q)"
  shows "(\<exists>x \<in> set q. getTopState (q @ ps) ds b = Inr x) \<or>
    (\<exists>e. getTopState (q @ ps) ds b = Inl (ModelingError e))"
  using assms
proof (induction q arbitrary: b)
  case (Cons z q)
  show ?case
  proof (cases "q = []")
    case True
    then show ?thesis using Cons.prems(2) by (cases z) (auto simp: misses_def)
  next
    case False
    have "(\<exists>x \<in> set q. getTopState (q @ ps) ds False = Inr x) \<or>
        (\<exists>e. getTopState (q @ ps) ds False = Inl (ModelingError e))"
      by (rule Cons.IH [OF False]) (use Cons.prems(2) False in simp)
    then show ?thesis by (cases z) auto
  qed
qed simp

section \<open>The destinations are entered\<close>

text \<open>Every concurrent state has a partition.\<close>

definition no_empty_and :: "hstate \<Rightarrow> bool" where
  "no_empty_and h \<longleftrightarrow> (\<forall>x \<in> set (subs h). case x of AndSt i cs \<Rightarrow> cs \<noteq> [] | _ \<Rightarrow> True)"

lemma no_empty_and_child: "no_empty_and h \<Longrightarrow> c \<in> set (children h) \<Longrightarrow> no_empty_and c"
  using subs_child by (auto simp: no_empty_and_def)

lemma config_nonempty: "config h p \<Longrightarrow> no_empty_and h \<Longrightarrow> p \<noteq> {}"
proof (induction h arbitrary: p)
  case (Xor i init cs)
  then show ?case using no_empty_and_child [of "Xor i init cs"] by fastforce
next
  case (AndSt i cs)
  then obtain c where c: "c \<in> set cs" by (force simp: no_empty_and_def)
  with AndSt.prems no_empty_and_child [OF AndSt.prems(2)] AndSt.IH [OF c, of "p \<inter> set (ids c)"] show ?case by auto
qed simp

lemma marked_child_Some: "marked_child m cs (Some c) = Inr r \<Longrightarrow> r = Some c"
  by (induction cs) (auto split: if_splits)

lemma marked_child_unique:
  "marked_child m cs t = Inr r \<Longrightarrow> c \<in> set cs \<Longrightarrow> isMarked m c \<Longrightarrow> r = Some c \<and> (t = None \<or> t = Some c)"
  by (induction m cs t rule: marked_child.induct) (auto split: if_splits option.splits dest: marked_child_Some)

lemma xor_child_marked:
  assumes "xor_child m init cs = Inr t" "c \<in> set cs" "isMarked m c"
  shows "t = c"
proof -
  obtain r where r: "marked_child m cs None = Inr r" using assms(1)
    by (auto simp: xor_child_def rbind_eq_Inr_iff)
  with marked_child_unique [OF r assms(2,3)] assms(1) show ?thesis by (simp add: xor_child_def)
qed

text \<open>A state all of whose ancestors below \<open>h\<close> are marked is active in the result.\<close>

lemma getInitialState_mono:
  "getInitialState m h p = Inr q \<Longrightarrow> p \<subseteq> q"
  "getInitialStates m cs p = Inr q \<Longrightarrow> p \<subseteq> q"
  by (induction m h p and m cs p arbitrary: q and q rule: getInitialState_getInitialStates.induct)
    (auto simp: rbind_eq_Inr_iff, blast)

lemma getInitialState_active:
  assumes "getInitialState m h p = Inr q" "distinct (ids h)" "no_empty_and h"
  shows "q \<inter> set (ids h) \<noteq> {}"
proof -
  obtain d where d: "q = p \<union> d" "config h d" using getInitialState_config(1) [OF assms(1,2)] by blast
  then show ?thesis using config_nonempty [OF d(2) assms(3)] config_ids [OF d(2)] by blast
qed

lemma getInitialState_enters:
  "getInitialState m h p = Inr q \<Longrightarrow> distinct (ids h) \<Longrightarrow> no_empty_and h \<Longrightarrow> y \<in> set (subs h) \<Longrightarrow>
     (\<And>x. x \<in> set (subs h) \<Longrightarrow> y \<in> set (subs x) \<Longrightarrow> sid x \<in> m) \<Longrightarrow> q \<inter> set (ids y) \<noteq> {}"
  "getInitialStates m cs p = Inr q \<Longrightarrow> (\<And>c. c \<in> set cs \<Longrightarrow> distinct (ids c) \<and> no_empty_and c) \<Longrightarrow>
     c \<in> set cs \<Longrightarrow> y \<in> set (subs c) \<Longrightarrow>
     (\<And>x. x \<in> set (subs c) \<Longrightarrow> y \<in> set (subs x) \<Longrightarrow> sid x \<in> m) \<Longrightarrow> q \<inter> set (ids y) \<noteq> {}"
proof (induction m h p and m cs p arbitrary: q and q c rule: getInitialState_getInitialStates.induct)
  case (1 m i p)
  then show ?case using getInitialState_active [OF "1.prems"(1-3)] by auto
next
  case (2 m i init cs p)
  show ?case
  proof (cases "y = Xor i init cs")
    case True
    show ?thesis unfolding True by (rule getInitialState_active [OF "2.prems"(1-3)])
  next
    case False
    then obtain c where c: "c \<in> set cs" "y \<in> set (subs c)" using "2.prems"(4) by auto
    obtain t where t: "xor_child m init cs = Inr t" "getInitialState m t p = Inr q"
      using "2.prems"(1) by (auto simp: rbind_eq_Inr_iff)
    have sub: "x \<in> set (subs c) \<Longrightarrow> x \<in> set (subs (Xor i init cs))" for x
      using subs_child [of c "Xor i init cs"] c(1) by simp
    have "isMarked m c" using "2.prems"(5) [OF sub [OF subs_self] c(2)] by (simp add: isMarked_def)
    then have "t = c" using xor_child_marked [OF t(1) c(1)] by simp
    moreover have "distinct (ids c)" "no_empty_and c"
      using distinct_ids_child [OF "2.prems"(2)] no_empty_and_child [OF "2.prems"(3)] c(1) by simp_all
    ultimately show ?thesis
      using "2.IH" [of t q] t c(2) "2.prems"(5) [OF sub] by blast
  qed
next
  case (3 m i cs p)
  show ?case
  proof (cases "y = AndSt i cs")
    case True
    show ?thesis unfolding True by (rule getInitialState_active [OF "3.prems"(1-3)])
  next
    case False
    then obtain c where c: "c \<in> set cs" "y \<in> set (subs c)" using "3.prems"(4) by auto
    have sub: "x \<in> set (subs c) \<Longrightarrow> x \<in> set (subs (AndSt i cs))" for x
      using subs_child [of c "AndSt i cs"] c(1) by simp
    have "\<And>c. c \<in> set cs \<Longrightarrow> distinct (ids c) \<and> no_empty_and c"
      using distinct_ids_child [OF "3.prems"(2)] no_empty_and_child [OF "3.prems"(3)] by simp
    moreover have "getInitialStates m cs p = Inr q" using "3.prems"(1) by simp
    ultimately show ?thesis
      using "3.IH" [of q c] c "3.prems"(5) [OF sub] by blast
  qed
next
  case (5 m c0 cs p)
  then obtain r where r: "getInitialState m c0 p = Inr r" "getInitialStates m cs r = Inr q"
    by (auto simp: rbind_eq_Inr_iff)
  show ?case
  proof (cases "c = c0")
    case True
    then have "r \<inter> set (ids y) \<noteq> {}" using "5.IH"(1) [OF r(1)] "5.prems" by auto
    then show ?thesis using getInitialState_mono(2) [OF r(2)] by blast
  next
    case False
    then show ?thesis using "5.IH"(2) [OF r(1,2)] "5.prems" by auto
  qed
qed auto

section \<open>The target of a transition\<close>

lemma below_ids:
  assumes "well_coded root" "x \<in> set (subs root)" "seen root x"
  shows "below root x n \<longleftrightarrow> n \<in> set (ids x)"
proof -
  have d: "distinct (ids root)" using assms(1) by (simp add: well_coded_def)
  have "n \<in> set (ids x)" if y: "find_state root n = Some y" "isAncestor (info x) (info y)" for y
    using that find_state_iff [OF d] assms by (auto simp: well_coded_def ids_def)
  moreover have "below root x n" if n: "n \<in> set (ids x)"
  proof -
    obtain y where y: "y \<in> set (subs x)" "sid y = n" using n by (auto simp: ids_def)
    then have yr: "y \<in> set (subs root)" using subs_trans assms(2) by blast
    then have "find_state root n = Some y" using find_state_iff [OF d] y(2) by simp
    then show ?thesis using assms y yr by (simp add: below_def well_coded_def)
  qed
  ultimately show ?thesis by (auto simp: below_def split: option.splits)
qed

lemma isImplied_ids:
  assumes "well_coded root" "x \<in> set (subs root)" "seen root x"
  shows "isImplied root (sid x) p \<longleftrightarrow> p \<inter> set (ids x) \<noteq> {}"
proof -
  have "find_state root (sid x) = Some x"
    using assms find_state_iff [of root "sid x" x] by (simp add: well_coded_def)
  then show ?thesis using below_ids [OF assms] by (auto simp: isImplied_def)
qed

lemma inner_seen: "well_coded root \<Longrightarrow> sid y \<in> inner_ids root \<Longrightarrow> seen root y"
  using inner_not_root [of root "sid y"] by (auto simp: seen_def well_coded_def)

lemma those_lookup: "those (map f xs) = Some ys \<Longrightarrow> n \<in> set xs \<Longrightarrow> \<exists>y \<in> set ys. f n = Some y"
  by (induction xs arbitrary: ys) (auto split: option.splits)

lemma those_from: "those (map f ns) = Some ys \<Longrightarrow> y \<in> set ys \<Longrightarrow> \<exists>n \<in> set ns. f n = Some y"
  by (induction ns arbitrary: ys) (auto split: option.splits)

text \<open>
  The state that contains everything below the top state: the top state itself or its only child.
\<close>

lemma inner_cover:
  assumes "well_coded root" "path_to n root = Some p" "n \<in> inner_ids root"
  obtains q ps where "p = q @ ps" "q \<noteq> []" "\<forall>z \<in> set q. z \<in> set (subs root) \<and> seen root z"
    "\<And>ds. those (map (find_state root) ns) = Some ds \<Longrightarrow> set ns \<subseteq> inner_ids root \<Longrightarrow> \<not> misses (map info ds) (last q)"
proof -
  have d: "distinct (ids root)" using assms(1) by (simp add: well_coded_def)
  have g: "good_path n root p" by (rule path_to_good(1) [OF assms(2)])
  have ne: "n \<noteq> sid root" by (rule inner_not_root [OF d assms(3)])
  have hit: "\<not> misses (map info ds) z" if z: "z \<in> set (subs root)" "seen root z" "set ns \<subseteq> set (ids z)"
      and ds: "those (map (find_state root) ns) = Some ds" for z ds
  proof -
    have "isAncestor (info z) (info y) \<and> (\<forall>i. z = Firing i \<longrightarrow> sid y = si_id i)" if "y \<in> set ds" for y
    proof -
      obtain m where m: "m \<in> set ns" "find_state root m = Some y" using those_from [OF ds \<open>y \<in> set ds\<close>] by blast
      then have y: "y \<in> set (subs root)" "sid y = m" using find_state_iff [OF d] by auto
      have "m \<in> set (ids z)" using z(3) m(1) by blast
      then obtain y' where y': "y' \<in> set (subs z)" "sid y' = m" by (auto simp: ids_def)
      then have "y' = y" using sid_unique [OF d subs_trans [OF y'(1) z(1)] y(1)] y(2) by simp
      then show ?thesis using y' y z(1,2) assms(1) by (auto simp: well_coded_def)
    qed
    then show ?thesis by (auto simp: misses_def)
  qed
  show thesis
  proof (cases "length (children root) = 1")
    case True
    then obtain c where c: "children root = [c]" by (cases "children root") auto
    obtain q where q: "path_to n c = Some q" "p = q @ [root]"
      using assms(2) ne c by (auto simp: path_to_children [of n root] split: option.splits)
    have gq: "good_path n c q" by (rule path_to_good(1) [OF q(1)])
    then have l: "q \<noteq> []" "last q = c" "set q \<subseteq> set (subs c)" by (auto simp: good_path_def)
    have "z \<in> set (subs root) \<and> seen root z" if "z \<in> set q" for z
    proof -
      have zc: "z \<in> set (subs c)" using l(3) that by blast
      have "z \<noteq> root" using root_not_below(1) [OF d, of c z] zc c by auto
      then show ?thesis using zc subs_child [of c root z] c by (simp add: seen_def)
    qed
    moreover from this have "seen root c" "c \<in> set (subs root)" using l by force+
    ultimately show thesis
      using that [of q "[root]"] q(2) l hit [of c] c by (auto simp: inner_ids_def)
  next
    case False
    then have s: "seen root z" for z by (simp add: seen_def)
    have l: "p \<noteq> []" "last p = root" "set p \<subseteq> set (subs root)" using g by (auto simp: good_path_def)
    show thesis
    proof (rule that [of p "[]"])
      fix ds
      assume ds: "those (map (find_state root) ns) = Some ds" "set ns \<subseteq> inner_ids root"
      then have "set ns \<subseteq> set (ids root)" using inner_ids_ids by blast
      from hit [OF subs_self s this ds(1)] show "\<not> misses (map info ds) (last p)" by (simp add: l(2))
    qed (use l s in auto)
  qed
qed

text \<open>What \<^verbatim>\<open>target\<close> computes when it succeeds.\<close>

lemma target_result:
  assumes "well_coded root" "target root t s = Inr d" "inner_ends root t"
  obtains x e where "x \<in> set (subs root)" "et_src t \<in> set (ids x)" "set (et_dest t) \<subseteq> set (ids x)"
    "\<And>y. y \<in> set (subs root) \<Longrightarrow> insert (et_src t) (set (et_dest t)) \<subseteq> set (ids y) \<Longrightarrow> x \<in> set (subs y)"
    "getInitialState (markStates root (et_dest t) {}) x {} = Inr e" "d = e \<union> (s - set (ids x))"
proof -
  have dr: "distinct (ids root)" using assms(1) by (simp add: well_coded_def)
  obtain p ds x e where p: "path_to (et_src t) root = Some p" "those (map (find_state root) (et_dest t)) = Some ds"
      "getTopState p (map info ds) True = Inr x" "getInitialState (markStates root (et_dest t) {}) x {} = Inr e"
      "d = e \<union> {n \<in> s. \<not> below root x n}"
    using assms(2) by (auto simp: target_def Let_def rbind_eq_Inr_iff split: option.splits if_splits)
  have inner: "et_src t \<in> inner_ids root" "set (et_dest t) \<subseteq> inner_ids root"
    using assms(3) by (simp_all add: inner_ends_def)
  have g: "good_path (et_src t) root p" by (rule path_to_good(1) [OF p(1)])
  obtain q ps where q: "p = q @ ps" "q \<noteq> []" "\<forall>z \<in> set q. z \<in> set (subs root) \<and> seen root z"
      "\<not> misses (map info ds) (last q)"
    using inner_cover [OF assms(1) p(1) inner(1), of "et_dest t"] p(2) inner(2) by metis
  have xq: "x \<in> set q" using getTopState_found [OF q(2,4), of ps True] p(3) q(1) by auto
  then have x: "x \<in> set (subs root)" "seen root x" using q(3) by auto
  have top: "x \<in> set p" "\<And>y. y \<in> set ds \<Longrightarrow> isAncestor (info x) (info y)"
    using getTopState_contains [OF p(3)] by auto
  have src: "et_src t \<in> set (ids x)" by (rule good_path_src [OF g top(1)])
  have dest: "n \<in> set (ids x)" if n: "n \<in> set (et_dest t)" for n
  proof -
    obtain y where "find_state root n = Some y" "y \<in> set ds"
      using those_lookup [OF p(2) n] by blast
    then show ?thesis using top(2) [of y] below_ids [OF assms(1) x, of n] by (simp add: below_def)
  qed
  have least: "x \<in> set (subs y)" if y: "y \<in> set (subs root)" "insert (et_src t) (set (et_dest t)) \<subseteq> set (ids y)" for y
  proof -
    obtain q' r where q': "p = q' @ x # r" "\<forall>z \<in> set q'. misses (map info ds) z"
      using getTopState_first [OF p(3)] by blast
    have yp: "y \<in> set p" using path_above [OF p(1) dr y(1)] y(2) by simp
    have "y \<notin> set q'"
    proof
      assume yq: "y \<in> set q'"
      have "y \<noteq> root"
        using path_distinct [OF p(1) dr] g yq unfolding q'(1) good_path_def
        by (auto split: if_splits)
      then have "seen root y" by (simp add: seen_def)
      obtain z where z: "z \<in> set ds" "\<not> isAncestor (info y) (info z) \<or> (\<exists>i. y = Firing i \<and> sid z \<noteq> si_id i)"
        using q'(2) yq by (force simp: misses_def)
      obtain m where m: "m \<in> set (et_dest t)" "find_state root m = Some z" using those_from [OF p(2) z(1)] by blast
      then have zr: "z \<in> set (subs root)" "sid z = m" using find_state_iff [OF dr] by auto
      obtain z' where z': "z' \<in> set (subs y)" "sid z' = m" using y(2) m(1) by (auto simp: ids_def)
      then have "z' = z" using sid_unique [OF dr subs_trans [OF z'(1) y(1)] zr(1)] zr(2) by simp
      then show False using z z' zr y(1) \<open>seen root y\<close> assms(1) by (auto simp: well_coded_def)
    qed
    then show ?thesis using yp g unfolding q'(1) good_path_def by (auto simp: sorted_wrt_append)
  qed
  have "{n \<in> s. \<not> below root x n} = s - set (ids x)" using below_ids [OF assms(1) x] by auto
  then show thesis using that [OF x(1) src _ least p(4)] dest p(5) by auto
qed

lemma distinct_ids_sub: "x \<in> set (subs h) \<Longrightarrow> distinct (ids h) \<Longrightarrow> distinct (ids x)"
proof (induction h rule: hstate_children_induct)
  case (node h)
  from node.prems(1) show ?case
  proof (cases rule: subs_cases)
    case (2 c)
    then show ?thesis using node.IH [of c] distinct_ids_child [OF node.prems(2)] by blast
  qed (use node.prems(2) in simp)
qed

lemma target_config:
  assumes "well_coded root" "target root t s = Inr d" "inner_ends root t" "config root s" "isImplied root (et_src t) s"
  shows "config root d"
proof -
  have dr: "distinct (ids root)" using assms(1) by (simp add: well_coded_def)
  obtain x e where x: "x \<in> set (subs root)" "et_src t \<in> set (ids x)"
      "getInitialState (markStates root (et_dest t) {}) x {} = Inr e" "d = e \<union> (s - set (ids x))"
    by (rule target_result [OF assms(1-3)]) blast
  obtain y where y: "y \<in> set (subs x)" "sid y = et_src t" using x(2) by (auto simp: ids_def)
  have yr: "y \<in> set (subs root)" by (rule subs_trans [OF y(1) x(1)])
  have "s \<inter> set (ids y) \<noteq> {}"
    using isImplied_ids [OF assms(1) yr] inner_seen [OF assms(1)] assms(3,5) y(2) by (simp add: inner_ends_def)
  then have act: "s \<inter> set (ids x) \<noteq> {}" using sub_ids [OF y(1)] by blast
  have "distinct (ids x)" by (rule distinct_ids_sub [OF x(1) dr])
  then have "config x e" using getInitialState_empty [OF x(3)] by blast
  then show ?thesis using config_replace [OF assms(4) dr x(1) act] x(4) by simp
qed

lemma no_empty_and_sub: "x \<in> set (subs h) \<Longrightarrow> no_empty_and h \<Longrightarrow> no_empty_and x"
  using subs_trans by (auto simp: no_empty_and_def)

text \<open>Every destination of the transition is active in the target.\<close>

lemma target_enters:
  assumes "well_coded root" "target root t s = Inr d" "inner_ends root t" "no_empty_and root" "n \<in> set (et_dest t)"
  shows "isImplied root n d"
proof -
  have dr: "distinct (ids root)" using assms(1) by (simp add: well_coded_def)
  obtain x e where x: "x \<in> set (subs root)" "set (et_dest t) \<subseteq> set (ids x)"
      "getInitialState (markStates root (et_dest t) {}) x {} = Inr e" "d = e \<union> (s - set (ids x))"
    by (rule target_result [OF assms(1-3)]) blast
  obtain y where y: "y \<in> set (subs x)" "sid y = n" using x(2) assms(5) by (auto simp: ids_def)
  have yr: "y \<in> set (subs root)" by (rule subs_trans [OF y(1) x(1)])
  have "set (et_dest t) \<subseteq> set (ids root)" using x(2) sub_ids [OF x(1)] by blast
  then have m: "\<forall>z \<in> set (subs root). sid z \<in> markStates root (et_dest t) {} \<longleftrightarrow>
      (\<exists>n \<in> set (et_dest t). n \<in> set (ids z))"
    using markStates_marks [OF assms(1), of "et_dest t" "{}"] by (simp add: closed_marking_def)
  have "sid z \<in> markStates root (et_dest t) {}" if "z \<in> set (subs x)" "y \<in> set (subs z)" for z
    using m subs_trans [OF that(1) x(1)] that(2) y(2) assms(5) by (auto simp: ids_def)
  then have "e \<inter> set (ids y) \<noteq> {}"
    using getInitialState_enters(1) [OF x(3) distinct_ids_sub [OF x(1) dr] no_empty_and_sub [OF x(1) assms(4)] y(1)]
    by blast
  moreover have "seen root y" using inner_seen [OF assms(1)] assms(3,5) y(2) by (auto simp: inner_ends_def)
  ultimately show ?thesis using isImplied_ids [OF assms(1) yr] y(2) x(4) by auto
qed

text \<open>
  Outside the smallest common ancestor nothing changes, and a configuration of it is entered.
\<close>

definition common_ancestor :: "hstate \<Rightarrow> expanded_transition \<Rightarrow> hstate \<Rightarrow> bool" where
  "common_ancestor root t x \<longleftrightarrow> x \<in> set (subs root) \<and> insert (et_src t) (set (et_dest t)) \<subseteq> set (ids x)"

definition smallest_common_ancestor :: "hstate \<Rightarrow> expanded_transition \<Rightarrow> hstate \<Rightarrow> bool" where
  "smallest_common_ancestor root t x \<longleftrightarrow> common_ancestor root t x \<and>
     list_all (\<lambda>y. common_ancestor root t y \<longrightarrow> x \<in> set (subs y)) (subs root)"

lemma target_frame:
  assumes "well_coded root" "target root t s = Inr d" "inner_ends root t"
  shows "\<exists>x. smallest_common_ancestor root t x \<and> d - set (ids x) = s - set (ids x) \<and> config x (d \<inter> set (ids x))"
proof -
  have dr: "distinct (ids root)" using assms(1) by (simp add: well_coded_def)
  obtain x e where x: "x \<in> set (subs root)" "et_src t \<in> set (ids x)" "set (et_dest t) \<subseteq> set (ids x)"
      "\<And>y. y \<in> set (subs root) \<Longrightarrow> insert (et_src t) (set (et_dest t)) \<subseteq> set (ids y) \<Longrightarrow> x \<in> set (subs y)"
      "getInitialState (markStates root (et_dest t) {}) x {} = Inr e" "d = e \<union> (s - set (ids x))"
    by (rule target_result [OF assms]) blast
  have c: "config x e" by (rule getInitialState_empty [OF x(5) distinct_ids_sub [OF x(1) dr]])
  have e: "e \<subseteq> set (ids x)" by (rule config_ids [OF c])
  then have "d \<inter> set (ids x) = e" "d - set (ids x) = s - set (ids x)" using x(6) by auto
  then show ?thesis using x(1-4) c
    by (intro exI [of _ x]) (simp add: smallest_common_ancestor_def common_ancestor_def list_all_iff)
qed

lemma well_coded_finalised:
  assumes "finalise F I K 0 1 h etl = Inr (root, etl')" "bits_suffice F h" "only_children_seen F h" "distinct (ids h)"
  shows "well_coded root"
proof -
  note T = finalise_tree [OF assms(1)]
  have "only_children_seen F root"
    using assms(3) only_children_seen_blank [of F h] only_children_seen_blank [of F root] T(4) by simp
  then show ?thesis
    using isAncestor_finalised [OF assms(1,2,4)] T(1) assms(4) only_children_seen_bit [of F root]
    by (auto simp: well_coded_def seen_def)
qed

section \<open>No assertion fires\<close>

text \<open>The initial state of every exclusive state is one of its children.\<close>

definition valid_states :: "hstate \<Rightarrow> bool" where
  "valid_states h \<longleftrightarrow> (\<forall>x \<in> set (subs h). case x of Xor i init cs \<Rightarrow> \<exists>c \<in> set cs. init = Some (sid c) | _ \<Rightarrow> True)"

lemma valid_states_child: "valid_states h \<Longrightarrow> c \<in> set (children h) \<Longrightarrow> valid_states c"
  using subs_child by (auto simp: valid_states_def)

definition no_assert :: "'a result \<Rightarrow> bool" where
  "no_assert r \<longleftrightarrow> (case r of Inr x \<Rightarrow> True | Inl e \<Rightarrow> \<exists>msg. e = ModelingError msg)"

lemma no_assert_simps [simp]:
  "no_assert (Inr x)" "no_assert (Inl e) \<longleftrightarrow> (\<exists>msg. e = ModelingError msg)"
  by (simp_all add: no_assert_def)

lemma no_assert_bind: "no_assert r \<Longrightarrow> (\<And>x. r = Inr x \<Longrightarrow> no_assert (f x)) \<Longrightarrow> no_assert (rbind r f)"
  by (cases r) auto

lemma marked_child_ok: "no_assert (marked_child m cs t)"
  by (induction m cs t rule: marked_child.induct) (auto split: option.splits)

lemma getInitialState_ok:
  "valid_states h \<Longrightarrow> no_assert (getInitialState m h p)"
  "(\<And>c. c \<in> set cs \<Longrightarrow> valid_states c) \<Longrightarrow> no_assert (getInitialStates m cs p)"
proof (induction m h p and m cs p rule: getInitialState_getInitialStates.induct)
  case (2 m i init cs p)
  obtain c where c: "c \<in> set cs" "init = Some (sid c)" using "2.prems" by (auto simp: valid_states_def)
  have "\<exists>d. find (\<lambda>c'. sid c' = sid c) cs = Some d"
    using c(1) by (cases "find (\<lambda>c'. sid c' = sid c) cs") (auto simp: find_None_iff)
  then have "no_assert (xor_child m init cs)"
    using c(2) marked_child_ok [of m cs None]
    by (auto simp: xor_child_def intro!: no_assert_bind split: option.splits)
  then show ?case
    using "2.IH" xor_child_in valid_states_child [OF "2.prems"] by (auto intro!: no_assert_bind)
next
  case (3 m i cs p)
  then show ?case using valid_states_child [OF "3.prems"] by simp
qed (auto intro!: no_assert_bind)

lemma valid_states_sub: "x \<in> set (subs h) \<Longrightarrow> valid_states h \<Longrightarrow> valid_states x"
  using subs_trans by (auto simp: valid_states_def)

lemma those_finds: "(\<And>n. n \<in> set ns \<Longrightarrow> \<exists>y. f n = Some y) \<Longrightarrow> \<exists>ys. those (map f ns) = Some ys"
proof (induction ns)
  case (Cons n ns)
  obtain y where "f n = Some y" using Cons.prems by fastforce
  then show ?case using Cons by auto
qed simp

lemma target_ok:
  assumes "well_coded root" "valid_states root" "inner_ends root t"
  shows "no_assert (target root t s)"
proof -
  have dr: "distinct (ids root)" using assms(1) by (simp add: well_coded_def)
  have inner: "et_src t \<in> inner_ids root" "set (et_dest t) \<subseteq> inner_ids root"
    using assms(3) by (simp_all add: inner_ends_def)
  obtain p where p: "path_to (et_src t) root = Some p"
    using path_to_exists(1) inner_ids_ids [OF inner(1)] by blast
  have "\<exists>y. find_state root n = Some y" if "n \<in> set (et_dest t)" for n
    using inner_ids_ids [of n root] that inner(2) find_state_iff [OF dr] by (auto simp: ids_def)
  then obtain ds where ds: "those (map (find_state root) (et_dest t)) = Some ds"
    using those_finds [of "et_dest t" "find_state root"] by blast
  obtain q ps where q: "p = q @ ps" "q \<noteq> []" "\<forall>z \<in> set q. z \<in> set (subs root) \<and> seen root z"
      "\<not> misses (map info ds) (last q)"
    using inner_cover [OF assms(1) p inner(1), of "et_dest t"] ds inner(2) by metis
  from getTopState_found [OF q(2,4), of ps True] show ?thesis
  proof
    assume "\<exists>e. getTopState (q @ ps) (map info ds) True = Inl (ModelingError e)"
    with p ds q(1) show ?thesis by (auto simp: target_def)
  next
    assume "\<exists>x \<in> set q. getTopState (q @ ps) (map info ds) True = Inr x"
    then obtain x where x: "x \<in> set (subs root)" "seen root x" "getTopState p (map info ds) True = Inr x"
      using q by auto
    have "no_assert (getInitialState (markStates root (et_dest t) {}) x {})"
      by (rule getInitialState_ok(1) [OF valid_states_sub [OF x(1) assms(2)]])
    moreover have "e \<inter> {n \<in> s. \<not> below root x n} = {}"
      if e: "getInitialState (markStates root (et_dest t) {}) x {} = Inr e" for e
      using config_ids [OF getInitialState_empty [OF e distinct_ids_sub [OF x(1) dr]]] below_ids [OF assms(1) x(1,2)]
      by auto
    ultimately show ?thesis using p ds x(3)
      by (auto simp: target_def Let_def intro!: no_assert_bind)
  qed
qed

section \<open>Properties\<close>

text \<open>
  C13.  Let \<^verbatim>\<open>flog2c\<close> give enough bits to number the children of every state, let \<^verbatim>\<open>flog2c(1)\<close> be
  positive or no state below the top state have just one child, and let every concurrent state have a
  partition.  A transition between states below the top state whose source is active in a
  configuration of the hierarchy leads, unless a modeling error is reported, to a configuration in
  which every destination is active.  It differs from the old one only in the smallest state that
  contains the source and the destinations, and a configuration of that state is entered.
\<close>

theorem product_transition_exact:
  assumes "finalise F I K 0 1 h etl = Inr (root, etl')" "bits_suffice F h" "only_children_seen F h" "distinct (ids h)"
    and "no_empty_and root" "inner_ends root t"
    and "config root s" "isImplied root (et_src t) s" "target root t s = Inr d"
  shows "config root d \<and> (\<forall>n \<in> set (et_dest t). isImplied root n d) \<and>
    (\<exists>x. smallest_common_ancestor root t x \<and> d - set (ids x) = s - set (ids x) \<and> config x (d \<inter> set (ids x)))"
  using well_coded_finalised [OF assms(1-4)] assms(5-9) target_config target_enters target_frame
  by blast

definition demo_bits :: "nat \<Rightarrow> nat" where
  "demo_bits n = (if n \<le> 2 then 1 else 2)"

definition demo_info :: "nat \<Rightarrow> 64 word \<Rightarrow> nat \<Rightarrow> state_info" where
  "demo_info i c b = \<lparr>si_id = i, si_name = ''s'', si_code = c, si_bits = b, si_ptl = []\<rparr>"

definition demo_tree :: hstate where
  "demo_tree = Xor (demo_info 0 0 1) (Some 1) [Firing (demo_info 1 0 1),
     AndSt (demo_info 2 0 1) [Xor (demo_info 3 0 1) (Some 4) [Firing (demo_info 4 0 1), Firing (demo_info 5 0 1)],
       Firing (demo_info 6 0 1)]]"

definition demo_root :: hstate where
  "demo_root = Xor (demo_info 0 0 1) (Some 1) [Firing (demo_info 1 0 2),
     AndSt (demo_info 2 1 2) [Xor (demo_info 3 2 3) (Some 4) [Firing (demo_info 4 4 4), Firing (demo_info 5 5 4)],
       Firing (demo_info 6 3 3)]]"

lemma demo_finalise: "finalise demo_bits (\<lambda>p. True) \<lparr>junctions = [], multis = []\<rparr> 0 1 demo_tree [] = Inr (demo_root, [])"
  by (simp add: demo_tree_def demo_root_def demo_bits_def demo_info_def)

lemma demo_valid:
  "bits_suffice demo_bits demo_tree" "only_children_seen demo_bits demo_tree" "distinct (ids demo_tree)" "no_empty_and demo_root" "valid_states demo_root"
  by (simp_all add: bits_suffice_def only_children_seen_def demo_tree_def demo_bits_def no_empty_and_def demo_root_def valid_states_def
      demo_info_def)

definition demo_transition :: "rt_rule \<Rightarrow> nat \<Rightarrow> nat \<Rightarrow> expanded_transition" where
  "demo_transition r i j = \<lparr>et_src = i, et_in = [], et_rule = r, et_dest = [j]\<rparr>"

lemma demo_target: "target demo_root (demo_transition r 1 5) {1} = Inr {5, 6}"
  by (simp add: target_def demo_root_def demo_transition_def find_state_def isAncestor_def demo_info_def
      markStates_def xor_child_def isMarked_def below_def insert_commute Collect_conv_if cong: conj_cong)

lemma demo_inner: "i \<in> {1..6} \<Longrightarrow> j \<in> {1..6} \<Longrightarrow> inner_ends demo_root (demo_transition r i j)"
  by (auto simp: inner_ends_def inner_ids_def demo_root_def demo_transition_def demo_info_def)

text \<open>Inside the partition \<open>3\<close> of the concurrent state \<open>2\<close>, the transition leaves partition \<open>6\<close> alone.\<close>

lemma demo_target': "target demo_root (demo_transition r 4 5) {4, 6} = Inr {5, 6}"
  by (simp add: target_def demo_root_def demo_transition_def find_state_def isAncestor_def demo_info_def
      markStates_def xor_child_def isMarked_def below_def insert_commute Collect_conv_if cong: conj_cong)

theorem product_transition_exact_witness:
  "\<forall>r. target demo_root (demo_transition r 4 5) {4, 6} = Inr {5, 6} \<and> config demo_root {5, 6} \<and>
     isImplied demo_root 5 {5, 6} \<and> (\<exists>x. smallest_common_ancestor demo_root (demo_transition r 4 5) x \<and>
       {5, 6} - set (ids x) = {4, 6} - set (ids x) \<and> config x ({5, 6} \<inter> set (ids x)))"
proof
  fix r
  have c: "config demo_root {4, 6}"
    by (auto simp: demo_root_def demo_info_def)
  have i: "isImplied demo_root (et_src (demo_transition r 4 5)) {4, 6}"
    by (simp add: demo_root_def demo_info_def isImplied_def demo_transition_def find_state_def below_def isAncestor_def)
  have "inner_ends demo_root (demo_transition r 4 5)" by (rule demo_inner) simp_all
  from product_transition_exact [OF demo_finalise demo_valid(1-4) this c i demo_target'] demo_target' [of r]
  show "target demo_root (demo_transition r 4 5) {4, 6} = Inr {5, 6} \<and> config demo_root {5, 6} \<and>
     isImplied demo_root 5 {5, 6} \<and> (\<exists>x. smallest_common_ancestor demo_root (demo_transition r 4 5) x \<and>
       {5, 6} - set (ids x) = {4, 6} - set (ids x) \<and> config x ({5, 6} \<inter> set (ids x)))"
    by (simp add: demo_transition_def)
qed

text \<open>
  C14.  Let \<^verbatim>\<open>flog2c\<close> give enough bits to number the children of every state, let \<^verbatim>\<open>flog2c(1)\<close> be
  positive or no state below the top state have just one child, and let the initial state of every
  exclusive state be one of its children.  Then the target of a transition between states below the
  top state hits no assertion and no null pointer, from whatever set of states: it is computed, or
  the modeling error of a transition between partitions or of two destinations in one exclusive state
  is reported.
\<close>

theorem product_transition_safe:
  assumes "finalise F I K 0 1 h etl = Inr (root, etl')" "bits_suffice F h" "only_children_seen F h" "distinct (ids h)"
    and "valid_states root" "inner_ends root t"
  shows "(\<exists>d. target root t s = Inr d) \<or> (\<exists>msg. target root t s = Inl (ModelingError msg))"
  using target_ok [OF well_coded_finalised [OF assms(1-4)] assms(5,6), of s]
  by (cases "target root t s") auto

theorem product_transition_safe_witness:
  "\<forall>r. (\<exists>d. target demo_root (demo_transition r 4 6) {4, 6} = Inr d) \<or>
     (\<exists>msg. target demo_root (demo_transition r 4 6) {4, 6} = Inl (ModelingError msg))"
proof
  fix r
  show "(\<exists>d. target demo_root (demo_transition r 4 6) {4, 6} = Inr d) \<or>
     (\<exists>msg. target demo_root (demo_transition r 4 6) {4, 6} = Inl (ModelingError msg))"
    by (rule product_transition_safe [OF demo_finalise demo_valid(1-3,5)]) (rule demo_inner, simp_all)
qed

end
