(* ===== verification/FSM_Worklist.thy ===== *)
theory FSM_Worklist
  imports FSM_Configurations
begin

text \<open>
  The worklist of \<^verbatim>\<open>before_end_of_elaboration\<close>: it ends, and the runtime states it leaves are the
  product states reachable from the initial one, each with all its transitions in the order of the
  expanded transitions.
\<close>

text \<open>The specification: the transitions that leave a product state.\<close>

fun succs :: "hstate \<Rightarrow> prod_state \<Rightarrow> expanded_transition list \<Rightarrow> (rt_rule \<times> prod_state) list result" where
  "succs root s [] = Inr []"
| "succs root s (t # ts) = (if enabled root s t
     then rbind (target root t s) (\<lambda>d. rbind (succs root s ts) (\<lambda>r. Inr ((et_rule t, d) # r)))
     else succs root s ts)"

inductive reach :: "hstate \<Rightarrow> expanded_transition list \<Rightarrow> prod_state \<Rightarrow> prod_state \<Rightarrow> bool"
  for root etl p0 where
  reach_init: "reach root etl p0 p0"
| reach_step: "reach root etl p0 s \<Longrightarrow> t \<in> set etl \<Longrightarrow> enabled root s t \<Longrightarrow> target root t s = Inr d \<Longrightarrow>
    reach root etl p0 d"

section \<open>One product state\<close>

lemma map_of_add_runtime:
  "map_of (add_runtime_transition s e st) p =
     (case map_of st p of None \<Rightarrow> None | Some ts \<Rightarrow> Some (if p = s then ts @ [e] else ts))"
  by (induction st) (auto simp: add_runtime_transition_def)

lemma fst_add_runtime [simp]: "map fst (add_runtime_transition s e st) = map fst st"
  by (simp add: add_runtime_transition_def comp_def case_prod_beta)

text \<open>
  \<open>grown s r b b'\<close>: the transitions \<open>r\<close> have been added to state \<open>s\<close>, and their new target states at
  the end of both lists.
\<close>

definition grown_by :: "prod_state list \<Rightarrow> prod_state \<Rightarrow> (rt_rule \<times> prod_state) list \<Rightarrow> build \<Rightarrow> build \<Rightarrow> bool" where
  "grown_by ns s r b b' \<longleftrightarrow> map fst (bd_states b') = map fst (bd_states b) @ ns \<and>
     bd_new b' = bd_new b @ ns \<and> distinct ns \<and> set ns \<inter> fst ` set (bd_states b) = {} \<and>
     set ns \<subseteq> snd ` set r \<and> snd ` set r \<subseteq> fst ` set (bd_states b) \<union> set ns \<and>
     (\<forall>p. map_of (bd_states b') p = (if p = s then map_option (\<lambda>ts. ts @ r) (map_of (bd_states b) s)
        else if p \<in> set ns then Some [] else map_of (bd_states b) p))"

definition grown :: "prod_state \<Rightarrow> (rt_rule \<times> prod_state) list \<Rightarrow> build \<Rightarrow> build \<Rightarrow> bool" where
  "grown s r b b' \<longleftrightarrow> (\<exists>ns. grown_by ns s r b b')"

lemma grown_by_keys: "grown_by ns s r b b' \<Longrightarrow> fst ` set (bd_states b') = fst ` set (bd_states b) \<union> set ns"
  unfolding grown_by_def by (metis list.set_map set_append)

lemma grown_byD:
  assumes "grown_by ns s r b b'"
  shows "map fst (bd_states b') = map fst (bd_states b) @ ns" "bd_new b' = bd_new b @ ns" "distinct ns"
    "set ns \<inter> fst ` set (bd_states b) = {}" "set ns \<subseteq> snd ` set r"
    "snd ` set r \<subseteq> fst ` set (bd_states b) \<union> set ns"
    "map_of (bd_states b') p = (if p = s then map_option (\<lambda>ts. ts @ r) (map_of (bd_states b) s)
        else if p \<in> set ns then Some [] else map_of (bd_states b) p)"
  using assms by (simp_all only: grown_by_def)

lemma grown_refl: "grown s [] b b"
  by (auto simp: grown_def grown_by_def map_option_case split: option.splits)

lemma visit_grown:
  assumes "visit root s t b = Inr b'" "s \<in> fst ` set (bd_states b)"
  shows "\<exists>r. (if enabled root s t then \<exists>d. target root t s = Inr d \<and> r = [(et_rule t, d)] else r = []) \<and>
    grown s r b b'"
proof (cases "enabled root s t")
  case True
  then obtain d where d: "target root t s = Inr d" using assms(1)
    by (auto simp: visit_def rbind_eq_Inr_iff)
  have "grown s [(et_rule t, d)] b b'"
  proof (cases "d \<in> fst ` set (bd_states b)")
    case in_states: True
    then have "b' = b\<lparr>bd_states := add_runtime_transition s (et_rule t, d) (bd_states b)\<rparr>"
      using assms(1) True d by (simp add: visit_def)
    then show ?thesis using in_states
      by (auto simp: grown_def grown_by_def map_of_add_runtime split: option.splits)
  next
    case False
    then have b': "b' = b\<lparr>bd_new := bd_new b @ [d],
        bd_states := add_runtime_transition s (et_rule t, d) (bd_states b @ [(d, [])])\<rparr>"
      using assms(1) True d by (simp add: visit_def)
    have "s \<noteq> d" using False assms(2) by auto
    moreover have "map_of (bd_states b) d = None" using False by (simp add: map_of_eq_None_iff)
    ultimately show ?thesis using False unfolding grown_def grown_by_def b'
      by (intro exI [of _ "[d]"]) (auto simp: map_of_add_runtime map_add_def split: option.splits)
  qed
  with True d show ?thesis by auto
next
  case False
  then show ?thesis using assms(1) grown_refl by (auto simp: visit_def)
qed

lemma grown_trans:
  assumes "grown s r b b'" "grown s r' b' b''" "s \<in> fst ` set (bd_states b)"
  shows "grown s (r @ r') b b''"
proof -
  obtain ns ns' where g: "grown_by ns s r b b'" "grown_by ns' s r' b' b''"
    using assms(1,2) unfolding grown_def by blast
  note k = grown_by_keys [OF g(1)] and G = grown_byD [OF g(1)] and H = grown_byD [OF g(2)]
  have "map_of (bd_states b'') p = (if p = s then map_option (\<lambda>ts. ts @ (r @ r')) (map_of (bd_states b) s)
        else if p \<in> set (ns @ ns') then Some [] else map_of (bd_states b) p)" for p
    by (simp add: G(7) H(7) option.map_comp comp_def)
  moreover have "distinct (ns @ ns')" using G(3) H(3,4) k by auto
  moreover have "set (ns @ ns') \<inter> fst ` set (bd_states b) = {}" using G(4) H(4) k by auto
  moreover have "set (ns @ ns') \<subseteq> snd ` set (r @ r')" using G(5) H(5) by auto
  moreover have "snd ` set (r @ r') \<subseteq> fst ` set (bd_states b) \<union> set (ns @ ns')" using G(6) H(6) k by auto
  moreover have "map fst (bd_states b'') = map fst (bd_states b) @ ns @ ns'" using G(1) H(1) by simp
  moreover have "bd_new b'' = bd_new b @ ns @ ns'" using G(2) H(2) by simp
  ultimately have "grown_by (ns @ ns') s (r @ r') b b''" unfolding grown_by_def append_assoc by (intro conjI allI)
  then show ?thesis unfolding grown_def by blast
qed

lemma visit_all_grown:
  assumes "visit_all root s ts b = Inr b'" "s \<in> fst ` set (bd_states b)"
  shows "\<exists>r. succs root s ts = Inr r \<and> grown s r b b'"
  using assms
proof (induction ts arbitrary: b)
  case (Cons t ts)
  then obtain c where c: "visit root s t b = Inr c" "visit_all root s ts c = Inr b'"
    by (auto simp: rbind_eq_Inr_iff)
  obtain r1 where r1: "if enabled root s t then \<exists>d. target root t s = Inr d \<and> r1 = [(et_rule t, d)] else r1 = []"
      "grown s r1 b c"
    using visit_grown [OF c(1) Cons.prems(2)] by blast
  obtain ns where "grown_by ns s r1 b c" using r1(2) unfolding grown_def by blast
  then have "s \<in> fst ` set (bd_states c)" using Cons.prems(2) grown_by_keys [of ns s r1 b c] by simp
  then obtain r2 where r2: "succs root s ts = Inr r2" "grown s r2 c b'" using Cons.IH [OF c(2)] by blast
  have "succs root s (t # ts) = Inr (r1 @ r2)" using r1(1) r2(1) by (auto split: if_splits)
  with grown_trans [OF r1(2) r2(2) Cons.prems(2)] show ?case by blast
qed (auto simp: grown_refl)

section \<open>The loop\<close>

definition build_inv :: "hstate \<Rightarrow> expanded_transition list \<Rightarrow> prod_state \<Rightarrow> build \<Rightarrow> bool" where
  "build_inv root etl p0 b \<longleftrightarrow> distinct (map fst (bd_states b)) \<and> distinct (bd_new b) \<and>
     set (bd_new b) \<subseteq> fst ` set (bd_states b) \<and> p0 \<in> fst ` set (bd_states b) \<and>
     (\<forall>p \<in> fst ` set (bd_states b). p \<subseteq> set (ids root) \<and> reach root etl p0 p \<and>
        (if p \<in> set (bd_new b) then map_of (bd_states b) p = Some []
         else \<exists>r. succs root p etl = Inr r \<and> map_of (bd_states b) p = Some r \<and> snd ` set r \<subseteq> fst ` set (bd_states b)))"

lemma target_ids:
  assumes "well_coded root" "target root t s = Inr d" "inner_ends root t" "s \<subseteq> set (ids root)"
  shows "d \<subseteq> set (ids root)"
proof -
  obtain x where "x \<in> set (subs root)" "d - set (ids x) = s - set (ids x)"
    using target_frame [OF assms(1-3)] by (auto simp: smallest_common_ancestor_def common_ancestor_def)
  then show ?thesis using sub_ids [of x root] assms(4) by blast
qed

lemma visit_all_error:
  "visit_all root s ts b = Inl e \<Longrightarrow> \<exists>t \<in> set ts. enabled root s t \<and> target root t s = Inl e"
proof (induction ts arbitrary: b)
  case (Cons t ts)
  show ?case
  proof (cases "visit root s t b")
    case (Inl e')
    then show ?thesis using Cons.prems by (auto simp: visit_def Let_def rbind_def split: if_splits sum.splits)
  next
    case (Inr c)
    then show ?thesis using Cons.IH [of c] Cons.prems by auto
  qed
qed simp

lemma succs_target:
  "succs root s ts = Inr r \<Longrightarrow> (u, d) \<in> set r \<Longrightarrow> \<exists>t \<in> set ts. enabled root s t \<and> target root t s = Inr d"
  by (induction ts arbitrary: r) (fastforce simp: rbind_eq_Inr_iff split: if_splits)+

lemma succs_targets:
  "succs root s ts = Inr r \<Longrightarrow> d \<in> snd ` set r \<Longrightarrow> \<exists>t \<in> set ts. enabled root s t \<and> target root t s = Inr d"
  using succs_target by fastforce

lemma succs_complete:
  "succs root s ts = Inr r \<Longrightarrow> t \<in> set ts \<Longrightarrow> enabled root s t \<Longrightarrow> target root t s = Inr d \<Longrightarrow> d \<in> snd ` set r"
  by (induction ts arbitrary: r) (auto simp: rbind_eq_Inr_iff split: if_splits)

lemma build_inv_init:
  assumes "p0 \<subseteq> set (ids root)"
  shows "build_inv root etl p0 \<lparr>bd_states = [(p0, [])], bd_new = [p0]\<rparr>"
  using assms by (simp add: build_inv_def reach_init)

lemma build_inv_round:
  assumes wc: "well_coded root" and ends: "\<forall>t \<in> set etl. inner_ends root t" and inv: "build_inv root etl p0 b" and ne: "bd_new b \<noteq> []"
    and step: "round_of root etl b = Inr b'"
  shows "build_inv root etl p0 b' \<and>
    length (bd_states b') + length (bd_new b) = Suc (length (bd_new b') + length (bd_states b))"
proof -
  obtain s ns0 where new: "bd_new b = s # ns0" using ne by (cases "bd_new b") auto
  let ?c = "b\<lparr>bd_new := ns0\<rparr>" and ?K = "fst ` set (bd_states b)"
  have sK: "s \<in> ?K" and s: "s \<subseteq> set (ids root)" "reach root etl p0 s" "map_of (bd_states b) s = Some []"
    and ns0: "s \<notin> set ns0" "distinct ns0" "set ns0 \<subseteq> ?K"
    using inv new by (auto simp: build_inv_def)
  have "visit_all root s etl ?c = Inr b'" using step new by (simp add: round_of_def)
  then obtain r where r: "succs root s etl = Inr r" "grown s r ?c b'" using visit_all_grown [of root s etl ?c] sK by auto
  then obtain ns where g: "grown_by ns s r ?c b'" by (auto simp: grown_def)
  note G = grown_byD [OF g, simplified] and K = grown_by_keys [OF g, simplified]
  have new_ok: "p \<subseteq> set (ids root) \<and> reach root etl p0 p" if "p \<in> set ns" for p
  proof -
    have "p \<in> snd ` set r" using that G(5) by blast
    then obtain t where "t \<in> set etl" "enabled root s t" "target root t s = Inr p"
      using succs_targets [OF r(1)] by blast
    then show ?thesis using target_ids [OF wc _ _ s(1)] ends reach_step [OF s(2)] by blast
  qed
  have old: "p \<subseteq> set (ids root) \<and> reach root etl p0 p \<and>
     (if p \<in> set (bd_new b) then map_of (bd_states b) p = Some []
      else \<exists>r. succs root p etl = Inr r \<and> map_of (bd_states b) p = Some r \<and> snd ` set r \<subseteq> ?K)" if "p \<in> ?K" for p
    using inv that unfolding build_inv_def by blast
  have main: "p \<subseteq> set (ids root) \<and> reach root etl p0 p \<and>
     (if p \<in> set (bd_new b') then map_of (bd_states b') p = Some []
      else \<exists>r. succs root p etl = Inr r \<and> map_of (bd_states b') p = Some r \<and> snd ` set r \<subseteq> ?K \<union> set ns)"
    if p: "p \<in> ?K \<union> set ns" for p
  proof (cases "p \<in> set ns")
    case True
    then have "p \<noteq> s" using G(4) sK by blast
    with True show ?thesis using new_ok [OF True] G(2) G(7) [of p] by simp
  next
    case False
    then have pK: "p \<in> ?K" using p by blast
    show ?thesis
    proof (cases "p = s")
      case True
      then have "p \<notin> set (bd_new b')" using ns0(1) False G(2) by simp
      with True show ?thesis using r(1) s G(6) G(7) [of s] by simp
    next
      case ps: False
      have "p \<in> set (bd_new b') \<longleftrightarrow> p \<in> set (bd_new b)" using ps False G(2) new by simp
      moreover have "map_of (bd_states b') p = map_of (bd_states b) p" using G(7) [of p] ps False by simp
      moreover have "A \<subseteq> ?K \<Longrightarrow> A \<subseteq> ?K \<union> set ns" for A by (rule le_supI1)
      ultimately show ?thesis using old [OF pK] by metis
    qed
  qed
  have "distinct (map fst (bd_states b'))"
    using inv G(3,4) unfolding G(1) build_inv_def by (simp only: distinct_append set_map) blast
  moreover have "distinct (bd_new b')" using G(2,3,4) ns0 by auto
  moreover have "set (bd_new b') \<subseteq> ?K \<union> set ns" using G(2) ns0 by auto
  moreover have "p0 \<in> ?K \<union> set ns" using inv by (simp add: build_inv_def)
  ultimately have "build_inv root etl p0 b'"
    unfolding build_inv_def K by (intro conjI ballI) (use main in blast)+
  moreover have "length (bd_states b') = length (bd_states b) + length ns"
    using arg_cong [OF G(1), of length] by simp
  ultimately show ?thesis using new G(2) by simp
qed

text \<open>The number of product states is bounded, so the loop ends.\<close>

lemma build_inv_bound: "build_inv root etl p0 b \<Longrightarrow> length (bd_states b) \<le> 2 ^ card (set (ids root))"
proof -
  assume "build_inv root etl p0 b"
  then have d: "distinct (map fst (bd_states b))" and p: "set (map fst (bd_states b)) \<subseteq> Pow (set (ids root))"
    by (auto simp: build_inv_def)
  have "length (bd_states b) = card (set (map fst (bd_states b)))" using distinct_card [OF d] by simp
  also have "\<dots> \<le> card (Pow (set (ids root)))" using p by (intro card_mono) auto
  finally show ?thesis by (simp add: card_Pow)
qed

definition loop_inv :: "hstate \<Rightarrow> expanded_transition list \<Rightarrow> prod_state \<Rightarrow> build result \<Rightarrow> bool" where
  "loop_inv root etl p0 r = (case r of
       Inl e \<Rightarrow> \<exists>s t. reach root etl p0 s \<and> t \<in> set etl \<and> enabled root s t \<and> target root t s = Inl e
     | Inr b \<Rightarrow> build_inv root etl p0 b)"

definition loop_measure :: "hstate \<Rightarrow> build result \<Rightarrow> nat" where
  "loop_measure root r = (case r of Inl e \<Rightarrow> 0
     | Inr b \<Rightarrow> 2 ^ card (set (ids root)) - length (bd_states b) + length (bd_new b))"

lemma loop_step:
  assumes "well_coded root" "\<forall>t \<in> set etl. inner_ends root t" "loop_inv root etl p0 r" "unfinished r"
  shows "loop_inv root etl p0 (rbind r (round_of root etl)) \<and>
    loop_measure root (rbind r (round_of root etl)) < loop_measure root r"
proof -
  obtain b where b: "r = Inr b" "bd_new b \<noteq> []" "build_inv root etl p0 b"
    using assms(3,4) by (cases r) (auto simp: unfinished_def loop_inv_def)
  show ?thesis
  proof (cases "round_of root etl b")
    case (Inl e)
    obtain s ns where s: "bd_new b = s # ns" using b(2) by (cases "bd_new b") auto
    then have "reach root etl p0 s" using b(3) by (auto simp: build_inv_def)
    moreover have "\<exists>t \<in> set etl. enabled root s t \<and> target root t s = Inl e"
      using visit_all_error [of root s etl _ e] Inl s by (simp add: round_of_def)
    ultimately show ?thesis using b Inl by (auto simp: loop_inv_def loop_measure_def)
  next
    case (Inr b')
    have "build_inv root etl p0 b'"
      "length (bd_states b') + length (bd_new b) = Suc (length (bd_new b') + length (bd_states b))"
      using build_inv_round [OF assms(1,2) b(3,2) Inr] by simp_all
    then show ?thesis using b Inr build_inv_bound [of root etl p0 b] build_inv_bound [of root etl p0 b']
      by (simp add: loop_inv_def loop_measure_def)
  qed
qed

lemma worklist_ends:
  assumes "well_coded root" "\<forall>t \<in> set etl. inner_ends root t" "build_inv root etl p0 b"
  shows "\<exists>r. worklist root etl b = Some r \<and> loop_inv root etl p0 r \<and> \<not> unfinished r"
proof -
  have "\<exists>r. worklist root etl b = Some r" unfolding worklist_def
    by (rule measure_while_option_Some [where P = "loop_inv root etl p0" and f = "loop_measure root"])
      (use loop_step [OF assms(1,2)] assms(3) in \<open>auto simp: loop_inv_def\<close>)
  then obtain r where r: "worklist root etl b = Some r" by blast
  moreover have "loop_inv root etl p0 r"
    by (rule while_option_rule [OF _ r [unfolded worklist_def]])
      (use loop_step [OF assms(1,2)] assms(3) in \<open>auto simp: loop_inv_def\<close>)
  ultimately show ?thesis using while_option_stop [of unfinished] unfolding worklist_def by blast
qed

lemma worklist_result:
  assumes "build_inv root etl p0 b" "bd_new b = []"
  shows "fst ` set (bd_states b) = {s. reach root etl p0 s}"
    and "(s, ts) \<in> set (bd_states b) \<Longrightarrow> succs root s etl = Inr ts"
proof -
  note inv = assms(1) [unfolded build_inv_def assms(2) list.set(1) empty_iff if_False]
  have d: "distinct (map fst (bd_states b))" and p0: "p0 \<in> fst ` set (bd_states b)" using inv by blast+
  have I: "reach root etl p0 p \<and>
       (\<exists>r. succs root p etl = Inr r \<and> map_of (bd_states b) p = Some r \<and> snd ` set r \<subseteq> fst ` set (bd_states b))"
    if "p \<in> fst ` set (bd_states b)" for p
    using inv that by blast
  show "succs root s etl = Inr ts" if "(s, ts) \<in> set (bd_states b)"
    using I [of s] that map_of_is_SomeI [OF d that] by force
  have "s \<in> fst ` set (bd_states b)" if "reach root etl p0 s" for s
    using that
  proof induction
    case (reach_step s t d)
    from I [OF reach_step.IH] obtain r where r: "succs root s etl = Inr r" "snd ` set r \<subseteq> fst ` set (bd_states b)" by blast
    from subsetD [OF r(2) succs_complete [OF r(1) reach_step.hyps(2-4)]] show ?case .
  qed (rule p0)
  moreover have "reach root etl p0 s" if "s \<in> fst ` set (bd_states b)" for s using I [OF that] by simp
  ultimately show "fst ` set (bd_states b) = {s. reach root etl p0 s}"
    by (intro set_eqI iffI) (simp_all only: mem_Collect_eq)
qed

lemma reach_config:
  assumes "well_coded root" "\<forall>t \<in> set etl. inner_ends root t" "config root p0" "reach root etl p0 s"
  shows "config root s"
  using assms(4)
proof induction
  case (reach_step s t d)
  then show ?case using target_config [OF assms(1)] assms(2) by (simp add: enabled_def)
qed (rule assms(3))

text \<open>Without destinations no state is marked, and the initial configuration is entered.\<close>

lemma marked_child_empty: "marked_child {} cs t = Inr t"
  by (induction cs) (simp_all add: isMarked_def)

lemma getInitialState_total:
  "valid_states h \<Longrightarrow> \<exists>q. getInitialState {} h p = Inr q"
  "(\<And>c. c \<in> set cs \<Longrightarrow> valid_states c) \<Longrightarrow> \<exists>q. getInitialStates {} cs p = Inr q"
proof (induction "{} :: marking" h p and "{} :: marking" cs p rule: getInitialState_getInitialStates.induct)
  case (2 i init cs p)
  obtain c where c: "c \<in> set cs" "init = Some (sid c)" using "2.prems" by (auto simp: valid_states_def)
  have "\<exists>d. find (\<lambda>c'. sid c' = sid c) cs = Some d"
    using c(1) by (cases "find (\<lambda>c'. sid c' = sid c) cs") (auto simp: find_None_iff)
  then obtain d where d: "xor_child {} init cs = Inr d"
    using c(2) by (auto simp: xor_child_def marked_child_empty)
  then show ?case using "2.hyps" [OF d] xor_child_in [OF d] valid_states_child [OF "2.prems"] by simp
next
  case (3 i cs p)
  then show ?case using valid_states_child [OF "3.prems"] by simp
next
  case (5 c cs p)
  obtain r where "getInitialState {} c p = Inr r" using "5.hyps"(1) "5.prems" by auto
  then show ?case using "5.hyps"(2) [of r] "5.prems" by auto
qed auto

section \<open>Properties\<close>

text \<open>
  C15.  Let \<^verbatim>\<open>flog2c\<close> give enough bits to number the children of every state, let \<^verbatim>\<open>flog2c(1)\<close> be
  positive or no state below the top state have just one child, let the initial state of every
  exclusive state be one of its children, and let the expanded transitions connect states below the
  top state.  Then there is an initial product state and the worklist ends.  Either it reports a
  modeling error, that of an enabled transition of a reachable product state, or the runtime states
  are without duplicates exactly the product states reachable from the initial one, all of them are
  configurations of the hierarchy, and each has exactly the enabled expanded transitions to their
  targets, in the order of the list.
\<close>

theorem worklist_builds_reachable_product:
  assumes "finalise F I K 0 1 h etl0 = Inr (root, etl)" "bits_suffice F h" "only_children_seen F h" "distinct (ids h)"
    and "valid_states root" "\<forall>t \<in> set etl. inner_ends root t"
  shows "\<exists>p0 r. getInitialState {} root {} = Inr p0 \<and> build_fsm root etl = Some r \<and> (case r of
       Inl e \<Rightarrow> (\<exists>msg. e = ModelingError msg) \<and>
         (\<exists>s t. reach root etl p0 s \<and> t \<in> set etl \<and> enabled root s t \<and> target root t s = Inl e)
     | Inr (p, st) \<Rightarrow> p = p0 \<and> distinct (map fst st) \<and> fst ` set st = {s. reach root etl p0 s} \<and>
         (\<forall>(s, ts) \<in> set st. config root s \<and> succs root s etl = Inr ts))"
proof -
  obtain p0 where Inr: "getInitialState {} root {} = Inr p0"
    using getInitialState_total(1) [OF assms(5)] by blast
  have wc: "well_coded root" by (rule well_coded_finalised [OF assms(1-4)])
  then have c: "config root p0" using getInitialState_empty [OF Inr] by (simp add: well_coded_def)
  obtain r where r: "worklist root etl \<lparr>bd_states = [(p0, [])], bd_new = [p0]\<rparr> = Some r"
      "loop_inv root etl p0 r" "\<not> unfinished r"
    using worklist_ends [OF wc assms(6) build_inv_init [OF config_ids [OF c]]] by blast
  show ?thesis
  proof (cases r)
    case (Inl e)
    obtain s t where t: "reach root etl p0 s" "t \<in> set etl" "enabled root s t" "target root t s = Inl e"
      using r(2) Inl by (auto simp: loop_inv_def)
    have "\<exists>msg. e = ModelingError msg" using target_ok [OF wc assms(5), of t s] assms(6) t by simp
    then show ?thesis using r Inr Inl t by (auto simp: build_fsm_def)
  next
    case b: (Inr b)
    have inv: "build_inv root etl p0 b" "bd_new b = []"
      using r b by (simp_all add: loop_inv_def unfinished_def)
    have R: "config root s \<and> succs root s etl = Inr ts" if "(s, ts) \<in> set (bd_states b)" for s ts
    proof -
      have "s \<in> fst ` set (bd_states b)" using that by (metis fst_conv image_eqI)
      then have "reach root etl p0 s" unfolding worklist_result(1) [OF inv] by simp
      then show ?thesis using reach_config [OF wc assms(6) c] worklist_result(2) [OF inv that] by blast
    qed
    have "distinct (map fst (bd_states b))" using inv(1) by (simp add: build_inv_def)
    with r Inr b R worklist_result(1) [OF inv] show ?thesis by (auto simp: build_fsm_def)
  qed
qed

definition demo_rule :: "nat \<Rightarrow> partial_transition" where
  "demo_rule n = \<lparr>fr_guard = GLit (VBool True), fr_action = [], pt_dest = ToState n\<rparr>"

definition demo_machine :: hstate where
  "demo_machine = Xor (mk_info 0 [] []) (Some 1) [Firing (mk_info 1 ''a'' [demo_rule 2]), Firing (mk_info 2 ''b'' [demo_rule 1])]"

text \<open>With \<^verbatim>\<open>flog2c(1) = 0\<close> and with a machine of one state.\<close>

definition loop_machine :: hstate where
  "loop_machine = Xor (mk_info 0 [] []) (Some 1) [Firing (mk_info 1 ''a'' [demo_rule 1])]"

theorem worklist_builds_reachable_product_witness:
  "list_all (\<lambda>h. \<exists>root etl. finalise (\<lambda>n. n - 1) (\<lambda>p. True) \<lparr>junctions = [], multis = []\<rparr> 0 1 h [] =
       Inr (root, etl) \<and> etl \<noteq> [] \<and>
     (\<exists>p0 r. getInitialState {} root {} = Inr p0 \<and> build_fsm root etl = Some r \<and> (case r of
       Inl e \<Rightarrow> (\<exists>msg. e = ModelingError msg) \<and>
         (\<exists>s t. reach root etl p0 s \<and> t \<in> set etl \<and> enabled root s t \<and> target root t s = Inl e)
     | Inr (p, st) \<Rightarrow> p = p0 \<and> distinct (map fst st) \<and> fst ` set st = {s. reach root etl p0 s} \<and>
         (\<forall>(s, ts) \<in> set st. config root s \<and> succs root s etl = Inr ts)))) [demo_machine, loop_machine]"
  unfolding list_all_iff
proof
  fix h assume h: "h \<in> set [demo_machine, loop_machine]"
  obtain root etl where e: "finalise (\<lambda>n. n - 1) (\<lambda>p. True) \<lparr>junctions = [], multis = []\<rparr> 0 1 h [] = Inr (root, etl)"
      "etl \<noteq> []" "valid_states root" "\<forall>t \<in> set etl. inner_ends root t"
    using h
    by (force simp: demo_machine_def loop_machine_def demo_rule_def mk_info_def acquireFiringRule_def mk_rt_rule_def
        firing_rule.defs valid_states_def inner_ends_def inner_ids_def)
  have "bits_suffice (\<lambda>n. n - 1) h" "only_children_seen (\<lambda>n. n - 1) h" "distinct (ids h)"
    using h by (auto simp: bits_suffice_def only_children_seen_def demo_machine_def loop_machine_def mk_info_def)
  from worklist_builds_reachable_product [OF e(1) this e(3,4)] e(1,2)
  show "\<exists>root etl. finalise (\<lambda>n. n - 1) (\<lambda>p. True) \<lparr>junctions = [], multis = []\<rparr> 0 1 h [] =
       Inr (root, etl) \<and> etl \<noteq> [] \<and>
     (\<exists>p0 r. getInitialState {} root {} = Inr p0 \<and> build_fsm root etl = Some r \<and> (case r of
       Inl e \<Rightarrow> (\<exists>msg. e = ModelingError msg) \<and>
         (\<exists>s t. reach root etl p0 s \<and> t \<in> set etl \<and> enabled root s t \<and> target root t s = Inl e)
     | Inr (p, st) \<Rightarrow> p = p0 \<and> distinct (map fst st) \<and> fst ` set st = {s. reach root etl p0 s} \<and>
         (\<forall>(s, ts) \<in> set st. config root s \<and> succs root s etl = Inr ts)))" by blast
qed

end
