(* ===== verification/FSM_Junctions.thy ===== *)
theory FSM_Junctions
  imports FSM_Worklist "HOL-Library.Multiset"
begin

text \<open>
  What \<^verbatim>\<open>expandTransition\<close> does with the junctions and multi-states that hierarchical machines use
  as connectors: each path of partial transitions through junctions becomes one transition, whose
  guard is the conjunction of the guards on the path and whose action runs their actions in order.
  Also the names of product states.
\<close>

definition combine :: "firing_rule \<Rightarrow> partial_transition \<Rightarrow> firing_rule" where
  "combine r pt = mk_firing_rule (g_and (fr_guard r) (fr_guard pt)) (merge_action (fr_action r) (fr_action pt))"

inductive jpath :: "connectors \<Rightarrow> dest_ref \<Rightarrow> partial_transition list \<Rightarrow> nat list \<Rightarrow> bool" for K where
  jp_state: "jpath K (ToState n) [] [n]"
| jp_multi: "map_of (multis K) n = Some m \<Longrightarrow> jpath K (ToMulti n) [] (ms_states m)"
| jp_junction: "map_of (junctions K) n = Some ptl \<Longrightarrow> pt \<in> set ptl \<Longrightarrow> jpath K (pt_dest pt) pts ds \<Longrightarrow>
    jpath K (ToJunction n) (pt # pts) ds"

inductive_simps jpath_simps: "jpath K (ToState n) pts ds" "jpath K (ToMulti n) pts ds" "jpath K (ToJunction n) pts ds"

definition path_transitions :: "(nat \<Rightarrow> bool) \<Rightarrow> connectors \<Rightarrow> dest_ref \<Rightarrow> nat \<Rightarrow> (nat \<times> bool) list \<Rightarrow> firing_rule \<Rightarrow>
    expanded_transition set" where
  "path_transitions I K d src conds r = {\<lparr>et_src = src, et_in = conds, et_rule = rr, et_dest = ds\<rparr> | pts ds rr.
     jpath K d pts ds \<and> mk_rt_rule I (foldl combine r pts) = Some rr}"

lemma path_transitions_junction:
  assumes "map_of (junctions K) n = Some ptl"
  shows "path_transitions I K (ToJunction n) src conds r =
    (\<Union>pt \<in> set ptl. path_transitions I K (pt_dest pt) src conds (combine r pt))"
proof (intro set_eqI iffI)
  fix e assume "e \<in> path_transitions I K (ToJunction n) src conds r"
  then show "e \<in> (\<Union>pt \<in> set ptl. path_transitions I K (pt_dest pt) src conds (combine r pt))"
    using assms by (fastforce simp: path_transitions_def jpath_simps)
next
  fix e assume "e \<in> (\<Union>pt \<in> set ptl. path_transitions I K (pt_dest pt) src conds (combine r pt))"
  then obtain pt pts ds rr where "pt \<in> set ptl" "jpath K (pt_dest pt) pts ds"
      "mk_rt_rule I (foldl combine (combine r pt) pts) = Some rr"
      "e = \<lparr>et_src = src, et_in = conds, et_rule = rr, et_dest = ds\<rparr>"
    by (auto simp: path_transitions_def)
  then show "e \<in> path_transitions I K (ToJunction n) src conds r"
    using jp_junction [OF assms] unfolding path_transitions_def
    by (intro CollectI exI [of _ "pt # pts"] exI [of _ ds] exI [of _ rr]) simp
qed

text \<open>On success the new transitions are those of the paths, and every path has an acceptable rule.\<close>

lemma expandTransition_paths:
  "expandTransition f I K d src conds r etl = Inr etl' \<Longrightarrow>
     set etl' = set etl \<union> path_transitions I K d src conds r"
  "expandTransitions f I K ptl src conds r etl = Inr etl' \<Longrightarrow>
     set etl' = set etl \<union> (\<Union>pt \<in> set ptl. path_transitions I K (pt_dest pt) src conds (combine r pt))"
proof (induction f I K d src conds r etl and f I K ptl src conds r etl arbitrary: etl' and etl'
    rule: expandTransition_expandTransitions.induct)
  case (4 f I K n src conds r etl)
  then obtain ptl where ptl: "map_of (junctions K) n = Some ptl" "ptl \<noteq> []"
      "expandTransitions f I K ptl src conds r etl = Inr etl'"
    by (auto split: option.splits if_splits)
  with "4.IH" [OF ptl] path_transitions_junction [OF ptl(1)] show ?case by simp
next
  case (6 f I K pt ptl src conds r etl)
  then obtain m where m: "expandTransition f I K (pt_dest pt) src conds (combine r pt) etl = Inr m"
      "expandTransitions f I K ptl src conds r m = Inr etl'"
    by (auto simp: rbind_eq_Inr_iff combine_def)
  from "6.IH"(1) [OF m(1) [unfolded combine_def], folded combine_def] "6.IH"(2) [OF m(1) [unfolded combine_def] m(2)]
  show ?case by auto
qed (auto simp: path_transitions_def jpath_simps rbind_eq_Inr_iff acquireFiringRule_def
      split: option.splits if_splits)

lemma expand_all_paths:
  "expand_all I K ptl src conds etl = Inr etl' \<Longrightarrow>
     set etl' = set etl \<union> (\<Union>pt \<in> set ptl. path_transitions I K (pt_dest pt) src conds (firing_rule.truncate pt))"
proof (induction ptl arbitrary: etl)
  case (Cons pt ptl)
  then obtain m where m: "expandTransition (length (junctions K)) I K (pt_dest pt) src conds (firing_rule.truncate pt) etl = Inr m"
     "expand_all I K ptl src conds m = Inr etl'"
    by (auto simp: rbind_eq_Inr_iff)
  from expandTransition_paths(1) [OF m(1)] Cons.IH [OF m(2)] show ?case by auto
qed simp

section \<open>Guards and actions along a path\<close>

definition holds :: "genv \<Rightarrow> gexpr \<Rightarrow> bool" where
  "holds \<Gamma> g \<longleftrightarrow> Option.bind (geval \<Gamma> g) to_bool = Some True"

lemma is_enabled_value: "is_enabled g \<Longrightarrow> geval \<Gamma> g = Some v \<Longrightarrow> v = VEnabled"
  by (induction g arbitrary: v rule: is_enabled.induct) (auto simp: bind_eq_Some_iff value_defs split: if_splits)

lemma holds_and: "holds \<Gamma> (g_and a b) \<longleftrightarrow> holds \<Gamma> a \<and> holds \<Gamma> b"
  using is_enabled_value [of a \<Gamma>] is_enabled_value [of b \<Gamma>]
  by (cases "geval \<Gamma> a"; cases "geval \<Gamma> b") (auto simp: holds_def g_and_def value_defs split: Option.bind_split gval.splits)

lemma holds_virtual: "holds \<Gamma> (GVirtual g) \<longleftrightarrow> holds \<Gamma> g"
  by (cases "geval \<Gamma> g") (auto simp: holds_def value_defs map_option_case split: option.splits)

lemma holds_combine: "holds \<Gamma> (fr_guard (combine r pt)) \<longleftrightarrow> holds \<Gamma> (fr_guard r) \<and> holds \<Gamma> (fr_guard pt)"
  by (simp add: combine_def mk_firing_rule_def holds_virtual holds_and)

lemma holds_path: "holds \<Gamma> (fr_guard (foldl combine r pts)) \<longleftrightarrow>
    holds \<Gamma> (fr_guard r) \<and> (\<forall>pt \<in> set pts. holds \<Gamma> (fr_guard pt))"
  by (induction pts arbitrary: r) (auto simp: holds_combine)

lemma merge_action_append: "merge_action a b = a @ b"
proof -
  have "foldl (\<lambda>ret i. ret @ [i]) a b = a @ b" by (induction b arbitrary: a) auto
  then show ?thesis by (simp add: merge_action_def)
qed

lemma action_path: "fr_action (foldl combine r pts) = fr_action r @ concat (map fr_action pts)"
  by (induction pts arbitrary: r) (simp_all add: combine_def mk_firing_rule_def merge_action_append)

section \<open>The recursion through junctions ends\<close>

definition jedge :: "connectors \<Rightarrow> (nat \<times> nat) set" where
  "jedge K = {(n, m). \<exists>ptl pt. map_of (junctions K) n = Some ptl \<and> pt \<in> set ptl \<and> pt_dest pt = ToJunction m}"

definition junctions_known :: "connectors \<Rightarrow> partial_transition list \<Rightarrow> bool" where
  "junctions_known K ptl \<longleftrightarrow> (\<forall>pt \<in> set ptl. \<forall>m. pt_dest pt = ToJunction m \<longrightarrow> m \<in> fst ` set (junctions K))"

definition well_connected :: "connectors \<Rightarrow> bool" where
  "well_connected K \<longleftrightarrow> (\<forall>(n, ptl) \<in> set (junctions K). junctions_known K ptl) \<and> acyclic (jedge K)"

lemma jedge_known: "well_connected K \<Longrightarrow> (n, m) \<in> jedge K \<Longrightarrow> m \<in> fst ` set (junctions K)"
  by (auto simp: well_connected_def jedge_def junctions_known_def dest!: map_of_SomeD)

lemma jreach_known:
  assumes "well_connected K" "n \<in> fst ` set (junctions K)"
  shows "(jedge K)\<^sup>* `` {n} \<subseteq> fst ` set (junctions K)"
proof
  fix m assume "m \<in> (jedge K)\<^sup>* `` {n}"
  then have "(n, m) \<in> (jedge K)\<^sup>*" by simp
  then show "m \<in> fst ` set (junctions K)" by induction (use assms jedge_known in auto)
qed

lemma jreach_less:
  assumes "well_connected K" "n \<in> fst ` set (junctions K)" "(n, m) \<in> jedge K"
  shows "card ((jedge K)\<^sup>* `` {m}) < card ((jedge K)\<^sup>* `` {n})"
proof (rule psubset_card_mono)
  show "finite ((jedge K)\<^sup>* `` {n})" by (rule finite_subset [OF jreach_known [OF assms(1,2)]]) simp
  have "n \<notin> (jedge K)\<^sup>* `` {m}"
  proof
    assume "n \<in> (jedge K)\<^sup>* `` {m}"
    with assms(3) have "(n, n) \<in> (jedge K)\<^sup>+" by auto
    with assms(1) show False by (simp add: well_connected_def acyclic_def)
  qed
  with assms(3) show "(jedge K)\<^sup>* `` {m} \<subset> (jedge K)\<^sup>* `` {n}" by (auto intro: converse_rtrancl_into_rtrancl)
qed

lemma acquire_returns [simp]: "acquireFiringRule I r \<noteq> Inl Diverges"
  by (simp add: acquireFiringRule_def split: option.splits)

lemma rbind_diverges: "rbind r f = Inl Diverges \<Longrightarrow> r = Inl Diverges \<or> (\<exists>x. r = Inr x \<and> f x = Inl Diverges)"
  by (cases r) auto

lemma expandTransition_returns:
  "well_connected K \<Longrightarrow>
     (\<And>n. d = ToJunction n \<Longrightarrow> n \<in> fst ` set (junctions K) \<and> card ((jedge K)\<^sup>* `` {n}) \<le> f) \<Longrightarrow>
     expandTransition f I K d src conds r etl \<noteq> Inl Diverges"
  "well_connected K \<Longrightarrow>
     (\<And>pt n. pt \<in> set ptl \<Longrightarrow> pt_dest pt = ToJunction n \<Longrightarrow>
        n \<in> fst ` set (junctions K) \<and> card ((jedge K)\<^sup>* `` {n}) \<le> f) \<Longrightarrow>
     expandTransitions f I K ptl src conds r etl \<noteq> Inl Diverges"
proof (induction f I K d src conds r etl and f I K ptl src conds r etl
    rule: expandTransition_expandTransitions.induct)
  case (1 f I K n src conds r etl)
  then show ?case by (auto dest!: rbind_diverges)
next
  case (2 f I K n src conds r etl)
  then show ?case by (auto dest!: rbind_diverges split: option.splits if_splits)
next
  case (3 I K n src conds r etl)
  have "finite ((jedge K)\<^sup>* `` {n})"
    using jreach_known [OF "3.prems"(1)] "3.prems"(2) [OF refl] by (meson finite_imageI finite_set finite_subset)
  then have "card ((jedge K)\<^sup>* `` {n}) \<noteq> 0" by (auto simp: card_eq_0_iff)
  with "3.prems"(2) show ?case by auto
next
  case (4 f I K n src conds r etl)
  note n = "4.prems"(2) [OF refl]
  have step: "m \<in> fst ` set (junctions K) \<and> card ((jedge K)\<^sup>* `` {m}) \<le> f"
    if "map_of (junctions K) n = Some ptl" "pt \<in> set ptl" "pt_dest pt = ToJunction m" for ptl pt m
  proof -
    have e: "(n, m) \<in> jedge K" using that by (auto simp: jedge_def)
    show ?thesis using jreach_less [OF "4.prems"(1) _ e] jedge_known [OF "4.prems"(1) e] n by auto
  qed
  show ?case
  proof (cases "map_of (junctions K) n")
    case (Some ptl)
    show ?thesis
    proof (cases "ptl = []")
      case False
      have "expandTransitions f I K ptl src conds r etl \<noteq> Inl Diverges"
        by (rule "4.IH" [OF Some False "4.prems"(1)]) (rule step [OF Some])
      then show ?thesis by (simp only: expandTransition.simps Some option.case False if_False) simp
    qed (simp add: Some)
  qed simp
next
  case (6 f I K pt ptl src conds r etl)
  have "expandTransition f I K (pt_dest pt) src conds (combine r pt) etl \<noteq> Inl Diverges"
    unfolding combine_def by (rule "6.IH"(1) [OF "6.prems"(1)]) (rule "6.prems"(2), simp_all)
  moreover have "expandTransitions f I K ptl src conds r x \<noteq> Inl Diverges"
    if "expandTransition f I K (pt_dest pt) src conds (combine r pt) etl = Inr x" for x
    by (rule "6.IH"(2) [OF that [unfolded combine_def] "6.prems"(1)]) (rule "6.prems"(2), simp_all)
  ultimately show ?case by (auto simp: combine_def dest!: rbind_diverges)
qed simp

lemma expand_all_returns:
  assumes "well_connected K" "junctions_known K ptl"
  shows "expand_all I K ptl src conds etl \<noteq> Inl Diverges"
  using assms(2)
proof (induction ptl arbitrary: etl)
  case (Cons pt ptl)
  have "expandTransition (length (junctions K)) I K (pt_dest pt) src conds (firing_rule.truncate pt) etl \<noteq> Inl Diverges"
  proof (rule expandTransition_returns(1) [OF assms(1)])
    fix n assume "pt_dest pt = ToJunction n"
    then have n: "n \<in> fst ` set (junctions K)" using Cons.prems by (simp add: junctions_known_def)
    have "card ((jedge K)\<^sup>* `` {n}) \<le> card (fst ` set (junctions K))"
      using jreach_known [OF assms(1) n] by (intro card_mono) auto
    also have "\<dots> \<le> length (junctions K)" using card_image_le [of "set (junctions K)" fst] card_length [of "junctions K"] by simp
    finally show "n \<in> fst ` set (junctions K) \<and> card ((jedge K)\<^sup>* `` {n}) \<le> length (junctions K)" using n by simp
  qed
  moreover have "junctions_known K ptl" using Cons.prems by (simp add: junctions_known_def)
  ultimately show ?case using Cons.IH by (auto dest!: rbind_diverges)
qed simp

section \<open>Names of product states\<close>

fun expand_counts :: "(string \<times> nat) list \<Rightarrow> string list" where
  "expand_counts [] = []"
| "expand_counts ((n, k) # xs) = replicate k n @ expand_counts xs"

definition counts_ok :: "(string \<times> nat) list \<Rightarrow> bool" where
  "counts_ok xs \<longleftrightarrow> sorted_wrt (<) (map fst xs)"

lemma count_name_first: "fst ` set (count_name n xs) = insert n (fst ` set xs)"
  by (induction n xs rule: count_name.induct) auto

lemma count_name_ok: "counts_ok xs \<Longrightarrow> counts_ok (count_name n xs)"
proof (induction n xs rule: count_name.induct)
  case (2 n m k xs)
  have "\<forall>x \<in> set (map fst (count_name n xs)). m < x" if "m < n" "\<forall>x \<in> fst ` set xs. m < x"
    using that count_name_first [of n xs] by auto
  with 2 show ?case by (auto simp: counts_ok_def)
qed (simp add: counts_ok_def)

lemma expand_counts_set: "set (expand_counts xs) \<subseteq> fst ` set xs"
  by (induction xs rule: expand_counts.induct) auto

lemma count_name_expand: "counts_ok xs \<Longrightarrow> expand_counts (count_name n xs) = insort n (expand_counts xs)"
proof (induction n xs rule: count_name.induct)
  case (2 n m k xs)
  have gt: "\<forall>x \<in> set (expand_counts xs). m < x" and ok: "counts_ok xs"
    using "2.prems" expand_counts_set [of xs] by (auto simp: counts_ok_def)
  consider "n = m" | "n < m" | "m < n" by (meson linorder_less_linear)
  then show ?case
  proof cases
    case 1
    have "insort m (replicate k m @ ys) = m # replicate k m @ ys" if "\<forall>x \<in> set ys. m < x" for ys
      using that by (cases k; cases ys) auto
    with 1 gt show ?thesis by simp
  next
    case 2
    then have "insort n (replicate k m @ ys) = n # replicate k m @ ys" if "\<forall>x \<in> set ys. m < x" for ys
      using that by (cases k; cases ys) auto
    with 2 gt show ?thesis by simp
  next
    case 3
    then have "insort n (replicate k m @ ys) = replicate k m @ insort n ys" for ys
      by (induction k) auto
    with 3 "2.IH" ok show ?thesis by (auto simp: not_less_iff_gr_or_eq)
  qed
qed simp

lemma count_names_sort: "expand_counts (count_names ns) = sort ns"
proof -
  have "counts_ok xs \<Longrightarrow> sorted (expand_counts xs) \<Longrightarrow>
      expand_counts (fold count_name ns xs) = sort (ns @ expand_counts xs)" for xs
  proof (induction ns arbitrary: xs)
    case (Cons n ns)
    have "expand_counts (count_name n xs) = insort n (expand_counts xs)"
      by (rule count_name_expand [OF Cons.prems(1)])
    with Cons.IH [OF count_name_ok [OF Cons.prems(1)], of n] Cons.prems(2)
    have "expand_counts (fold count_name ns (count_name n xs)) = sort (ns @ insort n (expand_counts xs))"
      by (simp add: sorted_insort)
    also have "\<dots> = sort ((n # ns) @ expand_counts xs)"
      by (rule properties_for_sort) (simp_all add: sorted_insort)
    finally show ?case by simp
  qed (simp add: sort_key_id_if_sorted)
  from this [of "[]"] show ?thesis by (simp add: count_names_def counts_ok_def)
qed

fun comma_separated :: "string list \<Rightarrow> string" where
  "comma_separated [] = []"
| "comma_separated [n] = n"
| "comma_separated (n # m # ns) = n @ '','' @ comma_separated (m # ns)"

lemma write_names_tail: "write_names False xs os = os @ concat (map (\<lambda>n. '','' @ n) (expand_counts xs))"
  by (induction False xs os rule: write_names.induct) auto

lemma comma_separated_Cons: "comma_separated (n # ns) = n @ concat (map (\<lambda>n. '','' @ n) ns)"
  by (induction ns arbitrary: n) auto

lemma write_names_join: "write_names True xs [] = comma_separated (expand_counts xs)"
proof (induction xs rule: expand_counts.induct)
  case (2 n k xs)
  then show ?case by (cases k) (simp_all add: write_names_tail comma_separated_Cons)
qed simp

section \<open>Properties\<close>

text \<open>
  C16.  When the transitions of a state are expanded, exactly one kind of transition is added for
  every path of partial transitions that leads through junctions to a state or multi-state; its guard
  holds when all guards on the path hold, and its action is the concatenation of their actions.
\<close>

theorem junction_expansion_exact:
  assumes "expand_all I K ptl src conds etl = Inr etl'"
  shows "set etl' = set etl \<union> {\<lparr>et_src = src, et_in = conds, et_rule = rr, et_dest = ds\<rparr> | pt pts ds rr.
        pt \<in> set ptl \<and> jpath K (pt_dest pt) pts ds \<and>
        mk_rt_rule I (foldl combine (firing_rule.truncate pt) pts) = Some rr \<and>
        (\<forall>\<Gamma>. holds \<Gamma> (fr_guard rr) = (\<forall>q \<in> set (pt # pts). holds \<Gamma> (fr_guard q))) \<and>
        fr_action rr = concat (map fr_action (pt # pts))}"
proof -
  have rr: "(\<forall>\<Gamma>. holds \<Gamma> (fr_guard rr) = (\<forall>q \<in> set (pt # pts). holds \<Gamma> (fr_guard q))) \<and>
        fr_action rr = concat (map fr_action (pt # pts))"
    if "mk_rt_rule I (foldl combine (firing_rule.truncate pt) pts) = Some rr" for pt pts rr
    using gvisit_collects [OF that [unfolded mk_rt_rule_def]]
    by (simp add: firing_rule.defs holds_path action_path)
  show ?thesis unfolding expand_all_paths [OF assms] path_transitions_def
    using rr by (auto 4 4)
qed

definition demo_connectors :: connectors where
  "demo_connectors = \<lparr>junctions = [(7, [\<lparr>fr_guard = GLit (VBool True), fr_action = [], pt_dest = ToState 1\<rparr>,
      \<lparr>fr_guard = GLit (VBool False), fr_action = [], pt_dest = ToState 2\<rparr>])], multis = []\<rparr>"

definition demo_partial :: partial_transition where
  "demo_partial = \<lparr>fr_guard = GLit (VBool True), fr_action = [], pt_dest = ToJunction 7\<rparr>"

lemma demo_expand: "\<exists>a b. expand_all (\<lambda>p. True) demo_connectors [demo_partial] 1 [] [] =
    Inr [\<lparr>et_src = 1, et_in = [], et_rule = a, et_dest = [1]\<rparr>, \<lparr>et_src = 1, et_in = [], et_rule = b, et_dest = [2]\<rparr>]"
  by (simp add: demo_connectors_def demo_partial_def acquireFiringRule_def mk_rt_rule_def mk_firing_rule_def
      g_and_def firing_rule.defs)

theorem junction_expansion_exact_witness:
  "\<exists>etl'. expand_all (\<lambda>p. True) demo_connectors [demo_partial] 1 [] [] = Inr etl' \<and> length etl' = 2 \<and>
     set etl' = set [] \<union> {\<lparr>et_src = 1, et_in = [], et_rule = rr, et_dest = ds\<rparr> | pt pts ds rr.
        pt \<in> set [demo_partial] \<and> jpath demo_connectors (pt_dest pt) pts ds \<and>
        mk_rt_rule (\<lambda>p. True) (foldl combine (firing_rule.truncate pt) pts) = Some rr \<and>
        (\<forall>\<Gamma>. holds \<Gamma> (fr_guard rr) = (\<forall>q \<in> set (pt # pts). holds \<Gamma> (fr_guard q))) \<and>
        fr_action rr = concat (map fr_action (pt # pts))}"
proof -
  obtain a b where e: "expand_all (\<lambda>p. True) demo_connectors [demo_partial] 1 [] [] =
    Inr [\<lparr>et_src = 1, et_in = [], et_rule = a, et_dest = [1]\<rparr>, \<lparr>et_src = 1, et_in = [], et_rule = b, et_dest = [2]\<rparr>]"
    (is "_ = Inr ?l") using demo_expand by blast
  have "length ?l = 2" by simp
  with e junction_expansion_exact [OF e] show ?thesis by blast
qed

text \<open>
  C17.  If the junctions are connected without a cycle, the recursion of \<^verbatim>\<open>expandTransition\<close> ends:
  as much fuel as there are junctions is enough.
\<close>

theorem junction_expansion_terminates:
  assumes "well_connected K" "junctions_known K ptl"
  shows "expand_all I K ptl src conds etl \<noteq> Inl Diverges"
  using assms by (rule expand_all_returns)

theorem junction_expansion_terminates_witness:
  "expand_all (\<lambda>p. True) demo_connectors [demo_partial] 1 [] [] \<noteq> Inl Diverges"
proof (rule junction_expansion_terminates)
  have "jedge demo_connectors = {}" by (auto simp: jedge_def demo_connectors_def split: if_splits)
  then show "well_connected demo_connectors"
    by (simp add: well_connected_def junctions_known_def demo_connectors_def acyclic_def)
  show "junctions_known demo_connectors [demo_partial]"
    by (simp add: junctions_known_def demo_connectors_def demo_partial_def)
qed

text \<open>
  The name of a product state does not depend on the order in which its states are met: it is
  their names, sorted and separated by commas, where a name that occurs several times is repeated.
  Only an empty name is refused.
\<close>

theorem prod_state_name_exact:
  "prod_state_name names = (if [] \<in> set names then Inl AssertFailed else Inr (comma_separated (sort names)))"
  by (simp add: prod_state_name_def write_names_join count_names_sort)

end
