(* ===== verification/SNG_Graph.thy ===== *)
theory SNG_Graph
  imports Smoc_Prelude "HOL-Library.Word"
begin

text \<open>
  Simple network graphs (\<^verbatim>\<open>src/systemoc-sng/headers/smoc/sng/Graph.hpp\<close>): a directed graph of actors and
  channels.  The \<^verbatim>\<open>adjacency_list\<close> with vectors numbers the vertices in the order of \<^verbatim>\<open>add_vertex\<close>, allows
  parallel edges, and lists the out and in edges of a vertex in the order of \<^verbatim>\<open>add_edge\<close>.
\<close>

type_synonym size_t = "64 word"

datatype vtype = ACTOR | FIFO | REGISTER

text \<open>
  \<^verbatim>\<open>actor.repCount\<close>, \<^verbatim>\<open>fifo.tokenSize\<close> and \<^verbatim>\<open>reg.tokenSize\<close> share the first word of a union.
\<close>

record vertex_info =
  vi_name :: string
  vi_type :: vtype
  vi_size :: size_t
  vi_capacity :: size_t
  vi_delay :: size_t

definition mk_vertex_info :: vertex_info where
  "mk_vertex_info = \<lparr>vi_name = [], vi_type = FIFO, vi_size = -1, vi_capacity = -1, vi_delay = -1\<rparr>"

record edge_info =
  ei_name :: string
  ei_tokenSize :: size_t
  ei_tokens :: size_t

definition mk_edge_info :: edge_info where
  "mk_edge_info = \<lparr>ei_name = [], ei_tokenSize = -1, ei_tokens = -1\<rparr>"

record sng =
  sg_verts :: "vertex_info list"
  sg_edges :: "(nat \<times> nat \<times> edge_info) list"

definition sng_empty :: sng where
  "sng_empty = \<lparr>sg_verts = [], sg_edges = []\<rparr>"

section \<open>The operations of the graph library\<close>

definition add_vertex :: "sng \<Rightarrow> nat \<times> sng" where
  "add_vertex g = (length (sg_verts g), g\<lparr>sg_verts := sg_verts g @ [mk_vertex_info]\<rparr>)"

definition add_edge :: "nat \<Rightarrow> nat \<Rightarrow> sng \<Rightarrow> nat \<times> sng" where
  "add_edge u v g = (length (sg_edges g), g\<lparr>sg_edges := sg_edges g @ [(u, v, mk_edge_info)]\<rparr>)"

definition vinfo :: "sng \<Rightarrow> nat \<Rightarrow> vertex_info" where
  "vinfo g v = sg_verts g ! v"

definition set_vinfo :: "nat \<Rightarrow> vertex_info \<Rightarrow> sng \<Rightarrow> sng" where
  "set_vinfo v i g = g\<lparr>sg_verts := (sg_verts g)[v := i]\<rparr>"

definition esrc :: "sng \<Rightarrow> nat \<Rightarrow> nat" where
  "esrc g e = fst (sg_edges g ! e)"

definition etgt :: "sng \<Rightarrow> nat \<Rightarrow> nat" where
  "etgt g e = fst (snd (sg_edges g ! e))"

definition einfo :: "sng \<Rightarrow> nat \<Rightarrow> edge_info" where
  "einfo g e = snd (snd (sg_edges g ! e))"

definition set_einfo :: "nat \<Rightarrow> edge_info \<Rightarrow> sng \<Rightarrow> sng" where
  "set_einfo e i g = g\<lparr>sg_edges := (sg_edges g)[e := (esrc g e, etgt g e, i)]\<rparr>"

definition vertices :: "sng \<Rightarrow> nat list" where
  "vertices g = [0..<length (sg_verts g)]"

definition out_edges :: "sng \<Rightarrow> nat \<Rightarrow> nat list" where
  "out_edges g v = filter (\<lambda>e. esrc g e = v) [0..<length (sg_edges g)]"

definition in_edges :: "sng \<Rightarrow> nat \<Rightarrow> nat list" where
  "in_edges g v = filter (\<lambda>e. etgt g e = v) [0..<length (sg_edges g)]"

text \<open>Edges stay between vertices of the graph.\<close>

definition sng_wf :: "sng \<Rightarrow> bool" where
  "sng_wf g \<longleftrightarrow> (\<forall>(u, v, i) \<in> set (sg_edges g). u < length (sg_verts g) \<and> v < length (sg_verts g))"

lemma sng_upd_simps [simp]:
  "sg_edges (set_vinfo v i g) = sg_edges g" "length (sg_verts (set_vinfo v i g)) = length (sg_verts g)"
  "sg_verts (set_einfo e j g) = sg_verts g" "length (sg_edges (set_einfo e j g)) = length (sg_edges g)"
  "esrc (set_vinfo v i g) e = esrc g e" "etgt (set_vinfo v i g) e = etgt g e" "einfo (set_vinfo v i g) e = einfo g e"
  "vinfo (set_einfo e j g) v = vinfo g v"
  by (simp_all add: set_vinfo_def set_einfo_def esrc_def etgt_def einfo_def vinfo_def)

lemma set_einfo_ends [simp]: "esrc (set_einfo e i g) k = esrc g k" "etgt (set_einfo e i g) k = etgt g k"
proof -
  have "fst ((sg_edges g)[e := (esrc g e, etgt g e, i)] ! k) = fst (sg_edges g ! k)
      \<and> fst (snd ((sg_edges g)[e := (esrc g e, etgt g e, i)] ! k)) = fst (snd (sg_edges g ! k))"
    by (cases "e < length (sg_edges g)") (auto simp: nth_list_update esrc_def etgt_def list_update_beyond)
  then show "esrc (set_einfo e i g) k = esrc g k" "etgt (set_einfo e i g) k = etgt g k"
    by (simp_all add: set_einfo_def esrc_def etgt_def)
qed

lemma set_einfo_self [simp]: "e < length (sg_edges g) \<Longrightarrow> einfo (set_einfo e i g) k = (if k = e then i else einfo g k)"
  by (simp add: set_einfo_def einfo_def)

lemma set_vinfo_self [simp]: "v < length (sg_verts g) \<Longrightarrow> vinfo (set_vinfo v i g) w = (if w = v then i else vinfo g w)"
  by (simp add: set_vinfo_def vinfo_def)

lemma edges_upd [simp]:
  "out_edges (set_vinfo v i g) w = out_edges g w" "in_edges (set_vinfo v i g) w = in_edges g w"
  "out_edges (set_einfo e j g) w = out_edges g w" "in_edges (set_einfo e j g) w = in_edges g w"
  "vertices (set_vinfo v i g) = vertices g" "vertices (set_einfo e j g) = vertices g"
  by (simp_all add: out_edges_def in_edges_def vertices_def)

end
