(* ===== verification/SNG_IO.thy ===== *)
theory SNG_IO
  imports SNG_Graph
begin

text \<open>
  Reading and writing simple network graphs
  (\<^verbatim>\<open>src/systemoc-sng/cpp/io/saveSNG.cpp\<close> and \<^verbatim>\<open>loadSNG.cpp\<close>).

  A document is the list of the elements that \<^verbatim>\<open>saveSNG\<close> prints and \<^verbatim>\<open>loadSNG\<close> asks its DOM for; numbers
  are decimal strings in it, printed by \<^verbatim>\<open><<\<close> and read by \<^verbatim>\<open>std::stoul\<close>.  The parser of \<^verbatim>\<open>loadSNG\<close>
  validates against the schema \<^verbatim>\<open>src/systemoc-sng/resources/sng.xsd\<close>, which is translated below; a document
  that it rejects is an error.  The quoting of attribute values (\<^verbatim>\<open>CoSupport::String::XMLQuotedString\<close>)
  and the parser are not code of the repository, nor is \<^verbatim>\<open>CoSupport::String::UniquePool\<close>, which is the
  parameter \<open>uniq\<close>: given the names handed out so far and a wanted name it returns the name to use.
  Elements carry all their attributes here, and only those that \<^verbatim>\<open>loadSNG\<close> reads: the rates of ports and
  the machines of actor types are left out.  Attributes of nested attributes are listed with their
  parents, as \<^verbatim>\<open>getElementsByTagName\<close> does.
\<close>

section \<open>Numbers as text\<close>

definition digit :: "nat \<Rightarrow> char" where
  "digit n = char_of (48 + n)"

fun dec_nat :: "nat \<Rightarrow> string" where
  "dec_nat n = (if n < 10 then [digit n] else dec_nat (n div 10) @ [digit (n mod 10)])"

declare dec_nat.simps [simp del]

definition dec :: "size_t \<Rightarrow> string" where
  "dec w = dec_nat (unat w)"

definition is_digit :: "char \<Rightarrow> bool" where
  "is_digit c \<longleftrightarrow> 48 \<le> (of_char c :: nat) \<and> (of_char c :: nat) \<le> 57"

definition is_space :: "char \<Rightarrow> bool" where
  "is_space c \<longleftrightarrow> (of_char c :: nat) = 32 \<or> 9 \<le> (of_char c :: nat) \<and> (of_char c :: nat) \<le> 13"

definition dec_value :: "string \<Rightarrow> nat" where
  "dec_value ds = foldl (\<lambda>n c. 10 * n + (of_char c - 48)) 0 ds"

text \<open>\<^verbatim>\<open>std::stoul\<close>: white space, a sign, the longest run of digits; a minus sign negates modulo \<open>2 ^ 64\<close>.\<close>

definition split_sign :: "string \<Rightarrow> bool \<times> string" where
  "split_sign s = (case s of [] \<Rightarrow> (False, [])
     | c # r \<Rightarrow> if c = CHR ''-'' then (True, r) else if c = CHR ''+'' then (False, r) else (False, s))"

definition stoul :: "string \<Rightarrow> size_t result" where
  "stoul s = (let (neg, r) = split_sign (dropWhile is_space s); ds = takeWhile is_digit r; n = dec_value ds in
     if ds = [] then Inl (RuntimeError ''invalid_argument'')
     else if 2 ^ 64 \<le> n then Inl (RuntimeError ''out_of_range'')
     else Inr (if neg then - of_nat n else of_nat n))"

section \<open>The elements of a document\<close>

record port_elem =
  pe_name :: string
  pe_type :: string

record actor_type_elem =
  at_name :: string
  at_ports :: "port_elem list"

record actor_inst_elem =
  ai_name :: string
  ai_type :: string

record attr_elem =
  oa_name :: string
  oa_type :: string
  oa_value :: string

record ref_elem =
  re_actor :: string
  re_port :: string

record chan_elem =
  ce_name :: string
  ce_attrs :: "attr_elem list"
  ce_sources :: "ref_elem list"
  ce_targets :: "ref_elem list"

record fifo_elem = chan_elem +
  fe_size :: string
  fe_initial :: string

datatype chan_node = FifoNode fifo_elem | RegisterNode chan_elem

record document =
  doc_types :: "actor_type_elem list"
  doc_insts :: "actor_inst_elem list"
  doc_chans :: "chan_node list"

section \<open>A loop over a list that stops at the first failure\<close>

fun rfold :: "('a \<Rightarrow> 's \<Rightarrow> 's result) \<Rightarrow> 'a list \<Rightarrow> 's \<Rightarrow> 's result" where
  "rfold f [] s = Inr s"
| "rfold f (x # xs) s = rbind (f x s) (rfold f xs)"

lemma rfold_rule:
  assumes "P [] s" and step: "\<And>ys x zs t. xs = ys @ x # zs \<Longrightarrow> P ys t \<Longrightarrow> \<exists>t'. f x t = Inr t' \<and> P (ys @ [x]) t'"
  shows "\<exists>t. rfold f xs s = Inr t \<and> P xs t"
proof -
  have "\<exists>t. rfold f zs s = Inr t \<and> P (ys @ zs) t" if "xs = ys @ zs" "P ys s" for ys zs s
    using that
  proof (induction zs arbitrary: ys s)
    case (Cons z zs)
    from step [OF Cons.prems] obtain s' where "f z s = Inr s'" "P (ys @ [z]) s'"
      by blast
    then show ?case
      using Cons.IH [of "ys @ [z]" s'] Cons.prems(1) by auto
  qed simp
  from this [of "[]" xs s] assms(1) show ?thesis
    by simp
qed

lemma rfold_fails:
  assumes "\<And>x s e. x \<in> set xs \<Longrightarrow> f x s = Inl e \<longleftrightarrow> e = E \<and> \<not> Q x"
  shows "rfold f xs s = Inl e \<longleftrightarrow> e = E \<and> \<not> list_all Q xs"
  using assms
proof (induction xs arbitrary: s)
  case (Cons x xs)
  show ?case
  proof (cases "f x s")
    case (Inl a)
    then show ?thesis
      using Cons.prems [of x s a] by auto
  next
    case (Inr t)
    moreover have "Q x"
      using Cons.prems [of x s E] Inr by simp
    ultimately show ?thesis
      using Cons.IH [of t] Cons.prems by simp
  qed
qed simp

section \<open>Writing\<close>

record save_ctx =
  sc_cache :: "(string \<times> string) list"
  sc_pool :: "string list"
  sc_types :: "actor_type_elem list"
  sc_insts :: "actor_inst_elem list"
  sc_conns :: "chan_node list"

definition toupper :: "char \<Rightarrow> char" where
  "toupper c = (if 97 \<le> (of_char c :: nat) \<and> (of_char c :: nat) \<le> 122 then char_of ((of_char c :: nat) - 32) else c)"

text \<open>\<^verbatim>\<open>name.rfind('.')\<close>: the name up to and with its last dot, empty if there is none.\<close>

definition upto_last_dot :: "string \<Rightarrow> string" where
  "upto_last_dot name = rev (dropWhile (\<lambda>c. c \<noteq> CHR ''.'') (rev name))"

definition type_name :: "string \<Rightarrow> string" where
  "type_name name = concat (map (\<lambda>c. if c = CHR ''.'' then ''::'' else [toupper c]) (upto_last_dot name)) @ ''A''"

definition actor_key :: "sng \<Rightarrow> nat \<Rightarrow> string" where
  "actor_key g v =
     concat (map (\<lambda>e. ei_name (einfo g e) @ ''[IN]'') (in_edges g v))
   @ concat (map (\<lambda>e. ei_name (einfo g e) @ ''[OUT]'') (out_edges g v))"

definition save_ports :: "sng \<Rightarrow> nat \<Rightarrow> port_elem list" where
  "save_ports g v =
     map (\<lambda>e. \<lparr>pe_name = ei_name (einfo g e), pe_type = ''in''\<rparr>) (in_edges g v)
   @ map (\<lambda>e. \<lparr>pe_name = ei_name (einfo g e), pe_type = ''out''\<rparr>) (out_edges g v)"

definition cached :: "(string \<times> string) list \<Rightarrow> string \<Rightarrow> string" where
  "cached m k = (case map_of m k of None \<Rightarrow> [] | Some t \<Rightarrow> t)"

definition save_actor :: "(string list \<Rightarrow> string \<Rightarrow> string) \<Rightarrow> sng \<Rightarrow> nat \<Rightarrow> save_ctx \<Rightarrow> save_ctx" where
  "save_actor uniq g v ctx = (let
     key = actor_key g v;
     name = vi_name (vinfo g v);
     ctx1 = (if cached (sc_cache ctx) key = [] then (let
          t = uniq (sc_pool ctx) (type_name name)
        in ctx\<lparr>sc_cache := (key, t) # sc_cache ctx, sc_pool := sc_pool ctx @ [t],
               sc_types := sc_types ctx @ [\<lparr>at_name = t, at_ports = save_ports g v\<rparr>]\<rparr>)
        else ctx)
   in ctx1\<lparr>sc_insts := sc_insts ctx1 @ [\<lparr>ai_name = name, ai_type = cached (sc_cache ctx1) key\<rparr>]\<rparr>)"

definition token_size_attr :: "size_t \<Rightarrow> attr_elem" where
  "token_size_attr n = \<lparr>oa_name = ''smoc-token-size'', oa_type = ''INT'', oa_value = dec n\<rparr>"

definition source_ref :: "sng \<Rightarrow> nat \<Rightarrow> ref_elem" where
  "source_ref g e = \<lparr>re_actor = vi_name (vinfo g (esrc g e)), re_port = ei_name (einfo g e)\<rparr>"

definition target_ref :: "sng \<Rightarrow> nat \<Rightarrow> ref_elem" where
  "target_ref g e = \<lparr>re_actor = vi_name (vinfo g (etgt g e)), re_port = ei_name (einfo g e)\<rparr>"

text \<open>One \<^verbatim>\<open>fifo\<close> element for every out edge of a FIFO, each with all its sources.\<close>

definition save_fifo :: "sng \<Rightarrow> nat \<Rightarrow> fifo_elem list" where
  "save_fifo g v = map (\<lambda>e. \<lparr>ce_name = vi_name (vinfo g v),
     ce_attrs = [token_size_attr (vi_size (vinfo g v))],
     ce_sources = map (source_ref g) (in_edges g v), ce_targets = [target_ref g e],
     fe_size = dec (vi_capacity (vinfo g v)), fe_initial = dec (vi_delay (vinfo g v))\<rparr>) (out_edges g v)"

definition save_register :: "sng \<Rightarrow> nat \<Rightarrow> chan_elem" where
  "save_register g v = \<lparr>ce_name = vi_name (vinfo g v),
     ce_attrs = [token_size_attr (vi_size (vinfo g v))],
     ce_sources = map (source_ref g) (in_edges g v), ce_targets = map (target_ref g) (out_edges g v)\<rparr>"

definition save_vertex :: "(string list \<Rightarrow> string \<Rightarrow> string) \<Rightarrow> sng \<Rightarrow> nat \<Rightarrow> save_ctx \<Rightarrow> save_ctx result" where
  "save_vertex uniq g v ctx = (case vi_type (vinfo g v) of
     ACTOR \<Rightarrow> Inr (save_actor uniq g v ctx)
   | FIFO \<Rightarrow> Inr (ctx\<lparr>sc_conns := sc_conns ctx @ map FifoNode (save_fifo g v)\<rparr>)
   | REGISTER \<Rightarrow> rbind (rassert (in_edges g v = [] \<or> out_edges g v = []))
       (\<lambda>_. Inr (ctx\<lparr>sc_conns := sc_conns ctx @ [RegisterNode (save_register g v)]\<rparr>)))"

definition empty_ctx :: save_ctx where
  "empty_ctx = \<lparr>sc_cache = [], sc_pool = [], sc_types = [], sc_insts = [], sc_conns = []\<rparr>"

definition saveSNG :: "(string list \<Rightarrow> string \<Rightarrow> string) \<Rightarrow> sng \<Rightarrow> document result" where
  "saveSNG uniq g = rbind (rfold (save_vertex uniq g) (vertices g) empty_ctx)
     (\<lambda>ctx. Inr \<lparr>doc_types = sc_types ctx, doc_insts = sc_insts ctx, doc_chans = sc_conns ctx\<rparr>)"

section \<open>The schema\<close>

text \<open>
  The patterns of \<^verbatim>\<open>Identifier\<close> and \<^verbatim>\<open>TypeIdentifier\<close>, read from left to right: the flag says that a part of
  the name begins.
\<close>

definition is_alpha :: "char \<Rightarrow> bool" where
  "is_alpha c \<longleftrightarrow> c = CHR ''_'' \<or> 97 \<le> (of_char c :: nat) \<and> (of_char c :: nat) \<le> 122
     \<or> 65 \<le> (of_char c :: nat) \<and> (of_char c :: nat) \<le> 90"

fun ident_from :: "bool \<Rightarrow> string \<Rightarrow> bool" where
  "ident_from b [] \<longleftrightarrow> \<not> b"
| "ident_from b (c # s) \<longleftrightarrow> (if b then is_alpha c \<and> ident_from False s
     else if c = CHR ''.'' then ident_from True s
     else (is_alpha c \<or> is_digit c) \<and> ident_from False s)"

definition is_identifier :: "string \<Rightarrow> bool" where
  "is_identifier s = ident_from True s"

fun type_ident_from :: "bool \<Rightarrow> string \<Rightarrow> bool" where
  "type_ident_from b [] \<longleftrightarrow> \<not> b"
| "type_ident_from b (c # s) \<longleftrightarrow> (if b then is_alpha c \<and> type_ident_from False s
     else if c = CHR '':'' then (case s of d # r \<Rightarrow> d = CHR '':'' \<and> type_ident_from True r | [] \<Rightarrow> False)
     else (is_alpha c \<or> is_digit c \<or> c \<in> {CHR ''<'', CHR ''>'', CHR '','', CHR '' ''}) \<and> type_ident_from False s)"

definition is_type_identifier :: "string \<Rightarrow> bool" where
  "is_type_identifier s = type_ident_from True s"

text \<open>\<^verbatim>\<open>xs:integer\<close>: white space at the ends, an optional sign, digits.\<close>

definition xml_space :: "char \<Rightarrow> bool" where
  "xml_space c \<longleftrightarrow> (of_char c :: nat) \<in> {32, 9, 10, 13}"

definition xs_integer :: "string \<Rightarrow> int option" where
  "xs_integer s = (let (neg, ds) = split_sign (rev (dropWhile xml_space (rev (dropWhile xml_space s)))) in
     if ds \<noteq> [] \<and> list_all is_digit ds then Some (if neg then - int (dec_value ds) else int (dec_value ds)) else None)"

definition positive_integer :: "string \<Rightarrow> bool" where
  "positive_integer s \<longleftrightarrow> (case xs_integer s of Some n \<Rightarrow> 0 < n | None \<Rightarrow> False)"

definition non_negative_integer :: "string \<Rightarrow> bool" where
  "non_negative_integer s \<longleftrightarrow> (case xs_integer s of Some n \<Rightarrow> 0 \<le> n | None \<Rightarrow> False)"

definition port_valid :: "port_elem \<Rightarrow> bool" where
  "port_valid p \<longleftrightarrow> is_identifier (pe_name p) \<and> (pe_type p = ''in'' \<or> pe_type p = ''out'')"

definition actor_type_valid :: "actor_type_elem \<Rightarrow> bool" where
  "actor_type_valid t \<longleftrightarrow> is_type_identifier (at_name t) \<and> at_ports t \<noteq> [] \<and> list_all port_valid (at_ports t)"

definition actor_inst_valid :: "actor_inst_elem \<Rightarrow> bool" where
  "actor_inst_valid a \<longleftrightarrow> is_identifier (ai_name a) \<and> is_type_identifier (ai_type a)"

definition ref_valid :: "ref_elem \<Rightarrow> bool" where
  "ref_valid r \<longleftrightarrow> is_identifier (re_actor r) \<and> is_identifier (re_port r)"

definition fifo_valid :: "fifo_elem \<Rightarrow> bool" where
  "fifo_valid f \<longleftrightarrow> length (ce_sources f) = 1 \<and> length (ce_targets f) = 1
   \<and> list_all ref_valid (ce_sources f) \<and> list_all ref_valid (ce_targets f)
   \<and> positive_integer (fe_size f) \<and> non_negative_integer (fe_initial f)"

definition register_valid :: "chan_elem \<Rightarrow> bool" where
  "register_valid r \<longleftrightarrow> list_all ref_valid (ce_sources r) \<and> list_all ref_valid (ce_targets r)"

definition chan_valid :: "chan_node \<Rightarrow> bool" where
  "chan_valid c = (case c of FifoNode f \<Rightarrow> fifo_valid f | RegisterNode r \<Rightarrow> register_valid r)"

definition schema_valid :: "document \<Rightarrow> bool" where
  "schema_valid d \<longleftrightarrow> doc_types d \<noteq> [] \<and> list_all actor_type_valid (doc_types d)
   \<and> doc_insts d \<noteq> [] \<and> list_all actor_inst_valid (doc_insts d) \<and> list_all chan_valid (doc_chans d)"

section \<open>Reading\<close>

datatype direction = DirIn | DirOut

type_synonym actor_ports = "(string \<times> direction) list"

record actor_inst =
  an_ports :: actor_ports
  an_vd :: nat
  an_dangling :: "string list"

text \<open>\<^verbatim>\<open>std::map::insert\<close> under \<^verbatim>\<open>sassert\<close>.\<close>

definition insert_new :: "string \<Rightarrow> 'a \<Rightarrow> (string \<times> 'a) list \<Rightarrow> (string \<times> 'a) list result" where
  "insert_new k x m = (case map_of m k of None \<Rightarrow> Inr (m @ [(k, x)]) | Some _ \<Rightarrow> Inl AssertFailed)"

definition find_or_assert :: "string \<Rightarrow> (string \<times> 'a) list \<Rightarrow> 'a result" where
  "find_or_assert k m = (case map_of m k of None \<Rightarrow> Inl AssertFailed | Some x \<Rightarrow> Inr x)"

definition mk_ActorPort :: "port_elem \<Rightarrow> (string \<times> direction) result" where
  "mk_ActorPort p = rbind (rassert (pe_type p = ''in'' \<or> pe_type p = ''out''))
     (\<lambda>_. Inr (pe_name p, if pe_type p = ''in'' then DirIn else DirOut))"

definition mk_ActorType :: "actor_type_elem \<Rightarrow> actor_ports result" where
  "mk_ActorType t = rfold (\<lambda>p ps. rbind (mk_ActorPort p) (\<lambda>(n, d). insert_new n d ps)) (at_ports t) []"

definition load_type :: "actor_type_elem \<Rightarrow> (string \<times> actor_ports) list \<Rightarrow> (string \<times> actor_ports) list result" where
  "load_type t ts = rbind (mk_ActorType t) (\<lambda>ps. insert_new (at_name t) ps ts)"

record load_state =
  ls_graph :: sng
  ls_insts :: "(string \<times> actor_inst) list"

definition load_inst :: "(string \<times> actor_ports) list \<Rightarrow> actor_inst_elem \<Rightarrow> load_state \<Rightarrow> load_state result" where
  "load_inst ts a st = rbind (find_or_assert (ai_type a) ts) (\<lambda>ps. let
     (vd, g) = add_vertex (ls_graph st);
     g = set_vinfo vd ((vinfo g vd)\<lparr>vi_name := ai_name a, vi_type := ACTOR\<rparr>) g;
     inst = \<lparr>an_ports = ps, an_vd = vd, an_dangling = map fst ps\<rparr>
   in rbind (insert_new (ai_name a) inst (ls_insts st)) (\<lambda>is'. Inr \<lparr>ls_graph = g, ls_insts = is'\<rparr>))"

definition connectPort :: "string \<Rightarrow> actor_inst \<Rightarrow> (direction \<times> actor_inst) result" where
  "connectPort p i = rbind (find_or_assert p (an_ports i))
     (\<lambda>d. Inr (d, i\<lparr>an_dangling := removeAll p (an_dangling i)\<rparr>))"

definition set_inst :: "string \<Rightarrow> actor_inst \<Rightarrow> (string \<times> actor_inst) list \<Rightarrow> (string \<times> actor_inst) list" where
  "set_inst k x m = map (\<lambda>(k', y). (k', if k' = k then x else y)) m"

text \<open>One \<^verbatim>\<open>source\<close> or \<^verbatim>\<open>target\<close> element: an edge from the actor to the channel, or back.\<close>

definition connect_ref :: "direction \<Rightarrow> nat \<Rightarrow> size_t \<Rightarrow> ref_elem \<Rightarrow> load_state \<Rightarrow> load_state result" where
  "connect_ref dir vd sz r st = rbind (find_or_assert (re_actor r) (ls_insts st)) (\<lambda>i.
     rbind (connectPort (re_port r) i) (\<lambda>(d, i').
     rbind (rassert (d = dir)) (\<lambda>_. let
       (e, g) = (if dir = DirOut then add_edge (an_vd i) vd (ls_graph st) else add_edge vd (an_vd i) (ls_graph st));
       g = set_einfo e \<lparr>ei_name = re_port r, ei_tokenSize = sz, ei_tokens = 1\<rparr> g
     in Inr \<lparr>ls_graph = g, ls_insts = set_inst (re_actor r) i' (ls_insts st)\<rparr>)))"

text \<open>\<^verbatim>\<open>tokenSize\<close> is an \<^verbatim>\<open>int\<close>: \<^verbatim>\<open>stoul\<close> is cut to 32 bits and widened with its sign into a \<^verbatim>\<open>size_t\<close> later.\<close>

definition read_attr :: "attr_elem \<Rightarrow> 32 word \<Rightarrow> 32 word result" where
  "read_attr a ts = (if oa_name a = ''smoc-token-size''
     then rbind (rassert (oa_type a = ''INT'')) (\<lambda>_. rbind (stoul (oa_value a)) (\<lambda>n. Inr (ucast n)))
     else Inr ts)"

definition int_to_size :: "32 word \<Rightarrow> size_t" where
  "int_to_size w = scast w"

definition mk_ChanInstance :: "chan_elem \<Rightarrow> load_state \<Rightarrow> (nat \<times> 32 word \<times> load_state) result" where
  "mk_ChanInstance c st = (let
     (vd, g) = add_vertex (ls_graph st);
     g = set_vinfo vd ((vinfo g vd)\<lparr>vi_name := ce_name c\<rparr>) g
   in rbind (rfold read_attr (ce_attrs c) (-1)) (\<lambda>ts.
      rbind (rfold (connect_ref DirOut vd (int_to_size ts)) (ce_sources c) (st\<lparr>ls_graph := g\<rparr>)) (\<lambda>st1.
      rbind (rfold (connect_ref DirIn vd (int_to_size ts)) (ce_targets c) st1) (\<lambda>st2.
      Inr (vd, ts, st2)))))"

definition mk_FifoInstance :: "fifo_elem \<Rightarrow> load_state \<Rightarrow> load_state result" where
  "mk_FifoInstance c st = rbind (mk_ChanInstance (chan_elem.truncate c) st) (\<lambda>(vd, ts, st1).
     rbind (stoul (fe_size c)) (\<lambda>cap. rbind (stoul (fe_initial c)) (\<lambda>del. let g = ls_graph st1 in
     Inr (st1\<lparr>ls_graph := set_vinfo vd ((vinfo g vd)\<lparr>vi_type := FIFO, vi_size := int_to_size ts,
                vi_capacity := cap, vi_delay := del\<rparr>) g\<rparr>))))"

definition mk_RegisterInstance :: "chan_elem \<Rightarrow> load_state \<Rightarrow> load_state result" where
  "mk_RegisterInstance c st = rbind (mk_ChanInstance c st) (\<lambda>(vd, ts, st1). let g = ls_graph st1 in
     Inr (st1\<lparr>ls_graph := set_vinfo vd ((vinfo g vd)\<lparr>vi_type := REGISTER, vi_size := int_to_size ts\<rparr>) g\<rparr>))"

fun fifo_nodes :: "chan_node list \<Rightarrow> fifo_elem list" where
  "fifo_nodes [] = []"
| "fifo_nodes (FifoNode f # cs) = f # fifo_nodes cs"
| "fifo_nodes (RegisterNode r # cs) = fifo_nodes cs"

fun register_nodes :: "chan_node list \<Rightarrow> chan_elem list" where
  "register_nodes [] = []"
| "register_nodes (FifoNode f # cs) = register_nodes cs"
| "register_nodes (RegisterNode r # cs) = r # register_nodes cs"

text \<open>The elements of a parsed document, in the order in which \<^verbatim>\<open>loadSNG\<close> looks them up.\<close>

definition load_document :: "document \<Rightarrow> sng result" where
  "load_document d = rbind (rfold load_type (doc_types d) []) (\<lambda>ts.
     rbind (rfold (load_inst ts) (doc_insts d) \<lparr>ls_graph = sng_empty, ls_insts = []\<rparr>) (\<lambda>st1.
     rbind (rfold mk_FifoInstance (fifo_nodes (doc_chans d)) st1) (\<lambda>st2.
     rbind (rfold mk_RegisterInstance (register_nodes (doc_chans d)) st2) (\<lambda>st3.
     Inr (ls_graph st3)))))"

text \<open>\<^verbatim>\<open>sng.setXSD\<close> and \<^verbatim>\<open>sng.load\<close>: the parser rejects what the schema does not allow.\<close>

definition loadSNG :: "document \<Rightarrow> sng result" where
  "loadSNG d = (if schema_valid d then load_document d else Inl (RuntimeError ''document is not valid''))"

end
