(* ===== verification/SNG_Roundtrip.thy ===== *)
theory SNG_Roundtrip
  imports SNG_IO
begin

text \<open>
  What a saved and reloaded network graph is: its abstraction to a network of actors and channels whose
  ends are named by actor and port, the document that \<^verbatim>\<open>saveSNG\<close> writes for it, and the network that
  \<^verbatim>\<open>loadSNG\<close> builds from such a document.
\<close>

section \<open>Decimal numbers\<close>

lemma of_char_digit [simp]: "n < 10 \<Longrightarrow> of_char (digit n) = 48 + n"
  by (simp add: digit_def of_char_of take_bit_nat_eq_self)

lemma is_digit_digit [simp]: "n < 10 \<Longrightarrow> is_digit (digit n)"
  by (simp add: is_digit_def)

lemma dec_value_snoc [simp]: "dec_value (ds @ [c]) = 10 * dec_value ds + (of_char c - 48)"
  by (simp add: dec_value_def)

lemma dec_nat_props: "dec_value (dec_nat n) = n \<and> list_all is_digit (dec_nat n) \<and> dec_nat n \<noteq> []"
proof (induction n rule: dec_nat.induct)
  case (1 n)
  show ?case
  proof (cases "n < 10")
    case True
    then show ?thesis
      by (simp add: dec_nat.simps [of n] dec_value_def)
  next
    case False
    then show ?thesis
      using 1 by (simp add: dec_nat.simps [of n])
  qed
qed

lemma not_digit_space_sign: "is_digit c \<Longrightarrow> \<not> is_space c \<and> c \<noteq> CHR ''-'' \<and> c \<noteq> CHR ''+''"
  by (auto simp: is_digit_def is_space_def)

lemma split_sign_digits: "list_all is_digit s \<Longrightarrow> split_sign (dropWhile is_space s) = (False, s)"
  by (cases s) (auto simp: split_sign_def dest: not_digit_space_sign)

lemma stoul_dec [simp]: "stoul (dec w) = Inr w"
proof -
  have d: "dec_value (dec w) = unat w" "list_all is_digit (dec w)" "dec w \<noteq> []"
    using dec_nat_props [of "unat w"] by (simp_all add: dec_def)
  have "takeWhile is_digit (dec w) = dec w"
    using d(2) by (metis takeWhile_eq_all_conv list_all_iff)
  moreover have "unat w < 2 ^ 64"
    using unsigned_less [of w, where ?'a = nat] by simp
  ultimately show ?thesis
    using d(1,3) by (simp add: stoul_def split_sign_digits [OF d(2)] Let_def del: takeWhile_eq_all_conv)
qed

section \<open>Networks\<close>

text \<open>
  A channel with its writers and readers, each an actor and a port of it, with the token size and the rate of
  the edge.  Actors come with their repetition counts.
\<close>

record port_ref =
  pr_actor :: string
  pr_port :: string
  pr_size :: size_t
  pr_rate :: size_t

datatype chan_desc =
    FifoDesc string size_t size_t size_t "port_ref list" "port_ref list"
  | RegDesc string size_t "port_ref list" "port_ref list"

record net =
  nt_actors :: "(string \<times> size_t) list"
  nt_fifos :: "chan_desc list"
  nt_regs :: "chan_desc list"

definition edge_ref :: "vertex_info \<Rightarrow> edge_info \<Rightarrow> port_ref" where
  "edge_ref a i = \<lparr>pr_actor = vi_name a, pr_port = ei_name i, pr_size = ei_tokenSize i, pr_rate = ei_tokens i\<rparr>"

definition writers :: "sng \<Rightarrow> nat \<Rightarrow> port_ref list" where
  "writers g v = map (\<lambda>e. edge_ref (vinfo g (esrc g e)) (einfo g e)) (in_edges g v)"

definition readers :: "sng \<Rightarrow> nat \<Rightarrow> port_ref list" where
  "readers g v = map (\<lambda>e. edge_ref (vinfo g (etgt g e)) (einfo g e)) (out_edges g v)"

definition describe :: "sng \<Rightarrow> nat \<Rightarrow> chan_desc" where
  "describe g v = (let i = vinfo g v in case vi_type i of
     REGISTER \<Rightarrow> RegDesc (vi_name i) (vi_size i) (writers g v) (readers g v)
   | _ \<Rightarrow> FifoDesc (vi_name i) (vi_capacity i) (vi_delay i) (vi_size i) (writers g v) (readers g v))"

definition of_type :: "sng \<Rightarrow> vtype \<Rightarrow> nat list" where
  "of_type g t = filter (\<lambda>v. vi_type (vinfo g v) = t) (vertices g)"

definition net_of :: "sng \<Rightarrow> net" where
  "net_of g = \<lparr>nt_actors = map (\<lambda>v. (vi_name (vinfo g v), vi_size (vinfo g v))) (of_type g ACTOR),
     nt_fifos = map (describe g) (of_type g FIFO), nt_regs = map (describe g) (of_type g REGISTER)\<rparr>"

text \<open>The edge list determines the ends directly.\<close>

lemma map_filter_upt: "map (\<lambda>i. f (xs ! i)) (filter (\<lambda>i. P (xs ! i)) [0..<length xs]) = map f (filter P xs)"
proof -
  have "map f (filter P xs) = map f (filter P (map ((!) xs) [0..<length xs]))"
    by (simp add: map_nth)
  also have "\<dots> = map (\<lambda>i. f (xs ! i)) (filter (\<lambda>i. P (xs ! i)) [0..<length xs])"
    by (simp add: filter_map o_def)
  finally show ?thesis ..
qed

lemma writers_edges:
  "writers g v = map (\<lambda>(u, w, i). edge_ref (sg_verts g ! u) i) (filter (\<lambda>(u, w, i). w = v) (sg_edges g))"
  unfolding writers_def in_edges_def esrc_def etgt_def einfo_def vinfo_def
  by (subst map_filter_upt [symmetric]) (simp add: case_prod_beta)

lemma readers_edges:
  "readers g v = map (\<lambda>(u, w, i). edge_ref (sg_verts g ! w) i) (filter (\<lambda>(u, w, i). u = v) (sg_edges g))"
  unfolding readers_def out_edges_def esrc_def etgt_def einfo_def vinfo_def
  by (subst map_filter_upt [symmetric]) (simp add: case_prod_beta)

section \<open>The document of a network\<close>

definition ref_of :: "port_ref \<Rightarrow> ref_elem" where
  "ref_of r = \<lparr>re_actor = pr_actor r, re_port = pr_port r\<rparr>"

fun node_of :: "chan_desc \<Rightarrow> chan_node" where
  "node_of (FifoDesc n c d t ws rs) = FifoNode \<lparr>ce_name = n, ce_attrs = [token_size_attr t],
     ce_sources = map ref_of ws, ce_targets = map ref_of rs, fe_size = dec c, fe_initial = dec d\<rparr>"
| "node_of (RegDesc n t ws rs) = RegisterNode \<lparr>ce_name = n, ce_attrs = [token_size_attr t],
     ce_sources = map ref_of ws, ce_targets = map ref_of rs\<rparr>"

text \<open>\<^verbatim>\<open>saveSNG\<close> writes one FIFO per reader.\<close>

fun split_readers :: "chan_desc \<Rightarrow> chan_desc list" where
  "split_readers (FifoDesc n c d t ws rs) = map (\<lambda>r. FifoDesc n c d t ws [r]) rs"
| "split_readers (RegDesc n t ws rs) = [RegDesc n t ws rs]"

definition saved_descs :: "sng \<Rightarrow> nat \<Rightarrow> chan_desc list" where
  "saved_descs g v = (if vi_type (vinfo g v) = ACTOR then [] else split_readers (describe g v))"

lemma source_refs: "map (source_ref g) (in_edges g v) = map ref_of (writers g v)"
  by (simp add: source_ref_def writers_def ref_of_def edge_ref_def)

lemma target_refs: "map (target_ref g) (out_edges g v) = map ref_of (readers g v)"
  by (simp add: target_ref_def readers_def ref_of_def edge_ref_def)

lemma save_fifo_descs: "vi_type (vinfo g v) = FIFO \<Longrightarrow> map FifoNode (save_fifo g v) = map node_of (saved_descs g v)"
  by (simp add: save_fifo_def saved_descs_def describe_def Let_def source_refs readers_def target_ref_def ref_of_def edge_ref_def)

lemma save_register_descs:
  "vi_type (vinfo g v) = REGISTER \<Longrightarrow> [RegisterNode (save_register g v)] = map node_of (saved_descs g v)"
  by (simp add: save_register_def saved_descs_def describe_def Let_def source_refs target_refs)

section \<open>Actor types are determined by their keys\<close>

definition plain :: "string \<Rightarrow> bool" where
  "plain s \<longleftrightarrow> CHR ''['' \<notin> set s"

definition port_tag :: "port_elem \<Rightarrow> string" where
  "port_tag p = pe_name p @ (if pe_type p = ''in'' then ''[IN]'' else ''[OUT]'')"

definition plain_port :: "port_elem \<Rightarrow> bool" where
  "plain_port p \<longleftrightarrow> plain (pe_name p) \<and> (pe_type p = ''in'' \<or> pe_type p = ''out'')"

lemma actor_key_ports: "actor_key g v = concat (map port_tag (save_ports g v))"
  by (simp add: actor_key_def save_ports_def port_tag_def o_def)

lemma takeWhile_plain [simp]: "plain s \<Longrightarrow> takeWhile (\<lambda>c. c \<noteq> CHR ''['') (s @ CHR ''['' # r) = s"
  by (induction s) (auto simp: plain_def)

lemma plain_append_eq:
  assumes "plain a" "plain b" "a @ CHR ''['' # x = b @ CHR ''['' # y"
  shows "a = b \<and> x = y"
proof -
  have "a = b"
    using arg_cong [where f = "takeWhile (\<lambda>c. c \<noteq> CHR ''['')", OF assms(3)] assms(1,2) by simp
  with assms(3) show ?thesis
    by simp
qed

lemma port_tags_inj:
  "\<lbrakk>list_all plain_port ps; list_all plain_port qs; concat (map port_tag ps) = concat (map port_tag qs)\<rbrakk> \<Longrightarrow> ps = qs"
proof (induction ps arbitrary: qs)
  case Nil
  then show ?case
    by (cases qs) (auto simp: port_tag_def split: if_splits)
next
  case (Cons p ps)
  then obtain q qs' where qs: "qs = q # qs'"
    by (cases qs) (auto simp: port_tag_def split: if_splits)
  define x where "x r = (if pe_type r = ''in'' then ''IN]'' else ''OUT]'')" for r :: port_elem
  have tag: "port_tag r = pe_name r @ CHR ''['' # x r" for r
    by (simp add: port_tag_def x_def)
  have eq: "pe_name p = pe_name q \<and> x p @ concat (map port_tag ps) = x q @ concat (map port_tag qs')"
    using Cons.prems(1,2) tag [of p] tag [of q] Cons.prems(3) [unfolded qs]
    by (intro plain_append_eq) (simp_all add: qs plain_port_def)
  then have t: "pe_type p = pe_type q"
    using Cons.prems by (auto simp: qs x_def plain_port_def split: if_splits)
  then have "concat (map port_tag ps) = concat (map port_tag qs')"
    using eq by (simp add: x_def)
  then have "ps = qs'"
    using Cons.IH Cons.prems by (simp add: qs)
  with eq t show ?case
    by (simp add: qs)
qed

definition names_plain :: "sng \<Rightarrow> bool" where
  "names_plain g \<longleftrightarrow> list_all (\<lambda>(u, v, i). plain (ei_name i)) (sg_edges g)"

lemma save_ports_plain: "names_plain g \<Longrightarrow> list_all plain_port (save_ports g v)"
  by (auto simp: names_plain_def save_ports_def plain_port_def list_all_iff in_edges_def out_edges_def einfo_def
      dest!: nth_mem)

lemma actor_key_inj: "names_plain g \<Longrightarrow> actor_key g v = actor_key g w \<Longrightarrow> save_ports g v = save_ports g w"
  by (simp add: actor_key_ports port_tags_inj save_ports_plain)

section \<open>What is written\<close>

abbreviation ports_by_type :: "actor_type_elem list \<Rightarrow> string \<Rightarrow> port_elem list option" where
  "ports_by_type ts \<equiv> map_of (map (\<lambda>t. (at_name t, at_ports t)) ts)"

definition actors_in :: "sng \<Rightarrow> nat list \<Rightarrow> nat list" where
  "actors_in g vs = filter (\<lambda>v. vi_type (vinfo g v) = ACTOR) vs"

lemma actors_in_simps [simp]:
  "actors_in g [] = []"
  "actors_in g (vs @ [v]) = actors_in g vs @ (if vi_type (vinfo g v) = ACTOR then [v] else [])"
  by (simp_all add: actors_in_def)

definition saved_so_far :: "sng \<Rightarrow> nat list \<Rightarrow> save_ctx \<Rightarrow> bool" where
  "saved_so_far g vs ctx \<longleftrightarrow>
     sc_conns ctx = map node_of (concat (map (saved_descs g) vs))
   \<and> list_all2 (\<lambda>i v. ai_name i = vi_name (vinfo g v) \<and> ports_by_type (sc_types ctx) (ai_type i) = Some (save_ports g v))
       (sc_insts ctx) (actors_in g vs)
   \<and> (\<forall>t \<in> set (sc_types ctx). \<exists>v \<in> set (actors_in g vs). at_ports t = save_ports g v)
   \<and> distinct (map at_name (sc_types ctx)) \<and> sc_pool ctx = map at_name (sc_types ctx)
   \<and> (\<forall>k t. map_of (sc_cache ctx) k = Some t \<longrightarrow>
        t \<noteq> [] \<and> (\<exists>v. actor_key g v = k \<and> ports_by_type (sc_types ctx) t = Some (save_ports g v)))"

lemma so_far_cacheD:
  "saved_so_far g vs ctx \<Longrightarrow> map_of (sc_cache ctx) k = Some t \<Longrightarrow>
   t \<noteq> [] \<and> (\<exists>v. actor_key g v = k \<and> ports_by_type (sc_types ctx) t = Some (save_ports g v))"
  unfolding saved_so_far_def by blast

text \<open>The names of the pool are new, and never empty.\<close>

definition unique_pool :: "(string list \<Rightarrow> string \<Rightarrow> string) \<Rightarrow> bool" where
  "unique_pool uniq \<longleftrightarrow> (\<forall>used s. uniq used s \<notin> set used \<and> (s \<noteq> [] \<longrightarrow> uniq used s \<noteq> []))"

lemma type_name_nonempty [simp]: "type_name n \<noteq> []"
  by (simp add: type_name_def)

lemma saved_insts_mono:
  assumes "list_all2 (\<lambda>i v. P i v \<and> m (ai_type i) = Some (f v)) is vs" "\<And>k x. m k = Some x \<Longrightarrow> m' k = Some x"
  shows "list_all2 (\<lambda>i v. P i v \<and> m' (ai_type i) = Some (f v)) is vs"
  using assms by (auto elim!: list_all2_mono)

lemma save_actor_so_far:
  assumes inv: "saved_so_far g vs ctx" and u: "unique_pool uniq" and p: "names_plain g"
    and a: "vi_type (vinfo g v) = ACTOR"
  shows "saved_so_far g (vs @ [v]) (save_actor uniq g v ctx)"
proof (cases "cached (sc_cache ctx) (actor_key g v) = []")
  case False
  then obtain t where t: "map_of (sc_cache ctx) (actor_key g v) = Some t"
    by (auto simp: cached_def split: option.splits)
  then obtain w where w: "actor_key g w = actor_key g v" "ports_by_type (sc_types ctx) t = Some (save_ports g w)"
    using so_far_cacheD [OF inv] by blast
  then have "save_ports g w = save_ports g v"
    using actor_key_inj [OF p] by blast
  with w t inv a False show ?thesis
    by (auto simp: saved_so_far_def save_actor_def Let_def saved_descs_def cached_def intro!: list_all2_appendI)
next
  case True
  define t where "t = uniq (sc_pool ctx) (type_name (vi_name (vinfo g v)))"
  define te where "te = \<lparr>at_name = t, at_ports = save_ports g v\<rparr>"
  have pool: "sc_pool ctx = map at_name (sc_types ctx)"
    using inv by (simp add: saved_so_far_def)
  have new: "t \<notin> set (map at_name (sc_types ctx))" "t \<noteq> []"
    using u type_name_nonempty unfolding unique_pool_def t_def pool by blast+
  have none: "ports_by_type (sc_types ctx) t = None"
    using new by (auto simp: map_of_eq_None_iff)
  have mono: "ports_by_type (sc_types ctx @ [te]) k = Some x" if "ports_by_type (sc_types ctx) k = Some x" for k x
    using that by (auto simp: map_add_Some_iff)
  have here: "ports_by_type (sc_types ctx @ [te]) t = Some (save_ports g v)"
    using none by (simp add: te_def map_add_def)
  define ctx' where "ctx' = save_actor uniq g v ctx"
  have sv: "sc_cache ctx' = (actor_key g v, t) # sc_cache ctx" "sc_pool ctx' = sc_pool ctx @ [t]"
      "sc_types ctx' = sc_types ctx @ [te]" "sc_conns ctx' = sc_conns ctx"
      "sc_insts ctx' = sc_insts ctx @ [\<lparr>ai_name = vi_name (vinfo g v), ai_type = t\<rparr>]"
    using True by (simp_all add: ctx'_def save_actor_def Let_def t_def te_def cached_def)
  have l: "list_all2 (\<lambda>i w. ai_name i = vi_name (vinfo g w)
      \<and> ports_by_type (sc_types ctx @ [te]) (ai_type i) = Some (save_ports g w)) (sc_insts ctx) (actors_in g vs)"
    by (rule saved_insts_mono [where m = "ports_by_type (sc_types ctx)", OF _ mono])
      (use inv in \<open>simp only: saved_so_far_def\<close>)
  have c: "x \<noteq> [] \<and> (\<exists>w. actor_key g w = k \<and> ports_by_type (sc_types ctx @ [te]) x = Some (save_ports g w))"
    if x: "map_of ((actor_key g v, t) # sc_cache ctx) k = Some x" for k x
  proof (cases "k = actor_key g v")
    case False
    then obtain w where "x \<noteq> []" "actor_key g w = k" "ports_by_type (sc_types ctx) x = Some (save_ports g w)"
      using x so_far_cacheD [OF inv, of k x] by auto
    then show ?thesis
      using mono by blast
  qed (use x here new in auto)
  have parts: "sc_conns ctx = map node_of (concat (map (saved_descs g) vs))"
      "\<forall>t \<in> set (sc_types ctx). \<exists>v \<in> set (actors_in g vs). at_ports t = save_ports g v"
      "distinct (map at_name (sc_types ctx))"
    using inv unfolding saved_so_far_def by blast+
  have "list_all2 (\<lambda>i w. ai_name i = vi_name (vinfo g w) \<and> ports_by_type (sc_types ctx') (ai_type i) = Some (save_ports g w))
      (sc_insts ctx') (actors_in g (vs @ [v]))"
    using l here a by (simp only: sv actors_in_simps) (simp add: list_all2_appendI)
  moreover have "\<forall>t \<in> set (sc_types ctx'). \<exists>w \<in> set (actors_in g (vs @ [v])). at_ports t = save_ports g w"
    using parts(2) a by (auto simp: sv te_def)
  moreover have "sc_conns ctx' = map node_of (concat (map (saved_descs g) (vs @ [v])))"
      "distinct (map at_name (sc_types ctx'))" "sc_pool ctx' = map at_name (sc_types ctx')"
    using parts pool new(1) a by (simp_all add: sv saved_descs_def te_def)
  moreover have "\<forall>k x. map_of (sc_cache ctx') k = Some x \<longrightarrow>
      x \<noteq> [] \<and> (\<exists>w. actor_key g w = k \<and> ports_by_type (sc_types ctx') x = Some (save_ports g w))"
    using c unfolding sv by blast
  ultimately show ?thesis
    unfolding saved_so_far_def ctx'_def by blast
qed

definition one_sided :: "sng \<Rightarrow> nat \<Rightarrow> bool" where
  "one_sided g v \<longleftrightarrow> (vi_type (vinfo g v) = REGISTER \<longrightarrow> in_edges g v = [] \<or> out_edges g v = [])"

lemma save_channel_so_far:
  "saved_so_far g vs ctx \<Longrightarrow> vi_type (vinfo g v) \<noteq> ACTOR \<Longrightarrow>
   saved_so_far g (vs @ [v]) (ctx\<lparr>sc_conns := sc_conns ctx @ map node_of (saved_descs g v)\<rparr>)"
  by (simp add: saved_so_far_def)

lemma save_vertex_so_far:
  assumes "saved_so_far g vs ctx" "unique_pool uniq" "names_plain g" "one_sided g v"
  shows "\<exists>ctx'. save_vertex uniq g v ctx = Inr ctx' \<and> saved_so_far g (vs @ [v]) ctx'"
proof (cases "vi_type (vinfo g v)")
  case ACTOR
  with assms save_actor_so_far show ?thesis
    by (simp add: save_vertex_def)
next
  case FIFO
  with assms save_channel_so_far [OF assms(1), of v] show ?thesis
    by (simp add: save_vertex_def save_fifo_descs)
next
  case REGISTER
  with assms save_channel_so_far [OF assms(1), of v] show ?thesis
    by (simp add: save_vertex_def one_sided_def flip: save_register_descs)
qed

lemma saveSNG_ok:
  assumes "unique_pool uniq" "names_plain g" "\<forall>v \<in> set (vertices g). one_sided g v"
  shows "\<exists>ctx. saveSNG uniq g = Inr \<lparr>doc_types = sc_types ctx, doc_insts = sc_insts ctx, doc_chans = sc_conns ctx\<rparr>
    \<and> saved_so_far g (vertices g) ctx"
proof -
  have "\<exists>ctx. rfold (save_vertex uniq g) (vertices g) empty_ctx = Inr ctx \<and> saved_so_far g (vertices g) ctx"
    using assms by (intro rfold_rule [where P = "saved_so_far g"] save_vertex_so_far)
      (auto simp: saved_so_far_def empty_ctx_def)
  then show ?thesis
    by (auto simp: saveSNG_def)
qed

text \<open>Saving fails only for a register with both ends.\<close>

lemma save_vertex_fails: "save_vertex uniq g v ctx = Inl e \<longleftrightarrow> e = AssertFailed \<and> \<not> one_sided g v"
  by (auto simp: save_vertex_def one_sided_def split: vtype.split)

lemma saveSNG_fails: "saveSNG uniq g = Inl e \<longleftrightarrow> e = AssertFailed \<and> \<not> list_all (one_sided g) (vertices g)"
proof -
  have "saveSNG uniq g = Inl e \<longleftrightarrow> rfold (save_vertex uniq g) (vertices g) empty_ctx = Inl e"
    by (cases "rfold (save_vertex uniq g) (vertices g) empty_ctx") (auto simp: saveSNG_def)
  then show ?thesis
    by (simp add: rfold_fails [where Q = "one_sided g" and E = AssertFailed] save_vertex_fails)
qed

end
