(* ===== verification/SNG_Reload.thy ===== *)
theory SNG_Reload
  imports SNG_Roundtrip
begin

text \<open>
  Loading a saved network graph: the actor types and instances of the document, then one channel at a
  time, whose edges join it to the actors that its references name.
\<close>

section \<open>Actor types and instances\<close>

definition port_of :: "port_elem \<Rightarrow> string \<times> direction" where
  "port_of p = (pe_name p, if pe_type p = ''in'' then DirIn else DirOut)"

lemma insert_new_fresh [simp]: "k \<notin> fst ` set m \<Longrightarrow> insert_new k x m = Inr (m @ [(k, x)])"
  by (simp add: insert_new_def map_of_eq_None_iff [THEN iffD2])

lemma rfold_fresh:
  assumes "distinct (map k xs)" "\<And>x. x \<in> set xs \<Longrightarrow> f x = (\<lambda>m. insert_new (k x) (y x) m)"
  shows "rfold f xs [] = Inr (map (\<lambda>x. (k x, y x)) xs)"
proof -
  have "\<exists>m. rfold f xs [] = Inr m \<and> m = map (\<lambda>x. (k x, y x)) xs"
  proof (rule rfold_rule)
    fix ys x zs t
    assume split: "xs = ys @ x # zs" and t: "t = map (\<lambda>x. (k x, y x)) ys"
    have "k x \<notin> fst ` set t"
      using assms(1) by (auto simp: split t)
    then show "\<exists>t'. f x t = Inr t' \<and> t' = map (\<lambda>x. (k x, y x)) (ys @ [x])"
      using assms(2) [of x] by (simp add: split t)
  qed simp
  then show ?thesis
    by simp
qed

definition good_ports :: "port_elem list \<Rightarrow> bool" where
  "good_ports ps \<longleftrightarrow> distinct (map pe_name ps) \<and> list_all plain_port ps"

lemma mk_ActorType_ok: "good_ports (at_ports t) \<Longrightarrow> mk_ActorType t = Inr (map port_of (at_ports t))"
  using rfold_fresh [of pe_name "at_ports t" "\<lambda>p ps. rbind (mk_ActorPort p) (\<lambda>(n, d). insert_new n d ps)" "\<lambda>p. snd (port_of p)"]
  by (simp add: mk_ActorType_def good_ports_def list_all_iff plain_port_def mk_ActorPort_def port_of_def fun_eq_iff)

definition loaded_types :: "actor_type_elem list \<Rightarrow> (string \<times> actor_ports) list" where
  "loaded_types ts = map (\<lambda>t. (at_name t, map port_of (at_ports t))) ts"

lemma load_types_ok:
  "distinct (map at_name ts) \<Longrightarrow> \<forall>t \<in> set ts. good_ports (at_ports t) \<Longrightarrow> rfold load_type ts [] = Inr (loaded_types ts)"
  unfolding loaded_types_def
  by (rule rfold_fresh) (auto simp: load_type_def mk_ActorType_ok fun_eq_iff)

lemma map_of_loaded: "ports_by_type ts n = Some ps \<Longrightarrow> map_of (loaded_types ts) n = Some (map port_of ps)"
  by (induction ts) (auto simp: loaded_types_def split: if_splits)

lemma add_vertex_set:
  "set_vinfo (length (sg_verts g)) i (g\<lparr>sg_verts := sg_verts g @ [j]\<rparr>) = g\<lparr>sg_verts := sg_verts g @ [i]\<rparr>"
  "vinfo (g\<lparr>sg_verts := sg_verts g @ [j]\<rparr>) (length (sg_verts g)) = j"
  by (simp_all add: set_vinfo_def vinfo_def)

lemma add_edge_set:
  "set_einfo (length (sg_edges g)) i (g\<lparr>sg_edges := sg_edges g @ [(u, v, j)]\<rparr>) = g\<lparr>sg_edges := sg_edges g @ [(u, v, i)]\<rparr>"
  by (simp add: set_einfo_def esrc_def etgt_def)

definition actor_vertex :: "string \<Rightarrow> vertex_info" where
  "actor_vertex n = mk_vertex_info\<lparr>vi_name := n, vi_type := ACTOR\<rparr>"

text \<open>The instance that the loader keeps for actor \<open>k\<close> of the document.\<close>

definition inst_of :: "actor_inst_elem list \<Rightarrow> (nat \<Rightarrow> port_elem list) \<Rightarrow> nat \<Rightarrow> string \<times> actor_inst" where
  "inst_of is' ps k = (ai_name (is' ! k),
     \<lparr>an_ports = map port_of (ps k), an_vd = k, an_dangling = map fst (map port_of (ps k))\<rparr>)"

lemma load_insts_ok:
  assumes "distinct (map ai_name is')" "\<And>k. k < length is' \<Longrightarrow> ports_by_type ts (ai_type (is' ! k)) = Some (ps k)"
  shows "rfold (load_inst (loaded_types ts)) is' \<lparr>ls_graph = sng_empty, ls_insts = []\<rparr>
    = Inr \<lparr>ls_graph = \<lparr>sg_verts = map (\<lambda>i. actor_vertex (ai_name i)) is', sg_edges = []\<rparr>,
           ls_insts = map (inst_of is' ps) [0..<length is']\<rparr>"
proof -
  define P where "P ys st \<longleftrightarrow> st = \<lparr>ls_graph = \<lparr>sg_verts = map (\<lambda>i. actor_vertex (ai_name i)) ys, sg_edges = []\<rparr>,
           ls_insts = map (inst_of is' ps) [0..<length ys]\<rparr>" for ys :: "actor_inst_elem list" and st
  have "\<exists>st. rfold (load_inst (loaded_types ts)) is' \<lparr>ls_graph = sng_empty, ls_insts = []\<rparr> = Inr st \<and> P is' st"
  proof (rule rfold_rule)
    fix ys x zs t
    assume split: "is' = ys @ x # zs" and t: "P ys t"
    have x: "is' ! length ys = x" "length ys < length is'"
      by (simp_all add: split)
    have "ai_name x \<notin> fst ` inst_of is' ps ` {0..<length ys}"
      using assms(1) by (auto simp: split inst_of_def nth_append image_iff)
    moreover have "map_of (loaded_types ts) (ai_type x) = Some (map port_of (ps (length ys)))"
      using assms(2) [OF x(2)] by (intro map_of_loaded) (simp add: x)
    ultimately show "\<exists>t'. load_inst (loaded_types ts) x t = Inr t' \<and> P (ys @ [x]) t'"
      using t add_vertex_set [of "ls_graph t"]
      by (simp add: P_def load_inst_def find_or_assert_def add_vertex_def actor_vertex_def inst_of_def x)
  qed (simp add: P_def sng_empty_def)
  then show ?thesis
    by (simp add: P_def)
qed

section \<open>Channels\<close>

text \<open>What a reference can find: for an actor name its vertex and its ports.\<close>

definition known :: "load_state \<Rightarrow> string \<Rightarrow> (nat \<times> actor_ports) option" where
  "known st a = map_option (\<lambda>i. (an_vd i, an_ports i)) (map_of (ls_insts st) a)"

definition resolves :: "(string \<Rightarrow> (nat \<times> actor_ports) option) \<Rightarrow> direction \<Rightarrow> port_ref \<Rightarrow> bool" where
  "resolves A dir r \<longleftrightarrow> (\<exists>vd ps. A (pr_actor r) = Some (vd, ps) \<and> map_of ps (pr_port r) = Some dir)"

definition edge_of ::
  "(string \<Rightarrow> (nat \<times> actor_ports) option) \<Rightarrow> direction \<Rightarrow> nat \<Rightarrow> size_t \<Rightarrow> port_ref \<Rightarrow> nat \<times> nat \<times> edge_info" where
  "edge_of A dir c sz r = (let vd = fst (the (A (pr_actor r))); i = \<lparr>ei_name = pr_port r, ei_tokenSize = sz, ei_tokens = 1\<rparr>
     in if dir = DirOut then (vd, c, i) else (c, vd, i))"

lemma map_of_set_inst: "map_of (set_inst k x m) a = (if a = k \<and> map_of m a \<noteq> None then Some x else map_of m a)"
  by (induction m) (auto simp: set_inst_def)

lemma known_set_inst:
  "map_of (ls_insts st) k = Some i \<Longrightarrow> an_vd j = an_vd i \<Longrightarrow> an_ports j = an_ports i \<Longrightarrow>
   known \<lparr>ls_graph = g, ls_insts = set_inst k j (ls_insts st)\<rparr> = known st"
  by (auto simp: known_def map_of_set_inst fun_eq_iff)

lemma connect_ref_ok:
  assumes "resolves (known st) dir r"
  shows "\<exists>st'. connect_ref dir c sz (ref_of r) st = Inr st' \<and> known st' = known st
    \<and> ls_graph st' = (ls_graph st)\<lparr>sg_edges := sg_edges (ls_graph st) @ [edge_of (known st) dir c sz r]\<rparr>"
proof -
  obtain vd ps where A: "known st (pr_actor r) = Some (vd, ps)" "map_of ps (pr_port r) = Some dir"
    using assms by (auto simp: resolves_def)
  then obtain i where i: "map_of (ls_insts st) (pr_actor r) = Some i" "an_vd i = vd" "an_ports i = ps"
    by (auto simp: known_def)
  then show ?thesis
    using A known_set_inst [OF i(1)]
    by (simp add: connect_ref_def ref_of_def find_or_assert_def connectPort_def add_edge_def add_edge_set edge_of_def)
qed

lemma connect_refs_ok:
  assumes "\<forall>r \<in> set rs. resolves (known st) dir r"
  shows "\<exists>st'. rfold (connect_ref dir c sz) (map ref_of rs) st = Inr st' \<and> known st' = known st
    \<and> ls_graph st' = (ls_graph st)\<lparr>sg_edges := sg_edges (ls_graph st) @ map (edge_of (known st) dir c sz) rs\<rparr>"
  using assms
proof (induction rs arbitrary: st)
  case (Cons r rs)
  obtain st1 where s1: "connect_ref dir c sz (ref_of r) st = Inr st1" "known st1 = known st"
      "ls_graph st1 = (ls_graph st)\<lparr>sg_edges := sg_edges (ls_graph st) @ [edge_of (known st) dir c sz r]\<rparr>"
    using connect_ref_ok Cons.prems by (metis list.set_intros(1))
  obtain st2 where "rfold (connect_ref dir c sz) (map ref_of rs) st1 = Inr st2" "known st2 = known st1"
      "ls_graph st2 = (ls_graph st1)\<lparr>sg_edges := sg_edges (ls_graph st1) @ map (edge_of (known st1) dir c sz) rs\<rparr>"
    using Cons.IH [of st1] Cons.prems s1(2) by auto
  with s1 show ?case
    by simp
qed simp

text \<open>The token size that a loaded channel has.\<close>

definition stored_size :: "size_t \<Rightarrow> size_t" where
  "stored_size n = int_to_size (ucast n)"

lemma read_size [simp]: "rfold read_attr [token_size_attr n] w = Inr (ucast n)"
  by (simp add: read_attr_def token_size_attr_def)

definition chan_edges ::
  "(string \<Rightarrow> (nat \<times> actor_ports) option) \<Rightarrow> nat \<Rightarrow> size_t \<Rightarrow> port_ref list \<Rightarrow> port_ref list \<Rightarrow> (nat \<times> nat \<times> edge_info) list" where
  "chan_edges A c sz ws rs = map (edge_of A DirOut c sz) ws @ map (edge_of A DirIn c sz) rs"

lemma mk_ChanInstance_ok:
  assumes "\<forall>r \<in> set ws. resolves (known st) DirOut r" "\<forall>r \<in> set rs. resolves (known st) DirIn r"
  shows "\<exists>st'. mk_ChanInstance \<lparr>ce_name = n, ce_attrs = [token_size_attr t], ce_sources = map ref_of ws, ce_targets = map ref_of rs\<rparr> st
        = Inr (length (sg_verts (ls_graph st)), ucast t, st') \<and> known st' = known st
    \<and> ls_graph st' = \<lparr>sg_verts = sg_verts (ls_graph st) @ [mk_vertex_info\<lparr>vi_name := n\<rparr>],
        sg_edges = sg_edges (ls_graph st) @ chan_edges (known st) (length (sg_verts (ls_graph st))) (stored_size t) ws rs\<rparr>"
proof -
  define g where "g = ls_graph st"
  define st0 where "st0 = st\<lparr>ls_graph := g\<lparr>sg_verts := sg_verts g @ [mk_vertex_info\<lparr>vi_name := n\<rparr>]\<rparr>\<rparr>"
  have k0: "known st0 = known st"
    by (simp add: st0_def known_def fun_eq_iff)
  obtain st1 where s1: "rfold (connect_ref DirOut (length (sg_verts g)) (stored_size t)) (map ref_of ws) st0 = Inr st1"
      "known st1 = known st" "ls_graph st1 = (ls_graph st0)\<lparr>sg_edges :=
        sg_edges (ls_graph st0) @ map (edge_of (known st) DirOut (length (sg_verts g)) (stored_size t)) ws\<rparr>"
    using connect_refs_ok [of ws st0 DirOut] assms(1) unfolding k0 by blast
  obtain st2 where s2: "rfold (connect_ref DirIn (length (sg_verts g)) (stored_size t)) (map ref_of rs) st1 = Inr st2"
      "known st2 = known st" "ls_graph st2 = (ls_graph st1)\<lparr>sg_edges :=
        sg_edges (ls_graph st1) @ map (edge_of (known st) DirIn (length (sg_verts g)) (stored_size t)) rs\<rparr>"
    using connect_refs_ok [of rs st1 DirIn] assms(2) unfolding s1(2) by blast
  have "mk_ChanInstance \<lparr>ce_name = n, ce_attrs = [token_size_attr t], ce_sources = map ref_of ws, ce_targets = map ref_of rs\<rparr> st
      = Inr (length (sg_verts g), ucast t, st2)"
    using s1(1) s2(1)
    by (simp add: mk_ChanInstance_def add_vertex_def add_vertex_set g_def [symmetric] st0_def [symmetric]
        stored_size_def [symmetric] del: rfold.simps)
  moreover have "ls_graph st2 = \<lparr>sg_verts = sg_verts g @ [mk_vertex_info\<lparr>vi_name := n\<rparr>],
        sg_edges = sg_edges g @ chan_edges (known st) (length (sg_verts g)) (stored_size t) ws rs\<rparr>"
    by (simp add: s2(3) s1(3) st0_def chan_edges_def)
  ultimately show ?thesis
    using s2(2) by (simp add: g_def)
qed

fun vertex_of :: "chan_desc \<Rightarrow> vertex_info" where
  "vertex_of (FifoDesc n c d t ws rs) =
     \<lparr>vi_name = n, vi_type = FIFO, vi_size = stored_size t, vi_capacity = c, vi_delay = d\<rparr>"
| "vertex_of (RegDesc n t ws rs) =
     \<lparr>vi_name = n, vi_type = REGISTER, vi_size = stored_size t, vi_capacity = -1, vi_delay = -1\<rparr>"

fun desc_size :: "chan_desc \<Rightarrow> size_t" where
  "desc_size (FifoDesc n c d t ws rs) = t"
| "desc_size (RegDesc n t ws rs) = t"

fun desc_writers :: "chan_desc \<Rightarrow> port_ref list" where
  "desc_writers (FifoDesc n c d t ws rs) = ws"
| "desc_writers (RegDesc n t ws rs) = ws"

fun desc_readers :: "chan_desc \<Rightarrow> port_ref list" where
  "desc_readers (FifoDesc n c d t ws rs) = rs"
| "desc_readers (RegDesc n t ws rs) = rs"

text \<open>A loaded edge has the token size of its channel and the rate 1.\<close>

definition stored_ref :: "size_t \<Rightarrow> port_ref \<Rightarrow> port_ref" where
  "stored_ref t r = r\<lparr>pr_size := t, pr_rate := 1\<rparr>"

fun stored :: "chan_desc \<Rightarrow> chan_desc" where
  "stored (FifoDesc n c d t ws rs) =
     FifoDesc n c d (stored_size t) (map (stored_ref (stored_size t)) ws) (map (stored_ref (stored_size t)) rs)"
| "stored (RegDesc n t ws rs) =
     RegDesc n (stored_size t) (map (stored_ref (stored_size t)) ws) (map (stored_ref (stored_size t)) rs)"

definition add_desc :: "(string \<Rightarrow> (nat \<times> actor_ports) option) \<Rightarrow> chan_desc \<Rightarrow> sng \<Rightarrow> sng" where
  "add_desc A d g = \<lparr>sg_verts = sg_verts g @ [vertex_of d],
     sg_edges = sg_edges g @ chan_edges A (length (sg_verts g)) (stored_size (desc_size d)) (desc_writers d) (desc_readers d)\<rparr>"

definition desc_resolves :: "(string \<Rightarrow> (nat \<times> actor_ports) option) \<Rightarrow> chan_desc \<Rightarrow> bool" where
  "desc_resolves A d \<longleftrightarrow> (\<forall>r \<in> set (desc_writers d). resolves A DirOut r) \<and> (\<forall>r \<in> set (desc_readers d). resolves A DirIn r)"

definition load_desc :: "chan_desc \<Rightarrow> load_state \<Rightarrow> load_state result" where
  "load_desc d st = (case node_of d of FifoNode f \<Rightarrow> mk_FifoInstance f st | RegisterNode r \<Rightarrow> mk_RegisterInstance r st)"

lemma truncate_fifo [simp]:
  "chan_elem.truncate \<lparr>ce_name = n, ce_attrs = as, ce_sources = ws, ce_targets = rs, fe_size = c, fe_initial = d\<rparr>
     = \<lparr>ce_name = n, ce_attrs = as, ce_sources = ws, ce_targets = rs\<rparr>"
  by (simp add: chan_elem.truncate_def)

lemma set_last_vertex:
  "set_vinfo (length vs) i \<lparr>sg_verts = vs @ [j], sg_edges = es\<rparr> = \<lparr>sg_verts = vs @ [i], sg_edges = es\<rparr>"
  "vinfo \<lparr>sg_verts = vs @ [j], sg_edges = es\<rparr> (length vs) = j"
  by (simp_all add: set_vinfo_def vinfo_def)

lemma known_graph [simp]: "known (st\<lparr>ls_graph := g\<rparr>) = known st"
  by (simp add: known_def fun_eq_iff)

lemma load_desc_ok:
  assumes "desc_resolves (known st) d"
  shows "\<exists>st'. load_desc d st = Inr st' \<and> known st' = known st \<and> ls_graph st' = add_desc (known st) d (ls_graph st)"
proof -
  obtain st' where s: "mk_ChanInstance \<lparr>ce_name = vi_name (vertex_of d), ce_attrs = [token_size_attr (desc_size d)],
        ce_sources = map ref_of (desc_writers d), ce_targets = map ref_of (desc_readers d)\<rparr> st
      = Inr (length (sg_verts (ls_graph st)), ucast (desc_size d), st')" "known st' = known st"
    "ls_graph st' = \<lparr>sg_verts = sg_verts (ls_graph st) @ [mk_vertex_info\<lparr>vi_name := vi_name (vertex_of d)\<rparr>],
        sg_edges = sg_edges (ls_graph st) @ chan_edges (known st) (length (sg_verts (ls_graph st)))
          (stored_size (desc_size d)) (desc_writers d) (desc_readers d)\<rparr>"
    using mk_ChanInstance_ok [of "desc_writers d" st "desc_readers d"] assms unfolding desc_resolves_def by blast
  show ?thesis
    using s by (cases d) (simp_all add: load_desc_def mk_FifoInstance_def mk_RegisterInstance_def add_desc_def
        set_last_vertex mk_vertex_info_def stored_size_def)
qed

section \<open>Channels only add to the network\<close>

text \<open>Every known actor is a vertex of the graph under its name.\<close>

definition actors_known :: "(string \<Rightarrow> (nat \<times> actor_ports) option) \<Rightarrow> sng \<Rightarrow> bool" where
  "actors_known A g \<longleftrightarrow> (\<forall>a vd ps. A a = Some (vd, ps) \<longrightarrow>
     vd < length (sg_verts g) \<and> vi_name (vinfo g vd) = a \<and> vi_type (vinfo g vd) = ACTOR)"

lemma vinfo_add_desc_old [simp]: "v < length (sg_verts g) \<Longrightarrow> vinfo (add_desc A d g) v = vinfo g v"
  by (simp add: vinfo_def add_desc_def nth_append)

lemma vinfo_add_desc_new [simp]: "vinfo (add_desc A d g) (length (sg_verts g)) = vertex_of d"
  by (simp add: vinfo_def add_desc_def)

lemma actors_known_add: "actors_known A g \<Longrightarrow> actors_known A (add_desc A d g)"
  unfolding actors_known_def by (metis vinfo_add_desc_old add_desc_def length_append_singleton less_SucI sng.select_convs(1))

lemma of_type_add: "of_type (add_desc A d g) t = of_type g t @ (if vi_type (vertex_of d) = t then [length (sg_verts g)] else [])"
proof -
  have "vertices (add_desc A d g) = vertices g @ [length (sg_verts g)]"
    by (simp add: vertices_def add_desc_def)
  moreover have "filter (\<lambda>v. vi_type (vinfo (add_desc A d g) v) = t) (vertices g) = of_type g t"
    unfolding of_type_def by (rule filter_cong) (simp_all add: vertices_def)
  ultimately show ?thesis
    by (simp add: of_type_def)
qed

lemma actors_knownD:
  "actors_known A g \<Longrightarrow> resolves A dir r \<Longrightarrow> fst (the (A (pr_actor r))) < length (sg_verts g)
     \<and> vi_name (sg_verts g ! fst (the (A (pr_actor r)))) = pr_actor r \<and> vi_type (vinfo g (fst (the (A (pr_actor r))))) = ACTOR"
proof -
  assume A: "actors_known A g" and "resolves A dir r"
  then obtain vd ps where "A (pr_actor r) = Some (vd, ps)"
    by (auto simp: resolves_def)
  moreover from this A have "vd < length (sg_verts g) \<and> vi_name (vinfo g vd) = pr_actor r \<and> vi_type (vinfo g vd) = ACTOR"
    unfolding actors_known_def by blast
  ultimately show ?thesis
    by (simp add: vinfo_def)
qed

lemma filter_all: "(\<And>x. x \<in> set xs \<Longrightarrow> P x) \<Longrightarrow> filter P xs = xs"
  and filter_none: "(\<And>x. x \<in> set xs \<Longrightarrow> \<not> P x) \<Longrightarrow> filter P xs = []"
  by (simp_all add: filter_id_conv filter_empty_conv)

text \<open>An edge list that avoids vertex \<open>v\<close> on one side, or has it there alone.\<close>

lemma chan_edges_sides:
  assumes "actors_known A g" "desc_resolves A d"
    and c_def: "c = length (sg_verts g)" and es_def: "es = chan_edges A c s (desc_writers d) (desc_readers d)"
  shows "filter (\<lambda>(u, w, i). w = c) es = map (edge_of A DirOut c s) (desc_writers d)"
    and "filter (\<lambda>(u, w, i). u = c) es = map (edge_of A DirIn c s) (desc_readers d)"
    and "v < c \<Longrightarrow> vi_type (vinfo g v) \<noteq> ACTOR \<Longrightarrow> filter (\<lambda>(u, w, i). w = v) es = []"
    and "v < c \<Longrightarrow> vi_type (vinfo g v) \<noteq> ACTOR \<Longrightarrow> filter (\<lambda>(u, w, i). u = v) es = []"
proof -
  have a: "fst (the (A (pr_actor r))) < c \<and> vi_type (vinfo g (fst (the (A (pr_actor r))))) = ACTOR"
    if "r \<in> set (desc_writers d) \<or> r \<in> set (desc_readers d)" for r
    using that assms(2) actors_knownD [OF assms(1)] unfolding c_def desc_resolves_def by blast
  show "filter (\<lambda>(u, w, i). w = c) es = map (edge_of A DirOut c s) (desc_writers d)"
    unfolding es_def chan_edges_def filter_append
    using a by (subst filter_all) (fastforce simp: edge_of_def Let_def filter_empty_conv)+
  show "filter (\<lambda>(u, w, i). u = c) es = map (edge_of A DirIn c s) (desc_readers d)"
    unfolding es_def chan_edges_def filter_append
    using a by (subst (2) filter_all) (fastforce simp: edge_of_def Let_def filter_empty_conv)+
  show "filter (\<lambda>(u, w, i). w = v) es = []" if "v < c" "vi_type (vinfo g v) \<noteq> ACTOR"
    using that a unfolding es_def chan_edges_def
    by (intro filter_none) (auto simp: edge_of_def Let_def)
  show "filter (\<lambda>(u, w, i). u = v) es = []" if "v < c" "vi_type (vinfo g v) \<noteq> ACTOR"
    using that a unfolding es_def chan_edges_def
    by (intro filter_none) (auto simp: edge_of_def Let_def)
qed

lemma describe_add_old:
  assumes "actors_known A g" "desc_resolves A d" "sng_wf g" "v < length (sg_verts g)" "vi_type (vinfo g v) \<noteq> ACTOR"
  shows "describe (add_desc A d g) v = describe g v"
proof -
  have es: "sg_verts (add_desc A d g) ! u = sg_verts g ! u \<and> sg_verts (add_desc A d g) ! w = sg_verts g ! w"
    if "(u, w, i) \<in> set (sg_edges g)" for u w i
    using that assms(3) by (auto simp: sng_wf_def add_desc_def nth_append)
  have "writers (add_desc A d g) v = writers g v" "readers (add_desc A d g) v = readers g v"
    using chan_edges_sides(3,4) [OF assms(1,2) refl refl assms(4,5)] es
    by (auto simp: writers_edges readers_edges add_desc_def)
  then show ?thesis
    using assms(4) by (simp add: describe_def cong: vtype.case_cong)
qed

lemma describe_add_new:
  assumes "actors_known A g" "desc_resolves A d" "sng_wf g"
  shows "describe (add_desc A d g) (length (sg_verts g)) = stored d"
proof -
  have none: "filter (\<lambda>(u, w, i). w = length (sg_verts g)) (sg_edges g) = []"
      "filter (\<lambda>(u, w, i). u = length (sg_verts g)) (sg_edges g) = []"
    using assms(3) by (auto simp: filter_empty_conv sng_wf_def)
  have r: "sg_verts (add_desc A d g) ! fst (the (A (pr_actor r))) = sg_verts g ! fst (the (A (pr_actor r)))
      \<and> vi_name (sg_verts g ! fst (the (A (pr_actor r)))) = pr_actor r" if "resolves A dir r" for dir r
    using actors_knownD [OF assms(1) that] by (simp add: add_desc_def nth_append)
  have "writers (add_desc A d g) (length (sg_verts g)) = map (stored_ref (stored_size (desc_size d))) (desc_writers d)"
       "readers (add_desc A d g) (length (sg_verts g)) = map (stored_ref (stored_size (desc_size d))) (desc_readers d)"
    using chan_edges_sides(1,2) [OF assms(1,2) refl refl] none r assms(2)
    by (auto simp: writers_edges readers_edges add_desc_def desc_resolves_def edge_of_def Let_def edge_ref_def stored_ref_def)
  then show ?thesis
    by (cases d) (simp_all add: describe_def)
qed

abbreviation is_fifo :: "chan_desc \<Rightarrow> bool" where
  "is_fifo d \<equiv> vi_type (vertex_of d) = FIFO"

lemma vertex_of_type: "vi_type (vertex_of d) = (if is_fifo d then FIFO else REGISTER)"
  by (cases d) simp_all

lemma net_of_add:
  assumes "actors_known A g" "desc_resolves A d" "sng_wf g"
  shows "net_of (add_desc A d g) = (net_of g)\<lparr>nt_fifos := nt_fifos (net_of g) @ (if is_fifo d then [stored d] else []),
    nt_regs := nt_regs (net_of g) @ (if is_fifo d then [] else [stored d])\<rparr>"
proof -
  have old: "map (describe (add_desc A d g)) (of_type g t) = map (describe g) (of_type g t)" if "t \<noteq> ACTOR" for t
    using that describe_add_old [OF assms] by (auto simp: of_type_def vertices_def)
  have names: "map (\<lambda>v. (vi_name (vinfo (add_desc A d g) v), vi_size (vinfo (add_desc A d g) v))) (of_type g ACTOR)
      = map (\<lambda>v. (vi_name (vinfo g v), vi_size (vinfo g v))) (of_type g ACTOR)"
    by (auto simp: of_type_def vertices_def)
  show ?thesis
    using vertex_of_type [of d]
    by (cases "is_fifo d") (simp_all add: net_of_def of_type_add old names describe_add_new [OF assms])
qed

lemma sng_wf_add:
  assumes "actors_known A g" "desc_resolves A d" "sng_wf g"
  shows "sng_wf (add_desc A d g)"
proof -
  have "fst (the (A (pr_actor r))) < Suc (length (sg_verts g))"
    if "r \<in> set (desc_writers d) \<or> r \<in> set (desc_readers d)" for r
    using that assms(2) actors_knownD [OF assms(1)] unfolding desc_resolves_def by (metis less_SucI)
  then show ?thesis
    using assms(3) by (fastforce simp: sng_wf_def add_desc_def chan_edges_def edge_of_def Let_def)
qed

lemma load_descs_ok:
  assumes "actors_known (known st) (ls_graph st)" "sng_wf (ls_graph st)" "\<forall>d \<in> set ds. desc_resolves (known st) d"
  shows "\<exists>st'. rfold load_desc ds st = Inr st' \<and> known st' = known st
    \<and> actors_known (known st) (ls_graph st') \<and> sng_wf (ls_graph st')
    \<and> net_of (ls_graph st') = (net_of (ls_graph st))
       \<lparr>nt_fifos := nt_fifos (net_of (ls_graph st)) @ map stored (filter is_fifo ds),
        nt_regs := nt_regs (net_of (ls_graph st)) @ map stored (filter (\<lambda>d. \<not> is_fifo d) ds)\<rparr>"
  using assms
proof (induction ds arbitrary: st)
  case (Cons d ds)
  obtain st1 where s1: "load_desc d st = Inr st1" "known st1 = known st" "ls_graph st1 = add_desc (known st) d (ls_graph st)"
    using load_desc_ok [of st d] Cons.prems(3) by auto
  have g1: "actors_known (known st1) (ls_graph st1)" "sng_wf (ls_graph st1)"
    using Cons.prems by (simp_all add: s1 actors_known_add sng_wf_add)
  obtain st2 where s2: "rfold load_desc ds st1 = Inr st2" "known st2 = known st1"
    "actors_known (known st1) (ls_graph st2)" "sng_wf (ls_graph st2)"
    "net_of (ls_graph st2) = (net_of (ls_graph st1))
       \<lparr>nt_fifos := nt_fifos (net_of (ls_graph st1)) @ map stored (filter is_fifo ds),
        nt_regs := nt_regs (net_of (ls_graph st1)) @ map stored (filter (\<lambda>d. \<not> is_fifo d) ds)\<rparr>"
    using Cons.IH [OF g1] Cons.prems(3) s1(2) by auto
  have "net_of (ls_graph st1) = (net_of (ls_graph st))
      \<lparr>nt_fifos := nt_fifos (net_of (ls_graph st)) @ (if is_fifo d then [stored d] else []),
       nt_regs := nt_regs (net_of (ls_graph st)) @ (if is_fifo d then [] else [stored d])\<rparr>"
    unfolding s1(3) using Cons.prems by (intro net_of_add) auto
  with s1 s2 show ?case
    by simp
qed simp

lemma fifo_nodes_load:
  "rfold mk_FifoInstance (fifo_nodes (map node_of ds)) st = rfold load_desc (filter is_fifo ds) st"
proof (induction ds arbitrary: st)
  case (Cons d ds)
  then show ?case
    by (cases d) (auto simp: load_desc_def fun_eq_iff intro: rbind_cong)
qed simp

lemma register_nodes_load:
  "rfold mk_RegisterInstance (register_nodes (map node_of ds)) st = rfold load_desc (filter (\<lambda>d. \<not> is_fifo d) ds) st"
proof (induction ds arbitrary: st)
  case (Cons d ds)
  then show ?case
    by (cases d) (auto simp: load_desc_def fun_eq_iff intro: rbind_cong)
qed simp

section \<open>Saving and loading\<close>

text \<open>
  The graphs that can be saved and found again: edges join an actor and a channel, actors have distinct
  names, the ports of an actor have distinct names, and no port name holds a bracket (the schema allows
  letters, digits, underscores and dots).
\<close>

definition savable :: "sng \<Rightarrow> bool" where
  "savable g \<longleftrightarrow> sng_wf g \<and> names_plain g
   \<and> list_all (\<lambda>(u, v, i). (vi_type (vinfo g u) = ACTOR) \<noteq> (vi_type (vinfo g v) = ACTOR)) (sg_edges g)
   \<and> distinct (map (\<lambda>v. vi_name (vinfo g v)) (of_type g ACTOR))
   \<and> list_all (\<lambda>v. distinct (map pe_name (save_ports g v))) (of_type g ACTOR)"

lemma writers_ref:
  assumes "savable g" "vi_type (vinfo g v) \<noteq> ACTOR" "r \<in> set (writers g v)"
  shows "\<exists>u \<in> set (of_type g ACTOR). vi_name (vinfo g u) = pr_actor r \<and> (pr_port r, DirOut) \<in> set (map port_of (save_ports g u))"
proof -
  obtain e where e: "e < length (sg_edges g)" "etgt g e = v" "r = edge_ref (vinfo g (esrc g e)) (einfo g e)"
    using assms(3) by (auto simp: writers_def in_edges_def)
  obtain u w i where uw: "sg_edges g ! e = (u, w, i)"
    by (cases "sg_edges g ! e")
  then have "(u, w, i) \<in> set (sg_edges g)"
    using e(1) nth_mem by metis
  then have "u < length (sg_verts g)" "vi_type (vinfo g u) = ACTOR"
    using assms(1,2) e(2) uw by (auto simp: savable_def sng_wf_def list_all_iff etgt_def)
  moreover have "e \<in> set (out_edges g u)"
    using e(1) uw by (simp add: out_edges_def esrc_def)
  ultimately show ?thesis
    using uw e(3) by (intro bexI [of _ u]) (auto simp: of_type_def vertices_def save_ports_def port_of_def edge_ref_def esrc_def image_iff)
qed

lemma readers_ref:
  assumes "savable g" "vi_type (vinfo g v) \<noteq> ACTOR" "r \<in> set (readers g v)"
  shows "\<exists>u \<in> set (of_type g ACTOR). vi_name (vinfo g u) = pr_actor r \<and> (pr_port r, DirIn) \<in> set (map port_of (save_ports g u))"
proof -
  obtain e where e: "e < length (sg_edges g)" "esrc g e = v" "r = edge_ref (vinfo g (etgt g e)) (einfo g e)"
    using assms(3) by (auto simp: readers_def out_edges_def)
  obtain u w i where uw: "sg_edges g ! e = (u, w, i)"
    by (cases "sg_edges g ! e")
  then have "(u, w, i) \<in> set (sg_edges g)"
    using e(1) nth_mem by metis
  then have "w < length (sg_verts g)" "vi_type (vinfo g w) = ACTOR"
    using assms(1,2) e(2) uw by (auto simp: savable_def sng_wf_def list_all_iff esrc_def)
  moreover have "e \<in> set (in_edges g w)"
    using e(1) uw by (simp add: in_edges_def etgt_def)
  ultimately show ?thesis
    using uw e(3) by (intro bexI [of _ w]) (auto simp: of_type_def vertices_def save_ports_def port_of_def edge_ref_def etgt_def image_iff)
qed

lemma saved_descs_refs:
  assumes "d \<in> set (concat (map (saved_descs g) vs))"
  obtains v where "vi_type (vinfo g v) \<noteq> ACTOR" "set (desc_writers d) = set (writers g v)" "set (desc_readers d) \<subseteq> set (readers g v)"
proof -
  obtain v where v: "vi_type (vinfo g v) \<noteq> ACTOR" "d \<in> set (split_readers (describe g v))"
    using assms by (auto simp: saved_descs_def split: if_splits)
  then show thesis
    by (intro that [of v]) (auto simp: describe_def Let_def split: vtype.splits)
qed

text \<open>The state of the loader after the actors of a document.\<close>

definition actors_state :: "actor_inst_elem list \<Rightarrow> (nat \<Rightarrow> port_elem list) \<Rightarrow> load_state" where
  "actors_state is' ps = \<lparr>ls_graph = \<lparr>sg_verts = map (\<lambda>i. actor_vertex (ai_name i)) is', sg_edges = []\<rparr>,
     ls_insts = map (inst_of is' ps) [0..<length is']\<rparr>"

lemma actors_state_known:
  assumes "distinct (map ai_name is')" "k < length is'"
  shows "known (actors_state is' ps) (ai_name (is' ! k)) = Some (k, map port_of (ps k))"
proof -
  have keys: "map fst (map (inst_of is' ps) [0..<length is']) = map ai_name is'"
    by (rule nth_equalityI) (simp_all add: inst_of_def)
  have "map_of (map (inst_of is' ps) [0..<length is']) (ai_name (is' ! k)) = Some (snd (inst_of is' ps k))"
    using assms(2) by (intro map_of_is_SomeI) (simp_all only: keys assms(1), auto simp: inst_of_def image_iff)
  then show ?thesis
    by (simp add: known_def actors_state_def inst_of_def)
qed

lemma actors_state_actors: "actors_known (known (actors_state is' ps)) (ls_graph (actors_state is' ps))"
proof -
  have "vd < length is' \<and> ai_name (is' ! vd) = a" if kn: "known (actors_state is' ps) a = Some (vd, qs)" for a vd qs
  proof -
    obtain i where "(a, i) \<in> set (map (inst_of is' ps) [0..<length is'])" "an_vd i = vd"
      using kn by (auto simp: known_def actors_state_def dest: map_of_SomeD)
    then show ?thesis
      by (auto simp: inst_of_def)
  qed
  then show ?thesis
    by (auto simp: actors_known_def vinfo_def actors_state_def actor_vertex_def)
qed

lemma actors_state_net:
  "net_of (ls_graph (actors_state is' ps)) = \<lparr>nt_actors = map (\<lambda>i. (ai_name i, -1)) is', nt_fifos = [], nt_regs = []\<rparr>"
proof -
  have "of_type (ls_graph (actors_state is' ps)) t = (if t = ACTOR then [0..<length is'] else [])" for t
    by (simp add: of_type_def vertices_def actors_state_def vinfo_def actor_vertex_def filter_id_conv filter_empty_conv)
  moreover have "map (\<lambda>v. (vi_name (vinfo (ls_graph (actors_state is' ps)) v), vi_size (vinfo (ls_graph (actors_state is' ps)) v)))
      [0..<length is'] = map (\<lambda>i. (ai_name i, -1)) is'"
    by (rule nth_equalityI) (simp_all add: actors_state_def vinfo_def actor_vertex_def mk_vertex_info_def)
  ultimately show ?thesis
    by (simp add: net_of_def)
qed

lemma saved_insts:
  assumes "saved_so_far g (vertices g) ctx"
  shows "map ai_name (sc_insts ctx) = map (\<lambda>v. vi_name (vinfo g v)) (of_type g ACTOR)"
    and "k < length (of_type g ACTOR) \<Longrightarrow>
      ports_by_type (sc_types ctx) (ai_type (sc_insts ctx ! k)) = Some (save_ports g (of_type g ACTOR ! k))"
proof -
  have l: "list_all2 (\<lambda>i v. ai_name i = vi_name (vinfo g v) \<and> ports_by_type (sc_types ctx) (ai_type i) = Some (save_ports g v))
      (sc_insts ctx) (of_type g ACTOR)"
    using assms by (simp add: saved_so_far_def of_type_def actors_in_def)
  show "map ai_name (sc_insts ctx) = map (\<lambda>v. vi_name (vinfo g v)) (of_type g ACTOR)"
    using list_all2_lengthD [OF l] list_all2_nthD [OF l] by (intro nth_equalityI) simp_all
  show "ports_by_type (sc_types ctx) (ai_type (sc_insts ctx ! k)) = Some (save_ports g (of_type g ACTOR ! k))"
    if "k < length (of_type g ACTOR)"
    using list_all2_nthD2 [OF l that] by simp
qed

lemma saved_types_good:
  assumes "savable g" "saved_so_far g (vertices g) ctx"
  shows "rfold load_type (sc_types ctx) [] = Inr (loaded_types (sc_types ctx))"
proof (rule load_types_ok)
  show "distinct (map at_name (sc_types ctx))"
    using assms(2) by (simp add: saved_so_far_def)
  show "\<forall>t \<in> set (sc_types ctx). good_ports (at_ports t)"
  proof
    fix t
    assume "t \<in> set (sc_types ctx)"
    then obtain v where "v \<in> set (of_type g ACTOR)" "at_ports t = save_ports g v"
      using assms(2) unfolding saved_so_far_def of_type_def actors_in_def by blast
    then show "good_ports (at_ports t)"
      using assms(1) save_ports_plain [of g v] by (simp add: good_ports_def savable_def list_all_iff)
  qed
qed

lemma load_actors_ok:
  assumes g: "savable g" and s: "saved_so_far g (vertices g) ctx"
  defines "st \<equiv> actors_state (sc_insts ctx) (\<lambda>k. save_ports g (of_type g ACTOR ! k))"
  shows "rfold (load_inst (loaded_types (sc_types ctx))) (sc_insts ctx) \<lparr>ls_graph = sng_empty, ls_insts = []\<rparr> = Inr st"
    and "net_of (ls_graph st) = \<lparr>nt_actors = map (\<lambda>(a, n). (a, -1)) (nt_actors (net_of g)), nt_fifos = [], nt_regs = []\<rparr>"
    and "u \<in> set (of_type g ACTOR) \<Longrightarrow> \<exists>vd. known st (vi_name (vinfo g u)) = Some (vd, map port_of (save_ports g u))"
proof -
  note names = saved_insts(1) [OF s]
  have dist: "distinct (map ai_name (sc_insts ctx))"
    using g by (simp add: names savable_def)
  have len: "length (sc_insts ctx) = length (of_type g ACTOR)"
    using arg_cong [OF names, of length] by simp
  show "rfold (load_inst (loaded_types (sc_types ctx))) (sc_insts ctx) \<lparr>ls_graph = sng_empty, ls_insts = []\<rparr> = Inr st"
    unfolding st_def actors_state_def using saved_insts(2) [OF s] len by (intro load_insts_ok [OF dist]) simp_all
  have "map (\<lambda>i. (ai_name i, -1 :: size_t)) (sc_insts ctx) = map (\<lambda>(a, n). (a, -1)) (nt_actors (net_of g))"
    using arg_cong [OF names, of "map (\<lambda>a. (a, -1 :: size_t))"] by (simp add: net_of_def o_def)
  then show "net_of (ls_graph st) = \<lparr>nt_actors = map (\<lambda>(a, n). (a, -1)) (nt_actors (net_of g)), nt_fifos = [], nt_regs = []\<rparr>"
    by (simp add: st_def actors_state_net)
  show "\<exists>vd. known st (vi_name (vinfo g u)) = Some (vd, map port_of (save_ports g u))" if u: "u \<in> set (of_type g ACTOR)"
  proof -
    obtain k where k: "k < length (of_type g ACTOR)" "of_type g ACTOR ! k = u"
      using u by (auto simp: in_set_conv_nth)
    then have "ai_name (sc_insts ctx ! k) = vi_name (vinfo g u)"
      using len arg_cong [OF names, of "\<lambda>xs. xs ! k"] by simp
    then show ?thesis
      using actors_state_known [OF dist, of k "\<lambda>k. save_ports g (of_type g ACTOR ! k)"] k len by (simp add: st_def)
  qed
qed

lemma saved_descs_resolve:
  assumes g: "savable g" and d: "d \<in> set (concat (map (saved_descs g) vs))"
    and known: "\<And>u. u \<in> set (of_type g ACTOR) \<Longrightarrow> \<exists>vd. A (vi_name (vinfo g u)) = Some (vd, map port_of (save_ports g u))"
  shows "desc_resolves A d"
proof -
  have ports: "map_of (map port_of (save_ports g u)) p = Some dir"
    if "u \<in> set (of_type g ACTOR)" "(p, dir) \<in> set (map port_of (save_ports g u))" for u p dir
    using g that by (intro map_of_is_SomeI) (simp_all add: savable_def list_all_iff port_of_def o_def)
  have res: "resolves A dir r"
    if "\<exists>u \<in> set (of_type g ACTOR). vi_name (vinfo g u) = pr_actor r \<and> (pr_port r, dir) \<in> set (map port_of (save_ports g u))" for dir r
    using that known ports unfolding resolves_def by metis
  obtain v where v: "vi_type (vinfo g v) \<noteq> ACTOR"
      "set (desc_writers d) = set (writers g v)" "set (desc_readers d) \<subseteq> set (readers g v)"
    using saved_descs_refs [OF d] .
  then show ?thesis
    unfolding desc_resolves_def using writers_ref [OF g v(1)] readers_ref [OF g v(1)] res by blast
qed

lemma saved_fifos: "filter is_fifo (concat (map (saved_descs g) vs))
   = concat (map split_readers (map (describe g) (filter (\<lambda>v. vi_type (vinfo g v) = FIFO) vs)))"
proof (induction vs)
  case (Cons v vs)
  then show ?case
    by (cases "vi_type (vinfo g v)") (auto simp: saved_descs_def describe_def Let_def filter_all filter_none)
qed simp

lemma saved_regs: "filter (\<lambda>d. \<not> is_fifo d) (concat (map (saved_descs g) vs))
   = map (describe g) (filter (\<lambda>v. vi_type (vinfo g v) = REGISTER) vs)"
proof (induction vs)
  case (Cons v vs)
  then show ?case
    by (cases "vi_type (vinfo g v)") (auto simp: saved_descs_def describe_def Let_def filter_all filter_none)
qed simp

text \<open>What comes back of a network.\<close>

definition reloaded :: "net \<Rightarrow> net" where
  "reloaded n = \<lparr>nt_actors = map (\<lambda>(a, k). (a, -1)) (nt_actors n),
     nt_fifos = map stored (concat (map split_readers (nt_fifos n))), nt_regs = map stored (nt_regs n)\<rparr>"

lemma load_saved:
  assumes g: "savable g" and s: "saved_so_far g (vertices g) ctx"
  shows "\<exists>g'. load_document \<lparr>doc_types = sc_types ctx, doc_insts = sc_insts ctx, doc_chans = sc_conns ctx\<rparr> = Inr g'
    \<and> net_of g' = reloaded (net_of g)"
proof -
  define st where "st = actors_state (sc_insts ctx) (\<lambda>k. save_ports g (of_type g ACTOR ! k))"
  define ds where "ds = concat (map (saved_descs g) (vertices g))"
  note actors = load_actors_ok [OF g s, folded st_def]
  have conns: "sc_conns ctx = map node_of ds"
    using s by (simp add: saved_so_far_def ds_def)
  have res: "desc_resolves (known st) d" if "d \<in> set ds" for d
    using saved_descs_resolve [OF g that [unfolded ds_def]] actors(3) by blast
  have ak: "actors_known (known st) (ls_graph st)" and wf: "sng_wf (ls_graph st)"
    by (simp_all add: st_def actors_state_actors sng_wf_def) (simp add: actors_state_def)
  obtain st1 where s1: "rfold mk_FifoInstance (fifo_nodes (sc_conns ctx)) st = Inr st1" "known st1 = known st"
    "actors_known (known st) (ls_graph st1)" "sng_wf (ls_graph st1)"
    "net_of (ls_graph st1) = (net_of (ls_graph st))\<lparr>nt_fifos := map stored (filter is_fifo ds)\<rparr>"
    using load_descs_ok [OF ak wf, of "filter is_fifo ds"] res
    by (auto simp: conns fifo_nodes_load actors(2))
  obtain st2 where s2: "rfold mk_RegisterInstance (register_nodes (sc_conns ctx)) st1 = Inr st2"
    "net_of (ls_graph st2) = (net_of (ls_graph st1))\<lparr>nt_regs := map stored (filter (\<lambda>d. \<not> is_fifo d) ds)\<rparr>"
    using load_descs_ok [of st1 "filter (\<lambda>d. \<not> is_fifo d) ds"] res s1(2-5)
    by (auto simp: conns register_nodes_load actors(2))
  have "load_document \<lparr>doc_types = sc_types ctx, doc_insts = sc_insts ctx, doc_chans = sc_conns ctx\<rparr> = Inr (ls_graph st2)"
    by (simp add: load_document_def saved_types_good [OF g s] actors(1) s1(1) s2(1))
  moreover have "net_of (ls_graph st2) = reloaded (net_of g)"
    unfolding s2(2) s1(5) actors(2) ds_def saved_fifos saved_regs reloaded_def
    by (simp add: net_of_def of_type_def)
  ultimately show ?thesis
    by blast
qed

end
