(* ===== verification/SNG_Schema.thy ===== *)
theory SNG_Schema
  imports SNG_Reload
begin

text \<open>
  Which saved documents the schema \<^verbatim>\<open>sng.xsd\<close> allows: those of the graphs with an actor, with names that are
  identifiers, with a port at every actor, and with one writer and a capacity for every FIFO that is read.
\<close>

section \<open>Names of types\<close>

lemma toupper_alpha: "is_alpha c \<Longrightarrow> is_alpha (toupper c)"
  by (auto simp: is_alpha_def toupper_def of_char_of take_bit_nat_eq_self)

lemma toupper_digit: "is_digit c \<Longrightarrow> toupper c = c"
  by (auto simp: is_digit_def toupper_def)

lemma not_colon: "is_alpha c \<or> is_digit c \<Longrightarrow> c \<noteq> CHR '':''"
  by (auto simp: is_alpha_def is_digit_def)

lemma upper_rest: "is_alpha c \<or> is_digit c \<Longrightarrow> (is_alpha (toupper c) \<or> is_digit (toupper c)) \<and> toupper c \<noteq> CHR '':''"
  using toupper_alpha toupper_digit not_colon by metis

definition type_part :: "string \<Rightarrow> string" where
  "type_part p = concat (map (\<lambda>c. if c = CHR ''.'' then ''::'' else [toupper c]) p)"

lemma type_part_ident:
  "\<lbrakk>ident_from b (p @ r); p = [] \<and> b \<or> p \<noteq> [] \<and> last p = CHR ''.''\<rbrakk> \<Longrightarrow> type_ident_from b (type_part p @ ''A'')"
proof (induction p arbitrary: b)
  case Nil
  then show ?case
    by (simp add: type_part_def is_alpha_def)
next
  case (Cons c p)
  show ?case
  proof (cases "c = CHR ''.''")
    case True
    then have "\<not> b" "ident_from True (p @ r)" "p = [] \<or> last p = CHR ''.''"
      using Cons.prems by (auto simp: is_alpha_def split: if_splits)
    with Cons.IH [of True] True show ?thesis
      by (auto simp: type_part_def)
  next
    case False
    then have "p \<noteq> []" "last p = CHR ''.''" "ident_from False (p @ r)" "if b then is_alpha c else is_alpha c \<or> is_digit c"
      using Cons.prems by (auto split: if_splits)
    with Cons.IH [of False] False toupper_alpha [of c] upper_rest [of c] show ?thesis
      by (auto simp: type_part_def)
  qed
qed

lemma upto_last_dot_split: "\<exists>r. name = upto_last_dot name @ r"
proof -
  have "rev (takeWhile (\<lambda>c. c \<noteq> CHR ''.'') (rev name) @ dropWhile (\<lambda>c. c \<noteq> CHR ''.'') (rev name)) = name"
    by (simp only: takeWhile_dropWhile_id rev_rev_ident)
  then show ?thesis
    unfolding upto_last_dot_def by (metis rev_append)
qed

lemma upto_last_dot_ends: "upto_last_dot name \<noteq> [] \<Longrightarrow> last (upto_last_dot name) = CHR ''.''"
  using hd_dropWhile [of "\<lambda>c. c \<noteq> CHR ''.''" "rev name"] by (simp add: upto_last_dot_def last_rev)

lemma type_name_valid:
  assumes "is_identifier name"
  shows "is_type_identifier (type_name name)"
proof -
  obtain r where "name = upto_last_dot name @ r"
    using upto_last_dot_split by blast
  then have "ident_from True (upto_last_dot name @ r)"
    using assms by (simp add: is_identifier_def)
  then have "type_ident_from True (type_part (upto_last_dot name) @ ''A'')"
    using upto_last_dot_ends by (intro type_part_ident) auto
  then show ?thesis
    by (simp add: is_type_identifier_def type_name_def type_part_def)
qed

text \<open>The pool makes names of types from names of types.\<close>

definition keeps_type_names :: "(string list \<Rightarrow> string \<Rightarrow> string) \<Rightarrow> bool" where
  "keeps_type_names uniq \<longleftrightarrow> (\<forall>used s. is_type_identifier s \<longrightarrow> is_type_identifier (uniq used s))"

lemma save_actor_types: "sc_types (save_actor uniq g v ctx) = sc_types ctx @
   (if cached (sc_cache ctx) (actor_key g v) = []
    then [\<lparr>at_name = uniq (sc_pool ctx) (type_name (vi_name (vinfo g v))), at_ports = save_ports g v\<rparr>] else [])"
  by (simp add: save_actor_def Let_def)

lemma save_vertex_types: "save_vertex uniq g v ctx = Inr ctx' \<Longrightarrow>
   sc_types ctx' = (if vi_type (vinfo g v) = ACTOR then sc_types (save_actor uniq g v ctx) else sc_types ctx)"
  by (auto simp: save_vertex_def rassert_def split: vtype.splits if_splits)

lemma save_vertex_type_names:
  assumes "keeps_type_names uniq" "save_vertex uniq g v ctx = Inr ctx'"
    and "vi_type (vinfo g v) = ACTOR \<Longrightarrow> is_identifier (vi_name (vinfo g v))"
    and "\<forall>t \<in> set (sc_types ctx). is_type_identifier (at_name t)"
  shows "\<forall>t \<in> set (sc_types ctx'). is_type_identifier (at_name t)"
  using assms(1,3,4) type_name_valid unfolding save_vertex_types [OF assms(2)] save_actor_types keeps_type_names_def
  by auto

lemma save_type_names:
  assumes "keeps_type_names uniq" "rfold (save_vertex uniq g) vs ctx = Inr ctx'"
    and "\<And>v. v \<in> set vs \<Longrightarrow> vi_type (vinfo g v) = ACTOR \<Longrightarrow> is_identifier (vi_name (vinfo g v))"
    and "\<forall>t \<in> set (sc_types ctx). is_type_identifier (at_name t)"
  shows "\<forall>t \<in> set (sc_types ctx'). is_type_identifier (at_name t)"
  using assms(2-)
proof (induction vs arbitrary: ctx)
  case (Cons v vs)
  then obtain ctx1 where c: "save_vertex uniq g v ctx = Inr ctx1" "rfold (save_vertex uniq g) vs ctx1 = Inr ctx'"
    by (cases "save_vertex uniq g v ctx") auto
  have "\<forall>t \<in> set (sc_types ctx1). is_type_identifier (at_name t)"
    using save_vertex_type_names [OF assms(1) c(1)] Cons.prems(2,3) by simp
  with Cons.IH [OF c(2)] Cons.prems(2) show ?case
    by simp
qed simp

section \<open>Numbers\<close>

lemma digits_no_space: "list_all is_digit s \<Longrightarrow> dropWhile xml_space s = s"
  by (cases s) (auto simp: is_digit_def xml_space_def)

lemma xs_integer_dec [simp]: "xs_integer (dec w) = Some (int (unat w))"
proof -
  have d: "dec_value (dec w) = unat w" "list_all is_digit (dec w)" "dec w \<noteq> []"
    using dec_nat_props [of "unat w"] by (simp_all add: dec_def)
  then have "list_all is_digit (rev (dec w))"
    by (simp add: list_all_iff)
  moreover have "split_sign (dec w) = (False, dec w)"
    using d(2,3) by (cases "dec w") (auto simp: split_sign_def dest: not_digit_space_sign)
  ultimately show ?thesis
    using d by (simp add: xs_integer_def digits_no_space)
qed

lemma dec_valid [simp]: "positive_integer (dec w) \<longleftrightarrow> w \<noteq> 0" "non_negative_integer (dec w)"
  by (simp_all add: positive_integer_def non_negative_integer_def) (simp add: order_less_le uint_0_iff)

section \<open>Valid documents\<close>

definition actor_named :: "sng \<Rightarrow> nat \<Rightarrow> bool" where
  "actor_named g v \<longleftrightarrow> is_identifier (vi_name (vinfo g v)) \<and> save_ports g v \<noteq> []
   \<and> list_all (\<lambda>p. is_identifier (pe_name p)) (save_ports g v)"

definition fifo_allowed :: "sng \<Rightarrow> nat \<Rightarrow> bool" where
  "fifo_allowed g v \<longleftrightarrow> (out_edges g v \<noteq> [] \<longrightarrow> length (in_edges g v) = 1 \<and> vi_capacity (vinfo g v) \<noteq> 0)"

definition schema_ok :: "sng \<Rightarrow> bool" where
  "schema_ok g \<longleftrightarrow> of_type g ACTOR \<noteq> [] \<and> list_all (actor_named g) (of_type g ACTOR) \<and> list_all (fifo_allowed g) (of_type g FIFO)"

lemma save_ports_types: "p \<in> set (save_ports g v) \<Longrightarrow> pe_type p = ''in'' \<or> pe_type p = ''out''"
  by (auto simp: save_ports_def)

lemma refs_valid:
  assumes "savable g" "list_all (actor_named g) (of_type g ACTOR)" "vi_type (vinfo g v) \<noteq> ACTOR"
    and "r \<in> set (writers g v) \<or> r \<in> set (readers g v)"
  shows "ref_valid (ref_of r)"
proof -
  obtain u dir where u: "u \<in> set (of_type g ACTOR)" "vi_name (vinfo g u) = pr_actor r"
      "(pr_port r, dir) \<in> set (map port_of (save_ports g u))"
    using assms writers_ref readers_ref by metis
  then have "actor_named g u"
    using assms(2) by (simp add: list_all_iff)
  with u show ?thesis
    by (auto simp: actor_named_def ref_valid_def ref_of_def port_of_def list_all_iff)
qed

lemma chans_valid_iff:
  assumes "savable g" "list_all (actor_named g) (of_type g ACTOR)"
  shows "list_all chan_valid (map node_of (saved_descs g v)) \<longleftrightarrow> (vi_type (vinfo g v) = FIFO \<longrightarrow> fifo_allowed g v)"
proof -
  have refs: "\<forall>r \<in> set (writers g v) \<union> set (readers g v). ref_valid (ref_of r)" if "vi_type (vinfo g v) \<noteq> ACTOR"
    using refs_valid [OF assms that] by blast
  have len: "length (writers g v) = length (in_edges g v)" "readers g v = [] \<longleftrightarrow> out_edges g v = []"
    by (simp_all add: writers_def readers_def)
  show ?thesis
  proof (cases "vi_type (vinfo g v)")
    case FIFO
    then show ?thesis
      using refs len by (auto simp: saved_descs_def describe_def Let_def list_all_iff chan_valid_def fifo_valid_def
          fifo_allowed_def neq_Nil_conv)
  next
    case REGISTER
    then show ?thesis
      using refs by (simp add: saved_descs_def describe_def Let_def list_all_iff chan_valid_def register_valid_def)
  qed (simp add: saved_descs_def)
qed

lemma saved_types_iff:
  assumes s: "saved_so_far g (vertices g) ctx"
    and named: "list_all (\<lambda>v. is_identifier (vi_name (vinfo g v))) (of_type g ACTOR) \<Longrightarrow>
      \<forall>t \<in> set (sc_types ctx). is_type_identifier (at_name t)"
  shows "sc_types ctx \<noteq> [] \<and> list_all actor_type_valid (sc_types ctx) \<and> sc_insts ctx \<noteq> [] \<and> list_all actor_inst_valid (sc_insts ctx)
     \<longleftrightarrow> of_type g ACTOR \<noteq> [] \<and> list_all (actor_named g) (of_type g ACTOR)" (is "?doc \<longleftrightarrow> ?graph")
proof -
  have l: "list_all2 (\<lambda>i v. ai_name i = vi_name (vinfo g v) \<and> ports_by_type (sc_types ctx) (ai_type i) = Some (save_ports g v))
      (sc_insts ctx) (of_type g ACTOR)"
    using s by (simp add: saved_so_far_def of_type_def actors_in_def)
  have t: "\<exists>t \<in> set (sc_types ctx). at_name t = ai_type i \<and> at_ports t = save_ports g v"
    if "ports_by_type (sc_types ctx) (ai_type i) = Some (save_ports g v)" for i v
    using map_of_SomeD [OF that] by auto
  have inst: "\<exists>v \<in> set (of_type g ACTOR). ai_name i = vi_name (vinfo g v) \<and> (\<exists>t \<in> set (sc_types ctx). at_name t = ai_type i)"
    if "i \<in> set (sc_insts ctx)" for i
    using l that t by (fastforce simp: list_all2_conv_all_nth in_set_conv_nth)
  have actor: "\<exists>i \<in> set (sc_insts ctx). ai_name i = vi_name (vinfo g v) \<and> (\<exists>t \<in> set (sc_types ctx). at_ports t = save_ports g v)"
    if "v \<in> set (of_type g ACTOR)" for v
    using l that t by (fastforce simp: list_all2_conv_all_nth in_set_conv_nth)
  have type: "\<exists>v \<in> set (of_type g ACTOR). at_ports t = save_ports g v" if "t \<in> set (sc_types ctx)" for t
    using s that by (simp add: saved_so_far_def of_type_def actors_in_def)
  show ?thesis
  proof
    assume d: ?doc
    then show ?graph
      using inst actor by (fastforce simp: list_all_iff actor_type_valid_def actor_inst_valid_def port_valid_def actor_named_def)
  next
    assume g: ?graph
    then have n: "\<forall>t \<in> set (sc_types ctx). is_type_identifier (at_name t)"
      using named by (simp add: list_all_iff actor_named_def)
    have "actor_type_valid t" if "t \<in> set (sc_types ctx)" for t
      using type [OF that] g n that save_ports_types
      by (fastforce simp: actor_type_valid_def port_valid_def actor_named_def list_all_iff)
    moreover have "actor_inst_valid i" if "i \<in> set (sc_insts ctx)" for i
      using inst [OF that] g n by (fastforce simp: actor_inst_valid_def actor_named_def list_all_iff)
    moreover have "sc_insts ctx \<noteq> []" "sc_types ctx \<noteq> []"
      using g actor by (fastforce simp: neq_Nil_conv)+
    ultimately show ?doc
      by (simp add: list_all_iff)
  qed
qed

lemma saved_valid_iff:
  assumes "savable g" "saved_so_far g (vertices g) ctx"
    and "list_all (\<lambda>v. is_identifier (vi_name (vinfo g v))) (of_type g ACTOR) \<Longrightarrow>
      \<forall>t \<in> set (sc_types ctx). is_type_identifier (at_name t)"
  shows "schema_valid \<lparr>doc_types = sc_types ctx, doc_insts = sc_insts ctx, doc_chans = sc_conns ctx\<rparr> \<longleftrightarrow> schema_ok g"
proof -
  have conns: "list_all chan_valid (sc_conns ctx) \<longleftrightarrow> list_all (fifo_allowed g) (of_type g FIFO)"
    if "list_all (actor_named g) (of_type g ACTOR)"
  proof -
    have "list_all chan_valid (sc_conns ctx) \<longleftrightarrow> (\<forall>v \<in> set (vertices g). list_all chan_valid (map node_of (saved_descs g v)))"
      using assms(2) by (auto simp: saved_so_far_def list_all_iff)
    also have "\<dots> \<longleftrightarrow> list_all (fifo_allowed g) (of_type g FIFO)"
      unfolding chans_valid_iff [OF assms(1) that] by (auto simp: of_type_def list_all_iff)
    finally show ?thesis .
  qed
  then show ?thesis
    using saved_types_iff [OF assms(2,3)] unfolding schema_valid_def schema_ok_def by auto
qed

text \<open>Loading a saved document.\<close>

lemma saved_document:
  assumes "savable g" "unique_pool uniq" "keeps_type_names uniq" "\<forall>v \<in> set (vertices g). one_sided g v"
  obtains d where "saveSNG uniq g = Inr d" "schema_valid d \<longleftrightarrow> schema_ok g"
    "\<exists>g'. load_document d = Inr g' \<and> net_of g' = reloaded (net_of g)"
proof -
  have "names_plain g"
    using assms(1) by (simp add: savable_def)
  from saveSNG_ok [OF assms(2) this assms(4)] obtain ctx where c:
      "saveSNG uniq g = Inr \<lparr>doc_types = sc_types ctx, doc_insts = sc_insts ctx, doc_chans = sc_conns ctx\<rparr>"
      "saved_so_far g (vertices g) ctx"
    by blast
  obtain ctx' where r: "rfold (save_vertex uniq g) (vertices g) empty_ctx = Inr ctx'" "sc_types ctx' = sc_types ctx"
    using c(1) by (cases "rfold (save_vertex uniq g) (vertices g) empty_ctx") (auto simp: saveSNG_def)
  have "\<forall>t \<in> set (sc_types ctx). is_type_identifier (at_name t)"
    if "list_all (\<lambda>v. is_identifier (vi_name (vinfo g v))) (of_type g ACTOR)"
    using save_type_names [OF assms(3) r(1)] that r(2) by (simp add: of_type_def list_all_iff empty_ctx_def)
  from saved_valid_iff [OF assms(1) c(2) this] load_saved [OF assms(1) c(2)] c(1) that show thesis
    by blast
qed

end
