(* ===== verification/SNG_Network.thy ===== *)
theory SNG_Network
  imports SNG_Schema
begin

text \<open>
  What saving and loading keep of a simple network graph: which graphs can be saved, which saved documents
  the loader accepts, what comes back, and for which graphs it comes back unchanged.
\<close>

section \<open>Token sizes\<close>

definition fits_int :: "size_t \<Rightarrow> bool" where
  "fits_int n \<longleftrightarrow> n < 2 ^ 31 \<or> - (2 ^ 31) \<le> n"

lemma stored_size_int: "uint (stored_size n) = ((uint n + 2 ^ 31) mod 2 ^ 32 - 2 ^ 31) mod 2 ^ 64"
proof -
  have "sint (ucast n :: 32 word) = signed_take_bit 31 (uint n)"
    by (simp add: sint_uint uint_up_ucast unsigned_ucast_eq signed_take_bit_take_bit min_def)
  also have "\<dots> = (uint n + 2 ^ 31) mod 2 ^ 32 - 2 ^ 31"
    by (simp add: signed_take_bit_eq_take_bit_shift take_bit_eq_mod)
  finally have s: "sint (ucast n :: 32 word) = (uint n + 2 ^ 31) mod 2 ^ 32 - 2 ^ 31" .
  show ?thesis
    unfolding stored_size_def int_to_size_def scast_eq s uint_word_of_int by simp
qed

lemma mod_sign: "((u + 2 ^ 31) mod 2 ^ 32 - 2 ^ 31) mod 2 ^ 64 = u \<longleftrightarrow> u < 2 ^ 31 \<or> 2 ^ 64 - 2 ^ 31 \<le> u"
  if u: "0 \<le> u" "u < 2 ^ 64" for u :: int
proof -
  define s where "s = (u + 2 ^ 31) mod 2 ^ 32 - 2 ^ 31"
  have s: "- (2 ^ 31) \<le> s" "s < 2 ^ 31"
    by (simp_all add: s_def)
  have m: "s mod 2 ^ 64 = (if 0 \<le> s then s else s + 2 ^ 64)"
    using s mod_pos_pos_trivial [of s "2 ^ 64"] mod_pos_pos_trivial [of "s + 2 ^ 64" "2 ^ 64"] by simp
  have low: "s = u" if "u < 2 ^ 31"
    using u that by (simp add: s_def)
  have high: "s = u - 2 ^ 64" if "2 ^ 64 - 2 ^ 31 \<le> u"
    using u that mod_pos_pos_trivial [of "u + 2 ^ 31 - 2 ^ 64" "2 ^ 32"] mod_mult_self1 [of "u + 2 ^ 31 - 2 ^ 64" "2 ^ 32" "2 ^ 32"]
    by (simp add: s_def add.commute)
  show ?thesis
    unfolding s_def [symmetric] m using s u low high by auto
qed

lemma stored_size_eq_iff: "stored_size n = n \<longleftrightarrow> fits_int n"
proof -
  have n: "0 \<le> uint n" "uint n < 2 ^ 64"
    using uint_lt2p [of n] by simp_all
  have "stored_size n = n \<longleftrightarrow> ((uint n + 2 ^ 31) mod 2 ^ 32 - 2 ^ 31) mod 2 ^ 64 = uint n"
    by (simp only: word_uint_eq_iff stored_size_int)
  also have "\<dots> \<longleftrightarrow> uint n < 2 ^ 31 \<or> 2 ^ 64 - 2 ^ 31 \<le> uint n"
    using n by (rule mod_sign)
  also have "\<dots> \<longleftrightarrow> fits_int n"
    by (simp add: fits_int_def word_less_def word_le_def)
  finally show ?thesis .
qed

section \<open>Saving and loading\<close>

text \<open>A channel that is loaded as it was: an edge carries its channel's token size and the rate 1.\<close>

definition kept_desc :: "chan_desc \<Rightarrow> bool" where
  "kept_desc d \<longleftrightarrow> fits_int (desc_size d)
   \<and> (\<forall>r \<in> set (desc_writers d) \<union> set (desc_readers d). pr_size r = desc_size d \<and> pr_rate r = 1)"

lemma stored_ref_eq_iff: "stored_ref t r = r \<longleftrightarrow> pr_size r = t \<and> pr_rate r = 1"
  by (cases r) (auto simp: stored_ref_def)

lemma map_stored_ref_iff: "map (stored_ref t) rs = rs \<longleftrightarrow> (\<forall>r \<in> set rs. pr_size r = t \<and> pr_rate r = 1)"
  by (induction rs) (auto simp: stored_ref_eq_iff)

lemma stored_eq_iff: "stored d = d \<longleftrightarrow> kept_desc d"
  using stored_size_eq_iff [of "desc_size d"]
  by (cases d) (auto simp: kept_desc_def map_stored_ref_iff ball_Un)

lemma split_readers_one: "d' \<in> set (split_readers d) \<Longrightarrow> is_fifo d \<Longrightarrow> length (desc_readers d') = 1"
  by (cases d) auto

lemma split_readers_single: "length (desc_readers d) = 1 \<Longrightarrow> split_readers d = [d]"
  by (cases d) (auto simp: length_Suc_conv)

lemma desc_readers_stored [simp]: "length (desc_readers (stored d)) = length (desc_readers d)"
  by (cases d) simp_all

lemma split_all_iff:
  assumes "\<forall>d \<in> set ds. is_fifo d"
  shows "map stored (concat (map split_readers ds)) = ds \<longleftrightarrow> (\<forall>d \<in> set ds. length (desc_readers d) = 1 \<and> kept_desc d)"
proof
  assume eq: "map stored (concat (map split_readers ds)) = ds"
  have "length (desc_readers d) = 1" if "d \<in> set ds" for d
  proof -
    have "d \<in> set (map stored (concat (map split_readers ds)))"
      using that eq by simp
    then show ?thesis
      using assms split_readers_one by auto
  qed
  moreover from this have "concat (map split_readers ds) = ds"
    by (induction ds) (simp_all add: split_readers_single)
  ultimately show "\<forall>d \<in> set ds. length (desc_readers d) = 1 \<and> kept_desc d"
    using eq by (metis map_eq_conv map_ident stored_eq_iff)
next
  assume r: "\<forall>d \<in> set ds. length (desc_readers d) = 1 \<and> kept_desc d"
  then have "concat (map split_readers ds) = ds"
    by (induction ds) (simp_all add: split_readers_single)
  then show "map stored (concat (map split_readers ds)) = ds"
    using r by (simp add: map_idI stored_eq_iff)
qed

lemma map_stored_iff: "map stored ds = ds \<longleftrightarrow> (\<forall>d \<in> set ds. kept_desc d)"
  by (metis map_eq_conv map_ident stored_eq_iff)

lemma net_fifos_are_fifos: "d \<in> set (nt_fifos (net_of g)) \<Longrightarrow> is_fifo d"
  by (auto simp: net_of_def of_type_def describe_def Let_def)

lemma reloaded_eq_iff: "reloaded n = n \<longleftrightarrow> (\<forall>(a, k) \<in> set (nt_actors n). k = -1)
   \<and> map stored (concat (map split_readers (nt_fifos n))) = nt_fifos n \<and> map stored (nt_regs n) = nt_regs n"
proof -
  have "map (\<lambda>(a, k). (a, -1)) as = as \<longleftrightarrow> (\<forall>(a, k) \<in> set as. k = -1)" for as :: "(string \<times> size_t) list"
    by (induction as) auto
  then show ?thesis
    by (cases n) (simp add: reloaded_def)
qed

text \<open>A pool of names, for the examples: a name longer than all names handed out.\<close>

definition longer_name :: "string list \<Rightarrow> string \<Rightarrow> string" where
  "longer_name used s = s @ replicate (Suc (sum_list (map length used))) CHR ''_''"

lemma longer_name_pool: "unique_pool longer_name"
proof -
  have "longer_name used s \<notin> set used" for used s
  proof
    assume "longer_name used s \<in> set used"
    then have "length (longer_name used s) \<le> sum_list (map length used)"
      by (intro member_le_sum_list) auto
    then show False
      by (simp add: longer_name_def)
  qed
  then show ?thesis
    by (simp add: unique_pool_def longer_name_def)
qed

lemma longer_type_name: "type_ident_from b s \<Longrightarrow> type_ident_from b (s @ replicate n CHR ''_'')"
proof (induction b s rule: type_ident_from.induct)
  case (1 b)
  then show ?case
    by (induction n) (auto simp: is_alpha_def)
qed (auto split: list.splits if_splits)

lemma longer_name_types: "keeps_type_names longer_name"
  using longer_type_name by (simp add: keeps_type_names_def longer_name_def is_type_identifier_def del: replicate.simps)

text \<open>Actors \<open>m.a\<close> and \<open>m.b\<close>, a FIFO from one to the other, a register read by the first.\<close>

definition example_vertex :: "string \<Rightarrow> vtype \<Rightarrow> size_t \<Rightarrow> vertex_info" where
  "example_vertex n t s = \<lparr>vi_name = n, vi_type = t, vi_size = s, vi_capacity = 12, vi_delay = 1\<rparr>"

definition example_edge :: "string \<Rightarrow> size_t \<Rightarrow> size_t \<Rightarrow> edge_info" where
  "example_edge n s k = \<lparr>ei_name = n, ei_tokenSize = s, ei_tokens = k\<rparr>"

definition example_sng :: "size_t \<Rightarrow> size_t \<Rightarrow> sng" where
  "example_sng s k = \<lparr>sg_verts = [example_vertex ''m.a'' ACTOR (-1), example_vertex ''c1'' FIFO s,
       example_vertex ''m.b'' ACTOR (-1), example_vertex ''r'' REGISTER 8],
     sg_edges = [(0, 1, example_edge ''o1'' s k), (1, 2, example_edge ''i1'' s 1), (3, 0, example_edge ''i2'' 8 1)]\<rparr>"

lemmas example_simps = example_sng_def example_vertex_def example_edge_def vertices_def in_edges_def out_edges_def
  of_type_def vinfo_def einfo_def esrc_def etgt_def save_ports_def upt_rec

lemma example_savable: "savable (example_sng s k)" "\<forall>v \<in> set (vertices (example_sng s k)). one_sided (example_sng s k) v"
  by (simp_all add: example_simps savable_def sng_wf_def names_plain_def plain_def one_sided_def)

lemma example_schema: "schema_ok (example_sng s k)"
  by (simp add: example_simps schema_ok_def actor_named_def fifo_allowed_def is_identifier_def is_alpha_def is_digit_def)

lemma example_net: "net_of (example_sng s k) = \<lparr>nt_actors = [(''m.a'', -1), (''m.b'', -1)],
   nt_fifos = [FifoDesc ''c1'' 12 1 s [\<lparr>pr_actor = ''m.a'', pr_port = ''o1'', pr_size = s, pr_rate = k\<rparr>]
     [\<lparr>pr_actor = ''m.b'', pr_port = ''i1'', pr_size = s, pr_rate = 1\<rparr>]],
   nt_regs = [RegDesc ''r'' 8 [] [\<lparr>pr_actor = ''m.a'', pr_port = ''i2'', pr_size = 8, pr_rate = 1\<rparr>]]\<rparr>"
  by (simp add: net_of_def describe_def writers_def readers_def edge_ref_def example_simps)

text \<open>A register that an actor both writes and reads.\<close>

definition both_sides_doc :: document where
  "both_sides_doc = \<lparr>
     doc_types = [\<lparr>at_name = ''A'', at_ports = [\<lparr>pe_name = ''o'', pe_type = ''out''\<rparr>, \<lparr>pe_name = ''i'', pe_type = ''in''\<rparr>]\<rparr>],
     doc_insts = [\<lparr>ai_name = ''a'', ai_type = ''A''\<rparr>],
     doc_chans = [RegisterNode \<lparr>ce_name = ''r'', ce_attrs = [],
       ce_sources = [\<lparr>re_actor = ''a'', re_port = ''o''\<rparr>], ce_targets = [\<lparr>re_actor = ''a'', re_port = ''i''\<rparr>]\<rparr>]\<rparr>"

lemma load_both_sides: "loadSNG both_sides_doc = Inr \<lparr>
   sg_verts = [actor_vertex ''a'', \<lparr>vi_name = ''r'', vi_type = REGISTER, vi_size = -1, vi_capacity = -1, vi_delay = -1\<rparr>],
   sg_edges = [(0, 1, \<lparr>ei_name = ''o'', ei_tokenSize = -1, ei_tokens = 1\<rparr>), (1, 0, \<lparr>ei_name = ''i'', ei_tokenSize = -1, ei_tokens = 1\<rparr>)]\<rparr>"
  (is "_ = Inr ?g")
proof -
  define ts where "ts = [(''A'', [(''o'', DirOut), (''i'', DirIn)])]"
  define is0 where "is0 d = [(''a'', \<lparr>an_ports = [(''o'', DirOut), (''i'', DirIn)], an_vd = 0, an_dangling = d\<rparr>)]" for d
  have t: "rfold load_type (doc_types both_sides_doc) [] = Inr ts"
    by (simp add: both_sides_doc_def load_type_def mk_ActorType_def mk_ActorPort_def insert_new_def ts_def)
  have i: "rfold (load_inst ts) (doc_insts both_sides_doc) \<lparr>ls_graph = sng_empty, ls_insts = []\<rparr>
      = Inr \<lparr>ls_graph = \<lparr>sg_verts = [actor_vertex ''a''], sg_edges = []\<rparr>, ls_insts = is0 [''o'', ''i'']\<rparr>"
    by (simp add: both_sides_doc_def load_inst_def find_or_assert_def ts_def add_vertex_def set_vinfo_def vinfo_def
        sng_empty_def insert_new_def is0_def actor_vertex_def)
  have size: "int_to_size (- 1) = - 1"
    by (simp add: int_to_size_def scast_eq)
  have o: "connect_ref DirOut 1 (-1) \<lparr>re_actor = ''a'', re_port = ''o''\<rparr>
        \<lparr>ls_graph = \<lparr>sg_verts = [actor_vertex ''a'', mk_vertex_info\<lparr>vi_name := ''r''\<rparr>], sg_edges = []\<rparr>, ls_insts = is0 [''o'', ''i'']\<rparr>
      = Inr \<lparr>ls_graph = \<lparr>sg_verts = [actor_vertex ''a'', mk_vertex_info\<lparr>vi_name := ''r''\<rparr>],
          sg_edges = [(0, 1, \<lparr>ei_name = ''o'', ei_tokenSize = -1, ei_tokens = 1\<rparr>)]\<rparr>, ls_insts = is0 [''i'']\<rparr>"
    by (simp add: connect_ref_def find_or_assert_def is0_def connectPort_def add_edge_def set_einfo_def esrc_def etgt_def set_inst_def)
  have r: "connect_ref DirIn 1 (-1) \<lparr>re_actor = ''a'', re_port = ''i''\<rparr>
        \<lparr>ls_graph = \<lparr>sg_verts = [actor_vertex ''a'', mk_vertex_info\<lparr>vi_name := ''r''\<rparr>],
          sg_edges = [(0, 1, \<lparr>ei_name = ''o'', ei_tokenSize = -1, ei_tokens = 1\<rparr>)]\<rparr>, ls_insts = is0 [''i'']\<rparr>
      = Inr \<lparr>ls_graph = \<lparr>sg_verts = [actor_vertex ''a'', mk_vertex_info\<lparr>vi_name := ''r''\<rparr>],
          sg_edges = [(0, 1, \<lparr>ei_name = ''o'', ei_tokenSize = -1, ei_tokens = 1\<rparr>),
            (1, 0, \<lparr>ei_name = ''i'', ei_tokenSize = -1, ei_tokens = 1\<rparr>)]\<rparr>, ls_insts = is0 []\<rparr>"
    by (simp add: connect_ref_def find_or_assert_def is0_def connectPort_def add_edge_def set_einfo_def esrc_def etgt_def set_inst_def)
  have valid: "schema_valid both_sides_doc"
    by (simp add: both_sides_doc_def schema_valid_def actor_type_valid_def port_valid_def actor_inst_valid_def chan_valid_def
        register_valid_def ref_valid_def is_identifier_def is_type_identifier_def is_alpha_def)
  have "load_document both_sides_doc = Inr ?g"
    unfolding load_document_def t rbind_simps i
    using o r by (simp add: both_sides_doc_def mk_RegisterInstance_def mk_ChanInstance_def add_vertex_def
        set_vinfo_def vinfo_def size mk_vertex_info_def)
  with valid show ?thesis
    by (simp add: loadSNG_def)
qed

text \<open>C35. Saving a network graph and loading the document: for every graph that can be saved (its edges join
  actors and channels, its actor names and the port names of an actor are distinct, no register is both
  written and read) and every pool that hands out new names of types, the loader accepts the document
  exactly if the graph fits the schema: it has an actor, actor and port names are identifiers, every
  actor has a port, and every FIFO that is read has one writer and a capacity.  Then the same actors come
  back in the same order with no repetition count, every register with its writers and readers, and every
  FIFO once for each of its readers, with its name, capacity, initial tokens and writers; token sizes
  are stored as 32-bit integers, and every edge has the token size of its channel and the rate 1.
  Otherwise loading fails with the parser's error.\<close>

theorem sng_save_load:
  assumes "savable g" "unique_pool uniq" "keeps_type_names uniq" "\<forall>v \<in> set (vertices g). one_sided g v"
  shows "case rbind (saveSNG uniq g) loadSNG of
      Inr g' \<Rightarrow> schema_ok g \<and> net_of g' = reloaded (net_of g)
    | Inl e \<Rightarrow> \<not> schema_ok g \<and> e = RuntimeError ''document is not valid''"
proof -
  obtain d where "saveSNG uniq g = Inr d" "schema_valid d \<longleftrightarrow> schema_ok g"
    "\<exists>g'. load_document d = Inr g' \<and> net_of g' = reloaded (net_of g)"
    using saved_document [OF assms] .
  then show ?thesis
    by (auto simp: loadSNG_def)
qed

theorem sng_save_load_witness:
  "\<exists>g'. rbind (saveSNG longer_name (example_sng 4 2)) loadSNG = Inr g' \<and> net_of g' =
    \<lparr>nt_actors = [(''m.a'', -1), (''m.b'', -1)],
     nt_fifos = [FifoDesc ''c1'' 12 1 4 [\<lparr>pr_actor = ''m.a'', pr_port = ''o1'', pr_size = 4, pr_rate = 1\<rparr>]
       [\<lparr>pr_actor = ''m.b'', pr_port = ''i1'', pr_size = 4, pr_rate = 1\<rparr>]],
     nt_regs = [RegDesc ''r'' 8 [] [\<lparr>pr_actor = ''m.a'', pr_port = ''i2'', pr_size = 8, pr_rate = 1\<rparr>]]\<rparr>"
proof -
  have fits: "stored_size 4 = 4" "stored_size 8 = 8"
    by (simp_all add: stored_size_eq_iff fits_int_def)
  show ?thesis
    using sng_save_load [OF example_savable(1) longer_name_pool longer_name_types example_savable(2), of 4 2] example_schema [of 4 2]
    by (auto simp: example_net reloaded_def stored_ref_def fits split: sum.splits)
qed

text \<open>Saving fails exactly for graphs with a register that is both written and read, by the
  assertion at the end of the register's element; such registers are legal in the schema and
  \<^verbatim>\<open>loadSNG\<close> builds them, as the second part shows.\<close>

theorem save_fails_on_connected_register:
  "(saveSNG uniq g = Inl e \<longleftrightarrow>
      e = AssertFailed \<and> (\<exists>v < length (sg_verts g). vi_type (vinfo g v) = REGISTER \<and> in_edges g v \<noteq> [] \<and> out_edges g v \<noteq> []))
   \<and> rbind (loadSNG both_sides_doc) (saveSNG uniq) = Inl AssertFailed"
proof (rule conjI)
  show "saveSNG uniq g = Inl e \<longleftrightarrow>
      e = AssertFailed \<and> (\<exists>v < length (sg_verts g). vi_type (vinfo g v) = REGISTER \<and> in_edges g v \<noteq> [] \<and> out_edges g v \<noteq> [])"
    unfolding saveSNG_fails by (auto simp: list_all_iff one_sided_def vertices_def)
  show "rbind (loadSNG both_sides_doc) (saveSNG uniq) = Inl AssertFailed"
    unfolding load_both_sides rbind_simps saveSNG_fails
    by (simp add: one_sided_def vertices_def vinfo_def in_edges_def out_edges_def esrc_def etgt_def actor_vertex_def upt_rec)
qed

text \<open>C37. A graph that can be saved, with a pool as above, is loaded as the network it was exactly if the
  schema allows it, no actor has a repetition count, every FIFO has one reader, every token size is below
  \<open>2 ^ 31\<close> or at least \<open>2 ^ 64 - 2 ^ 31\<close>, as \<^verbatim>\<open>loadSNG\<close> keeps token sizes in an \<^verbatim>\<open>int\<close>, and every
  edge at a channel has the channel's token size and the rate 1: other sizes, rates and counts are changed
  without notice.\<close>

theorem sng_reload_exact_iff:
  assumes "savable g" "unique_pool uniq" "keeps_type_names uniq" "\<forall>v \<in> set (vertices g). one_sided g v"
  shows "(\<exists>g'. rbind (saveSNG uniq g) loadSNG = Inr g' \<and> net_of g' = net_of g) \<longleftrightarrow>
     schema_ok g \<and> (\<forall>(a, n) \<in> set (nt_actors (net_of g)). n = -1)
   \<and> (\<forall>d \<in> set (nt_fifos (net_of g)). length (desc_readers d) = 1 \<and> kept_desc d)
   \<and> (\<forall>d \<in> set (nt_regs (net_of g)). kept_desc d)"
proof -
  obtain d where d: "saveSNG uniq g = Inr d" "schema_valid d \<longleftrightarrow> schema_ok g"
    "\<exists>g'. load_document d = Inr g' \<and> net_of g' = reloaded (net_of g)"
    using saved_document [OF assms] .
  then have "(\<exists>g'. rbind (saveSNG uniq g) loadSNG = Inr g' \<and> net_of g' = net_of g) \<longleftrightarrow> schema_ok g \<and> reloaded (net_of g) = net_of g"
    by (auto simp: loadSNG_def)
  also have "reloaded (net_of g) = net_of g \<longleftrightarrow> (\<forall>(a, n) \<in> set (nt_actors (net_of g)). n = -1)
      \<and> (\<forall>d \<in> set (nt_fifos (net_of g)). length (desc_readers d) = 1 \<and> kept_desc d)
      \<and> (\<forall>d \<in> set (nt_regs (net_of g)). kept_desc d)"
    using net_fifos_are_fifos [of _ g] unfolding reloaded_eq_iff by (simp add: split_all_iff map_stored_iff)
  finally show ?thesis .
qed

theorem sng_reload_exact_iff_witness:
  "(\<exists>g'. rbind (saveSNG longer_name (example_sng 4 1)) loadSNG = Inr g' \<and> net_of g' = net_of (example_sng 4 1))
   \<and> \<not> (\<exists>g'. rbind (saveSNG longer_name (example_sng 4 2)) loadSNG = Inr g' \<and> net_of g' = net_of (example_sng 4 2))
   \<and> \<not> (\<exists>g'. rbind (saveSNG longer_name (example_sng (2 ^ 31) 1)) loadSNG = Inr g' \<and> net_of g' = net_of (example_sng (2 ^ 31) 1))"
  unfolding sng_reload_exact_iff [OF example_savable(1) longer_name_pool longer_name_types example_savable(2)]
  by (simp add: example_schema example_net kept_desc_def fits_int_def)

end
