(* ===== verification/SNG_Transform.thy ===== *)
theory SNG_Transform
  imports SNG_IO
begin

text \<open>
  Merging channels of a simple network graph
  (\<^verbatim>\<open>src/systemoc-sng/cpp/transform/transform.cpp\<close>): all channels that an actor writes from the same port, or
  all channels that it writes, become one.  \<^verbatim>\<open>std::map\<close>s keyed by names are association lists, the vertex
  map is a partial function.
\<close>

datatype transform =
    FIFOS_NO_MERGING
  | FIFOS_SAME_CONTENT_MERGING
  | FIFOS_SAME_PRODUCER_MERGING
  | CHANS_ARE_DROPPED_NO_MERGING
  | CHANS_ARE_DROPPED_SAME_CONTENT_MERGING

fun print_transform :: "transform \<Rightarrow> string" where
  "print_transform FIFOS_NO_MERGING = ''FIFOS_NO_MERGING''"
| "print_transform FIFOS_SAME_CONTENT_MERGING = ''FIFOS_SAME_CONTENT_MERGING''"
| "print_transform FIFOS_SAME_PRODUCER_MERGING = ''FIFOS_SAME_PRODUCER_MERGING''"
| "print_transform CHANS_ARE_DROPPED_NO_MERGING = ''CHANS_ARE_DROPPED_NO_MERGING''"
| "print_transform CHANS_ARE_DROPPED_SAME_CONTENT_MERGING = ''CHANS_ARE_DROPPED_SAME_CONTENT_MERGING''"

text \<open>The word that \<^verbatim>\<open>in >> str\<close> read; no value is the \<^verbatim>\<open>badbit\<close>.\<close>

definition parse_transform :: "string \<Rightarrow> transform option" where
  "parse_transform str =
    (if str = ''FIFOS_NO_MERGING'' then Some FIFOS_NO_MERGING
     else if str = ''FIFOS_SAME_CONTENT_MERGING'' then Some FIFOS_SAME_CONTENT_MERGING
     else if str = ''FIFOS_SAME_PRODUCER_MERGING'' then Some FIFOS_SAME_PRODUCER_MERGING
     else if str = ''CHANS_ARE_DROPPED_NO_MERGING'' then Some CHANS_ARE_DROPPED_NO_MERGING
     else if str = ''CHANS_ARE_DROPPED_SAME_CONTENT_MERGING'' then Some CHANS_ARE_DROPPED_SAME_CONTENT_MERGING
     else None)"

lemma parse_print_transform [simp]: "parse_transform (print_transform t) = Some t"
  by (cases t) (simp_all add: parse_transform_def)

section \<open>Writing actors\<close>

record merge_info =
  mi_vd :: nat
  mi_ed :: nat
  mi_orig :: "(string \<times> size_t \<times> size_t) list"

record transform_state =
  tr_out :: sng
  tr_map :: "nat \<rightharpoonup> nat"

record write_state = transform_state +
  wr_merged :: "(string \<times> merge_info) list"

text \<open>\<^verbatim>\<open>chanNameSameContent\<close>, \<^verbatim>\<open>chanNameSameProducer\<close>, \<^verbatim>\<open>tokenSize\<close> and \<^verbatim>\<open>capacity\<close> of an out edge.\<close>

definition chan_params :: "string \<Rightarrow> string \<Rightarrow> vertex_info \<Rightarrow> (string \<times> string \<times> size_t \<times> size_t) result" where
  "chan_params actor port c = (case vi_type c of
     FIFO \<Rightarrow> Inr (''cf:'' @ actor @ ''.'' @ port, ''cf:'' @ actor @ ''.out'', vi_size c, vi_capacity c)
   | REGISTER \<Rightarrow> Inr (''reg:'' @ actor @ ''.'' @ port, ''reg:'' @ actor @ ''.out'', vi_size c, 1)
   | ACTOR \<Rightarrow> Inl AssertFailed)"

definition chan_name :: "transform \<Rightarrow> string \<Rightarrow> string \<Rightarrow> string result" where
  "chan_name tr same_content same_producer = (case tr of
     FIFOS_SAME_CONTENT_MERGING \<Rightarrow> Inr same_content
   | FIFOS_SAME_PRODUCER_MERGING \<Rightarrow> Inr same_producer
   | _ \<Rightarrow> Inl AssertFailed)"

text \<open>\<^verbatim>\<open>origChanInfo\<close> after the insertion, and whether the content was new; equal contents keep the larger capacity.\<close>

definition note_content ::
  "string \<Rightarrow> size_t \<Rightarrow> size_t \<Rightarrow> (string \<times> size_t \<times> size_t) list \<Rightarrow> (bool \<times> (string \<times> size_t \<times> size_t) list) result" where
  "note_content k tsz cap os = (case map_of os k of
     None \<Rightarrow> Inr (True, os @ [(k, tsz, cap)])
   | Some (tsz0, cap0) \<Rightarrow> rbind (rassert (tsz0 = tsz))
       (\<lambda>_. Inr (False, map (\<lambda>(k', x). (k', if k' = k then (tsz0, max cap0 cap) else x)) os)))"

definition join_edges :: "edge_info \<Rightarrow> edge_info \<Rightarrow> edge_info" where
  "join_edges a b = a\<lparr>ei_tokenSize := ei_tokenSize a * ei_tokens a + ei_tokenSize b * ei_tokens b, ei_tokens := 1\<rparr>"

definition bufferSize :: "(string \<times> size_t \<times> size_t) list \<Rightarrow> size_t" where
  "bufferSize os = foldl (\<lambda>n (k, tsz, cap). n + tsz * cap) 0 os"

text \<open>The merged channel vertex for one more channel.\<close>

definition join_vertices ::
  "transform \<Rightarrow> string \<Rightarrow> (string \<times> size_t \<times> size_t) list \<Rightarrow> vertex_info \<Rightarrow> vertex_info \<Rightarrow> vertex_info result" where
  "join_vertices tr content os m c = (case tr of
     FIFOS_SAME_CONTENT_MERGING \<Rightarrow> rbind (rassert (length os = 1)) (\<lambda>_.
       (case vi_type m of
          FIFO \<Rightarrow> Inr (m\<lparr>vi_delay := (if vi_delay m \<noteq> vi_delay c then -1 else vi_delay m),
                         vi_capacity := snd (the (map_of os content))\<rparr>)
        | REGISTER \<Rightarrow> Inr m
        | ACTOR \<Rightarrow> Inl AssertFailed))
   | FIFOS_SAME_PRODUCER_MERGING \<Rightarrow>
       (case vi_type m of
          FIFO \<Rightarrow> Inr (m\<lparr>vi_delay := -1, vi_size := bufferSize os, vi_capacity := 1\<rparr>)
        | REGISTER \<Rightarrow> Inr (m\<lparr>vi_size := bufferSize os\<rparr>)
        | ACTOR \<Rightarrow> Inl AssertFailed)
   | _ \<Rightarrow> Inl AssertFailed)"

definition merge_again ::
  "transform \<Rightarrow> string \<Rightarrow> string \<Rightarrow> size_t \<Rightarrow> size_t \<Rightarrow> vertex_info \<Rightarrow> edge_info \<Rightarrow> merge_info \<Rightarrow> sng \<Rightarrow> (merge_info \<times> sng) result" where
  "merge_again tr name content tsz cap c e mi g = (let
     m = (vinfo g (mi_vd mi))\<lparr>vi_name := name\<rparr>
   in rbind (rassert (vi_type m = vi_type c)) (\<lambda>_.
      rbind (note_content content tsz cap (mi_orig mi)) (\<lambda>(new, os).
      rbind (join_vertices tr content os m c) (\<lambda>m'. let
        g1 = set_vinfo (mi_vd mi) m' g;
        g2 = (if new then set_einfo (mi_ed mi) (join_edges (einfo g1 (mi_ed mi)) e) g1 else g1)
      in Inr (mi\<lparr>mi_orig := os\<rparr>, g2)))))"

definition merge_first ::
  "nat \<Rightarrow> string \<Rightarrow> size_t \<Rightarrow> size_t \<Rightarrow> vertex_info \<Rightarrow> edge_info \<Rightarrow> sng \<Rightarrow> merge_info \<times> sng" where
  "merge_first a content tsz cap c e g = (let
     (vd, g1) = add_vertex g;
     (ed, g2) = add_edge a vd g1
   in (\<lparr>mi_vd = vd, mi_ed = ed, mi_orig = [(content, tsz, cap)]\<rparr>, set_einfo ed e (set_vinfo vd c g2)))"

text \<open>\<^verbatim>\<open>std::map::insert\<close> keeps an existing entry.\<close>

definition map_insert :: "nat \<Rightarrow> nat \<Rightarrow> (nat \<rightharpoonup> nat) \<Rightarrow> (nat \<rightharpoonup> nat)" where
  "map_insert k x m = (case m k of None \<Rightarrow> m(k \<mapsto> x) | Some _ \<Rightarrow> m)"

definition set_merged :: "string \<Rightarrow> merge_info \<Rightarrow> (string \<times> merge_info) list \<Rightarrow> (string \<times> merge_info) list" where
  "set_merged k x m = (if map_of m k = None then m @ [(k, x)] else map (\<lambda>(k', y). (k', if k' = k then x else y)) m)"

definition write_edge :: "transform \<Rightarrow> sng \<Rightarrow> string \<Rightarrow> nat \<Rightarrow> nat \<Rightarrow> write_state \<Rightarrow> write_state result" where
  "write_edge tr g actor a e st = (let
     c = vinfo g (etgt g e)
   in rbind (chan_params actor (ei_name (einfo g e)) c) (\<lambda>(content, producer, tsz, cap).
      rbind (chan_name tr content producer) (\<lambda>name.
      rbind (case map_of (wr_merged st) name of
           None \<Rightarrow> Inr (merge_first a content tsz cap c (einfo g e) (tr_out st))
         | Some mi \<Rightarrow> merge_again tr name content tsz cap c (einfo g e) mi (tr_out st)) (\<lambda>(mi, g').
      Inr (st\<lparr>tr_out := g', tr_map := map_insert (etgt g e) (mi_vd mi) (tr_map st),
              wr_merged := set_merged name mi (wr_merged st)\<rparr>)))))"

definition write_actor :: "transform \<Rightarrow> sng \<Rightarrow> nat \<Rightarrow> transform_state \<Rightarrow> transform_state result" where
  "write_actor tr g v st = (if vi_type (vinfo g v) \<noteq> ACTOR then Inr st else let
     (a, g') = add_vertex (tr_out st);
     st1 = \<lparr>tr_out = set_vinfo a (vinfo g v) g', tr_map = map_insert v a (tr_map st), wr_merged = []\<rparr>
   in rbind (rfold (write_edge tr g (vi_name (vinfo g v)) a) (out_edges g v) st1)
        (\<lambda>st2. Inr (transform_state.truncate st2)))"

section \<open>Reading actors\<close>

record read_state = transform_state +
  rd_edges :: "nat \<rightharpoonup> nat"

definition read_edge :: "sng \<Rightarrow> nat \<Rightarrow> nat \<Rightarrow> read_state \<Rightarrow> read_state" where
  "read_edge g a e st = (let
     vSource = esrc g e;
     (f, st1) = (case tr_map st vSource of
         Some f \<Rightarrow> (f, st)
       | None \<Rightarrow> (let (f, g') = add_vertex (tr_out st) in
           (f, st\<lparr>tr_out := set_vinfo f (vinfo g vSource) g', tr_map := (tr_map st)(vSource \<mapsto> f)\<rparr>)))
   in case rd_edges st1 f of
        None \<Rightarrow> (let (ed, g') = add_edge f a (tr_out st1) in
          st1\<lparr>tr_out := set_einfo ed (einfo g e) g', rd_edges := (rd_edges st1)(f \<mapsto> ed)\<rparr>)
      | Some ed \<Rightarrow> st1\<lparr>tr_out := set_einfo ed (join_edges (einfo (tr_out st1) ed) (einfo g e)) (tr_out st1)\<rparr>)"

definition read_actor :: "sng \<Rightarrow> nat \<Rightarrow> transform_state \<Rightarrow> transform_state result" where
  "read_actor g v st = (if vi_type (vinfo g v) \<noteq> ACTOR then Inr st else
     rbind (case tr_map st v of None \<Rightarrow> Inl AssertFailed | Some a \<Rightarrow> Inr a) (\<lambda>a.
     Inr (transform_state.truncate (fold (read_edge g a) (in_edges g v) (transform_state.extend st \<lparr>rd_edges = Map.empty\<rparr>)))))"

definition transformFifos :: "sng \<Rightarrow> transform \<Rightarrow> sng \<Rightarrow> sng result" where
  "transformFifos g tr gout = rbind (rfold (write_actor tr g) (vertices g) \<lparr>tr_out = gout, tr_map = Map.empty\<rparr>)
     (\<lambda>st. rbind (rfold (read_actor g) (vertices g) st) (\<lambda>st'. Inr (tr_out st')))"

definition transform_sng :: "sng \<Rightarrow> transform \<Rightarrow> sng result" where
  "transform_sng g tr = (case tr of
     FIFOS_SAME_CONTENT_MERGING \<Rightarrow> transformFifos g tr sng_empty
   | FIFOS_SAME_PRODUCER_MERGING \<Rightarrow> transformFifos g tr sng_empty
   | CHANS_ARE_DROPPED_NO_MERGING \<Rightarrow> Inr sng_empty
   | CHANS_ARE_DROPPED_SAME_CONTENT_MERGING \<Rightarrow> Inr sng_empty
   | FIFOS_NO_MERGING \<Rightarrow> Inr g)"

end
