(* ===== verification/SNG_Merging.thy ===== *)
theory SNG_Merging
  imports SNG_Transform
begin

text \<open>
  Merging is a quotient: channels become one vertex exactly if they belong to the same class, that is if
  they have the same kind and are written from the same port (or by the same actor), and the merged graph
  has one edge for every pair of vertices that the original graph joins.
\<close>

section \<open>Classes of channels\<close>

text \<open>The class of a written channel: its kind, its writer, and the port unless all channels of a writer are merged.\<close>

definition merge_class :: "transform \<Rightarrow> sng \<Rightarrow> nat \<Rightarrow> (vtype \<times> nat \<times> string) option" where
  "merge_class tr g c = (if vi_type (vinfo g c) = ACTOR then None else case in_edges g c of
     [] \<Rightarrow> None
   | e # _ \<Rightarrow> Some (vi_type (vinfo g c), esrc g e, if tr = FIFOS_SAME_CONTENT_MERGING then ei_name (einfo g e) else ''out''))"

definition merged_together :: "transform \<Rightarrow> sng \<Rightarrow> nat \<Rightarrow> nat \<Rightarrow> bool" where
  "merged_together tr g a b \<longleftrightarrow> a = b \<or> merge_class tr g a \<noteq> None \<and> merge_class tr g a = merge_class tr g b"

lemma merged_together_refl [simp]: "merged_together tr g a a"
  by (simp add: merged_together_def)

lemma merged_together_sym: "merged_together tr g a b \<longleftrightarrow> merged_together tr g b a"
  unfolding merged_together_def by metis

lemma merged_together_trans: "merged_together tr g a b \<Longrightarrow> merged_together tr g b c \<Longrightarrow> merged_together tr g a c"
  unfolding merged_together_def by metis

definition edge_pairs :: "sng \<Rightarrow> (nat \<times> nat) list" where
  "edge_pairs g = map (\<lambda>(u, v, i). (u, v)) (sg_edges g)"

lemma edge_pairs_upd [simp]:
  "edge_pairs (set_vinfo v i g) = edge_pairs g" "edge_pairs (set_einfo e j g) = edge_pairs g"
proof -
  have pairs: "edge_pairs h = map (\<lambda>e. (esrc h e, etgt h e)) [0..<length (sg_edges h)]" for h
    by (rule nth_equalityI) (simp_all add: edge_pairs_def esrc_def etgt_def case_prod_beta)
  show "edge_pairs (set_vinfo v i g) = edge_pairs g"
    by (simp add: edge_pairs_def)
  show "edge_pairs (set_einfo e j g) = edge_pairs g"
    unfolding pairs by simp
qed

lemma sng_wf_pairs: "sng_wf g \<longleftrightarrow> (\<forall>(u, v) \<in> set (edge_pairs g). u < length (sg_verts g) \<and> v < length (sg_verts g))"
  by (auto simp: sng_wf_def edge_pairs_def)

section \<open>Partial quotients\<close>

text \<open>
  The part \<open>D\<close> of the vertices and \<open>E\<close> of the edges of \<open>g\<close> has been transferred: \<open>m\<close> maps the
  vertices of \<open>D\<close> to the classes, and the edges of the output are the images of \<open>E\<close>, each once.
\<close>

definition image_vertices :: "sng \<Rightarrow> sng \<Rightarrow> (nat \<rightharpoonup> nat) \<Rightarrow> bool" where
  "image_vertices g h m \<longleftrightarrow> (\<forall>v w. m v = Some w \<longrightarrow> w < length (sg_verts h) \<and> vi_type (vinfo h w) = vi_type (vinfo g v)
     \<and> (vi_type (vinfo g v) = ACTOR \<longrightarrow> vinfo h w = vinfo g v))"

definition image_classes :: "transform \<Rightarrow> sng \<Rightarrow> (nat \<rightharpoonup> nat) \<Rightarrow> bool" where
  "image_classes tr g m \<longleftrightarrow> (\<forall>a b x y. m a = Some x \<longrightarrow> m b = Some y \<longrightarrow> (x = y \<longleftrightarrow> merged_together tr g a b))"

definition image_edges :: "sng \<Rightarrow> nat set \<Rightarrow> (nat \<rightharpoonup> nat) \<Rightarrow> (nat \<times> nat) set" where
  "image_edges g E m = (\<lambda>e. (the (m (esrc g e)), the (m (etgt g e)))) ` E"

definition onto_vertices :: "sng \<Rightarrow> (nat \<rightharpoonup> nat) \<Rightarrow> bool" where
  "onto_vertices h m \<longleftrightarrow> (\<forall>w < length (sg_verts h). \<exists>v. m v = Some w)"

definition ends_in :: "sng \<Rightarrow> nat set \<Rightarrow> nat set \<Rightarrow> bool" where
  "ends_in g E D \<longleftrightarrow> (\<forall>e \<in> E. esrc g e \<in> D \<and> etgt g e \<in> D)"

definition partial_quotient ::
  "transform \<Rightarrow> sng \<Rightarrow> nat set \<Rightarrow> nat set \<Rightarrow> sng \<Rightarrow> (nat \<rightharpoonup> nat) \<Rightarrow> bool" where
  "partial_quotient tr g D E h m \<longleftrightarrow>
     dom m = D \<and> ends_in g E D \<and> image_vertices g h m \<and> image_classes tr g m
   \<and> distinct (edge_pairs h) \<and> set (edge_pairs h) = image_edges g E m \<and> onto_vertices h m"

lemma image_verticesD:
  "image_vertices g h m \<Longrightarrow> m v = Some w \<Longrightarrow> w < length (sg_verts h) \<and> vi_type (vinfo h w) = vi_type (vinfo g v)
     \<and> (vi_type (vinfo g v) = ACTOR \<longrightarrow> vinfo h w = vinfo g v)"
  by (simp add: image_vertices_def)

lemma image_classesD:
  "image_classes tr g m \<Longrightarrow> m a = Some x \<Longrightarrow> m b = Some y \<Longrightarrow> x = y \<longleftrightarrow> merged_together tr g a b"
  unfolding image_classes_def by blast

lemma quotient_vertexD:
  assumes "partial_quotient tr g D E h m" "m v = Some w"
  shows "w < length (sg_verts h) \<and> vi_type (vinfo h w) = vi_type (vinfo g v) \<and> (vi_type (vinfo g v) = ACTOR \<longrightarrow> vinfo h w = vinfo g v)"
proof -
  have "image_vertices g h m"
    using assms(1) by (simp add: partial_quotient_def)
  from image_verticesD [OF this assms(2)] show ?thesis .
qed

lemma quotient_classD:
  assumes "partial_quotient tr g D E h m" "m a = Some x" "m b = Some y"
  shows "x = y \<longleftrightarrow> merged_together tr g a b"
proof -
  have "image_classes tr g m"
    using assms(1) by (simp add: partial_quotient_def)
  from image_classesD [OF this assms(2,3)] show ?thesis .
qed

lemma quotient_domD: "partial_quotient tr g D E h m \<Longrightarrow> v \<in> D \<longleftrightarrow> (\<exists>w. m v = Some w)"
  by (auto simp: partial_quotient_def)

lemma quotient_wf:
  assumes "partial_quotient tr g D E h m"
  shows "sng_wf h"
proof -
  have "the (m v) < length (sg_verts h)" if "v \<in> D" for v
    using quotient_vertexD [OF assms, of v] quotient_domD [OF assms, of v] that by auto
  moreover have "set (edge_pairs h) = image_edges g E m" "ends_in g E D"
    using assms by (simp_all add: partial_quotient_def)
  ultimately show ?thesis
    by (auto simp: sng_wf_pairs image_edges_def ends_in_def)
qed

text \<open>Changing the images' descriptions.\<close>

lemma quotient_set_vinfo:
  assumes q: "partial_quotient tr g D E h m" and i: "vi_type i = vi_type (vinfo h w)" "vi_type i \<noteq> ACTOR" "w < length (sg_verts h)"
  shows "partial_quotient tr g D E (set_vinfo w i h) m"
proof -
  have "image_vertices g (set_vinfo w i h) m"
    unfolding image_vertices_def
  proof (intro allI impI)
    fix v x
    assume "m v = Some x"
    then have "x < length (sg_verts h) \<and> vi_type (vinfo h x) = vi_type (vinfo g v) \<and> (vi_type (vinfo g v) = ACTOR \<longrightarrow> vinfo h x = vinfo g v)"
      by (rule quotient_vertexD [OF q])
    then show "x < length (sg_verts (set_vinfo w i h)) \<and> vi_type (vinfo (set_vinfo w i h) x) = vi_type (vinfo g v)
        \<and> (vi_type (vinfo g v) = ACTOR \<longrightarrow> vinfo (set_vinfo w i h) x = vinfo g v)"
      using i by (cases "x = w") simp_all
  qed
  then show ?thesis
    using q by (simp add: partial_quotient_def onto_vertices_def)
qed

lemma quotient_set_einfo: "partial_quotient tr g D E h m \<Longrightarrow> partial_quotient tr g D E (set_einfo e i h) m"
  by (simp add: partial_quotient_def onto_vertices_def image_vertices_def)

text \<open>Transferring a vertex of its own class, a vertex of a known class, and an edge.\<close>

lemma image_edges_upd: "ends_in g E D \<Longrightarrow> v \<notin> D \<Longrightarrow> image_edges g E (m(v \<mapsto> w)) = image_edges g E m"
  unfolding image_edges_def by (rule image_cong) (auto simp: ends_in_def)

lemma quotient_fresh:
  assumes q: "partial_quotient tr g D E h m" and v: "v \<notin> D" and i: "vi_type i = vi_type (vinfo g v)" "vi_type i = ACTOR \<longrightarrow> i = vinfo g v"
    and c: "\<forall>b \<in> D. \<not> merged_together tr g v b"
  shows "partial_quotient tr g (insert v D) E (h\<lparr>sg_verts := sg_verts h @ [i]\<rparr>) (m(v \<mapsto> length (sg_verts h)))"
proof -
  let ?h = "h\<lparr>sg_verts := sg_verts h @ [i]\<rparr>" and ?m = "m(v \<mapsto> length (sg_verts h))"
  have old: "w < length (sg_verts h) \<and> vi_type (vinfo h w) = vi_type (vinfo g b) \<and> (vi_type (vinfo g b) = ACTOR \<longrightarrow> vinfo h w = vinfo g b)"
    if "m b = Some w" for b w
    by (rule quotient_vertexD [OF q that])
  have vs: "image_vertices g ?h ?m"
    unfolding image_vertices_def
  proof (intro allI impI)
    fix b w
    assume b: "?m b = Some w"
    show "w < length (sg_verts ?h) \<and> vi_type (vinfo ?h w) = vi_type (vinfo g b) \<and> (vi_type (vinfo g b) = ACTOR \<longrightarrow> vinfo ?h w = vinfo g b)"
      using b i old [of b w] by (cases "b = v") (auto simp: vinfo_def nth_append)
  qed
  have cs: "image_classes tr g ?m"
    unfolding image_classes_def
  proof (intro allI impI)
    fix a b x y
    assume ab: "?m a = Some x" "?m b = Some y"
    have sym: "merged_together tr g b v = merged_together tr g v b" for b
      by (rule merged_together_sym)
    have D: "b \<in> D \<and> w < length (sg_verts h)" if "m b = Some w" for b w
      using quotient_domD [OF q] old [OF that] that by blast
    show "x = y \<longleftrightarrow> merged_together tr g a b"
    proof (cases "a = v \<or> b = v")
      case True
      then show ?thesis
        using ab c D [of a x] D [of b y] sym [of a] by (cases "a = b") (auto simp: merged_together_refl)
    next
      case False
      then show ?thesis
        using ab quotient_classD [OF q, of a x b y] by simp
    qed
  qed
  have m: "onto_vertices h m" "dom m = D" and e: "ends_in g E D"
    using q by (simp_all add: partial_quotient_def)
  have "\<exists>b. ?m b = Some w" if "w < length (sg_verts h)" for w
    using m v that unfolding onto_vertices_def by (metis domI fun_upd_other)
  then have "onto_vertices ?h ?m"
    by (auto simp: onto_vertices_def less_Suc_eq)
  moreover have "edge_pairs ?h = edge_pairs h" "ends_in g E (insert v D)"
    using e by (auto simp: edge_pairs_def ends_in_def)
  ultimately show ?thesis
    using q vs cs image_edges_upd [OF e v] by (simp add: partial_quotient_def)
qed

lemma quotient_join:
  assumes q: "partial_quotient tr g D E h m" and v: "v \<notin> D" and c: "m b = Some w" "merged_together tr g v b"
    and t: "vi_type (vinfo g v) = vi_type (vinfo g b)" "vi_type (vinfo g v) \<noteq> ACTOR"
  shows "partial_quotient tr g (insert v D) E h (m(v \<mapsto> w))"
proof -
  have vs: "image_vertices g h (m(v \<mapsto> w))"
    unfolding image_vertices_def
  proof (intro allI impI)
    fix a x
    assume a: "(m(v \<mapsto> w)) a = Some x"
    show "x < length (sg_verts h) \<and> vi_type (vinfo h x) = vi_type (vinfo g a) \<and> (vi_type (vinfo g a) = ACTOR \<longrightarrow> vinfo h x = vinfo g a)"
      using a t quotient_vertexD [OF q c(1)] quotient_vertexD [OF q, of a x] by (cases "a = v") auto
  qed
  have cs: "image_classes tr g (m(v \<mapsto> w))"
    unfolding image_classes_def
  proof (intro allI impI)
    fix a a' x y
    assume ab: "(m(v \<mapsto> w)) a = Some x" "(m(v \<mapsto> w)) a' = Some y"
    have rep: "\<exists>r. m r = Some x \<and> merged_together tr g a r" if "(m(v \<mapsto> w)) a = Some x" for a x
      using that c by (cases "a = v") auto
    obtain r r' where r: "m r = Some x" "merged_together tr g a r" "m r' = Some y" "merged_together tr g a' r'"
      using rep [OF ab(1)] rep [OF ab(2)] by blast
    have "x = y \<longleftrightarrow> merged_together tr g r r'"
      by (rule quotient_classD [OF q r(1,3)])
    also have "\<dots> \<longleftrightarrow> merged_together tr g a a'"
      using r(2,4) by (meson merged_together_sym merged_together_trans)
    finally show "x = y \<longleftrightarrow> merged_together tr g a a'" .
  qed
  have "onto_vertices h (m(v \<mapsto> w))"
    using q v unfolding partial_quotient_def onto_vertices_def by (metis domI fun_upd_other)
  moreover have e: "ends_in g E D"
    using q by (simp add: partial_quotient_def)
  moreover from this have "ends_in g E (insert v D)"
    by (auto simp: ends_in_def)
  ultimately show ?thesis
    using q vs cs image_edges_upd [OF e v] by (simp add: partial_quotient_def)
qed

lemma image_edges_insert: "image_edges g (insert e E) m = insert (the (m (esrc g e)), the (m (etgt g e))) (image_edges g E m)"
  by (simp add: image_edges_def)

lemma quotient_add_edge:
  assumes q: "partial_quotient tr g D E h m" and e: "m (esrc g e) = Some u" "m (etgt g e) = Some v" "(u, v) \<notin> set (edge_pairs h)"
  shows "partial_quotient tr g D (insert e E) (h\<lparr>sg_edges := sg_edges h @ [(u, v, i)]\<rparr>) m"
proof -
  have "esrc g e \<in> D" "etgt g e \<in> D"
    using e quotient_domD [OF q] by blast+
  moreover have "edge_pairs (h\<lparr>sg_edges := sg_edges h @ [(u, v, i)]\<rparr>) = edge_pairs h @ [(u, v)]"
    by (simp add: edge_pairs_def)
  ultimately show ?thesis
    using q e by (auto simp: partial_quotient_def ends_in_def image_edges_insert image_vertices_def onto_vertices_def vinfo_def)
qed

lemma quotient_old_edge:
  assumes q: "partial_quotient tr g D E h m" and e: "m (esrc g e) = Some u" "m (etgt g e) = Some v" "(u, v) \<in> set (edge_pairs h)"
  shows "partial_quotient tr g D (insert e E) h m"
proof -
  have "esrc g e \<in> D" "etgt g e \<in> D"
    using e quotient_domD [OF q] by blast+
  then show ?thesis
    using q e by (auto simp: partial_quotient_def ends_in_def image_edges_insert)
qed

section \<open>The write phase\<close>

text \<open>
  Graphs that can be merged: edges join an actor and a channel, a channel has at most one writer, and
  channels written from the same port agree on their token size (otherwise an assertion fails).
\<close>

definition same_port :: "sng \<Rightarrow> nat \<Rightarrow> nat \<Rightarrow> bool" where
  "same_port g e e' \<longleftrightarrow> esrc g e = esrc g e' \<and> ei_name (einfo g e) = ei_name (einfo g e')
     \<and> vi_type (vinfo g (etgt g e)) = vi_type (vinfo g (etgt g e'))"

definition mergeable :: "sng \<Rightarrow> bool" where
  "mergeable g \<longleftrightarrow> sng_wf g
   \<and> list_all (\<lambda>(u, v, i). (vi_type (vinfo g u) = ACTOR) \<noteq> (vi_type (vinfo g v) = ACTOR)) (sg_edges g)
   \<and> list_all (\<lambda>v. vi_type (vinfo g v) = ACTOR \<or> length (in_edges g v) \<le> 1) (vertices g)
   \<and> list_all (\<lambda>e. list_all (\<lambda>e'. same_port g e e' \<longrightarrow> vi_size (vinfo g (etgt g e)) = vi_size (vinfo g (etgt g e')))
       [0..<length (sg_edges g)]) [0..<length (sg_edges g)]"

definition merging :: "transform \<Rightarrow> bool" where
  "merging tr \<longleftrightarrow> tr = FIFOS_SAME_CONTENT_MERGING \<or> tr = FIFOS_SAME_PRODUCER_MERGING"

lemma mergeable_ends:
  assumes "mergeable g" "e < length (sg_edges g)"
  shows "esrc g e < length (sg_verts g) \<and> etgt g e < length (sg_verts g)
    \<and> (vi_type (vinfo g (esrc g e)) = ACTOR) \<noteq> (vi_type (vinfo g (etgt g e)) = ACTOR)"
proof -
  obtain u v i where uv: "sg_edges g ! e = (u, v, i)"
    by (cases "sg_edges g ! e")
  then have "(u, v, i) \<in> set (sg_edges g)"
    using assms(2) nth_mem by metis
  then show ?thesis
    using assms(1) uv by (auto simp: mergeable_def sng_wf_def list_all_iff esrc_def etgt_def)
qed

lemma mergeable_writer:
  assumes "mergeable g" "e < length (sg_edges g)" "vi_type (vinfo g (etgt g e)) \<noteq> ACTOR"
  shows "in_edges g (etgt g e) = [e]"
proof -
  have "length (in_edges g (etgt g e)) \<le> 1"
    using assms mergeable_ends [OF assms(1,2)] by (auto simp: mergeable_def list_all_iff vertices_def)
  moreover have "e \<in> set (in_edges g (etgt g e))"
    using assms(2) by (simp add: in_edges_def)
  ultimately show ?thesis
    by (cases "in_edges g (etgt g e)") auto
qed

definition content_name :: "sng \<Rightarrow> nat \<Rightarrow> string" where
  "content_name g e = (if vi_type (vinfo g (etgt g e)) = FIFO then ''cf:'' else ''reg:'')
     @ vi_name (vinfo g (esrc g e)) @ ''.'' @ ei_name (einfo g e)"

definition merged_name :: "transform \<Rightarrow> sng \<Rightarrow> nat \<Rightarrow> string" where
  "merged_name tr g e = (if vi_type (vinfo g (etgt g e)) = FIFO then ''cf:'' else ''reg:'')
     @ vi_name (vinfo g (esrc g e)) @ ''.'' @ (if tr = FIFOS_SAME_CONTENT_MERGING then ei_name (einfo g e) else ''out'')"

lemma merge_class_edge:
  "mergeable g \<Longrightarrow> e < length (sg_edges g) \<Longrightarrow> vi_type (vinfo g (etgt g e)) \<noteq> ACTOR \<Longrightarrow>
   merge_class tr g (etgt g e) = Some (vi_type (vinfo g (etgt g e)), esrc g e,
     if tr = FIFOS_SAME_CONTENT_MERGING then ei_name (einfo g e) else ''out'')"
  by (simp add: merge_class_def mergeable_writer)

lemma channel_kinds: "t \<noteq> ACTOR \<Longrightarrow> t' \<noteq> ACTOR \<Longrightarrow> (t = FIFO \<longleftrightarrow> t' = FIFO) \<Longrightarrow> t = t'"
  by (cases t; cases t') auto

lemma merged_name_class:
  assumes "mergeable g" "e < length (sg_edges g)" "e' < length (sg_edges g)" "esrc g e = esrc g e'"
    "vi_type (vinfo g (etgt g e)) \<noteq> ACTOR" "vi_type (vinfo g (etgt g e')) \<noteq> ACTOR"
  shows "merged_name tr g e = merged_name tr g e' \<longleftrightarrow> merge_class tr g (etgt g e) = merge_class tr g (etgt g e')"
  using assms channel_kinds [of "vi_type (vinfo g (etgt g e))" "vi_type (vinfo g (etgt g e'))"]
  by (auto simp: merge_class_edge merged_name_def)

lemma content_name_port:
  assumes "e < length (sg_edges g)" "e' < length (sg_edges g)" "esrc g e = esrc g e'"
    "vi_type (vinfo g (etgt g e)) \<noteq> ACTOR" "vi_type (vinfo g (etgt g e')) \<noteq> ACTOR"
  shows "content_name g e = content_name g e' \<longleftrightarrow> same_port g e e'"
  using assms channel_kinds [of "vi_type (vinfo g (etgt g e))" "vi_type (vinfo g (etgt g e'))"]
  by (auto simp: content_name_def same_port_def)

lemma same_port_size:
  "mergeable g \<Longrightarrow> e < length (sg_edges g) \<Longrightarrow> e' < length (sg_edges g) \<Longrightarrow> same_port g e e' \<Longrightarrow>
   vi_size (vinfo g (etgt g e)) = vi_size (vinfo g (etgt g e'))"
  by (simp add: mergeable_def list_all_iff)

lemma note_content_ok:
  assumes "\<forall>(k', t, c) \<in> set os. k' = k \<longrightarrow> t = tsz"
  shows "\<exists>new os'. note_content k tsz cap os = Inr (new, os')
    \<and> (\<forall>(k', t, c) \<in> set os'. k' = k \<and> t = tsz \<or> (\<exists>c. (k', t, c) \<in> set os))
    \<and> map fst os' = map fst os @ (if k \<in> fst ` set os then [] else [k])"
proof (cases "map_of os k")
  case None
  then have "k \<notin> fst ` set os"
    by (simp add: map_of_eq_None_iff)
  with None show ?thesis
    by (auto simp: note_content_def)
next
  case (Some tc)
  obtain t c where tc: "tc = (t, c)"
    by (cases tc)
  have "(k, t, c) \<in> set os"
    using Some tc map_of_SomeD by fastforce
  then have "t = tsz" "k \<in> fst ` set os"
    using assms by force+
  then show ?thesis
    using Some tc by (force simp: note_content_def o_def case_prod_beta)
qed

lemma join_vertices_ok:
  assumes "merging tr" "vi_type m \<noteq> ACTOR" "tr = FIFOS_SAME_CONTENT_MERGING \<Longrightarrow> length os = 1"
  shows "\<exists>m'. join_vertices tr k os m c = Inr m' \<and> vi_type m' = vi_type m"
  using assms by (auto simp: merging_def join_vertices_def split: vtype.split)

text \<open>What the map of merged channels of the current writer \<open>u\<close> says of its edges in \<open>E\<close>.\<close>

definition merge_info_ok :: "transform \<Rightarrow> sng \<Rightarrow> nat \<Rightarrow> nat set \<Rightarrow> (nat \<rightharpoonup> nat) \<Rightarrow> string \<Rightarrow> merge_info \<Rightarrow> bool" where
  "merge_info_ok tr g u E m k mi \<longleftrightarrow>
     (\<exists>e \<in> E. esrc g e = u \<and> merged_name tr g e = k \<and> m (etgt g e) = Some (mi_vd mi))
   \<and> (\<forall>(k', t, c) \<in> set (mi_orig mi). \<exists>e \<in> E. esrc g e = u \<and> content_name g e = k' \<and> vi_size (vinfo g (etgt g e)) = t)
   \<and> (tr = FIFOS_SAME_CONTENT_MERGING \<longrightarrow> map fst (mi_orig mi) = [k])"

definition writing :: "transform \<Rightarrow> sng \<Rightarrow> nat \<Rightarrow> nat set \<Rightarrow> write_state \<Rightarrow> bool" where
  "writing tr g u E st \<longleftrightarrow>
     (\<forall>e \<in> E. esrc g e = u \<longrightarrow> (\<exists>mi. map_of (wr_merged st) (merged_name tr g e) = Some mi \<and> tr_map st (etgt g e) = Some (mi_vd mi)))
   \<and> (\<forall>k mi. map_of (wr_merged st) k = Some mi \<longrightarrow> merge_info_ok tr g u E (tr_map st) k mi)"

lemma map_of_set_merged: "map_of (set_merged k x m) k' = (if k' = k then Some x else map_of m k')"
proof -
  have "map_of (map (\<lambda>(k', y). (k', if k' = k then x else y)) m) k' = (if k' = k \<and> map_of m k \<noteq> None then Some x else map_of m k')"
    by (induction m) auto
  then show ?thesis
    by (auto simp: set_merged_def map_add_def split: option.splits)
qed

lemma merge_info_ok_mono:
  assumes "merge_info_ok tr g u E m k mi" "\<And>e. e \<in> E \<Longrightarrow> etgt g e \<noteq> v"
  shows "merge_info_ok tr g u (insert e' E) (m(v \<mapsto> w)) k mi"
proof -
  have "\<exists>e \<in> insert e' E. esrc g e = u \<and> merged_name tr g e = k \<and> (m(v \<mapsto> w)) (etgt g e) = Some (mi_vd mi)"
    using assms by (auto simp: merge_info_ok_def)
  then show ?thesis
    using assms(1) unfolding merge_info_ok_def by blast
qed

text \<open>One more edge of the writer leaves the invariant, if its entry is right.\<close>

lemma writing_insert:
  assumes w: "writing tr g u E st" and new: "\<And>e'. e' \<in> E \<Longrightarrow> etgt g e' \<noteq> etgt g e"
    and mi: "merge_info_ok tr g u (insert e E) ((tr_map st)(etgt g e \<mapsto> mi_vd mi)) (merged_name tr g e) mi"
    and vd: "\<And>mi0. map_of (wr_merged st) (merged_name tr g e) = Some mi0 \<Longrightarrow> mi_vd mi0 = mi_vd mi"
  shows "writing tr g u (insert e E) (st\<lparr>tr_out := h, tr_map := (tr_map st)(etgt g e \<mapsto> mi_vd mi),
           wr_merged := set_merged (merged_name tr g e) mi (wr_merged st)\<rparr>)"
  unfolding writing_def
proof (intro conjI allI impI ballI)
  fix k mi'
  assume k: "map_of (wr_merged (st\<lparr>tr_out := h, tr_map := (tr_map st)(etgt g e \<mapsto> mi_vd mi),
           wr_merged := set_merged (merged_name tr g e) mi (wr_merged st)\<rparr>)) k = Some mi'"
  have "merge_info_ok tr g u (insert e E) ((tr_map st)(etgt g e \<mapsto> mi_vd mi)) k mi'"
  proof (cases "k = merged_name tr g e")
    case True
    then show ?thesis
      using k mi by (simp add: map_of_set_merged)
  next
    case False
    then have "merge_info_ok tr g u E (tr_map st) k mi'"
      using k w by (simp add: map_of_set_merged writing_def)
    then show ?thesis
      using new by (rule merge_info_ok_mono)
  qed
  then show "merge_info_ok tr g u (insert e E) (tr_map (st\<lparr>tr_out := h, tr_map := (tr_map st)(etgt g e \<mapsto> mi_vd mi),
           wr_merged := set_merged (merged_name tr g e) mi (wr_merged st)\<rparr>)) k mi'"
    by simp
next
  fix e'
  assume e': "e' \<in> insert e E" "esrc g e' = u"
  show "\<exists>mi'. map_of (wr_merged (st\<lparr>tr_out := h, tr_map := (tr_map st)(etgt g e \<mapsto> mi_vd mi),
           wr_merged := set_merged (merged_name tr g e) mi (wr_merged st)\<rparr>)) (merged_name tr g e') = Some mi'
    \<and> tr_map (st\<lparr>tr_out := h, tr_map := (tr_map st)(etgt g e \<mapsto> mi_vd mi),
           wr_merged := set_merged (merged_name tr g e) mi (wr_merged st)\<rparr>) (etgt g e') = Some (mi_vd mi')"
  proof (cases "e' = e")
    case True
    then show ?thesis
      by (simp add: map_of_set_merged)
  next
    case False
    then have "e' \<in> E"
      using e' by simp
    then obtain mi0 where mi0: "map_of (wr_merged st) (merged_name tr g e') = Some mi0" "tr_map st (etgt g e') = Some (mi_vd mi0)"
      using w e'(2) unfolding writing_def by blast
    show ?thesis
    proof (cases "merged_name tr g e' = merged_name tr g e")
      case True
      then have "mi_vd mi0 = mi_vd mi"
        using vd mi0(1) by simp
      then show ?thesis
        using True mi0(2) new [OF \<open>e' \<in> E\<close>] by (simp add: map_of_set_merged)
    next
      case False
      then show ?thesis
        using mi0 new [OF \<open>e' \<in> E\<close>] by (simp add: map_of_set_merged)
    qed
  qed
qed

lemma write_edge_eq:
  assumes "merging tr" "vi_type (vinfo g (etgt g e)) \<noteq> ACTOR" "esrc g e = u"
  obtains cap where "write_edge tr g (vi_name (vinfo g u)) a e st = rbind
     (case map_of (wr_merged st) (merged_name tr g e) of
        None \<Rightarrow> Inr (merge_first a (content_name g e) (vi_size (vinfo g (etgt g e))) cap (vinfo g (etgt g e)) (einfo g e) (tr_out st))
      | Some mi \<Rightarrow> merge_again tr (merged_name tr g e) (content_name g e) (vi_size (vinfo g (etgt g e))) cap
          (vinfo g (etgt g e)) (einfo g e) mi (tr_out st))
     (\<lambda>(mi, g'). Inr (st\<lparr>tr_out := g', tr_map := map_insert (etgt g e) (mi_vd mi) (tr_map st),
        wr_merged := set_merged (merged_name tr g e) mi (wr_merged st)\<rparr>))"
proof -
  define cap where "cap = (if vi_type (vinfo g (etgt g e)) = FIFO then vi_capacity (vinfo g (etgt g e)) else 1)"
  obtain producer where
    "chan_params (vi_name (vinfo g u)) (ei_name (einfo g e)) (vinfo g (etgt g e))
       = Inr (content_name g e, producer, vi_size (vinfo g (etgt g e)), cap)"
    "chan_name tr (content_name g e) producer = Inr (merged_name tr g e)"
    using assms
    by (cases "vi_type (vinfo g (etgt g e))")
      (auto simp: merging_def chan_params_def chan_name_def content_name_def merged_name_def cap_def)
  then show thesis
    by (intro that [of cap]) (simp add: write_edge_def Let_def)
qed

lemma merge_first_eq:
  "merge_first a k t c vi ei h = (\<lparr>mi_vd = length (sg_verts h), mi_ed = length (sg_edges h), mi_orig = [(k, t, c)]\<rparr>,
     h\<lparr>sg_verts := sg_verts h @ [vi], sg_edges := sg_edges h @ [(a, length (sg_verts h), ei)]\<rparr>)"
  by (simp add: merge_first_def add_vertex_def add_edge_def set_vinfo_def set_einfo_def esrc_def etgt_def)

lemma merge_again_ok:
  assumes q: "partial_quotient tr g D E h m" and tr: "merging tr"
    and t: "vi_type (vinfo h (mi_vd mi)) = vi_type c" "vi_type c \<noteq> ACTOR" "mi_vd mi < length (sg_verts h)"
    and k: "\<forall>(k', t, c) \<in> set (mi_orig mi). k' = k \<longrightarrow> t = tsz"
    and sc: "tr = FIFOS_SAME_CONTENT_MERGING \<longrightarrow> map fst (mi_orig mi) = [k]"
  shows "\<exists>mi' h'. merge_again tr name k tsz cap c e mi h = Inr (mi', h') \<and> mi_vd mi' = mi_vd mi \<and> partial_quotient tr g D E h' m
    \<and> (\<forall>(k', t, c) \<in> set (mi_orig mi'). k' = k \<and> t = tsz \<or> (\<exists>c. (k', t, c) \<in> set (mi_orig mi)))
    \<and> (tr = FIFOS_SAME_CONTENT_MERGING \<longrightarrow> map fst (mi_orig mi') = [k])"
proof -
  obtain new os where os: "note_content k tsz cap (mi_orig mi) = Inr (new, os)"
      "\<forall>(k', t, c) \<in> set os. k' = k \<and> t = tsz \<or> (\<exists>c. (k', t, c) \<in> set (mi_orig mi))"
      "map fst os = map fst (mi_orig mi) @ (if k \<in> fst ` set (mi_orig mi) then [] else [k])"
    using note_content_ok [OF k, of cap] by blast
  have keys: "map fst os = [k]" if "tr = FIFOS_SAME_CONTENT_MERGING"
  proof -
    have "fst ` set (mi_orig mi) = set (map fst (mi_orig mi))"
      by simp
    then show ?thesis
      using os(3) sc that by simp
  qed
  then have len: "length os = 1" if "tr = FIFOS_SAME_CONTENT_MERGING"
    using that by (metis length_map One_nat_def length_Cons list.size(3))
  let ?m = "(vinfo h (mi_vd mi))\<lparr>vi_name := name\<rparr>"
  obtain m' where m': "join_vertices tr k os ?m c = Inr m'" "vi_type m' = vi_type ?m"
    using join_vertices_ok [OF tr, of ?m os k c] len t by auto
  define h1 where "h1 = set_vinfo (mi_vd mi) m' h"
  define h2 where "h2 = (if new then set_einfo (mi_ed mi) (join_edges (einfo h1 (mi_ed mi)) e) h1 else h1)"
  have "partial_quotient tr g D E h1 m"
    unfolding h1_def using m'(2) t by (intro quotient_set_vinfo [OF q]) simp_all
  then have "partial_quotient tr g D E h2 m"
    by (simp add: h2_def quotient_set_einfo)
  moreover have "merge_again tr name k tsz cap c e mi h = Inr (mi\<lparr>mi_orig := os\<rparr>, h2)"
    using t(1) os(1) m'(1) by (simp add: merge_again_def Let_def h1_def h2_def del: sng_upd_simps)
  ultimately show ?thesis
    using os(2) keys by simp
qed

text \<open>Vertices transferred while writing: actors, and targets of the written edges.\<close>

definition written :: "sng \<Rightarrow> nat set \<Rightarrow> nat set \<Rightarrow> nat set" where
  "written g As E = As \<union> etgt g ` E"

lemma written_insert: "written g As (insert e E) = insert (etgt g e) (written g As E)"
  by (simp add: written_def)

lemma write_new:
  assumes g: "mergeable g" and tr: "merging tr"
    and q: "partial_quotient tr g (written g As E) E (tr_out st) (tr_map st)" and w: "writing tr g u E st"
    and E: "(\<forall>e \<in> E. e < length (sg_edges g))" "\<forall>e \<in> E. vi_type (vinfo g (etgt g e)) \<noteq> ACTOR"
    and As: "\<forall>v \<in> As. vi_type (vinfo g v) = ACTOR"
    and e: "e < length (sg_edges g)" "esrc g e = u" "vi_type (vinfo g (etgt g e)) \<noteq> ACTOR" "e \<notin> E"
    and a: "tr_map st u = Some a"
    and none: "map_of (wr_merged st) (merged_name tr g e) = None"
  defines "h \<equiv> tr_out st"
  defines "h' \<equiv> h\<lparr>sg_verts := sg_verts h @ [vinfo g (etgt g e)], sg_edges := sg_edges h @ [(a, length (sg_verts h), einfo g e)]\<rparr>"
  shows "partial_quotient tr g (written g As (insert e E)) (insert e E) h' ((tr_map st)(etgt g e \<mapsto> length (sg_verts h)))"
proof -
  have new: "etgt g e \<notin> written g As E"
  proof
    assume "etgt g e \<in> written g As E"
    then obtain e' where "e' \<in> E" "etgt g e' = etgt g e"
      using As e(3) by (auto simp: written_def)
    then have "in_edges g (etgt g e) = [e']"
      using mergeable_writer [OF g, of e'] E by metis
    then show False
      using mergeable_writer [OF g e(1,3)] \<open>e' \<in> E\<close> e(4) by simp
  qed
  have cls: "\<forall>b \<in> written g As E. \<not> merged_together tr g (etgt g e) b"
  proof (intro ballI notI)
    fix b
    assume b: "b \<in> written g As E" and m: "merged_together tr g (etgt g e) b"
    have c: "merge_class tr g (etgt g e) = merge_class tr g b" "merge_class tr g b \<noteq> None"
      using m b new unfolding merged_together_def by metis+
    then obtain e' where e': "e' \<in> E" "b = etgt g e'"
      using b As by (auto simp: written_def merge_class_def)
    have l: "e' < length (sg_edges g)" "vi_type (vinfo g (etgt g e')) \<noteq> ACTOR"
      using e'(1) E by auto
    have "esrc g e' = u"
      using c merge_class_edge [OF g e(1,3), of tr] merge_class_edge [OF g l, of tr] e(2) e'(2) by simp
    moreover from this have "merged_name tr g e' = merged_name tr g e"
      using merged_name_class [OF g l(1) e(1) _ l(2) e(3), of tr] c e(2) e'(2) by simp
    ultimately have "map_of (wr_merged st) (merged_name tr g e) \<noteq> None"
      using w e'(1) unfolding writing_def by (metis option.distinct(1))
    then show False
      using none by simp
  qed
  define h0 where "h0 = h\<lparr>sg_verts := sg_verts h @ [vinfo g (etgt g e)]\<rparr>"
  define m where "m = (tr_map st)(etgt g e \<mapsto> length (sg_verts h))"
  have q0: "partial_quotient tr g (insert (etgt g e) (written g As E)) E h0 m"
    unfolding h0_def m_def h_def using new cls by (intro quotient_fresh [OF q]) simp_all
  have "u \<noteq> etgt g e"
    using mergeable_ends [OF g e(1)] e(2,3) by auto
  then have ends: "m (esrc g e) = Some a" "m (etgt g e) = Some (length (sg_verts h))"
    using a by (simp_all add: m_def e(2))
  have "(a, length (sg_verts h)) \<notin> set (edge_pairs h0)"
    using quotient_wf [OF q] by (auto simp: sng_wf_pairs h0_def h_def edge_pairs_def)
  from quotient_add_edge [OF q0 ends this, of "einfo g e"] show ?thesis
    unfolding written_insert m_def [symmetric] by (simp add: h'_def h0_def)
qed

lemma write_again:
  assumes g: "mergeable g"
    and q: "partial_quotient tr g (written g As E) E h m"
    and E: "(\<forall>e \<in> E. e < length (sg_edges g))" "\<forall>e \<in> E. vi_type (vinfo g (etgt g e)) \<noteq> ACTOR"
    and e: "e < length (sg_edges g)" "esrc g e = u" "vi_type (vinfo g (etgt g e)) \<noteq> ACTOR" "etgt g e \<notin> written g As E"
    and a: "m u = Some a"
    and e': "e' \<in> E" "esrc g e' = u" "merged_name tr g e' = merged_name tr g e" "m (etgt g e') = Some w"
  shows "partial_quotient tr g (written g As (insert e E)) (insert e E) h (m(etgt g e \<mapsto> w))"
proof -
  have l: "e' < length (sg_edges g)" "vi_type (vinfo g (etgt g e')) \<noteq> ACTOR"
    using e'(1) E by auto
  have c: "merge_class tr g (etgt g e) = merge_class tr g (etgt g e')"
    using merged_name_class [OF g e(1) l(1) _ e(3) l(2), of tr] e(2) e'(2,3) by simp
  then have "merged_together tr g (etgt g e) (etgt g e')" "vi_type (vinfo g (etgt g e)) = vi_type (vinfo g (etgt g e'))"
    using merge_class_edge [OF g e(1,3), of tr] merge_class_edge [OF g l, of tr] by (simp_all add: merged_together_def)
  then have q1: "partial_quotient tr g (insert (etgt g e) (written g As E)) E h (m(etgt g e \<mapsto> w))"
    using e(3) by (intro quotient_join [OF q e(4) e'(4)])
  have "u \<noteq> etgt g e"
    using mergeable_ends [OF g e(1)] e(2,3) by auto
  then have ends: "(m(etgt g e \<mapsto> w)) (esrc g e) = Some a" "(m(etgt g e \<mapsto> w)) (etgt g e) = Some w"
    using a by (simp_all add: e(2))
  have "set (edge_pairs h) = image_edges g E m"
    using q by (simp add: partial_quotient_def)
  then have "(a, w) \<in> set (edge_pairs h)"
    using e' a unfolding image_edges_def by force
  from quotient_old_edge [OF q1 ends this] show ?thesis
    unfolding written_insert .
qed

text \<open>One out edge of the writer \<open>u\<close>, whose vertex is \<open>a\<close>.\<close>

definition write_inv :: "transform \<Rightarrow> sng \<Rightarrow> nat set \<Rightarrow> nat set \<Rightarrow> transform_state \<Rightarrow> bool" where
  "write_inv tr g As E st \<longleftrightarrow> partial_quotient tr g (written g As E) E (tr_out st) (tr_map st)
   \<and> (\<forall>e \<in> E. e < length (sg_edges g)) \<and> (\<forall>e \<in> E. vi_type (vinfo g (etgt g e)) \<noteq> ACTOR)
   \<and> (\<forall>v \<in> As. vi_type (vinfo g v) = ACTOR)"

lemma truncate_sel [simp]:
  "tr_out (transform_state.truncate st) = tr_out st" "tr_map (transform_state.truncate st) = tr_map st"
  by (simp_all add: transform_state.truncate_def)

lemma new_target:
  assumes "mergeable g" "write_inv tr g As E st" "e < length (sg_edges g)" "vi_type (vinfo g (etgt g e)) \<noteq> ACTOR" "e \<notin> E"
  shows "etgt g e \<notin> written g As E"
proof
  assume "etgt g e \<in> written g As E"
  then obtain e' where e': "e' \<in> E" "etgt g e' = etgt g e"
    using assms(2,4) by (auto simp: written_def write_inv_def)
  then have "e' < length (sg_edges g)"
    using assms(2) unfolding write_inv_def by simp
  from mergeable_writer [OF assms(1) this] have "in_edges g (etgt g e) = [e']"
    unfolding e'(2) using assms(4) by blast
  then have "e' = e"
    unfolding mergeable_writer [OF assms(1,3,4)] by simp
  with e'(1) assms(5) show False
    by simp
qed

lemma write_edge_done:
  assumes i: "write_inv tr g As E (transform_state.truncate st)" and w: "writing tr g u E st"
    and e: "e < length (sg_edges g)" "vi_type (vinfo g (etgt g e)) \<noteq> ACTOR" "etgt g e \<notin> written g As E" "u \<noteq> etgt g e"
    and a: "tr_map st u = Some a"
    and q: "partial_quotient tr g (written g As (insert e E)) (insert e E) h' ((tr_map st)(etgt g e \<mapsto> mi_vd mi))"
    and mi: "merge_info_ok tr g u (insert e E) ((tr_map st)(etgt g e \<mapsto> mi_vd mi)) (merged_name tr g e) mi"
      "\<And>mi0. map_of (wr_merged st) (merged_name tr g e) = Some mi0 \<Longrightarrow> mi_vd mi0 = mi_vd mi"
  defines "st' \<equiv> st\<lparr>tr_out := h', tr_map := map_insert (etgt g e) (mi_vd mi) (tr_map st),
        wr_merged := set_merged (merged_name tr g e) mi (wr_merged st)\<rparr>"
  shows "write_inv tr g As (insert e E) (transform_state.truncate st') \<and> writing tr g u (insert e E) st' \<and> tr_map st' u = Some a"
proof -
  have "partial_quotient tr g (written g As E) E (tr_out st) (tr_map st)"
    using i by (simp add: write_inv_def transform_state.truncate_def)
  then have "tr_map st (etgt g e) = None"
    using quotient_domD e(3) by (cases "tr_map st (etgt g e)") blast+
  then have st': "st' = st\<lparr>tr_out := h', tr_map := (tr_map st)(etgt g e \<mapsto> mi_vd mi),
        wr_merged := set_merged (merged_name tr g e) mi (wr_merged st)\<rparr>"
    by (simp add: st'_def map_insert_def)
  have "etgt g e' \<noteq> etgt g e" if "e' \<in> E" for e'
    using e(3) that unfolding written_def by (metis UnI2 image_eqI)
  from writing_insert [OF w this mi, of h'] show ?thesis
    unfolding st' using q i e a by (simp add: write_inv_def transform_state.truncate_def)
qed

lemma merge_info_first:
  "esrc g e = u \<Longrightarrow> merge_info_ok tr g u (insert e E) (m(etgt g e \<mapsto> v)) (merged_name tr g e)
     \<lparr>mi_vd = v, mi_ed = k, mi_orig = [(content_name g e, vi_size (vinfo g (etgt g e)), cap)]\<rparr>"
  by (simp add: merge_info_ok_def) (simp add: content_name_def merged_name_def)

lemma merge_info_entry:
  "merge_info_ok tr g u E m k mi \<Longrightarrow> (k', t, c) \<in> set (mi_orig mi) \<Longrightarrow>
   \<exists>e \<in> E. esrc g e = u \<and> content_name g e = k' \<and> vi_size (vinfo g (etgt g e)) = t"
  unfolding merge_info_ok_def by blast

lemma merge_info_again:
  assumes "merge_info_ok tr g u E m (merged_name tr g e) mi" "esrc g e = u"
    and "\<forall>(k', t, c) \<in> set (mi_orig mi'). k' = content_name g e \<and> t = vi_size (vinfo g (etgt g e)) \<or> (\<exists>c. (k', t, c) \<in> set (mi_orig mi))"
    and "tr = FIFOS_SAME_CONTENT_MERGING \<longrightarrow> map fst (mi_orig mi') = [content_name g e]"
  shows "merge_info_ok tr g u (insert e E) (m(etgt g e \<mapsto> mi_vd mi')) (merged_name tr g e) mi'"
proof -
  have entry: "\<exists>e2 \<in> insert e E. esrc g e2 = u \<and> content_name g e2 = k' \<and> vi_size (vinfo g (etgt g e2)) = t"
    if mem: "(k', t, c) \<in> set (mi_orig mi')" for k' t c
  proof (cases "k' = content_name g e \<and> t = vi_size (vinfo g (etgt g e))")
    case True
    then show ?thesis
      using assms(2) by (intro bexI [of _ e]) simp_all
  next
    case False
    then obtain c' where "(k', t, c') \<in> set (mi_orig mi)"
      using assms(3) mem by blast
    from merge_info_entry [OF assms(1) this] show ?thesis
      by blast
  qed
  have name: "merged_name tr g e = content_name g e" if "tr = FIFOS_SAME_CONTENT_MERGING"
    using that by (simp add: merged_name_def content_name_def)
  show ?thesis
    unfolding merge_info_ok_def
  proof (intro conjI)
    show "\<exists>e2 \<in> insert e E. esrc g e2 = u \<and> merged_name tr g e2 = merged_name tr g e
        \<and> (m(etgt g e \<mapsto> mi_vd mi')) (etgt g e2) = Some (mi_vd mi')"
      by (rule bexI [of _ e]) (simp_all add: assms(2))
    show "\<forall>(k', t, c) \<in> set (mi_orig mi'). \<exists>e2 \<in> insert e E. esrc g e2 = u \<and> content_name g e2 = k' \<and> vi_size (vinfo g (etgt g e2)) = t"
      using entry by blast
    show "tr = FIFOS_SAME_CONTENT_MERGING \<longrightarrow> map fst (mi_orig mi') = [merged_name tr g e]"
      using assms(4) name by simp
  qed
qed

text \<open>The entries of a merged channel agree with one more edge of the same name.\<close>

lemma merge_info_sizes:
  assumes g: "mergeable g" and ok: "merge_info_ok tr g u E m (merged_name tr g e) mi"
    and E: "\<forall>e \<in> E. e < length (sg_edges g)" "\<forall>e \<in> E. vi_type (vinfo g (etgt g e)) \<noteq> ACTOR"
    and e: "e < length (sg_edges g)" "esrc g e = u" "vi_type (vinfo g (etgt g e)) \<noteq> ACTOR"
  shows "\<forall>(k', t, c) \<in> set (mi_orig mi). k' = content_name g e \<longrightarrow> t = vi_size (vinfo g (etgt g e))"
proof (intro ballI, clarify)
  fix t c
  assume "(content_name g e, t, c) \<in> set (mi_orig mi)"
  then obtain e2 where e2: "e2 \<in> E" "esrc g e2 = u" "content_name g e2 = content_name g e" "vi_size (vinfo g (etgt g e2)) = t"
    using ok unfolding merge_info_ok_def by blast
  then have "same_port g e2 e"
    using content_name_port [of e2 g e] E e by simp
  then show "t = vi_size (vinfo g (etgt g e))"
    using same_port_size [OF g, of e2 e] E e(1) e2(1,4) by simp
qed

lemma write_edge_ok:
  assumes g: "mergeable g" and tr: "merging tr" and i: "write_inv tr g As E (transform_state.truncate st)"
    and w: "writing tr g u E st"
    and e: "e < length (sg_edges g)" "esrc g e = u" "vi_type (vinfo g (etgt g e)) \<noteq> ACTOR" "e \<notin> E"
    and a: "tr_map st u = Some a"
  shows "\<exists>st'. write_edge tr g (vi_name (vinfo g u)) a e st = Inr st'
    \<and> write_inv tr g As (insert e E) (transform_state.truncate st') \<and> writing tr g u (insert e E) st' \<and> tr_map st' u = Some a"
proof -
  define h where "h = tr_out st"
  define vi where "vi = vinfo g (etgt g e)"
  obtain cap where eq: "write_edge tr g (vi_name (vinfo g u)) a e st = rbind
     (case map_of (wr_merged st) (merged_name tr g e) of
        None \<Rightarrow> Inr (merge_first a (content_name g e) (vi_size vi) cap vi (einfo g e) h)
      | Some mi \<Rightarrow> merge_again tr (merged_name tr g e) (content_name g e) (vi_size vi) cap vi (einfo g e) mi h)
     (\<lambda>(mi, g'). Inr (st\<lparr>tr_out := g', tr_map := map_insert (etgt g e) (mi_vd mi) (tr_map st),
        wr_merged := set_merged (merged_name tr g e) mi (wr_merged st)\<rparr>))"
    unfolding h_def vi_def by (rule write_edge_eq [OF tr e(3,2)])
  have q: "partial_quotient tr g (written g As E) E h (tr_map st)"
    and E: "\<forall>e \<in> E. e < length (sg_edges g)" "\<forall>e \<in> E. vi_type (vinfo g (etgt g e)) \<noteq> ACTOR"
    and As: "\<forall>v \<in> As. vi_type (vinfo g v) = ACTOR"
    using i by (simp_all add: write_inv_def transform_state.truncate_def h_def)
  note new = new_target [OF g i e(1,3,4)]
  have u: "u \<noteq> etgt g e"
    using mergeable_ends [OF g e(1)] e(2,3) by auto
  note fin = write_edge_done [OF i w e(1,3) new u a]
  show ?thesis
  proof (cases "map_of (wr_merged st) (merged_name tr g e)")
    case None
    define mi where "mi = \<lparr>mi_vd = length (sg_verts h), mi_ed = length (sg_edges h), mi_orig = [(content_name g e, vi_size vi, cap)]\<rparr>"
    have ok: "merge_info_ok tr g u (insert e E) ((tr_map st)(etgt g e \<mapsto> mi_vd mi)) (merged_name tr g e) mi"
      unfolding mi_def vi_def using merge_info_first [OF e(2)] by simp
    have q1: "partial_quotient tr g (written g As (insert e E)) (insert e E)
        (h\<lparr>sg_verts := sg_verts h @ [vi], sg_edges := sg_edges h @ [(a, length (sg_verts h), einfo g e)]\<rparr>)
        ((tr_map st)(etgt g e \<mapsto> mi_vd mi))"
      using write_new [OF g tr q [unfolded h_def] w E As e a None] by (simp add: mi_def vi_def h_def)
    have "write_edge tr g (vi_name (vinfo g u)) a e st = Inr (st\<lparr>
        tr_out := h\<lparr>sg_verts := sg_verts h @ [vi], sg_edges := sg_edges h @ [(a, length (sg_verts h), einfo g e)]\<rparr>,
        tr_map := map_insert (etgt g e) (mi_vd mi) (tr_map st), wr_merged := set_merged (merged_name tr g e) mi (wr_merged st)\<rparr>)"
      using None by (simp add: eq merge_first_eq mi_def)
    moreover have "mi_vd mi0 = mi_vd mi" if "map_of (wr_merged st) (merged_name tr g e) = Some mi0" for mi0
      using that None by simp
    ultimately show ?thesis
      using fin [OF q1 ok] by blast
  next
    case (Some mi)
    then have ok: "merge_info_ok tr g u E (tr_map st) (merged_name tr g e) mi"
      using w by (simp add: writing_def)
    then obtain e' where e': "e' \<in> E" "esrc g e' = u" "merged_name tr g e' = merged_name tr g e" "tr_map st (etgt g e') = Some (mi_vd mi)"
      by (auto simp: merge_info_ok_def)
    have "vi_type vi = vi_type (vinfo g (etgt g e'))"
      using e'(1,3) e(3) E(2) channel_kinds [of "vi_type vi" "vi_type (vinfo g (etgt g e'))"]
      by (auto simp: merged_name_def vi_def split: if_splits)
    then have t: "vi_type (vinfo h (mi_vd mi)) = vi_type vi" "vi_type vi \<noteq> ACTOR" "mi_vd mi < length (sg_verts h)"
      using quotient_vertexD [OF q e'(4)] e(3) by (simp_all add: vi_def)
    have sc: "tr = FIFOS_SAME_CONTENT_MERGING \<longrightarrow> map fst (mi_orig mi) = [content_name g e]"
      using ok by (simp add: merge_info_ok_def merged_name_def content_name_def)
    obtain mi' h' where m: "merge_again tr (merged_name tr g e) (content_name g e) (vi_size vi) cap vi (einfo g e) mi h = Inr (mi', h')"
      "mi_vd mi' = mi_vd mi" "partial_quotient tr g (written g As (insert e E)) (insert e E) h' ((tr_map st)(etgt g e \<mapsto> mi_vd mi))"
      "\<forall>(k', t, c) \<in> set (mi_orig mi'). k' = content_name g e \<and> t = vi_size vi \<or> (\<exists>c. (k', t, c) \<in> set (mi_orig mi))"
      "tr = FIFOS_SAME_CONTENT_MERGING \<longrightarrow> map fst (mi_orig mi') = [content_name g e]"
      using merge_again_ok [OF write_again [OF g q E e(1-3) new a e'] tr t merge_info_sizes [OF g ok E e(1-3), folded vi_def] sc,
          where name = "merged_name tr g e" and cap = cap and e = "einfo g e"] by (elim exE conjE) (rule that)
    have "write_edge tr g (vi_name (vinfo g u)) a e st = Inr (st\<lparr>tr_out := h',
        tr_map := map_insert (etgt g e) (mi_vd mi') (tr_map st), wr_merged := set_merged (merged_name tr g e) mi' (wr_merged st)\<rparr>)"
      by (simp add: eq Some m(1))
    moreover have "mi_vd mi0 = mi_vd mi'" if "map_of (wr_merged st) (merged_name tr g e) = Some mi0" for mi0
      using that Some m(2) by simp
    ultimately show ?thesis
      using fin [OF m(3) [folded m(2)] merge_info_again [OF ok e(2) m(4) [unfolded vi_def] m(5)]] by blast
  qed
qed

definition edges_from :: "sng \<Rightarrow> nat set \<Rightarrow> nat set" where
  "edges_from g As = {e. e < length (sg_edges g) \<and> esrc g e \<in> As}"

lemma out_edges_set: "set (out_edges g v) = edges_from g {v}"
  by (auto simp: out_edges_def edges_from_def)

lemma edges_from_insert: "edges_from g (insert v As) = edges_from g As \<union> set (out_edges g v)"
  by (auto simp: out_edges_set edges_from_def)

lemma write_actor_ok:
  assumes g: "mergeable g" and tr: "merging tr" and i: "write_inv tr g As (edges_from g As) st"
    and v: "vi_type (vinfo g v) = ACTOR" "v \<notin> As"
  shows "\<exists>st'. write_actor tr g v st = Inr st' \<and> write_inv tr g (insert v As) (edges_from g (insert v As)) st'"
proof -
  let ?E = "edges_from g As" and ?h = "tr_out st" and ?m = "tr_map st" and ?a = "length (sg_verts (tr_out st))"
  define st1 where "st1 = \<lparr>tr_out = ?h\<lparr>sg_verts := sg_verts ?h @ [vinfo g v]\<rparr>, tr_map = ?m(v \<mapsto> ?a), wr_merged = []\<rparr>"
  have q: "partial_quotient tr g (written g As ?E) ?E ?h ?m"
    using i by (simp add: write_inv_def)
  have new: "v \<notin> written g As ?E"
    using i v by (auto simp: write_inv_def written_def)
  then have none: "?m v = None"
    using quotient_domD [OF q] by (cases "?m v") blast+
  have "\<forall>b \<in> written g As ?E. \<not> merged_together tr g v b"
    using new v(1) by (auto simp: merged_together_def merge_class_def)
  then have "partial_quotient tr g (insert v (written g As ?E)) ?E (tr_out st1) (tr_map st1)"
    using quotient_fresh [OF q new, of "vinfo g v"] by (simp add: st1_def)
  then have "write_inv tr g (insert v As) ?E (transform_state.truncate st1)"
    using i v(1) by (simp add: write_inv_def written_def)
  moreover have "writing tr g v ?E st1"
    using v(2) by (auto simp: writing_def st1_def edges_from_def)
  ultimately have start: "write_inv tr g (insert v As) ?E (transform_state.truncate st1) \<and> writing tr g v ?E st1 \<and> tr_map st1 v = Some ?a"
    by (simp add: st1_def)
  have "\<exists>st2. rfold (write_edge tr g (vi_name (vinfo g v)) ?a) (out_edges g v) st1 = Inr st2
      \<and> write_inv tr g (insert v As) (?E \<union> set (out_edges g v)) (transform_state.truncate st2)
      \<and> writing tr g v (?E \<union> set (out_edges g v)) st2 \<and> tr_map st2 v = Some ?a"
  proof (rule rfold_rule [where P = "\<lambda>ys s. write_inv tr g (insert v As) (?E \<union> set ys) (transform_state.truncate s)
      \<and> writing tr g v (?E \<union> set ys) s \<and> tr_map s v = Some ?a"])
    fix ys e zs s
    assume split: "out_edges g v = ys @ e # zs"
      and s: "write_inv tr g (insert v As) (?E \<union> set ys) (transform_state.truncate s) \<and> writing tr g v (?E \<union> set ys) s \<and> tr_map s v = Some ?a"
    have "e \<in> set (out_edges g v)"
      by (simp add: split)
    then have "e < length (sg_edges g)" "esrc g e = v"
      by (simp_all add: out_edges_set edges_from_def)
    moreover have "distinct (out_edges g v)"
      by (simp add: out_edges_def)
    then have "e \<notin> set ys"
      using split by simp
    moreover from calculation have "vi_type (vinfo g (etgt g e)) \<noteq> ACTOR" "e \<notin> ?E \<union> set ys"
      using mergeable_ends [OF g] v by (auto simp: edges_from_def)
    ultimately show "\<exists>s'. write_edge tr g (vi_name (vinfo g v)) ?a e s = Inr s'
        \<and> write_inv tr g (insert v As) (?E \<union> set (ys @ [e])) (transform_state.truncate s')
        \<and> writing tr g v (?E \<union> set (ys @ [e])) s' \<and> tr_map s' v = Some ?a"
      using write_edge_ok [OF g tr, of "insert v As" "?E \<union> set ys" s v e ?a] s by simp
  qed (use start in simp)
  then show ?thesis
    using v(1) none
    by (auto simp: write_actor_def add_vertex_def st1_def map_insert_def set_vinfo_def edges_from_insert)
qed

end
