(* ===== verification/SNG_Quotient.thy ===== *)
theory SNG_Quotient
  imports SNG_Merging
begin

text \<open>
  The read phase of merging, and the whole transformation: the merged graph is the quotient of the
  original by the classes of its channels.
\<close>

section \<open>All writers\<close>

definition actors_of :: "sng \<Rightarrow> nat list \<Rightarrow> nat set" where
  "actors_of g vs = {v \<in> set vs. vi_type (vinfo g v) = ACTOR}"

lemma write_actors_ok:
  assumes g: "mergeable g" and tr: "merging tr"
  shows "\<exists>st. rfold (write_actor tr g) (vertices g) \<lparr>tr_out = sng_empty, tr_map = Map.empty\<rparr> = Inr st
    \<and> write_inv tr g (actors_of g (vertices g)) (edges_from g (actors_of g (vertices g))) st"
proof (rule rfold_rule [where P = "\<lambda>vs st. write_inv tr g (actors_of g vs) (edges_from g (actors_of g vs)) st"])
  show "write_inv tr g (actors_of g []) (edges_from g (actors_of g [])) \<lparr>tr_out = sng_empty, tr_map = Map.empty\<rparr>"
    by (simp add: write_inv_def actors_of_def edges_from_def written_def partial_quotient_def ends_in_def image_vertices_def
        image_classes_def edge_pairs_def sng_empty_def image_edges_def onto_vertices_def)
next
  fix ys v zs st
  assume split: "vertices g = ys @ v # zs" and i: "write_inv tr g (actors_of g ys) (edges_from g (actors_of g ys)) st"
  show "\<exists>st'. write_actor tr g v st = Inr st' \<and> write_inv tr g (actors_of g (ys @ [v])) (edges_from g (actors_of g (ys @ [v]))) st'"
  proof (cases "vi_type (vinfo g v) = ACTOR")
    case True
    have "distinct (vertices g)"
      by (simp add: vertices_def)
    then have "v \<notin> actors_of g ys"
      by (auto simp: split actors_of_def)
    moreover have "actors_of g (ys @ [v]) = insert v (actors_of g ys)"
      using True by (auto simp: actors_of_def)
    ultimately show ?thesis
      using write_actor_ok [OF g tr i True] by simp
  next
    case False
    then have "actors_of g (ys @ [v]) = actors_of g ys"
      by (auto simp: actors_of_def)
    then show ?thesis
      using False i by (simp add: write_actor_def)
  qed
qed

section \<open>Readers\<close>

definition write_edges :: "sng \<Rightarrow> nat set" where
  "write_edges g = edges_from g (actors_of g (vertices g))"

lemma write_edges_iff: "mergeable g \<Longrightarrow> e \<in> write_edges g \<longleftrightarrow> e < length (sg_edges g) \<and> vi_type (vinfo g (etgt g e)) \<noteq> ACTOR"
  using mergeable_ends [of g e] by (auto simp: write_edges_def edges_from_def actors_of_def vertices_def)

text \<open>The vertices that are transferred: actors, and channels that an actor uses.\<close>

definition active :: "sng \<Rightarrow> nat \<Rightarrow> bool" where
  "active g v \<longleftrightarrow> v < length (sg_verts g) \<and> (vi_type (vinfo g v) = ACTOR \<or> in_edges g v \<noteq> [] \<or> out_edges g v \<noteq> [])"

lemma edge_ends_active:
  assumes "mergeable g" "e < length (sg_edges g)"
  shows "active g (esrc g e)" "active g (etgt g e)"
proof -
  have "e \<in> set (out_edges g (esrc g e))" "e \<in> set (in_edges g (etgt g e))"
    using assms(2) by (simp_all add: out_edges_def in_edges_def)
  then show "active g (esrc g e)" "active g (etgt g e)"
    using mergeable_ends [OF assms] by (auto simp: active_def)
qed

definition read_inv :: "transform \<Rightarrow> sng \<Rightarrow> nat set \<Rightarrow> transform_state \<Rightarrow> bool" where
  "read_inv tr g E st \<longleftrightarrow> partial_quotient tr g (dom (tr_map st)) E (tr_out st) (tr_map st)
   \<and> actors_of g (vertices g) \<subseteq> dom (tr_map st) \<and> dom (tr_map st) \<subseteq> Collect (active g) \<and> write_edges g \<subseteq> E"

text \<open>The edges to the current reader \<open>a\<close> are the ones its map of merged edges knows.\<close>

definition reading :: "nat \<Rightarrow> read_state \<Rightarrow> bool" where
  "reading a st \<longleftrightarrow> (\<forall>f. rd_edges st f = None \<longleftrightarrow> (f, a) \<notin> set (edge_pairs (tr_out st)))"

lemma unwritten_class:
  assumes g: "mergeable g" and i: "read_inv tr g E st" and c: "tr_map st c = None"
  shows "merge_class tr g c = None"
proof (cases "in_edges g c")
  case (Cons e es)
  then have e: "e < length (sg_edges g)" "etgt g e = c"
    by (auto simp: in_edges_def dest!: arg_cong [of _ _ set])
  show ?thesis
  proof (rule ccontr)
    assume "merge_class tr g c \<noteq> None"
    then have "e \<in> write_edges g"
      using e write_edges_iff [OF g, of e] by (auto simp: merge_class_def)
    then have "c \<in> dom (tr_map st)"
      using i e(2) by (auto simp: read_inv_def partial_quotient_def ends_in_def)
    with c show False
      by auto
  qed
qed (simp add: merge_class_def)

text \<open>The source of a read edge gets a vertex, if it has none.\<close>

definition read_source :: "sng \<Rightarrow> nat \<Rightarrow> read_state \<Rightarrow> nat \<times> read_state" where
  "read_source g c st = (case tr_map st c of
      Some f \<Rightarrow> (f, st)
    | None \<Rightarrow> (let (f, g') = add_vertex (tr_out st) in
        (f, st\<lparr>tr_out := set_vinfo f (vinfo g c) g', tr_map := (tr_map st)(c \<mapsto> f)\<rparr>)))"

lemma read_source_ok:
  assumes g: "mergeable g" and i: "read_inv tr g E (transform_state.truncate st)" and r: "reading a st"
    and c: "vi_type (vinfo g c) \<noteq> ACTOR" "active g c" and s: "read_source g c st = (f, st1)"
  shows "read_inv tr g E (transform_state.truncate st1)" "reading a st1" "tr_map st1 c = Some f"
    "tr_map st u = Some x \<Longrightarrow> tr_map st1 u = Some x"
proof -
  show "tr_map st1 c = Some f"
    using s by (auto simp: read_source_def add_vertex_def split: option.splits)
  show "tr_map st1 u = Some x" if "tr_map st u = Some x"
    using s that by (cases "tr_map st c") (auto simp: read_source_def add_vertex_def)
  have "read_inv tr g E (transform_state.truncate st1) \<and> reading a st1"
  proof (cases "tr_map st c")
    case (Some f')
    then show ?thesis
      using s i r by (simp add: read_source_def)
  next
    case None
    let ?h = "tr_out st"
    have st1: "st1 = st\<lparr>tr_out := ?h\<lparr>sg_verts := sg_verts ?h @ [vinfo g c]\<rparr>, tr_map := (tr_map st)(c \<mapsto> length (sg_verts ?h))\<rparr>"
      using None s by (auto simp: read_source_def add_vertex_def set_vinfo_def)
    have "merge_class tr g c = None"
      using unwritten_class [OF g i] None by simp
    then have "\<forall>b \<in> dom (tr_map st). \<not> merged_together tr g c b"
      using None by (auto simp: merged_together_def)
    then have "partial_quotient tr g (insert c (dom (tr_map st))) E (tr_out st1) (tr_map st1)"
      using i None quotient_fresh [of tr g "dom (tr_map st)" E ?h "tr_map st" c "vinfo g c"]
      by (simp add: read_inv_def st1 domIff)
    moreover have "reading a st1"
      using r by (simp add: reading_def st1 edge_pairs_def)
    ultimately show ?thesis
      using i c(2) by (auto simp: read_inv_def st1)
  qed
  then show "read_inv tr g E (transform_state.truncate st1)" "reading a st1"
    by simp_all
qed

lemma read_edge_source: "read_edge g a e st = (let (f, st1) = read_source g (esrc g e) st in case rd_edges st1 f of
    None \<Rightarrow> (let (ed, g') = add_edge f a (tr_out st1) in
      st1\<lparr>tr_out := set_einfo ed (einfo g e) g', rd_edges := (rd_edges st1)(f \<mapsto> ed)\<rparr>)
  | Some ed \<Rightarrow> st1\<lparr>tr_out := set_einfo ed (join_edges (einfo (tr_out st1) ed) (einfo g e)) (tr_out st1)\<rparr>)"
  by (simp add: read_edge_def read_source_def Let_def)

lemma add_edge_eq:
  "add_edge u v h = (length (sg_edges h), h\<lparr>sg_edges := sg_edges h @ [(u, v, mk_edge_info)]\<rparr>)"
  "set_einfo (length (sg_edges h)) i (h\<lparr>sg_edges := sg_edges h @ [(u, v, j)]\<rparr>) = h\<lparr>sg_edges := sg_edges h @ [(u, v, i)]\<rparr>"
  by (simp_all add: add_edge_def set_einfo_def esrc_def etgt_def)

lemma read_edge_ok:
  assumes g: "mergeable g" and i: "read_inv tr g E (transform_state.truncate st)" and r: "reading a st"
    and e: "e < length (sg_edges g)" "vi_type (vinfo g (etgt g e)) = ACTOR" and a: "tr_map st (etgt g e) = Some a"
  defines "st' \<equiv> read_edge g a e st"
  shows "read_inv tr g (insert e E) (transform_state.truncate st') \<and> reading a st' \<and> tr_map st' (etgt g e) = Some a"
proof -
  obtain f st1 where s: "read_source g (esrc g e) st = (f, st1)"
    by (cases "read_source g (esrc g e) st")
  have c: "vi_type (vinfo g (esrc g e)) \<noteq> ACTOR" "active g (esrc g e)"
    using mergeable_ends [OF g e(1)] e(2) edge_ends_active [OF g e(1)] by auto
  note s1 = read_source_ok [OF g i r c s]
  have q: "partial_quotient tr g (dom (tr_map st1)) E (tr_out st1) (tr_map st1)"
    using s1(1) by (simp add: read_inv_def)
  have a1: "tr_map st1 (etgt g e) = Some a"
    by (rule s1(4) [OF a])
  show ?thesis
  proof (cases "rd_edges st1 f")
    case None
    then have "(f, a) \<notin> set (edge_pairs (tr_out st1))"
      using s1(2) by (simp add: reading_def)
    note q' = quotient_add_edge [OF q s1(3) a1 this, of "einfo g e"]
    define h' where "h' = (tr_out st1)\<lparr>sg_edges := sg_edges (tr_out st1) @ [(f, a, einfo g e)]\<rparr>"
    have st': "st' = st1\<lparr>tr_out := h', rd_edges := (rd_edges st1)(f \<mapsto> length (sg_edges (tr_out st1)))\<rparr>"
      using None by (simp add: st'_def read_edge_source s add_edge_eq h'_def)
    have pairs: "edge_pairs h' = edge_pairs (tr_out st1) @ [(f, a)]"
      by (simp add: h'_def edge_pairs_def)
    have "reading a st'"
      using s1(2) by (auto simp: st' reading_def pairs)
    then show ?thesis
      using s1(1) a1 q' [folded h'_def] by (auto simp: read_inv_def st')
  next
    case (Some ed)
    then have "(f, a) \<in> set (edge_pairs (tr_out st1))"
      using s1(2) unfolding reading_def by (metis option.distinct(1))
    from quotient_old_edge [OF q s1(3) a1 this]
    have "partial_quotient tr g (dom (tr_map st')) (insert e E) (tr_out st') (tr_map st')"
      using Some by (simp add: st'_def read_edge_source s quotient_set_einfo)
    moreover have "reading a st'"
      using Some s1(2) by (simp add: st'_def read_edge_source s reading_def)
    ultimately show ?thesis
      using s1(1) a1 Some by (auto simp: read_inv_def st'_def read_edge_source s)
  qed
qed

text \<open>The edges into the actors \<open>Rs\<close> that have been read.\<close>

definition edges_into :: "sng \<Rightarrow> nat set \<Rightarrow> nat set" where
  "edges_into g Rs = {e. e < length (sg_edges g) \<and> etgt g e \<in> Rs}"

lemma fold_read_edges:
  assumes g: "mergeable g" and v: "vi_type (vinfo g v) = ACTOR"
    and es: "\<forall>e \<in> set es. e < length (sg_edges g) \<and> etgt g e = v"
    and st: "read_inv tr g E (transform_state.truncate st)" "reading a st" "tr_map st v = Some a"
  shows "read_inv tr g (E \<union> set es) (transform_state.truncate (fold (read_edge g a) es st))"
  using es st
proof (induction es arbitrary: st E)
  case (Cons e es)
  have "read_inv tr g (insert e E) (transform_state.truncate (read_edge g a e st)) \<and> reading a (read_edge g a e st)
      \<and> tr_map (read_edge g a e st) v = Some a"
    using read_edge_ok [OF g Cons.prems(2,3), of e] Cons.prems v by simp
  then show ?case
    using Cons.IH [of "insert e E"] Cons.prems(1) by simp
qed simp

lemma read_actor_ok:
  assumes g: "mergeable g" and i: "read_inv tr g (write_edges g \<union> edges_into g Rs) st"
    and v: "v \<in> actors_of g (vertices g)" "v \<notin> Rs" and Rs: "Rs \<subseteq> actors_of g (vertices g)"
  shows "\<exists>st'. read_actor g v st = Inr st' \<and> read_inv tr g (write_edges g \<union> edges_into g (insert v Rs)) st'"
proof -
  let ?E = "write_edges g \<union> edges_into g Rs"
  obtain a where a: "tr_map st v = Some a"
    using i v(1) by (auto simp: read_inv_def)
  have q: "partial_quotient tr g (dom (tr_map st)) ?E (tr_out st) (tr_map st)"
    using i by (simp add: read_inv_def)
  have vt: "vi_type (vinfo g v) = ACTOR"
    using v(1) by (simp add: actors_of_def)
  have "(f, a) \<notin> set (edge_pairs (tr_out st))" for f
  proof
    assume "(f, a) \<in> set (edge_pairs (tr_out st))"
    then obtain e where e: "e \<in> ?E" "the (tr_map st (etgt g e)) = a"
      using q by (auto simp: partial_quotient_def image_edges_def)
    then obtain x where x: "tr_map st (etgt g e) = Some x"
      using q by (force simp: partial_quotient_def ends_in_def)
    have "merged_together tr g (etgt g e) v"
      using quotient_classD [OF q x a] e(2) x by simp
    then have "etgt g e = v"
      using vt by (auto simp: merged_together_def merge_class_def)
    then show False
      using e(1) v vt write_edges_iff [OF g] by (auto simp: edges_into_def)
  qed
  then have "reading a (transform_state.extend st \<lparr>rd_edges = Map.empty\<rparr>)"
    by (simp add: reading_def transform_state.extend_def)
  moreover have "read_inv tr g ?E (transform_state.truncate (transform_state.extend st \<lparr>rd_edges = Map.empty\<rparr>))"
    using i by (simp add: read_inv_def transform_state.truncate_def transform_state.extend_def)
  moreover have "tr_map (transform_state.extend st \<lparr>rd_edges = Map.empty\<rparr>) v = Some a"
    using a by (simp add: transform_state.extend_def)
  moreover have "\<forall>e \<in> set (in_edges g v). e < length (sg_edges g) \<and> etgt g e = v"
    by (simp add: in_edges_def)
  ultimately have "read_inv tr g (?E \<union> set (in_edges g v)) (transform_state.truncate
      (fold (read_edge g a) (in_edges g v) (transform_state.extend st \<lparr>rd_edges = Map.empty\<rparr>)))"
    using fold_read_edges [OF g vt] by blast
  moreover have "?E \<union> set (in_edges g v) = write_edges g \<union> edges_into g (insert v Rs)"
    by (auto simp: in_edges_def edges_into_def)
  ultimately show ?thesis
    using a vt by (simp add: read_actor_def)
qed

lemma read_actors_ok:
  assumes g: "mergeable g" and i: "read_inv tr g (write_edges g) st"
  shows "\<exists>st'. rfold (read_actor g) (vertices g) st = Inr st'
    \<and> read_inv tr g (write_edges g \<union> edges_into g (actors_of g (vertices g))) st'"
proof (rule rfold_rule [where P = "\<lambda>vs st. read_inv tr g (write_edges g \<union> edges_into g (actors_of g vs)) st"])
  show "read_inv tr g (write_edges g \<union> edges_into g (actors_of g [])) st"
    using i by (simp add: actors_of_def edges_into_def)
next
  fix ys v zs st
  assume split: "vertices g = ys @ v # zs" and i: "read_inv tr g (write_edges g \<union> edges_into g (actors_of g ys)) st"
  show "\<exists>st'. read_actor g v st = Inr st' \<and> read_inv tr g (write_edges g \<union> edges_into g (actors_of g (ys @ [v]))) st'"
  proof (cases "vi_type (vinfo g v) = ACTOR")
    case True
    have "distinct (vertices g)"
      by (simp add: vertices_def)
    then have "v \<notin> actors_of g ys" "v \<in> actors_of g (vertices g)" "actors_of g ys \<subseteq> actors_of g (vertices g)"
      using True by (auto simp: split actors_of_def)
    moreover have "actors_of g (ys @ [v]) = insert v (actors_of g ys)"
      using True by (auto simp: actors_of_def)
    ultimately show ?thesis
      using read_actor_ok [OF g i] by simp
  next
    case False
    then have "actors_of g (ys @ [v]) = actors_of g ys"
      by (auto simp: actors_of_def)
    then show ?thesis
      using False i by (simp add: read_actor_def)
  qed
qed

lemma all_edges: "mergeable g \<Longrightarrow> write_edges g \<union> edges_into g (actors_of g (vertices g)) = {..<length (sg_edges g)}"
proof -
  assume g: "mergeable g"
  have "e \<in> edges_into g (actors_of g (vertices g)) \<longleftrightarrow> e < length (sg_edges g) \<and> vi_type (vinfo g (etgt g e)) = ACTOR" for e
    using mergeable_ends [OF g, of e] by (auto simp: edges_into_def actors_of_def vertices_def)
  then show ?thesis
    using write_edges_iff [OF g] by blast
qed

lemma transform_partial_quotient:
  assumes g: "mergeable g" and tr: "merging tr"
  shows "\<exists>h m. transform_sng g tr = Inr h \<and> partial_quotient tr g (Collect (active g)) {..<length (sg_edges g)} h m"
proof -
  let ?A = "actors_of g (vertices g)"
  obtain st where st: "rfold (write_actor tr g) (vertices g) \<lparr>tr_out = sng_empty, tr_map = Map.empty\<rparr> = Inr st"
    "write_inv tr g ?A (write_edges g) st"
    using write_actors_ok [OF g tr] unfolding write_edges_def by blast
  then have q: "partial_quotient tr g (written g ?A (write_edges g)) (write_edges g) (tr_out st) (tr_map st)"
    by (simp only: write_inv_def)
  then have d: "dom (tr_map st) = written g ?A (write_edges g)"
    by (simp only: partial_quotient_def)
  have "?A \<subseteq> Collect (active g)"
    by (auto simp: actors_of_def active_def vertices_def)
  moreover have "etgt g ` write_edges g \<subseteq> Collect (active g)"
    using edge_ends_active(2) [OF g] write_edges_iff [OF g] by blast
  ultimately have "read_inv tr g (write_edges g) st"
    unfolding read_inv_def d using q by (simp add: written_def)
  then obtain st' where st': "rfold (read_actor g) (vertices g) st = Inr st'"
    "read_inv tr g {..<length (sg_edges g)} st'"
    using read_actors_ok [OF g] unfolding all_edges [OF g] by blast
  have q': "partial_quotient tr g (dom (tr_map st')) {..<length (sg_edges g)} (tr_out st') (tr_map st')"
    and a: "?A \<subseteq> dom (tr_map st')" "dom (tr_map st') \<subseteq> Collect (active g)"
    using st'(2) by (simp_all add: read_inv_def)
  have "ends_in g {..<length (sg_edges g)} (dom (tr_map st'))"
    using q' by (simp only: partial_quotient_def)
  then have "v \<in> dom (tr_map st')" if "active g v" for v
    using that a(1) unfolding active_def ends_in_def in_edges_def out_edges_def filter_empty_conv actors_of_def vertices_def
    by auto
  then have "dom (tr_map st') = Collect (active g)"
    using a(2) by blast
  with q' st(1) st'(1) show ?thesis
    using tr by (intro exI [of _ "tr_out st'"] exI [of _ "tr_map st'"])
      (auto simp: transform_sng_def transformFifos_def merging_def)
qed

lemma edge_pairs_nth: "edge_pairs g = map (\<lambda>e. (esrc g e, etgt g e)) [0..<length (sg_edges g)]"
  by (rule nth_equalityI) (simp_all add: edge_pairs_def esrc_def etgt_def case_prod_beta)

text \<open>A graph whose actor \<open>a\<close> sends the same tokens to two readers.\<close>

definition example_multicast :: sng where
  "example_multicast = \<lparr>sg_verts = [
       \<lparr>vi_name = ''a'', vi_type = ACTOR, vi_size = 1, vi_capacity = -1, vi_delay = -1\<rparr>,
       \<lparr>vi_name = ''b'', vi_type = ACTOR, vi_size = 1, vi_capacity = -1, vi_delay = -1\<rparr>,
       \<lparr>vi_name = ''c1'', vi_type = FIFO, vi_size = 4, vi_capacity = 2, vi_delay = 0\<rparr>,
       \<lparr>vi_name = ''c2'', vi_type = FIFO, vi_size = 4, vi_capacity = 3, vi_delay = 0\<rparr>],
     sg_edges = [(0, 2, \<lparr>ei_name = ''o'', ei_tokenSize = 4, ei_tokens = 1\<rparr>), (2, 1, \<lparr>ei_name = ''i1'', ei_tokenSize = 4, ei_tokens = 1\<rparr>),
       (0, 3, \<lparr>ei_name = ''o'', ei_tokenSize = 4, ei_tokens = 1\<rparr>), (3, 1, \<lparr>ei_name = ''i2'', ei_tokenSize = 4, ei_tokens = 1\<rparr>)]\<rparr>"

lemma example_mergeable: "mergeable example_multicast"
  by (simp add: mergeable_def example_multicast_def sng_wf_def vinfo_def vertices_def in_edges_def same_port_def
      esrc_def etgt_def einfo_def upt_rec)



end
