(* ===== verification/SNG_Generate.thy ===== *)
theory SNG_Generate
  imports Complex_Main SNG_IO
begin

text \<open>
  Generating random synchronous data flow graphs
  (\<^verbatim>\<open>tools/src/sng-generate-sdf/cpp/sng-generate-sdf.cpp\<close>): channels whose rates solve the balance equations
  for the repetition counts of their actors, inputs and outputs, and clusters of actors.

  \<^verbatim>\<open>boost::math::lcm\<close> is the parameter \<open>lcmf\<close>.  What the random generators return is a record of
  numbers: the counts of the cluster, and for the \<open>k\<close>-th call of a generator its value; \<open>rnd_pick k n\<close>
  is the \<open>k\<close>-th value of \<^verbatim>\<open>uniform_int_distribution<>(0, n-1)\<close>.  A \<^verbatim>\<open>double\<close> is a rational number.
  \<^verbatim>\<open>Concat\<close> prints numbers in decimal.
\<close>

record gen_state =
  gs_graph :: sng
  gs_fifoCount :: size_t
  gs_inputCount :: size_t
  gs_outputCount :: size_t

section \<open>Channels, inputs and outputs\<close>

definition repCount :: "sng \<Rightarrow> nat \<Rightarrow> size_t" where
  "repCount g v = vi_size (vinfo g v)"

text \<open>A division by zero stops the program.\<close>

definition div_checked :: "size_t \<Rightarrow> size_t \<Rightarrow> size_t result" where
  "div_checked a b = (if b = 0 then Inl (RuntimeError ''division by zero'') else Inr (a div b))"

definition rep_lcm :: "(size_t \<Rightarrow> size_t \<Rightarrow> size_t) \<Rightarrow> sng \<Rightarrow> nat list \<Rightarrow> size_t \<Rightarrow> size_t result" where
  "rep_lcm lcmf g snks l = rfold (\<lambda>v l. rbind (rassert (vi_type (vinfo g v) = ACTOR)) (\<lambda>_. Inr (lcmf l (repCount g v)))) snks l"

text \<open>An edge with its rate, named after the degree of its actor.\<close>

definition add_prod :: "nat \<Rightarrow> nat \<Rightarrow> size_t \<Rightarrow> sng \<Rightarrow> sng" where
  "add_prod src c rate g = (let (e, g1) = add_edge src c g in
     set_einfo e \<lparr>ei_name = ''o'' @ dec (of_nat (length (out_edges g1 src))), ei_tokenSize = vi_size (vinfo g1 c), ei_tokens = rate\<rparr> g1)"

definition add_cons :: "nat \<Rightarrow> size_t \<Rightarrow> nat \<Rightarrow> size_t \<times> sng \<Rightarrow> (size_t \<times> sng) result" where
  "add_cons c repLcm snk = (\<lambda>(maxCons, g). let (e, g1) = add_edge c snk g in
     rbind (div_checked repLcm (repCount g1 snk)) (\<lambda>cons.
     Inr (max maxCons cons, set_einfo e \<lparr>ei_name = ''i'' @ dec (of_nat (length (in_edges g1 snk))),
            ei_tokenSize = vi_size (vinfo g1 c), ei_tokens = cons\<rparr> g1)))"

definition addChannel :: "(size_t \<Rightarrow> size_t \<Rightarrow> size_t) \<Rightarrow> string \<Rightarrow> nat \<Rightarrow> nat list \<Rightarrow> gen_state \<Rightarrow> (nat \<times> gen_state) result" where
  "addChannel lcmf prefix src snks st = (let
     (c, g0) = add_vertex (gs_graph st)
   in rbind (rassert (vi_type (vinfo g0 src) = ACTOR)) (\<lambda>_. let repSrc = repCount g0 src in
      rbind (rep_lcm lcmf g0 snks repSrc) (\<lambda>repLcm. let
        count = gs_fifoCount st + 1;
        g1 = set_vinfo c ((vinfo g0 c)\<lparr>vi_type := FIFO, vi_name := prefix @ ''c'' @ dec count, vi_size := -1\<rparr>) g0
      in rbind (div_checked repLcm repSrc) (\<lambda>prod.
         rbind (rfold (add_cons c repLcm) snks (0, add_prod src c prod g1)) (\<lambda>(maxCons, g2).
         Inr (c, st\<lparr>gs_graph := set_vinfo c ((vinfo g2 c)\<lparr>vi_capacity := prod + maxCons - 1, vi_delay := 0\<rparr>) g2,
                   gs_fifoCount := count\<rparr>))))))"

definition addInput :: "string \<Rightarrow> nat \<Rightarrow> gen_state \<Rightarrow> nat \<times> gen_state" where
  "addInput prefix snk st = (let
     (v, g) = add_vertex (gs_graph st);
     count = gs_inputCount st + 1;
     g = set_vinfo v ((vinfo g v)\<lparr>vi_type := REGISTER, vi_name := prefix @ ''regIn'' @ dec count\<rparr>) g;
     (e, g) = add_edge v snk g
   in (v, st\<lparr>gs_graph := set_einfo e ((einfo g e)\<lparr>ei_name := ''in'', ei_tokens := 1\<rparr>) g, gs_inputCount := count\<rparr>))"

definition addOutput :: "string \<Rightarrow> nat \<Rightarrow> gen_state \<Rightarrow> nat \<times> gen_state" where
  "addOutput prefix src st = (let
     (v, g) = add_vertex (gs_graph st);
     count = gs_outputCount st + 1;
     g = set_vinfo v ((vinfo g v)\<lparr>vi_type := REGISTER, vi_name := prefix @ ''regOut'' @ dec count\<rparr>) g;
     (e, g) = add_edge src v g
   in (v, st\<lparr>gs_graph := set_einfo e ((einfo g e)\<lparr>ei_name := ''out'', ei_tokens := 1\<rparr>) g, gs_outputCount := count\<rparr>))"

section \<open>Clusters\<close>

record random_cluster =
  rnd_actorCount :: size_t
  rnd_inputCount :: size_t
  rnd_outputCount :: size_t
  rnd_repCount :: "nat \<Rightarrow> size_t"
  rnd_outDegree :: "nat \<Rightarrow> rat"
  rnd_multicastDegree :: "nat \<Rightarrow> rat"
  rnd_pick :: "nat \<Rightarrow> nat \<Rightarrow> nat"

record cluster_info =
  ci_inputs :: "nat list"
  ci_outputs :: "nat list"
  ci_actors :: "nat list"

text \<open>A \<^verbatim>\<open>std::priority_queue\<close> is a sorted list with the largest element last.\<close>

definition pq_top :: "size_t list \<Rightarrow> int \<Rightarrow> int" where
  "pq_top q d = (if q = [] then d else sint (ucast (last q) :: 32 word))"

definition push_degree :: "rat \<Rightarrow> rat \<Rightarrow> size_t list \<Rightarrow> size_t list" where
  "push_degree least d q = (if least < d then insort (of_int (floor d)) q else q)"

record cluster_state =
  cs_gen :: gen_state
  cs_info :: cluster_info
  cs_out :: "size_t list"
  cs_multi :: "size_t list"
  cs_calls :: nat
  cs_picks :: nat

text \<open>The first loop creates actor \<open>j\<close>; the degrees are drawn only for actors that are no outputs.\<close>

definition cluster_actor ::
  "random_cluster \<Rightarrow> string \<Rightarrow> size_t \<Rightarrow> size_t \<Rightarrow> size_t \<Rightarrow> nat \<Rightarrow> cluster_state \<Rightarrow> cluster_state" where
  "cluster_actor r name sz inputs outputs j cs = (let
     (v, g) = add_vertex (gs_graph (cs_gen cs));
     g = set_vinfo v ((vinfo g v)\<lparr>vi_type := ACTOR, vi_name := name @ ''.a'' @ dec (of_nat (j + 1)), vi_size := rnd_repCount r j\<rparr>) g;
     info = cs_info cs;
     info = info\<lparr>ci_actors := ci_actors info @ [v], ci_inputs := ci_inputs info @ (if of_nat j < inputs then [v] else [])\<rparr>;
     cs = cs\<lparr>cs_gen := (cs_gen cs)\<lparr>gs_graph := g\<rparr>\<rparr>
   in if sz - outputs \<le> of_nat j
      then cs\<lparr>cs_info := info\<lparr>ci_outputs := ci_outputs info @ [v]\<rparr>\<rparr>
      else cs\<lparr>cs_info := info, cs_out := push_degree 0 (rnd_outDegree r (cs_calls cs)) (cs_out cs),
              cs_multi := push_degree 1 (rnd_multicastDegree r (cs_calls cs)) (cs_multi cs), cs_calls := cs_calls cs + 1\<rparr>)"

text \<open>The \<^verbatim>\<open>do\<close> loop takes the sinks of one channel.  A pick is in range; nothing is taken otherwise.\<close>

function take_sinks :: "(nat \<Rightarrow> nat \<Rightarrow> nat) \<Rightarrow> nat \<Rightarrow> nat list \<Rightarrow> int \<Rightarrow> int \<Rightarrow> nat list \<Rightarrow> nat list \<times> nat list \<times> int \<times> int \<times> nat" where
  "take_sinks pick k snks md od acc = (let i = pick k (length snks) in
     if length snks \<le> i then (acc, snks, md, od, k) else let
       acc' = acc @ [snks ! i];
       snks' = take i snks @ drop (Suc i) snks
     in if snks' \<noteq> [] \<and> md - 1 > 0 \<and> od - 1 > 0
        then take_sinks pick (Suc k) snks' (md - 1) (od - 1) acc'
        else (acc', snks', md - 1, od - 1, Suc k))"
  by pat_completeness auto
termination
  by (relation "measure (\<lambda>(pick, k, snks, md, od, acc). length snks)") auto

declare take_sinks.simps [simp del]

text \<open>The \<^verbatim>\<open>while\<close> loop: channels from \<open>src\<close> until no sinks or no out degree are left.\<close>

function cluster_channels ::
  "(size_t \<Rightarrow> size_t \<Rightarrow> size_t) \<Rightarrow> (nat \<Rightarrow> nat \<Rightarrow> nat) \<Rightarrow> string \<Rightarrow> nat \<Rightarrow> nat \<Rightarrow> nat list \<Rightarrow> int \<Rightarrow> int \<Rightarrow> gen_state \<Rightarrow> (nat \<times> gen_state) result" where
  "cluster_channels lcmf pick prefix src k snks md od st = (if snks = [] \<or> od \<le> 0 then Inr (k, st) else
     case take_sinks pick k snks md od [] of (chosen, snks', md', od', k') \<Rightarrow>
     rbind (addChannel lcmf prefix src chosen st) (\<lambda>(c, st').
       if length snks' < length snks then cluster_channels lcmf pick prefix src k' snks' md' od' st' else Inr (k', st')))"
  by pat_completeness auto
termination
  by (relation "measure (\<lambda>(lcmf, pick, prefix, src, k, snks, md, od, st). length snks)") auto

declare cluster_channels.simps [simp del]

text \<open>The candidates for sinks of actor \<open>j\<close>.\<close>

definition sink_candidates :: "bool \<Rightarrow> bool \<Rightarrow> nat list \<Rightarrow> size_t \<Rightarrow> nat \<Rightarrow> nat list" where
  "sink_candidates createDAG allowSelfEdges actors inputs j = (if createDAG
     then map ((!) actors) [max (j + 1) (unat inputs)..<length actors]
     else filter (\<lambda>v. allowSelfEdges \<or> actors ! j \<noteq> v) actors)"

definition cluster_source ::
  "(size_t \<Rightarrow> size_t \<Rightarrow> size_t) \<Rightarrow> random_cluster \<Rightarrow> string \<Rightarrow> bool \<Rightarrow> bool \<Rightarrow> size_t \<Rightarrow> nat \<Rightarrow> cluster_state \<Rightarrow> cluster_state result" where
  "cluster_source lcmf r prefix createDAG allowSelfEdges inputs j cs = (let
     actors = ci_actors (cs_info cs);
     od = pq_top (cs_out cs) 0;
     md = pq_top (cs_multi cs) 1;
     snks = sink_candidates createDAG allowSelfEdges actors inputs j
   in rbind (cluster_channels lcmf (rnd_pick r) prefix (actors ! j) (cs_picks cs) snks md od (cs_gen cs)) (\<lambda>(k, st).
      Inr (cs\<lparr>cs_gen := st, cs_out := butlast (cs_out cs), cs_multi := butlast (cs_multi cs), cs_picks := k\<rparr>)))"

definition generateCluster ::
  "(size_t \<Rightarrow> size_t \<Rightarrow> size_t) \<Rightarrow> random_cluster \<Rightarrow> string \<Rightarrow> string \<Rightarrow> size_t \<Rightarrow> bool \<Rightarrow> bool \<Rightarrow> size_t \<Rightarrow> gen_state
     \<Rightarrow> (cluster_info \<times> gen_state) result" where
  "generateCluster lcmf r prefix ctype maxActors createDAG allowSelfEdges count st = (let
     clusterSize = min (rnd_actorCount r) maxActors;
     clusterInputs = min (rnd_inputCount r) (clusterSize * 3 div 2);
     clusterOutputs = min (rnd_outputCount r) (clusterSize * 3 div 2)
   in rbind (rassert (1 \<le> clusterSize)) (\<lambda>_. let
     cs0 = \<lparr>cs_gen = st, cs_info = \<lparr>ci_inputs = [], ci_outputs = [], ci_actors = []\<rparr>, cs_out = [], cs_multi = [], cs_calls = 0, cs_picks = 0\<rparr>;
     cs1 = fold (cluster_actor r (prefix @ ctype @ dec count) clusterSize clusterInputs clusterOutputs) [0..<unat clusterSize] cs0
   in rbind (rfold (cluster_source lcmf r prefix createDAG allowSelfEdges clusterInputs) [0..<unat clusterSize] cs1) (\<lambda>cs2.
      Inr (cs_info cs2, cs_gen cs2))))"

end
