(* ===== verification/SNG_Balance.thy ===== *)
theory SNG_Balance
  imports SNG_Generate
begin

text \<open>
  Generated graphs are consistent: every FIFO carries the same number of tokens per iteration at each of
  its ends, so the repetition counts solve the balance equations.
\<close>

section \<open>Rates\<close>

definition tokens_per_iteration :: "sng \<Rightarrow> nat \<Rightarrow> edge_info \<Rightarrow> nat" where
  "tokens_per_iteration g a i = unat (ei_tokens i) * unat (repCount g a)"

definition channel_rate :: "sng \<Rightarrow> nat \<Rightarrow> nat \<Rightarrow> bool" where
  "channel_rate g c l \<longleftrightarrow> (\<forall>(u, v, i) \<in> set (sg_edges g).
     (v = c \<longrightarrow> tokens_per_iteration g u i = l) \<and> (u = c \<longrightarrow> tokens_per_iteration g v i = l))"

definition consistent :: "sng \<Rightarrow> bool" where
  "consistent g \<longleftrightarrow> (\<forall>c < length (sg_verts g). vi_type (vinfo g c) = FIFO \<longrightarrow> (\<exists>l > 0. channel_rate g c l))"

text \<open>What is assumed of \<^verbatim>\<open>boost::math::lcm\<close>: results that fit are right.\<close>

definition lcm_fits :: "(size_t \<Rightarrow> size_t \<Rightarrow> size_t) \<Rightarrow> bool" where
  "lcm_fits lcmf \<longleftrightarrow> (\<forall>a b. lcm (unat a) (unat b) < 2 ^ 64 \<longrightarrow> unat (lcmf a b) = lcm (unat a) (unat b))"

text \<open>An actor whose repetition count divides \<open>L\<close>.\<close>

definition good_actor :: "nat \<Rightarrow> sng \<Rightarrow> nat \<Rightarrow> bool" where
  "good_actor L g v \<longleftrightarrow> v < length (sg_verts g) \<and> vi_type (vinfo g v) = ACTOR \<and> 0 < unat (repCount g v) \<and> unat (repCount g v) dvd L"

lemma rep_lcm_ok:
  assumes "lcm_fits lcmf" "0 < L" "L < 2 ^ 63" "\<forall>v \<in> set snks. good_actor L g v" "0 < unat l" "unat l dvd L"
  shows "\<exists>r. rep_lcm lcmf g snks l = Inr r \<and> 0 < unat r \<and> unat r dvd L \<and> unat l dvd unat r \<and> (\<forall>v \<in> set snks. unat (repCount g v) dvd unat r)"
  using assms(4-6)
proof (induction snks arbitrary: l)
  case Nil
  then show ?case
    by (simp add: rep_lcm_def)
next
  case (Cons v snks)
  have v: "good_actor L g v"
    using Cons.prems by simp
  have d: "lcm (unat l) (unat (repCount g v)) dvd L"
    using Cons.prems v by (simp add: good_actor_def)
  then have "lcm (unat l) (unat (repCount g v)) \<le> L"
    using assms(2) by (rule dvd_imp_le)
  then have "lcm (unat l) (unat (repCount g v)) < 2 ^ 64"
    using assms(3) by simp
  then have u: "unat (lcmf l (repCount g v)) = lcm (unat l) (unat (repCount g v))"
    using assms(1) unfolding lcm_fits_def by blast
  moreover have "0 < lcm (unat l) (unat (repCount g v))"
    using Cons.prems(2) v by (simp add: good_actor_def lcm_pos_nat)
  ultimately obtain r where r: "rep_lcm lcmf g snks (lcmf l (repCount g v)) = Inr r" "0 < unat r" "unat r dvd L"
      "unat (lcmf l (repCount g v)) dvd unat r" "\<forall>v \<in> set snks. unat (repCount g v) dvd unat r"
    using Cons.IH [of "lcmf l (repCount g v)"] Cons.prems(1) d by auto
  moreover have "rep_lcm lcmf g (v # snks) l = Inr r"
    using r(1) v by (simp add: rep_lcm_def good_actor_def)
  moreover have "unat l dvd unat r" "unat (repCount g v) dvd unat r"
    using r(4) u by (metis dvd_lcm1 dvd_lcm2 dvd_trans)+
  ultimately show ?case
    by (intro exI [of _ r]) simp
qed

text \<open>Rates are exact divisions.\<close>

lemma div_checked_ok:
  "0 < unat b \<Longrightarrow> unat b dvd unat a \<Longrightarrow> \<exists>q. div_checked a b = Inr q \<and> unat q * unat b = unat a"
  by (auto simp: div_checked_def unat_div_distrib)

section \<open>Adding a channel\<close>

lemma factor_le: "a * b = c \<Longrightarrow> 0 < b \<Longrightarrow> a \<le> c" for a b c :: nat
  by (cases b) auto

text \<open>The read edges of channel \<open>c\<close> to the actors \<open>snks\<close>, all at \<open>l\<close> tokens per iteration.\<close>

definition read_edges :: "sng \<Rightarrow> nat \<Rightarrow> nat list \<Rightarrow> nat \<Rightarrow> size_t \<Rightarrow> (nat \<times> nat \<times> edge_info) list \<Rightarrow> bool" where
  "read_edges g c snks l m es \<longleftrightarrow> map (\<lambda>(u, v, i). (u, v)) es = map (\<lambda>s. (c, s)) snks
   \<and> (\<forall>(u, v, i) \<in> set es. tokens_per_iteration g v i = l \<and> ei_tokens i \<le> m)"

lemma read_edges_ends:
  assumes "read_edges g c snks l m es" "(u, v, i) \<in> set es"
  shows "u = c" "v \<in> set snks" "tokens_per_iteration g v i = l" "ei_tokens i \<le> m"
proof -
  have "(u, v) \<in> set (map (\<lambda>(u, v, i). (u, v)) es)"
    using assms(2) by (auto intro: rev_image_eqI)
  also have "map (\<lambda>(u, v, i). (u, v)) es = map (\<lambda>s. (c, s)) snks"
    using assms(1) by (simp only: read_edges_def)
  finally show "u = c" "v \<in> set snks"
    by auto
  show "tokens_per_iteration g v i = l" "ei_tokens i \<le> m"
    using assms unfolding read_edges_def by blast+
qed

lemma read_edges_cong:
  assumes "read_edges g c snks l m es" "\<forall>s \<in> set snks. repCount g' s = repCount g s"
  shows "read_edges g' c snks l m es"
proof -
  have "tokens_per_iteration g' v i = l \<and> ei_tokens i \<le> m" if "(u, v, i) \<in> set es" for u v i
    using read_edges_ends [OF assms(1) that] assms(2) by (simp add: tokens_per_iteration_def)
  then show ?thesis
    using assms(1) unfolding read_edges_def by blast
qed

text \<open>The capacity does not wrap.\<close>

lemma capacity_fits:
  fixes p m r rep :: size_t
  assumes "unat p * unat rep = unat r" "0 < unat r" "unat r < 2 ^ 63" "0 < unat rep" "unat m \<le> unat r"
  shows "unat (p + m - 1) = unat p + unat m - 1"
proof -
  have "unat p \<le> unat r"
    using assms(1,4) by (rule factor_le)
  then have fits: "unat p + unat m < 2 ^ 64"
    using assms(3,5) by simp
  have "0 < unat p"
    using assms(1,2) by (cases "unat p = 0") auto
  with fits have "1 \<le> p + m" "unat (p + m) = unat p + unat m"
    by (simp_all add: word_le_nat_alt unat_word_ariths)
  then show ?thesis
    by (simp add: unat_sub)
qed

lemma rep_count_edges [simp]: "repCount (g\<lparr>sg_edges := es\<rparr>) v = repCount g v"
  by (simp add: repCount_def vinfo_def)

lemma tokens_edges [simp]: "tokens_per_iteration (g\<lparr>sg_edges := es\<rparr>) v i = tokens_per_iteration g v i"
  by (simp add: tokens_per_iteration_def)

lemma add_edge_set_einfo:
  "add_edge u v g = (length (sg_edges g), g\<lparr>sg_edges := sg_edges g @ [(u, v, mk_edge_info)]\<rparr>)"
  "set_einfo (length (sg_edges g)) i (g\<lparr>sg_edges := sg_edges g @ [(u, v, j)]\<rparr>) = g\<lparr>sg_edges := sg_edges g @ [(u, v, i)]\<rparr>"
  by (simp_all add: add_edge_def set_einfo_def esrc_def etgt_def)

lemma add_cons_ok:
  assumes "0 < unat (repCount g s)" "unat (repCount g s) dvd unat l"
  obtains i where "add_cons c l s (m, g) = Inr (max m (ei_tokens i), g\<lparr>sg_edges := sg_edges g @ [(c, s, i)]\<rparr>)"
    "tokens_per_iteration g s i = unat l"
proof -
  obtain q where q: "div_checked l (repCount g s) = Inr q" "unat q * unat (repCount g s) = unat l"
    using div_checked_ok [OF assms] by blast
  let ?g = "g\<lparr>sg_edges := sg_edges g @ [(c, s, mk_edge_info)]\<rparr>"
  define i where "i = \<lparr>ei_name = ''i'' @ dec (of_nat (length (in_edges ?g s))), ei_tokenSize = vi_size (vinfo ?g c), ei_tokens = q\<rparr>"
  have "add_cons c l s (m, g) = Inr (max m (ei_tokens i), g\<lparr>sg_edges := sg_edges g @ [(c, s, i)]\<rparr>)"
    using q(1) by (simp add: add_cons_def add_edge_set_einfo i_def)
  moreover have "tokens_per_iteration g s i = unat l"
    using q(2) by (simp add: tokens_per_iteration_def i_def)
  ultimately show thesis
    by (rule that)
qed

lemma add_conss_ok:
  assumes "\<forall>s \<in> set snks. 0 < unat (repCount g s) \<and> unat (repCount g s) dvd unat l" "unat m \<le> unat l"
  shows "\<exists>m' es. rfold (add_cons c l) snks (m, g) = Inr (m', g\<lparr>sg_edges := sg_edges g @ es\<rparr>)
    \<and> read_edges g c snks (unat l) m' es \<and> m \<le> m' \<and> unat m' \<le> unat l"
  using assms
proof (induction snks arbitrary: m g)
  case Nil
  then show ?case
    by (intro exI [of _ m] exI [of _ "[]"]) (simp add: read_edges_def)
next
  case (Cons s snks)
  obtain i where i: "add_cons c l s (m, g) = Inr (max m (ei_tokens i), g\<lparr>sg_edges := sg_edges g @ [(c, s, i)]\<rparr>)"
    "tokens_per_iteration g s i = unat l"
    using add_cons_ok [of g s l c m] Cons.prems(1) by auto
  have "unat (ei_tokens i) \<le> unat l"
    using i(2) Cons.prems(1) unfolding tokens_per_iteration_def by (intro factor_le) auto
  then have ml: "unat (max m (ei_tokens i)) \<le> unat l"
    using Cons.prems(2) by (simp add: max_def)
  let ?g = "g\<lparr>sg_edges := sg_edges g @ [(c, s, i)]\<rparr>"
  have "\<exists>m' es. rfold (add_cons c l) snks (max m (ei_tokens i), ?g) = Inr (m', ?g\<lparr>sg_edges := sg_edges ?g @ es\<rparr>)
    \<and> read_edges ?g c snks (unat l) m' es \<and> max m (ei_tokens i) \<le> m' \<and> unat m' \<le> unat l"
    using Cons.prems(1) by (intro Cons.IH [OF _ ml]) simp
  then obtain m' es where s: "rfold (add_cons c l) snks (max m (ei_tokens i), ?g) = Inr (m', ?g\<lparr>sg_edges := sg_edges ?g @ es\<rparr>)"
    "read_edges ?g c snks (unat l) m' es" "max m (ei_tokens i) \<le> m'" "unat m' \<le> unat l"
    by blast
  then have "m \<le> m'" "ei_tokens i \<le> m'"
    by simp_all
  moreover from this have "read_edges g c (s # snks) (unat l) m' ((c, s, i) # es)"
    using s(2) i(2) by (simp add: read_edges_def)
  ultimately show ?case
    using i(1) s(1,4) by (intro exI [of _ m'] exI [of _ "(c, s, i) # es"]) simp
qed

text \<open>The graph with one more channel.\<close>

definition with_channel :: "sng \<Rightarrow> vertex_info \<Rightarrow> (nat \<times> nat \<times> edge_info) list \<Rightarrow> sng" where
  "with_channel g vi es = \<lparr>sg_verts = sg_verts g @ [vi], sg_edges = sg_edges g @ es\<rparr>"

lemma with_channel_old [simp]: "v < length (sg_verts g) \<Longrightarrow> vinfo (with_channel g vi es) v = vinfo g v"
  "vinfo (with_channel g vi es) (length (sg_verts g)) = vi" "length (sg_verts (with_channel g vi es)) = Suc (length (sg_verts g))"
  by (simp_all add: with_channel_def vinfo_def nth_append)

lemma addChannel_ok:
  assumes l: "lcm_fits lcmf" "0 < L" "L < 2 ^ 63" and g: "g = gs_graph st"
    and src: "good_actor L g src" and snks: "\<forall>s \<in> set snks. good_actor L g s"
  obtains k st' vi i es m where "addChannel lcmf prefix src snks st = Inr (length (sg_verts g), st')"
    "gs_graph st' = with_channel g vi ((src, length (sg_verts g), i) # es)" "vi_type vi = FIFO" "0 < k"
    "tokens_per_iteration g src i = k" "read_edges g (length (sg_verts g)) snks k m es"
    "unat (vi_capacity vi) = unat (ei_tokens i) + unat m - 1"
proof -
  let ?c = "length (sg_verts g)"
  define g0 where "g0 = g\<lparr>sg_verts := sg_verts g @ [mk_vertex_info]\<rparr>"
  have old: "vinfo g0 v = vinfo g v" "repCount g0 v = repCount g v" if "v < ?c" for v
    using that by (simp_all add: g0_def vinfo_def repCount_def nth_append)
  have good0: "good_actor L g0 s" if "good_actor L g s" for s
    using that old [of s] by (simp add: good_actor_def g0_def)
  have s: "src < ?c" "vi_type (vinfo g src) = ACTOR" "0 < unat (repCount g src)" "unat (repCount g src) dvd L"
    using src by (simp_all add: good_actor_def)
  obtain r where r: "rep_lcm lcmf g0 snks (repCount g src) = Inr r" "0 < unat r" "unat r dvd L"
      "unat (repCount g src) dvd unat r" "\<forall>v \<in> set snks. unat (repCount g0 v) dvd unat r"
    using rep_lcm_ok [OF l, of snks g0 "repCount g src"] snks good0 s by blast
  obtain p where p: "div_checked r (repCount g src) = Inr p" "unat p * unat (repCount g src) = unat r"
    using div_checked_ok [OF s(3) r(4)] by blast
  define vi1 where "vi1 = mk_vertex_info\<lparr>vi_type := FIFO, vi_name := prefix @ CHR ''c'' # dec (gs_fifoCount st + 1), vi_size := -1\<rparr>"
  define g1 where "g1 = g\<lparr>sg_verts := sg_verts g @ [vi1]\<rparr>"
  obtain i where i: "add_prod src ?c p g1 = g1\<lparr>sg_edges := sg_edges g1 @ [(src, ?c, i)]\<rparr>" "ei_tokens i = p"
    by (simp add: add_prod_def add_edge_set_einfo)
  define g2 where "g2 = g1\<lparr>sg_edges := sg_edges g1 @ [(src, ?c, i)]\<rparr>"
  have rep2: "repCount g2 v = repCount g v" if "v < ?c" for v
    using that by (simp add: g2_def g1_def repCount_def vinfo_def nth_append)
  have snks2: "\<forall>s \<in> set snks. 0 < unat (repCount g2 s) \<and> unat (repCount g2 s) dvd unat r"
    using snks r(5) rep2 old(2) by (auto simp: good_actor_def)
  obtain m es where es: "rfold (add_cons ?c r) snks (0, g2) = Inr (m, g2\<lparr>sg_edges := sg_edges g2 @ es\<rparr>)"
    "read_edges g2 ?c snks (unat r) m es" "unat m \<le> unat r"
    using add_conss_ok [OF snks2, of 0 ?c] by auto
  define vi where "vi = vi1\<lparr>vi_capacity := p + m - 1, vi_delay := 0\<rparr>"
  have "set_vinfo ?c vi1 g0 = g1" "vinfo g0 ?c = mk_vertex_info"
    by (simp_all add: g0_def g1_def set_vinfo_def vinfo_def)
  moreover have "set_vinfo ?c vi (g2\<lparr>sg_edges := sg_edges g2 @ es\<rparr>) = with_channel g vi ((src, ?c, i) # es)"
      "vinfo (g2\<lparr>sg_edges := sg_edges g2 @ es\<rparr>) ?c = vi1"
    by (simp_all add: g2_def g1_def with_channel_def set_vinfo_def vinfo_def)
  ultimately have "addChannel lcmf prefix src snks st
      = Inr (?c, st\<lparr>gs_graph := with_channel g vi ((src, ?c, i) # es), gs_fifoCount := gs_fifoCount st + 1\<rparr>)"
    using s(1,2) old r(1) p(1) i(1) es(1)
    by (simp add: addChannel_def add_vertex_def Let_def g [symmetric] g0_def [symmetric] vi1_def [symmetric] g2_def [symmetric] vi_def [symmetric])
  moreover have "read_edges g ?c snks (unat r) m es"
    by (rule read_edges_cong [OF es(2)]) (use snks rep2 in \<open>simp add: good_actor_def\<close>)
  moreover have "unat (vi_capacity vi) = unat (ei_tokens i) + unat m - 1"
  proof -
    have "unat r < 2 ^ 63"
      using r(3) l(2,3) dvd_imp_le le_less_trans by blast
    from capacity_fits [OF p(2) r(2) this s(3) es(3)] show ?thesis
      by (simp add: vi_def i(2))
  qed
  ultimately show thesis
    using that [of "st\<lparr>gs_graph := with_channel g vi ((src, ?c, i) # es), gs_fifoCount := gs_fifoCount st + 1\<rparr>" vi i es "unat r" m]
      r(2) p(2) by (simp add: vi_def vi1_def tokens_per_iteration_def i(2))
qed

lemma rep_with_channel [simp]: "v < length (sg_verts g) \<Longrightarrow> repCount (with_channel g vi es) v = repCount g v"
  by (simp add: repCount_def)

lemma good_with_channel: "good_actor L g v \<Longrightarrow> good_actor L (with_channel g vi es) v"
  by (simp add: good_actor_def)

lemma tokens_with_channel [simp]: "v < length (sg_verts g) \<Longrightarrow> tokens_per_iteration (with_channel g vi es) v i = tokens_per_iteration g v i"
  by (simp add: tokens_per_iteration_def)

text \<open>A channel with its read edges, in a graph whose actors have good counts.\<close>

definition channel_edges :: "sng \<Rightarrow> nat \<Rightarrow> nat list \<Rightarrow> nat \<Rightarrow> (nat \<times> nat \<times> edge_info) list \<Rightarrow> bool" where
  "channel_edges g src snks k es \<longleftrightarrow> (\<forall>(u, v, i) \<in> set es.
     (u = length (sg_verts g) \<and> v \<in> set snks \<and> tokens_per_iteration g v i = k)
   \<or> (v = length (sg_verts g) \<and> u = src \<and> tokens_per_iteration g u i = k))"

lemma channel_edges_intro:
  assumes "read_edges g (length (sg_verts g)) snks k m es" "tokens_per_iteration g src i = k"
  shows "channel_edges g src snks k ((src, length (sg_verts g), i) # es)"
  using assms(2) read_edges_ends [OF assms(1)] by (auto simp: channel_edges_def)

lemma wf_with_channel:
  assumes "sng_wf g" "channel_edges g src snks k es" "src < length (sg_verts g)" "\<forall>s \<in> set snks. s < length (sg_verts g)"
  shows "sng_wf (with_channel g vi es)"
  using assms by (fastforce simp: sng_wf_def with_channel_def channel_edges_def)

lemma channel_rate_new:
  assumes "sng_wf g" "channel_edges g src snks k es" "src < length (sg_verts g)" "\<forall>s \<in> set snks. s < length (sg_verts g)"
  shows "channel_rate (with_channel g vi es) (length (sg_verts g)) k"
  unfolding channel_rate_def
proof (intro ballI, clarify)
  fix u v i
  assume "(u, v, i) \<in> set (sg_edges (with_channel g vi es))"
  then have "u < length (sg_verts g) \<and> v < length (sg_verts g)
    \<or> u = length (sg_verts g) \<and> v \<in> set snks \<and> tokens_per_iteration g v i = k
    \<or> v = length (sg_verts g) \<and> u = src \<and> tokens_per_iteration g u i = k"
    using assms(1,2) by (fastforce simp: with_channel_def sng_wf_def channel_edges_def)
  then show "(v = length (sg_verts g) \<longrightarrow> tokens_per_iteration (with_channel g vi es) u i = k)
      \<and> (u = length (sg_verts g) \<longrightarrow> tokens_per_iteration (with_channel g vi es) v i = k)"
    using assms(3,4) by auto
qed

lemma channel_rate_old:
  assumes "sng_wf g" "channel_edges g src snks k es" "c < length (sg_verts g)" "vi_type (vinfo g c) = FIFO"
    "vi_type (vinfo g src) = ACTOR" "\<forall>s \<in> set snks. vi_type (vinfo g s) = ACTOR" "channel_rate g c l"
  shows "channel_rate (with_channel g vi es) c l"
  unfolding channel_rate_def
proof (intro ballI, clarify)
  fix u v i
  assume "(u, v, i) \<in> set (sg_edges (with_channel g vi es))"
  then consider "(u, v, i) \<in> set (sg_edges g)" | "u \<noteq> c" "v \<noteq> c"
    using assms(2-6) by (fastforce simp: with_channel_def channel_edges_def)
  then show "(v = c \<longrightarrow> tokens_per_iteration (with_channel g vi es) u i = l)
      \<and> (u = c \<longrightarrow> tokens_per_iteration (with_channel g vi es) v i = l)"
  proof cases
    case 1
    then have "u < length (sg_verts g)" "v < length (sg_verts g)"
      using assms(1) by (auto simp: sng_wf_def)
    then show ?thesis
      using 1 assms(7) by (auto simp: channel_rate_def)
  qed simp
qed

lemma consistent_with_channel:
  assumes "sng_wf g" "consistent g" "channel_edges g src snks k es" "good_actor L g src" "\<forall>s \<in> set snks. good_actor L g s" "0 < k"
  shows "consistent (with_channel g vi es)" "sng_wf (with_channel g vi es)"
proof -
  have ends: "src < length (sg_verts g)" "\<forall>s \<in> set snks. s < length (sg_verts g)"
      "vi_type (vinfo g src) = ACTOR" "\<forall>s \<in> set snks. vi_type (vinfo g s) = ACTOR"
    using assms(4,5) by (simp_all add: good_actor_def)
  show "sng_wf (with_channel g vi es)"
    by (rule wf_with_channel [OF assms(1,3) ends(1,2)])
  show "consistent (with_channel g vi es)"
    unfolding consistent_def
  proof (intro allI impI)
    fix c
    assume c: "c < length (sg_verts (with_channel g vi es))" "vi_type (vinfo (with_channel g vi es) c) = FIFO"
    show "\<exists>l > 0. channel_rate (with_channel g vi es) c l"
    proof (cases "c = length (sg_verts g)")
      case True
      then show ?thesis
        using channel_rate_new [OF assms(1,3) ends(1,2)] assms(6) by blast
    next
      case False
      then have old: "c < length (sg_verts g)" "vi_type (vinfo g c) = FIFO"
        using c by simp_all
      then obtain l where l: "0 < l" "channel_rate g c l"
        using assms(2) unfolding consistent_def by blast
      show ?thesis
        using l(1) channel_rate_old [OF assms(1,3) old ends(3,4) l(2)] by blast
    qed
  qed
qed

section \<open>A channel of the generator\<close>

definition nat_lcm :: "size_t \<Rightarrow> size_t \<Rightarrow> size_t" where
  "nat_lcm a b = of_nat (lcm (unat a) (unat b))"

lemma nat_lcm_fits: "lcm_fits nat_lcm"
  by (simp add: lcm_fits_def nat_lcm_def unsigned_of_nat take_bit_nat_eq_self)

text \<open>Actors \<open>a\<close>, \<open>b\<close> and \<open>c\<close> that fire 2, 3 and 6 times in an iteration.\<close>

definition example_actors :: gen_state where
  "example_actors = \<lparr>gs_graph = \<lparr>sg_verts = [
      \<lparr>vi_name = ''a'', vi_type = ACTOR, vi_size = 2, vi_capacity = -1, vi_delay = -1\<rparr>,
      \<lparr>vi_name = ''b'', vi_type = ACTOR, vi_size = 3, vi_capacity = -1, vi_delay = -1\<rparr>,
      \<lparr>vi_name = ''c'', vi_type = ACTOR, vi_size = 6, vi_capacity = -1, vi_delay = -1\<rparr>], sg_edges = []\<rparr>,
    gs_fifoCount = 0, gs_inputCount = 0, gs_outputCount = 0\<rparr>"

lemma example_actors_good:
  "good_actor 6 (gs_graph example_actors) 0" "good_actor 6 (gs_graph example_actors) 1" "good_actor 6 (gs_graph example_actors) 2"
  by (simp_all add: good_actor_def example_actors_def vinfo_def repCount_def)

lemma example_actors_consistent: "sng_wf (gs_graph example_actors)" "consistent (gs_graph example_actors)"
  by (auto simp: sng_wf_def consistent_def channel_rate_def example_actors_def)

text \<open>C39. \<^verbatim>\<open>addChannel\<close> keeps the graph consistent: when the repetition counts of the writer and the readers
  divide some number below \<open>2 ^ 63\<close>, the new FIFO carries the same number \<open>l > 0\<close> of tokens per
  iteration at all its ends, and so does every old FIFO.  Its capacity lets no fill state get stuck: for
  every number of tokens that its readers have not read, some reader finds enough tokens for a
  firing, or the writer finds enough room.\<close>

theorem addChannel_balances:
  assumes "lcm_fits lcmf" "0 < L" "L < 2 ^ 63" "sng_wf (gs_graph st)" "consistent (gs_graph st)"
    "good_actor L (gs_graph st) src" "\<forall>s \<in> set snks. good_actor L (gs_graph st) s"
  shows "\<exists>c st' l. addChannel lcmf prefix src snks st = Inr (c, st') \<and> consistent (gs_graph st') \<and> sng_wf (gs_graph st')
    \<and> 0 < l \<and> channel_rate (gs_graph st') c l
    \<and> (\<forall>fill. (\<exists>s \<in> set snks. l div unat (repCount (gs_graph st) s) \<le> fill s)
        \<or> (\<forall>s \<in> set snks. fill s + l div unat (repCount (gs_graph st) src) \<le> unat (vi_capacity (vinfo (gs_graph st') c))))"
proof -
  let ?g = "gs_graph st" and ?c = "length (sg_verts (gs_graph st))"
  obtain k st' vi i es m where a: "addChannel lcmf prefix src snks st = Inr (?c, st')"
    "gs_graph st' = with_channel ?g vi ((src, ?c, i) # es)" "vi_type vi = FIFO" "0 < k"
    "tokens_per_iteration ?g src i = k" "read_edges ?g ?c snks k m es"
    "unat (vi_capacity vi) = unat (ei_tokens i) + unat m - 1"
    using addChannel_ok [OF assms(1-3) refl assms(6,7)] .
  note ce = channel_edges_intro [OF a(6,5)]
  have ends: "src < ?c" "\<forall>s \<in> set snks. s < ?c"
    using assms(6,7) by (simp_all add: good_actor_def)
  have p: "k div unat (repCount ?g src) = unat (ei_tokens i)"
    using a(5) assms(6) by (auto simp: tokens_per_iteration_def good_actor_def)
  have m: "k div unat (repCount ?g s) \<le> unat m" if s: "s \<in> set snks" for s
  proof -
    have "(?c, s) \<in> set (map (\<lambda>(u, v, i). (u, v)) es)"
      using a(6) s by (simp add: read_edges_def)
    then obtain j where j: "(?c, s, j) \<in> set es"
      by auto
    from read_edges_ends(3,4) [OF a(6) j] show ?thesis
      using s assms(7) by (auto simp: tokens_per_iteration_def good_actor_def word_le_nat_alt)
  qed
  have room: "(\<exists>s \<in> set snks. k div unat (repCount ?g s) \<le> fill s) \<or> (\<forall>s \<in> set snks. fill s + unat (ei_tokens i) \<le> unat (vi_capacity vi))" for fill
  proof (rule ccontr)
    assume stuck: "\<not> ((\<exists>s \<in> set snks. k div unat (repCount ?g s) \<le> fill s)
      \<or> (\<forall>s \<in> set snks. fill s + unat (ei_tokens i) \<le> unat (vi_capacity vi)))"
    then obtain s where s: "s \<in> set snks" "unat (vi_capacity vi) < fill s + unat (ei_tokens i)"
      by (auto simp: not_le)
    then have "unat m \<le> fill s"
      using a(7) by simp
    then show False
      using m [OF s(1)] s(1) stuck by (meson le_trans)
  qed
  show ?thesis
    using a(1-4) consistent_with_channel [OF assms(4,5) ce assms(6,7) a(4)] channel_rate_new [OF assms(4) ce ends] room
    by (intro exI [of _ ?c] exI [of _ st'] exI [of _ k]) (simp add: p)
qed

theorem addChannel_balances_witness:
  "\<exists>c st' l. addChannel nat_lcm ''g'' 0 [1, 2] example_actors = Inr (c, st') \<and> consistent (gs_graph st')
    \<and> 0 < l \<and> channel_rate (gs_graph st') c l"
  using addChannel_balances [OF nat_lcm_fits _ _ example_actors_consistent, of 6 0 "[1, 2]" "''g''"] example_actors_good
  by auto

end
