(* ===== verification/SNG_Cluster.thy ===== *)
theory SNG_Cluster
  imports SNG_Balance
begin

text \<open>
  Generated clusters: their graph is consistent, they have the actors asked for, and the outputs asked
  for unless there are more outputs than actors.
\<close>

section \<open>Growing graphs\<close>

text \<open>Vertices that share an edge.\<close>

definition linked :: "sng \<Rightarrow> (nat \<times> nat) set" where
  "linked g = {(u, v). \<exists>i. (u, v, i) \<in> set (sg_edges g) \<or> (v, u, i) \<in> set (sg_edges g)}"

text \<open>
  What every step of the generator keeps: the old vertices and edges stay, the graph is consistent, a new
  actor has a good repetition count, and a new channel hangs on an actor.
\<close>

definition enlarged :: "nat \<Rightarrow> sng \<Rightarrow> sng \<Rightarrow> bool" where
  "enlarged L g g' \<longleftrightarrow> sng_wf g' \<and> consistent g' \<and> length (sg_verts g) \<le> length (sg_verts g')
   \<and> (\<forall>v < length (sg_verts g). vinfo g' v = vinfo g v) \<and> set (sg_edges g) \<subseteq> set (sg_edges g')
   \<and> (\<forall>v. length (sg_verts g) \<le> v \<longrightarrow> v < length (sg_verts g') \<longrightarrow>
        good_actor L g' v \<or> vi_type (vinfo g' v) \<noteq> ACTOR \<and> (\<exists>u. (u, v) \<in> linked g' \<and> vi_type (vinfo g' u) = ACTOR))"

lemma enlarged_refl: "sng_wf g \<Longrightarrow> consistent g \<Longrightarrow> enlarged L g g"
  by (simp add: enlarged_def)

lemma linked_range: "sng_wf g \<Longrightarrow> (u, v) \<in> linked g \<Longrightarrow> u < length (sg_verts g) \<and> v < length (sg_verts g)"
  by (auto simp: linked_def sng_wf_def)

lemma linked_sym: "(u, v) \<in> linked g \<longleftrightarrow> (v, u) \<in> linked g"
  by (auto simp: linked_def)

lemma linked_mono: "set (sg_edges g) \<subseteq> set (sg_edges g') \<Longrightarrow> linked g \<subseteq> linked g'"
  by (auto simp: linked_def)

lemma enlarged_keeps:
  assumes "enlarged L g g'"
  shows "sng_wf g'" "consistent g'" "v < length (sg_verts g) \<Longrightarrow> v < length (sg_verts g')"
    "v < length (sg_verts g) \<Longrightarrow> vinfo g' v = vinfo g v" "good_actor L g v \<Longrightarrow> good_actor L g' v" "linked g \<subseteq> linked g'"
  using assms by (auto simp: enlarged_def good_actor_def repCount_def linked_mono)

lemma enlarged_trans [trans]:
  assumes "enlarged L g g'" "enlarged L g' g''"
  shows "enlarged L g g''"
proof -
  have new: "good_actor L g'' v \<or> vi_type (vinfo g'' v) \<noteq> ACTOR \<and> (\<exists>u. (u, v) \<in> linked g'' \<and> vi_type (vinfo g'' u) = ACTOR)"
    if v: "length (sg_verts g) \<le> v" "v < length (sg_verts g'')" for v
  proof (cases "v < length (sg_verts g')")
    case True
    then consider "good_actor L g' v" | u where "vi_type (vinfo g' v) \<noteq> ACTOR" "(u, v) \<in> linked g'" "vi_type (vinfo g' u) = ACTOR"
      using assms(1) v(1) unfolding enlarged_def by blast
    then show ?thesis
    proof cases
      case 2
      then have "u < length (sg_verts g')"
        using linked_range [OF enlarged_keeps(1) [OF assms(1)]] by blast
      then show ?thesis
        using 2 True enlarged_keeps(4,6) [OF assms(2)] by (metis subsetD)
    qed (use enlarged_keeps(5) [OF assms(2)] in blast)
  next
    case False
    then show ?thesis
      using assms(2) v(2) unfolding enlarged_def by simp
  qed
  have "length (sg_verts g) \<le> length (sg_verts g'')" "set (sg_edges g) \<subseteq> set (sg_edges g'')"
    "\<forall>v < length (sg_verts g). vinfo g'' v = vinfo g v"
    using assms unfolding enlarged_def by auto
  with new show ?thesis
    using assms(2) by (simp add: enlarged_def)
qed

text \<open>One new vertex with its edges.\<close>

lemma with_channel_linked: "linked g \<subseteq> linked (with_channel g vi es)"
  by (rule linked_mono) (simp add: with_channel_def)

lemma enlarged_with_channel:
  assumes "sng_wf (with_channel g vi es)" "consistent (with_channel g vi es)"
    "good_actor L (with_channel g vi es) (length (sg_verts g)) \<or> vi_type vi \<noteq> ACTOR
      \<and> (\<exists>u < length (sg_verts g). (u, length (sg_verts g)) \<in> linked (with_channel g vi es) \<and> vi_type (vinfo g u) = ACTOR)"
  shows "enlarged L g (with_channel g vi es)"
proof -
  have "v = length (sg_verts g)" if "length (sg_verts g) \<le> v" "v < length (sg_verts (with_channel g vi es))" for v
    using that by simp
  moreover have "set (sg_edges g) \<subseteq> set (sg_edges (with_channel g vi es))"
    by (simp add: with_channel_def)
  ultimately show ?thesis
    using assms unfolding enlarged_def by (metis with_channel_old le_SucI order_refl)
qed

lemma consistent_with_actor:
  assumes "sng_wf g" "consistent g" "vi_type vi = ACTOR"
  shows "consistent (with_channel g vi [])" "sng_wf (with_channel g vi [])"
proof -
  have ends: "u < length (sg_verts g) \<and> v < length (sg_verts g)" if "(u, v, i) \<in> set (sg_edges g)" for u v i
    using assms(1) that by (auto simp: sng_wf_def)
  show "sng_wf (with_channel g vi [])"
    using ends by (auto simp: sng_wf_def with_channel_def less_SucI)
  have rate: "channel_rate (with_channel g vi []) c l" if "channel_rate g c l" for c l
    using that ends unfolding channel_rate_def by (fastforce simp: with_channel_def [of g vi "[]"] tokens_per_iteration_def repCount_def vinfo_def nth_append)
  show "consistent (with_channel g vi [])"
    unfolding consistent_def
  proof (intro allI impI)
    fix c
    assume c: "c < length (sg_verts (with_channel g vi []))" "vi_type (vinfo (with_channel g vi []) c) = FIFO"
    then have "c < length (sg_verts g)" "vi_type (vinfo g c) = FIFO"
      using assms(3) by (auto simp: less_Suc_eq)
    then show "\<exists>l > 0. channel_rate (with_channel g vi []) c l"
      using assms(2) rate unfolding consistent_def by blast
  qed
qed

text \<open>
  The steps of the generator: an actor, a channel whose ends the relation \<open>R\<close> allows, a register for an
  input or an output.
\<close>

inductive generated :: "nat \<Rightarrow> (nat \<Rightarrow> nat \<Rightarrow> bool) \<Rightarrow> sng \<Rightarrow> sng \<Rightarrow> bool" for L R g0 where
  generated_start: "generated L R g0 g0"
| generated_actor: "\<lbrakk>generated L R g0 g; vi_type vi = ACTOR; 0 < unat (vi_size vi); unat (vi_size vi) dvd L\<rbrakk>
    \<Longrightarrow> generated L R g0 (with_channel g vi [])"
| generated_channel: "\<lbrakk>generated L R g0 g; good_actor L g src; \<forall>s \<in> set snks. good_actor L g s \<and> R src s; vi_type vi = FIFO; 0 < k;
      tokens_per_iteration g src i = k; read_edges g (length (sg_verts g)) snks k m es\<rbrakk>
    \<Longrightarrow> generated L R g0 (with_channel g vi ((src, length (sg_verts g), i) # es))"
| generated_input: "\<lbrakk>generated L R g0 g; good_actor L g a; vi_type vi = REGISTER\<rbrakk>
    \<Longrightarrow> generated L R g0 (with_channel g vi [(length (sg_verts g), a, i)])"
| generated_output: "\<lbrakk>generated L R g0 g; good_actor L g a; vi_type vi = REGISTER\<rbrakk>
    \<Longrightarrow> generated L R g0 (with_channel g vi [(a, length (sg_verts g), i)])"

lemma generated_trans:
  assumes "generated L R g0 g1" "generated L R g1 g2"
  shows "generated L R g0 g2"
  using assms(2,1) by (induction rule: generated.induct) (auto intro: generated.intros)

lemma generated_mono:
  assumes "generated L R g0 g" "\<And>u v. R u v \<Longrightarrow> R' u v"
  shows "generated L R' g0 g"
  using assms(1) by (induction rule: generated.induct) (auto intro: generated.intros assms(2))

lemma generated_good: "generated L R g0 g \<Longrightarrow> good_actor L g0 v \<Longrightarrow> good_actor L g v"
  by (induction rule: generated.induct) (simp_all add: good_with_channel)

lemma enlarged_register:
  assumes "sng_wf g" "consistent g" "good_actor L g a" "vi_type vi = REGISTER"
    "es = [(length (sg_verts g), a, i)] \<or> es = [(a, length (sg_verts g), i)]"
  shows "enlarged L g (with_channel g vi es)"
proof -
  let ?n = "length (sg_verts g)" and ?k = "tokens_per_iteration g a i"
  have a: "a < ?n" "vi_type (vinfo g a) = ACTOR"
    using assms(3) by (simp_all add: good_actor_def)
  have ce: "channel_edges g a [a] ?k es"
    using assms(5) by (auto simp: channel_edges_def)
  have wf: "sng_wf (with_channel g vi es)"
    using wf_with_channel [OF assms(1) ce a(1)] a(1) by simp
  have "\<exists>l > 0. channel_rate (with_channel g vi es) c l"
    if c: "c < length (sg_verts (with_channel g vi es))" "vi_type (vinfo (with_channel g vi es) c) = FIFO" for c
  proof -
    have old: "c < ?n" "vi_type (vinfo g c) = FIFO"
      using c assms(4) by (auto simp: less_Suc_eq)
    then obtain l where "0 < l" "channel_rate g c l"
      using assms(2) unfolding consistent_def by blast
    then show ?thesis
      using channel_rate_old [OF assms(1) ce old a(2)] a(2) by auto
  qed
  then have con: "consistent (with_channel g vi es)"
    by (simp add: consistent_def)
  have "(a, ?n) \<in> linked (with_channel g vi es)"
    using assms(5) by (auto simp: linked_def with_channel_def)
  then show ?thesis
    using enlarged_with_channel [OF wf con] a assms(4) by auto
qed

lemma enlarged_channel:
  assumes "sng_wf g" "consistent g" "good_actor L g src" "\<forall>s \<in> set snks. good_actor L g s" "vi_type vi = FIFO" "0 < k"
    "tokens_per_iteration g src i = k" "read_edges g (length (sg_verts g)) snks k m es"
  shows "enlarged L g (with_channel g vi ((src, length (sg_verts g), i) # es))"
proof -
  have "src < length (sg_verts g)" "vi_type (vinfo g src) = ACTOR"
      "(src, length (sg_verts g)) \<in> linked (with_channel g vi ((src, length (sg_verts g), i) # es))"
    using assms(3) by (auto simp: good_actor_def linked_def with_channel_def)
  then show ?thesis
    using consistent_with_channel [OF assms(1,2) channel_edges_intro [OF assms(8,7)] assms(3,4,6)] assms(5)
    by (intro enlarged_with_channel) auto
qed

lemma generated_enlarged:
  assumes "generated L R g0 g" "sng_wf g0" "consistent g0"
  shows "enlarged L g0 g"
  using assms(1)
proof (induction rule: generated.induct)
  case generated_start
  show ?case using assms(2,3) by (rule enlarged_refl)
next
  case (generated_actor g vi)
  note w = enlarged_keeps(1,2) [OF generated_actor.IH]
  have "good_actor L (with_channel g vi []) (length (sg_verts g))"
    using generated_actor.hyps by (simp add: good_actor_def repCount_def)
  then have "enlarged L g (with_channel g vi [])"
    using consistent_with_actor [OF w generated_actor.hyps(2)] by (intro enlarged_with_channel) blast+
  then show ?case by (rule enlarged_trans [OF generated_actor.IH])
next
  case (generated_channel g src snks vi k i m es)
  then show ?case
    using enlarged_channel enlarged_keeps(1,2) [OF generated_channel.IH] by (intro enlarged_trans [OF generated_channel.IH]) blast
next
  case (generated_input g a vi i)
  then show ?case
    using enlarged_register [of g L a vi _ i] enlarged_keeps(1,2) [OF generated_input.IH] by (intro enlarged_trans [OF generated_input.IH]) simp
next
  case (generated_output g a vi i)
  then show ?case
    using enlarged_register [of g L a vi _ i] enlarged_keeps(1,2) [OF generated_output.IH] by (intro enlarged_trans [OF generated_output.IH]) simp
qed

section \<open>The actors of a cluster\<close>

text \<open>The state after \<open>j\<close> actors; \<open>d\<close> is the index from which actors are outputs.\<close>

definition actors_made :: "nat \<Rightarrow> (nat \<Rightarrow> nat \<Rightarrow> bool) \<Rightarrow> sng \<Rightarrow> size_t \<Rightarrow> nat \<Rightarrow> cluster_state \<Rightarrow> bool" where
  "actors_made L R g0 d j cs \<longleftrightarrow> (let g = gs_graph (cs_gen cs); info = cs_info cs; n = length (sg_verts g0) in
     generated L R g0 g \<and> length (sg_verts g) = n + j \<and> ci_actors info = [n..<n + j] \<and> (\<forall>v \<in> set (ci_actors info). good_actor L g v)
   \<and> set (ci_inputs info) \<subseteq> set (ci_actors info) \<and> set (ci_outputs info) \<subseteq> set (ci_actors info)
   \<and> length (ci_outputs info) = length (filter (\<lambda>i. d \<le> of_nat i) [0..<j]))"

lemma cluster_actor_made:
  assumes "actors_made L R g0 (sz - outputs) j cs" "0 < unat (rnd_repCount r j)" "unat (rnd_repCount r j) dvd L"
  shows "actors_made L R g0 (sz - outputs) (Suc j) (cluster_actor r name sz inputs outputs j cs)"
proof -
  let ?g = "gs_graph (cs_gen cs)" and ?cs = "cluster_actor r name sz inputs outputs j cs"
  define vi where "vi = mk_vertex_info\<lparr>vi_type := ACTOR, vi_name := name @ ''.a'' @ dec (of_nat (j + 1)), vi_size := rnd_repCount r j\<rparr>"
  have g: "gs_graph (cs_gen ?cs) = with_channel ?g vi []"
    by (simp add: cluster_actor_def add_vertex_def set_vinfo_def vinfo_def with_channel_def vi_def Let_def)
  have info: "ci_actors (cs_info ?cs) = ci_actors (cs_info cs) @ [length (sg_verts ?g)]"
    "ci_outputs (cs_info ?cs) = ci_outputs (cs_info cs) @ (if sz - outputs \<le> of_nat j then [length (sg_verts ?g)] else [])"
    "ci_inputs (cs_info ?cs) = ci_inputs (cs_info cs) @ (if of_nat j < inputs then [length (sg_verts ?g)] else [])"
    by (simp_all add: cluster_actor_def add_vertex_def Let_def)
  have "good_actor L (with_channel ?g vi []) (length (sg_verts ?g))"
    using assms(2,3) by (simp add: good_actor_def repCount_def vi_def)
  moreover have "generated L R g0 (with_channel ?g vi [])"
    using assms by (intro generated_actor) (simp_all add: actors_made_def Let_def vi_def)
  ultimately show ?thesis
    using assms(1) good_with_channel [of L ?g _ vi "[]"]
    by (auto simp: actors_made_def g info Let_def)
qed

lemma cluster_actors_made:
  assumes "actors_made L R g0 (sz - outputs) 0 cs" "\<forall>j. 0 < unat (rnd_repCount r j) \<and> unat (rnd_repCount r j) dvd L"
  shows "actors_made L R g0 (sz - outputs) n (fold (cluster_actor r name sz inputs outputs) [0..<n] cs)"
  using assms by (induction n) (simp_all add: cluster_actor_made)

section \<open>The channels of a cluster\<close>

lemma take_sinks_sub:
  "take_sinks pick k snks md od acc = (chosen, snks', md', od', k') \<Longrightarrow>
   set chosen \<subseteq> set acc \<union> set snks \<and> set snks' \<subseteq> set snks"
proof (induction pick k snks md od acc arbitrary: chosen snks' md' od' k' rule: take_sinks.induct)
  case (1 pick k snks md od acc)
  let ?i = "pick k (length snks)"
  have sub: "set (take ?i snks @ drop (Suc ?i) snks) \<subseteq> set snks"
    using set_take_subset [of ?i snks] set_drop_subset [of "Suc ?i" snks] by auto
  show ?case
  proof (cases "length snks \<le> ?i")
    case True
    then show ?thesis
      using "1.prems" by (simp add: take_sinks.simps [of pick k snks] Let_def)
  next
    case False
    then have i: "snks ! ?i \<in> set snks"
      by simp
    show ?thesis
    proof (cases "take ?i snks @ drop (Suc ?i) snks \<noteq> [] \<and> md - 1 > 0 \<and> od - 1 > 0")
      case True
      then have "take_sinks pick (Suc k) (take ?i snks @ drop (Suc ?i) snks) (md - 1) (od - 1) (acc @ [snks ! ?i]) = (chosen, snks', md', od', k')"
        using "1.prems" False by (simp add: take_sinks.simps [of pick k snks] Let_def)
      from "1.IH" [OF refl False refl refl True this] show ?thesis
        using sub i by auto
    next
      case False
      then have "chosen = acc @ [snks ! ?i]" and r: "snks' = take ?i snks @ drop (Suc ?i) snks"
        using "1.prems" \<open>\<not> length snks \<le> ?i\<close> by (auto simp: take_sinks.simps [of pick k snks] Let_def)
      then have "set chosen \<subseteq> set acc \<union> set snks"
        using i by auto
      moreover have "set snks' \<subseteq> set snks"
        unfolding r by (rule sub)
      ultimately show ?thesis ..
    qed
  qed
qed

lemma addChannel_generated:
  assumes "lcm_fits lcmf" "0 < L" "L < 2 ^ 63"
    "good_actor L (gs_graph st) src" "\<forall>s \<in> set snks. good_actor L (gs_graph st) s \<and> R src s"
  obtains c st' vi i es where "addChannel lcmf prefix src snks st = Inr (c, st')" "generated L R (gs_graph st) (gs_graph st')"
    "c = length (sg_verts (gs_graph st))" "gs_graph st' = with_channel (gs_graph st) vi ((src, c, i) # es)" "vi_type vi = FIFO"
    "map (\<lambda>(u, v, i). (u, v)) es = map (\<lambda>s. (c, s)) snks"
proof -
  let ?g = "gs_graph st" and ?c = "length (sg_verts (gs_graph st))"
  have good: "\<forall>s \<in> set snks. good_actor L ?g s"
    using assms(5) by blast
  obtain k st' vi i es m where a: "addChannel lcmf prefix src snks st = Inr (?c, st')"
    "gs_graph st' = with_channel ?g vi ((src, ?c, i) # es)" "vi_type vi = FIFO" "0 < k"
    "tokens_per_iteration ?g src i = k" "read_edges ?g ?c snks k m es"
    using addChannel_ok [OF assms(1-3) refl assms(4) good] by metis
  have "generated L R ?g (gs_graph st')"
    unfolding a(2) by (rule generated_channel [where R = R, OF generated_start assms(4) assms(5) a(3-6)])
  moreover have "map (\<lambda>(u, v, i). (u, v)) es = map (\<lambda>s. (?c, s)) snks"
    using a(6) by (simp only: read_edges_def)
  ultimately show thesis
    using a(1-3) by (intro that) simp_all
qed

lemma cluster_channels_ok:
  assumes "lcm_fits lcmf" "0 < L" "L < 2 ^ 63"
  shows "\<lbrakk>good_actor L (gs_graph st) src; \<forall>s \<in> set snks. good_actor L (gs_graph st) s \<and> R src s\<rbrakk> \<Longrightarrow>
    \<exists>k' st'. cluster_channels lcmf pick prefix src k snks md od st = Inr (k', st') \<and> generated L R (gs_graph st) (gs_graph st')"
proof (induction "length snks" arbitrary: k snks md od st rule: less_induct)
  case less
  show ?case
  proof (cases "snks = [] \<or> od \<le> 0")
    case True
    then show ?thesis
      using generated_start by (auto simp: cluster_channels.simps [of _ _ _ _ k])
  next
    case False
    obtain chosen snks' md' od' k' where t: "take_sinks pick k snks md od [] = (chosen, snks', md', od', k')"
      by (cases "take_sinks pick k snks md od []") auto
    have sub: "set chosen \<subseteq> set snks" "set snks' \<subseteq> set snks"
      using take_sinks_sub [OF t] by simp_all
    have "\<forall>s \<in> set chosen. good_actor L (gs_graph st) s \<and> R src s"
      using sub less.prems(2) by blast
    from addChannel_generated [where R = R, OF assms less.prems(1) this, of prefix] obtain c st1 where
      s1: "addChannel lcmf prefix src chosen st = Inr (c, st1)" "generated L R (gs_graph st) (gs_graph st1)" .
    show ?thesis
    proof (cases "length snks' < length snks")
      case True
      have g1: "good_actor L (gs_graph st1) src" "\<forall>s \<in> set snks'. good_actor L (gs_graph st1) s \<and> R src s"
        using generated_good [OF s1(2)] less.prems sub by auto
      obtain k2 st2 where s2: "cluster_channels lcmf pick prefix src k' snks' md' od' st1 = Inr (k2, st2)"
          "generated L R (gs_graph st1) (gs_graph st2)"
        using less.hyps [OF True g1] by blast
      then show ?thesis
        using False True t s1 generated_trans [OF s1(2) s2(2)] by (simp add: cluster_channels.simps [of _ _ _ _ k snks])
    next
      case small: False
      then show ?thesis
        using False t s1 by (simp add: cluster_channels.simps [of _ _ _ _ k snks])
    qed
  qed
qed

text \<open>In an acyclic graph the generator leads channels from older to newer actors.\<close>

definition forward :: "bool \<Rightarrow> nat \<Rightarrow> nat \<Rightarrow> bool" where
  "forward createDAG u v \<longleftrightarrow> createDAG \<longrightarrow> u < v"

text \<open>The state while channels are added: the actors stay, the graph is generated.\<close>

definition channels_made :: "nat \<Rightarrow> bool \<Rightarrow> sng \<Rightarrow> cluster_info \<Rightarrow> cluster_state \<Rightarrow> bool" where
  "channels_made L dag g0 info cs \<longleftrightarrow> cs_info cs = info \<and> generated L (forward dag) g0 (gs_graph (cs_gen cs))
   \<and> (\<forall>v \<in> set (ci_actors info). good_actor L (gs_graph (cs_gen cs)) v)"

lemma sink_candidates_actors: "set (sink_candidates dag self actors inputs j) \<subseteq> set actors"
  by (auto simp: sink_candidates_def)

lemma sink_candidates_forward:
  assumes "sorted_wrt (<) actors" "v \<in> set (sink_candidates dag self actors inputs j)"
  shows "forward dag (actors ! j) v"
  using assms sorted_wrt_nth_less [OF assms(1)] by (auto simp: forward_def sink_candidates_def)

lemma cluster_source_ok:
  assumes "lcm_fits lcmf" "0 < L" "L < 2 ^ 63" "sorted_wrt (<) (ci_actors info)" "channels_made L dag g0 info cs" "j < length (ci_actors info)"
  shows "\<exists>cs'. cluster_source lcmf r prefix dag self inputs j cs = Inr cs' \<and> channels_made L dag g0 info cs'"
proof -
  let ?snks = "sink_candidates dag self (ci_actors info) inputs j" and ?g = "gs_graph (cs_gen cs)"
  have i: "cs_info cs = info" "generated L (forward dag) g0 ?g" "\<forall>v \<in> set (ci_actors info). good_actor L ?g v"
    using assms(5) by (auto simp: channels_made_def)
  have "good_actor L ?g (ci_actors info ! j)" "\<forall>s \<in> set ?snks. good_actor L ?g s \<and> forward dag (ci_actors info ! j) s"
    using i(3) assms(6) sink_candidates_actors [of dag self "ci_actors info" inputs j] sink_candidates_forward [OF assms(4)] by auto
  from cluster_channels_ok [where R = "forward dag", OF assms(1-3) this]
  obtain k st where "cluster_channels lcmf (rnd_pick r) prefix (ci_actors info ! j) (cs_picks cs) ?snks
      (pq_top (cs_multi cs) 1) (pq_top (cs_out cs) 0) (cs_gen cs) = Inr (k, st)" "generated L (forward dag) ?g (gs_graph st)"
    by blast
  moreover from this(2) have "generated L (forward dag) g0 (gs_graph st)" "\<forall>v \<in> set (ci_actors info). good_actor L (gs_graph st) v"
    using i generated_good generated_trans by blast+
  ultimately show ?thesis
    using i(1) by (simp add: cluster_source_def channels_made_def Let_def)
qed

lemma cluster_sources_ok:
  assumes "lcm_fits lcmf" "0 < L" "L < 2 ^ 63" "sorted_wrt (<) (ci_actors info)" "channels_made L dag g0 info cs" "length (ci_actors info) = n"
  shows "\<exists>cs'. rfold (cluster_source lcmf r prefix dag self inputs) [0..<n] cs = Inr cs' \<and> channels_made L dag g0 info cs'"
proof (rule rfold_rule [where P = "\<lambda>_. channels_made L dag g0 info"])
  fix ys j zs t
  assume "[0..<n] = ys @ j # zs" "channels_made L dag g0 info t"
  moreover from this have "j < n"
    by (metis atLeastLessThan_iff in_set_conv_decomp set_upt)
  ultimately show "\<exists>t'. cluster_source lcmf r prefix dag self inputs j t = Inr t' \<and> channels_made L dag g0 info t'"
    using cluster_source_ok [OF assms(1-4)] assms(6) by simp
qed (rule assms(5))

section \<open>How many outputs a cluster gets\<close>

lemma filter_from: "filter (\<lambda>i. d \<le> i) [0..<n] = [d..<n]" for d n :: nat
  by (induction n) auto

lemma outputs_count:
  "length (filter (\<lambda>i. n - k \<le> of_nat i) [0..<unat n]) = (if k \<le> n then unat k else 0)" for n k :: size_t
proof -
  have n: "unat n < 2 ^ 64" and k: "unat k < 2 ^ 64"
    using unsigned_less [of n, where ?'a = nat] unsigned_less [of k, where ?'a = nat] by simp_all
  have "filter (\<lambda>i. n - k \<le> of_nat i) [0..<unat n] = filter (\<lambda>i. unat (n - k) \<le> i) [0..<unat n]"
    using n by (intro filter_cong) (auto simp: word_le_nat_alt unsigned_of_nat take_bit_nat_eq_self)
  also have "\<dots> = [unat (n - k)..<unat n]"
    by (rule filter_from)
  finally have l: "length (filter (\<lambda>i. n - k \<le> of_nat i) [0..<unat n]) = unat n - unat (n - k)"
    by simp
  show ?thesis
  proof (cases "k \<le> n")
    case True
    then show ?thesis
      using l by (simp add: unat_sub word_le_nat_alt)
  next
    case False
    then have "unat (n - k) = unat n + 2 ^ 64 - unat k"
      using k by (simp add: unat_sub_if_size word_le_nat_alt word_size)
    with False k show ?thesis
      using l by (simp add: word_le_nat_alt)
  qed
qed

section \<open>Clusters\<close>

lemma generateCluster_ok:
  assumes "lcm_fits lcmf" "0 < L" "L < 2 ^ 63"
    and reps: "\<forall>j. 0 < unat (rnd_repCount r j) \<and> unat (rnd_repCount r j) dvd L"
    and sz: "sz = min (rnd_actorCount r) maxActors" "1 \<le> sz" and outs: "outs = min (rnd_outputCount r) (sz * 3 div 2)"
  shows "\<exists>info st'. generateCluster lcmf r prefix ctype maxActors dag self count st = Inr (info, st')
    \<and> generated L (forward dag) (gs_graph st) (gs_graph st')
    \<and> ci_actors info = [length (sg_verts (gs_graph st))..<length (sg_verts (gs_graph st)) + unat sz]
    \<and> (\<forall>v \<in> set (ci_actors info). good_actor L (gs_graph st') v)
    \<and> set (ci_inputs info) \<subseteq> set (ci_actors info) \<and> set (ci_outputs info) \<subseteq> set (ci_actors info)
    \<and> length (ci_outputs info) = (if outs \<le> sz then unat outs else 0)"
proof -
  define ins where "ins = min (rnd_inputCount r) (sz * 3 div 2)"
  define cs0 where "cs0 = \<lparr>cs_gen = st, cs_info = \<lparr>ci_inputs = [], ci_outputs = [], ci_actors = []\<rparr>, cs_out = [], cs_multi = [], cs_calls = 0, cs_picks = 0\<rparr>"
  define cs1 where "cs1 = fold (cluster_actor r (prefix @ ctype @ dec count) sz ins outs) [0..<unat sz] cs0"
  let ?g0 = "gs_graph st"
  have "actors_made L (forward dag) ?g0 (sz - outs) 0 cs0"
    by (simp add: actors_made_def cs0_def Let_def generated_start)
  from cluster_actors_made [OF this reps] have a: "actors_made L (forward dag) ?g0 (sz - outs) (unat sz) cs1"
    unfolding cs1_def .
  then have "sorted_wrt (<) (ci_actors (cs_info cs1))" "channels_made L dag ?g0 (cs_info cs1) cs1" "length (ci_actors (cs_info cs1)) = unat sz"
    by (simp_all add: actors_made_def channels_made_def Let_def sorted_wrt_upt)
  from cluster_sources_ok [OF assms(1-3) this]
  obtain cs2 where c: "rfold (cluster_source lcmf r prefix dag self ins) [0..<unat sz] cs1 = Inr cs2" "channels_made L dag ?g0 (cs_info cs1) cs2"
    by blast
  have "generateCluster lcmf r prefix ctype maxActors dag self count st = Inr (cs_info cs2, cs_gen cs2)"
    using sz(2) c(1)
    by (simp add: generateCluster_def Let_def sz(1) [symmetric] ins_def [symmetric] outs [symmetric] cs0_def [symmetric] cs1_def [symmetric])
  then show ?thesis
    using a c(2) outputs_count [of sz outs] by (auto simp: actors_made_def channels_made_def Let_def)
qed

definition example_cluster :: random_cluster where
  "example_cluster = \<lparr>rnd_actorCount = 4, rnd_inputCount = 1, rnd_outputCount = 6, rnd_repCount = (\<lambda>j. if even j then 2 else 3),
     rnd_outDegree = (\<lambda>_. 1), rnd_multicastDegree = (\<lambda>_. 1), rnd_pick = (\<lambda>_ _. 0)\<rparr>"

text \<open>A generated cluster is consistent: when the repetition counts drawn divide some number below
  \<open>2 ^ 63\<close>, generation succeeds, and all FIFOs of the graph, those of the new cluster and those that were
  there, carry the same number of tokens per iteration at all their ends.  The cluster has the actors
  asked for, but its outputs only if they are no more than its actors: the code allows up to one and a
  half times as many, and then the subtraction \<^verbatim>\<open>clusterSize - clusterOutputs\<close> wraps and no actor becomes
  an output.\<close>

theorem generated_cluster_consistent:
  assumes "lcm_fits lcmf" "0 < L" "L < 2 ^ 63" "sng_wf (gs_graph st)" "consistent (gs_graph st)"
    "\<forall>j. 0 < unat (rnd_repCount r j) \<and> unat (rnd_repCount r j) dvd L"
    "sz = min (rnd_actorCount r) maxActors" "1 \<le> sz" "outs = min (rnd_outputCount r) (sz * 3 div 2)"
  shows "\<exists>info st'. generateCluster lcmf r prefix ctype maxActors dag self count st = Inr (info, st')
    \<and> consistent (gs_graph st') \<and> sng_wf (gs_graph st')
    \<and> length (ci_actors info) = unat sz \<and> (\<forall>v \<in> set (ci_actors info). vi_type (vinfo (gs_graph st') v) = ACTOR)
    \<and> length (ci_outputs info) = (if outs \<le> sz then unat outs else 0)"
proof -
  from generateCluster_ok [OF assms(1-3,6-9), of prefix ctype dag self count st] obtain info st' where
    c: "generateCluster lcmf r prefix ctype maxActors dag self count st = Inr (info, st')"
      "generated L (forward dag) (gs_graph st) (gs_graph st')" "length (ci_actors info) = unat sz"
      "\<forall>v \<in> set (ci_actors info). good_actor L (gs_graph st') v" "length (ci_outputs info) = (if outs \<le> sz then unat outs else 0)"
    by auto
  from generated_enlarged [OF c(2) assms(4,5)] show ?thesis
    using c(1,3-5) enlarged_keeps(1,2) by (auto simp: good_actor_def)
qed

theorem generated_cluster_consistent_witness:
  "\<exists>info st'. generateCluster nat_lcm example_cluster ''g'' ''c'' 10 True False 1 example_actors = Inr (info, st')
    \<and> consistent (gs_graph st') \<and> length (ci_actors info) = 4 \<and> ci_outputs info = []"
proof -
  have "unat (rnd_repCount example_cluster j) dvd 6 \<and> 0 < unat (rnd_repCount example_cluster j)" for j
    by (simp add: example_cluster_def)
  then have r: "\<forall>j. 0 < unat (rnd_repCount example_cluster j) \<and> unat (rnd_repCount example_cluster j) dvd 6"
    by blast
  have sz: "4 = min (rnd_actorCount example_cluster) 10" and outs: "6 = min (rnd_outputCount example_cluster) (4 * 3 div 2)"
    by (simp_all add: example_cluster_def)
  have L: "(0::nat) < 6" "(6::nat) < 2 ^ 63" "1 \<le> (4::size_t)" "\<not> 6 \<le> (4::size_t)" "unat (4::size_t) = 4"
    by simp_all
  obtain info st' where c: "generateCluster nat_lcm example_cluster ''g'' ''c'' 10 True False 1 example_actors = Inr (info, st')"
    "consistent (gs_graph st')" "length (ci_actors info) = 4" "length (ci_outputs info) = 0"
    using generated_cluster_consistent [OF nat_lcm_fits L(1,2) example_actors_consistent r sz L(3) outs, of "''g''" "''c''" True False 1]
    unfolding L(5) using L(4) by (elim exE conjE) (rule that; simp)
  then show ?thesis
    by (intro exI [of _ info] exI [of _ st']) simp
qed

end
