(* ===== verification/SNG_Topology.thy ===== *)
theory SNG_Topology
  imports SNG_Cluster
begin

text \<open>
  The topology of a generated graph, as \<^verbatim>\<open>main\<close> of \<^verbatim>\<open>sng-generate-sdf.cpp\<close> builds it: clusters until all
  actors are made, channels from the outputs of a cluster to other clusters, channels that connect the components of
  the graph, a source actor, inputs and outputs.

  What the random generators return is a record of functions, as for clusters; the \<open>k\<close>-th value of
  \<^verbatim>\<open>uniform_int_distribution<>(0, n-1)\<close> is \<open>draw pick k n\<close>, which is in range.  \<^verbatim>\<open>boost::connected_components\<close> is the
  parameter \<open>cc\<close>; it returns the number of components and the component of every vertex.
\<close>

definition draw :: "(nat \<Rightarrow> nat \<Rightarrow> nat) \<Rightarrow> nat \<Rightarrow> nat \<Rightarrow> nat" where
  "draw pick k n = pick k n mod n"

lemma draw_less [simp]: "0 < n \<Longrightarrow> draw pick k n < n"
  by (simp add: draw_def)

section \<open>Making clusters\<close>

text \<open>An entry of \<^verbatim>\<open>clusterOptionsMap\<close>, whose keys are the ends of the weights.\<close>

record cluster_options =
  co_key :: size_t
  co_type :: string
  co_weight :: size_t
  co_count :: size_t

record generator_options =
  go_prefix :: string
  go_createDAG :: bool
  go_allowSelfEdges :: bool
  go_randomSelection :: bool
  go_sourceActor :: bool
  go_inputData :: bool
  go_outputData :: bool
  go_actorCount :: size_t

text \<open>The random values: of the \<open>c\<close>-th cluster, and of the \<open>i\<close>-th of its outputs.\<close>

record random_choices =
  rc_select :: "nat \<Rightarrow> size_t"
  rc_cluster :: "nat \<Rightarrow> random_cluster"
  rc_outDegree :: "nat \<Rightarrow> nat \<Rightarrow> rat"
  rc_multicastDegree :: "nat \<Rightarrow> nat \<Rightarrow> rat"
  rc_pick :: "nat \<Rightarrow> nat \<Rightarrow> nat"

record topology_state =
  ts_gen :: gen_state
  ts_clusters :: "cluster_info list"
  ts_options :: "cluster_options list"
  ts_left :: size_t

definition new_cluster ::
  "(size_t \<Rightarrow> size_t \<Rightarrow> size_t) \<Rightarrow> generator_options \<Rightarrow> random_choices \<Rightarrow> nat \<Rightarrow> topology_state \<Rightarrow> topology_state result" where
  "new_cluster lcmf go rc i ts = (let
     co = ts_options ts ! i;
     count = co_count co + 1
   in rbind (generateCluster lcmf (rc_cluster rc (length (ts_clusters ts))) (go_prefix go) (co_type co) (ts_left ts)
        (go_createDAG go) (go_allowSelfEdges go) count (ts_gen ts)) (\<lambda>(info, st).
      Inr \<lparr>ts_gen = st, ts_clusters = ts_clusters ts @ [info], ts_options = (ts_options ts)[i := co\<lparr>co_count := count\<rparr>],
           ts_left = ts_left ts - of_nat (length (ci_actors info))\<rparr>))"

text \<open>A cluster has at least one actor and no more than there are left.\<close>

lemma rfold_inv:
  assumes "rfold f xs s = Inr t" "\<And>x s t. x \<in> set xs \<Longrightarrow> f x s = Inr t \<Longrightarrow> P s \<Longrightarrow> P t" "P s"
  shows "P t"
  using assms by (induction xs arbitrary: s) (auto simp: rbind_eq_Inr_iff)

lemma cluster_actor_count: "length (ci_actors (cs_info (cluster_actor r name sz inputs outputs j cs))) = Suc (length (ci_actors (cs_info cs)))"
  by (simp add: cluster_actor_def add_vertex_def Let_def)

lemma cluster_actors_count:
  "length (ci_actors (cs_info (fold (cluster_actor r name sz inputs outputs) js cs))) = length js + length (ci_actors (cs_info cs))"
  by (induction js arbitrary: cs) (simp_all add: cluster_actor_count)

lemma cluster_source_info: "cluster_source lcmf r prefix dag self inputs j cs = Inr cs' \<Longrightarrow> cs_info cs' = cs_info cs"
  by (auto simp: cluster_source_def Let_def rbind_eq_Inr_iff)

lemma generateCluster_size:
  assumes "generateCluster lcmf r prefix ctype maxActors dag self count st = Inr (info, st')"
  shows "1 \<le> length (ci_actors info)" "length (ci_actors info) \<le> unat maxActors"
proof -
  let ?sz = "min (rnd_actorCount r) maxActors"
  have one: "1 \<le> ?sz"
    using assms unfolding generateCluster_def Let_def by (simp split: if_splits)
  let ?ins = "min (rnd_inputCount r) (?sz * 3 div 2)" and ?outs = "min (rnd_outputCount r) (?sz * 3 div 2)"
  let ?cs0 = "\<lparr>cs_gen = st, cs_info = \<lparr>ci_inputs = [], ci_outputs = [], ci_actors = []\<rparr>, cs_out = [], cs_multi = [], cs_calls = 0, cs_picks = 0\<rparr>"
  let ?cs1 = "fold (cluster_actor r (prefix @ ctype @ dec count) ?sz ?ins ?outs) [0..<unat ?sz] ?cs0"
  obtain cs2 where c: "rfold (cluster_source lcmf r prefix dag self ?ins) [0..<unat ?sz] ?cs1 = Inr cs2" "info = cs_info cs2"
    using assms one unfolding generateCluster_def Let_def by (auto simp: rbind_eq_Inr_iff)
  have "cs_info cs2 = cs_info ?cs1"
    by (rule rfold_inv [OF c(1)]) (simp_all add: cluster_source_info)
  moreover have "length (ci_actors (cs_info ?cs1)) = unat ?sz"
    by (simp only: cluster_actors_count) simp
  ultimately have "length (ci_actors info) = unat ?sz"
    using c(2) by simp
  moreover have "1 \<le> unat ?sz" "unat ?sz \<le> unat maxActors"
    using one by (simp_all add: word_le_nat_alt min_def)
  ultimately show "1 \<le> length (ci_actors info)" "length (ci_actors info) \<le> unat maxActors"
    by simp_all
qed

lemma new_cluster_left:
  assumes "new_cluster lcmf go rc i ts = Inr ts'"
  shows "unat (ts_left ts') < unat (ts_left ts)"
proof -
  obtain info st where g: "generateCluster lcmf (rc_cluster rc (length (ts_clusters ts))) (go_prefix go) (co_type (ts_options ts ! i)) (ts_left ts)
      (go_createDAG go) (go_allowSelfEdges go) (co_count (ts_options ts ! i) + 1) (ts_gen ts) = Inr (info, st)"
    "ts_left ts' = ts_left ts - of_nat (length (ci_actors info))"
    using assms by (auto simp: new_cluster_def Let_def rbind_eq_Inr_iff)
  note n = generateCluster_size [OF g(1)]
  have "length (ci_actors info) < 2 ^ 64"
    using n(2) unsigned_less [of "ts_left ts", where ?'a = nat] by simp
  then have u: "unat (of_nat (length (ci_actors info)) :: size_t) = length (ci_actors info)"
    by (simp add: unsigned_of_nat take_bit_nat_eq_self)
  then have "unat (ts_left ts') = unat (ts_left ts) - length (ci_actors info)"
    using n(2) by (simp add: g(2) unat_sub word_le_nat_alt)
  then show ?thesis
    using n by simp
qed

text \<open>\<^verbatim>\<open>clusterOptionsMap.lower_bound\<close>; its end has no entry.\<close>

definition lower_bound :: "cluster_options list \<Rightarrow> size_t \<Rightarrow> nat result" where
  "lower_bound opts v = (let i = length (takeWhile (\<lambda>co. co_key co < v) opts) in
     if i < length opts then Inr i else Inl (RuntimeError ''end of clusterOptionsMap''))"

text \<open>Clusters whose types are drawn, \<open>random-cluster-selection\<close>.\<close>

function random_clusters ::
  "(size_t \<Rightarrow> size_t \<Rightarrow> size_t) \<Rightarrow> generator_options \<Rightarrow> random_choices \<Rightarrow> topology_state \<Rightarrow> topology_state result" where
  "random_clusters lcmf go rc ts = (if ts_left ts = 0 then Inr ts else
     rbind (lower_bound (ts_options ts) (rc_select rc (length (ts_clusters ts)))) (\<lambda>i.
     rbind (new_cluster lcmf go rc i ts) (\<lambda>ts'. random_clusters lcmf go rc ts')))"
  by pat_completeness auto
termination
  by (relation "measure (\<lambda>(lcmf, go, rc, ts). unat (ts_left ts))") (simp_all add: new_cluster_left)

declare random_clusters.simps [simp del]

text \<open>Clusters of the \<open>i\<close>-th type, as many as its weight says.\<close>

function weighted_clusters ::
  "(size_t \<Rightarrow> size_t \<Rightarrow> size_t) \<Rightarrow> generator_options \<Rightarrow> random_choices \<Rightarrow> nat \<Rightarrow> topology_state \<Rightarrow> topology_state result" where
  "weighted_clusters lcmf go rc i ts = (
     if co_count (ts_options ts ! i) < co_weight (ts_options ts ! i) \<and> 0 < ts_left ts
     then rbind (new_cluster lcmf go rc i ts) (\<lambda>ts'. weighted_clusters lcmf go rc i ts') else Inr ts)"
  by pat_completeness auto
termination
  by (relation "measure (\<lambda>(lcmf, go, rc, i, ts). unat (ts_left ts))") (simp_all add: new_cluster_left)

declare weighted_clusters.simps [simp del]

definition make_clusters ::
  "(size_t \<Rightarrow> size_t \<Rightarrow> size_t) \<Rightarrow> generator_options \<Rightarrow> random_choices \<Rightarrow> cluster_options list \<Rightarrow> gen_state \<Rightarrow> topology_state result" where
  "make_clusters lcmf go rc opts st = (let
     ts = \<lparr>ts_gen = st, ts_clusters = [], ts_options = opts, ts_left = go_actorCount go\<rparr>
   in if go_randomSelection go then random_clusters lcmf go rc ts
      else rfold (weighted_clusters lcmf go rc) [0..<length opts] ts)"

section \<open>Channels between clusters\<close>

text \<open>The degrees of the \<open>n\<close> outputs of cluster \<open>c\<close>, largest last.\<close>

definition output_degrees :: "random_choices \<Rightarrow> nat \<Rightarrow> nat \<Rightarrow> size_t list \<times> size_t list" where
  "output_degrees rc c n = fold (\<lambda>i (out, multi).
     (push_degree 0 (rc_outDegree rc c i) out, push_degree 1 (rc_multicastDegree rc c i) multi)) [0..<n] ([], [])"

definition sink_clusters :: "bool \<Rightarrow> nat \<Rightarrow> nat \<Rightarrow> nat list" where
  "sink_clusters createDAG src n = filter (\<lambda>c. src \<noteq> c) [if createDAG then src + 1 else 0..<n]"

text \<open>One more sink from each cluster, while there are less than the out degree.\<close>

definition more_sink :: "(nat \<Rightarrow> nat \<Rightarrow> nat) \<Rightarrow> cluster_info list \<Rightarrow> size_t \<Rightarrow> nat \<Rightarrow> nat \<times> nat list \<Rightarrow> nat \<times> nat list" where
  "more_sink pick clusters od c = (\<lambda>(k, snks). if unat od \<le> length snks then (k, snks) else let
     candidates = filter (\<lambda>v. v \<notin> set snks) (ci_actors (clusters ! c))
   in if candidates = [] then (k, snks) else (Suc k, snks @ [candidates ! draw pick k (length candidates)]))"

lemma more_sinks_length: "length (snd s) \<le> length (snd (fold (more_sink pick clusters od) cs s))"
proof (induction cs arbitrary: s)
  case (Cons c cs)
  have "length (snd s) \<le> length (snd (more_sink pick clusters od c s))"
    by (cases s) (simp add: more_sink_def Let_def)
  then show ?case
    using Cons [of "more_sink pick clusters od c s"] by simp
qed simp

function fill_sinks ::
  "(nat \<Rightarrow> nat \<Rightarrow> nat) \<Rightarrow> cluster_info list \<Rightarrow> nat list \<Rightarrow> size_t \<Rightarrow> nat \<times> nat list \<Rightarrow> nat \<times> nat list" where
  "fill_sinks pick clusters cs od s = (if length (snd s) < unat od then let
       s' = fold (more_sink pick clusters od) cs s
     in if length (snd s) = length (snd s') then s' else fill_sinks pick clusters cs od s' else s)"
  by pat_completeness auto
termination
proof (relation "measure (\<lambda>(pick, clusters, cs, od, s). unat od - length (snd s))", simp)
  fix pick clusters cs od and s s' :: "nat \<times> nat list"
  assume "length (snd s) < unat od" "s' = fold (more_sink pick clusters od) cs s" "length (snd s) \<noteq> length (snd s')"
  then show "((pick, clusters, cs, od, s'), (pick, clusters, cs, od, s)) \<in> measure (\<lambda>(pick, clusters, cs, od, s). unat od - length (snd s))"
    using more_sinks_length [of s pick clusters od cs] by simp
qed

declare fill_sinks.simps [simp del]

record output_state =
  os_gen :: gen_state
  os_out :: "size_t list"
  os_multi :: "size_t list"
  os_picks :: nat

text \<open>The channels of one output of cluster \<open>src\<close>.\<close>

definition output_channels ::
  "(size_t \<Rightarrow> size_t \<Rightarrow> size_t) \<Rightarrow> generator_options \<Rightarrow> random_choices \<Rightarrow> cluster_info list \<Rightarrow> nat \<Rightarrow> nat \<Rightarrow> output_state \<Rightarrow> output_state result" where
  "output_channels lcmf go rc clusters src v os = (let
     od = (if os_out os = [] then 0 else last (os_out os));
     md = pq_top (os_multi os) 1;
     cs = sink_clusters (go_createDAG go) src (length clusters);
     (k, snks) = fill_sinks (rc_pick rc) clusters cs od (os_picks os, concat (map (\<lambda>c. ci_inputs (clusters ! c)) cs))
   in rbind (cluster_channels lcmf (draw (rc_pick rc)) (go_prefix go) v k snks md (int (unat od)) (os_gen os)) (\<lambda>(k, st).
      Inr \<lparr>os_gen = st, os_out = butlast (os_out os), os_multi = butlast (os_multi os), os_picks = k\<rparr>))"

definition cluster_outputs ::
  "(size_t \<Rightarrow> size_t \<Rightarrow> size_t) \<Rightarrow> generator_options \<Rightarrow> random_choices \<Rightarrow> cluster_info list \<Rightarrow> nat \<Rightarrow> nat \<times> gen_state \<Rightarrow> (nat \<times> gen_state) result" where
  "cluster_outputs lcmf go rc clusters src = (\<lambda>(k, st). let
     outputs = ci_outputs (clusters ! src);
     (out, multi) = output_degrees rc src (length outputs)
   in rbind (rfold (output_channels lcmf go rc clusters src) outputs \<lparr>os_gen = st, os_out = out, os_multi = multi, os_picks = k\<rparr>) (\<lambda>os.
      Inr (os_picks os, os_gen os)))"

definition connect_clusters ::
  "(size_t \<Rightarrow> size_t \<Rightarrow> size_t) \<Rightarrow> generator_options \<Rightarrow> random_choices \<Rightarrow> cluster_info list \<Rightarrow> nat \<times> gen_state \<Rightarrow> (nat \<times> gen_state) result" where
  "connect_clusters lcmf go rc clusters s =
     (if 1 < length clusters then rfold (cluster_outputs lcmf go rc clusters) [0..<length clusters] s else Inr s)"

section \<open>Connecting components\<close>

text \<open>The actors of the components, in the order of their numbers.\<close>

definition actor_components :: "(sng \<Rightarrow> nat \<times> (nat \<Rightarrow> nat)) \<Rightarrow> sng \<Rightarrow> nat list list" where
  "actor_components cc g = (case cc g of (compNum, compMap) \<Rightarrow>
     map (\<lambda>i. filter (\<lambda>v. vi_type (vinfo g v) = ACTOR \<and> compMap v = i) (vertices g)) [0..<compNum])"

text \<open>
  The inner \<^verbatim>\<open>do\<close> loop draws until the number is not \<open>src\<close>; it may never end.  C++ leaves open which of the two
  actors of the new channel is drawn first; draws are arbitrary, so either order gives the same graphs.
\<close>

partial_function (option) other_component :: "(nat \<Rightarrow> nat \<Rightarrow> nat) \<Rightarrow> nat \<Rightarrow> nat \<Rightarrow> nat \<Rightarrow> (nat \<times> nat) option" where
  [code]: "other_component pick n src k = (let snk = draw pick k n in
     if snk = src then other_component pick n src (Suc k) else Some (snk, Suc k))"

lemma other_component_ok:
  assumes "other_component pick n src k = Some r" "0 < n"
  shows "fst r < n \<and> fst r \<noteq> src"
proof -
  have "0 < n \<longrightarrow> fst r < n \<and> fst r \<noteq> src"
  proof (rule other_component.raw_induct [where P = "\<lambda>pick n src k r. 0 < n \<longrightarrow> fst r < n \<and> fst r \<noteq> src", rotated])
    show "other_component pick n src k = Some r" by (rule assms(1))
  next
    fix f :: "(nat \<Rightarrow> nat \<Rightarrow> nat) \<Rightarrow> nat \<Rightarrow> nat \<Rightarrow> nat \<Rightarrow> (nat \<times> nat) option" and pick n src k r
    assume "\<And>pick n src k r. f pick n src k = Some r \<Longrightarrow> 0 < n \<longrightarrow> fst r < n \<and> fst r \<noteq> src"
      "(let snk = draw pick k n in if snk = src then f pick n src (Suc k) else Some (snk, Suc k)) = Some r"
    then show "0 < n \<longrightarrow> fst r < n \<and> fst r \<noteq> src"
      by (auto simp: Let_def split: if_splits)
  qed
  then show ?thesis
    using assms(2) by blast
qed

definition merge_components :: "nat \<Rightarrow> nat \<Rightarrow> nat list list \<Rightarrow> nat list list" where
  "merge_components src snk comps = (let
     comps = comps[src := comps ! src @ comps ! snk]
   in take snk comps @ drop (Suc snk) comps)"

lemma merge_components_length [simp]: "snk < length comps \<Longrightarrow> length (merge_components src snk comps) = length comps - 1"
  by (simp add: merge_components_def Let_def)

function connect_components ::
  "(size_t \<Rightarrow> size_t \<Rightarrow> size_t) \<Rightarrow> (nat \<Rightarrow> nat \<Rightarrow> nat) \<Rightarrow> string \<Rightarrow> nat list list \<Rightarrow> nat \<times> gen_state \<Rightarrow> (nat \<times> gen_state) result" where
  "connect_components lcmf pick prefix comps s = (if length comps \<le> 1 then Inr s else let
     (k, st) = s;
     src = draw pick k (length comps)
   in case other_component pick (length comps) src (Suc k) of
        None \<Rightarrow> Inl Diverges
      | Some (snk, k) \<Rightarrow> let
          a = comps ! src ! draw pick k (length (comps ! src));
          b = comps ! snk ! draw pick (Suc k) (length (comps ! snk))
        in rbind (addChannel lcmf prefix a [b] st) (\<lambda>(c, st).
           connect_components lcmf pick prefix (merge_components src snk comps) (Suc (Suc k), st)))"
  by pat_completeness auto
termination
proof (relation "measure (\<lambda>(lcmf, pick, prefix, comps, s). length comps)", simp, goal_cases)
  case 1
  then show ?case
    using other_component_ok by fastforce
qed

declare connect_components.simps [simp del]

definition connect_graph ::
  "(size_t \<Rightarrow> size_t \<Rightarrow> size_t) \<Rightarrow> (sng \<Rightarrow> nat \<times> (nat \<Rightarrow> nat)) \<Rightarrow> generator_options \<Rightarrow> random_choices \<Rightarrow> nat \<times> gen_state \<Rightarrow> (nat \<times> gen_state) result" where
  "connect_graph lcmf cc go rc = (\<lambda>(k, st). if 1 < fst (cc (gs_graph st))
     then connect_components lcmf (rc_pick rc) (go_prefix go) (actor_components cc (gs_graph st)) (k, st) else Inr (k, st))"

section \<open>Source actor, inputs and outputs\<close>

text \<open>Without a source actor \<^verbatim>\<open>vdSource\<close> stays uninitialised; its value is \<open>junk\<close>.\<close>

definition add_source :: "generator_options \<Rightarrow> nat \<Rightarrow> gen_state \<Rightarrow> nat \<times> gen_state" where
  "add_source go junk st = (if go_sourceActor go then let
       (v, g) = add_vertex (gs_graph st)
     in (v, st\<lparr>gs_graph := set_vinfo v ((vinfo g v)\<lparr>vi_type := ACTOR, vi_name := go_prefix go @ ''source'', vi_size := 1\<rparr>) g\<rparr>)
     else (junk, st))"

record ends_state =
  es_gen :: gen_state
  es_actors :: "nat list"
  es_inputs :: bool
  es_outputs :: bool

definition feed_actor ::
  "(size_t \<Rightarrow> size_t \<Rightarrow> size_t) \<Rightarrow> generator_options \<Rightarrow> nat \<Rightarrow> nat \<Rightarrow> gen_state \<Rightarrow> gen_state result" where
  "feed_actor lcmf go vdSource v st =
     rbind (if go_sourceActor go then rbind (addChannel lcmf (go_prefix go) vdSource [v] st) (\<lambda>(c, st). Inr st) else Inr st) (\<lambda>st.
     Inr (if go_inputData go then snd (addInput (go_prefix go) v st) else st))"

definition drain_actor :: "generator_options \<Rightarrow> nat \<Rightarrow> gen_state \<Rightarrow> gen_state" where
  "drain_actor go v st = (if go_outputData go then snd (addOutput (go_prefix go) v st) else st)"

definition visit_actor ::
  "(size_t \<Rightarrow> size_t \<Rightarrow> size_t) \<Rightarrow> generator_options \<Rightarrow> nat \<Rightarrow> nat \<Rightarrow> ends_state \<Rightarrow> ends_state result" where
  "visit_actor lcmf go vdSource v es = (let g = gs_graph (es_gen es) in
     if vdSource = v \<or> vi_type (vinfo g v) \<noteq> ACTOR then Inr es else let
       isSourceActor = (in_edges g v = []);
       isSinkActor = (out_edges g v = [])
     in rbind (if isSourceActor then feed_actor lcmf go vdSource v (es_gen es) else Inr (es_gen es)) (\<lambda>st.
        Inr \<lparr>es_gen = (if isSinkActor then drain_actor go v st else st), es_actors = es_actors es @ [v],
             es_inputs = (es_inputs es \<or> isSourceActor), es_outputs = (es_outputs es \<or> isSinkActor)\<rparr>))"

definition connect_ends ::
  "(size_t \<Rightarrow> size_t \<Rightarrow> size_t) \<Rightarrow> generator_options \<Rightarrow> random_choices \<Rightarrow> nat \<Rightarrow> nat \<times> gen_state \<Rightarrow> (nat \<times> gen_state) result" where
  "connect_ends lcmf go rc junk = (\<lambda>(k, st). let
     (vdSource, st) = add_source go junk st
   in rbind (rfold (visit_actor lcmf go vdSource) (vertices (gs_graph st))
              \<lparr>es_gen = st, es_actors = [], es_inputs = False, es_outputs = False\<rparr>) (\<lambda>es. let
        needsInput = (\<not> es_inputs es \<and> (go_sourceActor go \<or> go_inputData go))
      in rbind (if needsInput then feed_actor lcmf go vdSource (es_actors es ! draw (rc_pick rc) k (length (es_actors es))) (es_gen es)
                else Inr (es_gen es)) (\<lambda>st. let k = (if needsInput then Suc k else k) in
         Inr (if \<not> es_outputs es \<and> go_outputData go
              then (Suc k, drain_actor go (es_actors es ! draw (rc_pick rc) k (length (es_actors es))) st) else (k, st)))))"

section \<open>The topology\<close>

definition generate_topology ::
  "(size_t \<Rightarrow> size_t \<Rightarrow> size_t) \<Rightarrow> (sng \<Rightarrow> nat \<times> (nat \<Rightarrow> nat)) \<Rightarrow> generator_options \<Rightarrow> random_choices \<Rightarrow> cluster_options list \<Rightarrow> nat
     \<Rightarrow> gen_state \<Rightarrow> gen_state result" where
  "generate_topology lcmf cc go rc opts junk st =
     rbind (make_clusters lcmf go rc opts st) (\<lambda>ts.
     rbind (connect_clusters lcmf go rc (ts_clusters ts) (0, ts_gen ts)) (\<lambda>s.
     rbind (connect_graph lcmf cc go rc s) (\<lambda>s.
     rbind (connect_ends lcmf go rc junk s) (\<lambda>(k, st). Inr st))))"

end
