(* ===== verification/SNG_Connected.thy ===== *)
theory SNG_Connected
  imports SNG_Topology
begin

text \<open>
  Generated topologies: whatever the random generators return, the graph is consistent and connected, and
  acyclic if that was asked for.
\<close>

section \<open>Clusters\<close>

lemma empty_wf: "sng_wf sng_empty" "consistent sng_empty"
  by (simp_all add: sng_empty_def sng_wf_def consistent_def)

text \<open>What is assumed of the numbers drawn: good repetition counts, and clusters of at least one actor.\<close>

definition good_choices :: "nat \<Rightarrow> random_choices \<Rightarrow> bool" where
  "good_choices L rc \<longleftrightarrow> (\<forall>c. 1 \<le> rnd_actorCount (rc_cluster rc c)
     \<and> (\<forall>j. 0 < unat (rnd_repCount (rc_cluster rc c) j) \<and> unat (rnd_repCount (rc_cluster rc c) j) dvd L))"

definition good_cluster :: "nat \<Rightarrow> sng \<Rightarrow> cluster_info \<Rightarrow> bool" where
  "good_cluster L g info \<longleftrightarrow> (\<forall>v \<in> set (ci_actors info). good_actor L g v)
     \<and> set (ci_inputs info) \<subseteq> set (ci_actors info) \<and> set (ci_outputs info) \<subseteq> set (ci_actors info)"

text \<open>The state while clusters are made; the first actor is vertex 0.\<close>

definition clusters_made :: "nat \<Rightarrow> bool \<Rightarrow> topology_state \<Rightarrow> bool" where
  "clusters_made L dag ts \<longleftrightarrow> (let g = gs_graph (ts_gen ts) in
     generated L (forward dag) sng_empty g \<and> (\<forall>info \<in> set (ts_clusters ts). good_cluster L g info)
   \<and> sorted_wrt (<) (concat (map ci_actors (ts_clusters ts)))
   \<and> (if ts_clusters ts = [] then g = sng_empty else good_actor L g 0))"

lemma good_cluster_generated: "generated L R g g' \<Longrightarrow> good_cluster L g info \<Longrightarrow> good_cluster L g' info"
  using generated_good by (auto simp: good_cluster_def)

lemma new_cluster_made:
  assumes "lcm_fits lcmf" "0 < L" "L < 2 ^ 63" "good_choices L rc" "clusters_made L (go_createDAG go) ts" "0 < ts_left ts"
  shows "\<exists>ts'. new_cluster lcmf go rc i ts = Inr ts' \<and> clusters_made L (go_createDAG go) ts' \<and> ts_clusters ts' \<noteq> []
    \<and> map co_key (ts_options ts') = map co_key (ts_options ts)"
proof -
  let ?r = "rc_cluster rc (length (ts_clusters ts))" and ?g = "gs_graph (ts_gen ts)" and ?dag = "go_createDAG go"
  let ?sz = "min (rnd_actorCount ?r) (ts_left ts)" and ?n = "length (sg_verts (gs_graph (ts_gen ts)))"
  have r: "\<forall>j. 0 < unat (rnd_repCount ?r j) \<and> unat (rnd_repCount ?r j) dvd L" and one: "1 \<le> rnd_actorCount ?r"
    using assms(4) by (simp_all add: good_choices_def)
  have sz: "1 \<le> ?sz"
    using one assms(6) by (simp add: word_le_nat_alt word_less_nat_alt)
  obtain info st where c: "generateCluster lcmf ?r (go_prefix go) (co_type (ts_options ts ! i)) (ts_left ts) ?dag
      (go_allowSelfEdges go) (co_count (ts_options ts ! i) + 1) (ts_gen ts) = Inr (info, st)"
    "generated L (forward ?dag) ?g (gs_graph st)" "ci_actors info = [?n..<?n + unat ?sz]"
    "\<forall>v \<in> set (ci_actors info). good_actor L (gs_graph st) v"
    "set (ci_inputs info) \<subseteq> set (ci_actors info)" "set (ci_outputs info) \<subseteq> set (ci_actors info)"
    using generateCluster_ok [OF assms(1-3) r refl sz refl, of "go_prefix go" "co_type (ts_options ts ! i)" ?dag
        "go_allowSelfEdges go" "co_count (ts_options ts ! i) + 1" "ts_gen ts"] by blast
  have old: "generated L (forward ?dag) sng_empty ?g" "\<forall>info \<in> set (ts_clusters ts). good_cluster L ?g info"
    "sorted_wrt (<) (concat (map ci_actors (ts_clusters ts)))" "if ts_clusters ts = [] then ?g = sng_empty else good_actor L ?g 0"
    using assms(5) by (simp_all add: clusters_made_def Let_def)
  let ?ts = "\<lparr>ts_gen = st, ts_clusters = ts_clusters ts @ [info], ts_options = (ts_options ts)[i := (ts_options ts ! i)\<lparr>co_count := co_count (ts_options ts ! i) + 1\<rparr>],
    ts_left = ts_left ts - of_nat (length (ci_actors info))\<rparr>"
  have lt: "v < ?n" if "info' \<in> set (ts_clusters ts)" "v \<in> set (ci_actors info')" for info' v
    using old(2) that by (auto simp: good_cluster_def good_actor_def)
  have "good_cluster L (gs_graph st) info'" if "info' \<in> set (ts_clusters ts @ [info])" for info'
    using that old(2) c(4-6) good_cluster_generated [OF c(2)] by (auto simp: good_cluster_def)
  moreover have "sorted_wrt (<) (concat (map ci_actors (ts_clusters ts @ [info])))"
    using old(3) lt by (fastforce simp: sorted_wrt_append c(3) sorted_wrt_upt)
  moreover have "good_actor L (gs_graph st) 0"
  proof (cases "ts_clusters ts = []")
    case True
    then have "?n = 0"
      using old(4) by (simp add: sng_empty_def)
    moreover have "0 < unat ?sz"
      using sz by (simp add: word_le_nat_alt)
    ultimately show ?thesis
      using c(3,4) by simp
  next
    case False
    then show ?thesis
      using old(4) generated_good [OF c(2)] by simp
  qed
  ultimately have "clusters_made L ?dag ?ts"
    using generated_trans [OF old(1) c(2)] by (simp add: clusters_made_def Let_def)
  moreover have "map co_key (ts_options ?ts) = map co_key (ts_options ts)"
    by (cases "i < length (ts_options ts)") (simp_all add: map_update list_update_same_conv list_update_beyond)
  ultimately show ?thesis
    using c(1) by (intro exI [of _ ?ts]) (simp add: new_cluster_def Let_def)
qed

lemma lower_bound_ok:
  assumes "\<exists>co \<in> set opts. v \<le> co_key co"
  shows "\<exists>i. lower_bound opts v = Inr i"
proof -
  have "length (takeWhile (\<lambda>co. co_key co < v) opts) < length opts"
  proof (rule ccontr)
    assume "\<not> ?thesis"
    then have "length (takeWhile (\<lambda>co. co_key co < v) opts) = length opts"
      using length_takeWhile_le [of "\<lambda>co. co_key co < v" opts] by simp
    then have "takeWhile (\<lambda>co. co_key co < v) opts = opts"
      using takeWhile_eq_take [of "\<lambda>co. co_key co < v" opts] by simp
    then show False
      using assms by (metis set_takeWhileD linorder_not_le)
  qed
  then show ?thesis
    by (simp add: lower_bound_def Let_def)
qed

lemma random_clusters_made:
  assumes "lcm_fits lcmf" "0 < L" "L < 2 ^ 63" "good_choices L rc" and sel: "\<forall>k. \<exists>v \<in> K. rc_select rc k \<le> v"
  shows "clusters_made L (go_createDAG go) ts \<Longrightarrow> set (map co_key (ts_options ts)) = K \<Longrightarrow> 0 < ts_left ts \<or> ts_clusters ts \<noteq> [] \<Longrightarrow>
    \<exists>ts'. random_clusters lcmf go rc ts = Inr ts' \<and> clusters_made L (go_createDAG go) ts' \<and> ts_clusters ts' \<noteq> []"
proof (induction "unat (ts_left ts)" arbitrary: ts rule: less_induct)
  case less
  show ?case
  proof (cases "ts_left ts = 0")
    case True
    then show ?thesis
      using less.prems by (simp add: random_clusters.simps [of _ _ _ ts])
  next
    case False
    then have left: "0 < ts_left ts"
      by (simp add: word_gt_0)
    have "\<exists>co \<in> set (ts_options ts). rc_select rc (length (ts_clusters ts)) \<le> co_key co"
      using sel less.prems(2) by (metis (no_types, lifting) imageE list.set_map)
    then obtain i where i: "lower_bound (ts_options ts) (rc_select rc (length (ts_clusters ts))) = Inr i"
      using lower_bound_ok by blast
    obtain ts1 where ts1: "new_cluster lcmf go rc i ts = Inr ts1" "clusters_made L (go_createDAG go) ts1" "ts_clusters ts1 \<noteq> []"
        "map co_key (ts_options ts1) = map co_key (ts_options ts)"
      using new_cluster_made [OF assms(1-4) less.prems(1) left] by blast
    have "\<exists>ts'. random_clusters lcmf go rc ts1 = Inr ts' \<and> clusters_made L (go_createDAG go) ts' \<and> ts_clusters ts' \<noteq> []"
      using less.hyps [OF new_cluster_left [OF ts1(1)] ts1(2)] ts1(3,4) less.prems(2) by metis
    then show ?thesis
      using False i ts1(1) by (simp add: random_clusters.simps [of _ _ _ ts])
  qed
qed

lemma weighted_clusters_made:
  assumes "lcm_fits lcmf" "0 < L" "L < 2 ^ 63" "good_choices L rc"
  shows "clusters_made L (go_createDAG go) ts \<Longrightarrow>
    \<exists>ts'. weighted_clusters lcmf go rc i ts = Inr ts' \<and> clusters_made L (go_createDAG go) ts' \<and> (ts_clusters ts' \<noteq> [] \<or> ts' = ts)
      \<and> (ts_clusters ts \<noteq> [] \<longrightarrow> ts_clusters ts' \<noteq> [])
      \<and> (co_count (ts_options ts ! i) < co_weight (ts_options ts ! i) \<and> 0 < ts_left ts \<longrightarrow> ts_clusters ts' \<noteq> [])"
proof (induction "unat (ts_left ts)" arbitrary: ts rule: less_induct)
  case less
  show ?case
  proof (cases "co_count (ts_options ts ! i) < co_weight (ts_options ts ! i) \<and> 0 < ts_left ts")
    case True
    then obtain ts1 where ts1: "new_cluster lcmf go rc i ts = Inr ts1" "clusters_made L (go_createDAG go) ts1" "ts_clusters ts1 \<noteq> []"
      using new_cluster_made [OF assms(1-4) less.prems, of i] by blast
    obtain ts2 where "weighted_clusters lcmf go rc i ts1 = Inr ts2" "clusters_made L (go_createDAG go) ts2" "ts_clusters ts2 \<noteq> []"
      using less.hyps [OF new_cluster_left [OF ts1(1)] ts1(2)] ts1(3) by blast
    then show ?thesis
      using True ts1(1) by (simp add: weighted_clusters.simps [of _ _ _ _ ts])
  qed (use less.prems in \<open>auto simp: weighted_clusters.simps [of _ _ _ _ ts]\<close>)
qed

text \<open>The choices lead to a first cluster.\<close>

definition makes_clusters :: "generator_options \<Rightarrow> random_choices \<Rightarrow> cluster_options list \<Rightarrow> bool" where
  "makes_clusters go rc opts \<longleftrightarrow> 0 < go_actorCount go \<and>
     (if go_randomSelection go then \<forall>k. \<exists>co \<in> set opts. rc_select rc k \<le> co_key co
      else \<exists>co \<in> set opts. co_count co < co_weight co)"

lemma weighted_all_made:
  assumes "lcm_fits lcmf" "0 < L" "L < 2 ^ 63" "good_choices L rc" "clusters_made L (go_createDAG go) ts" "ts_clusters ts = []"
    "0 < ts_left ts" "\<exists>co \<in> set (ts_options ts). co_count co < co_weight co"
  shows "\<exists>ts'. rfold (weighted_clusters lcmf go rc) [0..<length (ts_options ts)] ts = Inr ts'
    \<and> clusters_made L (go_createDAG go) ts' \<and> ts_clusters ts' \<noteq> []"
proof -
  let ?ready = "\<lambda>i. co_count (ts_options ts ! i) < co_weight (ts_options ts ! i)"
  let ?P = "\<lambda>ys t. clusters_made L (go_createDAG go) t \<and> (ts_clusters t \<noteq> [] \<or> t = ts \<and> (\<forall>i \<in> set ys. \<not> ?ready i))"
  have "\<exists>ts'. rfold (weighted_clusters lcmf go rc) [0..<length (ts_options ts)] ts = Inr ts' \<and> ?P [0..<length (ts_options ts)] ts'"
  proof (rule rfold_rule [where P = ?P])
    show "?P [] ts" using assms(5) by simp
  next
    fix ys i zs t
    assume "?P ys t"
    then show "\<exists>t'. weighted_clusters lcmf go rc i t = Inr t' \<and> ?P (ys @ [i]) t'"
      using weighted_clusters_made [OF assms(1-4), of go t i] assms(7) by auto
  qed
  moreover have "\<exists>i \<in> set [0..<length (ts_options ts)]. ?ready i"
    using assms(8) by (metis atLeastLessThan_iff in_set_conv_nth le0 set_upt)
  ultimately show ?thesis
    by blast
qed

lemma make_clusters_made:
  assumes "lcm_fits lcmf" "0 < L" "L < 2 ^ 63" "good_choices L rc" "makes_clusters go rc opts" "gs_graph st = sng_empty"
  shows "\<exists>ts. make_clusters lcmf go rc opts st = Inr ts \<and> clusters_made L (go_createDAG go) ts \<and> ts_clusters ts \<noteq> []"
proof -
  let ?ts = "\<lparr>ts_gen = st, ts_clusters = [], ts_options = opts, ts_left = go_actorCount go\<rparr>"
  have made: "clusters_made L (go_createDAG go) ?ts" and left: "0 < ts_left ?ts"
    using assms(5,6) by (simp_all add: clusters_made_def makes_clusters_def generated_start)
  show ?thesis
  proof (cases "go_randomSelection go")
    case True
    then have "\<forall>k. \<exists>v \<in> set (map co_key opts). rc_select rc k \<le> v"
      using assms(5) by (simp add: makes_clusters_def)
    from random_clusters_made [OF assms(1-4) this made] show ?thesis
      using True left by (simp add: make_clusters_def)
  next
    case False
    then have "\<exists>co \<in> set (ts_options ?ts). co_count co < co_weight co"
      using assms(5) by (simp add: makes_clusters_def)
    from weighted_all_made [OF assms(1-4) made _ left this] show ?thesis
      using False by (simp add: make_clusters_def)
  qed
qed

section \<open>Channels between clusters\<close>

lemma sorted_concat:
  assumes "sorted_wrt (<) (concat (map f xs))" "i < j" "j < length xs" "u \<in> set (f (xs ! i))" "v \<in> set (f (xs ! j))"
  shows "u < (v :: nat)"
proof -
  have "xs = take j xs @ xs ! j # drop (Suc j) xs"
    using assms(3) by (rule id_take_nth_drop)
  then have "sorted_wrt (<) (concat (map f (take j xs)) @ f (xs ! j) @ concat (map f (drop (Suc j) xs)))"
    using assms(1) by (metis concat.simps(2) concat_append list.simps(9) map_append)
  moreover have "u \<in> set (concat (map f (take j xs)))"
  proof -
    have "xs ! i \<in> set (take j xs)"
      using assms(2,3) by (auto simp: in_set_conv_nth intro!: exI [of _ i])
    then show ?thesis
      using assms(4) by auto
  qed
  ultimately show ?thesis
    using assms(5) by (fastforce simp: sorted_wrt_append)
qed

lemma more_sinks_sub:
  "set (snd (fold (more_sink pick clusters od) cs s)) \<subseteq> set (snd s) \<union> (\<Union>c \<in> set cs. set (ci_actors (clusters ! c)))"
proof (induction cs arbitrary: s)
  case (Cons c cs)
  obtain k snks where s: "s = (k, snks)"
    by (cases s)
  let ?cand = "filter (\<lambda>v. v \<notin> set snks) (ci_actors (clusters ! c))"
  have "?cand \<noteq> [] \<Longrightarrow> ?cand ! draw pick k (length ?cand) \<in> set ?cand"
    by (intro nth_mem) simp
  then have "set (snd (more_sink pick clusters od c s)) \<subseteq> set snks \<union> set (ci_actors (clusters ! c))"
    by (auto simp: s more_sink_def Let_def)
  then show ?case
    using Cons [of "more_sink pick clusters od c s"] by (auto simp: s)
qed simp

lemma fill_sinks_sub:
  "set (snd (fill_sinks pick clusters cs od s)) \<subseteq> set (snd s) \<union> (\<Union>c \<in> set cs. set (ci_actors (clusters ! c)))"
proof (induction pick clusters cs od s rule: fill_sinks.induct)
  case (1 pick clusters cs od s)
  show ?case
  proof (cases "length (snd s) < unat od \<and> length (snd s) \<noteq> length (snd (fold (more_sink pick clusters od) cs s))")
    case True
    then show ?thesis
      using "1.IH" [OF _ refl] more_sinks_sub [of pick clusters od cs s] by (simp add: fill_sinks.simps [of _ _ _ _ s] Let_def) blast
  next
    case False
    then show ?thesis
      using more_sinks_sub [of pick clusters od cs s] by (auto simp: fill_sinks.simps [of _ _ _ _ s] Let_def)
  qed
qed

text \<open>The state while the outputs of the clusters are connected.\<close>

definition linking :: "nat \<Rightarrow> bool \<Rightarrow> cluster_info list \<Rightarrow> sng \<Rightarrow> bool" where
  "linking L dag clusters g \<longleftrightarrow> generated L (forward dag) sng_empty g \<and> (\<forall>info \<in> set clusters. good_cluster L g info)
     \<and> sorted_wrt (<) (concat (map ci_actors clusters)) \<and> good_actor L g 0"

lemma linking_generated: "linking L dag clusters g \<Longrightarrow> generated L (forward dag) g g' \<Longrightarrow> linking L dag clusters g'"
  unfolding linking_def using generated_trans generated_good good_cluster_generated by blast

lemma sink_forward:
  assumes "linking L dag clusters g" "src < length clusters" "c \<in> set (sink_clusters dag src (length clusters))"
    "u \<in> set (ci_actors (clusters ! src))" "v \<in> set (ci_actors (clusters ! c))"
  shows "good_actor L g v \<and> forward dag u v"
proof -
  have c: "c < length clusters" "dag \<Longrightarrow> src < c"
    using assms(3) by (auto simp: sink_clusters_def split: if_splits)
  then have "good_cluster L g (clusters ! c)"
    using assms(1) by (simp add: linking_def)
  moreover have "dag \<Longrightarrow> u < v"
    using sorted_concat [of ci_actors clusters src c u v] assms c by (simp add: linking_def)
  ultimately show ?thesis
    using assms(5) by (simp add: good_cluster_def forward_def)
qed

lemma output_channels_ok:
  assumes "lcm_fits lcmf" "0 < L" "L < 2 ^ 63" "linking L (go_createDAG go) clusters (gs_graph (os_gen (os :: output_state)))" "src < length clusters"
    "v \<in> set (ci_outputs (clusters ! src))"
  shows "\<exists>os'. output_channels lcmf go rc clusters src v os = Inr os' \<and> linking L (go_createDAG go) clusters (gs_graph (os_gen os'))"
proof -
  let ?g = "gs_graph (os_gen os)" and ?cs = "sink_clusters (go_createDAG go) src (length clusters)"
  define od where "od = (if os_out os = [] then 0 else last (os_out os))"
  have good: "good_cluster L ?g info" if "info \<in> set clusters" for info
    using assms(4) that by (simp add: linking_def)
  obtain k snks where f: "fill_sinks (rc_pick rc) clusters ?cs od (os_picks os, concat (map (\<lambda>c. ci_inputs (clusters ! c)) ?cs)) = (k, snks)"
    by (cases "fill_sinks (rc_pick rc) clusters ?cs od (os_picks os, concat (map (\<lambda>c. ci_inputs (clusters ! c)) ?cs))") auto
  have "c < length clusters" if "c \<in> set ?cs" for c
    using that by (auto simp: sink_clusters_def split: if_splits)
  then have ins: "set (ci_inputs (clusters ! c)) \<subseteq> set (ci_actors (clusters ! c))" if "c \<in> set ?cs" for c
    using good that by (simp add: good_cluster_def)
  have snks: "set snks \<subseteq> (\<Union>c \<in> set ?cs. set (ci_actors (clusters ! c)))"
    using fill_sinks_sub [of "rc_pick rc" clusters ?cs od "(os_picks os, concat (map (\<lambda>c. ci_inputs (clusters ! c)) ?cs))"] ins
    by (fastforce simp: f)
  have v: "v \<in> set (ci_actors (clusters ! src))" "good_actor L ?g v"
    using good [of "clusters ! src"] assms(5,6) by (auto simp: good_cluster_def)
  then have "\<forall>s \<in> set snks. good_actor L ?g s \<and> forward (go_createDAG go) v s"
    using snks sink_forward [OF assms(4,5) _ v(1)] by blast
  from cluster_channels_ok [where R = "forward (go_createDAG go)", OF assms(1-3) v(2) this]
  obtain k' st' where "cluster_channels lcmf (draw (rc_pick rc)) (go_prefix go) v k snks (pq_top (os_multi os) 1) (int (unat od)) (os_gen os) = Inr (k', st')"
      "generated L (forward (go_createDAG go)) ?g (gs_graph st')"
    by blast
  then show ?thesis
    using linking_generated [OF assms(4)] by (simp add: output_channels_def od_def [symmetric] f Let_def)
qed

lemma connect_clusters_ok:
  assumes "lcm_fits lcmf" "0 < L" "L < 2 ^ 63" "linking L (go_createDAG go) clusters (gs_graph (snd s))"
  shows "\<exists>s'. connect_clusters lcmf go rc clusters s = Inr s' \<and> linking L (go_createDAG go) clusters (gs_graph (snd s'))"
proof -
  let ?P = "\<lambda>_ s. linking L (go_createDAG go) clusters (gs_graph (snd s))"
  have "\<exists>t'. cluster_outputs lcmf go rc clusters src t = Inr t' \<and> ?P ys t'" if src: "src < length clusters" and t: "?P ys t" for ys src t
  proof -
    obtain k st where kst: "t = (k, st)" by (cases t)
    obtain out multi where d: "output_degrees rc src (length (ci_outputs (clusters ! src))) = (out, multi)"
      by (cases "output_degrees rc src (length (ci_outputs (clusters ! src)))")
    let ?Q = "\<lambda>_ os. linking L (go_createDAG go) clusters (gs_graph (os_gen (os :: output_state)))"
    have "\<exists>os. rfold (output_channels lcmf go rc clusters src) (ci_outputs (clusters ! src))
        \<lparr>os_gen = st, os_out = out, os_multi = multi, os_picks = k\<rparr> = Inr os \<and> ?Q (ci_outputs (clusters ! src)) os"
    proof (rule rfold_rule [where P = ?Q])
      fix ys v zs os
      assume "ci_outputs (clusters ! src) = ys @ v # zs" "?Q ys os"
      then show "\<exists>os'. output_channels lcmf go rc clusters src v os = Inr os' \<and> ?Q (ys @ [v]) os'"
        using output_channels_ok [OF assms(1-3) _ src] by simp
    qed (use t in \<open>simp add: kst\<close>)
    then show ?thesis
      by (auto simp: kst cluster_outputs_def d Let_def)
  qed
  then have "\<exists>s'. rfold (cluster_outputs lcmf go rc clusters) [0..<length clusters] s = Inr s' \<and> ?P [0..<length clusters] s'"
    by (intro rfold_rule [where P = ?P]) (use assms(4) in \<open>auto dest: arg_cong [of _ _ set] simp: set_eq_iff\<close>)
  then show ?thesis
    using assms(4) by (cases "1 < length clusters") (simp_all add: connect_clusters_def)
qed

end
