(* ===== verification/SNG_Assembly.thy ===== *)
theory SNG_Assembly
  imports SNG_Connected
begin

text \<open>
  Generated topologies, continued: connecting the components, the source actor, inputs and outputs.
\<close>

section \<open>Arcs\<close>

definition arcs :: "sng \<Rightarrow> (nat \<times> nat) set" where
  "arcs g = {(u, v). \<exists>i. (u, v, i) \<in> set (sg_edges g)}"

lemma linked_arcs: "linked g = arcs g \<union> (arcs g)\<inverse>"
  by (auto simp: linked_def arcs_def)

lemma arcs_empty [simp]: "arcs sng_empty = {}"
  by (simp add: arcs_def sng_empty_def)

lemma arcs_range: "sng_wf g \<Longrightarrow> (u, v) \<in> arcs g \<Longrightarrow> u < length (sg_verts g) \<and> v < length (sg_verts g)"
  by (auto simp: arcs_def sng_wf_def)

lemma arcs_with_channel: "arcs (with_channel g vi es) = arcs g \<union> set (map (\<lambda>(u, v, i). (u, v)) es)"
  by (force simp: arcs_def with_channel_def)

lemma generated_keeps:
  assumes "generated L R g0 g"
  shows "arcs g0 \<subseteq> arcs g" "length (sg_verts g0) \<le> length (sg_verts g)" "v < length (sg_verts g0) \<Longrightarrow> vinfo g v = vinfo g0 v"
proof -
  have "arcs g0 \<subseteq> arcs g \<and> length (sg_verts g0) \<le> length (sg_verts g) \<and> (\<forall>v < length (sg_verts g0). vinfo g v = vinfo g0 v)"
    using assms by (induction rule: generated.induct) (auto simp: arcs_with_channel)
  then show "arcs g0 \<subseteq> arcs g" "length (sg_verts g0) \<le> length (sg_verts g)" "v < length (sg_verts g0) \<Longrightarrow> vinfo g v = vinfo g0 v"
    by blast+
qed

lemma linked_trancl_mono: "arcs g \<subseteq> arcs g' \<Longrightarrow> (u, v) \<in> (linked g)\<^sup>* \<Longrightarrow> (u, v) \<in> (linked g')\<^sup>*"
  by (rule rtrancl_mono [THEN subsetD]) (auto simp: linked_arcs)

lemma linked_trancl_sym: "(u, v) \<in> (linked g)\<^sup>* \<Longrightarrow> (v, u) \<in> (linked g)\<^sup>*"
  by (rule symD [OF sym_rtrancl]) (auto simp: sym_def linked_arcs)

text \<open>Channels that lead forward make no cycles: an actor \<open>v\<close> has rank \<open>2 v\<close>.\<close>

lemma forward_acyclic:
  assumes "generated L (forward True) sng_empty g"
  shows "acyclic (arcs g)"
proof -
  have "\<exists>r. (\<forall>v < length (sg_verts g). vi_type (vinfo g v) = ACTOR \<longrightarrow> r v = 2 * int v) \<and> (\<forall>(u, v) \<in> arcs g. r u < r v)"
    using assms
  proof (induction rule: generated.induct)
    case generated_start
    show ?case by (simp add: sng_empty_def arcs_def)
  next
    case (generated_actor g vi)
    then obtain r where r: "\<forall>v < length (sg_verts g). vi_type (vinfo g v) = ACTOR \<longrightarrow> r v = 2 * int v" "\<forall>(u, v) \<in> arcs g. r u < r v"
      by blast
    have w: "sng_wf g"
      using generated_enlarged [OF generated_actor.hyps(1) empty_wf] by (rule enlarged_keeps(1))
    show ?case
      using r arcs_range [OF w]
      by (intro exI [of _ "r(length (sg_verts g) := 2 * int (length (sg_verts g)))"]) (fastforce simp: arcs_with_channel less_Suc_eq)
  next
    case (generated_channel g src snks vi k i m es)
    then obtain r where r: "\<forall>v < length (sg_verts g). vi_type (vinfo g v) = ACTOR \<longrightarrow> r v = 2 * int v" "\<forall>(u, v) \<in> arcs g. r u < r v"
      by blast
    have w: "sng_wf g"
      using generated_enlarged [OF generated_channel.hyps(1) empty_wf] by (rule enlarged_keeps(1))
    have es: "set (map (\<lambda>(u, v, i). (u, v)) es) = (\<lambda>s. (length (sg_verts g), s)) ` set snks"
    proof -
      have "map (\<lambda>(u, v, i). (u, v)) es = map (\<lambda>s. (length (sg_verts g), s)) snks"
        using generated_channel.hyps(7) by (simp only: read_edges_def)
      then show ?thesis by simp
    qed
    show ?case
      using r arcs_range [OF w] generated_channel.hyps(2,3,4)
      by (intro exI [of _ "r(length (sg_verts g) := 2 * int src + 1)"])
        (fastforce simp: arcs_with_channel es less_Suc_eq good_actor_def forward_def simp del: set_map)
  next
    case (generated_input g a vi i)
    then obtain r where r: "\<forall>v < length (sg_verts g). vi_type (vinfo g v) = ACTOR \<longrightarrow> r v = 2 * int v" "\<forall>(u, v) \<in> arcs g. r u < r v"
      by blast
    have w: "sng_wf g"
      using generated_enlarged [OF generated_input.hyps(1) empty_wf] by (rule enlarged_keeps(1))
    show ?case
      using r arcs_range [OF w] generated_input.hyps(2,3)
      by (intro exI [of _ "r(length (sg_verts g) := 2 * int a - 1)"]) (fastforce simp: arcs_with_channel less_Suc_eq good_actor_def)
  next
    case (generated_output g a vi i)
    then obtain r where r: "\<forall>v < length (sg_verts g). vi_type (vinfo g v) = ACTOR \<longrightarrow> r v = 2 * int v" "\<forall>(u, v) \<in> arcs g. r u < r v"
      by blast
    have w: "sng_wf g"
      using generated_enlarged [OF generated_output.hyps(1) empty_wf] by (rule enlarged_keeps(1))
    show ?case
      using r arcs_range [OF w] generated_output.hyps(2,3)
      by (intro exI [of _ "r(length (sg_verts g) := 2 * int a + 1)"]) (fastforce simp: arcs_with_channel less_Suc_eq good_actor_def)
  qed
  then obtain r where "\<forall>(u, v) \<in> arcs g. r u < (r v :: int)"
    by blast
  then show ?thesis
    by (intro acyclicI_order [where f = "\<lambda>v. - r v"]) auto
qed

section \<open>One new vertex\<close>

text \<open>A new channel from \<open>a\<close> to \<open>b\<close>, where \<open>b\<close> does not lead to \<open>a\<close>.\<close>

lemma acyclic_channel:
  assumes "acyclic E" "(b, a) \<notin> E\<^sup>*" "\<forall>(u, v) \<in> E. u \<noteq> c \<and> v \<noteq> c" "a \<noteq> c" "b \<noteq> c"
  shows "acyclic (E \<union> {(a, c), (c, b)})"
proof -
  have out: "x = c" if "(c, x) \<in> E\<^sup>*" for x
    using that by (rule converse_rtranclE) (use assms(3) in auto)
  then have 1: "acyclic (insert (a, c) E)"
    using assms(1,4) by (auto simp: acyclic_insert)
  have "(b, x) \<in> (insert (a, c) E)\<^sup>* \<Longrightarrow> (b, x) \<in> E\<^sup>* \<and> x \<noteq> c" for x
  proof (induction rule: rtrancl_induct)
    case (step y z)
    then show ?case
      using assms(2,3) by (auto intro: rtrancl_into_rtrancl)
  qed (use assms(5) in simp)
  then have "acyclic (insert (c, b) (insert (a, c) E))"
    using 1 by (auto simp: acyclic_insert)
  then show ?thesis
    by (simp add: insert_commute Un_commute)
qed

lemma acyclic_new_source:
  assumes "acyclic E" "\<forall>(u, v) \<in> E. u \<noteq> n \<and> v \<noteq> n" "a \<noteq> n"
  shows "acyclic (E \<union> {(n, a)})"
proof -
  have "(a, n) \<notin> E\<^sup>*"
    by (rule notI, erule rtranclE) (use assms(2,3) in auto)
  then show ?thesis
    using assms(1) by (simp add: acyclic_insert)
qed

lemma acyclic_new_sink:
  assumes "acyclic E" "\<forall>(u, v) \<in> E. u \<noteq> n \<and> v \<noteq> n" "a \<noteq> n"
  shows "acyclic (E \<union> {(a, n)})"
proof -
  have "(n, a) \<notin> E\<^sup>*"
    by (rule notI, erule converse_rtranclE) (use assms(2,3) in auto)
  then show ?thesis
    using assms(1) by (simp add: acyclic_insert)
qed

abbreviation any :: "nat \<Rightarrow> nat \<Rightarrow> bool" where
  "any \<equiv> \<lambda>u v. True"

lemma addChannel_one:
  assumes "lcm_fits lcmf" "0 < L" "L < 2 ^ 63" "good_actor L (gs_graph st) a" "good_actor L (gs_graph st) b"
  obtains c st' where "addChannel lcmf prefix a [b] st = Inr (c, st')" "generated L any (gs_graph st) (gs_graph st')"
    "c = length (sg_verts (gs_graph st))" "length (sg_verts (gs_graph st')) = Suc c" "vi_type (vinfo (gs_graph st') c) = FIFO"
    "arcs (gs_graph st') = arcs (gs_graph st) \<union> {(a, c), (c, b)}"
proof -
  have "\<forall>s \<in> set [b]. good_actor L (gs_graph st) s \<and> any a s"
    using assms(5) by simp
  from addChannel_generated [where R = any, OF assms(1-4) this, of prefix] obtain c st' vi i es where
    a: "addChannel lcmf prefix a [b] st = Inr (c, st')" "generated L any (gs_graph st) (gs_graph st')"
    "c = length (sg_verts (gs_graph st))" "gs_graph st' = with_channel (gs_graph st) vi ((a, c, i) # es)" "vi_type vi = FIFO"
    "map (\<lambda>(u, v, i). (u, v)) es = map (\<lambda>s. (c, s)) [b]" .
  have "arcs (gs_graph st') = arcs (gs_graph st) \<union> set ((a, c) # map (\<lambda>(u, v, i). (u, v)) es)"
    by (simp add: a(4) arcs_with_channel del: set_map)
  then show thesis
    using a(1-3,5) by (intro that [of c st']) (simp_all add: a(4,6))
qed

lemma addInput_one:
  assumes "good_actor L (gs_graph st) a"
  obtains n st' where "addInput prefix a st = (n, st')" "generated L R (gs_graph st) (gs_graph st')" "n = length (sg_verts (gs_graph st))"
    "length (sg_verts (gs_graph st')) = Suc n" "vi_type (vinfo (gs_graph st') n) = REGISTER" "arcs (gs_graph st') = arcs (gs_graph st) \<union> {(n, a)}"
proof -
  let ?g = "gs_graph st" and ?n = "length (sg_verts (gs_graph st))"
  let ?vi = "mk_vertex_info\<lparr>vi_type := REGISTER, vi_name := prefix @ ''regIn'' @ dec (gs_inputCount st + 1)\<rparr>"
  let ?i = "mk_edge_info\<lparr>ei_name := ''in'', ei_tokens := 1\<rparr>"
  have g: "gs_graph (snd (addInput prefix a st)) = with_channel ?g ?vi [(?n, a, ?i)]" "fst (addInput prefix a st) = ?n"
    by (simp_all add: addInput_def add_vertex_def set_vinfo_def vinfo_def add_edge_def set_einfo_def einfo_def esrc_def etgt_def
        with_channel_def Let_def)
  have "generated L R ?g (gs_graph (snd (addInput prefix a st)))"
    unfolding g by (rule generated_input [OF generated_start assms]) simp
  then show thesis
    by (intro that [of ?n "snd (addInput prefix a st)"]) (simp_all add: g prod_eq_iff, simp add: arcs_with_channel)
qed

lemma addOutput_one:
  assumes "good_actor L (gs_graph st) a"
  obtains n st' where "addOutput prefix a st = (n, st')" "generated L R (gs_graph st) (gs_graph st')" "n = length (sg_verts (gs_graph st))"
    "length (sg_verts (gs_graph st')) = Suc n" "vi_type (vinfo (gs_graph st') n) = REGISTER" "arcs (gs_graph st') = arcs (gs_graph st) \<union> {(a, n)}"
proof -
  let ?g = "gs_graph st" and ?n = "length (sg_verts (gs_graph st))"
  let ?vi = "mk_vertex_info\<lparr>vi_type := REGISTER, vi_name := prefix @ ''regOut'' @ dec (gs_outputCount st + 1)\<rparr>"
  let ?i = "mk_edge_info\<lparr>ei_name := ''out'', ei_tokens := 1\<rparr>"
  have g: "gs_graph (snd (addOutput prefix a st)) = with_channel ?g ?vi [(a, ?n, ?i)]" "fst (addOutput prefix a st) = ?n"
    by (simp_all add: addOutput_def add_vertex_def set_vinfo_def vinfo_def add_edge_def set_einfo_def einfo_def esrc_def etgt_def
        with_channel_def Let_def)
  have "generated L R ?g (gs_graph (snd (addOutput prefix a st)))"
    unfolding g by (rule generated_output [OF generated_start assms]) simp
  then show thesis
    by (intro that [of ?n "snd (addOutput prefix a st)"]) (simp_all add: g prod_eq_iff, simp add: arcs_with_channel)
qed

section \<open>Components\<close>

definition is_actor :: "sng \<Rightarrow> nat \<Rightarrow> bool" where
  "is_actor g v \<longleftrightarrow> v < length (sg_verts g) \<and> vi_type (vinfo g v) = ACTOR"

text \<open>A labelling that linked vertices share.\<close>

definition shared_label :: "sng \<Rightarrow> (nat \<Rightarrow> nat) \<Rightarrow> bool" where
  "shared_label g l \<longleftrightarrow> (\<forall>(u, v) \<in> arcs g. l u = l v)"

lemma label_trancl: "shared_label g l \<Longrightarrow> (u, v) \<in> (arcs g)\<^sup>* \<Longrightarrow> l u = l v"
  by (rotate_tac, induction rule: rtrancl_induct) (auto simp: shared_label_def)

text \<open>The lists are the components of the graph, as far as actors go.\<close>

definition comps_ok :: "sng \<Rightarrow> nat list list \<Rightarrow> bool" where
  "comps_ok g comps \<longleftrightarrow> distinct comps \<and> [] \<notin> set comps \<and> (\<forall>v. (\<exists>A \<in> set comps. v \<in> set A) \<longleftrightarrow> is_actor g v)
   \<and> (\<forall>A \<in> set comps. \<forall>u \<in> set A. \<forall>v \<in> set A. (u, v) \<in> (linked g)\<^sup>*)
   \<and> (\<exists>l. shared_label g l \<and> (\<forall>A \<in> set comps. \<forall>B \<in> set comps. \<forall>u \<in> set A. \<forall>v \<in> set B. l u = l v \<longleftrightarrow> A = B))"

lemma set_remove_mid: "distinct (A @ x # B) \<Longrightarrow> set (A @ B) = set (A @ x # B) - {x}"
  by auto

lemma set_remove_nth: "distinct xs \<Longrightarrow> j < length xs \<Longrightarrow> set (take j xs @ drop (Suc j) xs) = set xs - {xs ! j}"
  using set_remove_mid [of "take j xs" "xs ! j" "drop (Suc j) xs"] by (simp only: id_take_nth_drop [symmetric])

lemma distinct_remove_nth: "distinct xs \<Longrightarrow> distinct (take j xs @ drop (Suc j) xs)"
  by (simp add: set_take_disj_set_drop_if_distinct)

lemma merge_components_set:
  assumes "distinct comps" "i < length comps" "j < length comps" "i \<noteq> j" "comps ! i @ comps ! j \<notin> set comps"
  shows "distinct (merge_components i j comps)"
    "set (merge_components i j comps) = insert (comps ! i @ comps ! j) (set comps - {comps ! i, comps ! j})"
proof -
  let ?cs = "comps[i := comps ! i @ comps ! j]"
  have d: "distinct ?cs"
    using assms(1,5) by (intro distinct_list_update) auto
  have "?cs ! j = comps ! j" "comps ! i \<noteq> comps ! j"
    using assms by (simp_all add: nth_eq_iff_index_eq)
  moreover have "set ?cs = insert (comps ! i @ comps ! j) (set comps - {comps ! i})"
    by (rule set_update_distinct [OF assms(1,2)])
  moreover have "comps ! i @ comps ! j \<noteq> comps ! j"
    using assms(3,5) nth_mem by metis
  ultimately show "distinct (merge_components i j comps)"
      "set (merge_components i j comps) = insert (comps ! i @ comps ! j) (set comps - {comps ! i, comps ! j})"
    using set_remove_nth [OF d, of j] distinct_remove_nth [OF d, of j] assms(3) by (auto simp: merge_components_def Let_def)
qed

text \<open>A channel \<open>c\<close> from \<open>a\<close> to \<open>b\<close> links two components, and one of two labels is enough for them.\<close>

lemma merge_linked:
  assumes "\<forall>A \<in> C. \<forall>u \<in> set A. \<forall>v \<in> set A. (u, v) \<in> (linked g)\<^sup>*" "A \<in> C" "B \<in> C" "a \<in> set A" "b \<in> set B"
    "arcs g' = arcs g \<union> {(a, c), (c, b)}" "X \<in> insert (A @ B) C" "u \<in> set X" "v \<in> set X"
  shows "(u, v) \<in> (linked g')\<^sup>*"
proof -
  have mono: "(u, v) \<in> (linked g')\<^sup>*" if "(u, v) \<in> (linked g)\<^sup>*" for u v
    using linked_trancl_mono [OF _ that] assms(6) by blast
  have "(a, c) \<in> linked g'" "(c, b) \<in> linked g'"
    using assms(6) by (auto simp: linked_arcs)
  then have ab: "(a, b) \<in> (linked g')\<^sup>*"
    by (meson r_into_rtrancl rtrancl_into_rtrancl)
  have to_a: "(x, a) \<in> (linked g')\<^sup>*" if x: "x \<in> set A \<union> set B" for x
  proof (cases "x \<in> set A")
    case True
    then show ?thesis
      using mono assms(1,2,4) by blast
  next
    case False
    then have "(x, b) \<in> (linked g')\<^sup>*"
      using mono assms(1,3,5) x by blast
    then show ?thesis
      using linked_trancl_sym [OF ab] by (rule rtrancl_trans)
  qed
  show ?thesis
  proof (cases "X = A @ B")
    case True
    then have "(u, a) \<in> (linked g')\<^sup>*" "(a, v) \<in> (linked g')\<^sup>*"
      using assms(8,9) to_a linked_trancl_sym [OF to_a] by auto
    then show ?thesis
      by (rule rtrancl_trans)
  next
    case False
    then show ?thesis
      using assms(1,7-9) mono by blast
  qed
qed

lemma merge_label:
  assumes l: "\<forall>A \<in> C. \<forall>B \<in> C. \<forall>u \<in> set A. \<forall>v \<in> set B. l u = l v \<longleftrightarrow> A = B" and C: "A \<in> C" "B \<in> C" and ab: "a \<in> set A" "b \<in> set B"
    and new: "A @ B \<notin> C" and XY: "X \<in> insert (A @ B) (C - {A, B})" "Y \<in> insert (A @ B) (C - {A, B})" "u \<in> set X" "v \<in> set Y"
  shows "(if l u = l b then l a else l u) = (if l v = l b then l a else l v) \<longleftrightarrow> X = Y"
proof -
  let ?l = "\<lambda>x. if l x = l b then l a else l x"
  have old: "l x = l a \<longleftrightarrow> Z = A" "l x = l b \<longleftrightarrow> Z = B" if "Z \<in> C" "x \<in> set Z" for Z x
    using l C ab that by blast+
  have one: "?l x = l a \<longleftrightarrow> Z = A @ B" if "Z \<in> insert (A @ B) (C - {A, B})" "x \<in> set Z" for Z x
    using that old C new by (auto split: if_splits)
  show ?thesis
  proof (cases "X = A @ B \<or> Y = A @ B")
    case True
    then show ?thesis
      using one XY by metis
  next
    case False
    then have "X \<in> C" "Y \<in> C" "X \<noteq> B" "Y \<noteq> B"
      using XY by auto
    then show ?thesis
      using l old(2) XY(3,4) by auto
  qed
qed

text \<open>A channel between two components merges them and makes no cycle.\<close>

lemma merge_ok:
  assumes ok: "comps_ok g comps" and w: "sng_wf g" and ij: "i < length comps" "j < length comps" "i \<noteq> j"
    and ab: "a \<in> set (comps ! i)" "b \<in> set (comps ! j)"
    and g': "c = length (sg_verts g)" "length (sg_verts g') = Suc c" "\<forall>v < c. vinfo g' v = vinfo g v" "vi_type (vinfo g' c) \<noteq> ACTOR"
      "arcs g' = arcs g \<union> {(a, c), (c, b)}"
  shows "comps_ok g' (merge_components i j comps)" "acyclic (arcs g) \<Longrightarrow> acyclic (arcs g')"
proof -
  let ?A = "comps ! i" and ?B = "comps ! j" and ?C = "set comps" and ?M = "merge_components i j comps"
  note parts = ok [unfolded comps_ok_def]
  have "\<exists>l. shared_label g l \<and> (\<forall>A \<in> ?C. \<forall>B \<in> ?C. \<forall>u \<in> set A. \<forall>v \<in> set B. l u = l v \<longleftrightarrow> A = B)"
    using parts by (elim conjE)
  then obtain l where l: "shared_label g l" "\<forall>A \<in> ?C. \<forall>B \<in> ?C. \<forall>u \<in> set A. \<forall>v \<in> set B. l u = l v \<longleftrightarrow> A = B"
    by (elim exE conjE)
  note d = parts [THEN conjunct1] parts [THEN conjunct2, THEN conjunct1]
  note dv = parts [THEN conjunct2, THEN conjunct2, THEN conjunct1]
  note du = parts [THEN conjunct2, THEN conjunct2, THEN conjunct2, THEN conjunct1]
  have C: "?A \<in> ?C" "?B \<in> ?C" "?A \<noteq> ?B"
    using ij d(1) by (simp_all add: nth_eq_iff_index_eq)
  have lab: "l a \<noteq> l b"
    using l(2) C ab by blast
  have range: "u < c \<and> v < c" if "(u, v) \<in> arcs g" for u v
    using arcs_range [OF w that] g'(1) by simp
  have less: "a < c" "b < c"
    using dv C(1,2) ab g'(1) by (auto simp: is_actor_def)
  show "acyclic (arcs g')" if "acyclic (arcs g)"
    unfolding g'(5)
  proof (rule acyclic_channel [OF that])
    show "(b, a) \<notin> (arcs g)\<^sup>*"
      using label_trancl [OF l(1), of b a] lab by auto
  qed (use range less in auto)
  have new: "?A @ ?B \<notin> ?C"
  proof
    assume "?A @ ?B \<in> ?C"
    then have "?A @ ?B = ?A"
      using l(2) C(1) ab(1) by (metis Un_iff set_append)
    then show False
      using ab(2) by simp
  qed
  note M = merge_components_set [OF d(1) ij new]
  have conn: "(u, v) \<in> (linked g')\<^sup>*" if "X \<in> set ?M" "u \<in> set X" "v \<in> set X" for X u v
    using merge_linked [OF du C(1,2) ab g'(5) _ that(2,3)] that(1) M(2) by blast
  let ?l = "\<lambda>x. if x = c \<or> l x = l b then l a else l x"
  have shared: "shared_label g' ?l"
    using l(1) range less by (fastforce simp: shared_label_def g'(5))
  have label: "?l u = ?l v \<longleftrightarrow> X = Y" if XY: "X \<in> set ?M" "Y \<in> set ?M" "u \<in> set X" "v \<in> set Y" for X Y u v
  proof -
    have "u \<noteq> c" "v \<noteq> c"
      using XY M(2) dv C g'(1) by (auto simp: is_actor_def)
    then show ?thesis
      using merge_label [OF l(2) C(1,2) ab new] XY M(2) by simp
  qed
  have members: "(\<exists>X \<in> set ?M. v \<in> set X) \<longleftrightarrow> is_actor g' v" for v
  proof -
    have "(\<exists>X \<in> set ?M. v \<in> set X) \<longleftrightarrow> is_actor g v"
      unfolding dv [rule_format, symmetric] M(2) using C by auto
    also have "\<dots> \<longleftrightarrow> is_actor g' v"
    proof (cases "v < c")
      case True
      then show ?thesis
        using g'(3) by (simp add: is_actor_def g'(2) g'(1) [symmetric])
    next
      case False
      then show ?thesis
        using g'(4) by (cases "v = c") (simp_all add: is_actor_def g'(2) g'(1) [symmetric])
    qed
    finally show ?thesis .
  qed
  have nonempty: "[] \<notin> set ?M"
    using M(2) d(2) C(1) by auto
  have "\<exists>l. shared_label g' l \<and> (\<forall>A \<in> set ?M. \<forall>B \<in> set ?M. \<forall>u \<in> set A. \<forall>v \<in> set B. l u = l v \<longleftrightarrow> A = B)"
    by (rule exI [of _ ?l], rule conjI [OF shared], intro ballI, rule label)
  moreover have "\<forall>A \<in> set ?M. \<forall>u \<in> set A. \<forall>v \<in> set A. (u, v) \<in> (linked g')\<^sup>*"
    by (intro ballI, rule conn)
  moreover have "\<forall>v. (\<exists>A \<in> set ?M. v \<in> set A) \<longleftrightarrow> is_actor g' v"
    by (rule allI, rule members)
  ultimately show "comps_ok g' ?M"
    unfolding comps_ok_def by (intro conjI M(1) nonempty)
qed

section \<open>Connecting components\<close>

text \<open>Draws that do not give one and the same number for ever.\<close>

definition fair_draws :: "(nat \<Rightarrow> nat \<Rightarrow> nat) \<Rightarrow> bool" where
  "fair_draws pick \<longleftrightarrow> (\<forall>k n c. 2 \<le> n \<longrightarrow> (\<exists>k' \<ge> k. draw pick k' n \<noteq> c))"

lemma other_component_returns:
  assumes "fair_draws pick" "2 \<le> n"
  shows "\<exists>snk k'. other_component pick n src k = Some (snk, k')"
proof -
  obtain k1 where "k \<le> k1" "draw pick k1 n \<noteq> src"
    using assms unfolding fair_draws_def by blast
  then show ?thesis
  proof (induction "k1 - k" arbitrary: k)
    case 0
    then show ?case
      by (simp add: other_component.simps [of _ _ _ k])
  next
    case (Suc d)
    then show ?case
      by (cases "draw pick k n = src") (simp_all add: other_component.simps [of _ _ _ k])
  qed
qed

text \<open>A generated graph whose actors all have good counts; it is acyclic if that was asked for.\<close>

definition sound :: "nat \<Rightarrow> bool \<Rightarrow> sng \<Rightarrow> bool" where
  "sound L dag g \<longleftrightarrow> generated L any sng_empty g \<and> (dag \<longrightarrow> acyclic (arcs g)) \<and> good_actor L g 0"

lemma sound_enlarged: "sound L dag g \<Longrightarrow> enlarged L sng_empty g"
  using generated_enlarged empty_wf by (auto simp: sound_def)

lemma sound_wf: "sound L dag g \<Longrightarrow> sng_wf g"
  using sound_enlarged enlarged_keeps(1) by blast

lemma sound_actor: "sound L dag g \<Longrightarrow> is_actor g v \<Longrightarrow> good_actor L g v"
  using sound_enlarged by (auto simp: enlarged_def is_actor_def sng_empty_def)

lemma sound_channel:
  assumes "sound L dag g" "v < length (sg_verts g)"
  shows "is_actor g v \<or> (\<exists>u. (u, v) \<in> linked g \<and> is_actor g u)"
proof -
  have "good_actor L g v \<or> vi_type (vinfo g v) \<noteq> ACTOR \<and> (\<exists>u. (u, v) \<in> linked g \<and> vi_type (vinfo g u) = ACTOR)"
    using sound_enlarged [OF assms(1)] assms(2) by (simp add: enlarged_def sng_empty_def)
  then show ?thesis
    using linked_range [OF sound_wf [OF assms(1)]] by (auto simp: is_actor_def good_actor_def)
qed

definition all_linked :: "sng \<Rightarrow> bool" where
  "all_linked g \<longleftrightarrow> (\<forall>u < length (sg_verts g). \<forall>v < length (sg_verts g). (u, v) \<in> (linked g)\<^sup>*)"

lemma all_linked_actors:
  assumes "sound L dag g" "\<And>u v. is_actor g u \<Longrightarrow> is_actor g v \<Longrightarrow> (u, v) \<in> (linked g)\<^sup>*"
  shows "all_linked g"
proof -
  have to: "\<exists>u. is_actor g u \<and> (v, u) \<in> (linked g)\<^sup>*" if "v < length (sg_verts g)" for v
    using sound_channel [OF assms(1) that] linked_sym by (metis r_into_rtrancl rtrancl.rtrancl_refl)
  show ?thesis
    unfolding all_linked_def
  proof (intro allI impI)
    fix u v
    assume "u < length (sg_verts g)" "v < length (sg_verts g)"
    then obtain a b where "is_actor g a" "(u, a) \<in> (linked g)\<^sup>*" "is_actor g b" "(v, b) \<in> (linked g)\<^sup>*"
      using to by metis
    moreover from this have "(a, b) \<in> (linked g)\<^sup>*" "(b, v) \<in> (linked g)\<^sup>*"
      using assms(2) linked_trancl_sym by blast+
    ultimately show "(u, v) \<in> (linked g)\<^sup>*"
      by (meson rtrancl_trans)
  qed
qed

lemma connect_components_ok:
  assumes "lcm_fits lcmf" "0 < L" "L < 2 ^ 63" "fair_draws pick"
  shows "sound L dag (gs_graph (snd s)) \<Longrightarrow> comps_ok (gs_graph (snd s)) comps \<Longrightarrow>
    \<exists>s'. connect_components lcmf pick prefix comps s = Inr s' \<and> sound L dag (gs_graph (snd s')) \<and> all_linked (gs_graph (snd s'))"
proof (induction "length comps" arbitrary: comps s rule: less_induct)
  case less
  let ?g = "gs_graph (snd s)"
  show ?case
  proof (cases "length comps \<le> 1")
    case True
    have "(u, v) \<in> (linked ?g)\<^sup>*" if uv: "is_actor ?g u" "is_actor ?g v" for u v
    proof -
      obtain A B where "A \<in> set comps" "u \<in> set A" "B \<in> set comps" "v \<in> set B"
        using less.prems(2) uv unfolding comps_ok_def by metis
      moreover from this have "A = B"
        using True by (cases comps) auto
      ultimately show ?thesis
        using less.prems(2) unfolding comps_ok_def by metis
    qed
    then show ?thesis
      using True less.prems(1) all_linked_actors [OF less.prems(1)] by (simp add: connect_components.simps [of _ _ _ comps])
  next
    case False
    obtain k st where s: "s = (k, st)" by (cases s)
    define src where "src = draw pick k (length comps)"
    have src: "src < length comps"
      using False by (auto simp: src_def intro: draw_less)
    obtain snk k1 where o: "other_component pick (length comps) src (Suc k) = Some (snk, k1)"
      using other_component_returns [OF assms(4)] False by fastforce
    have snk: "snk < length comps" "src \<noteq> snk"
      using other_component_ok [OF o] False by (cases comps; auto)+
    define a b where "a = comps ! src ! draw pick k1 (length (comps ! src))" "b = comps ! snk ! draw pick (Suc k1) (length (comps ! snk))"
    have "comps ! src \<noteq> []" "comps ! snk \<noteq> []"
      using less.prems(2) src snk nth_mem unfolding comps_ok_def by metis+
    then have ab: "a \<in> set (comps ! src)" "b \<in> set (comps ! snk)"
      by (simp_all add: a_b_def)
    then have "is_actor ?g a" "is_actor ?g b"
      using less.prems(2) src snk nth_mem unfolding comps_ok_def by metis+
    then have good: "good_actor L (gs_graph st) a" "good_actor L (gs_graph st) b"
      using sound_actor [OF less.prems(1)] by (simp_all add: s)
    obtain c st1 where c: "addChannel lcmf prefix a [b] st = Inr (c, st1)" "generated L any (gs_graph st) (gs_graph st1)"
      "c = length (sg_verts (gs_graph st))" "length (sg_verts (gs_graph st1)) = Suc c" "vi_type (vinfo (gs_graph st1) c) = FIFO"
      "arcs (gs_graph st1) = arcs (gs_graph st) \<union> {(a, c), (c, b)}"
      using addChannel_one [OF assms(1-3) good, of prefix] .
    have old: "\<forall>v < c. vinfo (gs_graph st1) v = vinfo (gs_graph st) v" and fifo: "vi_type (vinfo (gs_graph st1) c) \<noteq> ACTOR"
      using generated_keeps(3) [OF c(2)] c(3,5) by simp_all
    have g: "?g = gs_graph st" by (simp add: s)
    note m = merge_ok [OF less.prems(2) [unfolded g] sound_wf [OF less.prems(1) [unfolded g]] src snk ab c(3,4) old fifo c(6)]
    have "sound L dag (gs_graph st1)"
      using less.prems(1) m(2) generated_trans [OF _ c(2)] generated_good [OF c(2)] by (auto simp: sound_def s)
    moreover have "length (merge_components src snk comps) < length comps"
      using snk False by simp
    ultimately obtain s' where "connect_components lcmf pick prefix (merge_components src snk comps) (Suc (Suc k1), st1) = Inr s'"
        "sound L dag (gs_graph (snd s'))" "all_linked (gs_graph (snd s'))"
      using less.hyps [of "merge_components src snk comps" "(Suc (Suc k1), st1)"] m(1) by auto
    then show ?thesis
      using False o c(1) by (simp add: connect_components.simps [of _ _ _ comps] s src_def [symmetric] a_b_def [symmetric] Let_def)
  qed
qed

text \<open>What is assumed of \<^verbatim>\<open>boost::connected_components\<close>: it numbers the components of the undirected graph.\<close>

definition cc_laws :: "(sng \<Rightarrow> nat \<times> (nat \<Rightarrow> nat)) \<Rightarrow> bool" where
  "cc_laws cc \<longleftrightarrow> (\<forall>g. sng_wf g \<longrightarrow> (let n = length (sg_verts g); (num, comp) = cc g in
     (\<forall>v < n. comp v < num) \<and> (\<forall>i < num. \<exists>v < n. comp v = i)
   \<and> (\<forall>u < n. \<forall>v < n. comp u = comp v \<longleftrightarrow> (u, v) \<in> (linked g)\<^sup>*)))"

lemma actor_components_ok:
  assumes "sound L dag g" "cc_laws cc"
  shows "comps_ok g (actor_components cc g)"
proof -
  obtain num comp where cc: "cc g = (num, comp)" by (cases "cc g")
  let ?n = "length (sg_verts g)"
  let ?A = "\<lambda>i. filter (\<lambda>v. vi_type (vinfo g v) = ACTOR \<and> comp v = i) (vertices g)"
  note wf = sound_wf [OF assms(1)]
  have laws: "\<And>v. v < ?n \<Longrightarrow> comp v < num" "\<And>i. i < num \<Longrightarrow> \<exists>v < ?n. comp v = i"
      "\<And>u v. u < ?n \<Longrightarrow> v < ?n \<Longrightarrow> comp u = comp v \<longleftrightarrow> (u, v) \<in> (linked g)\<^sup>*"
    using assms(2) wf unfolding cc_laws_def by (auto simp: cc Let_def)
  have mem: "v \<in> set (?A i) \<longleftrightarrow> is_actor g v \<and> comp v = i" for v i
    by (auto simp: is_actor_def vertices_def)
  have ne: "?A i \<noteq> []" if i: "i < num" for i
  proof -
    obtain v where v: "v < ?n" "comp v = i"
      using laws(2) [OF i] by blast
    obtain u where "is_actor g u" "u = v \<or> (u, v) \<in> linked g"
      using sound_channel [OF assms(1) v(1)] by blast
    then have "is_actor g u" "comp u = i"
      using laws(3) [of u v] v by (auto simp: is_actor_def)
    then have "u \<in> set (?A i)"
      using mem by blast
    then show ?thesis
      by (metis empty_iff empty_set)
  qed
  have inj: "?A i = ?A j \<longleftrightarrow> i = j" if i: "i < num" for i j
  proof
    assume e: "?A i = ?A j"
    obtain v where "v \<in> set (?A i)"
      using ne [OF i] by (cases "?A i") auto
    moreover from this have "v \<in> set (?A j)"
      unfolding e .
    ultimately show "i = j"
      unfolding mem by simp
  qed simp
  have c: "actor_components cc g = map ?A [0..<num]"
    by (simp add: actor_components_def cc)
  have "distinct (map ?A [0..<num])"
    using inj by (simp add: distinct_map inj_on_def)
  moreover have "[] \<notin> set (map ?A [0..<num])"
    using ne by (metis (no_types, lifting) atLeastLessThan_iff imageE list.set_map set_upt)
  moreover have "(\<exists>A \<in> set (map ?A [0..<num]). v \<in> set A) \<longleftrightarrow> is_actor g v" for v
    using mem laws(1) by (auto simp: is_actor_def)
  moreover have "\<forall>A \<in> set (map ?A [0..<num]). \<forall>u \<in> set A. \<forall>v \<in> set A. (u, v) \<in> (linked g)\<^sup>*"
    using laws(3) linked_trancl_sym by (auto simp: vertices_def)
  moreover have "shared_label g comp"
    using laws(3) arcs_range [OF wf] by (fastforce simp: shared_label_def linked_arcs)
  moreover have "\<forall>A \<in> set (map ?A [0..<num]). \<forall>B \<in> set (map ?A [0..<num]). \<forall>u \<in> set A. \<forall>v \<in> set B. comp u = comp v \<longleftrightarrow> A = B"
    using inj by auto
  ultimately show ?thesis
    unfolding comps_ok_def c by blast
qed

lemma connect_graph_ok:
  assumes "lcm_fits lcmf" "0 < L" "L < 2 ^ 63" "fair_draws (rc_pick rc)" "cc_laws cc" "sound L dag (gs_graph (snd s))"
  shows "\<exists>s'. connect_graph lcmf cc go rc s = Inr s' \<and> sound L dag (gs_graph (snd s')) \<and> all_linked (gs_graph (snd s'))"
proof (cases "1 < fst (cc (gs_graph (snd s)))")
  case True
  from connect_components_ok [OF assms(1-4,6) actor_components_ok [OF assms(6,5)]] show ?thesis
    using True by (cases s) (simp add: connect_graph_def)
next
  case False
  let ?g = "gs_graph (snd s)"
  obtain num comp where cc: "cc ?g = (num, comp)" by (cases "cc ?g")
  have laws: "\<And>v. v < length (sg_verts ?g) \<Longrightarrow> comp v < num"
      "\<And>u v. u < length (sg_verts ?g) \<Longrightarrow> v < length (sg_verts ?g) \<Longrightarrow> comp u = comp v \<longleftrightarrow> (u, v) \<in> (linked ?g)\<^sup>*"
    using assms(5) sound_wf [OF assms(6)] unfolding cc_laws_def by (auto simp: cc Let_def)
  have "all_linked ?g"
    unfolding all_linked_def
  proof (intro allI impI)
    fix u v
    assume uv: "u < length (sg_verts ?g)" "v < length (sg_verts ?g)"
    then have "comp u = 0" "comp v = 0"
      using laws(1) False cc by fastforce+
    then show "(u, v) \<in> (linked ?g)\<^sup>*"
      using laws(2) [OF uv] by simp
  qed
  then show ?thesis
    using False assms(6) by (cases s) (simp add: connect_graph_def)
qed

end
