(* ===== verification/SNG_Ends.thy ===== *)
theory SNG_Ends
  imports SNG_Assembly
begin

text \<open>
  Generated topologies, concluded: the source actor, inputs and outputs, and the whole.
\<close>

section \<open>The ends of a graph\<close>

lemma sound_generated:
  assumes "sound L dag g" "generated L any g g'" "acyclic (arcs g) \<Longrightarrow> acyclic (arcs g')"
  shows "sound L dag g'"
  using assms generated_trans generated_good unfolding sound_def by blast

text \<open>The state while the ends are connected: \<open>n\<close> vertices were there before the source \<open>src\<close>.\<close>

definition ends_ok :: "nat \<Rightarrow> bool \<Rightarrow> bool \<Rightarrow> nat \<Rightarrow> nat \<Rightarrow> sng \<Rightarrow> bool" where
  "ends_ok L dag source n src g \<longleftrightarrow> sound L dag g \<and> 0 < n \<and> n \<le> length (sg_verts g)
   \<and> (\<forall>u < n. \<forall>v < n. (u, v) \<in> (linked g)\<^sup>*) \<and> (\<forall>v. is_actor g v \<longrightarrow> v < n \<or> source \<and> v = src)
   \<and> (source \<longrightarrow> src = n \<and> good_actor L g src \<and> (\<forall>u. (u, src) \<notin> arcs g))"

lemma ends_okD:
  assumes "ends_ok L dag source n src g"
  shows "sound L dag g" "0 < n" "n \<le> length (sg_verts g)" "u < n \<Longrightarrow> v < n \<Longrightarrow> (u, v) \<in> (linked g)\<^sup>*"
    "is_actor g v \<Longrightarrow> v < n \<or> source \<and> v = src" "source \<Longrightarrow> src = n" "source \<Longrightarrow> good_actor L g src" "source \<Longrightarrow> (u, src) \<notin> arcs g"
  using assms unfolding ends_ok_def by blast+

lemma ends_ok_grows:
  assumes "ends_ok L dag source n src g" "generated L any g g'" "acyclic (arcs g) \<Longrightarrow> acyclic (arcs g')"
    "\<And>v. is_actor g' v \<Longrightarrow> is_actor g v" "\<And>u. source \<Longrightarrow> (u, src) \<in> arcs g' \<Longrightarrow> (u, src) \<in> arcs g"
  shows "ends_ok L dag source n src g'"
proof -
  note e = ends_okD [OF assms(1)]
  have "sound L dag g'"
    by (rule sound_generated [OF e(1) assms(2,3)])
  moreover have "(u, v) \<in> (linked g')\<^sup>*" if "u < n" "v < n" for u v
    by (rule linked_trancl_mono [OF generated_keeps(1) [OF assms(2)] e(4) [OF that]])
  moreover have "v < n \<or> source \<and> v = src" if "is_actor g' v" for v
    by (rule e(5) [OF assms(4) [OF that]])
  moreover have "src = n \<and> good_actor L g' src \<and> (\<forall>u. (u, src) \<notin> arcs g')" if "source"
    using e(6-8) [OF that] assms(5) [OF that] generated_good [OF assms(2)] by blast
  moreover have "0 < n" "n \<le> length (sg_verts g')"
    using e(2,3) generated_keeps(2) [OF assms(2)] by auto
  ultimately show ?thesis
    unfolding ends_ok_def by blast
qed

lemma is_actor_grows:
  assumes "generated L R g g'" "length (sg_verts g') = Suc (length (sg_verts g))" "vi_type (vinfo g' (length (sg_verts g))) \<noteq> ACTOR"
    "is_actor g' v"
  shows "is_actor g v"
  using assms(2-4) generated_keeps(3) [OF assms(1), of v] by (cases "v = length (sg_verts g)") (auto simp: is_actor_def less_Suc_eq)

lemma ends_range:
  assumes "ends_ok L dag source n src g"
  shows "\<forall>(u, v) \<in> arcs g. u \<noteq> length (sg_verts g) \<and> v \<noteq> length (sg_verts g)"
  using assms sound_wf arcs_range unfolding ends_ok_def by fastforce

lemma feed_source_ok:
  assumes "lcm_fits lcmf" "0 < L" "L < 2 ^ 63" "ends_ok L dag True n src (gs_graph st)" "good_actor L (gs_graph st) v" "v < n"
  shows "\<exists>c st'. addChannel lcmf prefix src [v] st = Inr (c, st') \<and> ends_ok L dag True n src (gs_graph st')
    \<and> generated L any (gs_graph st) (gs_graph st') \<and> (c, v) \<in> arcs (gs_graph st') \<and> (src, c) \<in> arcs (gs_graph st')"
proof -
  let ?g = "gs_graph st"
  have src: "src = n" "good_actor L ?g src" "\<forall>u. (u, src) \<notin> arcs ?g"
    using assms(4) by (auto simp: ends_ok_def)
  obtain c st' where c: "addChannel lcmf prefix src [v] st = Inr (c, st')" "generated L any ?g (gs_graph st')"
    "c = length (sg_verts ?g)" "length (sg_verts (gs_graph st')) = Suc c" "vi_type (vinfo (gs_graph st') c) = FIFO"
    "arcs (gs_graph st') = arcs ?g \<union> {(src, c), (c, v)}"
    using addChannel_one [OF assms(1-3) src(2) assms(5), of prefix] .
  have less: "src \<noteq> c" "v \<noteq> c"
    using src(2) assms(5) by (auto simp: good_actor_def c(3))
  have "acyclic (arcs (gs_graph st'))" if "acyclic (arcs ?g)"
    unfolding c(6)
  proof (rule acyclic_channel [OF that])
    show "(v, src) \<notin> (arcs ?g)\<^sup>*"
      using src(1,3) assms(6) by (auto elim: rtranclE)
  qed (use ends_range [OF assms(4)] less in \<open>simp_all add: c(3)\<close>)
  moreover have "is_actor ?g u" if "is_actor (gs_graph st') u" for u
    using is_actor_grows [OF c(2) _ _ that] c(4,5) by (simp add: c(3))
  moreover have "(u, src) \<in> arcs ?g" if "(u, src) \<in> arcs (gs_graph st')" for u
    using that c(6) less src(1) assms(6) by auto
  ultimately have "ends_ok L dag True n src (gs_graph st')"
    by (intro ends_ok_grows [OF assms(4) c(2)]) blast+
  then show ?thesis
    using c(1,2,6) by blast
qed

lemma add_input_ok:
  assumes "ends_ok L dag source n src (gs_graph st)" "good_actor L (gs_graph st) v" "v < n"
  shows "ends_ok L dag source n src (gs_graph (snd (addInput prefix v st))) \<and> generated L any (gs_graph st) (gs_graph (snd (addInput prefix v st)))"
proof -
  let ?g = "gs_graph st"
  obtain i st' where i: "addInput prefix v st = (i, st')" "generated L any ?g (gs_graph st')" "i = length (sg_verts ?g)"
    "length (sg_verts (gs_graph st')) = Suc i" "vi_type (vinfo (gs_graph st') i) = REGISTER" "arcs (gs_graph st') = arcs ?g \<union> {(i, v)}"
    using addInput_one [OF assms(2), of prefix any] .
  have "acyclic (arcs (gs_graph st'))" if "acyclic (arcs ?g)"
    unfolding i(6) using ends_range [OF assms(1)] assms(2) that by (intro acyclic_new_source) (auto simp: i(3) good_actor_def)
  moreover have "is_actor ?g u" if "is_actor (gs_graph st') u" for u
    using is_actor_grows [OF i(2) _ _ that] i(4,5) by (simp add: i(3))
  moreover have "(u, src) \<in> arcs ?g" if "source" "(u, src) \<in> arcs (gs_graph st')" for u
    using that i(6) assms(1,3) by (auto simp: ends_ok_def)
  ultimately have "ends_ok L dag source n src (gs_graph st')"
    by (intro ends_ok_grows [OF assms(1) i(2)]) blast+
  then show ?thesis
    using i(1,2) by simp
qed

lemma add_output_ok:
  assumes "ends_ok L dag source n src (gs_graph st)" "good_actor L (gs_graph st) v" "v < n"
  shows "ends_ok L dag source n src (gs_graph (snd (addOutput prefix v st))) \<and> generated L any (gs_graph st) (gs_graph (snd (addOutput prefix v st)))"
proof -
  let ?g = "gs_graph st"
  obtain i st' where i: "addOutput prefix v st = (i, st')" "generated L any ?g (gs_graph st')" "i = length (sg_verts ?g)"
    "length (sg_verts (gs_graph st')) = Suc i" "vi_type (vinfo (gs_graph st') i) = REGISTER" "arcs (gs_graph st') = arcs ?g \<union> {(v, i)}"
    using addOutput_one [OF assms(2), of prefix any] .
  have "acyclic (arcs (gs_graph st'))" if "acyclic (arcs ?g)"
    unfolding i(6) using ends_range [OF assms(1)] assms(2) that by (intro acyclic_new_sink) (auto simp: i(3) good_actor_def)
  moreover have "is_actor ?g u" if "is_actor (gs_graph st') u" for u
    using is_actor_grows [OF i(2) _ _ that] i(4,5) by (simp add: i(3))
  moreover have "(u, src) \<in> arcs ?g" if "source" "(u, src) \<in> arcs (gs_graph st')" for u
    using that i(6) assms(1) by (auto simp: ends_ok_def good_actor_def i(3))
  ultimately have "ends_ok L dag source n src (gs_graph st')"
    by (intro ends_ok_grows [OF assms(1) i(2)]) blast+
  then show ?thesis
    using i(1,2) by simp
qed

text \<open>An actor that has been fed by the source has an arc into it, and the source is linked to it.\<close>

definition fed :: "bool \<Rightarrow> nat \<Rightarrow> sng \<Rightarrow> nat \<Rightarrow> bool" where
  "fed source src g v \<longleftrightarrow> (source \<longrightarrow> (\<exists>u. (u, v) \<in> arcs g) \<and> (src, v) \<in> (linked g)\<^sup>*)"

lemma fed_mono: "arcs g \<subseteq> arcs g' \<Longrightarrow> fed source src g v \<Longrightarrow> fed source src g' v"
  unfolding fed_def using linked_trancl_mono by blast

lemma feed_actor_ok:
  assumes "lcm_fits lcmf" "0 < L" "L < 2 ^ 63" "ends_ok L dag (go_sourceActor go) n src (gs_graph st)" "good_actor L (gs_graph st) v" "v < n"
  shows "\<exists>st'. feed_actor lcmf go src v st = Inr st' \<and> ends_ok L dag (go_sourceActor go) n src (gs_graph st')
    \<and> generated L any (gs_graph st) (gs_graph st') \<and> fed (go_sourceActor go) src (gs_graph st') v"
proof -
  have "\<exists>st1. (if go_sourceActor go then rbind (addChannel lcmf (go_prefix go) src [v] st) (\<lambda>(c, st). Inr st) else Inr st) = Inr st1
      \<and> ends_ok L dag (go_sourceActor go) n src (gs_graph st1) \<and> generated L any (gs_graph st) (gs_graph st1) \<and> fed (go_sourceActor go) src (gs_graph st1) v"
  proof (cases "go_sourceActor go")
    case True
    obtain c st1 where c: "addChannel lcmf (go_prefix go) src [v] st = Inr (c, st1)" "ends_ok L dag True n src (gs_graph st1)"
      "generated L any (gs_graph st) (gs_graph st1)" "(c, v) \<in> arcs (gs_graph st1)" "(src, c) \<in> arcs (gs_graph st1)"
      using feed_source_ok [OF assms(1-3) _ assms(5,6), of dag src "go_prefix go"] assms(4) True by auto
    have "(src, c) \<in> linked (gs_graph st1)" "(c, v) \<in> linked (gs_graph st1)"
      using c(4,5) by (auto simp: linked_arcs)
    then have "(src, v) \<in> (linked (gs_graph st1))\<^sup>*"
      by (meson r_into_rtrancl rtrancl_into_rtrancl)
    then show ?thesis
      using True c by (auto simp: fed_def)
  next
    case False
    then show ?thesis
      using assms(4) by (simp add: fed_def generated_start)
  qed
  then obtain st1 where st1: "(if go_sourceActor go then rbind (addChannel lcmf (go_prefix go) src [v] st) (\<lambda>(c, st). Inr st) else Inr st) = Inr st1"
      "ends_ok L dag (go_sourceActor go) n src (gs_graph st1)" "generated L any (gs_graph st) (gs_graph st1)" "fed (go_sourceActor go) src (gs_graph st1) v"
    by blast
  note i = add_input_ok [OF st1(2) generated_good [OF st1(3) assms(5)] assms(6), of "go_prefix go"]
  show ?thesis
  proof (cases "go_inputData go")
    case True
    then show ?thesis
      using st1 i generated_trans [OF st1(3)] fed_mono [OF generated_keeps(1)] by (auto simp: feed_actor_def)
  next
    case False
    then show ?thesis
      using st1 by (auto simp: feed_actor_def)
  qed
qed

lemma drain_actor_ok:
  assumes "ends_ok L dag source n src (gs_graph st)" "good_actor L (gs_graph st) v" "v < n"
  shows "ends_ok L dag source n src (gs_graph (drain_actor go v st)) \<and> generated L any (gs_graph st) (gs_graph (drain_actor go v st))"
  using add_output_ok [OF assms] assms(1) by (simp add: drain_actor_def generated_start)

text \<open>The state after the vertices \<open>ys\<close> have been visited.\<close>

definition visited :: "nat \<Rightarrow> bool \<Rightarrow> bool \<Rightarrow> nat \<Rightarrow> nat \<Rightarrow> nat list \<Rightarrow> ends_state \<Rightarrow> bool" where
  "visited L dag source n src ys es \<longleftrightarrow> (let g = gs_graph (es_gen es) in
     ends_ok L dag source n src g \<and> (\<forall>v \<in> set (es_actors es). good_actor L g v \<and> v < n)
   \<and> (\<forall>v \<in> set ys. is_actor g v \<longrightarrow> v \<noteq> src \<longrightarrow> v \<in> set (es_actors es) \<and> (source \<longrightarrow> (\<exists>u. (u, v) \<in> arcs g)))
   \<and> (es_inputs es \<longrightarrow> (\<exists>v < n. fed source src g v)))"

lemma in_edges_arcs: "in_edges g v = [] \<longleftrightarrow> (\<forall>u. (u, v) \<notin> arcs g)"
proof -
  have "in_edges g v = [] \<longleftrightarrow> (\<forall>e < length (sg_edges g). fst (snd (sg_edges g ! e)) \<noteq> v)"
    by (auto simp: in_edges_def etgt_def filter_empty_conv)
  also have "\<dots> \<longleftrightarrow> (\<forall>x \<in> set (sg_edges g). fst (snd x) \<noteq> v)"
    by (simp add: all_set_conv_all_nth)
  also have "\<dots> \<longleftrightarrow> (\<forall>u. (u, v) \<notin> arcs g)"
    by (fastforce simp: arcs_def)
  finally show ?thesis .
qed

lemma ends_actor_back:
  "ends_ok L dag source n src g \<Longrightarrow> generated L any g g' \<Longrightarrow> v < n \<Longrightarrow> is_actor g' v \<Longrightarrow> is_actor g v"
  using generated_keeps(3) [of L any g g' v] by (auto simp: is_actor_def ends_ok_def)

lemma visited_step:
  assumes "visited L dag source n src ys es" "generated L any (gs_graph (es_gen es)) g" "ends_ok L dag source n src g"
    "good_actor L g v" "v < n" "source \<Longrightarrow> \<exists>u. (u, v) \<in> arcs g" "i \<Longrightarrow> es_inputs es \<or> fed source src g v" "gs_graph st = g"
  shows "visited L dag source n src (ys @ [v]) \<lparr>es_gen = st, es_actors = es_actors es @ [v], es_inputs = i, es_outputs = out\<rparr>"
proof -
  let ?g = "gs_graph (es_gen es)"
  have e: "ends_ok L dag source n src ?g" and a: "\<forall>v \<in> set (es_actors es). good_actor L ?g v \<and> v < n"
    and y: "\<forall>v \<in> set ys. is_actor ?g v \<longrightarrow> v \<noteq> src \<longrightarrow> v \<in> set (es_actors es) \<and> (source \<longrightarrow> (\<exists>u. (u, v) \<in> arcs ?g))"
    and f: "es_inputs es \<longrightarrow> (\<exists>v < n. fed source src ?g v)"
    using assms(1) by (simp_all add: visited_def Let_def)
  note arcs = generated_keeps(1) [OF assms(2)]
  have "x \<in> set (es_actors es) \<and> (source \<longrightarrow> (\<exists>u. (u, x) \<in> arcs g))" if x: "x \<in> set ys" "is_actor g x" "x \<noteq> src" for x
  proof -
    have "x < n"
      using ends_okD(5) [OF assms(3) x(2)] x(3) by blast
    then show ?thesis
      using y x ends_actor_back [OF e assms(2)] arcs by blast
  qed
  moreover have "i \<longrightarrow> (\<exists>v < n. fed source src g v)"
    using assms(5,7) f fed_mono [OF arcs] by blast
  moreover have "\<forall>v \<in> set (es_actors es). good_actor L g v \<and> v < n"
    using a generated_good [OF assms(2)] by blast
  ultimately show ?thesis
    using assms(3-6,8) by (simp add: visited_def Let_def)
qed

lemma visit_actor_ok:
  assumes "lcm_fits lcmf" "0 < L" "L < 2 ^ 63" "visited L dag (go_sourceActor go) n src ys es" "v < length (sg_verts (gs_graph (es_gen es)))"
  shows "\<exists>es'. visit_actor lcmf go src v es = Inr es' \<and> visited L dag (go_sourceActor go) n src (ys @ [v]) es'
    \<and> generated L any (gs_graph (es_gen es)) (gs_graph (es_gen es'))"
proof (cases "src = v \<or> vi_type (vinfo (gs_graph (es_gen es)) v) \<noteq> ACTOR")
  case True
  then have "visited L dag (go_sourceActor go) n src (ys @ [v]) es"
    using assms(4) by (auto simp: visited_def is_actor_def Let_def)
  then show ?thesis
    using True by (auto simp: visit_actor_def Let_def generated_start)
next
  case False
  let ?g = "gs_graph (es_gen es)" and ?s = "go_sourceActor go"
  define isSource where "isSource = (in_edges ?g v = [])"
  define isSink where "isSink = (out_edges ?g v = [])"
  have e: "ends_ok L dag ?s n src ?g"
    using assms(4) by (simp add: visited_def Let_def)
  have actor: "is_actor ?g v"
    using False assms(5) by (simp add: is_actor_def)
  then have v: "good_actor L ?g v" "v < n"
    using ends_okD(5) [OF e actor] False sound_actor [OF ends_okD(1) [OF e] actor] by auto
  have "\<exists>st1. (if isSource then feed_actor lcmf go src v (es_gen es) else Inr (es_gen es)) = Inr st1
      \<and> ends_ok L dag ?s n src (gs_graph st1) \<and> generated L any ?g (gs_graph st1) \<and> (isSource \<longrightarrow> fed ?s src (gs_graph st1) v)"
    using feed_actor_ok [OF assms(1-3) e v] e by (cases isSource) (auto simp: generated_start)
  then obtain st1 where st1: "(if isSource then feed_actor lcmf go src v (es_gen es) else Inr (es_gen es)) = Inr st1"
      "ends_ok L dag ?s n src (gs_graph st1)" "generated L any ?g (gs_graph st1)" "isSource \<longrightarrow> fed ?s src (gs_graph st1) v"
    by blast
  define st2 where "st2 = (if isSink then drain_actor go v st1 else st1)"
  have st2: "ends_ok L dag ?s n src (gs_graph st2)" "generated L any (gs_graph st1) (gs_graph st2)"
    using drain_actor_ok [OF st1(2) generated_good [OF st1(3) v(1)] v(2)] st1(2) by (auto simp: st2_def generated_start)
  have g2: "generated L any ?g (gs_graph st2)"
    by (rule generated_trans [OF st1(3) st2(2)])
  have fed2: "isSource \<longrightarrow> fed ?s src (gs_graph st2) v"
    using st1(4) fed_mono [OF generated_keeps(1) [OF st2(2)]] by blast
  have into: "\<exists>u. (u, v) \<in> arcs (gs_graph st2)" if "?s"
  proof (cases isSource)
    case True
    then show ?thesis
      using fed2 that by (simp add: fed_def)
  next
    case False
    then show ?thesis
      using generated_keeps(1) [OF g2] by (auto simp: isSource_def in_edges_arcs)
  qed
  let ?es = "\<lparr>es_gen = st2, es_actors = es_actors es @ [v], es_inputs = es_inputs es \<or> isSource, es_outputs = es_outputs es \<or> isSink\<rparr>"
  have "visit_actor lcmf go src v es = Inr ?es"
    using False st1(1) by (simp add: visit_actor_def Let_def isSource_def [symmetric] isSink_def [symmetric] st2_def)
  moreover have "visited L dag ?s n src (ys @ [v]) ?es"
    using fed2 by (intro visited_step [OF assms(4) g2 st2(1) generated_good [OF g2 v(1)] v(2) into]) auto
  ultimately show ?thesis
    using g2 by simp
qed

lemma visit_actors_ok:
  assumes "lcm_fits lcmf" "0 < L" "L < 2 ^ 63" "visited L dag (go_sourceActor go) n src [] es"
  shows "\<exists>es'. rfold (visit_actor lcmf go src) (vertices (gs_graph (es_gen es))) es = Inr es'
    \<and> visited L dag (go_sourceActor go) n src (vertices (gs_graph (es_gen es))) es' \<and> generated L any (gs_graph (es_gen es)) (gs_graph (es_gen es'))"
proof -
  let ?vs = "vertices (gs_graph (es_gen es))"
  let ?P = "\<lambda>ys t. visited L dag (go_sourceActor go) n src ys t \<and> generated L any (gs_graph (es_gen es)) (gs_graph (es_gen t))"
  have "\<exists>es'. rfold (visit_actor lcmf go src) ?vs es = Inr es' \<and> ?P ?vs es'"
  proof (rule rfold_rule [where P = ?P])
    show "?P [] es" using assms(4) generated_start by blast
  next
    fix ys v zs and t :: ends_state
    assume a: "?vs = ys @ v # zs" "?P ys t"
    then have "v \<in> set ?vs" by simp
    then have "v < length (sg_verts (gs_graph (es_gen t)))"
      using generated_keeps(2) [OF conjunct2 [OF a(2)]] by (simp add: vertices_def)
    then show "\<exists>t'. visit_actor lcmf go src v t = Inr t' \<and> ?P (ys @ [v]) t'"
      using visit_actor_ok [OF assms(1-3) conjunct1 [OF a(2)]] generated_trans [OF conjunct2 [OF a(2)]] by blast
  qed
  then show ?thesis .
qed

lemma add_source_ok:
  assumes "sound L dag (gs_graph st)" "all_linked (gs_graph st)" "n = length (sg_verts (gs_graph st))" "add_source go junk st = (src, st')"
  shows "ends_ok L dag (go_sourceActor go) n src (gs_graph st')" "go_sourceActor go \<or> src = junk"
proof -
  let ?g = "gs_graph st"
  have n: "0 < n"
    using assms(1,3) by (auto simp: sound_def good_actor_def)
  have base: "(u, v) \<in> (linked ?g)\<^sup>*" if "u < n" "v < n" for u v
    using assms(2,3) that by (simp add: all_linked_def)
  show "go_sourceActor go \<or> src = junk"
    using assms(4) by (cases "go_sourceActor go") (simp_all add: add_source_def)
  show "ends_ok L dag (go_sourceActor go) n src (gs_graph st')"
  proof (cases "go_sourceActor go")
    case True
    let ?vi = "mk_vertex_info\<lparr>vi_type := ACTOR, vi_name := go_prefix go @ ''source'', vi_size := 1\<rparr>"
    have g': "src = n" "gs_graph st' = with_channel ?g ?vi []"
      using assms(4) True
      by (auto simp: add_source_def add_vertex_def set_vinfo_def vinfo_def with_channel_def assms(3) Let_def)
    have gen: "generated L any ?g (gs_graph st')"
      unfolding g' by (rule generated_actor [OF generated_start]) simp_all
    have arcs: "arcs (gs_graph st') = arcs ?g"
      by (simp add: g' arcs_with_channel)
    have "sound L dag (gs_graph st')"
      by (rule sound_generated [OF assms(1) gen]) (simp add: arcs)
    moreover have "(u, v) \<in> (linked (gs_graph st'))\<^sup>*" if "u < n" "v < n" for u v
      using base [OF that] by (simp add: linked_arcs arcs)
    moreover have "v < n \<or> v = src" if "is_actor (gs_graph st') v" for v
      using that by (auto simp: is_actor_def g' assms(3))
    moreover have "good_actor L (gs_graph st') src"
      by (simp add: g' assms(3) good_actor_def repCount_def)
    moreover have "(u, src) \<notin> arcs (gs_graph st')" for u
      using arcs_range [OF sound_wf [OF assms(1)]] by (fastforce simp: arcs g'(1) assms(3))
    moreover have "n \<le> length (sg_verts (gs_graph st'))"
      by (simp add: g' assms(3))
    ultimately show ?thesis
      using True n g'(1) unfolding ends_ok_def by blast
  next
    case False
    then have "st' = st"
      using assms(4) by (simp add: add_source_def)
    then show ?thesis
      using False n base assms(1,3) unfolding ends_ok_def is_actor_def by blast
  qed
qed

text \<open>All actors but the source have an arc into them.\<close>

definition only_source :: "sng \<Rightarrow> bool" where
  "only_source g \<longleftrightarrow> (\<exists>src. is_actor g src \<and> (\<forall>v. is_actor g v \<longrightarrow> (v = src \<longleftrightarrow> (\<forall>u. (u, v) \<notin> arcs g))))"

lemma ends_ok_linked:
  assumes "ends_ok L dag source n src g" "v < n" "fed source src g v"
  shows "all_linked g"
proof -
  note e = ends_okD [OF assms(1)]
  have to: "(x, v) \<in> (linked g)\<^sup>*" if "is_actor g x" for x
    using e(4) assms(2,3) e(5) [OF that] by (auto simp: fed_def)
  show ?thesis
  proof (rule all_linked_actors [OF e(1)])
    fix x y
    assume "is_actor g x" "is_actor g y"
    then show "(x, y) \<in> (linked g)\<^sup>*"
      using to linked_trancl_sym by (meson rtrancl_trans)
  qed
qed

lemma visited_actors:
  assumes "visited L dag source n src (vertices g) es" "generated L any g (gs_graph (es_gen es))" "source \<or> src \<noteq> 0"
    "n \<le> length (sg_verts g)"
  shows "es_actors es \<noteq> []" "source \<Longrightarrow> is_actor (gs_graph (es_gen es)) v \<Longrightarrow> v \<noteq> src \<Longrightarrow> \<exists>u. (u, v) \<in> arcs (gs_graph (es_gen es))"
proof -
  let ?g = "gs_graph (es_gen es)"
  have e: "ends_ok L dag source n src ?g" and
    y: "\<forall>v \<in> set (vertices g). is_actor ?g v \<longrightarrow> v \<noteq> src \<longrightarrow> v \<in> set (es_actors es) \<and> (source \<longrightarrow> (\<exists>u. (u, v) \<in> arcs ?g))"
    using assms(1) by (simp_all add: visited_def Let_def)
  have "src \<noteq> 0"
    using assms(3) ends_okD(2,6) [OF e] by auto
  moreover have "is_actor ?g 0"
    using ends_okD(1) [OF e] by (auto simp: sound_def good_actor_def is_actor_def)
  moreover have "0 \<in> set (vertices g)"
    using ends_okD(2) [OF e] assms(4) by (auto simp: vertices_def)
  ultimately show "es_actors es \<noteq> []"
    using y by fastforce
  assume v: "source" "is_actor ?g v" "v \<noteq> src"
  then have "v \<in> set (vertices g)"
    using ends_okD(5) [OF e v(2)] assms(4) by (simp add: vertices_def)
  then show "\<exists>u. (u, v) \<in> arcs ?g"
    using y v by blast
qed

lemma connect_ends_ok:
  assumes "lcm_fits lcmf" "0 < L" "L < 2 ^ 63" "sound L dag (gs_graph (snd s))" "all_linked (gs_graph (snd s))" "go_sourceActor go \<or> junk \<noteq> 0"
  shows "\<exists>s'. connect_ends lcmf go rc junk s = Inr s' \<and> sound L dag (gs_graph (snd s')) \<and> all_linked (gs_graph (snd s'))
    \<and> (go_sourceActor go \<longrightarrow> only_source (gs_graph (snd s')))"
proof -
  let ?s = "go_sourceActor go"
  obtain k st where s: "s = (k, st)" by (cases s)
  obtain src st0 where st0: "add_source go junk st = (src, st0)" by (cases "add_source go junk st")
  define n where "n = length (sg_verts (gs_graph st))"
  note a = add_source_ok [OF assms(4,5) [unfolded s snd_conv] n_def st0]
  let ?es0 = "\<lparr>es_gen = st0, es_actors = [], es_inputs = False, es_outputs = False\<rparr>"
  have "visited L dag ?s n src [] ?es0"
    using a(1) by (simp add: visited_def Let_def)
  from visit_actors_ok [OF assms(1-3) this] obtain es where es: "rfold (visit_actor lcmf go src) (vertices (gs_graph st0)) ?es0 = Inr es"
      "visited L dag ?s n src (vertices (gs_graph st0)) es" "generated L any (gs_graph st0) (gs_graph (es_gen es))"
    by auto
  have e: "ends_ok L dag ?s n src (gs_graph (es_gen es))" and acts: "\<forall>v \<in> set (es_actors es). good_actor L (gs_graph (es_gen es)) v \<and> v < n"
    and inp: "es_inputs es \<Longrightarrow> \<exists>v < n. fed ?s src (gs_graph (es_gen es)) v"
    using es(2) by (simp_all add: visited_def Let_def)
  have src: "?s \<or> src \<noteq> 0"
    using a(2) assms(6) by auto
  note v = visited_actors [OF es(2,3) src ends_okD(3) [OF a(1)]]
  have pick: "good_actor L (gs_graph (es_gen es)) (es_actors es ! draw (rc_pick rc) j (length (es_actors es)))"
      "es_actors es ! draw (rc_pick rc) j (length (es_actors es)) < n" for j
    using acts v(1) by simp_all
  define needs where "needs = (\<not> es_inputs es \<and> (?s \<or> go_inputData go))"
  have "\<exists>st1. (if needs then feed_actor lcmf go src (es_actors es ! draw (rc_pick rc) k (length (es_actors es))) (es_gen es) else Inr (es_gen es)) = Inr st1
      \<and> ends_ok L dag ?s n src (gs_graph st1) \<and> generated L any (gs_graph (es_gen es)) (gs_graph st1) \<and> (\<exists>v < n. fed ?s src (gs_graph st1) v)"
  proof (cases needs)
    case True
    then show ?thesis
      using feed_actor_ok [OF assms(1-3) e pick] pick(2) by fastforce
  next
    case False
    then have "\<exists>v < n. fed ?s src (gs_graph (es_gen es)) v"
      using inp ends_okD(2) [OF e] by (auto simp: needs_def fed_def)
    then show ?thesis
      using False e generated_start by auto
  qed
  then obtain st1 w where st1: "(if needs then feed_actor lcmf go src (es_actors es ! draw (rc_pick rc) k (length (es_actors es))) (es_gen es) else Inr (es_gen es)) = Inr st1"
      "ends_ok L dag ?s n src (gs_graph st1)" "generated L any (gs_graph (es_gen es)) (gs_graph st1)" "w < n" "fed ?s src (gs_graph st1) w"
    by blast
  define k1 where "k1 = (if needs then Suc k else k)"
  define out where "out = (\<not> es_outputs es \<and> go_outputData go)"
  define st2 where "st2 = (if out then drain_actor go (es_actors es ! draw (rc_pick rc) k1 (length (es_actors es))) st1 else st1)"
  have st2: "ends_ok L dag ?s n src (gs_graph st2)" "generated L any (gs_graph st1) (gs_graph st2)"
    using drain_actor_ok [OF st1(2) generated_good [OF st1(3) pick(1)] pick(2)] st1(2) by (auto simp: st2_def generated_start)
  have c: "connect_ends lcmf go rc junk s = Inr (if out then Suc k1 else k1, st2)"
    using st1(1) es(1) by (simp add: connect_ends_def s st0 Let_def needs_def [symmetric] k1_def [symmetric] out_def [symmetric] st2_def)
  have g: "generated L any (gs_graph (es_gen es)) (gs_graph st2)"
    by (rule generated_trans [OF st1(3) st2(2)])
  have "only_source (gs_graph st2)" if "?s"
    unfolding only_source_def
  proof (intro exI conjI allI impI)
    note d = ends_okD [OF st2(1)]
    show "is_actor (gs_graph st2) src"
      using d(7) [OF that] by (simp add: is_actor_def good_actor_def)
    fix x
    assume x: "is_actor (gs_graph st2) x"
    show "x = src \<longleftrightarrow> (\<forall>u. (u, x) \<notin> arcs (gs_graph st2))"
    proof (cases "x = src")
      case True
      then show ?thesis using d(8) [OF that] by blast
    next
      case False
      then have "x < n"
        using d(5) [OF x] by blast
      then have "is_actor (gs_graph (es_gen es)) x"
        using ends_actor_back [OF e g] x by blast
      then show ?thesis
        using v(2) [OF that _ False] generated_keeps(1) [OF g] False by blast
    qed
  qed
  then show ?thesis
    using c ends_okD(1) [OF st2(1)] ends_ok_linked [OF st2(1) st1(4) fed_mono [OF generated_keeps(1) [OF st2(2)] st1(5)]] by simp
qed

section \<open>Generated topologies\<close>

lemma generate_topology_ok:
  assumes "lcm_fits lcmf" "0 < L" "L < 2 ^ 63" "good_choices L rc" "makes_clusters go rc opts" "gs_graph st = sng_empty"
    "fair_draws (rc_pick rc)" "cc_laws cc" "go_sourceActor go \<or> junk \<noteq> 0"
  shows "\<exists>st'. generate_topology lcmf cc go rc opts junk st = Inr st' \<and> sound L (go_createDAG go) (gs_graph st')
    \<and> all_linked (gs_graph st') \<and> (go_sourceActor go \<longrightarrow> only_source (gs_graph st'))"
proof -
  let ?dag = "go_createDAG go"
  obtain ts where ts: "make_clusters lcmf go rc opts st = Inr ts" "clusters_made L ?dag ts" "ts_clusters ts \<noteq> []"
    using make_clusters_made [OF assms(1-6)] by blast
  then have "linking L ?dag (ts_clusters ts) (gs_graph (snd (0 :: nat, ts_gen ts)))"
    by (simp add: clusters_made_def linking_def Let_def)
  from connect_clusters_ok [OF assms(1-3) this] obtain s1 where
    s1: "connect_clusters lcmf go rc (ts_clusters ts) (0, ts_gen ts) = Inr s1" "linking L ?dag (ts_clusters ts) (gs_graph (snd s1))"
    by blast
  have "acyclic (arcs (gs_graph (snd s1)))" if "?dag"
    using s1(2) that forward_acyclic [of L] by (simp add: linking_def)
  then have "sound L ?dag (gs_graph (snd s1))"
    using s1(2) generated_mono [of L "forward ?dag"] by (auto simp: linking_def sound_def)
  from connect_graph_ok [OF assms(1-3,7,8) this] obtain s2 where
    s2: "connect_graph lcmf cc go rc s1 = Inr s2" "sound L ?dag (gs_graph (snd s2))" "all_linked (gs_graph (snd s2))"
    by blast
  from connect_ends_ok [OF assms(1-3) s2(2,3) assms(9)] obtain s3 where
    s3: "connect_ends lcmf go rc junk s2 = Inr s3" "sound L ?dag (gs_graph (snd s3))" "all_linked (gs_graph (snd s3))"
      "go_sourceActor go \<longrightarrow> only_source (gs_graph (snd s3))"
    by blast
  then show ?thesis
    using ts(1) s1(1) s2(1) by (cases s3) (simp add: generate_topology_def)
qed

section \<open>Numbering components\<close>

text \<open>A function that has the laws assumed of \<^verbatim>\<open>boost::connected_components\<close>: every edge makes the labels of its ends one.\<close>

definition join_labels :: "nat \<times> nat \<times> edge_info \<Rightarrow> (nat \<Rightarrow> nat) \<Rightarrow> (nat \<Rightarrow> nat)" where
  "join_labels = (\<lambda>(u, v, i) l. \<lambda>x. if l x = l v then l u else l x)"

definition label_components :: "sng \<Rightarrow> nat \<times> (nat \<Rightarrow> nat)" where
  "label_components g = (let
     l = fold join_labels (sg_edges g) (\<lambda>x. x);
     reps = remdups (map l (vertices g))
   in (length reps, \<lambda>v. length (takeWhile (\<lambda>r. r \<noteq> l v) reps)))"

lemma join_labels_ok:
  "fold join_labels es (\<lambda>x. x) u = fold join_labels es (\<lambda>x. x) v \<longleftrightarrow> (u, v) \<in> (linked \<lparr>sg_verts = vs, sg_edges = es\<rparr>)\<^sup>*"
proof (induction es arbitrary: u v rule: rev_induct)
  case Nil
  then show ?case by (simp add: linked_def)
next
  case (snoc e es)
  obtain a b i where e: "e = (a, b, i)" by (cases e)
  let ?E = "linked \<lparr>sg_verts = vs, sg_edges = es\<rparr>" and ?E' = "linked \<lparr>sg_verts = vs, sg_edges = es @ [e]\<rparr>"
  let ?l = "fold join_labels es (\<lambda>x. x)"
  let ?l' = "fold join_labels (es @ [e]) (\<lambda>x. x)"
  have l': "?l' x = (if ?l x = ?l b then ?l a else ?l x)" for x
    by (simp add: join_labels_def e)
  have E': "?E' = ?E \<union> {(a, b), (b, a)}"
    by (auto simp: linked_def e)
  have mono: "(x, y) \<in> ?E'\<^sup>*" if "?l x = ?l y" for x y
    using that snoc.IH rtrancl_mono [of ?E ?E'] E' by blast
  have ab: "(b, a) \<in> ?E'\<^sup>*" "(a, b) \<in> ?E'\<^sup>*"
    using E' by blast+
  show ?case
  proof
    have to: "(x, a) \<in> ?E'\<^sup>* \<and> (a, x) \<in> ?E'\<^sup>*" if "?l x = ?l b" for x
      using mono [of x b] mono [of b x] that ab by (metis rtrancl_trans)
    assume "?l' u = ?l' v"
    then have eq: "(if ?l u = ?l b then ?l a else ?l u) = (if ?l v = ?l b then ?l a else ?l v)"
      by (simp only: l')
    show "(u, v) \<in> ?E'\<^sup>*"
    proof (cases "?l u = ?l b"; cases "?l v = ?l b")
      assume c: "?l u = ?l b" "?l v \<noteq> ?l b"
      then have "(a, v) \<in> ?E'\<^sup>*" using eq by (intro mono) simp
      then show ?thesis using to [OF c(1)] by (meson rtrancl_trans)
    next
      assume c: "?l u \<noteq> ?l b" "?l v = ?l b"
      then have "(u, a) \<in> ?E'\<^sup>*" using eq by (intro mono) simp
      then show ?thesis using to [OF c(2)] by (meson rtrancl_trans)
    qed (use eq mono in simp_all)
  next
    have step: "?l' x = ?l' y" if "(x, y) \<in> ?E'" for x y
    proof -
      have "(x, y) \<in> ?E \<Longrightarrow> ?l x = ?l y"
        using snoc.IH by blast
      then show ?thesis
        unfolding l' using that by (auto simp: E')
    qed
    assume "(u, v) \<in> ?E'\<^sup>*"
    then show "?l' u = ?l' v"
      by (induction rule: rtrancl_induct) (use step in auto)
  qed
qed

lemma index_of:
  fixes x :: nat
  assumes "distinct xs" "x \<in> set xs"
  shows "length (takeWhile (\<lambda>r. r \<noteq> x) xs) < length xs" "xs ! length (takeWhile (\<lambda>r. r \<noteq> x) xs) = x"
proof -
  show less: "length (takeWhile (\<lambda>r. r \<noteq> x) xs) < length xs"
    using assms(2) by (induction xs) auto
  show "xs ! length (takeWhile (\<lambda>r. r \<noteq> x) xs) = x"
    using nth_length_takeWhile [OF less] by simp
qed

lemma label_components_laws: "cc_laws label_components"
  unfolding cc_laws_def
proof (intro allI impI)
  fix g
  assume "sng_wf g"
  define l where "l = fold join_labels (sg_edges g) (\<lambda>x. x)"
  define reps where "reps = remdups (map l (vertices g))"
  let ?i = "\<lambda>v. length (takeWhile (\<lambda>r. r \<noteq> l v) reps)"
  have d: "distinct reps" and r: "l v \<in> set reps" if "v < length (sg_verts g)" for v
    using that by (auto simp: reps_def vertices_def)
  note ix = index_of [OF d r]
  have "?i u = ?i v \<longleftrightarrow> (u, v) \<in> (linked g)\<^sup>*" if "u < length (sg_verts g)" "v < length (sg_verts g)" for u v
  proof -
    have "?i u = ?i v \<longleftrightarrow> l u = l v"
      using ix(2) that by metis
    also have "\<dots> \<longleftrightarrow> (u, v) \<in> (linked g)\<^sup>*"
    proof -
      have "linked \<lparr>sg_verts = sg_verts g, sg_edges = sg_edges g\<rparr> = linked g"
        by (simp add: linked_def)
      then show ?thesis
        using join_labels_ok [of "sg_edges g" u v "sg_verts g"] by (simp only: l_def)
    qed
    finally show ?thesis .
  qed
  moreover have "\<exists>v < length (sg_verts g). ?i v = i" if i: "i < length reps" for i
  proof -
    have "reps ! i \<in> l ` {0..<length (sg_verts g)}"
      using nth_mem [OF i] by (simp add: reps_def vertices_def)
    then obtain v where v: "v < length (sg_verts g)" "reps ! i = l v"
      by auto
    then have "?i v = i"
      using ix [OF v(1) v(1)] d [OF v(1)] i nth_eq_iff_index_eq by metis
    then show ?thesis
      using v(1) by blast
  qed
  ultimately show "let n = length (sg_verts g); (num, comp) = label_components g in
     (\<forall>v < n. comp v < num) \<and> (\<forall>i < num. \<exists>v < n. comp v = i)
   \<and> (\<forall>u < n. \<forall>v < n. comp u = comp v \<longleftrightarrow> (u, v) \<in> (linked g)\<^sup>*)"
    using ix(1) by (simp add: label_components_def Let_def l_def [symmetric] reps_def [symmetric])
qed

section \<open>The graph of the generator\<close>

text \<open>Five actors in clusters of four, with a source actor, without cycles.\<close>

definition example_options :: generator_options where
  "example_options = \<lparr>go_prefix = ''g.'', go_createDAG = True, go_allowSelfEdges = False, go_randomSelection = False,
     go_sourceActor = True, go_inputData = True, go_outputData = True, go_actorCount = 5\<rparr>"

definition example_choices :: random_choices where
  "example_choices = \<lparr>rc_select = (\<lambda>_. 0), rc_cluster = (\<lambda>_. example_cluster), rc_outDegree = (\<lambda>_ _. 1), rc_multicastDegree = (\<lambda>_ _. 1),
     rc_pick = (\<lambda>k _. k)\<rparr>"

definition example_types :: "cluster_options list" where
  "example_types = [\<lparr>co_key = 1, co_type = ''a'', co_weight = 2, co_count = 0\<rparr>]"

definition empty_state :: gen_state where
  "empty_state = \<lparr>gs_graph = sng_empty, gs_fifoCount = 0, gs_inputCount = 0, gs_outputCount = 0\<rparr>"

lemma example_choices_good: "good_choices 6 example_choices" "makes_clusters example_options example_choices example_types"
  by (simp_all add: good_choices_def makes_clusters_def example_choices_def example_cluster_def example_options_def example_types_def)

lemma example_draws_fair: "fair_draws (rc_pick example_choices)"
proof -
  have "\<exists>k' \<ge> k. k' mod n \<noteq> c" if "2 \<le> n" for k n c :: nat
  proof (cases "k mod n = c")
    case True
    then have "Suc k mod n \<noteq> c"
      using that by (auto simp: mod_Suc)
    then show ?thesis
      by (intro exI [of _ "Suc k"]) simp
  qed auto
  then show ?thesis
    by (simp add: fair_draws_def draw_def example_choices_def)
qed

text \<open>C40. The topology \<^verbatim>\<open>main\<close> generates.  Suppose that every cluster drawn has an actor, that the repetition
  counts drawn are positive and divide some number below \<open>2 ^ 63\<close>, that the options lead to a first cluster, and that
  the draws of components do not give one and the same number for ever; that \<^verbatim>\<open>lcm\<close> is right where its result fits
  and \<^verbatim>\<open>connected_components\<close> numbers the components; and that, without \<^verbatim>\<open>source-actor\<close>, the uninitialised
  \<^verbatim>\<open>vdSource\<close> is not the first actor.  Then generation from the empty graph ends without an assertion, the balance
  equations of the graph hold, the graph is connected, it has no cycle if \<^verbatim>\<open>create-dag\<close> is set, and with
  \<^verbatim>\<open>source-actor\<close> exactly one actor, the source, has no edge into it.  The other draws, of degrees, numbers of
  inputs and outputs and of actors, are arbitrary.\<close>

theorem generated_topology_sound:
  assumes "lcm_fits lcmf" "0 < L" "L < 2 ^ 63" "good_choices L rc" "makes_clusters go rc opts" "gs_graph st = sng_empty"
    "fair_draws (rc_pick rc)" "cc_laws cc" "go_sourceActor go \<or> junk \<noteq> 0"
  shows "\<exists>st'. generate_topology lcmf cc go rc opts junk st = Inr st' \<and> sng_wf (gs_graph st') \<and> consistent (gs_graph st')
    \<and> (\<forall>u < length (sg_verts (gs_graph st')). \<forall>v < length (sg_verts (gs_graph st')). (u, v) \<in> (linked (gs_graph st'))\<^sup>*)
    \<and> (go_createDAG go \<longrightarrow> acyclic (arcs (gs_graph st')))
    \<and> (go_sourceActor go \<longrightarrow> (\<exists>src. is_actor (gs_graph st') src
         \<and> (\<forall>v. is_actor (gs_graph st') v \<longrightarrow> (v = src \<longleftrightarrow> (\<forall>u. (u, v) \<notin> arcs (gs_graph st'))))))"
proof -
  obtain st' where t: "generate_topology lcmf cc go rc opts junk st = Inr st'" "sound L (go_createDAG go) (gs_graph st')"
      "all_linked (gs_graph st')" "go_sourceActor go \<longrightarrow> only_source (gs_graph st')"
    using generate_topology_ok [OF assms] by blast
  moreover from this have "sng_wf (gs_graph st')" "consistent (gs_graph st')"
    using sound_enlarged enlarged_keeps(1,2) by blast+
  ultimately show ?thesis
    by (intro exI [of _ st']) (simp add: sound_def all_linked_def only_source_def)
qed

theorem generated_topology_sound_witness:
  "\<exists>st'. generate_topology nat_lcm label_components example_options example_choices example_types 0 empty_state = Inr st'
    \<and> consistent (gs_graph st') \<and> acyclic (arcs (gs_graph st'))
    \<and> (\<exists>src. is_actor (gs_graph st') src \<and> (\<forall>v. is_actor (gs_graph st') v \<longrightarrow> (v = src \<longleftrightarrow> (\<forall>u. (u, v) \<notin> arcs (gs_graph st')))))"
proof -
  have o: "(0::nat) < 6" "(6::nat) < 2 ^ 63" "gs_graph empty_state = sng_empty" "go_sourceActor example_options \<or> 0 \<noteq> (0 :: nat)"
    "go_createDAG example_options" "go_sourceActor example_options"
    by (simp_all add: empty_state_def example_options_def)
  show ?thesis
    using generated_topology_sound [OF nat_lcm_fits o(1,2) example_choices_good o(3) example_draws_fair label_components_laws o(4)] o(5,6)
    by blast
qed

end
