(* ===== verification/Spec2Isabelle.thy ===== *)
theory Spec2Isabelle
  imports Multireader_Fifo Virtual_Fifo Channel_Adapter Register_Channel Channel_Names Ports Guard_Typing
    Periodic_Actor Composite_Graph FSM_Junctions
    SNG_Network SNG_Quotient SNG_Ends
begin

text \<open>
  A model of SysteMoC, a SystemC library for actor-oriented data flow models, and of its simple network
  graphs.  An actor is a node with ports and a hierarchical state machine; the transitions of the machine
  have guards over the tokens at the ports and over the variables of the actor, and actions.  Actors
  communicate through channels, bounded queues of tokens.  Channels tell nodes through events when tokens
  or places become available; a scheduler lets nodes fire while some transition is enabled.  A network
  of actors can be written to a file, transformed and read back, or generated at random.  Paths below
  are relative to \<^verbatim>\<open>src/systemoc\<close>, for the network graphs to \<^verbatim>\<open>src/systemoc-sng\<close>.

  \<^bold>\<open>Channels.\<close>
  \<^item> \<open>Queue_Pointers\<close>: the pointer classes \<^verbatim>\<open>QueueRWPtr\<close>, \<^verbatim>\<open>QueueRVWPtr\<close>, \<^verbatim>\<open>QueueFRVWPtr\<close>
    (\<^verbatim>\<open>headers/smoc/detail/\<close>); two to four indices into a ring divide it into areas.  The locale
    \<open>token_queue\<close> is what channels need of them; both builds (with and without routing) interpret it.
    Shown: pointer operations move places between the areas, and assert exactly when one is overdrawn.
  \<^item> \<open>Event_Map\<close>: \<^verbatim>\<open>EventMapManager\<close>.  Shown: updates reach exactly the events whose threshold was crossed.
  \<^item> \<open>Queue_Storage\<close>, \<open>Queue_Drop\<close>: \<^verbatim>\<open>Storage\<close>, \<^verbatim>\<open>QueueWithStorage\<close>, \<^verbatim>\<open>RingAccess\<close>, \<^verbatim>\<open>FifoStorage\<close>; where
    a token lies, and what the dropping of tokens does.
  \<^item> \<open>Fifo_Channel\<close>: \<^verbatim>\<open>FifoChanBase\<close>, \<^verbatim>\<open>FifoChan\<close>, \<^verbatim>\<open>FifoEntry\<close>, \<^verbatim>\<open>FifoOutlet\<close>.  The channel refines a
    bounded queue with a pipeline; events, order and token numbers follow.
  \<^item> \<open>Multireader_Fifo\<close> (\<^verbatim>\<open>smoc_multireader_fifo\<close>), \<open>Multiplex_Fifo\<close>, \<open>Multiplex_Refinement\<close>,
    \<open>Virtual_Fifo\<close> (\<^verbatim>\<open>smoc_multiplex_fifo\<close>): channels shared by several readers and writers, and channels
    whose tokens carry a colour and are read out of order.  The counts of the latter are exact with at most
    \<open>fifoOutOfOrder + 1\<close> initial tokens; a reset with more of them overcounts.
  \<^item> \<open>Channel_Adapter\<close> (\<^verbatim>\<open>headers/systemoc/smoc_chan_adapter.hpp\<close>): TLM access to a channel.  The locales
    \<open>token_source\<close> and \<open>token_sink\<close> are what an adapter needs of a port; the FIFO interprets both.
  \<^item> \<open>Register_Channel\<close> (\<^verbatim>\<open>RegisterChan\<close> and its parts): a value that is overwritten; \<open>Channel_Names\<close>
    (\<^verbatim>\<open>ChanBase::generateName\<close>): names of channels; \<open>Reset_Channel\<close> (\<^verbatim>\<open>smoc_reset\<close>): a token that resets
    channels and nodes of a network, while the events of the channels signal nodes that listen to them.

  \<^bold>\<open>Actors.\<close>
  \<^item> \<open>Ports\<close> (\<^verbatim>\<open>PortBase\<close>, \<^verbatim>\<open>smoc_port_out\<close>): binding, the channels behind a port, multicast.
  \<^item> \<open>Firing_Rules\<close> (\<^verbatim>\<open>smoc_guard.hpp\<close>, \<^verbatim>\<open>smoc_action\<close>, \<^verbatim>\<open>smoc_firing_rule\<close>, \<^verbatim>\<open>RuntimeFiringRule\<close>): the
    expressions of guards, the events a rule waits for, and checking it, without assertions if a guard
    reads only the tokens that it requires; \<open>Guard_Typing\<close>: their types.  Typed guards evaluate unless they
    divide by zero.
  \<^item> \<open>FSM_States\<close> (\<^verbatim>\<open>cpp/detail/FSM/*StateImpl.cpp\<close>), \<open>FSM_Ancestors\<close>: the tree of states and the codes
    that decide the ancestor relation, where \<^verbatim>\<open>flog2c\<close> gives enough bits; if it gives none for an only child,
    the relation misses the lines of only children; \<open>FSM_Product\<close> (\<^verbatim>\<open>FiringFSM.cpp\<close>), \<open>FSM_Configurations\<close>,
    \<open>FSM_Worklist\<close>: the flat machine computed from the tree; \<open>FSM_Junctions\<close>: connectors.
  \<^item> \<open>Node_Firing\<close> (\<^verbatim>\<open>NodeBase\<close>, \<^verbatim>\<open>RuntimeState\<close>, \<^verbatim>\<open>RuntimeTransition\<close>, \<^verbatim>\<open>RuntimeTransitionHook\<close>,
    \<^verbatim>\<open>SysteMoCSimulator\<close>): the waiters that the states of a machine collect at the end of its
    elaboration, where a node listens, which transition it selects, and the loop of the scheduler.
  \<^item> \<open>Dataflow_Network\<close> (\<^verbatim>\<open>PortIOBaseIf.hpp\<close>, \<^verbatim>\<open>PortBase\<close>), \<open>Network_Firing\<close>, \<open>Network_Schedules\<close>,
    \<open>Network_Start\<close>: the nodes of \<open>Node_Firing\<close> connected by channels.  The locale \<open>flow_channel\<close> is what a
    node needs of a channel with one reader and one writer, and the FIFO interprets it.  Shown: from
    elaboration and reset on, enabled transitions are those with tokens, places and guard, they run
    without assertions, firings of different nodes commute, and the tokens balance.  Each node is on
    its own; the choice among enabled transitions is in \<open>Node_Firing\<close>.
  \<^item> \<open>Periodic_Actor\<close> (\<^verbatim>\<open>smoc_periodic_actor\<close>): nodes with release times.
  \<^item> \<open>Composite_Graph\<close> (\<^verbatim>\<open>GraphBase\<close>, \<^verbatim>\<open>smoc_graph\<close>): graphs with their children, and the reset of the hierarchy, with
    the signals as in \<open>Reset_Channel\<close>.

  \<^bold>\<open>Network graphs.\<close>
  \<^item> \<open>SNG_Graph\<close> (\<^verbatim>\<open>Graph.hpp\<close>), \<open>SNG_IO\<close> (\<^verbatim>\<open>saveSNG.cpp\<close>, \<^verbatim>\<open>loadSNG.cpp\<close>, \<^verbatim>\<open>sng.xsd\<close>), \<open>SNG_Roundtrip\<close>,
    \<open>SNG_Reload\<close>, \<open>SNG_Schema\<close>, \<open>SNG_Network\<close>: saving and loading, which saved documents the schema
    allows, what comes back (with the token sizes and rates of the edges) and when it is the same.
  \<^item> \<open>SNG_Transform\<close> (\<^verbatim>\<open>transform.cpp\<close>), \<open>SNG_Merging\<close>, \<open>SNG_Quotient\<close>: merging channels is a quotient.
  \<^item> \<open>SNG_Generate\<close> (\<^verbatim>\<open>tools/src/sng-generate-sdf/cpp/sng-generate-sdf.cpp\<close>), \<open>SNG_Balance\<close>,
    \<open>SNG_Cluster\<close>: generated channels and clusters solve their balance equations; \<open>SNG_Topology\<close>
    (\<^verbatim>\<open>main\<close> of the generator): clusters, the channels between them and between components, source, inputs and
    outputs; \<open>SNG_Connected\<close>, \<open>SNG_Assembly\<close>, \<open>SNG_Ends\<close>: what is generated is connected and, on demand, acyclic.

  \<^bold>\<open>Conventions\<close> (\<open>Smoc_Prelude\<close>).  The fields of a class are a record, an inheriting class extends the
  record.  A member function takes the object and returns it changed.  A firing assertion of the
  simulation is \<^term>\<open>None\<close>; where errors are thrown or where different errors matter, a function returns
  the sum type \<open>result\<close>.  A pointer to an object is its number in a list or its key in a map.  A \<^verbatim>\<open>std::map\<close>
  whose order matters is a list in key order.  A \<^verbatim>\<open>size_t\<close> is a 64-bit word where it can wrap, and a
  natural number where an invariant bounds it.

  \<^bold>\<open>Parameters.\<close>  Code outside the repository is an argument: modulo arithmetic and events of the CoSupport
  library (\<open>CoSupport_Lib\<close>, laws \<open>mg_laws\<close> and \<open>event_laws\<close>), its function \<^verbatim>\<open>flog2c\<close> and its pool of unique
  names, the parser that validates documents, \<^verbatim>\<open>boost::math::lcm\<close>, \<^verbatim>\<open>boost::connected_components\<close> and the random generators, the user's actors (variables, guards, actions) and
  the delays of the SystemC kernel, which appear as separate steps of a run.  The signals that
  reach nodes while channels are reset are an argument too, and the theorems hold for all of them.  Each law has an instance,
  with which the witnesses are computed.

  \<^bold>\<open>Loops.\<close>  Loops over data are structural or have a measure.  Loops that may not end are partial
  functions or \<open>while_option\<close>, whose value is \<^term>\<open>None\<close> if they do not: the search through the tokens of a
  virtual FIFO, following ports outward and junctions inward, the worklist of product states, the next
  release of a periodic actor, drawing another component and the loop of the scheduler; for each a theorem says when they end.  Expanding transitions recurses through junctions, which
  may be connected in a cycle: \<open>expandTransition\<close> and \<open>expandTransitions\<close> (\<open>FSM_States\<close>) take the number of junctions as
  fuel, and \<open>FSM_Junctions\<close> shows that this is enough when there is no cycle.  There is no other fuel.

  \<^bold>\<open>Not modelled.\<close>  Reference counting, debug output, traces, dumps and the import of simulation results
  (visitors over the SystemC object tree that call the SGX library); the parsing of options; XML text;
  the actor library of Simulink blocks and sockets, which only uses the library; the deadlock analysis of the
  generator, which is a library; ids, from an allocator of CoSupport; the queue of nodes waiting for a time, which
  nothing uses; token types without values.
\<close>

end
